(* ===== verification/Kprelude.thy ===== *)
theory Kprelude imports Main "HOL-Library.Word" begin

text \<open>
  The prelude of the development: the types and conventions every component shares.

  C types on the i386 target of Linux 0.11: an \<open>unsigned long\<close> or a pointer is a 32-bit word
  (\<open>u32\<close>), a \<open>char\<close> of memory is an 8-bit word (\<open>u8\<close>). A signed \<open>long\<close> or \<open>int\<close> whose bits are never
  inspected is an \<open>int\<close>, with \<open>s32\<close> (two's complement wrap-around) around every addition and
  subtraction of the source.

  Errors: a system call returns either a non-negative value or \<open>-ERRNO\<close>; the model returns
  \<open>Inl errno\<close> or \<open>Inr value\<close> and \<open>ret_code\<close> gives the number the C code returns. Paths that do not
  return at all (\<open>panic\<close>, an endless loop) are values of \<open>stop\<close>; \<open>sbind\<close> sequences steps that may stop.
\<close>

unbundle bit_operations_syntax

type_synonym u8 = "8 word"
type_synonym u16 = "16 word"
type_synonym u32 = "32 word"

named_theorems word_simps \<open>simplification of word expressions\<close>
named_theorems frame_simps \<open>which parts of the state an operation leaves alone\<close>

section \<open>Signed 32-bit arithmetic\<close>

definition s32 :: "int \<Rightarrow> int" where
  "s32 x = (x + 2147483648) mod 4294967296 - 2147483648"

lemma s32_id [simp]: "- 2147483648 \<le> x \<Longrightarrow> x \<le> 2147483647 \<Longrightarrow> s32 x = x"
  by (simp add: s32_def mod_pos_pos_trivial)

lemma s32_range: "- 2147483648 \<le> s32 x \<and> s32 x \<le> 2147483647"
proof -
  have "0 \<le> (x + 2147483648) mod 4294967296" "(x + 2147483648) mod 4294967296 < 4294967296"
    by simp_all
  then show ?thesis unfolding s32_def by linarith
qed

lemma s32_wrap: "s32 2147483648 = - 2147483648"
  by (simp add: s32_def)

lemma of_nat_u32_inj:
  assumes "a < 4294967296" "b < 4294967296"
  shows "(of_nat a :: u32) = of_nat b \<longleftrightarrow> a = b"
proof
  assume "(of_nat a :: u32) = of_nat b"
  then have "unat (of_nat a :: u32) = unat (of_nat b :: u32)" by simp
  with assms show "a = b" by (simp add: unat_of_nat)
qed simp

section \<open>Page arithmetic on 32-bit words\<close>

lemma word_ffff000: "(0xfffff000 :: u32) = NOT (mask 12)"
  by (simp add: mask_eq_exp_minus_1 not_eq_complement)

lemma and_ffff000: "(a :: u32) AND 0xfffff000 = push_bit 12 (drop_bit 12 a)"
  unfolding word_ffff000 by (rule bit_eqI) (auto simp: bit_simps)

lemma unat_drop_bit: "unat (drop_bit n (a :: u32)) = unat a div 2 ^ n"
  by (subst unat_drop_bit_eq) (rule drop_bit_eq_div)

lemma unat_page: "unat ((a :: u32) AND 0xfffff000) = unat a div 4096 * 4096"
proof -
  have "unat a div 4096 * 4096 < 4294967296"
    using unsigned_less [of a, where 'a = nat] by simp
  then show ?thesis
    by (simp add: and_ffff000 push_bit_eq_mult unat_word_ariths unat_drop_bit)
qed

lemma unat_fff: "unat ((a :: u32) AND 0xfff) = unat a mod 4096"
proof -
  have "(0xfff :: u32) = mask 12" by (simp add: mask_eq_exp_minus_1)
  then have "a AND 0xfff = take_bit 12 a" by (simp add: take_bit_eq_mask)
  then show ?thesis by (simp add: take_bit_eq_mod unat_mod_distrib)
qed

lemma unat_3ff: "unat ((a :: u32) AND 0x3ff) = unat a mod 1024"
proof -
  have "(0x3ff :: u32) = mask 10" by (simp add: mask_eq_exp_minus_1)
  then have "a AND 0x3ff = take_bit 10 a" by (simp add: take_bit_eq_mask)
  then show ?thesis by (simp add: take_bit_eq_mod unat_mod_distrib)
qed

lemma ffc: "(drop_bit 20 (a :: u32) AND 0xffc) = push_bit 2 (drop_bit 22 a)"
proof -
  have e: "(0xffc :: u32) = mask 12 AND NOT (mask 2)"
    by (simp add: mask_eq_exp_minus_1 not_eq_complement)
  show ?thesis unfolding e by (rule bit_eqI) (auto simp: bit_simps dest: bit_imp_le_length)
qed

lemma word_7: "(7 :: u32) = mask 3" by (simp add: mask_eq_exp_minus_1)

lemma or_7_and_1: "(p OR (7 :: u32)) AND 1 \<noteq> 0"
proof
  assume "(p OR 7) AND 1 = 0"
  then have "\<not> bit (p OR 7) 0" by (simp add: bit_0 and_one_eq odd_iff_mod_2_eq_one)
  then show False unfolding word_7 by (simp add: bit_simps)
qed

section \<open>Error numbers\<close>

datatype errno =
    EPERM | ENOENT | EINTR | EIO | EBADF | ECHILD | EAGAIN | ENOMEM | EACCES | EEXIST | EXDEV
  | ENOTDIR | EISDIR | EINVAL | ENOSPC | ESPIPE | ENOTEMPTY | ERROR

fun errno_code :: "errno \<Rightarrow> int" where
  "errno_code EPERM = 1"
| "errno_code ENOENT = 2"
| "errno_code EINTR = 4"
| "errno_code EIO = 5"
| "errno_code EBADF = 9"
| "errno_code ECHILD = 10"
| "errno_code EAGAIN = 11"
| "errno_code ENOMEM = 12"
| "errno_code EACCES = 13"
| "errno_code EEXIST = 17"
| "errno_code EXDEV = 18"
| "errno_code ENOTDIR = 20"
| "errno_code EISDIR = 21"
| "errno_code EINVAL = 22"
| "errno_code ENOSPC = 28"
| "errno_code ESPIPE = 29"
| "errno_code ENOTEMPTY = 39"
| "errno_code ERROR = 99"

text \<open>The value a kernel routine leaves in \<open>eax\<close>.\<close>

definition ret_code :: "errno + int \<Rightarrow> int" where
  "ret_code r = (case r of Inl e \<Rightarrow> - errno_code e | Inr v \<Rightarrow> v)"

lemma errno_code_pos: "0 < errno_code e"
  by (cases e) simp_all

lemma errno_code_inj: "errno_code e = errno_code e' \<longleftrightarrow> e = e'"
  by (cases e; cases e') simp_all

lemma ret_code_simps [simp]: "ret_code (Inl e) = - errno_code e" "ret_code (Inr v) = v"
  by (simp_all add: ret_code_def)

section \<open>Steps that may stop\<close>

datatype stop = Panic string | Diverge

definition sbind :: "'e + 'a \<Rightarrow> ('a \<Rightarrow> 'e + 'b) \<Rightarrow> 'e + 'b" where
  "sbind m f = (case m of Inl e \<Rightarrow> Inl e | Inr x \<Rightarrow> f x)"

lemma sbind_simps [simp]: "sbind (Inl e) f = Inl e" "sbind (Inr x) f = f x"
  by (simp_all add: sbind_def)

lemma sbind_Inr_iff: "sbind m f = Inr y \<longleftrightarrow> (\<exists>x. m = Inr x \<and> f x = Inr y)"
  by (cases m) simp_all

lemma sbind_Inl_iff: "sbind m f = Inl e \<longleftrightarrow> m = Inl e \<or> (\<exists>x. m = Inr x \<and> f x = Inl e)"
  by (cases m) simp_all

section \<open>Strings in C memory\<close>

text \<open>\<open>cstr_at m p s\<close>: the bytes \<open>s\<close>, none of them NUL, stand at \<open>p\<close>, followed by a NUL.\<close>

definition cstr_at :: "(u32 \<Rightarrow> u8) \<Rightarrow> u32 \<Rightarrow> u8 list \<Rightarrow> bool" where
  "cstr_at m p s \<longleftrightarrow>
     (\<forall>i < length s. m (p + of_nat i) = s ! i \<and> s ! i \<noteq> 0) \<and> m (p + of_nat (length s)) = 0"

lemma cstr_at_nz: "cstr_at m p s \<Longrightarrow> i < length s \<Longrightarrow> m (p + of_nat i) \<noteq> 0"
  by (auto simp: cstr_at_def)

lemma cstr_at_exists:
  assumes "\<exists>i < n. m (p + of_nat i) = (0 :: u8)"
  shows "\<exists>s. cstr_at m p s \<and> length s < n"
proof -
  define k where "k = (LEAST i. m (p + of_nat i) = 0)"
  from assms obtain i where i: "i < n" "m (p + of_nat i) = 0" by blast
  have k0: "m (p + of_nat k) = 0" unfolding k_def using i(2) by (rule LeastI)
  have kn: "k < n" using i Least_le [of "\<lambda>i. m (p + of_nat i) = 0" i] unfolding k_def by simp
  have "\<And>j. j < k \<Longrightarrow> m (p + of_nat j) \<noteq> 0" unfolding k_def by (rule not_less_Least)
  then have "cstr_at m p (map (\<lambda>j. m (p + of_nat j)) [0..<k])"
    using k0 by (simp add: cstr_at_def)
  with kn show ?thesis by (intro exI [of _ "map (\<lambda>j. m (p + of_nat j)) [0..<k]"]) simp
qed

text \<open>
  The library functions the sources use on NUL-terminated arrays. \<open>strlen\<close> of an array without a
  NUL reads past it: there is no value then.
\<close>

definition c_strlen :: "u8 list \<Rightarrow> nat option" where
  "c_strlen xs = (if 0 \<in> set xs then Some (length (takeWhile (\<lambda>c. c \<noteq> 0) xs)) else None)"

definition c_str :: "u8 list \<Rightarrow> u8 list" where
  "c_str xs = takeWhile (\<lambda>c. c \<noteq> 0) xs"

text \<open>\<open>strncpy(dest, src, n)\<close>: up to \<open>n\<close> bytes of the string, then NULs up to \<open>n\<close>; the rest of
  \<open>dest\<close> is untouched, and no NUL is added when the string has \<open>n\<close> bytes or more.\<close>

definition c_strncpy :: "u8 list \<Rightarrow> u8 list \<Rightarrow> nat \<Rightarrow> u8 list" where
  "c_strncpy dest src n =
     (let s = take n (c_str src) in s @ replicate (n - length s) 0 @ drop n dest)"

lemma c_str_pad: "0 \<notin> set s \<Longrightarrow> c_str (s @ replicate n 0) = s"
  by (induction s) (auto simp: c_str_def takeWhile_replicate)

lemma c_str_stop: "0 \<notin> set s \<Longrightarrow> c_str (s @ 0 # xs) = s"
  by (induction s) (auto simp: c_str_def)

lemma c_str_no_nul: "0 \<notin> set (c_str xs)"
  by (auto simp: c_str_def dest: set_takeWhileD)

lemma c_strlen_pad: "0 \<notin> set s \<Longrightarrow> 0 < n \<Longrightarrow> c_strlen (s @ replicate n 0) = Some (length s)"
  using c_str_pad [of s n] by (simp add: c_strlen_def c_str_def)

lemma c_strncpy_pad:
  "0 \<notin> set s \<Longrightarrow> length s \<le> n \<Longrightarrow>
   c_strncpy dest (s @ replicate m 0) n = s @ replicate (n - length s) 0 @ drop n dest"
  by (simp add: c_strncpy_def c_str_pad Let_def)

text \<open>
  The loop both \<open>sys_iam\<close> and the semaphore calls use to fetch a name from user space: at most
  \<open>lim\<close> bytes from \<open>name\<close>, stopping at a NUL, into a zeroed buffer. It returns the index it stopped at
  and the last byte read (\<open>c0\<close> when none was) besides the buffer.
\<close>

function read_name :: "(u32 \<Rightarrow> u8) \<Rightarrow> u32 \<Rightarrow> nat \<Rightarrow> nat \<Rightarrow> u8 \<Rightarrow> u8 list \<Rightarrow> nat \<times> u8 \<times> u8 list"
where
  "read_name fs name lim i c0 buf =
     (if i < lim
      then let c = fs (name + of_nat i) in
           if c = 0 then (i, c, buf)
           else read_name fs name lim (Suc i) c (buf[i := c])
      else (i, c0, buf))"
  by pat_completeness auto
termination
  by (relation "measure (\<lambda>(fs, name, lim, i, c0, buf). lim - i)") auto

declare read_name.simps [simp del]

lemma read_name_upto:
  assumes "k \<le> n" "n \<le> lim" "\<And>j. j < n \<Longrightarrow> fs (name + of_nat j) \<noteq> 0"
  shows "read_name fs name lim 0 c0 (replicate lim 0) =
         read_name fs name lim k (if k = 0 then c0 else fs (name + of_nat (k - 1)))
           (map (\<lambda>j. fs (name + of_nat j)) [0..<k] @ replicate (lim - k) 0)"
  using assms(1)
proof (induction k)
  case 0
  then show ?case by simp
next
  case (Suc k)
  let ?f = "\<lambda>j. fs (name + of_nat j)"
  from Suc.prems assms(2) have k: "k < lim" by simp
  have nz: "?f k \<noteq> 0" using Suc.prems assms(3) by simp
  have upd: "(map ?f [0..<k] @ replicate (lim - k) 0)[k := ?f k]
      = map ?f [0..<Suc k] @ replicate (lim - Suc k) 0"
    using k by (simp add: list_update_append Suc_diff_Suc [symmetric])
  have "read_name fs name lim k (if k = 0 then c0 else ?f (k - 1))
          (map ?f [0..<k] @ replicate (lim - k) 0)
      = read_name fs name lim (Suc k) (?f k) (map ?f [0..<Suc k] @ replicate (lim - Suc k) 0)"
    using k nz by (subst read_name.simps) (simp only: upd Let_def if_True if_False simp_thms)
  with Suc show ?case by simp
qed

lemma read_name_cstr:
  assumes "cstr_at fs name s" "length s < lim"
  shows "read_name fs name lim 0 c0 (replicate lim 0) = (length s, 0, s @ replicate (lim - length s) 0)"
proof -
  have s: "map (\<lambda>j. fs (name + of_nat j)) [0..<length s] = s"
    using assms(1) by (intro nth_equalityI) (auto simp: cstr_at_def)
  have "read_name fs name lim 0 c0 (replicate lim 0) =
        read_name fs name lim (length s) (if length s = 0 then c0 else fs (name + of_nat (length s - 1)))
          (s @ replicate (lim - length s) 0)"
    using read_name_upto [of "length s" "length s" lim fs name c0] assms
    by (simp add: s cstr_at_nz)
  also have "\<dots> = (length s, 0, s @ replicate (lim - length s) 0)"
    using assms by (subst read_name.simps) (simp add: cstr_at_def)
  finally show ?thesis .
qed

lemma read_name_long:
  assumes "\<And>j. j < lim \<Longrightarrow> fs (name + of_nat j) \<noteq> 0" "0 < lim"
  shows "read_name fs name lim 0 c0 (replicate lim 0) =
         (lim, fs (name + of_nat (lim - 1)), map (\<lambda>j. fs (name + of_nat j)) [0..<lim])"
proof -
  have "read_name fs name lim 0 c0 (replicate lim 0) =
        read_name fs name lim lim (fs (name + of_nat (lim - 1)))
          (map (\<lambda>j. fs (name + of_nat j)) [0..<lim])"
    using read_name_upto [of lim lim lim fs name c0] assms by simp
  then show ?thesis by (simp add: read_name.simps [of fs name lim lim])
qed

lemma cstr_at_no_nul: "cstr_at m p s \<Longrightarrow> 0 \<notin> set s"
  by (auto simp: cstr_at_def in_set_conv_nth)

end
