(* ===== verification/Who.thy ===== *)
theory Who imports Kprelude begin

text \<open>
  \<open>kernel/who.c\<close> of Lab 2 (the system calls \<open>iam\<close> and \<open>whoami\<close>): the kernel keeps one name of at most
  23 characters. User memory is a function from addresses (in the \<open>fs\<close> segment) to bytes;
  \<open>get_fs_byte\<close> reads it and \<open>put_fs_byte\<close> updates it.
\<close>

definition MAX_NAME_LENGTH :: nat where
  "MAX_NAME_LENGTH = 24"

text \<open>The state is \<open>nameInKernel\<close>, the array of \<open>MAX_NAME_LENGTH\<close> bytes.\<close>

definition who_init :: "u8 list" where
  "who_init = replicate MAX_NAME_LENGTH 0"

definition sys_iam :: "(u32 \<Rightarrow> u8) \<Rightarrow> u32 \<Rightarrow> u8 list \<Rightarrow> (errno + int) \<times> u8 list" where
  "sys_iam fs name nameInKernel =
     (let (i, c, tmpNameInKernel) =
            read_name fs name MAX_NAME_LENGTH 0 0 (replicate MAX_NAME_LENGTH 0)
      in if tmpNameInKernel ! (MAX_NAME_LENGTH - 1) \<noteq> 0 then (Inl EINVAL, nameInKernel)
         else (Inr (int i), c_strncpy nameInKernel tmpNameInKernel MAX_NAME_LENGTH))"

text \<open>The copy loop of \<open>sys_whoami\<close>: bytes \<open>i\<close> to \<open>n - 1\<close> of the kernel's name to \<open>name + i\<close>.\<close>

function put_name :: "u8 list \<Rightarrow> u32 \<Rightarrow> nat \<Rightarrow> nat \<Rightarrow> (u32 \<Rightarrow> u8) \<Rightarrow> u32 \<Rightarrow> u8" where
  "put_name src name n i fs =
     (if i < n then put_name src name n (Suc i) (fs(name + of_nat i := src ! i)) else fs)"
  by pat_completeness auto
termination
  by (relation "measure (\<lambda>(src, name, n, i, fs). n - i)") auto

declare put_name.simps [simp del]

text \<open>\<open>None\<close>: the kernel's name has no NUL, so \<open>strlen\<close> would read past the array.\<close>

definition sys_whoami :: "u32 \<Rightarrow> u32 \<Rightarrow> u8 list \<Rightarrow> (u32 \<Rightarrow> u8) \<Rightarrow> ((errno + int) \<times> (u32 \<Rightarrow> u8)) option" where
  "sys_whoami name sz nameInKernel fs =
     (case c_strlen nameInKernel of
        None \<Rightarrow> None
      | Some len \<Rightarrow>
          let needLength = len + 1 in
          if needLength > unat sz then Some (Inl EINVAL, fs)
          else Some (Inr (int needLength - 1), put_name nameInKernel name needLength 0 fs))"

section \<open>The type invariant\<close>

definition who_wf :: "u8 list \<Rightarrow> bool" where
  "who_wf xs \<longleftrightarrow> length xs = MAX_NAME_LENGTH \<and> 0 \<in> set xs"

lemma who_wf_init: "who_wf who_init"
  by (simp add: who_wf_def who_init_def MAX_NAME_LENGTH_def)

lemma sys_iam_short:
  assumes "cstr_at fs name s" "length s < MAX_NAME_LENGTH" "length nk = MAX_NAME_LENGTH"
  shows "sys_iam fs name nk = (Inr (int (length s)), s @ replicate (MAX_NAME_LENGTH - length s) 0)"
proof -
  have "(s @ replicate (MAX_NAME_LENGTH - length s) (0 :: u8)) ! (MAX_NAME_LENGTH - 1) = 0"
    using assms(2) by (auto simp: nth_append not_less)
  then show ?thesis
    using assms cstr_at_no_nul [OF assms(1)]
    by (simp add: sys_iam_def read_name_cstr c_strncpy_pad)
qed

lemma sys_iam_long:
  assumes "\<And>j. j < MAX_NAME_LENGTH \<Longrightarrow> fs (name + of_nat j) \<noteq> 0"
  shows "sys_iam fs name nk = (Inl EINVAL, nk)"
proof -
  have "MAX_NAME_LENGTH - 1 < MAX_NAME_LENGTH" by (simp add: MAX_NAME_LENGTH_def)
  then have "fs (name + of_nat (MAX_NAME_LENGTH - 1)) \<noteq> 0" by (rule assms)
  with assms show ?thesis
    by (simp add: sys_iam_def read_name_long MAX_NAME_LENGTH_def del: of_nat_diff)
qed

lemma sys_iam_cases:
  obtains s where "cstr_at fs name s" "length s < MAX_NAME_LENGTH"
  | "\<And>j. j < MAX_NAME_LENGTH \<Longrightarrow> fs (name + of_nat j) \<noteq> 0"
  using cstr_at_exists [of MAX_NAME_LENGTH fs name] by blast

section \<open>The copy loop\<close>

lemma put_name_frame:
  "(\<And>j. i \<le> j \<Longrightarrow> j < n \<Longrightarrow> a \<noteq> name + of_nat j) \<Longrightarrow> put_name src name n i fs a = fs a"
proof (induction src name n i fs rule: put_name.induct)
  case (1 src name n i fs)
  show ?case
  proof (cases "i < n")
    case True
    then have "a \<noteq> name + of_nat i" using "1.prems" by blast
    then have "put_name src name n (Suc i) (fs(name + of_nat i := src ! i)) a = fs a"
      using "1.IH" [OF True] "1.prems" by (simp del: fun_upd_apply) (simp add: fun_upd_def)
    with True show ?thesis by (simp add: put_name.simps [of src name n i])
  qed (simp add: put_name.simps [of src name n i])
qed

lemma put_name_nth:
  "i \<le> k \<Longrightarrow> k < n \<Longrightarrow> n \<le> 4294967296 \<Longrightarrow>
   put_name src name n i fs (name + of_nat k) = src ! k"
proof (induction src name n i fs rule: put_name.induct)
  case (1 src name n i fs)
  have inj: "of_nat a = (of_nat b :: u32) \<longleftrightarrow> a = b" if "a < n" "b < n" for a b
    using that "1.prems"(3) by (intro of_nat_u32_inj) auto
  show ?case
  proof (cases "k = i")
    case True
    have "put_name src name n (Suc i) (fs(name + of_nat i := src ! i)) (name + of_nat i) = src ! i"
      using True "1.prems" by (subst put_name_frame) (auto simp: inj)
    with True "1.prems" show ?thesis by (simp add: put_name.simps [of src name n i])
  next
    case False
    with "1.prems" have "i < n" "Suc i \<le> k" by simp_all
    from "1.IH" [OF this "1.prems"(2,3)] \<open>i < n\<close> show ?thesis
      by (simp only: put_name.simps [of src name n i] if_True)
  qed
qed

lemma sys_whoami_padded:
  assumes "0 \<notin> set s" "length s < MAX_NAME_LENGTH"
  shows "sys_whoami buf sz (s @ replicate (MAX_NAME_LENGTH - length s) 0) mem =
    Some (if unat sz < length s + 1 then (Inl EINVAL, mem)
          else (Inr (int (length s)),
                put_name (s @ replicate (MAX_NAME_LENGTH - length s) 0) buf (length s + 1) 0 mem))"
  using assms by (simp add: sys_whoami_def c_strlen_pad Let_def)

section \<open>Properties\<close>

text \<open>Every \<open>iam\<close> call, whatever user memory holds, keeps the kernel's name a NUL-terminated
  string inside its array of 24 bytes, so that \<open>whoami\<close> never reads past the array.\<close>

theorem sys_iam_wf:
  assumes "who_wf nk"
  shows "who_wf (snd (sys_iam fs name nk)) \<and> sys_whoami buf sz (snd (sys_iam fs name nk)) mem \<noteq> None"
proof -
  have "who_wf (snd (sys_iam fs name nk))"
  proof (cases rule: sys_iam_cases [of fs name])
    case (1 s)
    with assms show ?thesis by (simp add: sys_iam_short who_wf_def)
  next
    case 2
    with assms show ?thesis by (simp add: sys_iam_long)
  qed
  then show ?thesis
    by (auto simp: sys_whoami_def who_wf_def c_strlen_def Let_def)
qed

theorem sys_iam_wf_witness:
  "who_wf (snd (sys_iam (\<lambda>_. 120) 0 who_init)) \<and>
   sys_whoami 0 5 (snd (sys_iam (\<lambda>_. 120) 0 who_init)) (\<lambda>_. 0) \<noteq> None"
  by (rule sys_iam_wf [OF who_wf_init])

text \<open>Round trip: after \<open>iam\<close> of a string of at most 23 characters, which returns its length,
  \<open>whoami\<close> into any buffer with room for it and its NUL returns the same length and leaves exactly
  that string in the buffer, without touching a byte outside the string and its NUL.\<close>

theorem iam_whoami_roundtrip:
  assumes "cstr_at fs name s" "length s \<le> 23" "length nk = 24" "length s < unat sz"
  shows "fst (sys_iam fs name nk) = Inr (int (length s)) \<and>
    (\<exists>mem'. sys_whoami buf sz (snd (sys_iam fs name nk)) mem = Some (Inr (int (length s)), mem') \<and>
      cstr_at mem' buf s \<and>
      (\<forall>a. (\<forall>j \<le> length s. a \<noteq> buf + of_nat j) \<longrightarrow> mem' a = mem a))"
proof -
  let ?nk = "s @ replicate (MAX_NAME_LENGTH - length s) 0"
  let ?mem = "put_name ?nk buf (length s + 1) 0 mem"
  have len: "length s < MAX_NAME_LENGTH" using assms(2) by (simp add: MAX_NAME_LENGTH_def)
  have iam: "sys_iam fs name nk = (Inr (int (length s)), ?nk)"
    using assms len by (intro sys_iam_short) (auto simp: MAX_NAME_LENGTH_def)
  have who: "sys_whoami buf sz ?nk mem = Some (Inr (int (length s)), ?mem)"
    using assms(4) len cstr_at_no_nul [OF assms(1)] by (simp add: sys_whoami_padded)
  have nth: "?mem (buf + of_nat k) = ?nk ! k" if "k \<le> length s" for k
    using that assms(2) by (intro put_name_nth) auto
  have "cstr_at ?mem buf s"
    unfolding cstr_at_def using nth assms(1) len
    by (auto simp: nth_append cstr_at_def simp del: of_nat_Suc)
  moreover have "\<forall>a. (\<forall>j \<le> length s. a \<noteq> buf + of_nat j) \<longrightarrow> ?mem a = mem a"
    by (intro allI impI put_name_frame) (simp add: less_Suc_eq_le)
  ultimately show ?thesis using iam who by auto
qed

theorem iam_whoami_roundtrip_witness:
  "fst (sys_iam (\<lambda>a. if a = 5 then 120 else 0) 5 who_init) = Inr 1 \<and>
   (\<exists>mem'. sys_whoami 9 2 (snd (sys_iam (\<lambda>a. if a = 5 then 120 else 0) 5 who_init)) (\<lambda>_. 7)
      = Some (Inr 1, mem') \<and> cstr_at mem' 9 [120] \<and> mem' 11 = 7)"
proof -
  let ?fs = "\<lambda>a :: u32. if a = 5 then 120 else (0 :: u8)"
  have "cstr_at ?fs 5 [120]" "length [120 :: u8] \<le> 23" "length who_init = 24"
    "length [120 :: u8] < unat (2 :: u32)"
    by (simp_all add: cstr_at_def who_init_def MAX_NAME_LENGTH_def)
  from iam_whoami_roundtrip [OF this, of 9 "\<lambda>_. 7"]
  obtain mem' where *: "fst (sys_iam ?fs 5 who_init) = Inr 1"
    "sys_whoami 9 2 (snd (sys_iam ?fs 5 who_init)) (\<lambda>_. 7) = Some (Inr 1, mem')"
    "cstr_at mem' 9 [120]"
    "\<forall>a. (\<forall>j \<le> length [120 :: u8]. a \<noteq> 9 + of_nat j) \<longrightarrow> mem' a = 7"
    by auto
  have "mem' 11 = 7"
    using *(4) by (auto simp: le_Suc_eq)
  with * show ?thesis by blast
qed

text \<open>The error branches: a name of 24 characters or more, and a buffer without room for the
  stored name and its NUL, give \<open>EINVAL\<close>, which the caller sees as a negative number, and change
  neither the kernel's name nor a byte of user memory.\<close>

theorem who_errors:
  assumes "who_wf nk" "\<And>j. j < 24 \<Longrightarrow> fs (name + of_nat j) \<noteq> 0" "unat sz \<le> length (c_str nk)"
  shows "sys_iam fs name nk = (Inl EINVAL, nk) \<and>
         sys_whoami buf sz nk mem = Some (Inl EINVAL, mem) \<and> ret_code (fst (sys_iam fs name nk)) = - 22"
proof -
  have "sys_iam fs name nk = (Inl EINVAL, nk)"
    using assms(2) by (intro sys_iam_long) (simp add: MAX_NAME_LENGTH_def)
  then show ?thesis
    using assms(1,3) by (simp add: sys_whoami_def c_strlen_def c_str_def who_wf_def Let_def)
qed

theorem who_errors_witness:
  "sys_iam (\<lambda>_. 120) 0 who_init = (Inl EINVAL, who_init) \<and>
   sys_whoami 3 0 who_init (\<lambda>_. 1) = Some (Inl EINVAL, \<lambda>_. 1) \<and>
   ret_code (fst (sys_iam (\<lambda>_. 120) 0 who_init)) = - 22"
  by (rule who_errors [OF who_wf_init]) simp_all

end
