(* ===== verification/Mm.thy ===== *)
theory Mm imports Kprelude begin

text \<open>
  \<open>mm/memory.c\<close> of Lab 6, as far as it works on physical memory and on \<open>mem_map\<close> only (the page-fault
  entry points that look at tasks are in \<open>Fault\<close>), and \<open>release_shared_page_if_exists\<close> of \<open>mm/shm.c\<close>,
  which \<open>free_page\<close> calls.

  Physical memory is a function from the address of a 32-bit word to the word. The page directory
  stands at address 0 (\<open>_pg_dir = 0\<close> in the source); page tables are pages of this memory, so a store
  to a page-table entry is a store to memory. \<open>mem_map\<close> is indexed by a page number: the C array has
  \<open>PAGING_PAGES\<close> bytes and no bounds check, so the model has a byte for every index. \<open>printk\<close> output
  and \<open>invalidate()\<close> (the reload of \<open>cr3\<close>, which flushes the translation cache) change nothing the
  model holds.
\<close>

section \<open>State\<close>

record sharedPage =
  sp_count :: u32
  physicalAddress :: u32

record mm =
  mem :: "u32 \<Rightarrow> u32"
  mem_map :: "nat \<Rightarrow> u8"
  HIGH_MEMORY :: u32
  sharedPages :: "nat \<Rightarrow> sharedPage"

text \<open>Paths that do not return: \<open>oom\<close> calls \<open>do_exit(SIGSEGV)\<close> in the state reached, \<open>panic\<close> halts.\<close>

datatype mm_stop = Oom mm | MPanic string

definition LOW_MEM :: u32 where "LOW_MEM = 0x100000"
definition PAGING_MEMORY :: nat where "PAGING_MEMORY = 15 * 1024 * 1024"
definition PAGING_PAGES :: nat where "PAGING_PAGES = PAGING_MEMORY div 4096"
definition USED :: u8 where "USED = 100"
definition MAX_SHARED_PAGES_NUM :: nat where "MAX_SHARED_PAGES_NUM = 64"

text \<open>\<open>MAP_NR\<close>: the index of the page that holds a physical address.\<close>

definition MAP_NR :: "u32 \<Rightarrow> nat" where
  "MAP_NR addr = unat (drop_bit 12 (addr - LOW_MEM))"

text \<open>The page that holds an address, and \<open>copy_page\<close> and the clearing of a page as stores.\<close>

definition page_base :: "u32 \<Rightarrow> u32" where
  "page_base a = a AND 0xfffff000"

definition clear_page :: "u32 \<Rightarrow> (u32 \<Rightarrow> u32) \<Rightarrow> u32 \<Rightarrow> u32" where
  "clear_page p m = (\<lambda>a. if page_base a = p then 0 else m a)"

definition copy_page :: "u32 \<Rightarrow> u32 \<Rightarrow> (u32 \<Rightarrow> u32) \<Rightarrow> u32 \<Rightarrow> u32" where
  "copy_page old new m = (\<lambda>a. if page_base a = new then m (a - new + old) else m a)"

definition store :: "u32 \<Rightarrow> u32 \<Rightarrow> mm \<Rightarrow> mm" where
  "store a v s = s\<lparr>mem := (mem s)(a := v)\<rparr>"

section \<open>Allocation\<close>

text \<open>\<open>std; repne scasb\<close> from the last entry of \<open>mem_map\<close> down: the highest free index below \<open>n\<close>.\<close>

fun scan_free :: "(nat \<Rightarrow> u8) \<Rightarrow> nat \<Rightarrow> nat option" where
  "scan_free m 0 = None"
| "scan_free m (Suc n) = (if m n = 0 then Some n else scan_free m n)"

definition page_addr :: "nat \<Rightarrow> u32" where
  "page_addr i = push_bit 12 (of_nat i) + LOW_MEM"

definition get_free_page :: "mm \<Rightarrow> u32 \<times> mm" where
  "get_free_page s =
     (case scan_free (mem_map s) PAGING_PAGES of
        None \<Rightarrow> (0, s)
      | Some i \<Rightarrow>
          let p = page_addr i in
          (p, s\<lparr>mem_map := (mem_map s)(i := 1), mem := clear_page p (mem s)\<rparr>))"

text \<open>\<open>release_shared_page_if_exists\<close>: \<open>True\<close> for the C result 1. The loop stops at the first entry in
  use for the address.\<close>

function release_loop :: "nat \<Rightarrow> u32 \<Rightarrow> mm \<Rightarrow> bool \<times> mm" where
  "release_loop i address s =
     (if i < MAX_SHARED_PAGES_NUM then
        (if physicalAddress (sharedPages s i) = address \<and> sp_count (sharedPages s i) \<noteq> 0 then
           (let e = sharedPages s i; c = sp_count e - 1;
                s' = s\<lparr>sharedPages := (sharedPages s)(i := e\<lparr>sp_count := c\<rparr>)\<rparr>
            in if c = 0 then (True, s') else (False, s'))
         else release_loop (Suc i) address s)
      else (True, s))"
  by pat_completeness auto
termination
  by (relation "measure (\<lambda>(i, address, s). MAX_SHARED_PAGES_NUM - i)") auto

declare release_loop.simps [simp del]

definition release_shared_page_if_exists :: "u32 \<Rightarrow> mm \<Rightarrow> bool \<times> mm" where
  "release_shared_page_if_exists addr s = release_loop 0 (push_bit 12 addr + LOW_MEM) s"

definition free_page :: "u32 \<Rightarrow> mm \<Rightarrow> mm_stop + mm" where
  "free_page addr s =
     (if addr < LOW_MEM then Inr s
      else if addr \<ge> HIGH_MEMORY s then Inl (MPanic ''trying to free nonexistent page'')
      else let addr' = drop_bit 12 (addr - LOW_MEM); i = unat addr' in
        if mem_map s i \<noteq> 0 then
          (let (last, s') = release_shared_page_if_exists addr' s in
           Inr (if last then s'\<lparr>mem_map := (mem_map s')(i := mem_map s' i - 1)\<rparr> else s'))
        else Inl (MPanic ''trying to free free page''))"

section \<open>Page tables\<close>

text \<open>The inner loop of \<open>free_page_tables\<close>: \<open>n\<close> entries from \<open>pg_table\<close> on are freed and cleared.\<close>

fun free_ptes :: "nat \<Rightarrow> u32 \<Rightarrow> mm \<Rightarrow> mm_stop + mm" where
  "free_ptes 0 pg_table s = Inr s"
| "free_ptes (Suc n) pg_table s =
     sbind (if mem s pg_table AND 1 \<noteq> 0 then free_page (0xfffff000 AND mem s pg_table) s else Inr s)
       (\<lambda>s. free_ptes n (pg_table + 4) (store pg_table 0 s))"

text \<open>The outer loop: \<open>n\<close> directory entries from \<open>dir\<close> on.\<close>

fun free_dirs :: "nat \<Rightarrow> u32 \<Rightarrow> mm \<Rightarrow> mm_stop + mm" where
  "free_dirs 0 dir s = Inr s"
| "free_dirs (Suc n) dir s =
     (if 1 AND mem s dir = 0 then free_dirs n (dir + 4) s
      else sbind (free_ptes 1024 (0xfffff000 AND mem s dir) s)
        (\<lambda>s. sbind (free_page (0xfffff000 AND mem s dir) s)
        (\<lambda>s. free_dirs n (dir + 4) (store dir 0 s))))"

definition free_page_tables :: "u32 \<Rightarrow> u32 \<Rightarrow> mm \<Rightarrow> mm_stop + mm" where
  "free_page_tables from0 sz s =
     (if from0 AND 0x3fffff \<noteq> 0 then Inl (MPanic ''free_page_tables called with wrong alignment'')
      else if from0 = 0 then Inl (MPanic ''Trying to free up swapper memory space'')
      else free_dirs (unat (drop_bit 22 (sz + 0x3fffff))) (drop_bit 20 from0 AND 0xffc) s)"

text \<open>The inner loop of \<open>copy_page_tables\<close>: a present entry is copied without its write bit; for a page
  above \<open>LOW_MEM\<close> the source entry loses its write bit too and the page gets one more user.\<close>

fun copy_ptes :: "nat \<Rightarrow> u32 \<Rightarrow> u32 \<Rightarrow> mm \<Rightarrow> mm" where
  "copy_ptes 0 from_page_table to_page_table s = s"
| "copy_ptes (Suc n) from_page_table to_page_table s =
     (let this_page = mem s from_page_table in
      if 1 AND this_page = 0 then copy_ptes n (from_page_table + 4) (to_page_table + 4) s
      else let this_page = this_page AND NOT 2;
               s = store to_page_table this_page s;
               s = (if this_page > LOW_MEM then
                      (let i = MAP_NR this_page; s = store from_page_table this_page s
                       in s\<lparr>mem_map := (mem_map s)(i := mem_map s i + 1)\<rparr>)
                    else s)
           in copy_ptes n (from_page_table + 4) (to_page_table + 4) s)"

text \<open>The outer loop; the result is 0 or -1.\<close>

fun copy_dirs :: "nat \<Rightarrow> nat \<Rightarrow> u32 \<Rightarrow> u32 \<Rightarrow> mm \<Rightarrow> mm_stop + int \<times> mm" where
  "copy_dirs 0 nr from_dir to_dir s = Inr (0, s)"
| "copy_dirs (Suc n) nr from_dir to_dir s =
     (if 1 AND mem s to_dir \<noteq> 0 then Inl (MPanic ''copy_page_tables: already exist'')
      else if 1 AND mem s from_dir = 0 then copy_dirs n nr (from_dir + 4) (to_dir + 4) s
      else let from_page_table = 0xfffff000 AND mem s from_dir;
               (to_page_table, s) = get_free_page s
           in if to_page_table = 0 then Inr (- 1, s)
              else copy_dirs n nr (from_dir + 4) (to_dir + 4)
                     (copy_ptes nr from_page_table to_page_table (store to_dir (to_page_table OR 7) s)))"

definition copy_page_tables :: "u32 \<Rightarrow> u32 \<Rightarrow> u32 \<Rightarrow> mm \<Rightarrow> mm_stop + int \<times> mm" where
  "copy_page_tables from0 to0 sz s =
     (if from0 AND 0x3fffff \<noteq> 0 \<or> to0 AND 0x3fffff \<noteq> 0
      then Inl (MPanic ''copy_page_tables called with wrong alignment'')
      else copy_dirs (unat (drop_bit 22 (sz + 0x3fffff))) (if from0 = 0 then 0xA0 else 1024)
             (drop_bit 20 from0 AND 0xffc) (drop_bit 20 to0 AND 0xffc) s)"

text \<open>The warnings \<open>put_page\<close> prints when the page is odd do not change what it does.\<close>

definition put_page :: "u32 \<Rightarrow> u32 \<Rightarrow> mm \<Rightarrow> u32 \<times> mm" where
  "put_page page address s =
     (let dir = drop_bit 20 address AND 0xffc;
          slot = push_bit 2 (drop_bit 12 address AND 0x3ff)
      in if mem s dir AND 1 \<noteq> 0 then
           (page, store ((0xfffff000 AND mem s dir) + slot) (page OR 7) s)
         else let (tmp, s) = get_free_page s in
           if tmp = 0 then (0, s)
           else (page, store (tmp + slot) (page OR 7) (store dir (tmp OR 7) s)))"

definition un_wp_page :: "u32 \<Rightarrow> mm \<Rightarrow> mm_stop + mm" where
  "un_wp_page table_entry s =
     (let old_page = 0xfffff000 AND mem s table_entry in
      if old_page \<ge> LOW_MEM \<and> mem_map s (MAP_NR old_page) = 1 then
        Inr (store table_entry (mem s table_entry OR 2) s)
      else let (new_page, s) = get_free_page s in
        if new_page = 0 then Inl (Oom s)
        else let s = (if old_page \<ge> LOW_MEM
                      then s\<lparr>mem_map := (mem_map s)(MAP_NR old_page := mem_map s (MAP_NR old_page) - 1)\<rparr>
                      else s);
                 s = store table_entry (new_page OR 7) s
             in Inr (s\<lparr>mem := copy_page old_page new_page (mem s)\<rparr>))"

definition do_wp_page :: "u32 \<Rightarrow> u32 \<Rightarrow> mm \<Rightarrow> mm_stop + mm" where
  "do_wp_page error_code address s =
     un_wp_page ((drop_bit 10 address AND 0xffc) +
       (0xfffff000 AND mem s (drop_bit 20 address AND 0xffc))) s"

definition write_verify :: "u32 \<Rightarrow> mm \<Rightarrow> mm_stop + mm" where
  "write_verify address s =
     (let page = mem s (drop_bit 20 address AND 0xffc) in
      if page AND 1 = 0 then Inr s
      else let page = (page AND 0xfffff000) + (drop_bit 10 address AND 0xffc) in
        if 3 AND mem s page = 1 then un_wp_page page s else Inr s)"

definition get_empty_page :: "u32 \<Rightarrow> mm \<Rightarrow> mm_stop + mm" where
  "get_empty_page address s =
     (let (tmp, s) = get_free_page s in
      if tmp = 0 then sbind (free_page tmp s) (\<lambda>s. Inl (Oom s))
      else let (r, s) = put_page tmp address s in
        if r = 0 then sbind (free_page tmp s) (\<lambda>s. Inl (Oom s)) else Inr s)"

section \<open>Initialisation and statistics\<close>

text \<open>\<open>mem_init\<close>: the pages from \<open>start_mem\<close> on are free, \<open>(end_mem - start_mem) >> 12\<close> of them; every
  other entry of the array is \<open>USED\<close>.\<close>

fun mem_init_loop :: "nat \<Rightarrow> nat \<Rightarrow> (nat \<Rightarrow> u8) \<Rightarrow> nat \<Rightarrow> u8" where
  "mem_init_loop 0 i m = m"
| "mem_init_loop (Suc n) i m = mem_init_loop n (Suc i) (m(i := 0))"

definition mem_init :: "u32 \<Rightarrow> u32 \<Rightarrow> mm \<Rightarrow> mm" where
  "mem_init start_mem end_mem s =
     s\<lparr>HIGH_MEMORY := end_mem,
       mem_map := mem_init_loop (nat (sint (signed_drop_bit 12 (end_mem - start_mem))))
         (MAP_NR start_mem) (\<lambda>i. if i < PAGING_PAGES then USED else mem_map s i)\<rparr>"

text \<open>\<open>calc_mem\<close>: the numbers it prints, the free pages and, for each page directory entry in use from
  the third on, its index and how many pages its table maps.\<close>

definition calc_mem :: "mm \<Rightarrow> nat \<times> (nat \<times> nat) list" where
  "calc_mem s =
     (length (filter (\<lambda>i. mem_map s i = 0) [0..<PAGING_PAGES]),
      map (\<lambda>i. (i, length (filter (\<lambda>j. mem s ((0xfffff000 AND mem s (of_nat (4 * i))) + of_nat (4 * j)) AND 1 \<noteq> 0)
                    [0..<1024])))
        (filter (\<lambda>i. 1 AND mem s (of_nat (4 * i)) \<noteq> 0) [2..<1024]))"

text \<open>How the processor (and \<open>sys_debug_paging\<close>) translates a linear address: directory entry, table
  entry, offset; \<open>None\<close> when a present bit is clear.\<close>

definition pde_addr :: "u32 \<Rightarrow> u32" where
  "pde_addr lin = push_bit 2 (drop_bit 22 lin)"

definition pte_addr :: "mm \<Rightarrow> u32 \<Rightarrow> u32" where
  "pte_addr s lin = (mem s (pde_addr lin) AND 0xfffff000) + push_bit 2 (drop_bit 12 lin AND 0x3ff)"

definition translate :: "mm \<Rightarrow> u32 \<Rightarrow> u32 option" where
  "translate s lin =
     (if mem s (pde_addr lin) AND 1 = 0 then None
      else let pte = mem s (pte_addr s lin) in
        if pte AND 1 = 0 then None else Some ((pte AND 0xfffff000) + (lin AND 0xfff)))"

section \<open>Page addresses\<close>

lemma unat_page_base: "unat (page_base a) = unat a div 4096 * 4096"
  by (simp add: page_base_def unat_page)

lemma page_base_page_base [simp]: "page_base (page_base a) = page_base a"
  by (simp add: word_unat_eq_iff unat_page_base)

lemma aligned_mult:
  assumes "page_base p = p" obtains k where "unat p = 4096 * k" "k \<le> 1048575"
proof
  show "unat p = 4096 * (unat p div 4096)" using unat_page_base [of p] assms by simp
  have "unat p < 4294967296" using unsigned_less [of p, where 'a = nat] by simp
  then show "unat p div 4096 \<le> 1048575" by simp
qed

lemma unat_aligned_add:
  assumes "page_base p = p" "unat x < 4096"
  shows "unat (p + x) = unat p + unat x"
proof -
  from assms(1) obtain k where "unat p = 4096 * k" "k \<le> 1048575" by (rule aligned_mult)
  with assms(2) have "unat p + unat x < 4294967296" by simp
  then show ?thesis by (simp add: unat_word_ariths)
qed

lemma page_base_add [simp]:
  assumes "page_base p = p" "unat x < 4096"
  shows "page_base (p + x) = p"
proof -
  from assms(1) obtain k where k: "unat p = 4096 * k" "k \<le> 1048575" by (rule aligned_mult)
  then have "(unat p + unat x) div 4096 * 4096 = unat p" using assms(2) by simp
  with assms show ?thesis by (simp add: word_unat_eq_iff unat_page_base unat_aligned_add)
qed

lemma page_base_or_7 [simp]:
  assumes "page_base p = p" shows "page_base (p OR 7) = p"
proof -
  have "page_base (p OR 7) = page_base p"
    unfolding page_base_def word_ffff000 word_7
    by (rule bit_eqI) (auto simp: bit_simps)
  with assms show ?thesis by simp
qed


end
