(* ===== verification/Paging.thy ===== *)
theory Paging imports Mm begin

text \<open>
  What the routines of \<open>Mm\<close> do: allocation, the page tables as a map from linear to physical
  addresses (\<open>translate\<close>), and the invariants \<open>pt_wf\<close> (present directory entries point to distinct
  tables that are not free) and \<open>vm_wf\<close> (no page that a process maps is free either). The first 16 MB of
  the linear space are the kernel's own: its four page tables map them onto themselves, free pages
  included, so \<open>vm_wf\<close> is about the linear addresses above them.
\<close>

unbundle bit_operations_syntax

section \<open>Allocation\<close>

lemma PAGING_PAGES_eq [simp]: "PAGING_PAGES = 3840"
  by (simp add: PAGING_PAGES_def PAGING_MEMORY_def)

lemma unat_page_addr: "i < 3840 \<Longrightarrow> unat (page_addr i) = 4096 * i + 1048576"
  by (simp add: page_addr_def LOW_MEM_def push_bit_eq_mult unat_word_ariths unat_of_nat)

lemma page_base_page_addr [simp]: "i < 3840 \<Longrightarrow> page_base (page_addr i) = page_addr i"
  by (simp add: word_unat_eq_iff unat_page_base unat_page_addr)

lemma page_addr_ge [simp]: "i < 3840 \<Longrightarrow> LOW_MEM \<le> page_addr i"
  by (simp add: word_le_nat_alt unat_page_addr LOW_MEM_def)

lemma page_addr_nz [simp]: "i < 3840 \<Longrightarrow> page_addr i \<noteq> 0"
  by (simp add: word_unat_eq_iff unat_page_addr)

lemma page_addr_inj: "i < 3840 \<Longrightarrow> j < 3840 \<Longrightarrow> page_addr i = page_addr j \<longleftrightarrow> i = j"
  by (simp add: word_unat_eq_iff unat_page_addr)

lemma MAP_NR_page_addr [simp]: "i < 3840 \<Longrightarrow> MAP_NR (page_addr i) = i"
proof -
  assume i: "i < 3840"
  have "page_addr i - LOW_MEM = push_bit 12 (of_nat i)" by (simp add: page_addr_def)
  then show ?thesis using i
    by (simp add: MAP_NR_def unat_drop_bit push_bit_eq_mult unat_word_ariths unat_of_nat)
qed

lemma scan_free_None: "scan_free m n = None \<longleftrightarrow> (\<forall>i < n. m i \<noteq> 0)"
  by (induction n) (auto simp: less_Suc_eq)

lemma scan_free_Some:
  "scan_free m n = Some i \<longleftrightarrow> i < n \<and> m i = 0 \<and> (\<forall>j. i < j \<and> j < n \<longrightarrow> m j \<noteq> 0)"
  by (induction n) (auto simp: less_Suc_eq)

text \<open>A page the allocator may hand out.\<close>

definition page_free :: "mm \<Rightarrow> u32 \<Rightarrow> bool" where
  "page_free s f \<longleftrightarrow> (\<exists>i < PAGING_PAGES. f = page_addr i \<and> mem_map s i = 0)"

lemma get_free_page_cases:
  obtains "get_free_page s = (0, s)" "\<And>i. i < PAGING_PAGES \<Longrightarrow> mem_map s i \<noteq> 0"
  | i where "i < PAGING_PAGES" "mem_map s i = 0" "\<And>j. i < j \<Longrightarrow> j < PAGING_PAGES \<Longrightarrow> mem_map s j \<noteq> 0"
      "get_free_page s = (page_addr i,
         s\<lparr>mem_map := (mem_map s)(i := 1), mem := clear_page (page_addr i) (mem s)\<rparr>)"
proof (cases "scan_free (mem_map s) PAGING_PAGES")
  case None
  then have "\<forall>i < PAGING_PAGES. mem_map s i \<noteq> 0" by (simp only: scan_free_None)
  with None show ?thesis by (intro that(1)) (simp_all add: get_free_page_def)
next
  case (Some i)
  then have i: "i < PAGING_PAGES" "mem_map s i = 0"
    "\<And>j. i < j \<Longrightarrow> j < PAGING_PAGES \<Longrightarrow> mem_map s j \<noteq> 0"
    unfolding scan_free_Some by auto
  show ?thesis by (rule that(2) [OF i]) (use Some in \<open>simp_all add: get_free_page_def Let_def\<close>)
qed

lemma unat_pde_addr: "unat (pde_addr l) = 4 * (unat l div 4194304)"
proof -
  have "unat l < 4294967296" using unsigned_less [of l, where 'a = nat] by simp
  then have "unat l div 4194304 < 1024" by simp
  then show ?thesis
    by (simp add: pde_addr_def push_bit_eq_mult unat_word_ariths unat_drop_bit)
qed

definition pte_slot :: "u32 \<Rightarrow> u32" where
  "pte_slot l = push_bit 2 (drop_bit 12 l AND 0x3ff)"

lemma unat_pte_slot: "unat (pte_slot l) = 4 * (unat l div 4096 mod 1024)"
proof -
  have "unat l div 4096 mod 1024 < 1024" by simp
  then show ?thesis
    by (simp add: pte_slot_def push_bit_eq_mult unat_word_ariths unat_drop_bit unat_3ff)
qed

lemma page_base_pde_addr [simp]: "page_base (pde_addr l) = 0"
proof -
  have "unat l < 4294967296" using unsigned_less [of l, where 'a = nat] by simp
  then have "4 * (unat l div 4194304) < 4096" by simp
  then show ?thesis by (simp add: word_unat_eq_iff unat_page_base unat_pde_addr)
qed

lemma pte_slot_less [simp]: "unat (pte_slot l) < 4096"
  by (simp add: unat_pte_slot)

lemma pde_addr_alt: "drop_bit 20 l AND 0xffc = pde_addr l"
  by (simp add: ffc pde_addr_def)

lemma and_commute_page: "0xfffff000 AND x = page_base x"
  by (simp add: page_base_def and.commute)

lemma put_page_alt: "put_page page address s =
  (if mem s (pde_addr address) AND 1 \<noteq> 0 then
     (page, store (page_base (mem s (pde_addr address)) + pte_slot address) (page OR 7) s)
   else let (tmp, s) = get_free_page s in
     if tmp = 0 then (0, s)
     else (page, store (tmp + pte_slot address) (page OR 7) (store (pde_addr address) (tmp OR 7) s)))"
  unfolding put_page_def Let_def pde_addr_alt and_commute_page pte_slot_def by (rule refl)

lemma pte_addr_alt: "pte_addr s l = page_base (mem s (pde_addr l)) + pte_slot l"
  by (simp add: pte_addr_def page_base_def pte_slot_def)

lemma same_page:
  assumes "drop_bit 12 l = drop_bit 12 l'"
  shows "pde_addr l = pde_addr l'" "pte_slot l = pte_slot l'"
proof -
  have "drop_bit 22 l = drop_bit 22 l'"
    using arg_cong [OF assms, of "drop_bit 10"] by (simp add: drop_bit_drop_bit)
  then show "pde_addr l = pde_addr l'" by (simp add: pde_addr_def)
  from assms show "pte_slot l = pte_slot l'" by (simp add: pte_slot_def)
qed

lemma page_split:
  assumes "pde_addr l = pde_addr l'" "pte_slot l = pte_slot l'"
  shows "drop_bit 12 l = drop_bit 12 l'"
proof -
  from assms have "unat l div 4194304 = unat l' div 4194304"
    "unat l div 4096 mod 1024 = unat l' div 4096 mod 1024"
    by (metis unat_pde_addr nat_mult_eq_cancel1 zero_less_numeral)
       (metis assms(2) unat_pte_slot nat_mult_eq_cancel1 zero_less_numeral)
  moreover have "unat x div 4096 = unat x div 4194304 * 1024 + unat x div 4096 mod 1024" for x :: u32
    by (simp add: div_mult2_eq [of _ 4096 1024, simplified])
  ultimately have "unat l div 4096 = unat l' div 4096" by metis
  then show ?thesis by (simp add: word_unat_eq_iff unat_drop_bit)
qed

section \<open>Translation\<close>

text \<open>The invariant of the page tables.\<close>

definition pt_wf :: "mm \<Rightarrow> bool" where
  "pt_wf s \<longleftrightarrow>
     (\<forall>l. mem s (pde_addr l) AND 1 \<noteq> 0 \<longrightarrow>
        page_base (mem s (pde_addr l)) \<noteq> 0 \<and> \<not> page_free s (page_base (mem s (pde_addr l)))) \<and>
     (\<forall>l l'. mem s (pde_addr l) AND 1 \<noteq> 0 \<longrightarrow> mem s (pde_addr l') AND 1 \<noteq> 0 \<longrightarrow>
        page_base (mem s (pde_addr l)) = page_base (mem s (pde_addr l')) \<longrightarrow> pde_addr l = pde_addr l')"

lemma mm_store_simps [simp]: "mem (store a v s) = (mem s)(a := v)" "mem_map (store a v s) = mem_map s"
  "HIGH_MEMORY (store a v s) = HIGH_MEMORY s" "sharedPages (store a v s) = sharedPages s"
  by (simp_all add: store_def)


lemma clear_page_simps [simp]:
  "page_base a = p \<Longrightarrow> clear_page p m a = 0" "page_base a \<noteq> p \<Longrightarrow> clear_page p m a = m a"
  by (simp_all add: clear_page_def)

lemma pt_addr_neq:
  assumes "page_base f = f" "f \<noteq> 0"
  shows "f + pte_slot l \<noteq> pde_addr l'" "pde_addr l' \<noteq> f + pte_slot l"
proof -
  have "page_base (f + pte_slot l) = f" using assms by simp
  then show "f + pte_slot l \<noteq> pde_addr l'" using assms(2) by (metis page_base_pde_addr)
  then show "pde_addr l' \<noteq> f + pte_slot l" by metis
qed

lemma pt_slot_inj:
  assumes "page_base f = f" "page_base g = g"
  shows "f + pte_slot l = g + pte_slot l' \<longleftrightarrow> f = g \<and> pte_slot l = pte_slot l'"
proof
  assume eq: "f + pte_slot l = g + pte_slot l'"
  then have "page_base (f + pte_slot l) = page_base (g + pte_slot l')" by simp
  with assms have "f = g" by simp
  with eq show "f = g \<and> pte_slot l = pte_slot l'" by simp
qed simp

lemma pt_wf_frame: "pt_wf s \<Longrightarrow> mem s (pde_addr l) AND 1 \<noteq> 0 \<Longrightarrow>
    page_base (mem s (pde_addr l)) \<noteq> 0 \<and> \<not> page_free s (page_base (mem s (pde_addr l)))"
  by (simp add: pt_wf_def)

lemma pt_wf_inj: "pt_wf s \<Longrightarrow> mem s (pde_addr l) AND 1 \<noteq> 0 \<Longrightarrow> mem s (pde_addr l') AND 1 \<noteq> 0 \<Longrightarrow>
    page_base (mem s (pde_addr l)) = page_base (mem s (pde_addr l')) \<Longrightarrow> pde_addr l = pde_addr l'"
  by (simp add: pt_wf_def)

text \<open>A store to a page-table entry.\<close>

lemma translate_store_pte:
  assumes wf: "pt_wf s" and p: "mem s (pde_addr a) AND 1 \<noteq> 0"
  shows "translate (store (pte_addr s a) v s) l =
    (if drop_bit 12 l = drop_bit 12 a
     then (if v AND 1 = 0 then None else Some ((v AND 0xfffff000) + (l AND 0xfff)))
     else translate s l)"
proof -
  let ?f = "page_base (mem s (pde_addr a))"
  let ?s = "store (pte_addr s a) v s"
  have f: "page_base ?f = ?f" "?f \<noteq> 0" using pt_wf_frame [OF wf p] by simp_all
  have pde: "mem ?s (pde_addr l) = mem s (pde_addr l)" for l
    using pt_addr_neq [OF f] by (simp add: pte_addr_alt)
  have pte: "pte_addr ?s l = pte_addr s l" for l
    using pde [of l] by (metis pte_addr_alt)
  show ?thesis
  proof (cases "drop_bit 12 l = drop_bit 12 a")
    case True
    then have "pde_addr l = pde_addr a" "pte_addr s l = pte_addr s a"
      by (simp_all add: same_page [OF True] pte_addr_alt)
    with True p show ?thesis by (simp add: translate_def pde pte Let_def)
  next
    case False
    have "pte_addr s l \<noteq> pte_addr s a" if "mem s (pde_addr l) AND 1 \<noteq> 0"
      using False page_split [of l a] pt_wf_inj [OF wf that p]
      by (auto simp: pte_addr_alt pt_slot_inj)
    moreover have "pde_addr l \<noteq> pte_addr s a" using pt_addr_neq [OF f] by (simp add: pte_addr_alt)
    ultimately show ?thesis using False by (auto simp: translate_def pde pte Let_def)
  qed
qed

text \<open>A fresh page table: the directory entry points to a cleared page that was free.\<close>

lemma translate_new_table:
  assumes wf: "pt_wf s" and np: "mem s (pde_addr a) AND 1 = 0"
    and i: "i < PAGING_PAGES" "mem_map s i = 0"
    and s': "s' = store (pde_addr a) (page_addr i OR 7)
       (s\<lparr>mem_map := (mem_map s)(i := 1), mem := clear_page (page_addr i) (mem s)\<rparr>)"
  shows "translate s' l = translate s l" "pt_wf s'" "mem s' (pde_addr a) = page_addr i OR 7"
proof -
  let ?p = "page_addr i"
  from i have p: "page_base ?p = ?p" "?p \<noteq> 0" by simp_all
  have free: "page_free s ?p" using i by (auto simp: page_free_def)
  have pde: "mem s' (pde_addr l) = (if pde_addr l = pde_addr a then ?p OR 7 else mem s (pde_addr l))" for l
    using p by (simp add: s')
  then show "mem s' (pde_addr a) = ?p OR 7" by simp
  have pd': "mem s' (pde_addr l) AND 1 \<noteq> 0 \<longleftrightarrow> pde_addr l = pde_addr a \<or> mem s (pde_addr l) AND 1 \<noteq> 0" for l
    by (simp add: pde or_7_and_1)
  have base: "page_base (mem s' (pde_addr l)) = (if pde_addr l = pde_addr a then ?p else page_base (mem s (pde_addr l)))" for l
    using p by (simp add: pde)
  have old: "page_base (mem s (pde_addr l)) \<noteq> ?p" if "mem s (pde_addr l) AND 1 \<noteq> 0" for l
    using pt_wf_frame [OF wf that] free by auto
  have fr: "page_free s' f \<longleftrightarrow> page_free s f \<and> f \<noteq> ?p" for f
    using i by (auto simp: page_free_def s' page_addr_inj split: if_splits)
  show "translate s' l = translate s l"
  proof (cases "pde_addr l = pde_addr a")
    case True
    have "mem s' (pte_addr s' l) = 0"
      using p pt_addr_neq [OF p, of l a] by (simp add: pte_addr_alt base True) (simp add: s')
    with True np show ?thesis by (simp add: translate_def Let_def)
  next
    case False
    have "mem s' (pte_addr s l) = mem s (pte_addr s l)" if "mem s (pde_addr l) AND 1 \<noteq> 0"
      using pt_addr_neq [of "page_base (mem s (pde_addr l))" l a] pt_wf_frame [OF wf that] old [OF that]
      by (simp add: pte_addr_alt s')
    with False show ?thesis by (simp add: translate_def Let_def pde pte_addr_alt)
  qed
  have one: "page_base (mem s' (pde_addr l)) \<noteq> 0 \<and> \<not> page_free s' (page_base (mem s' (pde_addr l)))"
    if "mem s' (pde_addr l) AND 1 \<noteq> 0" for l
    using that p pt_wf_frame [OF wf, of l] by (auto simp: pd' base fr)
  have two: "pde_addr l = pde_addr l'" if "mem s' (pde_addr l) AND 1 \<noteq> 0" "mem s' (pde_addr l') AND 1 \<noteq> 0"
    "page_base (mem s' (pde_addr l)) = page_base (mem s' (pde_addr l'))" for l l'
  proof (cases "pde_addr l = pde_addr a"; cases "pde_addr l' = pde_addr a")
    assume *: "pde_addr l \<noteq> pde_addr a" "pde_addr l' \<noteq> pde_addr a"
    with that have "mem s (pde_addr l) AND 1 \<noteq> 0" "mem s (pde_addr l') AND 1 \<noteq> 0" by (simp_all only: pd' simp_thms)
    moreover from * that(3) have "page_base (mem s (pde_addr l)) = page_base (mem s (pde_addr l'))"
      by (simp only: base if_False)
    ultimately show ?thesis by (rule pt_wf_inj [OF wf])
  next
    assume *: "pde_addr l = pde_addr a" "pde_addr l' \<noteq> pde_addr a"
    with that have "mem s (pde_addr l') AND 1 \<noteq> 0" by (simp only: pd' simp_thms)
    with old that(3) * show ?thesis by (metis base)
  next
    assume *: "pde_addr l \<noteq> pde_addr a" "pde_addr l' = pde_addr a"
    with that have "mem s (pde_addr l) AND 1 \<noteq> 0" by (simp only: pd' simp_thms)
    with old that(3) * show ?thesis by (metis base)
  qed simp
  show "pt_wf s'" unfolding pt_wf_def using one two by blast
qed


text \<open>The linear addresses below 16 MB belong to the kernel, which maps all of physical memory there, one
  to one; every process but task 0 lives above. No page mapped above is on the free list.\<close>

definition USER_SPACE :: u32 where "USER_SPACE = 0x1000000"

definition kernel_map :: "mm \<Rightarrow> bool" where
  "kernel_map s \<longleftrightarrow> (\<forall>l < USER_SPACE. translate s l = Some l)"

definition vm_wf :: "mm \<Rightarrow> bool" where
  "vm_wf s \<longleftrightarrow> pt_wf s \<and> (\<forall>l f. USER_SPACE \<le> l \<longrightarrow> translate s l = Some f \<longrightarrow> \<not> page_free s (page_base f))"

lemma vm_wf_page: "vm_wf s \<Longrightarrow> USER_SPACE \<le> l \<Longrightarrow> translate s l = Some f \<Longrightarrow> \<not> page_free s (page_base f)"
  unfolding vm_wf_def by blast

lemma translate_frame: "translate s l = Some f \<Longrightarrow>
    mem s (pde_addr l) AND 1 \<noteq> 0 \<and> mem s (pte_addr s l) AND 1 \<noteq> 0 \<and>
    f = page_base (mem s (pte_addr s l)) + (l AND 0xfff)"
  by (auto simp: translate_def Let_def page_base_def split: if_splits)

lemma page_base_offset [simp]: "page_base (page_base a + (l AND 0xfff)) = page_base a"
  by (simp add: unat_fff)

lemma page_off:
  assumes "page_base p = p" shows "(p + (a AND 0xfff)) AND 0xfff = a AND 0xfff"
proof -
  from assms obtain k where k: "unat p = 4096 * k" by (rule aligned_mult)
  have "unat (p + (a AND 0xfff)) = unat p + unat (a AND 0xfff)"
    using assms by (intro unat_aligned_add) (simp_all add: unat_fff)
  then show ?thesis by (simp add: word_unat_eq_iff unat_fff k)
qed

lemma translate_off: "translate s l = Some f \<Longrightarrow> f AND 0xfff = l AND 0xfff"
  by (drule translate_frame) (auto simp: page_off)

lemma page_or_7: "page_base p = p \<Longrightarrow> (p OR 7) AND 0xfffff000 = p"
  using page_base_or_7 [of p] by (simp only: page_base_def)

lemma get_free_page_vm:
  assumes "vm_wf s" "get_free_page s = (p, s')" "p \<noteq> 0"
  shows "page_base p = p" "\<not> page_free s' p" "page_free s p"
proof -
  have "page_base p = p \<and> \<not> page_free s' p \<and> page_free s p"
    using assms(2,3)
    by (cases rule: get_free_page_cases [of s]) (auto simp: page_free_def page_addr_inj)
  then show "page_base p = p" "\<not> page_free s' p" "page_free s p" by simp_all
qed

text \<open>\<open>put_page\<close> maps exactly the wanted linear page and keeps everything else mapped as it was.\<close>

lemma put_page_wf:
  assumes wf: "pt_wf s" and page: "page_base page = page" "page \<noteq> 0"
    and put: "put_page page a s = (r, s')" and r: "r \<noteq> 0"
  shows "r = page" "pt_wf s'"
    "translate s' l = (if drop_bit 12 l = drop_bit 12 a then Some (page + (l AND 0xfff)) else translate s l)"
    "\<And>f. page_free s' f \<Longrightarrow> page_free s f" "sharedPages s' = sharedPages s" "HIGH_MEMORY s' = HIGH_MEMORY s"
proof -
  have store: "translate (store (pte_addr t a) (page OR 7) t) l =
      (if drop_bit 12 l = drop_bit 12 a then Some (page + (l AND 0xfff)) else translate t l)"
    and wf': "pt_wf (store (pte_addr t a) (page OR 7) t)"
    if t: "pt_wf t" "mem t (pde_addr a) AND 1 \<noteq> 0" for t
  proof -
    show "translate (store (pte_addr t a) (page OR 7) t) l =
      (if drop_bit 12 l = drop_bit 12 a then Some (page + (l AND 0xfff)) else translate t l)"
      by (simp only: translate_store_pte [OF t] or_7_and_1 page_or_7 [OF page(1)] if_False)
    have "mem (store (pte_addr t a) (page OR 7) t) (pde_addr l) = mem t (pde_addr l)" for l
      using pt_wf_frame [OF t] pt_addr_neq(2) [of "page_base (mem t (pde_addr a))" l a]
      by (simp add: pte_addr_alt)
    moreover have "page_free (store (pte_addr t a) (page OR 7) t) f = page_free t f" for f
      by (simp add: page_free_def)
    ultimately show "pt_wf (store (pte_addr t a) (page OR 7) t)"
      using t(1) unfolding pt_wf_def by metis
  qed
  have *: "r = page \<and> pt_wf s' \<and>
    translate s' l = (if drop_bit 12 l = drop_bit 12 a then Some (page + (l AND 0xfff)) else translate s l) \<and>
    (\<forall>f. page_free s' f \<longrightarrow> page_free s f) \<and> sharedPages s' = sharedPages s \<and> HIGH_MEMORY s' = HIGH_MEMORY s"
  proof (cases "mem s (pde_addr a) AND 1 \<noteq> 0")
    case True
    with put have "r = page" "s' = store (pte_addr s a) (page OR 7) s"
      by (auto simp: put_page_alt pte_addr_alt)
    with store [OF wf True] wf' [OF wf True] show ?thesis by (simp add: page_free_def)
  next
    case False
    then have np: "mem s (pde_addr a) AND 1 = 0" by simp
    show ?thesis
    proof (cases rule: get_free_page_cases [of s])
      case 1
      with put r np show ?thesis by (simp add: put_page_alt)
    next
      case (2 i)
      define t where "t = store (pde_addr a) (page_addr i OR 7)
       (s\<lparr>mem_map := (mem_map s)(i := 1), mem := clear_page (page_addr i) (mem s)\<rparr>)"
      note nt = translate_new_table [OF wf np 2(1,2) t_def]
      have pte: "page_addr i + pte_slot a = pte_addr t a"
        using 2(1) by (simp add: pte_addr_alt nt(3))
      have s': "r = page" "s' = store (pte_addr t a) (page OR 7) t"
        using put np 2 page_addr_nz [of i] by (auto simp: put_page_alt pte t_def [symmetric])
      have pr: "mem t (pde_addr a) AND 1 \<noteq> 0" by (simp add: nt(3) or_7_and_1)
      show ?thesis
        using store [OF nt(2) pr] wf' [OF nt(2) pr] s' nt(1)
        by (auto simp: page_free_def t_def split: if_splits)
    qed
  qed
  then show "r = page" "pt_wf s'"
    "translate s' l = (if drop_bit 12 l = drop_bit 12 a then Some (page + (l AND 0xfff)) else translate s l)"
    "\<And>f. page_free s' f \<Longrightarrow> page_free s f" "sharedPages s' = sharedPages s" "HIGH_MEMORY s' = HIGH_MEMORY s"
    by simp_all
qed


text \<open>Copy on write.\<close>

lemma pte_slot_alt: "drop_bit 10 a AND 0xffc = pte_slot a"
proof -
  have e: "(0xffc :: u32) = mask 12 AND NOT (mask 2)" "(0x3ff :: u32) = mask 10"
    by (simp_all add: mask_eq_exp_minus_1 not_eq_complement)
  show ?thesis unfolding e pte_slot_def by (rule bit_eqI) (auto simp: bit_simps)
qed

lemma do_wp_page_alt: "do_wp_page ec a s = un_wp_page (pte_addr s a) s"
  by (simp add: do_wp_page_def pte_slot_alt pde_addr_alt and_commute_page pte_addr_alt add.commute)

lemma un_wp_page_alt: "un_wp_page e s =
  (let old = page_base (mem s e) in
   if old \<ge> LOW_MEM \<and> mem_map s (MAP_NR old) = 1 then Inr (store e (mem s e OR 2) s)
   else case get_free_page s of (new, s) \<Rightarrow>
     if new = 0 then Inl (Oom s)
     else Inr (s\<lparr>mem_map := (if old \<ge> LOW_MEM then (mem_map s)(MAP_NR old := mem_map s (MAP_NR old) - 1)
                             else mem_map s),
                mem := copy_page old new ((mem s)(e := new OR 7))\<rparr>))"
  by (auto simp: un_wp_page_def and_commute_page Let_def store_def split: prod.splits)

lemma or_2_simps: "page_base (x OR 2) = page_base x" "(x OR 2) AND 1 = x AND (1 :: u32)" "(x OR 2) AND 2 \<noteq> (0 :: u32)"
    "(p OR 7) AND 2 \<noteq> (0 :: u32)"
proof -
  have e: "(2 :: u32) = push_bit 1 1" "(1 :: u32) = mask 1"
    by (simp_all add: mask_eq_exp_minus_1)
  show "page_base (x OR 2) = page_base x"
    unfolding page_base_def word_ffff000 e(1) by (rule bit_eqI) (auto simp: bit_simps)
  show "(x OR 2) AND 1 = x AND (1 :: u32)"
    by (simp add: bit.conj_disj_distrib2)
  have "bit ((x OR 2) AND 2) 1" unfolding e(1) by (simp add: bit_simps)
  then show "(x OR 2) AND 2 \<noteq> (0 :: u32)" by auto
  have "bit ((p OR 7) AND 2) 1" unfolding e(1) word_7 by (simp add: bit_simps)
  then show "(p OR 7) AND 2 \<noteq> (0 :: u32)" by auto
qed

lemma page_free_MAP_NR:
  assumes "\<not> page_free s f" "page_base f = f"
  shows "page_free (s\<lparr>mem_map := (mem_map s)(MAP_NR f := v)\<rparr>) g \<Longrightarrow> v \<noteq> 0 \<Longrightarrow> page_free s g"
  by (auto simp: page_free_def split: if_splits)

lemma translate_cong:
  assumes "mem s' (pde_addr l) = mem s (pde_addr l)"
    and "mem s (pde_addr l) AND 1 \<noteq> 0 \<Longrightarrow> mem s' (pte_addr s l) = mem s (pte_addr s l)"
  shows "translate s' l = translate s l"
proof -
  have "pte_addr s' l = pte_addr s l" using assms(1) by (simp add: pte_addr_def)
  with assms show ?thesis by (cases "mem s (pde_addr l) AND 1 = 0") (simp_all add: translate_def)
qed

lemma pt_wf_cong:
  assumes "pt_wf s" "\<And>l. mem s' (pde_addr l) = mem s (pde_addr l)" "\<And>f. page_free s' f \<Longrightarrow> page_free s f"
  shows "pt_wf s'"
  using assms unfolding pt_wf_def by metis

lemma pte_addr_page: "page_base (pte_addr s l) = page_base (mem s (pde_addr l))"
  by (simp add: pte_addr_alt)

lemma pte_addr_inj:
  assumes "pt_wf s" "mem s (pde_addr l) AND 1 \<noteq> 0" "mem s (pde_addr a) AND 1 \<noteq> 0"
    "pte_addr s l = pte_addr s a"
  shows "drop_bit 12 l = drop_bit 12 a"
  using assms page_split [of l a] pt_wf_inj [OF assms(1-3)] by (auto simp: pte_addr_alt pt_slot_inj)

lemma vm_wfI:
  assumes "pt_wf s" "\<And>l f. USER_SPACE \<le> l \<Longrightarrow> translate s l = Some f \<Longrightarrow> \<not> page_free s (page_base f)"
  shows "vm_wf s"
  using assms by (simp add: vm_wf_def)

lemma copy_page_new:
  assumes "page_base x = new"
  shows "copy_page old new m x = m (x - new + old)"
  using assms by (simp add: copy_page_def)

lemma copy_page_other: "page_base x \<noteq> new \<Longrightarrow> copy_page old new m x = m x"
  by (simp add: copy_page_def)

lemma rebase:
  assumes "page_base p = p" "page_base q = q" "page_base x = p"
  shows "page_base (x - p + q) = q"
proof -
  have "unat x = unat x div 4096 * 4096 + unat x mod 4096" by simp
  moreover have "unat p = unat x div 4096 * 4096" using assms(3) by (metis unat_page_base)
  ultimately have "unat (x - p) = unat x mod 4096"
    by (metis add_diff_cancel_left' assms(3) le_add1 unat_sub_if')
  then have "unat (x - p) < 4096" by simp
  then have "page_base (q + (x - p)) = q" using assms(2) by (intro page_base_add)
  then show ?thesis by (simp only: add.commute)
qed

lemma MAP_NR_aligned:
  assumes "page_base p = p" "LOW_MEM \<le> p"
  shows "unat p = 4096 * MAP_NR p + 1048576"
proof -
  from assms(1) obtain k where k: "unat p = 4096 * k" by (rule aligned_mult)
  have "1048576 \<le> unat p" using assms(2) by (simp add: word_le_nat_alt LOW_MEM_def)
  moreover from this have "unat (p - LOW_MEM) = unat p - 1048576"
    by (simp add: unat_sub_if' LOW_MEM_def)
  ultimately show ?thesis by (simp add: MAP_NR_def unat_drop_bit k)
qed

lemma MAP_NR_neq:
  assumes "page_base p = p" "LOW_MEM \<le> p" "i < 3840" "p \<noteq> page_addr i"
  shows "MAP_NR p \<noteq> i"
  using MAP_NR_aligned [OF assms(1,2)] assms(3,4) by (auto simp: word_unat_eq_iff unat_page_addr)

lemma un_wp_page_sole:
  assumes wf: "vm_wf s" and tr: "translate s a = Some f"
    and one: "LOW_MEM \<le> page_base f" "mem_map s (MAP_NR (page_base f)) = 1"
  shows "un_wp_page (pte_addr s a) s = Inr (store (pte_addr s a) (mem s (pte_addr s a) OR 2) s)"
    "translate (store (pte_addr s a) (mem s (pte_addr s a) OR 2) s) l = translate s l"
    "vm_wf (store (pte_addr s a) (mem s (pte_addr s a) OR 2) s)"
proof -
  let ?e = "pte_addr s a" and ?s = "store (pte_addr s a) (mem s (pte_addr s a) OR 2) s"
  have pt: "pt_wf s" using wf by (simp add: vm_wf_def)
  from translate_frame [OF tr] have p: "mem s (pde_addr a) AND 1 \<noteq> 0" "mem s ?e AND 1 \<noteq> 0"
    and f: "f = page_base (mem s ?e) + (a AND 0xfff)" by auto
  show "un_wp_page ?e s = Inr ?s" using one by (simp add: un_wp_page_alt f)
  show tr': "translate ?s l = translate s l" for l
  proof (cases "drop_bit 12 l = drop_bit 12 a")
    case True
    have "translate s l = Some (page_base (mem s ?e) + (l AND 0xfff))"
      using p same_page [OF True]
      by (simp add: translate_def pte_addr_alt Let_def page_base_def)
    moreover have "translate ?s l = Some (page_base (mem s ?e OR 2) + (l AND 0xfff))"
      using p True by (subst translate_store_pte [OF pt p(1)]) (simp add: or_2_simps page_base_def)
    ultimately show ?thesis by (simp add: or_2_simps)
  next
    case False
    then show ?thesis by (simp add: translate_store_pte [OF pt p(1)])
  qed
  have "mem ?s (pde_addr l) = mem s (pde_addr l)" for l
    using pt_wf_frame [OF pt p(1)] pt_addr_neq(2) [of "page_base (mem s (pde_addr a))" l a]
    by (simp add: pte_addr_alt)
  then have "pt_wf ?s" by (rule pt_wf_cong [OF pt]) (simp add: page_free_def)
  with wf show "vm_wf ?s" by (simp add: vm_wf_def tr' page_free_def)
qed

lemma un_wp_page_shared:
  assumes wf: "vm_wf s" and us: "USER_SPACE \<le> a" and tr: "translate s a = Some f"
    and tbl: "page_base f \<noteq> page_base (pte_addr s a)"
    and two: "\<not> (LOW_MEM \<le> page_base f \<and> mem_map s (MAP_NR (page_base f)) = 1)"
    and i: "i < PAGING_PAGES" "mem_map s i = 0"
      "get_free_page s = (page_addr i,
         s\<lparr>mem_map := (mem_map s)(i := 1), mem := clear_page (page_addr i) (mem s)\<rparr>)"
  obtains s' where "un_wp_page (pte_addr s a) s = Inr s'"
    "\<And>l. translate s' l = (if drop_bit 12 l = drop_bit 12 a then Some (page_addr i + (l AND 0xfff)) else translate s l)"
    "mem s' (pte_addr s' a) = page_addr i OR 7"
    "\<And>x. page_base x = page_base f \<Longrightarrow> mem s' (x - page_base f + page_addr i) = mem s x"
    "\<And>x. page_base x \<noteq> page_addr i \<Longrightarrow> x \<noteq> pte_addr s a \<Longrightarrow> mem s' x = mem s x"
    "mem_map s' = (if LOW_MEM \<le> page_base f
       then (mem_map s)(i := 1, MAP_NR (page_base f) := mem_map s (MAP_NR (page_base f)) - 1)
       else (mem_map s)(i := 1))"
    "vm_wf s'"
proof -
  let ?e = "pte_addr s a" and ?old = "page_base f" and ?new = "page_addr i"
  have pt: "pt_wf s" using wf by (simp add: vm_wf_def)
  from translate_frame [OF tr] have p: "mem s (pde_addr a) AND 1 \<noteq> 0" "mem s ?e AND 1 \<noteq> 0"
    and f: "f = page_base (mem s ?e) + (a AND 0xfff)" by auto
  have old: "page_base (mem s ?e) = ?old" by (simp add: f)
  have new: "page_base ?new = ?new" "?new \<noteq> 0" using i by simp_all
  have fr: "page_free s ?new" using i by (auto simp: page_free_def)
  have nf: "\<not> page_free s ?old" by (rule vm_wf_page [OF wf us tr])
  then have on: "?old \<noteq> ?new" using fr by metis
  have tn: "page_base (pte_addr s l) \<noteq> ?new" if "mem s (pde_addr l) AND 1 \<noteq> 0" for l
    using pt_wf_frame [OF pt that] fr by (auto simp: pte_addr_page)
  have mo: "MAP_NR ?old \<noteq> i" if "LOW_MEM \<le> ?old"
    using MAP_NR_neq [of ?old i] that i on by simp
  define m where "m = copy_page ?old ?new ((clear_page ?new (mem s))(?e := ?new OR 7))"
  define mp where "mp = (if LOW_MEM \<le> ?old
       then (mem_map s)(i := 1, MAP_NR ?old := mem_map s (MAP_NR ?old) - 1) else (mem_map s)(i := 1))"
  define s' where "s' = s\<lparr>mem_map := mp, mem := m\<rparr>"
  have m_other: "m x = mem s x" if "page_base x \<noteq> ?new" "x \<noteq> ?e" for x
    using that by (simp add: m_def copy_page_other)
  have m_e: "m ?e = ?new OR 7" using tn [OF p(1)] by (simp add: m_def copy_page_other)
  have m_new: "m (x - ?old + ?new) = mem s x" if "page_base x = ?old" for x
  proof -
    have "page_base (x - ?old + ?new) = ?new" using that new by (intro rebase) simp_all
    then have "m (x - ?old + ?new) = ((clear_page ?new (mem s))(?e := ?new OR 7)) x"
      by (simp add: m_def copy_page_new)
    also have "\<dots> = mem s x" using that on tbl by auto
    finally show ?thesis .
  qed
  have m_pde: "m (pde_addr l) = mem s (pde_addr l)" for l
    using m_other [of "pde_addr l"] new pt_wf_frame [OF pt p(1)]
      pt_addr_neq(2) [of "page_base (mem s (pde_addr a))" l a] by (simp add: pte_addr_alt)
  have frs: "page_free s g" if "page_free s' g" for g
    using that two by (auto simp: page_free_def s'_def mp_def split: if_splits)
  have pte: "pte_addr s' l = pte_addr s l" for l by (simp add: pte_addr_def s'_def m_pde)
  have tr': "translate s' l = (if drop_bit 12 l = drop_bit 12 a then Some (?new + (l AND 0xfff)) else translate s l)" for l
  proof (cases "drop_bit 12 l = drop_bit 12 a")
    case True
    have "pde_addr l = pde_addr a" "pte_addr s l = ?e" by (simp_all add: same_page [OF True] pte_addr_alt)
    then show ?thesis using True p(1) new
      by (simp add: translate_def pte Let_def) (simp add: s'_def m_pde m_e or_7_and_1 page_or_7)
  next
    case False
    have "m (pte_addr s l) = mem s (pte_addr s l)" if "mem s (pde_addr l) AND 1 \<noteq> 0"
      using False pte_addr_inj [OF pt that p(1)] tn [OF that] by (intro m_other) auto
    then have "translate s' l = translate s l" by (intro translate_cong) (simp_all add: s'_def m_pde)
    with False show ?thesis by simp
  qed
  have wf': "vm_wf s'"
  proof (rule vm_wfI)
    show "pt_wf s'" by (rule pt_wf_cong [OF pt]) (use frs in \<open>simp_all add: s'_def m_pde\<close>)
    show "\<not> page_free s' (page_base g)" if "USER_SPACE \<le> l" "translate s' l = Some g" for l g
    proof (cases "drop_bit 12 l = drop_bit 12 a")
      case True
      with that have g: "page_base g = ?new" using new by (auto simp: tr' unat_fff)
      have "mp i \<noteq> 0" using mo by (auto simp: mp_def)
      then show ?thesis using i by (auto simp: g page_free_def s'_def page_addr_inj)
    next
      case False
      with that wf frs show ?thesis by (auto simp: tr' vm_wf_def)
    qed
  qed
  have s'_e: "mem s' (pte_addr s' a) = ?new OR 7" by (simp only: pte) (simp add: s'_def m_e)
  have "un_wp_page ?e s = Inr s'"
    using two i(3) new mo by (simp add: un_wp_page_alt old Let_def) (auto simp: s'_def mp_def m_def)
  then show thesis
    by (rule that) (use tr' s'_e wf' in \<open>simp_all add: m_new m_other\<close>, simp_all add: s'_def mp_def m_new m_other)
qed


section \<open>Properties\<close>

text \<open>\<open>get_free_page\<close> returns 0, changing nothing, exactly when no page of the paging area is free;
  otherwise it returns the address of the free page with the highest index, page-aligned and in the
  paging area, marks exactly that page used once, clears it, and changes no other word of memory.\<close>

theorem get_free_page_correct:
  "(fst (get_free_page s) = 0 \<longleftrightarrow> (\<forall>i < 3840. mem_map s i \<noteq> 0)) \<and>
   (fst (get_free_page s) = 0 \<longrightarrow> snd (get_free_page s) = s) \<and>
   (fst (get_free_page s) \<noteq> 0 \<longrightarrow>
     (\<exists>i < 3840. fst (get_free_page s) = page_addr i \<and> unat (page_addr i) = 1048576 + 4096 * i \<and>
        mem_map s i = 0 \<and> (\<forall>j. i < j \<and> j < 3840 \<longrightarrow> mem_map s j \<noteq> 0) \<and>
        mem_map (snd (get_free_page s)) = (mem_map s)(i := 1) \<and>
        (\<forall>x. mem (snd (get_free_page s)) x = (if page_base x = page_addr i then 0 else mem s x)) \<and>
        sharedPages (snd (get_free_page s)) = sharedPages s))"
proof (cases rule: get_free_page_cases [of s])
  case 1
  then show ?thesis by simp
next
  case (2 i)
  then show ?thesis by (auto simp: unat_page_addr clear_page_def intro!: exI [of _ i])
qed

text \<open>\<open>put_page\<close> and the address translation agree: in a well-formed set of page tables, putting a
  page at a linear address makes every address of that linear page translate to the page (same
  offset), leaves the translation of every other address alone, and keeps the tables well-formed, also
  when it had to allocate a page table.\<close>

theorem put_page_translate:
  assumes "pt_wf s" "page_base page = page" "page \<noteq> 0" "put_page page a s = (r, s')" "r \<noteq> 0"
  shows "r = page \<and> pt_wf s' \<and>
    (\<forall>l. translate s' l = (if drop_bit 12 l = drop_bit 12 a then Some (page + (l AND 0xfff)) else translate s l))"
  using put_page_wf [OF assms] by blast

definition mm_start :: mm where
  "mm_start = \<lparr>mem = (\<lambda>_. 0), mem_map = (\<lambda>i. if i < 100 then 0 else USED), HIGH_MEMORY = 0x1000000,
     sharedPages = (\<lambda>_. \<lparr>sp_count = 0, physicalAddress = 0\<rparr>)\<rparr>"

lemma scan_free_skip: "(\<And>j. i < j \<Longrightarrow> j < n \<Longrightarrow> m j \<noteq> 0) \<Longrightarrow> m i = 0 \<Longrightarrow> i < n \<Longrightarrow> scan_free m n = Some i"
  by (simp add: scan_free_Some)

lemma get_free_page_start: "get_free_page mm_start =
    (page_addr 99, mm_start\<lparr>mem_map := (mem_map mm_start)(99 := 1), mem := clear_page (page_addr 99) (mem mm_start)\<rparr>)"
proof -
  have "scan_free (mem_map mm_start) PAGING_PAGES = Some 99"
    by (rule scan_free_skip) (simp_all add: mm_start_def USED_def)
  then show ?thesis by (simp add: get_free_page_def Let_def)
qed

lemma pt_wf_start: "pt_wf mm_start"
  by (simp add: pt_wf_def mm_start_def)

theorem get_free_page_correct_witness:
  "fst (get_free_page mm_start) = page_addr 99 \<and> mem_map (snd (get_free_page mm_start)) 99 = 1 \<and>
   unat (page_addr 99) = 1454080"
  using get_free_page_correct [of mm_start] by (simp add: get_free_page_start unat_page_addr)

theorem put_page_translate_witness:
  "\<exists>s'. put_page (page_addr 500) 0x8001234 mm_start = (page_addr 500, s') \<and>
     translate s' 0x8001238 = Some (page_addr 500 + 0x238) \<and> translate s' 0x8002238 = None"
proof -
  obtain s' where put: "put_page (page_addr 500) 0x8001234 mm_start = (page_addr 500, s')"
  proof -
    have "mem mm_start (pde_addr 0x8001234) AND 1 = 0" by (simp add: mm_start_def)
    then show thesis by (intro that) (simp add: put_page_alt get_free_page_start)
  qed
  have p: "page_base (page_addr 500) = page_addr 500" "page_addr 500 \<noteq> 0" by simp_all
  note * = put_page_translate [OF pt_wf_start p put p(2)]
  have "translate s' 0x8001238 = Some (page_addr 500 + 0x238)" using * by simp
  moreover have "translate mm_start 0x8002238 = None" by (simp add: translate_def mm_start_def)
  with * have "translate s' 0x8002238 = None" by simp
  ultimately show ?thesis using put by blast
qed


lemma put_page_vm:
  assumes "vm_wf s" "page_base page = page" "page \<noteq> 0" "\<not> page_free s page"
    and "put_page page a s = (r, s')" "r \<noteq> 0"
  shows "vm_wf s'"
proof (rule vm_wfI)
  have pt: "pt_wf s" using assms(1) by (simp add: vm_wf_def)
  note put = put_page_wf [OF pt assms(2,3,5,6)]
  show "pt_wf s'" by (rule put(2))
  show "\<not> page_free s' (page_base f)" if "USER_SPACE \<le> l" "translate s' l = Some f" for l f
    using that put(3) [of l] put(4) [of "page_base f"] assms(1,2,4)
    by (auto simp: vm_wf_def unat_fff split: if_splits)
qed

text \<open>A concrete memory: the page directory and the four page tables of the kernel at 0x1000 to 0x4fff as the
  boot code leaves them, and then one page table (page 99) with one page (page 500, 100 users) mapped.\<close>

definition mm_boot :: mm where
  "mm_boot = mm_start\<lparr>mem := (\<lambda>a. if a < 16 then push_bit 10 a + 0x1007
     else if 0x1000 \<le> a \<and> a < 0x5000 then push_bit 10 (a - 0x1000) + 7 else 0)\<rparr>"

definition mm_one :: mm where
  "mm_one = snd (put_page (page_addr 500) 0x8001234 mm_boot)"

lemma mm_boot_simps [simp]: "mem_map mm_boot = mem_map mm_start" "HIGH_MEMORY mm_boot = HIGH_MEMORY mm_start"
  "sharedPages mm_boot = sharedPages mm_start"
  by (simp_all add: mm_boot_def)

lemma get_free_page_boot: "get_free_page mm_boot =
    (page_addr 99, mm_boot\<lparr>mem_map := (mem_map mm_start)(99 := 1), mem := clear_page (page_addr 99) (mem mm_boot)\<rparr>)"
proof -
  have "scan_free (mem_map mm_start) PAGING_PAGES = Some 99"
    by (rule scan_free_skip) (simp_all add: mm_start_def USED_def)
  then show ?thesis by (simp add: get_free_page_def Let_def)
qed

lemma entry_7:
  assumes "unat (x :: u32) = 4096 * k + 7"
  shows "x AND 1 \<noteq> 0" "unat (page_base x) = 4096 * k"
proof -
  have "unat x = 1 + 2 * (2048 * k + 3)" using assms by simp
  then have "unat x mod 2 = 1" by (simp only: mod_mult_self2) simp
  then have "unat (x AND 1) = 1" by (simp add: and_one_eq unat_mod_distrib)
  then show "x AND 1 \<noteq> 0" by (metis unat_0 zero_neq_one)
  show "unat (page_base x) = 4096 * k" by (simp add: unat_page_base assms)
qed

lemma boot_entry: "unat (x :: u32) < 16384 \<Longrightarrow> unat (push_bit 10 x + 7) = 1024 * unat x + 7"
  by (simp add: push_bit_eq_mult unat_word_ariths)

lemma boot_pde:
  "USER_SPACE \<le> l \<Longrightarrow> mem mm_boot (pde_addr l) = 0"
  "\<not> USER_SPACE \<le> l \<Longrightarrow> mem mm_boot (pde_addr l) AND 1 \<noteq> 0 \<and>
     unat (page_base (mem mm_boot (pde_addr l))) = 4096 * (unat l div 4194304 + 1) \<and> unat l div 4194304 < 4"
proof -
  let ?d = "unat l div 4194304"
  assume l: "USER_SPACE \<le> l"
  have "unat l < 4294967296" using unsigned_less [of l, where 'a = nat] by simp
  with l have "4 \<le> ?d" "?d < 1024" by (simp_all add: USER_SPACE_def word_le_nat_alt)
  then show "mem mm_boot (pde_addr l) = 0"
    by (simp add: mm_boot_def word_le_nat_alt word_less_nat_alt unat_pde_addr)
next
  let ?d = "unat l div 4194304"
  assume "\<not> USER_SPACE \<le> l"
  then have d: "?d < 4" by (simp add: USER_SPACE_def word_le_nat_alt less_mult_imp_div_less)
  then have "mem mm_boot (pde_addr l) = push_bit 10 (pde_addr l) + 0x1007"
    by (simp add: mm_boot_def word_less_nat_alt unat_pde_addr)
  then have "unat (mem mm_boot (pde_addr l)) = 4096 * (?d + 1) + 7"
    using d by (simp add: push_bit_eq_mult unat_word_ariths unat_pde_addr)
  with d show "mem mm_boot (pde_addr l) AND 1 \<noteq> 0 \<and>
     unat (page_base (mem mm_boot (pde_addr l))) = 4096 * (?d + 1) \<and> ?d < 4" using entry_7 by blast
qed

lemma boot_pte: "4096 \<le> unat a \<Longrightarrow> unat a < 20480 \<Longrightarrow> mem mm_boot a = push_bit 10 (a - 0x1000) + 7"
  by (simp add: mm_boot_def word_le_nat_alt word_less_nat_alt)

lemma pt_wf_boot: "pt_wf mm_boot"
proof -
  have "page_base (mem mm_boot (pde_addr l)) \<noteq> 0 \<and> \<not> page_free mm_boot (page_base (mem mm_boot (pde_addr l)))"
    if "mem mm_boot (pde_addr l) AND 1 \<noteq> 0" for l
    using that boot_pde [of l] by (cases "USER_SPACE \<le> l") (auto simp: page_free_def unat_page_addr word_unat_eq_iff)
  moreover have "pde_addr l = pde_addr l'" if "mem mm_boot (pde_addr l) AND 1 \<noteq> 0" "mem mm_boot (pde_addr l') AND 1 \<noteq> 0"
    "page_base (mem mm_boot (pde_addr l)) = page_base (mem mm_boot (pde_addr l'))" for l l'
  proof -
    have n: "\<not> USER_SPACE \<le> l" "\<not> USER_SPACE \<le> l'" using that(1,2) boot_pde(1) by force+
    have "unat l div 4194304 = unat l' div 4194304" using that(3) boot_pde(2) [OF n(1)] boot_pde(2) [OF n(2)] by auto
    then show ?thesis by (simp add: word_unat_eq_iff unat_pde_addr)
  qed
  ultimately show ?thesis unfolding pt_wf_def by blast
qed

lemma translate_boot: "translate mm_boot l = (if USER_SPACE \<le> l then None else Some l)"
proof (cases "USER_SPACE \<le> l")
  case True
  then show ?thesis by (simp add: translate_def boot_pde)
next
  case False
  let ?d = "unat l div 4194304" and ?t = "unat l div 4096 mod 1024"
  note pd = boot_pde(2) [OF False]
  have "unat (pte_addr mm_boot l) = 4096 * (?d + 1) + 4 * ?t"
    using pd by (simp add: pte_addr_alt unat_aligned_add unat_pte_slot)
  moreover have t: "?t < 1024" by simp
  moreover have "?d < 4" using pd by blast
  ultimately have b: "4096 \<le> unat (pte_addr mm_boot l)" "unat (pte_addr mm_boot l) < 20480"
    and u: "unat (pte_addr mm_boot l - 0x1000) = 4096 * ?d + 4 * ?t" "4096 * ?d + 4 * ?t < 16384"
    by (simp_all add: unat_sub_if')
  have "unat (mem mm_boot (pte_addr mm_boot l)) = 1024 * (4096 * ?d + 4 * ?t) + 7"
    unfolding boot_pte [OF b] using u by (subst boot_entry) simp_all
  moreover have "unat l div 4096 = ?d * 1024 + ?t" by (simp add: div_mult2_eq [of _ 4096 1024, simplified])
  ultimately have "unat (mem mm_boot (pte_addr mm_boot l)) = 4096 * (unat l div 4096) + 7"
    by simp
  note e = entry_7 [OF this]
  have "page_base (mem mm_boot (pte_addr mm_boot l)) = page_base l"
    using e(2) unat_page_base [of l] by (simp only: word_unat_eq_iff)
  then have "translate mm_boot l = Some (page_base l + (l AND 0xfff))"
    using pd e(1) False by (simp add: translate_def Let_def page_base_def [symmetric])
  moreover have "page_base l + (l AND 0xfff) = l"
    by (simp add: word_unat_eq_iff unat_aligned_add unat_fff unat_page_base)
  ultimately show ?thesis using False by simp
qed

lemma put_page_boot: "put_page (page_addr 500) 0x8001234 mm_boot = (page_addr 500, mm_one)"
    "mem mm_boot (pde_addr 0x8001234) AND 1 = 0"
proof -
  show np: "mem mm_boot (pde_addr 0x8001234) AND 1 = 0" by (simp add: boot_pde USER_SPACE_def)
  then show "put_page (page_addr 500) 0x8001234 mm_boot = (page_addr 500, mm_one)"
    by (simp add: mm_one_def put_page_alt get_free_page_boot)
qed

lemma mm_one_alt: "mm_one = store (page_addr 99 + pte_slot 0x8001234) (page_addr 500 OR 7)
      (store (pde_addr 0x8001234) (page_addr 99 OR 7)
      (mm_boot\<lparr>mem_map := (mem_map mm_start)(99 := 1), mem := clear_page (page_addr 99) (mem mm_boot)\<rparr>))"
  by (simp add: mm_one_def put_page_alt get_free_page_boot put_page_boot(2))

lemma mm_one_translate: "translate mm_one l = (if drop_bit 12 l = drop_bit 12 0x8001234
    then Some (page_addr 500 + (l AND 0xfff)) else if USER_SPACE \<le> l then None else Some l)"
  by (subst put_page_wf(3) [OF pt_wf_boot _ _ put_page_boot(1)]) (simp_all add: translate_boot)

lemma kernel_map_one: "kernel_map mm_one"
proof -
  have "drop_bit 12 l \<noteq> drop_bit 12 0x8001234" if "l < USER_SPACE" for l
  proof
    assume "drop_bit 12 l = drop_bit 12 0x8001234"
    then have "unat (drop_bit 12 l) = unat (drop_bit 12 (0x8001234 :: u32))" by (rule arg_cong)
    then have "unat l div 4096 = 32769" by (simp add: unat_drop_bit) 
    with that show False by (simp add: USER_SPACE_def word_less_nat_alt)
  qed
  then show ?thesis by (auto simp: kernel_map_def mm_one_translate)
qed

lemma mm_one_facts:
  "vm_wf mm_one" "translate mm_one 0x8001234 = Some (page_addr 500 + 0x234)"
  "page_base (pte_addr mm_one 0x8001234) = page_addr 99"
  "mem_map mm_one = (mem_map mm_start)(99 := 1)"
proof -
  let ?a = "0x8001234 :: u32"
  have p: "page_base (page_addr 500) = page_addr 500" "page_addr 500 \<noteq> 0" by simp_all
  have nf: "\<not> page_free mm_boot (page_addr 500)"
    by (auto simp: page_free_def page_addr_inj mm_start_def USED_def)
  have vm: "vm_wf mm_boot" by (simp add: vm_wf_def pt_wf_boot translate_boot)
  show "vm_wf mm_one" by (rule put_page_vm [OF vm p nf put_page_boot(1) p(2)])
  show "translate mm_one ?a = Some (page_addr 500 + 0x234)" by (simp add: mm_one_translate)
  have "page_addr 99 + pte_slot ?a \<noteq> pde_addr ?a" by (rule pt_addr_neq) simp_all
  then show "page_base (pte_addr mm_one ?a) = page_addr 99"
    by (simp add: pte_addr_page mm_one_alt)
  show "mem_map mm_one = (mem_map mm_start)(99 := 1)" by (simp add: mm_one_alt)
qed


end
