(* ===== verification/Shm.thy ===== *)
theory Shm imports Paging begin

text \<open>
  \<open>mm/shm.c\<close> of Lab 6: one shared page for each key below 64. An entry of \<open>sharedPages\<close> is in use when
  its count is not 0; \<open>shmget\<close> counts up, and \<open>free_page\<close> (in \<open>Mm\<close>, through
  \<open>release_shared_page_if_exists\<close>) counts down and gives the page back with the last user.
\<close>

unbundle bit_operations_syntax

definition PAGE_SIZE :: u32 where "PAGE_SIZE = 4096"

definition sys_shmget :: "u32 \<Rightarrow> u32 \<Rightarrow> mm \<Rightarrow> (errno + int) \<times> mm" where
  "sys_shmget key sz s =
     (if sz > PAGE_SIZE then (Inl EINVAL, s)
      else if unat key \<ge> MAX_SHARED_PAGES_NUM then (Inl ENOMEM, s)
      else let k = unat key; e = sharedPages s k in
        if physicalAddress e \<noteq> 0 \<and> sp_count e \<noteq> 0 then
          (Inr (int k), s\<lparr>sharedPages := (sharedPages s)(k := e\<lparr>sp_count := sp_count e + 1\<rparr>)\<rparr>)
        else let (page, s) = get_free_page s in
          if page = 0 then (Inl ENOMEM, s)
          else (Inr (int k), s\<lparr>sharedPages := (sharedPages s)
                 (k := e\<lparr>physicalAddress := page, sp_count := sp_count e + 1\<rparr>)\<rparr>))"

text \<open>\<open>sys_shmat\<close> for a process whose segment starts at \<open>base\<close> (\<open>get_base(current->ldt[1])\<close>) and whose
  \<open>current->brk\<close> is \<open>brk\<close>: the result, the new \<open>brk\<close> and memory.\<close>

definition sys_shmat :: "int \<Rightarrow> u32 \<Rightarrow> u32 \<Rightarrow> mm \<Rightarrow> (errno + u32) \<times> u32 \<times> mm" where
  "sys_shmat shmid base brk s =
     (let key = unat (word_of_int shmid :: u32); logicalAddress = brk; linearAddress = base + brk in
      if key \<ge> MAX_SHARED_PAGES_NUM \<or> sp_count (sharedPages s key) = 0
         \<or> physicalAddress (sharedPages s key) = 0
      then (Inl EINVAL, brk, s)
      else let (r, s) = put_page (physicalAddress (sharedPages s key)) linearAddress s in
        if r = 0 then (Inl EINVAL, brk, s) else (Inr logicalAddress, brk + PAGE_SIZE, s))"

section \<open>The invariant of the table\<close>

definition shm_used :: "mm \<Rightarrow> nat \<Rightarrow> bool" where
  "shm_used s k \<longleftrightarrow> k < MAX_SHARED_PAGES_NUM \<and> sp_count (sharedPages s k) \<noteq> 0"

definition shm_wf :: "mm \<Rightarrow> bool" where
  "shm_wf s \<longleftrightarrow>
     (\<forall>k. shm_used s k \<longrightarrow>
        (\<exists>i < PAGING_PAGES. physicalAddress (sharedPages s k) = page_addr i \<and> mem_map s i \<noteq> 0)) \<and>
     (\<forall>k j. shm_used s k \<longrightarrow> shm_used s j \<longrightarrow>
        physicalAddress (sharedPages s k) = physicalAddress (sharedPages s j) \<longrightarrow> k = j)"

lemma shm_wf_page:
  assumes "shm_wf s" "shm_used s k"
  obtains i where "i < 3840" "physicalAddress (sharedPages s k) = page_addr i" "mem_map s i \<noteq> 0"
  using assms by (auto simp: shm_wf_def)

lemma shm_wf_inj: "shm_wf s \<Longrightarrow> shm_used s k \<Longrightarrow> shm_used s j \<Longrightarrow>
    physicalAddress (sharedPages s k) = physicalAddress (sharedPages s j) \<Longrightarrow> k = j"
  by (simp add: shm_wf_def)

section \<open>Release\<close>

lemma release_loop_hit:
  assumes "i \<le> k" "k < MAX_SHARED_PAGES_NUM"
    and "physicalAddress (sharedPages s k) = a" "sp_count (sharedPages s k) \<noteq> 0"
    and "\<And>j. i \<le> j \<Longrightarrow> j < k \<Longrightarrow> \<not> (physicalAddress (sharedPages s j) = a \<and> sp_count (sharedPages s j) \<noteq> 0)"
  shows "release_loop i a s =
    (sp_count (sharedPages s k) = 1,
     s\<lparr>sharedPages := (sharedPages s)(k := (sharedPages s k)\<lparr>sp_count := sp_count (sharedPages s k) - 1\<rparr>)\<rparr>)"
  using assms
proof (induction i a s rule: release_loop.induct)
  case (1 i a s)
  show ?case
  proof (cases "i = k")
    case True
    have "release_loop k a s = (let e = sharedPages s k; c = sp_count e - 1;
        s' = s\<lparr>sharedPages := (sharedPages s)(k := e\<lparr>sp_count := c\<rparr>)\<rparr>
        in if c = 0 then (True, s') else (False, s'))"
      using "1.prems" by (simp only: release_loop.simps [of k] if_True conj_absorb simp_thms)
    also have "\<dots> = (sp_count (sharedPages s k) = 1,
       s\<lparr>sharedPages := (sharedPages s)(k := (sharedPages s k)\<lparr>sp_count := sp_count (sharedPages s k) - 1\<rparr>)\<rparr>)"
      by (auto simp: Let_def)
    finally show ?thesis by (simp only: True)
  next
    case False
    with "1.prems" have n: "i < MAX_SHARED_PAGES_NUM"
      "\<not> (physicalAddress (sharedPages s i) = a \<and> sp_count (sharedPages s i) \<noteq> 0)" "Suc i \<le> k" by auto
    have "release_loop (Suc i) a s =
      (sp_count (sharedPages s k) = 1,
       s\<lparr>sharedPages := (sharedPages s)(k := (sharedPages s k)\<lparr>sp_count := sp_count (sharedPages s k) - 1\<rparr>)\<rparr>)"
      using "1.prems" n(3) by (intro "1.IH" [OF n(1,2)]) auto
    with n show ?thesis by (simp only: release_loop.simps [of i] if_True if_False)
  qed
qed

lemma release_loop_miss:
  "(\<And>j. i \<le> j \<Longrightarrow> j < MAX_SHARED_PAGES_NUM \<Longrightarrow>
      \<not> (physicalAddress (sharedPages s j) = a \<and> sp_count (sharedPages s j) \<noteq> 0)) \<Longrightarrow>
   release_loop i a s = (True, s)"
proof (induction i a s rule: release_loop.induct)
  case (1 i a s)
  show ?case
  proof (cases "i < MAX_SHARED_PAGES_NUM")
    case True
    with "1.prems" [of i] have n: "\<not> (physicalAddress (sharedPages s i) = a \<and> sp_count (sharedPages s i) \<noteq> 0)" by simp
    have "release_loop (Suc i) a s = (True, s)" using "1.prems" by (intro "1.IH" [OF True n]) auto
    with True n show ?thesis by (simp only: release_loop.simps [of i] if_True if_False)
  qed (simp add: release_loop.simps [of i])
qed

lemma page_addr_of_index: "i < 3840 \<Longrightarrow> push_bit 12 (drop_bit 12 (page_addr i - LOW_MEM)) + LOW_MEM = page_addr i"
proof -
  assume i: "i < 3840"
  have e: "page_addr i - LOW_MEM = push_bit 12 (of_nat i)" by (simp add: page_addr_def)
  have "drop_bit 12 (push_bit 12 (of_nat i :: u32)) = of_nat i"
    using i by (simp add: word_unat_eq_iff unat_drop_bit push_bit_eq_mult unat_word_ariths unat_of_nat)
  then show ?thesis by (simp only: e) (simp add: page_addr_def)
qed

lemma free_page_used:
  assumes "i < 3840" "page_addr i < HIGH_MEMORY s" "mem_map s i \<noteq> 0"
  shows "free_page (page_addr i) s =
    (let (last, s') = release_loop 0 (page_addr i) s in
     Inr (if last then s'\<lparr>mem_map := (mem_map s')(i := mem_map s' i - 1)\<rparr> else s'))"
proof -
  have nb: "\<not> page_addr i < LOW_MEM" using assms(1) by (simp add: not_less)
  have ix: "unat (drop_bit 12 (page_addr i - LOW_MEM)) = i"
    using MAP_NR_page_addr [OF assms(1)] by (simp add: MAP_NR_def)
  have nh: "\<not> HIGH_MEMORY s \<le> page_addr i" using assms(2) by simp
  show ?thesis
    unfolding free_page_def release_shared_page_if_exists_def Let_def ix
    by (simp only: if_not_P [OF nb] if_not_P [OF nh] if_P [OF assms(3)] page_addr_of_index [OF assms(1)])
qed

lemma free_page_private:
  assumes "i < 3840" "page_addr i < HIGH_MEMORY s" "mem_map s i \<noteq> 0"
    and "\<And>k. shm_used s k \<Longrightarrow> physicalAddress (sharedPages s k) \<noteq> page_addr i"
  shows "free_page (page_addr i) s = Inr (s\<lparr>mem_map := (mem_map s)(i := mem_map s i - 1)\<rparr>)"
proof -
  have "release_loop 0 (page_addr i) s = (True, s)"
    using assms(4) by (intro release_loop_miss) (auto simp: shm_used_def)
  with free_page_used [OF assms(1-3)] show ?thesis by simp
qed

lemma free_page_shm:
  assumes wf: "shm_wf s" and k: "shm_used s k" and i: "physicalAddress (sharedPages s k) = page_addr i"
    "i < 3840" "page_addr i < HIGH_MEMORY s"
  shows "free_page (page_addr i) s = Inr (s\<lparr>
      sharedPages := (sharedPages s)(k := (sharedPages s k)\<lparr>sp_count := sp_count (sharedPages s k) - 1\<rparr>),
      mem_map := (if sp_count (sharedPages s k) = 1 then (mem_map s)(i := mem_map s i - 1) else mem_map s)\<rparr>)"
proof -
  have m: "mem_map s i \<noteq> 0"
    using shm_wf_page [OF wf k] i by (metis page_addr_inj)
  have "release_loop 0 (page_addr i) s =
    (sp_count (sharedPages s k) = 1,
     s\<lparr>sharedPages := (sharedPages s)(k := (sharedPages s k)\<lparr>sp_count := sp_count (sharedPages s k) - 1\<rparr>)\<rparr>)"
  proof (rule release_loop_hit)
    show "\<not> (physicalAddress (sharedPages s j) = page_addr i \<and> sp_count (sharedPages s j) \<noteq> 0)" if "j < k" for j
    proof
      assume *: "physicalAddress (sharedPages s j) = page_addr i \<and> sp_count (sharedPages s j) \<noteq> 0"
      with that k have "shm_used s j" by (simp add: shm_used_def)
      with * have "k = j" by (intro shm_wf_inj [OF wf k]) (simp_all add: i)
      with that show False by simp
    qed
  qed (use k i in \<open>simp_all add: shm_used_def\<close>)
  with free_page_used [OF i(2,3) m] show ?thesis by simp
qed

section \<open>Preservation of the invariant\<close>

lemma shm_wf_mono:
  assumes "shm_wf s" "sharedPages s' = sharedPages s"
    and "\<And>i. i < 3840 \<Longrightarrow> mem_map s i \<noteq> 0 \<Longrightarrow> mem_map s' i \<noteq> 0"
  shows "shm_wf s'"
proof -
  have u: "shm_used s' k \<longleftrightarrow> shm_used s k" for k by (simp add: shm_used_def assms(2))
  show ?thesis using assms unfolding shm_wf_def u by (metis PAGING_PAGES_eq)
qed

lemma shm_wf_get_free_page:
  assumes "shm_wf s" "get_free_page s = (p, s')"
  shows "shm_wf s'" "sharedPages s' = sharedPages s"
    "p \<noteq> 0 \<Longrightarrow> shm_used s k \<Longrightarrow> physicalAddress (sharedPages s k) \<noteq> p"
    "p \<noteq> 0 \<Longrightarrow> \<exists>i < 3840. p = page_addr i \<and> mem_map s' i \<noteq> 0"
proof -
  have *: "shm_wf s' \<and> sharedPages s' = sharedPages s \<and>
    (p \<noteq> 0 \<longrightarrow> (\<forall>k. shm_used s k \<longrightarrow> physicalAddress (sharedPages s k) \<noteq> p) \<and>
       (\<exists>i < 3840. p = page_addr i \<and> mem_map s' i \<noteq> 0))"
  proof (cases rule: get_free_page_cases [of s])
    case 1
    with assms show ?thesis by simp
  next
    case (2 i)
    have "physicalAddress (sharedPages s k) \<noteq> page_addr i" if u: "shm_used s k" for k
    proof -
      obtain j where "j < 3840" "physicalAddress (sharedPages s k) = page_addr j" "mem_map s j \<noteq> 0"
        by (rule shm_wf_page [OF assms(1) u])
      with 2 show ?thesis by (auto simp: page_addr_inj)
    qed
    moreover have "shm_wf s'"
      using assms(2) 2 by (intro shm_wf_mono [OF assms(1)]) (auto split: if_splits)
    ultimately show ?thesis using assms(2) 2 by auto
  qed
  then show "shm_wf s'" "sharedPages s' = sharedPages s"
    "p \<noteq> 0 \<Longrightarrow> shm_used s k \<Longrightarrow> physicalAddress (sharedPages s k) \<noteq> p"
    "p \<noteq> 0 \<Longrightarrow> \<exists>i < 3840. p = page_addr i \<and> mem_map s' i \<noteq> 0" by blast+
qed

lemma shm_wf_store [simp]: "shm_wf (store a v s) = shm_wf s"
  by (simp add: shm_wf_def shm_used_def)

lemma shm_wf_put_page:
  assumes "shm_wf s" "put_page p a s = (r, s')"
  shows "shm_wf s'" "sharedPages s' = sharedPages s"
  using assms shm_wf_get_free_page(1,2) [OF assms(1)]
  by (cases "get_free_page s"; auto simp: put_page_alt Let_def split: if_splits)+

text \<open>What \<open>sys_shmget\<close> returns with its state, branch by branch.\<close>

lemma sys_shmget_cases:
  assumes "sys_shmget key sz s = (r, s')"
  obtains "unat sz > 4096" "r = Inl EINVAL" "s' = s"
  | "unat sz \<le> 4096" "unat key \<ge> 64" "r = Inl ENOMEM" "s' = s"
  | e where "unat sz \<le> 4096" "unat key < 64" "e = sharedPages s (unat key)"
      "physicalAddress e \<noteq> 0" "sp_count e \<noteq> 0" "r = Inr (int (unat key))"
      "s' = s\<lparr>sharedPages := (sharedPages s)(unat key := e\<lparr>sp_count := sp_count e + 1\<rparr>)\<rparr>"
  | "unat sz \<le> 4096" "unat key < 64" "get_free_page s = (0, s')" "r = Inl ENOMEM"
  | e p t where "unat sz \<le> 4096" "unat key < 64" "e = sharedPages s (unat key)"
      "\<not> (physicalAddress e \<noteq> 0 \<and> sp_count e \<noteq> 0)" "get_free_page s = (p, t)" "p \<noteq> 0" "r = Inr (int (unat key))"
      "s' = t\<lparr>sharedPages := (sharedPages t)(unat key := e\<lparr>physicalAddress := p, sp_count := sp_count e + 1\<rparr>)\<rparr>"
proof -
  have sz: "sz > PAGE_SIZE \<longleftrightarrow> unat sz > 4096" by (simp add: word_less_nat_alt PAGE_SIZE_def)
  show thesis
    using assms that
    by (cases "get_free_page s")
      (auto simp: sys_shmget_def sz MAX_SHARED_PAGES_NUM_def Let_def not_less not_le split: if_splits)
qed

lemma shm_wf_sys_shmget:
  assumes "shm_wf s" "sys_shmget key sz s = (r, s')"
    and "sp_count (sharedPages s (unat key)) \<noteq> - 1"
  shows "shm_wf s'"
  using assms(2)
proof (cases rule: sys_shmget_cases)
  case (3 e)
  have c: "sp_count (sharedPages s (unat key)) + 1 \<noteq> 0"
    using assms(3) by (metis add.commute eq_neg_iff_add_eq_0)
  have "shm_used s' j \<longleftrightarrow> shm_used s j"
    "physicalAddress (sharedPages s' j) = physicalAddress (sharedPages s j)" "mem_map s' = mem_map s" for j
    using 3 c by (auto simp: shm_used_def MAX_SHARED_PAGES_NUM_def)
  with assms(1) show ?thesis unfolding shm_wf_def by metis
next
  case 4
  then show ?thesis using shm_wf_get_free_page(1) [OF assms(1)] by simp
next
  case (5 e p t)
  note g = shm_wf_get_free_page [OF assms(1) 5(5)]
  have used: "shm_used s' j \<longleftrightarrow> j = unat key \<and> sp_count e + 1 \<noteq> 0 \<or> j \<noteq> unat key \<and> shm_used s j" for j
    using 5 g(2) by (auto simp: shm_used_def MAX_SHARED_PAGES_NUM_def)
  have pa: "physicalAddress (sharedPages s' j) = (if j = unat key then p else physicalAddress (sharedPages s j))" for j
    using 5 g(2) by simp
  obtain i where i: "i < 3840" "p = page_addr i" "mem_map t i \<noteq> 0" using g(4) [OF 5(6)] by blast
  have mm: "mem_map s' = mem_map t" using 5 by simp
  have old: "\<exists>j < 3840. physicalAddress (sharedPages s k) = page_addr j \<and> mem_map t j \<noteq> 0" if "shm_used s k" for k
    using g(1,2) that by (simp add: shm_wf_def shm_used_def)
  show ?thesis unfolding shm_wf_def
  proof (intro conjI allI impI)
    fix k assume "shm_used s' k"
    then show "\<exists>i < PAGING_PAGES. physicalAddress (sharedPages s' k) = page_addr i \<and> mem_map s' i \<noteq> 0"
      using i old [of k] by (auto simp: used pa mm)
  next
    fix k j assume "shm_used s' k" "shm_used s' j"
      "physicalAddress (sharedPages s' k) = physicalAddress (sharedPages s' j)"
    then show "k = j" using g(3) [OF 5(6)] shm_wf_inj [OF assms(1), of k j]
      by (auto simp: used pa split: if_splits)
  qed
qed (use assms in auto)

lemma sys_shmat_ok:
  assumes "sys_shmat shmid base brk s = (Inr a, brk', s')" "shm_wf s"
  obtains k i where "k = unat (word_of_int shmid :: u32)" "shm_used s k" "i < 3840"
    "physicalAddress (sharedPages s k) = page_addr i" "mem_map s i \<noteq> 0"
    "put_page (page_addr i) (base + brk) s = (page_addr i, s')" "a = brk" "brk' = brk + PAGE_SIZE"
proof -
  let ?k = "unat (word_of_int shmid :: u32)"
  from assms(1) have k: "?k < MAX_SHARED_PAGES_NUM" "sp_count (sharedPages s ?k) \<noteq> 0"
    by (auto simp: sys_shmat_def Let_def split: if_splits)
  then have u: "shm_used s ?k" by (simp add: shm_used_def)
  then obtain i where i: "i < 3840" "physicalAddress (sharedPages s ?k) = page_addr i" "mem_map s i \<noteq> 0"
    by (rule shm_wf_page [OF assms(2)])
  obtain r t where put: "put_page (page_addr i) (base + brk) s = (r, t)" by (cases "put_page (page_addr i) (base + brk) s")
  then have "r = page_addr i \<or> r = 0"
    by (cases "get_free_page s") (auto simp: put_page_alt Let_def split: if_splits)
  with assms(1) k i put have "r = page_addr i" "t = s'" "a = brk" "brk' = brk + PAGE_SIZE"
    by (auto simp: sys_shmat_def Let_def split: if_splits)
  with u i put show thesis by (intro that [of ?k i]) simp_all
qed

lemma shared_page_not_free:
  assumes "shm_wf s" "shm_used s k" shows "\<not> page_free s (physicalAddress (sharedPages s k))"
proof -
  obtain i where "i < 3840" "physicalAddress (sharedPages s k) = page_addr i" "mem_map s i \<noteq> 0"
    by (rule shm_wf_page [OF assms])
  then show ?thesis by (auto simp: page_free_def page_addr_inj)
qed

section \<open>Properties\<close>

text \<open>\<open>shmget\<close> on every branch: a size above a page is \<open>EINVAL\<close>; a key out of range is \<open>ENOMEM\<close>; both
  change nothing. Otherwise the call either fails with \<open>ENOMEM\<close> because no page is free, leaving the
  table as it was, or returns the key, with one more user of that entry and every other entry as it
  was, and the page of the entry is the one it had when the entry was in use, and a page that was free
  and belongs to no other entry when it was not. The invariant of the table is kept.\<close>

theorem sys_shmget_correct:
  assumes "shm_wf s" "sys_shmget key sz s = (r, s')" "sp_count (sharedPages s (unat key)) \<noteq> - 1"
  shows "shm_wf s' \<and>
    (unat sz > 4096 \<longrightarrow> r = Inl EINVAL \<and> s' = s) \<and>
    (unat sz \<le> 4096 \<and> unat key \<ge> 64 \<longrightarrow> r = Inl ENOMEM \<and> s' = s) \<and>
    (unat sz \<le> 4096 \<and> unat key < 64 \<longrightarrow>
      (r = Inl ENOMEM \<and> (\<forall>i < 3840. mem_map s i \<noteq> 0) \<and> \<not> shm_used s (unat key) \<and> s' = s) \<or>
      (r = Inr (int (unat key)) \<and> shm_used s' (unat key) \<and>
       sp_count (sharedPages s' (unat key)) = sp_count (sharedPages s (unat key)) + 1 \<and>
       (\<forall>j. j \<noteq> unat key \<longrightarrow> sharedPages s' j = sharedPages s j) \<and>
       (if shm_used s (unat key)
        then physicalAddress (sharedPages s' (unat key)) = physicalAddress (sharedPages s (unat key)) \<and> mem_map s' = mem_map s
        else page_free s (physicalAddress (sharedPages s' (unat key))))))"
proof -
  have wf: "shm_wf s'" by (rule shm_wf_sys_shmget [OF assms])
  have c: "sp_count (sharedPages s (unat key)) + 1 \<noteq> 0"
    using assms(3) by (metis add.commute eq_neg_iff_add_eq_0)
  have nz: "physicalAddress (sharedPages s k) \<noteq> 0" if "shm_used s k" for k
    using shm_wf_page [OF assms(1) that] by (metis page_addr_nz)
  from assms(2) show ?thesis
  proof (cases rule: sys_shmget_cases)
    case (3 e)
    then have "shm_used s (unat key)" by (simp add: shm_used_def MAX_SHARED_PAGES_NUM_def)
    moreover from 3 c have "shm_used s' (unat key)" by (simp add: shm_used_def MAX_SHARED_PAGES_NUM_def)
    ultimately show ?thesis using 3 wf by simp
  next
    case 4
    have "s' = s \<and> (\<forall>i < 3840. mem_map s i \<noteq> 0)"
      by (cases rule: get_free_page_cases [of s]) (use 4(3) in auto)
    moreover have "\<not> shm_used s (unat key)"
    proof
      assume u: "shm_used s (unat key)"
      with nz [OF u] 4 assms(2) show False
        by (simp add: sys_shmget_def shm_used_def Let_def MAX_SHARED_PAGES_NUM_def PAGE_SIZE_def word_less_nat_alt)
    qed
    ultimately show ?thesis using 4 wf by simp
  next
    case (5 e p t)
    have nu: "\<not> shm_used s (unat key)"
    proof
      assume u: "shm_used s (unat key)"
      with nz [OF u] 5(3,4) show False by (simp add: shm_used_def)
    qed
    have "sharedPages t = sharedPages s" by (rule shm_wf_get_free_page(2) [OF assms(1) 5(5)])
    moreover have "page_free s p"
      by (cases rule: get_free_page_cases [of s]) (use 5(5,6) in \<open>auto simp: page_free_def\<close>)
    moreover have "shm_used s' (unat key)" using 5 c by (simp add: shm_used_def MAX_SHARED_PAGES_NUM_def)
    ultimately show ?thesis using 5 nu wf by simp
  qed (use wf in auto)
qed

text \<open>Two processes that attach the same identifier see the same physical page: after both \<open>shmat\<close>
  calls return, the page at each returned address translates, offset by offset, to the page of the
  entry, and every other linear address keeps its translation.\<close>

theorem shmat_shares:
  assumes "pt_wf s" "shm_wf s" "sys_shmat shmid base1 brk1 s = (Inr a1, brk1', s1)"
    and "sys_shmat shmid base2 brk2 s1 = (Inr a2, brk2', s2)"
    and "drop_bit 12 (base1 + a1) \<noteq> drop_bit 12 (base2 + a2)"
  shows "pt_wf s2 \<and> shm_wf s2 \<and> a1 = brk1 \<and> brk1' = brk1 + 4096 \<and> a2 = brk2 \<and> brk2' = brk2 + 4096 \<and>
    (\<forall>l. drop_bit 12 l = drop_bit 12 (base1 + a1) \<or> drop_bit 12 l = drop_bit 12 (base2 + a2) \<longrightarrow>
      translate s2 l = Some (physicalAddress (sharedPages s (unat (word_of_int shmid :: u32))) + (l AND 0xfff))) \<and>
    (\<forall>l. drop_bit 12 l \<noteq> drop_bit 12 (base1 + a1) \<and> drop_bit 12 l \<noteq> drop_bit 12 (base2 + a2) \<longrightarrow>
      translate s2 l = translate s l)"
proof -
  obtain i where i: "i < 3840" "physicalAddress (sharedPages s (unat (word_of_int shmid :: u32))) = page_addr i"
    "put_page (page_addr i) (base1 + a1) s = (page_addr i, s1)" "a1 = brk1" "brk1' = brk1 + PAGE_SIZE"
    using sys_shmat_ok [OF assms(3,2)] by metis
  note wf1 = shm_wf_put_page [OF assms(2) i(3)]
  obtain j where j: "j < 3840" "physicalAddress (sharedPages s1 (unat (word_of_int shmid :: u32))) = page_addr j"
    "put_page (page_addr j) (base2 + a2) s1 = (page_addr j, s2)" "a2 = brk2" "brk2' = brk2 + PAGE_SIZE"
    using sys_shmat_ok [OF assms(4) wf1(1)] by metis
  have ij: "j = i" using i(1,2) j(1,2) by (simp add: wf1(2) page_addr_inj)
  note p = page_base_page_addr [OF i(1)] page_addr_nz [OF i(1)]
  note w1 = put_page_wf [OF assms(1) p i(3) p(2)]
  note w2 = put_page_wf [OF w1(2) p j(3) [unfolded ij] p(2)]
  show ?thesis
    using w1(3) w2(2,3) shm_wf_put_page [OF wf1(1) j(3)] i(2,4,5) j(4,5) by (simp add: PAGE_SIZE_def)
qed

text \<open>A memory with one shared page: key 5 of \<open>mm_start\<close> after \<open>shmget\<close>.\<close>

definition mm_shm :: mm where
  "mm_shm = snd (sys_shmget 5 100 mm_start)"

lemma shm_wf_start: "shm_wf mm_start"
  by (simp add: shm_wf_def shm_used_def mm_start_def)

lemma shmget_start: "sys_shmget 5 100 mm_start = (Inr 5, mm_shm)"
  by (simp add: mm_shm_def sys_shmget_def PAGE_SIZE_def MAX_SHARED_PAGES_NUM_def Let_def get_free_page_start
      mm_start_def [THEN arg_cong [where f = sharedPages]])

lemma mm_shm_facts:
  "shm_wf mm_shm" "sp_count (sharedPages mm_shm 5) = 1" "physicalAddress (sharedPages mm_shm 5) = page_addr 99"
  "mem_map mm_shm 99 = 1" "HIGH_MEMORY mm_shm = 0x1000000" "shm_used mm_shm 5" "pt_wf mm_shm"
proof -
  show "shm_wf mm_shm"
    by (rule shm_wf_sys_shmget [OF shm_wf_start shmget_start]) (simp add: mm_start_def)
  have e: "mm_shm = mm_start\<lparr>mem_map := (mem_map mm_start)(99 := 1), mem := clear_page (page_addr 99) (mem mm_start),
      sharedPages := (sharedPages mm_start)(5 := (sharedPages mm_start 5)\<lparr>physicalAddress := page_addr 99,
        sp_count := 1\<rparr>)\<rparr>"
    by (simp add: mm_shm_def sys_shmget_def PAGE_SIZE_def MAX_SHARED_PAGES_NUM_def Let_def get_free_page_start)
       (simp add: mm_start_def)
  show "sp_count (sharedPages mm_shm 5) = 1" "physicalAddress (sharedPages mm_shm 5) = page_addr 99"
    "mem_map mm_shm 99 = 1" "HIGH_MEMORY mm_shm = 0x1000000" "shm_used mm_shm 5"
    by (simp_all add: e shm_used_def MAX_SHARED_PAGES_NUM_def) (simp_all add: mm_start_def)
  have "mem mm_shm = (\<lambda>_. 0)" by (simp add: e mm_start_def clear_page_def fun_eq_iff)
  then show "pt_wf mm_shm" by (simp add: pt_wf_def)
qed

theorem sys_shmget_correct_witness:
  "fst (sys_shmget 5 100 mm_start) = Inr 5 \<and> shm_used mm_shm 5 \<and>
   page_free mm_start (physicalAddress (sharedPages mm_shm 5))"
  using sys_shmget_correct [OF shm_wf_start shmget_start] shmget_start
  by (simp add: shm_used_def) (simp add: mm_start_def)

lemma put_page_succeeds:
  assumes "mem_map s 0 = 0" obtains t where "put_page p a s = (p, t)" "mem_map s 1 = 0 \<longrightarrow> mem_map t 0 = 0"
proof (cases rule: get_free_page_cases [of s])
  case 1
  with assms show ?thesis by (metis PAGING_PAGES_eq zero_less_numeral)
next
  case (2 i)
  have "mem_map s 1 = 0 \<Longrightarrow> i \<noteq> 0" using 2(3) [of 1] by auto
  with 2 assms show ?thesis by (intro that [of "snd (put_page p a s)"]) (auto simp: put_page_alt Let_def)
qed

lemma sys_shmat_succeeds:
  assumes "shm_wf s" "shm_used s 5" "mem_map s 0 = 0"
  obtains t where "sys_shmat 5 base brk s = (Inr brk, brk + 4096, t)" "mem_map s 1 = 0 \<longrightarrow> mem_map t 0 = 0"
proof -
  obtain i where i: "i < 3840" "physicalAddress (sharedPages s 5) = page_addr i" by (rule shm_wf_page [OF assms(1,2)])
  obtain t where "put_page (page_addr i) (base + brk) s = (page_addr i, t)" "mem_map s 1 = 0 \<longrightarrow> mem_map t 0 = 0"
    by (rule put_page_succeeds [OF assms(3), where p = "page_addr i" and a = "base + brk"])
  with i assms(2) show thesis
    by (intro that [of t]) (simp_all add: sys_shmat_def shm_used_def MAX_SHARED_PAGES_NUM_def Let_def PAGE_SIZE_def)
qed

theorem shmat_shares_witness:
  "\<exists>s1 s2. sys_shmat 5 0x4000000 0x3000 mm_shm = (Inr 0x3000, 0x4000, s1) \<and>
     sys_shmat 5 0x8000000 0x5000 s1 = (Inr 0x5000, 0x6000, s2) \<and>
     translate s2 0x4003010 = Some (page_addr 99 + 0x10) \<and> translate s2 0x8005010 = Some (page_addr 99 + 0x10)"
proof -
  have m: "mem_map mm_shm 0 = 0" "mem_map mm_shm 1 = 0"
    by (simp_all add: mm_shm_def sys_shmget_def PAGE_SIZE_def MAX_SHARED_PAGES_NUM_def Let_def get_free_page_start)
       (simp_all add: mm_start_def)
  obtain s1 where s1: "sys_shmat 5 0x4000000 0x3000 mm_shm = (Inr 0x3000, 0x3000 + 4096, s1)" "mem_map s1 0 = 0"
    using sys_shmat_succeeds [OF mm_shm_facts(1,6) m(1)] m(2) by metis
  obtain i where "put_page (page_addr i) (0x4000000 + 0x3000) mm_shm = (page_addr i, s1)"
    using sys_shmat_ok [OF s1(1) mm_shm_facts(1)] by metis
  note w = shm_wf_put_page [OF mm_shm_facts(1) this]
  have "shm_used s1 5" using mm_shm_facts(6) w(2) by (simp add: shm_used_def)
  then obtain s2 where s2: "sys_shmat 5 0x8000000 0x5000 s1 = (Inr 0x5000, 0x5000 + 4096, s2)"
    using sys_shmat_succeeds [OF w(1) _ s1(2)] by metis
  have "drop_bit 12 (0x4000000 + 0x3000 :: u32) \<noteq> drop_bit 12 (0x8000000 + 0x5000)" by simp
  from shmat_shares [OF mm_shm_facts(7,1) s1(1) s2 this] s1(1) s2 mm_shm_facts(3)
  show ?thesis by simp
qed

section \<open>The life of a shared page\<close>

text \<open>\<open>n\<close> processes give the page at \<open>addr\<close> back, one after the other.\<close>

fun free_times :: "nat \<Rightarrow> u32 \<Rightarrow> mm \<Rightarrow> mm_stop + mm" where
  "free_times 0 addr s = Inr s"
| "free_times (Suc n) addr s = sbind (free_page addr s) (free_times n addr)"

lemma shm_wf_free_page:
  assumes wf: "shm_wf s" and k: "shm_used s k" and i: "physicalAddress (sharedPages s k) = page_addr i"
    "i < 3840" "page_addr i < HIGH_MEMORY s" and f: "free_page (page_addr i) s = Inr s'"
  shows "shm_wf s'"
proof -
  have s': "s' = s\<lparr>
      sharedPages := (sharedPages s)(k := (sharedPages s k)\<lparr>sp_count := sp_count (sharedPages s k) - 1\<rparr>),
      mem_map := (if sp_count (sharedPages s k) = 1 then (mem_map s)(i := mem_map s i - 1) else mem_map s)\<rparr>"
    using free_page_shm [OF wf k i] f by simp
  have used: "shm_used s' j \<longleftrightarrow> shm_used s j \<and> (j = k \<longrightarrow> sp_count (sharedPages s k) \<noteq> 1)" for j
    using k by (auto simp: shm_used_def s')
  have pa: "physicalAddress (sharedPages s' j) = physicalAddress (sharedPages s j)" for j by (simp add: s')
  have "\<exists>l < PAGING_PAGES. physicalAddress (sharedPages s' j) = page_addr l \<and> mem_map s' l \<noteq> 0" if j: "shm_used s' j" for j
  proof -
    from j obtain l where l: "l < 3840" "physicalAddress (sharedPages s j) = page_addr l" "mem_map s l \<noteq> 0"
      using shm_wf_page [OF wf] used by blast
    have "l \<noteq> i \<or> sp_count (sharedPages s k) \<noteq> 1"
      using j l i shm_wf_inj [OF wf k, of j] by (auto simp: used)
    with l show ?thesis by (auto simp: pa s')
  qed
  then show ?thesis using shm_wf_inj [OF wf] unfolding shm_wf_def used pa by blast
qed

lemma free_page_free:
  assumes "i < 3840" "page_addr i < HIGH_MEMORY s" "mem_map s i = 0"
  shows "free_page (page_addr i) s = Inl (MPanic ''trying to free free page'')"
proof -
  have nb: "\<not> page_addr i < LOW_MEM" using assms(1) by (simp add: not_less)
  have nh: "\<not> HIGH_MEMORY s \<le> page_addr i" using assms(2) by simp
  have ix: "unat (drop_bit 12 (page_addr i - LOW_MEM)) = i"
    using MAP_NR_page_addr [OF assms(1)] by (simp add: MAP_NR_def)
  show ?thesis unfolding free_page_def Let_def ix using assms(3) nb nh by simp
qed

text \<open>C35. The life of a shared page, from the table's point of view: as long as fewer processes have given it
  back than the count says, the page stays in use and only the count falls; the last one clears the
  count and gives up one use of the page; one more \<open>free_page\<close> on a page that had a single use panics,
  so a process must not attach more often than it asked for the page.\<close>

theorem shared_page_life:
  assumes "shm_wf s" "shm_used s k" "physicalAddress (sharedPages s k) = page_addr i" "i < 3840"
    "page_addr i < HIGH_MEMORY s" "n \<le> unat (sp_count (sharedPages s k))"
  shows "\<exists>s'. free_times n (page_addr i) s = Inr s' \<and> shm_wf s' \<and> mem s' = mem s \<and>
    unat (sp_count (sharedPages s' k)) = unat (sp_count (sharedPages s k)) - n \<and>
    (\<forall>j. j \<noteq> k \<longrightarrow> sharedPages s' j = sharedPages s j) \<and>
    mem_map s' = (if n = unat (sp_count (sharedPages s k)) then (mem_map s)(i := mem_map s i - 1) else mem_map s) \<and>
    (n = unat (sp_count (sharedPages s k)) \<and> mem_map s i = 1 \<longrightarrow>
      free_page (page_addr i) s' = Inl (MPanic ''trying to free free page''))"
  using assms
proof (induction n arbitrary: s)
  case 0
  then have "unat (sp_count (sharedPages s k)) \<noteq> 0" by (simp add: shm_used_def unat_eq_zero)
  with 0 show ?case by simp
next
  case (Suc n)
  let ?c = "sp_count (sharedPages s k)"
  let ?s = "s\<lparr>sharedPages := (sharedPages s)(k := (sharedPages s k)\<lparr>sp_count := ?c - 1\<rparr>),
      mem_map := (if ?c = 1 then (mem_map s)(i := mem_map s i - 1) else mem_map s)\<rparr>"
  note fr = free_page_shm [OF Suc.prems(1-5)]
  note wf = shm_wf_free_page [OF Suc.prems(1-5) fr]
  have c: "unat (?c - 1) = unat ?c - 1" using Suc.prems(6) by (intro unat_minus_one) auto
  show ?case
  proof (cases "?c = 1")
    case True
    with Suc.prems(6) have n: "n = 0" by simp
    have "free_page (page_addr i) ?s = Inl (MPanic ''trying to free free page'')" if "mem_map s i = 1"
      by (rule free_page_free) (use that True Suc.prems(4,5) in simp_all)
    then show ?thesis using fr wf True n by (auto simp: fun_eq_iff)
  next
    case False
    have "?c \<noteq> 0" using Suc.prems(2) by (simp add: shm_used_def)
    with False have "shm_used ?s k" "unat ?c \<noteq> 1"
      using Suc.prems(2) by (auto simp: shm_used_def word_unat_eq_iff c)
    moreover from this have "n \<le> unat (sp_count (sharedPages ?s k))" using Suc.prems(6) c by simp
    ultimately obtain s' where s': "free_times n (page_addr i) ?s = Inr s'" "shm_wf s'" "mem s' = mem ?s"
      "unat (sp_count (sharedPages s' k)) = unat (sp_count (sharedPages ?s k)) - n"
      "\<And>j. j \<noteq> k \<Longrightarrow> sharedPages s' j = sharedPages ?s j"
      "mem_map s' = (if n = unat (sp_count (sharedPages ?s k)) then (mem_map ?s)(i := mem_map ?s i - 1) else mem_map ?s)"
      "n = unat (sp_count (sharedPages ?s k)) \<and> mem_map ?s i = 1 \<longrightarrow>
         free_page (page_addr i) s' = Inl (MPanic ''trying to free free page'')"
      using Suc.IH [OF wf] Suc.prems(3-5) by auto
    have n: "n = unat (sp_count (sharedPages ?s k)) \<longleftrightarrow> Suc n = unat ?c" using c Suc.prems(6) by auto
    show ?thesis
    proof (intro exI [of _ s'] conjI)
      show "free_times (Suc n) (page_addr i) s = Inr s'" using fr s'(1) by simp
      show "unat (sp_count (sharedPages s' k)) = unat ?c - Suc n" using s'(4) c by simp
      show "mem_map s' = (if Suc n = unat ?c then (mem_map s)(i := mem_map s i - 1) else mem_map s)"
        using s'(6) False unfolding n by simp
      show "Suc n = unat ?c \<and> mem_map s i = 1 \<longrightarrow>
          free_page (page_addr i) s' = Inl (MPanic ''trying to free free page'')"
        using s'(7) False unfolding n by simp
    qed (use s'(2,3,5) in auto)
  qed
qed

text \<open>A process that attaches twice for one \<open>shmget\<close>: each attached page is given back at its exit.\<close>

theorem shared_page_life_witness:
  "\<exists>s'. free_times 1 (page_addr 99) mm_shm = Inr s' \<and> mem_map s' 99 = 0 \<and>
     free_page (page_addr 99) s' = Inl (MPanic ''trying to free free page'')"
proof -
  have "page_addr 99 < HIGH_MEMORY mm_shm" by (simp add: mm_shm_facts word_less_nat_alt unat_page_addr)
  from shared_page_life [OF mm_shm_facts(1,6,3) _ this, of 1] mm_shm_facts(2,4) show ?thesis by auto
qed

text \<open>\<open>shmat\<close> maps at \<open>brk\<close> without rounding it up: when \<open>brk\<close> lies inside a page of heap that is
  mapped, that page loses its mapping. Every address of it, the data below \<open>brk\<close> included, then reads
  the shared page, while the old page keeps its use count although nothing maps it any more.\<close>

theorem shmat_replaces_heap_page:
  assumes "pt_wf s" "shm_wf s" "sys_shmat shmid base brk s = (Inr a, brk', s')"
    and "translate s l = Some f" "drop_bit 12 l = drop_bit 12 (base + brk)" "page_base f = page_addr h" "h < 3840"
    and "physicalAddress (sharedPages s (unat (word_of_int shmid :: u32))) \<noteq> page_addr h"
  shows "\<exists>i < 3840. i \<noteq> h \<and> translate s' l = Some (page_addr i + (l AND 0xfff)) \<and> mem_map s' h = mem_map s h"
proof -
  obtain i where i: "i < 3840" "physicalAddress (sharedPages s (unat (word_of_int shmid :: u32))) = page_addr i"
    "put_page (page_addr i) (base + brk) s = (page_addr i, s')"
    using sys_shmat_ok [OF assms(3,2)] by metis
  note p = page_base_page_addr [OF i(1)] page_addr_nz [OF i(1)]
  have "mem s (pde_addr (base + brk)) AND 1 \<noteq> 0"
    using translate_frame [OF assms(4)] same_page(1) [OF assms(5)] by simp
  then have "mem_map s' = mem_map s" using i(3) by (auto simp: put_page_alt)
  moreover have "i \<noteq> h" using assms(8) i(2) by auto
  ultimately show ?thesis using i(1) put_page_wf(3) [OF assms(1) p i(3) p(2), of l] assms(5) by auto
qed

theorem shmat_replaces_heap_page_witness:
  "\<exists>s0 s'. translate s0 0x4003010 = Some (page_addr 500 + 0x10) \<and>
     sys_shmat 5 0x4000000 0x3123 s0 = (Inr 0x3123, 0x4123, s') \<and>
     (\<exists>i < 3840. i \<noteq> 500 \<and> translate s' 0x4003010 = Some (page_addr i + 0x10)) \<and> mem_map s' 500 = mem_map s0 500"
proof -
  have m: "mem_map mm_shm 0 = 0" "mem_map mm_shm 1 = 0"
    by (simp_all add: mm_shm_def sys_shmget_def PAGE_SIZE_def MAX_SHARED_PAGES_NUM_def Let_def get_free_page_start)
       (simp_all add: mm_start_def)
  obtain s0 where s0: "put_page (page_addr 500) 0x4003000 mm_shm = (page_addr 500, s0)" "mem_map s0 0 = 0"
    using put_page_succeeds [OF m(1), where p = "page_addr 500" and a = "0x4003000"] m(2) by blast
  have p: "page_base (page_addr 500) = page_addr 500" "page_addr 500 \<noteq> 0" by simp_all
  note w = put_page_wf [OF mm_shm_facts(7) p s0(1) p(2)]
  note sw = shm_wf_put_page [OF mm_shm_facts(1) s0(1)]
  have u: "shm_used s0 5" using mm_shm_facts(6) sw(2) by (simp add: shm_used_def)
  obtain s' where s': "sys_shmat 5 0x4000000 0x3123 s0 = (Inr 0x3123, 0x3123 + 4096, s')"
    using sys_shmat_succeeds [OF sw(1) u s0(2)] by metis
  have t: "translate s0 0x4003010 = Some (page_addr 500 + 0x10)" using w(3) [of "0x4003010"] by simp
  have a: "drop_bit 12 (0x4003010 :: u32) = drop_bit 12 (0x4000000 + 0x3123)"
    "page_base (page_addr 500 + 0x10) = page_addr 500" "(500::nat) < 3840"
    "physicalAddress (sharedPages s0 (unat (word_of_int 5 :: u32))) \<noteq> page_addr 500"
    by (simp_all add: sw(2) mm_shm_facts page_addr_inj)
  from shmat_replaces_heap_page [OF w(2) sw(1) s' t a] t s' show ?thesis by auto
qed

end
