(* ===== verification/Task.thy ===== *)
theory Task imports Mm "HOL-Library.Signed_Division" begin

text \<open>
  The tasks of \<open>kernel/sched.c\<close>, \<open>exit.c\<close>, \<open>fork.c\<close> and \<open>include/linux/sched.h\<close> (Lab 3): the
  \<open>task_struct\<close> with its descriptors and task state segment, and \<open>kern\<close>, the global variables those
  files share. A pointer to a task is the address of its page; the kernel keeps the structures
  themselves in \<open>ts\<close>. \<open>wait_ptr\<close> holds the variables of type \<open>struct task_struct *\<close> on which tasks
  sleep (\<open>inode->i_wait\<close>, \<open>wait_motor[i]\<close>, \<open>semaphore.m_wait\<close>), by their address.

  The processor switches tasks inside \<open>schedule\<close>. What a task still has to do when it gets the processor
  back is a list of \<open>frame\<close>s, one for each call of \<open>schedule\<close> it is in (\<open>kframes\<close>).
\<close>

unbundle bit_operations_syntax

section \<open>Descriptors\<close>

record desc_struct =
  da :: u32
  db :: u32

text \<open>\<open>_set_base\<close> writes the bytes 2, 3, 4 and 7 of a descriptor and \<open>_get_base\<close> reads them;
  \<open>lsl\<close> (\<open>get_limit\<close>) reads the limit and its granularity.\<close>

definition set_base :: "desc_struct \<Rightarrow> u32 \<Rightarrow> desc_struct" where
  "set_base d base =
     \<lparr>da = (da d AND 0x0000ffff) OR push_bit 16 (base AND 0xffff),
      db = (db d AND 0x00ffff00) OR (drop_bit 16 base AND 0xff) OR (base AND 0xff000000)\<rparr>"

definition get_base :: "desc_struct \<Rightarrow> u32" where
  "get_base d = drop_bit 16 (da d) OR push_bit 16 (db d AND 0xff) OR (db d AND 0xff000000)"

definition set_limit :: "desc_struct \<Rightarrow> u32 \<Rightarrow> desc_struct" where
  "set_limit d limit =
     (let l = drop_bit 12 (limit - 1) in
      \<lparr>da = (da d AND 0xffff0000) OR (l AND 0xffff),
       db = (db d AND 0xfff0ffff) OR (l AND 0x000f0000)\<rparr>)"

definition get_limit :: "desc_struct \<Rightarrow> u32" where
  "get_limit d =
     (let l = (da d AND 0xffff) OR (db d AND 0x000f0000) in
      (if db d AND 0x00800000 \<noteq> 0 then push_bit 12 l OR 0xfff else l) + 1)"

section \<open>Task structures\<close>

record tss_struct =
  back_link :: u32
  esp0 :: u32
  ss0 :: u32
  esp1 :: u32
  ss1 :: u32
  esp2 :: u32
  ss2 :: u32
  cr3 :: u32
  eip :: u32
  eflags :: u32
  eax :: u32
  ecx :: u32
  edx :: u32
  ebx :: u32
  esp :: u32
  ebp :: u32
  esi :: u32
  edi :: u32
  es_sel :: u32
  cs_sel :: u32
  ss_sel :: u32
  ds_sel :: u32
  fs_sel :: u32
  gs_sel :: u32
  ldt_sel :: u32
  trace_bitmap :: u32
  i387 :: "u32 list"

record sigaction =
  sa_handler :: u32
  sa_mask :: u32
  sa_flags :: u32
  sa_restorer :: u32

datatype task_state = TASK_RUNNING | TASK_INTERRUPTIBLE | TASK_UNINTERRUPTIBLE | TASK_ZOMBIE | TASK_STOPPED

record task_struct =
  state :: task_state
  counter :: int
  priority :: int
  signal :: u32
  sigactions :: "sigaction list"
  blocked :: u32
  exit_code :: int
  start_code :: u32
  end_code :: u32
  end_data :: u32
  brk :: u32
  start_stack :: u32
  pid :: int
  father :: int
  pgrp :: int
  session :: int
  leader :: int
  uid :: u16
  euid :: u16
  suid :: u16
  gid :: u16
  egid :: u16
  sgid :: u16
  alarm :: int
  utime :: int
  stime :: int
  cutime :: int
  cstime :: int
  start_time :: int
  used_math :: u16
  tty :: int
  umask :: u16
  pwd :: u32
  root :: u32
  executable :: u32
  close_on_exec :: u32
  filp :: "u32 list"
  ldt :: "desc_struct list"
  tss :: tss_struct

definition NR_TASKS :: nat where "NR_TASKS = 64"
definition NR_OPEN :: nat where "NR_OPEN = 20"
definition HZ :: int where "HZ = 100"
definition FIRST_TSS_ENTRY :: nat where "FIRST_TSS_ENTRY = 4"
definition FIRST_LDT_ENTRY :: nat where "FIRST_LDT_ENTRY = FIRST_TSS_ENTRY + 1"

definition TSS_sel :: "nat \<Rightarrow> u32" where
  "TSS_sel n = push_bit 4 (of_nat n) + push_bit 3 (of_nat FIRST_TSS_ENTRY)"

definition LDT_sel :: "nat \<Rightarrow> u32" where
  "LDT_sel n = push_bit 4 (of_nat n) + push_bit 3 (of_nat FIRST_LDT_ENTRY)"

text \<open>\<open>INIT_TASK\<close>, with the address of \<open>init_task\<close> and of the page directory.\<close>

definition INIT_TASK :: "u32 \<Rightarrow> u32 \<Rightarrow> task_struct" where
  "INIT_TASK init_task pg_dir =
     \<lparr>state = TASK_RUNNING, counter = 15, priority = 15, signal = 0,
      sigactions = replicate 32 \<lparr>sa_handler = 0, sa_mask = 0, sa_flags = 0, sa_restorer = 0\<rparr>, blocked = 0,
      exit_code = 0, start_code = 0, end_code = 0, end_data = 0, brk = 0, start_stack = 0,
      pid = 0, father = - 1, pgrp = 0, session = 0, leader = 0,
      uid = 0, euid = 0, suid = 0, gid = 0, egid = 0, sgid = 0,
      alarm = 0, utime = 0, stime = 0, cutime = 0, cstime = 0, start_time = 0,
      used_math = 0, tty = - 1, umask = 18, pwd = 0, root = 0, executable = 0, close_on_exec = 0,
      filp = replicate NR_OPEN 0,
      ldt = [\<lparr>da = 0, db = 0\<rparr>, \<lparr>da = 0x9f, db = 0xc0fa00\<rparr>, \<lparr>da = 0x9f, db = 0xc0f200\<rparr>],
      tss = \<lparr>back_link = 0, esp0 = 4096 + init_task, ss0 = 0x10, esp1 = 0, ss1 = 0, esp2 = 0, ss2 = 0,
        cr3 = pg_dir, eip = 0, eflags = 0, eax = 0, ecx = 0, edx = 0, ebx = 0, esp = 0, ebp = 0, esi = 0, edi = 0,
        es_sel = 0x17, cs_sel = 0x17, ss_sel = 0x17, ds_sel = 0x17, fs_sel = 0x17, gs_sel = 0x17,
        ldt_sel = LDT_sel 0, trace_bitmap = 0x80000000, i387 = replicate 27 0\<rparr>\<rparr>"

section \<open>The kernel's variables\<close>

text \<open>What is left to do after a call of \<open>schedule\<close> returns: in \<open>sleep_on\<close> and \<open>interruptible_sleep_on\<close>
  (with its argument and the local \<open>tmp\<close>), in the loop around \<open>sleep_on\<close> of \<open>floppy_on\<close> and \<open>sys_sem_wait\<close>, in
  \<open>sys_pause\<close>, in \<open>sys_waitpid\<close> (before and after \<open>release\<close>), in \<open>do_exit\<close> and in \<open>do_timer\<close>.\<close>

datatype frame =
    FSleepOn u32 u32
  | FIntSleepOn u32 u32
  | FFloppyOn u32
  | FSemWait u32
  | FPause
  | FWaitSleep int u32 int
  | FWaitRelease int int u32
  | FExit
  | FTick

text \<open>A line \<open>pid, character, jiffies\<close> that \<open>fprintk(3, ...)\<close> writes to the process log.\<close>

type_synonym log_line = "int \<times> char \<times> int"

record kern =
  kmm :: mm
  task :: "nat \<Rightarrow> u32"
  ts :: "u32 \<Rightarrow> task_struct"
  init_task :: u32
  current :: u32
  last_task_used_math :: u32
  fpu :: "u32 list"
  ts_flag :: bool
  jiffies :: int
  startup_time :: int
  last_pid :: int
  wait_ptr :: "u32 \<Rightarrow> u32"
  kframes :: "u32 \<Rightarrow> frame list"
  process_log :: "log_line list"
  f_count :: "u32 \<Rightarrow> int"
  i_count :: "u32 \<Rightarrow> int"
  tty_pgrp :: "int \<Rightarrow> int"
  gdt :: "nat \<Rightarrow> desc_struct"
  user_mem :: "u32 \<Rightarrow> u32"

text \<open>Paths that do not come back to the caller: \<open>panic\<close>, \<open>oom\<close>, which calls \<open>do_exit(SIGSEGV)\<close>
  in the state it is given, and the loop of \<open>schedule\<close> when it does not end.\<close>

datatype kstop = KPanic string | KOom kern | KDiverge

definition lift_mm :: "(mm \<Rightarrow> mm_stop + mm) \<Rightarrow> kern \<Rightarrow> kstop + kern" where
  "lift_mm f k = (case f (kmm k) of
     Inl (MPanic msg) \<Rightarrow> Inl (KPanic msg) | Inl (Oom s) \<Rightarrow> Inl (KOom (k\<lparr>kmm := s\<rparr>))
   | Inr s \<Rightarrow> Inr (k\<lparr>kmm := s\<rparr>))"

definition upd_ts :: "u32 \<Rightarrow> (task_struct \<Rightarrow> task_struct) \<Rightarrow> kern \<Rightarrow> kern" where
  "upd_ts p f k = k\<lparr>ts := (ts k)(p := f (ts k p))\<rparr>"

abbreviation cur :: "kern \<Rightarrow> task_struct" where
  "cur k \<equiv> ts k (current k)"

definition push_frame :: "frame \<Rightarrow> kern \<Rightarrow> kern" where
  "push_frame fr k = k\<lparr>kframes := (kframes k)(current k := fr # kframes k (current k))\<rparr>"

text \<open>\<open>fprintk(3, "%ld\t%c\t%ld\n", pid, c, jiffies)\<close> of \<open>kernel/printk.c\<close>: nothing is written as long
  as file 3 of task 0 is not open.\<close>

definition fprintk :: "int \<Rightarrow> char \<Rightarrow> kern \<Rightarrow> kern" where
  "fprintk p c k =
     (if filp (ts k (task k 0)) ! 3 = 0 then k
      else k\<lparr>process_log := process_log k @ [(p, c, jiffies k)]\<rparr>)"

definition CURRENT_TIME :: "kern \<Rightarrow> int" where
  "CURRENT_TIME k = s32 (startup_time k + jiffies k sdiv HZ)"

text \<open>The loop \<open>for (p = &LAST_TASK; p > &FIRST_TASK; --p) if (*p) ...\<close> over the slots \<open>n\<close>, ..., 1.\<close>

fun for_slots :: "nat \<Rightarrow> (u32 \<Rightarrow> kern \<Rightarrow> kern) \<Rightarrow> kern \<Rightarrow> kern" where
  "for_slots 0 f k = k"
| "for_slots (Suc n) f k = for_slots n f (if task k (Suc n) \<noteq> 0 then f (task k (Suc n)) k else k)"

section \<open>Signals\<close>

text \<open>The signal numbers and wait options the code uses (\<open>signal.h\<close> and \<open>sys/wait.h\<close> are not part of the
  repository; the numbers are those of the system).\<close>

definition SIGHUP :: int where "SIGHUP = 1"
definition SIGKILL :: int where "SIGKILL = 9"
definition SIGALRM :: int where "SIGALRM = 14"
definition SIGCHLD :: int where "SIGCHLD = 17"
definition SIGSTOP :: int where "SIGSTOP = 19"

definition S_bit :: "int \<Rightarrow> u32" where
  "S_bit nr = push_bit (nat (nr - 1)) 1"

definition BLOCKABLE :: u32 where
  "BLOCKABLE = NOT (S_bit SIGKILL OR S_bit SIGSTOP)"

section \<open>Access lemmas\<close>

lemma upd_ts_simps [simp]:
  "ts (upd_ts p f k) q = (if q = p then f (ts k p) else ts k q)" "task (upd_ts p f k) = task k"
  "current (upd_ts p f k) = current k" "kframes (upd_ts p f k) = kframes k" "wait_ptr (upd_ts p f k) = wait_ptr k"
  "jiffies (upd_ts p f k) = jiffies k" "kmm (upd_ts p f k) = kmm k" "init_task (upd_ts p f k) = init_task k"
  "last_task_used_math (upd_ts p f k) = last_task_used_math k" "last_pid (upd_ts p f k) = last_pid k"
  "process_log (upd_ts p f k) = process_log k" "tty_pgrp (upd_ts p f k) = tty_pgrp k"
  "user_mem (upd_ts p f k) = user_mem k" "startup_time (upd_ts p f k) = startup_time k"
  by (simp_all add: upd_ts_def)

lemma fprintk_simps [simp]:
  "ts (fprintk n c k) = ts k" "task (fprintk n c k) = task k"
  "current (fprintk n c k) = current k" "kframes (fprintk n c k) = kframes k" "wait_ptr (fprintk n c k) = wait_ptr k"
  "jiffies (fprintk n c k) = jiffies k" "kmm (fprintk n c k) = kmm k" "init_task (fprintk n c k) = init_task k"
  "last_task_used_math (fprintk n c k) = last_task_used_math k" "last_pid (fprintk n c k) = last_pid k"
  "tty_pgrp (fprintk n c k) = tty_pgrp k" "user_mem (fprintk n c k) = user_mem k"
  by (simp_all add: fprintk_def)

lemma push_frame_simps [simp]:
  "ts (push_frame fr k) = ts k" "task (push_frame fr k) = task k"
  "current (push_frame fr k) = current k" "wait_ptr (push_frame fr k) = wait_ptr k"
  "jiffies (push_frame fr k) = jiffies k" "kmm (push_frame fr k) = kmm k" "init_task (push_frame fr k) = init_task k"
  "kframes (push_frame fr k) = (kframes k)(current k := fr # kframes k (current k))"
  by (simp_all add: push_frame_def)


text \<open>No two slots hold the same task.\<close>

definition tasks_distinct :: "kern \<Rightarrow> bool" where
  "tasks_distinct k \<longleftrightarrow> (\<forall>i j. task k i = task k j \<longrightarrow> i < NR_TASKS \<longrightarrow> j < NR_TASKS \<longrightarrow> task k i \<noteq> 0 \<longrightarrow> i = j)"

definition in_slots :: "nat \<Rightarrow> kern \<Rightarrow> u32 \<Rightarrow> bool" where
  "in_slots n k p \<longleftrightarrow> p \<noteq> 0 \<and> (\<exists>i \<in> {1..n}. task k i = p)"

lemma in_slots_Suc: "in_slots (Suc n) k p \<longleftrightarrow> p \<noteq> 0 \<and> task k (Suc n) = p \<or> in_slots n k p"
proof -
  have "{1..Suc n} = insert (Suc n) {1..n}" by auto
  then show ?thesis by (auto simp: in_slots_def)
qed

text \<open>A loop body that changes only the task it is called for, and that task only as a function \<open>g\<close> of
  itself, is applied once to every task in the slots.\<close>

lemma for_slots_frame:
  assumes "\<And>p k. h (f p k) = h k" shows "h (for_slots n f k) = h k"
  by (induction n arbitrary: k) (simp_all add: assms)

lemma for_slots_ts:
  assumes f: "\<And>p k. task (f p k) = task k" "\<And>p k. j (f p k) = j k"
    "\<And>p q k. ts (f p k) q = (if q = p then g (j k) (ts k p) else ts k q)"
    and d: "tasks_distinct k" "n < NR_TASKS"
  shows "ts (for_slots n f k) q = (if in_slots n k q then g (j k) (ts k q) else ts k q)"
  using d
proof (induction n arbitrary: k)
  case 0
  then show ?case by (simp add: in_slots_def)
next
  case (Suc n)
  let ?k = "if task k (Suc n) \<noteq> 0 then f (task k (Suc n)) k else k"
  have t: "task ?k = task k" "j ?k = j k" by (simp_all add: f)
  then have d: "tasks_distinct ?k" "\<And>p. in_slots n ?k p \<longleftrightarrow> in_slots n k p"
    using Suc.prems(1) unfolding tasks_distinct_def in_slots_def by simp_all
  have n: False if "in_slots n k q" "q \<noteq> 0 \<and> task k (Suc n) = q"
  proof -
    from that obtain i where "i \<in> {1..n}" "task k i = task k (Suc n)" "task k i \<noteq> 0"
      by (auto simp: in_slots_def)
    with Suc.prems have "i = Suc n" unfolding tasks_distinct_def by auto
    with \<open>i \<in> {1..n}\<close> show False by simp
  qed
  have k: "ts ?k q = (if q \<noteq> 0 \<and> task k (Suc n) = q then g (j k) (ts k q) else ts k q)"
    using f(3) by auto
  have "ts (for_slots n f ?k) q = (if in_slots n ?k q then g (j ?k) (ts ?k q) else ts ?k q)"
    by (rule Suc.IH [OF d(1)]) (use Suc.prems in simp)
  also have "\<dots> = (if in_slots (Suc n) k q then g (j k) (ts k q) else ts k q)"
    unfolding d(2) t(2) k in_slots_Suc by (cases "in_slots n k q") (use n in auto)
  finally show ?case by (simp only: for_slots.simps)
qed

section \<open>Descriptor bases\<close>

lemma desc_masks:
  "(0xffff :: u32) = mask 16" "(0xff :: u32) = mask 8" "(0xff000000 :: u32) = push_bit 24 (mask 8)"
  "(0x00ffff00 :: u32) = push_bit 8 (mask 16)"
  by (simp_all add: mask_eq_exp_minus_1 push_bit_eq_mult)

lemma bit_cases:
  assumes "n < LENGTH(32)"
  obtains "n < 16" | m where "n = 16 + m" "m < 8" | m where "n = 24 + m" "m < 8"
proof (cases "n < 16")
  case False
  show thesis
  proof (cases "n < 24")
    case True
    with False that(2) [of "n - 16"] show thesis by simp
  next
    case False
    with assms that(3) [of "n - 24"] show thesis by simp
  qed
qed (rule that(1))

lemma get_set_base: "get_base (set_base d b) = b"
  unfolding get_base_def set_base_def desc_masks
proof (rule bit_word_eqI)
  fix n assume n: "n < LENGTH(32)"
  show "bit (drop_bit 16 (da \<lparr>da = da d AND mask 16 OR push_bit 16 (b AND mask 16),
       db = db d AND push_bit 8 (mask 16) OR drop_bit 16 b AND mask 8 OR b AND push_bit 24 (mask 8)\<rparr>) OR
     push_bit 16 (db \<lparr>da = da d AND mask 16 OR push_bit 16 (b AND mask 16),
       db = db d AND push_bit 8 (mask 16) OR drop_bit 16 b AND mask 8 OR b AND push_bit 24 (mask 8)\<rparr> AND mask 8) OR
     db \<lparr>da = da d AND mask 16 OR push_bit 16 (b AND mask 16),
       db = db d AND push_bit 8 (mask 16) OR drop_bit 16 b AND mask 8 OR b AND push_bit 24 (mask 8)\<rparr> AND
       push_bit 24 (mask 8)) n = bit b n"
    by (cases rule: bit_cases [OF n]) (simp_all add: bit_simps)
qed

lemma bit_23: "bit (0x00800000 :: u32) n \<longleftrightarrow> n = 23"
proof -
  have "(0x00800000 :: u32) = 2 ^ 23" by simp
  then show ?thesis by (simp only: bit_exp_iff) auto
qed

lemma set_base_limit: "get_limit (set_base d b) = get_limit d"
proof -
  have m: "(0x000f0000 :: u32) = push_bit 16 (mask 4)"
    by (simp add: mask_eq_exp_minus_1 push_bit_eq_mult)
  have "da (set_base d b) AND 0xffff = da d AND 0xffff"
    unfolding set_base_def desc_masks by (rule bit_eqI) (auto simp: bit_simps)
  moreover have "db (set_base d b) AND 0x000f0000 = db d AND 0x000f0000"
    unfolding set_base_def desc_masks m by (rule bit_eqI) (auto simp: bit_simps)
  moreover have "db (set_base d b) AND 0x00800000 = db d AND 0x00800000"
    unfolding set_base_def desc_masks m
    by (rule bit_eqI) (simp only: bit_and_iff bit_23, auto simp: bit_simps)
  ultimately show ?thesis unfolding get_limit_def by (simp only:)
qed

end
