(* ===== verification/Sched.thy ===== *)
theory Sched imports Task begin

text \<open>
  \<open>kernel/sched.c\<close> of Lab 3: the scheduler, sleeping and waking, and the system calls that read or set
  a field of the current task. \<open>sleep_on\<close> and the other callers of \<open>schedule\<close> are split where the
  processor leaves the task; the part after \<open>schedule\<close> is the frame left on \<open>kframes\<close>, and \<open>resume\<close>
  (in the theories of the callers) runs it.
\<close>

unbundle bit_operations_syntax

section \<open>schedule\<close>

text \<open>The first loop of \<open>schedule\<close> on one task.\<close>

definition check_task :: "u32 \<Rightarrow> kern \<Rightarrow> kern" where
  "check_task p k =
     (let k = (if alarm (ts k p) \<noteq> 0 \<and> alarm (ts k p) < jiffies k
               then upd_ts p (\<lambda>t. t\<lparr>signal := signal t OR S_bit SIGALRM, alarm := 0\<rparr>) k else k)
      in if signal (ts k p) AND NOT (BLOCKABLE AND blocked (ts k p)) \<noteq> 0 \<and> state (ts k p) = TASK_INTERRUPTIBLE
         then let k = upd_ts p (\<lambda>t. t\<lparr>state := TASK_RUNNING\<rparr>) k in fprintk (pid (ts k p)) CHR ''J'' k
         else k)"

definition check_signals :: "kern \<Rightarrow> kern" where
  "check_signals = for_slots (NR_TASKS - 1) check_task"

fun pick_scan :: "nat \<Rightarrow> int \<Rightarrow> nat \<Rightarrow> kern \<Rightarrow> int \<times> nat" where
  "pick_scan 0 c next_nr k = (c, next_nr)"
| "pick_scan (Suc n) c next_nr k =
     (if task k (Suc n) = 0 then pick_scan n c next_nr k
      else let t = ts k (task k (Suc n)) in
        if state t = TASK_RUNNING \<and> counter t > c then pick_scan n (counter t) (Suc n) k
        else pick_scan n c next_nr k)"

definition recharge_task :: "task_struct \<Rightarrow> task_struct" where
  "recharge_task t = t\<lparr>counter := s32 (counter t div 2 + priority t)\<rparr>"

definition recharge :: "kern \<Rightarrow> kern" where
  "recharge = for_slots (NR_TASKS - 1) (\<lambda>p. upd_ts p recharge_task)"

text \<open>The \<open>while (1)\<close> loop; \<open>None\<close> when it does not end.\<close>

partial_function (option) sched_loop :: "kern \<Rightarrow> (nat \<times> kern) option" where
  "sched_loop k =
     (let r = pick_scan (NR_TASKS - 1) (- 1) 0 k in
      if fst r \<noteq> 0 then Some (snd r, k) else sched_loop (recharge k))"

text \<open>\<open>switch_to\<close>: the far jump saves the old task, sets \<open>TS\<close> and continues in the new one, which clears
  \<open>TS\<close> when it was the last to use the coprocessor.\<close>

definition switch_to :: "nat \<Rightarrow> kern \<Rightarrow> kern" where
  "switch_to n k =
     (if task k n = current k then k
      else k\<lparr>current := task k n, ts_flag := last_task_used_math k \<noteq> task k n\<rparr>)"

definition schedule :: "kern \<Rightarrow> kern option" where
  "schedule k =
     (case sched_loop (check_signals k) of
        None \<Rightarrow> None
      | Some (next_nr, k) \<Rightarrow>
          let k = (if task k next_nr \<noteq> current k then
                     (let k = (if state (cur k) = TASK_RUNNING then fprintk (pid (cur k)) CHR ''J'' k else k)
                      in fprintk (pid (ts k (task k next_nr))) CHR ''R'' k)
                   else k)
          in Some (switch_to next_nr k))"

text \<open>\<open>schedule\<close> for the callers that may also stop for another reason.\<close>

definition schedule_k :: "kern \<Rightarrow> kstop + kern" where
  "schedule_k k = (case schedule k of None \<Rightarrow> Inl KDiverge | Some k \<Rightarrow> Inr k)"

section \<open>Sleeping and waking\<close>

definition set_running :: "u32 \<Rightarrow> kern \<Rightarrow> kern" where
  "set_running p k = (let k = upd_ts p (\<lambda>t. t\<lparr>state := TASK_RUNNING\<rparr>) k in fprintk (pid (ts k p)) CHR ''J'' k)"

text \<open>\<open>sleep_on\<close> up to the call of \<open>schedule\<close>, the whole of it up to the switch, and the part after it.
  The newline that wakes the console when task 0 sleeps is output only.\<close>

definition sleep_on_enter :: "u32 \<Rightarrow> kern \<Rightarrow> kern" where
  "sleep_on_enter p k =
     (let tmp = wait_ptr k p;
          k = k\<lparr>wait_ptr := (wait_ptr k)(p := current k)\<rparr>;
          k = upd_ts (current k) (\<lambda>t. t\<lparr>state := TASK_UNINTERRUPTIBLE\<rparr>) k;
          k = fprintk (pid (cur k)) CHR ''W'' k
      in push_frame (FSleepOn p tmp) k)"

definition sleep_on :: "u32 \<Rightarrow> kern \<Rightarrow> kern option" where
  "sleep_on p k = (if p = 0 then Some k else schedule (sleep_on_enter p k))"

definition sleep_on_leave :: "u32 \<Rightarrow> kern \<Rightarrow> kern" where
  "sleep_on_leave tmp k = (if tmp \<noteq> 0 then set_running tmp k else k)"

definition interruptible_sleep_on_enter :: "u32 \<Rightarrow> u32 \<Rightarrow> kern \<Rightarrow> kern" where
  "interruptible_sleep_on_enter p tmp k =
     (let k = upd_ts (current k) (\<lambda>t. t\<lparr>state := TASK_INTERRUPTIBLE\<rparr>) k;
          k = fprintk (pid (cur k)) CHR ''W'' k
      in push_frame (FIntSleepOn p tmp) k)"

definition interruptible_sleep_on :: "u32 \<Rightarrow> kern \<Rightarrow> kstop + kern" where
  "interruptible_sleep_on p k =
     (if p = 0 then Inr k
      else if current k = init_task k then Inl (KPanic ''task[0] trying to sleep'')
      else let tmp = wait_ptr k p; k = k\<lparr>wait_ptr := (wait_ptr k)(p := current k)\<rparr> in
        schedule_k (interruptible_sleep_on_enter p tmp k))"

text \<open>After \<open>schedule\<close>: \<open>False\<close> when the task goes to sleep again (\<open>goto repeat\<close>), \<open>True\<close> when it is done.\<close>

definition interruptible_sleep_on_leave :: "u32 \<Rightarrow> u32 \<Rightarrow> kern \<Rightarrow> kstop + bool \<times> kern" where
  "interruptible_sleep_on_leave p tmp k =
     (if wait_ptr k p \<noteq> 0 \<and> wait_ptr k p \<noteq> current k then
        (let k = set_running (wait_ptr k p) k in
         sbind (schedule_k (interruptible_sleep_on_enter p tmp k)) (\<lambda>k. Inr (False, k)))
      else let k = k\<lparr>wait_ptr := (wait_ptr k)(p := 0)\<rparr> in
        Inr (True, if tmp \<noteq> 0 then set_running tmp k else k))"

definition wake_up :: "u32 \<Rightarrow> kern \<Rightarrow> kern" where
  "wake_up p k =
     (if p \<noteq> 0 \<and> wait_ptr k p \<noteq> 0
      then (let k = set_running (wait_ptr k p) k in k\<lparr>wait_ptr := (wait_ptr k)(p := 0)\<rparr>)
      else k)"

definition sys_pause :: "kern \<Rightarrow> kern option" where
  "sys_pause k =
     (let k = upd_ts (current k) (\<lambda>t. t\<lparr>state := TASK_INTERRUPTIBLE\<rparr>) k;
          k = (if pid (cur k) \<noteq> 0 then fprintk (pid (cur k)) CHR ''W'' k else k)
      in schedule (push_frame FPause k))"

section \<open>System calls on the current task\<close>

definition sys_alarm :: "int \<Rightarrow> kern \<Rightarrow> int \<times> kern" where
  "sys_alarm seconds k =
     (let old = alarm (cur k); old = (if old \<noteq> 0 then s32 (old - jiffies k) sdiv HZ else old)
      in (old, upd_ts (current k)
        (\<lambda>t. t\<lparr>alarm := if seconds > 0 then s32 (jiffies k + s32 (HZ * seconds)) else 0\<rparr>) k))"

definition sys_getpid :: "kern \<Rightarrow> int" where "sys_getpid k = pid (cur k)"
definition sys_getppid :: "kern \<Rightarrow> int" where "sys_getppid k = father (cur k)"
definition sys_getuid :: "kern \<Rightarrow> int" where "sys_getuid k = uint (uid (cur k))"
definition sys_geteuid :: "kern \<Rightarrow> int" where "sys_geteuid k = uint (euid (cur k))"
definition sys_getgid :: "kern \<Rightarrow> int" where "sys_getgid k = uint (gid (cur k))"
definition sys_getegid :: "kern \<Rightarrow> int" where "sys_getegid k = uint (egid (cur k))"

definition sys_nice :: "int \<Rightarrow> kern \<Rightarrow> int \<times> kern" where
  "sys_nice increment k =
     (0, if s32 (priority (cur k) - increment) > 0
         then upd_ts (current k) (\<lambda>t. t\<lparr>priority := s32 (priority t - increment)\<rparr>) k else k)"

text \<open>\<open>math_state_restore\<close>: the state of the coprocessor is saved for the task that used it last and
  loaded (or initialised) for the current one; \<open>fninit_state\<close> is the state \<open>fninit\<close> leaves.\<close>

definition math_state_restore :: "u32 list \<Rightarrow> kern \<Rightarrow> kern" where
  "math_state_restore fninit_state k =
     (if last_task_used_math k = current k then k
      else let k = (if last_task_used_math k \<noteq> 0
                    then upd_ts (last_task_used_math k) (\<lambda>t. t\<lparr>tss := (tss t)\<lparr>i387 := fpu k\<rparr>\<rparr>) k else k);
               k = k\<lparr>last_task_used_math := current k\<rparr>
        in if used_math (cur k) \<noteq> 0 then k\<lparr>fpu := i387 (tss (cur k))\<rparr>
           else upd_ts (current k) (\<lambda>t. t\<lparr>used_math := 1\<rparr>) (k\<lparr>fpu := fninit_state\<rparr>))"

section \<open>Initialisation\<close>

fun clear_slots :: "nat \<Rightarrow> nat \<Rightarrow> kern \<Rightarrow> kern" where
  "clear_slots 0 i k = k"
| "clear_slots (Suc n) i k =
     clear_slots n (Suc i)
       (k\<lparr>task := (task k)(i := 0),
          gdt := (gdt k)(2 * i + FIRST_TSS_ENTRY := \<lparr>da = 0, db = 0\<rparr>, 2 * i + FIRST_LDT_ENTRY := \<lparr>da = 0, db = 0\<rparr>)\<rparr>)"

text \<open>\<open>set_tss_desc\<close> and \<open>set_ldt_desc\<close> (\<open>asm/system.h\<close>, not part of the repository) are parameters: the
  descriptors they build for the task at an address.\<close>

definition sched_init :: "(u32 \<Rightarrow> desc_struct) \<Rightarrow> (u32 \<Rightarrow> desc_struct) \<Rightarrow> kern \<Rightarrow> kern" where
  "sched_init tss_desc ldt_desc k =
     clear_slots (NR_TASKS - 1) 1
       (k\<lparr>gdt := (gdt k)(FIRST_TSS_ENTRY := tss_desc (init_task k), FIRST_LDT_ENTRY := ldt_desc (init_task k))\<rparr>)"

text \<open>What \<open>show_task\<close> counts on the stack bytes above the structure, and the lines of \<open>show_stat\<close>:
  slot, pid, state, and the number of bytes never used.\<close>

definition show_task :: "(u32 \<Rightarrow> u8 list) \<Rightarrow> nat \<Rightarrow> u32 \<Rightarrow> kern \<Rightarrow> nat \<times> int \<times> task_state \<times> nat \<times> nat" where
  "show_task stack nr p k =
     (nr, pid (ts k p), state (ts k p), length (takeWhile (\<lambda>b. b = 0) (stack p)), length (stack p))"

definition show_stat :: "(u32 \<Rightarrow> u8 list) \<Rightarrow> kern \<Rightarrow> (nat \<times> int \<times> task_state \<times> nat \<times> nat) list" where
  "show_stat stack k = map (\<lambda>i. show_task stack i (task k i) k) (filter (\<lambda>i. task k i \<noteq> 0) [0..<NR_TASKS])"


section \<open>What the loops do\<close>

lemma NR_TASKS_eq [simp]: "NR_TASKS = 64" by (simp add: NR_TASKS_def)

definition runnable :: "kern \<Rightarrow> nat \<Rightarrow> bool" where
  "runnable k i \<longleftrightarrow> task k i \<noteq> 0 \<and> state (ts k (task k i)) = TASK_RUNNING"

abbreviation slice :: "kern \<Rightarrow> nat \<Rightarrow> int" where
  "slice k i \<equiv> counter (ts k (task k i))"

lemma pick_scan_props:
  assumes "pick_scan n c nx k = (c', nx')"
  shows "c \<le> c' \<and> (\<forall>i \<in> {1..n}. runnable k i \<longrightarrow> slice k i \<le> c') \<and>
    (c' = c \<and> nx' = nx \<or> nx' \<in> {1..n} \<and> runnable k nx' \<and> slice k nx' = c' \<and> c < c')"
  using assms
proof (induction n arbitrary: c nx)
  case (Suc n)
  show ?case
  proof (cases "runnable k (Suc n) \<and> slice k (Suc n) > c")
    case True
    then have "pick_scan n (slice k (Suc n)) (Suc n) k = (c', nx')"
      using Suc.prems by (simp add: runnable_def)
    from Suc.IH [OF this] True show ?thesis by (auto simp: le_Suc_eq)
  next
    case False
    then have "pick_scan n c nx k = (c', nx')"
      using Suc.prems by (auto simp: runnable_def Let_def split: if_splits)
    from Suc.IH [OF this] False show ?thesis by (auto simp: le_Suc_eq)
  qed
qed simp

text \<open>What the first loop makes of a task.\<close>

definition after_alarm :: "int \<Rightarrow> task_struct \<Rightarrow> task_struct" where
  "after_alarm j t = (if alarm t \<noteq> 0 \<and> alarm t < j then t\<lparr>signal := signal t OR S_bit SIGALRM, alarm := 0\<rparr> else t)"

definition signalled :: "task_struct \<Rightarrow> bool" where
  "signalled t \<longleftrightarrow> signal t AND NOT (BLOCKABLE AND blocked t) \<noteq> 0"

definition after_check :: "int \<Rightarrow> task_struct \<Rightarrow> task_struct" where
  "after_check j t =
     (let t = after_alarm j t in
      if signalled t \<and> state t = TASK_INTERRUPTIBLE then t\<lparr>state := TASK_RUNNING\<rparr> else t)"

lemma check_task_simps [simp]: "task (check_task p k) = task k" "jiffies (check_task p k) = jiffies k"
  "current (check_task p k) = current k" "kframes (check_task p k) = kframes k"
  "wait_ptr (check_task p k) = wait_ptr k" "kmm (check_task p k) = kmm k"
  "last_task_used_math (check_task p k) = last_task_used_math k" "init_task (check_task p k) = init_task k"
  "ts (check_task p k) q = (if q = p then after_check (jiffies k) (ts k p) else ts k q)"
  by (simp_all add: check_task_def Let_def after_check_def after_alarm_def signalled_def)

lemma check_signals_simps [simp]: "task (check_signals k) = task k" "jiffies (check_signals k) = jiffies k"
  "current (check_signals k) = current k" "kframes (check_signals k) = kframes k"
  "wait_ptr (check_signals k) = wait_ptr k" "kmm (check_signals k) = kmm k"
  "last_task_used_math (check_signals k) = last_task_used_math k" "init_task (check_signals k) = init_task k"
  by (simp_all add: check_signals_def for_slots_frame)

lemma recharge_simps [simp]: "task (recharge k) = task k" "jiffies (recharge k) = jiffies k"
  "current (recharge k) = current k" "kframes (recharge k) = kframes k"
  "wait_ptr (recharge k) = wait_ptr k" "kmm (recharge k) = kmm k"
  "last_task_used_math (recharge k) = last_task_used_math k" "init_task (recharge k) = init_task k"
  by (simp_all add: recharge_def for_slots_frame)

lemma check_signals_ts:
  "tasks_distinct k \<Longrightarrow> ts (check_signals k) q = (if in_slots 63 k q then after_check (jiffies k) (ts k q) else ts k q)"
  unfolding check_signals_def by (subst for_slots_ts [where j = jiffies and g = after_check]) simp_all

lemma recharge_ts:
  "tasks_distinct k \<Longrightarrow> ts (recharge k) q = (if in_slots 63 k q then recharge_task (ts k q) else ts k q)"
  unfolding recharge_def by (subst for_slots_ts [where j = jiffies and g = "\<lambda>_. recharge_task"]) simp_all


section \<open>The invariant of the time slices\<close>

definition slice_ok :: "task_struct \<Rightarrow> bool" where
  "slice_ok t \<longleftrightarrow> 1 \<le> priority t \<and> priority t \<le> 536870912 \<and> 0 \<le> counter t \<and> counter t \<le> 1073741824"

definition sched_wf :: "kern \<Rightarrow> bool" where
  "sched_wf k \<longleftrightarrow> tasks_distinct k \<and> task k 0 \<noteq> 0 \<and> (\<forall>p. in_slots 63 k p \<longrightarrow> slice_ok (ts k p))"

lemma slice_ok_recharge: "slice_ok t \<Longrightarrow> slice_ok (recharge_task t) \<and> 0 < counter (recharge_task t)"
  by (auto simp: slice_ok_def recharge_task_def)

lemma slice_ok_check: "slice_ok (after_check j t) = slice_ok t"
  by (simp add: slice_ok_def after_check_def after_alarm_def Let_def)

lemma in_slots_task: "i \<in> {1..63} \<Longrightarrow> task k i \<noteq> 0 \<Longrightarrow> in_slots 63 k (task k i)"
  by (auto simp: in_slots_def)

lemma sched_wfI:
  assumes "sched_wf k" "task k' = task k" "\<And>p. in_slots 63 k p \<Longrightarrow> slice_ok (ts k p) \<Longrightarrow> slice_ok (ts k' p)"
  shows "sched_wf k'"
  using assms by (simp add: sched_wf_def tasks_distinct_def in_slots_def)

lemma sched_wf_recharge: "sched_wf k \<Longrightarrow> sched_wf (recharge k)"
  by (rule sched_wfI) (auto simp: sched_wf_def recharge_ts slice_ok_recharge)

lemma sched_wf_check_signals: "sched_wf k \<Longrightarrow> sched_wf (check_signals k)"
  by (rule sched_wfI) (auto simp: sched_wf_def check_signals_ts slice_ok_check)

lemma runnable_recharge: "sched_wf k \<Longrightarrow> i \<in> {1..63} \<Longrightarrow> runnable (recharge k) i = runnable k i"
  by (auto simp: runnable_def sched_wf_def recharge_ts recharge_task_def)

lemma slice_recharge: "sched_wf k \<Longrightarrow> i \<in> {1..63} \<Longrightarrow> runnable k i \<Longrightarrow> 0 < slice (recharge k) i"
  using slice_ok_recharge in_slots_task [of i k]
  by (auto simp: runnable_def sched_wf_def recharge_ts)

lemma slice_nonneg: "sched_wf k \<Longrightarrow> i \<in> {1..63} \<Longrightarrow> runnable k i \<Longrightarrow> 0 \<le> slice k i"
  using in_slots_task [of i k] by (auto simp: runnable_def sched_wf_def slice_ok_def)

text \<open>The choice the loop makes when some runnable task has time left, or none is runnable.\<close>

definition best :: "kern \<Rightarrow> nat \<Rightarrow> bool" where
  "best k n \<longleftrightarrow> n = 0 \<and> (\<forall>i \<in> {1..63}. \<not> runnable k i) \<or>
     n \<in> {1..63} \<and> runnable k n \<and> 0 < slice k n \<and> (\<forall>i \<in> {1..63}. runnable k i \<longrightarrow> slice k i \<le> slice k n)"

lemma sched_loop_done:
  assumes "sched_wf k" "\<forall>i \<in> {1..63}. \<not> runnable k i \<or> (\<exists>i \<in> {1..63}. runnable k i \<and> 0 < slice k i)"
  obtains n where "sched_loop k = Some (n, k)" "best k n"
proof -
  obtain c n where r: "pick_scan 63 (- 1) 0 k = (c, n)" by fastforce
  note p = pick_scan_props [OF r]
  have nz: "0 \<le> slice k i" if "runnable k i" "i \<in> {1..63}" for i
    using slice_nonneg [OF assms(1)] that by blast
  have "c \<noteq> 0 \<and> best k n"
  proof (cases "\<exists>i \<in> {1..63}. runnable k i")
    case True
    with assms(2) obtain i where "i \<in> {1..63}" "runnable k i" "0 < slice k i" by blast
    with p show ?thesis by (auto simp: best_def)
  next
    case False
    with p show ?thesis by (auto simp: best_def)
  qed
  with r show thesis by (intro that [of n]) (simp_all add: sched_loop.simps [of k] Let_def)
qed

lemma sched_loop_wf:
  assumes "sched_wf k"
  obtains n k2 where "sched_loop k = Some (n, k2)" "best k2 n"
    "k2 = (if (\<exists>i \<in> {1..63}. runnable k i) \<and> (\<forall>i \<in> {1..63}. runnable k i \<longrightarrow> slice k i = 0) then recharge k else k)"
proof (cases "(\<exists>i \<in> {1..63}. runnable k i) \<and> (\<forall>i \<in> {1..63}. runnable k i \<longrightarrow> slice k i = 0)")
  case True
  obtain c n where r: "pick_scan 63 (- 1) 0 k = (c, n)" by fastforce
  from True obtain i where "i \<in> {1..63}" "runnable k i" "slice k i = 0" by blast
  with pick_scan_props [OF r] True have "c = 0" by auto
  with r have step: "sched_loop k = sched_loop (recharge k)"
    by (subst sched_loop.simps) (simp add: Let_def)
  have "\<forall>i \<in> {1..63}. \<not> runnable (recharge k) i \<or> (\<exists>i \<in> {1..63}. runnable (recharge k) i \<and> 0 < slice (recharge k) i)"
    using runnable_recharge [OF assms] slice_recharge [OF assms] by metis
  then obtain n where "sched_loop (recharge k) = Some (n, recharge k)" "best (recharge k) n"
    using sched_loop_done [OF sched_wf_recharge [OF assms]] by metis
  with step True show thesis by (intro that) simp_all
next
  case False
  have "\<forall>i \<in> {1..63}. \<not> runnable k i \<or> (\<exists>i \<in> {1..63}. runnable k i \<and> 0 < slice k i)"
    using False slice_nonneg [OF assms] by (metis order_le_less)
  then obtain n where "sched_loop k = Some (n, k)" "best k n"
    using sched_loop_done [OF assms] by metis
  then show thesis by (rule that) (simp only: if_not_P [OF False])
qed

lemma switch_to_simps [simp]: "task (switch_to n k) = task k" "ts (switch_to n k) = ts k"
  "current (switch_to n k) = task k n" "kframes (switch_to n k) = kframes k"
  "wait_ptr (switch_to n k) = wait_ptr k" "kmm (switch_to n k) = kmm k" "jiffies (switch_to n k) = jiffies k"
  "init_task (switch_to n k) = init_task k" "last_task_used_math (switch_to n k) = last_task_used_math k"
  by (simp_all add: switch_to_def)

text \<open>Everything a caller of \<open>schedule\<close> needs.\<close>

lemma schedule_wf:
  assumes "sched_wf k"
  obtains n k2 k' where "schedule k = Some k'" "best k2 n" "current k' = task k n" "ts k' = ts k2"
    "task k' = task k" "kframes k' = kframes k" "wait_ptr k' = wait_ptr k" "kmm k' = kmm k" "jiffies k' = jiffies k"
    "init_task k' = init_task k" "sched_wf k'" "task k2 = task k"
    "k2 = (if (\<exists>i \<in> {1..63}. runnable (check_signals k) i) \<and>
              (\<forall>i \<in> {1..63}. runnable (check_signals k) i \<longrightarrow> slice (check_signals k) i = 0)
           then recharge (check_signals k) else check_signals k)"
proof -
  let ?k = "check_signals k"
  obtain n k2 where r: "sched_loop ?k = Some (n, k2)" "best k2 n"
    "k2 = (if (\<exists>i \<in> {1..63}. runnable ?k i) \<and> (\<forall>i \<in> {1..63}. runnable ?k i \<longrightarrow> slice ?k i = 0)
           then recharge ?k else ?k)"
    by (rule sched_loop_wf [OF sched_wf_check_signals [OF assms]])
  define k3 where "k3 = (if task k2 n \<noteq> current k2 then
       (let k = (if state (cur k2) = TASK_RUNNING then fprintk (pid (cur k2)) CHR ''J'' k2 else k2)
        in fprintk (pid (ts k (task k n))) CHR ''R'' k) else k2)"
  have k2: "task k2 = task k" "kframes k2 = kframes k" "wait_ptr k2 = wait_ptr k" "kmm k2 = kmm k" "jiffies k2 = jiffies k"
    "init_task k2 = init_task k" "sched_wf k2"
    using sched_wf_check_signals [OF assms] by (simp_all add: r(3) sched_wf_recharge)
  have s: "schedule k = Some (switch_to n k3)" using r(1) by (simp add: schedule_def k3_def)
  have k3: "task k3 = task k2" "ts k3 = ts k2" "kframes k3 = kframes k2" "wait_ptr k3 = wait_ptr k2" "kmm k3 = kmm k2"
    "jiffies k3 = jiffies k2" "init_task k3 = init_task k2"
    by (simp_all add: k3_def Let_def)
  have wf: "sched_wf (switch_to n k3)" by (rule sched_wfI [OF k2(7)]) (simp_all add: k3)
  show thesis
    by (rule that [OF s r(2) _ _ _ _ _ _ _ _ wf k2(1) r(3)]) (simp_all add: k2 k3)
qed


lemma best_cong: "task k' = task k \<Longrightarrow> ts k' = ts k \<Longrightarrow> best k' n = best k n"
  by (simp add: best_def runnable_def)

text \<open>A kernel with the idle task, an \<open>init\<close> sleeping with an alarm that has passed, and a second task
  whose slice is used up.\<close>

definition some_task :: "int \<Rightarrow> task_state \<Rightarrow> int \<Rightarrow> task_struct" where
  "some_task n st c = (INIT_TASK 0x1000 0)\<lparr>state := st, counter := c, pid := n, father := 1\<rparr>"

definition kern1 :: kern where
  "kern1 = \<lparr>kmm = \<lparr>mem = (\<lambda>_. 0), mem_map = (\<lambda>i. if i < 100 then 0 else USED), HIGH_MEMORY = 0x1000000,
       sharedPages = (\<lambda>_. \<lparr>sp_count = 0, physicalAddress = 0\<rparr>)\<rparr>,
     task = (\<lambda>_. 0)(0 := 0x1000, 1 := 0x200000, 2 := 0x201000),
     ts = (\<lambda>_. some_task 0 TASK_RUNNING 15)(0x200000 := (some_task 1 TASK_INTERRUPTIBLE 0)\<lparr>alarm := 50\<rparr>,
        0x201000 := some_task 2 TASK_RUNNING 0),
     init_task = 0x1000, current = 0x201000, last_task_used_math = 0, fpu = [], ts_flag = False,
     jiffies = 100, startup_time = 0, last_pid = 2, wait_ptr = (\<lambda>_. 0), kframes = (\<lambda>_. []), process_log = [],
     f_count = (\<lambda>_. 0), i_count = (\<lambda>_. 0), tty_pgrp = (\<lambda>_. 0), gdt = (\<lambda>_. \<lparr>da = 0, db = 0\<rparr>),
     user_mem = (\<lambda>_. 0)\<rparr>"

lemma kern1_simps [simp]:
  "task kern1 = (\<lambda>_. 0)(0 := 0x1000, 1 := 0x200000, 2 := 0x201000)"
  "ts kern1 = (\<lambda>_. some_task 0 TASK_RUNNING 15)(0x200000 := (some_task 1 TASK_INTERRUPTIBLE 0)\<lparr>alarm := 50\<rparr>,
        0x201000 := some_task 2 TASK_RUNNING 0)" "jiffies kern1 = 100" "current kern1 = 0x201000"
  "wait_ptr kern1 = (\<lambda>_. 0)" "kframes kern1 = (\<lambda>_. [])" "init_task kern1 = 0x1000"
  "last_task_used_math kern1 = 0"
  by (simp_all add: kern1_def)

lemma some_task_simps [simp]:
  "state (some_task n st c) = st" "counter (some_task n st c) = c" "priority (some_task n st c) = 15"
  "signal (some_task n st c) = 0" "blocked (some_task n st c) = 0" "alarm (some_task n st c) = 0"
  "pid (some_task n st c) = n" "father (some_task n st c) = 1" "used_math (some_task n st c) = 0"
  by (simp_all add: some_task_def INIT_TASK_def)

lemma sched_wf_kern1: "sched_wf kern1"
  by (auto simp: sched_wf_def tasks_distinct_def in_slots_def slice_ok_def split: if_splits)

section \<open>Properties\<close>

text \<open>C1. \<open>schedule\<close> always comes back from its loop and picks the right task: after signals are looked at,
  the processor goes to a runnable task with the most time left (a positive time), or to task 0 when no
  other task is runnable. The slices are recharged, every task's at once, exactly when some task is
  runnable and no runnable task has time left; nothing else of any task changes, no task enters or
  leaves the table, and the invariant of the slices is kept.\<close>

theorem schedule_picks_best:
  assumes "sched_wf k"
  shows "\<exists>k' n. schedule k = Some k' \<and> current k' = task k n \<and> task k' = task k \<and> sched_wf k' \<and>
    (n = 0 \<and> (\<forall>i \<in> {1..63}. \<not> runnable k' i) \<or>
     n \<in> {1..63} \<and> runnable k' n \<and> 0 < slice k' n \<and> (\<forall>i \<in> {1..63}. runnable k' i \<longrightarrow> slice k' i \<le> slice k' n)) \<and>
    (\<forall>p. ts k' p =
      (if \<not> in_slots 63 k p then ts k p
       else if (\<exists>i \<in> {1..63}. runnable (check_signals k) i) \<and>
               (\<forall>i \<in> {1..63}. runnable (check_signals k) i \<longrightarrow> slice k i = 0)
       then recharge_task (after_check (jiffies k) (ts k p)) else after_check (jiffies k) (ts k p)))"
proof -
  obtain n k2 k' where s: "schedule k = Some k'" "best k2 n" "current k' = task k n" "ts k' = ts k2"
    "task k' = task k" "sched_wf k'" "task k2 = task k"
    "k2 = (if (\<exists>i \<in> {1..63}. runnable (check_signals k) i) \<and>
              (\<forall>i \<in> {1..63}. runnable (check_signals k) i \<longrightarrow> slice (check_signals k) i = 0)
           then recharge (check_signals k) else check_signals k)"
    by (rule schedule_wf [OF assms])
  have d: "tasks_distinct k" "tasks_distinct (check_signals k)"
    using assms sched_wf_check_signals [OF assms] by (simp_all add: sched_wf_def)
  have b: "best k' n" using s(2,4,5,7) best_cong [of k' k2 n] by simp
  have c: "slice (check_signals k) i = slice k i" for i
    by (simp add: check_signals_ts [OF d(1)] after_check_def after_alarm_def Let_def)
  have i: "in_slots 63 (check_signals k) p = in_slots 63 k p" for p by (simp add: in_slots_def)
  have "\<forall>p. ts k' p =
      (if \<not> in_slots 63 k p then ts k p
       else if (\<exists>i \<in> {1..63}. runnable (check_signals k) i) \<and>
               (\<forall>i \<in> {1..63}. runnable (check_signals k) i \<longrightarrow> slice k i = 0)
       then recharge_task (after_check (jiffies k) (ts k p)) else after_check (jiffies k) (ts k p))"
    unfolding s(4) s(8) c by (auto simp: recharge_ts [OF d(2)] check_signals_ts [OF d(1)] i)
  with b s(1,3,5,6) show ?thesis unfolding best_def by blast
qed

theorem schedule_picks_best_witness:
  "\<exists>k'. schedule kern1 = Some k' \<and> current k' \<in> {0x1000, 0x200000, 0x201000} \<and> sched_wf k'"
proof -
  obtain k' n where "schedule kern1 = Some k'" "current k' = task kern1 n" "sched_wf k'"
    "n = 0 \<or> n \<in> {1..63} \<and> runnable k' n" "task k' = task kern1"
    using schedule_picks_best [OF sched_wf_kern1] by metis
  then show ?thesis by (auto simp: runnable_def split: if_splits)
qed

text \<open>Signals in \<open>schedule\<close>: a task sleeping interruptibly becomes runnable exactly when it has a
  signal it does not block, where an alarm that has passed counts as \<open>SIGALRM\<close> and is cleared; no task
  can block \<open>SIGKILL\<close>. A task in any other state keeps its state.\<close>

theorem schedule_wakes_signalled:
  assumes "sched_wf k" "schedule k = Some k'" "i \<in> {1..63}" "task k i \<noteq> 0" "t = ts k (task k i)"
    and "sg = (if alarm t \<noteq> 0 \<and> alarm t < jiffies k then signal t OR push_bit 13 1 else signal t)"
  shows "state (ts k' (task k i)) =
      (if state t = TASK_INTERRUPTIBLE \<and> sg AND NOT (NOT (push_bit 8 1 OR push_bit 18 1) AND blocked t) \<noteq> 0
       then TASK_RUNNING else state t) \<and>
    signal (ts k' (task k i)) = sg \<and>
    alarm (ts k' (task k i)) = (if alarm t < jiffies k then 0 else alarm t) \<and>
    (state t = TASK_INTERRUPTIBLE \<and> bit (signal t) 8 \<longrightarrow> state (ts k' (task k i)) = TASK_RUNNING)"
proof -
  have p: "in_slots 63 k (task k i)" using assms(3,4) by (rule in_slots_task)
  obtain k'' where k'': "schedule k = Some k''" and t: "\<forall>p. ts k'' p =
      (if \<not> in_slots 63 k p then ts k p
       else if (\<exists>i \<in> {1..63}. runnable (check_signals k) i) \<and>
               (\<forall>i \<in> {1..63}. runnable (check_signals k) i \<longrightarrow> slice (check_signals k) i = 0)
       then recharge_task (after_check (jiffies k) (ts k p)) else after_check (jiffies k) (ts k p))"
  proof -
    obtain n k2 k'' where s: "schedule k = Some k''" "ts k'' = ts k2"
      "k2 = (if (\<exists>i \<in> {1..63}. runnable (check_signals k) i) \<and>
              (\<forall>i \<in> {1..63}. runnable (check_signals k) i \<longrightarrow> slice (check_signals k) i = 0)
           then recharge (check_signals k) else check_signals k)"
      by (rule schedule_wf [OF assms(1)])
    have d: "tasks_distinct k" "tasks_distinct (check_signals k)"
      using assms(1) sched_wf_check_signals [OF assms(1)] by (simp_all add: sched_wf_def)
    have i: "in_slots 63 (check_signals k) p = in_slots 63 k p" for p by (simp add: in_slots_def)
    show thesis
      by (rule that [OF s(1)]) (auto simp: s(2,3) recharge_ts [OF d(2)] check_signals_ts [OF d(1)] i)
  qed
  have "ts k' (task k i) = after_check (jiffies k) t \<or> ts k' (task k i) = recharge_task (after_check (jiffies k) t)"
    using t p k'' assms(2,5) by auto
  then have e: "state (ts k' (task k i)) = state (after_check (jiffies k) t)"
    "signal (ts k' (task k i)) = signal (after_check (jiffies k) t)"
    "alarm (ts k' (task k i)) = alarm (after_check (jiffies k) t)"
    by (auto simp: recharge_task_def)
  have kill: "sg AND NOT (NOT (push_bit 8 1 OR push_bit 18 1) AND blocked t) \<noteq> 0" if "bit (signal t) 8"
  proof
    assume "sg AND NOT (NOT (push_bit 8 1 OR push_bit 18 1) AND blocked t) = 0"
    then have "\<not> bit (sg AND NOT (NOT (push_bit 8 1 OR push_bit 18 1) AND blocked t)) 8" by simp
    moreover have "bit sg 8" using that by (simp add: assms(6) bit_simps)
    ultimately show False by (simp add: bit_simps)
  qed
  have b: "S_bit SIGALRM = push_bit 13 1" "BLOCKABLE = NOT (push_bit 8 1 OR push_bit 18 1)"
    by (simp_all add: S_bit_def SIGALRM_def BLOCKABLE_def SIGKILL_def SIGSTOP_def)
  show ?thesis
    unfolding e using kill
    by (auto simp: after_check_def after_alarm_def signalled_def Let_def b assms(6) simp del: push_bit_of_1)
qed


theorem schedule_wakes_signalled_witness:
  "\<exists>k'. schedule kern1 = Some k' \<and> state (ts k' 0x200000) = TASK_RUNNING \<and> alarm (ts k' 0x200000) = 0"
proof -
  obtain n k2 k' where s: "schedule kern1 = Some k'"
    by (rule schedule_wf [OF sched_wf_kern1])
  have "1 \<in> {1..63 :: nat}" "task kern1 1 \<noteq> 0" by simp_all
  from schedule_wakes_signalled [OF sched_wf_kern1 s this refl refl] show ?thesis
    by (intro exI [of _ k']) (simp add: s)
qed

text \<open>The coprocessor is handed over lazily and nobody's state is lost: when a task that has used the
  coprocessor loses the processor, another task traps and works with the coprocessor, and the first one
  traps again, it gets back exactly the state it left, and the other one's state is kept in its own task
  state segment.\<close>

theorem math_state_round_trip:
  assumes "last_task_used_math k = a" "a \<noteq> b" "a \<noteq> 0" "b \<noteq> 0" "used_math (ts k a) \<noteq> 0"
  shows "\<exists>k1 k2. k1 = math_state_restore ini (k\<lparr>current := b\<rparr>) \<and>
    last_task_used_math k1 = b \<and> used_math (ts k1 b) \<noteq> 0 \<and>
    fpu k1 = (if used_math (ts k b) \<noteq> 0 then i387 (tss (ts k b)) else ini) \<and>
    k2 = math_state_restore ini (k1\<lparr>fpu := f, current := a\<rparr>) \<and>
    last_task_used_math k2 = a \<and> fpu k2 = fpu k \<and> i387 (tss (ts k2 b)) = f"
  using assms by (auto simp: math_state_restore_def Let_def upd_ts_def)

theorem math_state_round_trip_witness:
  "fpu (math_state_restore [] ((math_state_restore [] (kern1\<lparr>last_task_used_math := 0x201000, fpu := [7],
      ts := (ts kern1)(0x201000 := (some_task 2 TASK_RUNNING 0)\<lparr>used_math := 1\<rparr>), current := 0x200000\<rparr>))
      \<lparr>fpu := [9], current := 0x201000\<rparr>)) = [7]"
  using math_state_round_trip [of "kern1\<lparr>last_task_used_math := 0x201000, fpu := [7],
      ts := (ts kern1)(0x201000 := (some_task 2 TASK_RUNNING 0)\<lparr>used_math := 1\<rparr>)\<rparr>" "0x201000" "0x200000" "[]" "[9]"]
  by simp

end
