(* ===== verification/Waitq.thy ===== *)
theory Waitq imports Sched begin

text \<open>
  Sleeping and waking as a step relation: \<open>kstep\<close> interleaves \<open>sleep_on\<close>, \<open>wake_up\<close> (also from an
  interrupt, so at any time), the part of \<open>sleep_on\<close> after \<open>schedule\<close>, \<open>sys_pause\<close> and time slices
  that end. The queue of a wait variable is not a data structure of its own: it is threaded through the
  local variable \<open>tmp\<close> of the sleeping calls, here the argument of the frames. The invariant says that
  no sleeper is dropped from this chain.
\<close>

section \<open>The steps\<close>

definition pop_frame :: "kern \<Rightarrow> kern" where
  "pop_frame k = k\<lparr>kframes := (kframes k)(current k := tl (kframes k (current k)))\<rparr>"

inductive kstep :: "kern \<Rightarrow> kern \<Rightarrow> bool" where
  Sleep: "kframes k (current k) = [] \<Longrightarrow> p \<noteq> 0 \<Longrightarrow> sleep_on p k = Some k' \<Longrightarrow> kstep k k'"
| Wake: "kstep k (wake_up p k)"
| Sleep_back: "kframes k (current k) = FSleepOn p tmp # fr \<Longrightarrow> kstep k (sleep_on_leave tmp (pop_frame k))"
| Pause: "kframes k (current k) = [] \<Longrightarrow> sys_pause k = Some k' \<Longrightarrow> kstep k k'"
| Pause_back: "kframes k (current k) = FPause # fr \<Longrightarrow> kstep k (pop_frame k)"
| Tick: "kframes k (current k) = [] \<Longrightarrow> schedule (push_frame FTick k) = Some k' \<Longrightarrow> kstep k k'"
| Tick_back: "kframes k (current k) = FTick # fr \<Longrightarrow> kstep k (pop_frame k)"

inductive_cases kstep_cases: "kstep k k'"

inductive ksteps :: "kern \<Rightarrow> kern \<Rightarrow> bool" where
  ksteps_refl: "ksteps k k"
| ksteps_step: "ksteps k k' \<Longrightarrow> kstep k' k'' \<Longrightarrow> ksteps k k''"

section \<open>The chain of sleepers\<close>

definition is_FSleepOn :: "frame \<Rightarrow> bool" where
  "is_FSleepOn f \<longleftrightarrow> (\<exists>p tmp. f = FSleepOn p tmp)"

lemma is_FSleepOn_simps [simp]: "is_FSleepOn (FSleepOn p tmp)" "\<not> is_FSleepOn FPause"
  "\<not> is_FSleepOn FTick" "\<not> is_FSleepOn (FSemWait s)" "\<not> is_FSleepOn (FFloppyOn n)"
  by (simp_all add: is_FSleepOn_def)

definition asleep_on :: "kern \<Rightarrow> u32 \<Rightarrow> u32 \<Rightarrow> bool" where
  "asleep_on k p t \<longleftrightarrow> (\<exists>tmp. FSleepOn p tmp \<in> set (kframes k t))"

definition will_wake :: "kern \<Rightarrow> u32 \<Rightarrow> u32 \<Rightarrow> u32 \<Rightarrow> bool" where
  "will_wake k p t tmp \<longleftrightarrow> tmp \<noteq> 0 \<and> FSleepOn p tmp \<in> set (kframes k t)"

text \<open>A task is \<open>kept\<close> by a wait variable when a chain of wake-ups leads to it: it is the head of the
  queue, or it has been woken and has yet to finish \<open>sleep_on\<close>, or a task that is kept will wake it.\<close>

inductive kept :: "kern \<Rightarrow> u32 \<Rightarrow> u32 \<Rightarrow> bool" for k p where
  kept_head: "wait_ptr k p = t \<Longrightarrow> t \<noteq> 0 \<Longrightarrow> kept k p t"
| kept_woken: "state (ts k t) = TASK_RUNNING \<Longrightarrow> asleep_on k p t \<Longrightarrow> kept k p t"
| kept_next: "kept k p t \<Longrightarrow> will_wake k p t tmp \<Longrightarrow> kept k p tmp"

definition no_lost_sleeper :: "kern \<Rightarrow> bool" where
  "no_lost_sleeper k \<longleftrightarrow>
     (\<forall>p t. state (ts k t) = TASK_UNINTERRUPTIBLE \<longrightarrow> asleep_on k p t \<longrightarrow> kept k p t)"

definition kern_wf :: "kern \<Rightarrow> bool" where
  "kern_wf k \<longleftrightarrow> sched_wf k \<and> current k \<noteq> 0 \<and> no_lost_sleeper k"

lemma kept_mono:
  assumes "kept k p t" "asleep_on k' p t"
    and head: "\<And>t. wait_ptr k p = t \<Longrightarrow> t \<noteq> 0 \<Longrightarrow> asleep_on k' p t \<Longrightarrow> kept k' p t"
    and woken: "\<And>t. state (ts k t) = TASK_RUNNING \<Longrightarrow> asleep_on k p t \<Longrightarrow> asleep_on k' p t \<Longrightarrow> kept k' p t"
    and link: "\<And>t tmp. will_wake k p t tmp \<Longrightarrow> asleep_on k' p tmp \<Longrightarrow> will_wake k' p t tmp \<or> kept k' p tmp"
  shows "kept k' p t"
  using assms(1,2)
proof (induction rule: kept.induct)
  case (kept_next t tmp)
  have "asleep_on k' p t" if "will_wake k' p t tmp" using that by (auto simp: will_wake_def asleep_on_def)
  with link [OF kept_next.hyps(2) kept_next.prems] kept_next.IH show ?case
    by (metis kept.kept_next)
qed (use head woken in blast)+

lemma no_lost_sleeper_step:
  assumes "no_lost_sleeper k"
    and new: "\<And>p t. state (ts k' t) = TASK_UNINTERRUPTIBLE \<Longrightarrow> asleep_on k' p t \<Longrightarrow>
       kept k' p t \<or> state (ts k t) = TASK_UNINTERRUPTIBLE \<and> asleep_on k p t"
    and head: "\<And>p t. wait_ptr k p = t \<Longrightarrow> t \<noteq> 0 \<Longrightarrow> asleep_on k' p t \<Longrightarrow> kept k' p t"
    and woken: "\<And>p t. state (ts k t) = TASK_RUNNING \<Longrightarrow> asleep_on k p t \<Longrightarrow> asleep_on k' p t \<Longrightarrow> kept k' p t"
    and link: "\<And>p t tmp. will_wake k p t tmp \<Longrightarrow> asleep_on k' p tmp \<Longrightarrow> will_wake k' p t tmp \<or> kept k' p tmp"
  shows "no_lost_sleeper k'"
  unfolding no_lost_sleeper_def
proof (intro allI impI)
  fix p t assume *: "state (ts k' t) = TASK_UNINTERRUPTIBLE" "asleep_on k' p t"
  from new [OF *] show "kept k' p t"
  proof
    assume "state (ts k t) = TASK_UNINTERRUPTIBLE \<and> asleep_on k p t"
    with assms(1) have "kept k p t" by (simp add: no_lost_sleeper_def)
    from kept_mono [OF this *(2) head woken link] show ?thesis .
  qed
qed

text \<open>A step that leaves the wait variables and frames alone and wakes tasks only.\<close>

lemma no_lost_sleeper_wakes:
  assumes "no_lost_sleeper k" "wait_ptr k' = wait_ptr k" "kframes k' = kframes k"
    and "\<And>t. state (ts k' t) = state (ts k t) \<or> state (ts k' t) = TASK_RUNNING \<and> state (ts k t) \<noteq> TASK_RUNNING"
  shows "no_lost_sleeper k'"
proof -
  have a: "asleep_on k' p t = asleep_on k p t" "will_wake k' p t tmp = will_wake k p t tmp" for p t tmp
    by (simp_all add: asleep_on_def will_wake_def assms(3))
  show ?thesis
  proof (rule no_lost_sleeper_step [OF assms(1)])
    fix p t assume "state (ts k' t) = TASK_UNINTERRUPTIBLE" "asleep_on k' p t"
    with assms(4) [of t] show "kept k' p t \<or> state (ts k t) = TASK_UNINTERRUPTIBLE \<and> asleep_on k p t" by (auto simp: a)
  next
    fix p t assume "wait_ptr k p = t" "t \<noteq> 0"
    then show "kept k' p t" by (intro kept_head) (simp_all add: assms(2))
  next
    fix p t assume "state (ts k t) = TASK_RUNNING" "asleep_on k p t"
    with assms(4) [of t] show "kept k' p t" by (intro kept_woken) (auto simp: a)
  next
    fix p t tmp assume "will_wake k p t tmp"
    then show "will_wake k' p t tmp \<or> kept k' p tmp" by (simp add: a)
  qed
qed

lemma schedule_keeps:
  assumes "sched_wf k" "schedule k = Some k'"
  shows "state (ts k' t) = state (ts k t) \<or> state (ts k' t) = TASK_RUNNING \<and> state (ts k t) = TASK_INTERRUPTIBLE"
    "kframes k' = kframes k" "wait_ptr k' = wait_ptr k" "sched_wf k'" "current k' \<noteq> 0" "task k' = task k"
    "init_task k' = init_task k"
proof -
  obtain n k2 k'' where s: "schedule k = Some k''" "best k2 n" "current k'' = task k n" "ts k'' = ts k2"
    "task k'' = task k"  "kframes k'' = kframes k" "wait_ptr k'' = wait_ptr k" "init_task k'' = init_task k"
    "sched_wf k''" "task k2 = task k"
    "k2 = (if (\<exists>i \<in> {1..63}. runnable (check_signals k) i) \<and>
              (\<forall>i \<in> {1..63}. runnable (check_signals k) i \<longrightarrow> slice (check_signals k) i = 0)
           then recharge (check_signals k) else check_signals k)"
    by (rule schedule_wf [OF assms(1)])
  have e: "k'' = k'" using s(1) assms(2) by simp
  have d: "tasks_distinct k" "tasks_distinct (check_signals k)"
    using assms sched_wf_check_signals [OF assms(1)] by (simp_all add: sched_wf_def)
  have "task k n \<noteq> 0" using s(2) assms(1) by (auto simp: best_def runnable_def s(10) sched_wf_def)
  then show "current k' \<noteq> 0" using s(3) e by simp
  have "state (ts k'' t) = state (ts (check_signals k) t)"
    by (simp add: s(4) s(11) recharge_ts [OF d(2)] recharge_task_def)
  then show "state (ts k' t) = state (ts k t) \<or> state (ts k' t) = TASK_RUNNING \<and> state (ts k t) = TASK_INTERRUPTIBLE"
    unfolding e by (simp add: check_signals_ts [OF d(1)] after_check_def after_alarm_def Let_def)
  show "kframes k' = kframes k" "wait_ptr k' = wait_ptr k" "sched_wf k'" "task k' = task k" "init_task k' = init_task k"
    using s e by simp_all
qed

lemma kern_wf_schedule:
  assumes "kern_wf k" "schedule k = Some k'" shows "kern_wf k'"
proof -
  have wf: "sched_wf k" "no_lost_sleeper k" using assms(1) by (simp_all add: kern_wf_def)
  note s = schedule_keeps [OF wf(1) assms(2)]
  have "no_lost_sleeper k'"
  proof (rule no_lost_sleeper_wakes [OF wf(2) s(3,2)])
    fix t show "state (ts k' t) = state (ts k t) \<or> state (ts k' t) = TASK_RUNNING \<and> state (ts k t) \<noteq> TASK_RUNNING"
      using s(1) [of t] by auto
  qed
  with s show ?thesis by (simp add: kern_wf_def)
qed

lemma sched_wf_state:
  assumes "sched_wf k" "task k' = task k"
    "\<And>p. priority (ts k' p) = priority (ts k p) \<and> counter (ts k' p) = counter (ts k p)"
  shows "sched_wf k'"
  using assms by (intro sched_wfI [OF assms(1)]) (simp_all add: slice_ok_def)

lemma kern_wf_enter:
  assumes "kern_wf k" "\<And>q. \<not> asleep_on k q (current k)"
  shows "kern_wf (sleep_on_enter p k)"
proof -
  let ?k = "sleep_on_enter p k" and ?c = "current k"
  have wp: "wait_ptr ?k q = (if q = p then ?c else wait_ptr k q)" for q
    by (simp add: sleep_on_enter_def Let_def)
  have fr: "kframes ?k t = (if t = ?c then FSleepOn p (wait_ptr k p) # kframes k ?c else kframes k t)" for t
    by (simp add: sleep_on_enter_def Let_def)
  have st: "state (ts ?k t) = (if t = ?c then TASK_UNINTERRUPTIBLE else state (ts k t))" for t
    by (simp add: sleep_on_enter_def Let_def)
  have c: "?c \<noteq> 0" using assms(1) by (simp add: kern_wf_def)
  have kc: "kept ?k p ?c" by (rule kept_head) (simp_all add: wp c)
  have na: "\<not> will_wake k q ?c tmp" for q tmp using assms(2) by (auto simp: asleep_on_def will_wake_def)
  have a: "asleep_on ?k q t \<longleftrightarrow> asleep_on k q t \<or> t = ?c \<and> q = p" for q t
    using assms(2) by (auto simp: asleep_on_def fr)
  have "no_lost_sleeper ?k"
  proof (rule no_lost_sleeper_step [of k])
    fix q t assume "state (ts ?k t) = TASK_UNINTERRUPTIBLE" "asleep_on ?k q t"
    with kc assms(2) show "kept ?k q t \<or> state (ts k t) = TASK_UNINTERRUPTIBLE \<and> asleep_on k q t"
      by (cases "t = ?c") (auto simp: st a)
  next
    fix q t assume q: "wait_ptr k q = t" "t \<noteq> 0"
    have "will_wake ?k p ?c t" if "q = p" using that q by (simp add: will_wake_def fr)
    then show "kept ?k q t" using kept_next [OF kc] kept_head [of ?k q t] q by (cases "q = p") (simp_all add: wp)
  next
    fix q t assume "state (ts k t) = TASK_RUNNING" "asleep_on k q t" "asleep_on ?k q t"
    with assms(2) show "kept ?k q t" by (cases "t = ?c") (auto intro!: kept_woken simp: st)
  next
    fix q t tmp assume "will_wake k q t tmp"
    then have "will_wake ?k q t tmp" using na [of q tmp] by (cases "t = ?c") (simp_all add: will_wake_def fr)
    then show "will_wake ?k q t tmp \<or> kept ?k q tmp" ..
  qed (use assms(1) in \<open>simp add: kern_wf_def\<close>)
  moreover have "sched_wf ?k"
    by (rule sched_wf_state [of k]) (use assms(1) in \<open>simp_all add: kern_wf_def sleep_on_enter_def Let_def\<close>)
  moreover have "current ?k = ?c" by (simp add: sleep_on_enter_def Let_def)
  ultimately show ?thesis using c by (simp add: kern_wf_def)
qed

lemma set_running_simps [simp]:
  "ts (set_running p k) t = (if t = p then (ts k t)\<lparr>state := TASK_RUNNING\<rparr> else ts k t)"
  "task (set_running p k) = task k" "kframes (set_running p k) = kframes k" "current (set_running p k) = current k"
  "wait_ptr (set_running p k) = wait_ptr k" "init_task (set_running p k) = init_task k"
  "kmm (set_running p k) = kmm k" "jiffies (set_running p k) = jiffies k"
  by (simp_all add: set_running_def Let_def)

lemma kern_wf_wake_up: "kern_wf k \<Longrightarrow> kern_wf (wake_up p k)"
proof (cases "p \<noteq> 0 \<and> wait_ptr k p \<noteq> 0")
  case True
  let ?k = "wake_up p k" and ?h = "wait_ptr k p"
  assume wf: "kern_wf k"
  have wp: "wait_ptr ?k q = (if q = p then 0 else wait_ptr k q)" for q using True by (simp add: wake_up_def Let_def)
  have st: "ts ?k t = (if t = ?h then (ts k t)\<lparr>state := TASK_RUNNING\<rparr> else ts k t)" for t
    using True by (simp add: wake_up_def Let_def)
  have fr: "kframes ?k = kframes k" "current ?k = current k" "task ?k = task k" using True by (simp_all add: wake_up_def Let_def)
  have a: "asleep_on ?k q t = asleep_on k q t" "will_wake ?k q t tmp = will_wake k q t tmp" for q t tmp
    by (simp_all add: asleep_on_def will_wake_def fr)
  have "no_lost_sleeper ?k"
  proof (rule no_lost_sleeper_step [of k])
    fix q t assume "state (ts ?k t) = TASK_UNINTERRUPTIBLE" "asleep_on ?k q t"
    then show "kept ?k q t \<or> state (ts k t) = TASK_UNINTERRUPTIBLE \<and> asleep_on k q t"
      by (cases "t = ?h") (simp_all add: st a)
  next
    fix q t assume q: "wait_ptr k q = t" "t \<noteq> 0" "asleep_on ?k q t"
    then show "kept ?k q t"
      by (cases "q = p") (auto intro: kept_woken kept_head [of ?k q] simp: wp st)
  next
    fix q t assume "state (ts k t) = TASK_RUNNING" "asleep_on ?k q t"
    then show "kept ?k q t" by (intro kept_woken) (simp_all add: st)
  qed (use wf in \<open>simp_all add: kern_wf_def a\<close>)
  moreover have "sched_wf ?k" by (rule sched_wf_state [of k]) (use wf in \<open>simp_all add: kern_wf_def fr st\<close>)
  ultimately show ?thesis using wf by (simp add: kern_wf_def fr)
qed (auto simp: wake_up_def)

lemma pop_frame_simps [simp]:
  "ts (pop_frame k) = ts k" "task (pop_frame k) = task k" "current (pop_frame k) = current k"
  "wait_ptr (pop_frame k) = wait_ptr k" "kframes (pop_frame k) = (kframes k)(current k := tl (kframes k (current k)))"
  by (simp_all add: pop_frame_def)

lemma kern_wf_leave:
  assumes wf: "kern_wf k" and f: "kframes k (current k) = FSleepOn p tmp # fr"
  shows "kern_wf (sleep_on_leave tmp (pop_frame k))"
proof -
  let ?k = "sleep_on_leave tmp (pop_frame k)" and ?c = "current k"
  have e: "wait_ptr ?k = wait_ptr k" "current ?k = current k" "task ?k = task k"
    "kframes ?k = (kframes k)(?c := fr)" using f by (simp_all add: sleep_on_leave_def)
  have st: "ts ?k t = (if t = tmp \<and> tmp \<noteq> 0 then (ts k t)\<lparr>state := TASK_RUNNING\<rparr> else ts k t)" for t
    by (simp add: sleep_on_leave_def)
  have a: "asleep_on k q t" if "asleep_on ?k q t" for q t
    using that f by (auto simp: asleep_on_def e split: if_splits)
  have "no_lost_sleeper ?k"
  proof (rule no_lost_sleeper_step [of k])
    fix q t assume "state (ts ?k t) = TASK_UNINTERRUPTIBLE" "asleep_on ?k q t"
    then show "kept ?k q t \<or> state (ts k t) = TASK_UNINTERRUPTIBLE \<and> asleep_on k q t"
      using a by (auto simp: st split: if_splits)
  next
    fix q t assume "wait_ptr k q = t" "t \<noteq> 0"
    then show "kept ?k q t" by (intro kept_head [of ?k q]) (simp_all add: e)
  next
    fix q t assume "state (ts k t) = TASK_RUNNING" "asleep_on ?k q t"
    then show "kept ?k q t" by (intro kept_woken) (simp_all add: st)
  next
    fix q t u assume u: "will_wake k q t u" "asleep_on ?k q u"
    show "will_wake ?k q t u \<or> kept ?k q u"
    proof (cases "t = ?c \<and> u = tmp \<and> q = p")
      case True
      with u have "kept ?k q u" by (intro kept_woken) (auto simp: st will_wake_def)
      then show ?thesis ..
    next
      case False
      with u f show ?thesis by (auto simp: will_wake_def e)
    qed
  qed (use wf in \<open>simp_all add: kern_wf_def\<close>)
  moreover have "sched_wf ?k" by (rule sched_wf_state [of k]) (use wf in \<open>simp_all add: kern_wf_def e st\<close>)
  ultimately show ?thesis using wf by (simp add: kern_wf_def e)
qed

text \<open>Frames other than that of \<open>sleep_on\<close>, and a state that is not \<open>TASK_UNINTERRUPTIBLE\<close>.\<close>

lemma kern_wf_other:
  assumes wf: "kern_wf k" and e: "wait_ptr k' = wait_ptr k" "current k' = current k" "task k' = task k"
    "\<And>t. {f \<in> set (kframes k' t). is_FSleepOn f} = {f \<in> set (kframes k t). is_FSleepOn f}"
    and st: "\<And>p. priority (ts k' p) = priority (ts k p) \<and> counter (ts k' p) = counter (ts k p)"
    "\<And>t. state (ts k' t) = state (ts k t) \<or> t = current k \<and> state (ts k' t) = TASK_INTERRUPTIBLE \<and> (\<forall>q. \<not> asleep_on k q t)"
  shows "kern_wf k'"
proof -
  have m: "FSleepOn q tmp \<in> set (kframes k' t) \<longleftrightarrow> FSleepOn q tmp \<in> set (kframes k t)" for q t tmp
    using e(4) [of t] by (auto simp: is_FSleepOn_def)
  have a: "asleep_on k' q t = asleep_on k q t" "will_wake k' q t tmp = will_wake k q t tmp" for q t tmp
    by (simp_all add: asleep_on_def will_wake_def m)
  have "no_lost_sleeper k'"
  proof (rule no_lost_sleeper_step [of k])
    fix q t assume "state (ts k' t) = TASK_UNINTERRUPTIBLE" "asleep_on k' q t"
    with st(2) [of t] show "kept k' q t \<or> state (ts k t) = TASK_UNINTERRUPTIBLE \<and> asleep_on k q t" by (auto simp: a)
  next
    fix q t assume "wait_ptr k q = t" "t \<noteq> 0"
    then show "kept k' q t" by (intro kept_head [of k' q]) (simp_all add: e)
  next
    fix q t assume "state (ts k t) = TASK_RUNNING" "asleep_on k q t"
    with st(2) [of t] show "kept k' q t" by (intro kept_woken) (auto simp: a)
  qed (use wf in \<open>simp_all add: kern_wf_def a\<close>)
  moreover have "sched_wf k'" by (rule sched_wf_state [of k]) (use wf in \<open>simp_all add: kern_wf_def e st\<close>)
  ultimately show ?thesis using wf by (simp add: kern_wf_def e)
qed

lemma kern_wf_step: "kstep k k' \<Longrightarrow> kern_wf k \<Longrightarrow> kern_wf k'"
proof (induction rule: kstep.induct)
  case (Sleep k p k')
  then show ?case using kern_wf_schedule [OF kern_wf_enter [of k p]] by (auto simp: sleep_on_def asleep_on_def)
next
  case (Wake k p)
  then show ?case by (rule kern_wf_wake_up)
next
  case (Sleep_back k p tmp fr)
  then show ?case using kern_wf_leave by blast
next
  case (Pause k k')
  let ?k = "upd_ts (current k) (\<lambda>t. t\<lparr>state := TASK_INTERRUPTIBLE\<rparr>) k"
  let ?l = "if pid (cur ?k) \<noteq> 0 then fprintk (pid (cur ?k)) CHR ''W'' ?k else ?k"
  have l: "wait_ptr ?l = wait_ptr k" "current ?l = current k" "task ?l = task k" "kframes ?l = kframes k"
    "ts ?l t = (if t = current k then (ts k t)\<lparr>state := TASK_INTERRUPTIBLE\<rparr> else ts k t)" for t by simp_all
  have "kern_wf (push_frame FPause ?l)"
    by (rule kern_wf_other [OF Pause.prems])
      (use Pause.hyps(1) in \<open>auto simp: l asleep_on_def\<close>)
  with Pause.hyps(2) show ?case unfolding sys_pause_def Let_def by (rule kern_wf_schedule [rotated])
next
  case (Pause_back k fr)
  show ?case by (rule kern_wf_other [OF Pause_back.prems]) (use Pause_back.hyps in auto)
next
  case (Tick k k')
  have "kern_wf (push_frame FTick k)" by (rule kern_wf_other [OF Tick.prems]) auto
  with Tick.hyps(2) show ?case by (rule kern_wf_schedule [rotated])
next
  case (Tick_back k fr)
  show ?case by (rule kern_wf_other [OF Tick_back.prems]) (use Tick_back.hyps in auto)
qed

lemma kern_wf_steps: "ksteps k k' \<Longrightarrow> kern_wf k \<Longrightarrow> kern_wf k'"
  by (induction rule: ksteps.induct) (use kern_wf_step in blast)+


section \<open>Properties\<close>

text \<open>C2. No sleeper is lost: from any well-formed start, however \<open>sleep_on\<close>, \<open>wake_up\<close>, time slices and
  \<open>pause\<close> interleave, every task that sleeps uninterruptibly is reached by a chain of wake-ups that
  starts at the wait variable it sleeps on or at a task that is already running again. So once that
  variable is NULL and no task that was woken from it still has to finish \<open>sleep_on\<close>, no task is left
  asleep on it.\<close>

theorem sleepers_never_lost:
  assumes "kern_wf k" "ksteps k k'"
  shows "(\<forall>p t. state (ts k' t) = TASK_UNINTERRUPTIBLE \<and> asleep_on k' p t \<longrightarrow> kept k' p t) \<and>
    (\<forall>p. wait_ptr k' p = 0 \<and> (\<forall>t. state (ts k' t) = TASK_RUNNING \<longrightarrow> \<not> asleep_on k' p t) \<longrightarrow>
     (\<forall>t. state (ts k' t) = TASK_UNINTERRUPTIBLE \<longrightarrow> \<not> asleep_on k' p t))"
proof -
  have wf: "no_lost_sleeper k'" using kern_wf_steps [OF assms(2,1)] by (simp add: kern_wf_def)
  have none: "\<not> kept k' p t" if "wait_ptr k' p = 0" "\<forall>t. state (ts k' t) = TASK_RUNNING \<longrightarrow> \<not> asleep_on k' p t" for p t
  proof
    assume "kept k' p t" then show False by induction (use that in auto)
  qed
  show ?thesis using wf none unfolding no_lost_sleeper_def by blast
qed

lemma kern_wf_kern1: "kern_wf kern1"
  by (simp add: kern_wf_def sched_wf_kern1 no_lost_sleeper_def asleep_on_def)

theorem sleepers_never_lost_witness:
  "\<exists>k'. ksteps kern1 k' \<and> state (ts k' 0x201000) = TASK_UNINTERRUPTIBLE \<and> kept k' 8 0x201000"
proof -
  have wf: "sched_wf (sleep_on_enter 8 kern1)"
    using kern_wf_enter [OF kern_wf_kern1, of 8] by (simp add: kern_wf_def asleep_on_def)
  obtain k' where s: "schedule (sleep_on_enter 8 kern1) = Some k'" by (rule schedule_wf [OF wf])
  note sk = schedule_keeps [OF wf s]
  have "kstep kern1 k'" by (rule kstep.Sleep [of _ 8]) (simp_all add: sleep_on_def s)
  then have st: "ksteps kern1 k'" by (rule ksteps_step [OF ksteps_refl])
  have "state (ts (sleep_on_enter 8 kern1) 0x201000) = TASK_UNINTERRUPTIBLE"
    by (simp add: sleep_on_enter_def Let_def)
  then have "state (ts k' 0x201000) = TASK_UNINTERRUPTIBLE" using sk(1) [of "0x201000"] by simp
  moreover have "asleep_on k' 8 0x201000" by (simp add: asleep_on_def sk(2) sleep_on_enter_def Let_def)
  ultimately show ?thesis using sleepers_never_lost [OF kern_wf_kern1 st] st by blast
qed

end
