(* ===== verification/Sem.thy ===== *)
theory Sem imports Waitq begin

text \<open>
  \<open>kernel/sem.c\<close> of Lab 5: named counting semaphores. A semaphore is a structure in kernel memory
  (\<open>sems\<close>, by address), linked into a doubly linked list that starts at \<open>_semHead\<close>; its queue of
  sleepers is the wait variable at \<open>&sem->m_wait\<close>, on which \<open>sleep_on\<close> and \<open>wake_up\<close> of \<open>Sched\<close> work.
  \<open>malloc\<close> is not part of the repository: \<open>sys_sem_open\<close> takes the address it returned, and what
  \<open>sems\<close> holds there is what the memory happened to contain.
\<close>

unbundle bit_operations_syntax

definition MAXSEMNAME :: nat where "MAXSEMNAME = 128"

record sem_t =
  m_name :: "u8 list"
  m_value :: u32
  m_prev :: u32
  m_next :: u32

record sem_sys =
  sk :: kern
  sems :: "u32 \<Rightarrow> sem_t"
  semHead :: u32

text \<open>The address of the field \<open>m_wait\<close> of the semaphore at an address.\<close>

definition m_wait_addr :: "u32 \<Rightarrow> u32" where
  "m_wait_addr p = p + 144"

text \<open>The characters of \<open>"_semHead"\<close>.\<close>

definition semHead_name :: "u8 list" where
  "semHead_name = [0x5f, 0x73, 0x65, 0x6d, 0x48, 0x65, 0x61, 0x64]"

section \<open>The list of semaphores\<close>

text \<open>\<open>strCmp\<close> of \<open>string_fix.h\<close>; \<open>None\<close> when it runs past the end of an array.\<close>

fun strCmp :: "u8 list \<Rightarrow> u8 list \<Rightarrow> int option" where
  "strCmp (a # s1) (b # s2) =
     (if a \<noteq> 0 \<and> a = b then strCmp s1 s2 else Some (uint a - uint b))"
| "strCmp _ _ = None"

fun_cases strCmp_SomeE: "strCmp s1 s2 = Some d"

partial_function (option) find_sem_from :: "u32 \<Rightarrow> u8 list \<Rightarrow> sem_sys \<Rightarrow> u32 option" where
  "find_sem_from tmpSemP name s =
     (if m_next (sems s tmpSemP) \<noteq> 0
      then case strCmp (m_name (sems s tmpSemP)) name of
             None \<Rightarrow> None
           | Some d \<Rightarrow> if d = 0 then Some tmpSemP else find_sem_from (m_next (sems s tmpSemP)) name s
      else Some tmpSemP)"

definition find_sem :: "u8 list \<Rightarrow> sem_sys \<Rightarrow> u32 option" where
  "find_sem name s = find_sem_from (semHead s) name s"

text \<open>\<open>sys_sem_open\<close>: \<open>um\<close> is user memory, \<open>chunk\<close> the result of \<open>malloc(sizeof(sem_t))\<close>. \<open>None\<close> stands
  for a search that does not end or leaves an array.\<close>

definition sys_sem_open ::
  "(u32 \<Rightarrow> u8) \<Rightarrow> u32 \<Rightarrow> u32 \<Rightarrow> u32 \<Rightarrow> sem_sys \<Rightarrow> ((errno + u32) \<times> sem_sys) option" where
  "sys_sem_open um name value chunk s =
     (let (i, c, tmpName) = read_name um name (MAXSEMNAME + 1) 0 0 (replicate (MAXSEMNAME + 1) 0) in
      if c \<noteq> 0 then Some (Inl EINVAL, s)
      else if strCmp (semHead_name @ [0]) tmpName = Some 0 then Some (Inl EINVAL, s)
      else Option.bind (find_sem tmpName s) (\<lambda>tmpSemP.
           Option.bind (strCmp (m_name (sems s tmpSemP)) tmpName) (\<lambda>d.
           if d = 0 then Some (Inr tmpSemP, s)
           else if chunk = 0 then Some (Inl ENOSPC, s)
           else Option.bind (c_strlen tmpName) (\<lambda>len.
             let s = s\<lparr>sems := (sems s)(chunk := (sems s chunk)
                       \<lparr>m_name := c_strncpy (m_name (sems s chunk)) tmpName len,
                        m_value := value, m_prev := tmpSemP, m_next := 0\<rparr>)\<rparr>;
                 s = s\<lparr>sk := (sk s)\<lparr>wait_ptr := (wait_ptr (sk s))(m_wait_addr chunk := 0)\<rparr>\<rparr>;
                 s = s\<lparr>sems := (sems s)(tmpSemP := (sems s tmpSemP)\<lparr>m_next := chunk\<rparr>)\<rparr>
             in Some (Inr chunk, s)))))"

definition sys_sem_unlink :: "(u32 \<Rightarrow> u8) \<Rightarrow> u32 \<Rightarrow> sem_sys \<Rightarrow> ((errno + int) \<times> sem_sys) option" where
  "sys_sem_unlink um name s =
     (let (i, c, tmpName) = read_name um name (MAXSEMNAME + 1) 0 0 (replicate (MAXSEMNAME + 1) 0) in
      if c \<noteq> 0 then Some (Inl EINVAL, s)
      else if strCmp (semHead_name @ [0]) tmpName = Some 0 then Some (Inl EINVAL, s)
      else Option.bind (find_sem tmpName s) (\<lambda>tmpSemP.
           Option.bind (strCmp (m_name (sems s tmpSemP)) tmpName) (\<lambda>d.
           if d \<noteq> 0 then Some (Inl EINVAL, s)
           else let prev = m_prev (sems s tmpSemP); nxt = m_next (sems s tmpSemP);
                    s = s\<lparr>sems := (sems s)(prev := (sems s prev)\<lparr>m_next := nxt\<rparr>)\<rparr>;
                    nxt = m_next (sems s tmpSemP)
                in Some (Inr 0,
                     if nxt \<noteq> 0
                     then s\<lparr>sems := (sems s)(nxt := (sems s nxt)\<lparr>m_prev := m_prev (sems s tmpSemP)\<rparr>)\<rparr>
                     else s))))"

section \<open>Waiting and posting\<close>

text \<open>One turn of the loop of \<open>sys_sem_wait\<close>: the task goes to sleep, and the loop goes on when it comes
  back, or the semaphore is taken. Interrupts are off, so nothing comes between the test and either.\<close>

definition sys_sem_wait :: "u32 \<Rightarrow> sem_sys \<Rightarrow> sem_sys option" where
  "sys_sem_wait sem s =
     (if m_value (sems s sem) = 0
      then map_option (\<lambda>k. s\<lparr>sk := k\<rparr>) (sleep_on (m_wait_addr sem) (push_frame (FSemWait sem) (sk s)))
      else Some (s\<lparr>sems := (sems s)(sem := (sems s sem)\<lparr>m_value := m_value (sems s sem) - 1\<rparr>)\<rparr>))"

text \<open>A task that comes back from \<open>schedule\<close> finishes \<open>sleep_on\<close> and tests again.\<close>

definition sem_wait_back :: "u32 \<Rightarrow> u32 \<Rightarrow> sem_sys \<Rightarrow> sem_sys option" where
  "sem_wait_back sem tmp s = sys_sem_wait sem (s\<lparr>sk := pop_frame (sleep_on_leave tmp (pop_frame (sk s)))\<rparr>)"

definition sys_sem_post :: "u32 \<Rightarrow> sem_sys \<Rightarrow> sem_sys" where
  "sys_sem_post sem s =
     (let s = s\<lparr>sems := (sems s)(sem := (sems s sem)\<lparr>m_value := m_value (sems s sem) + 1\<rparr>)\<rparr>
      in s\<lparr>sk := wake_up (m_wait_addr sem) (sk s)\<rparr>)"

text \<open>The life of one semaphore: \<open>sem_run p s0 n m s\<close> when \<open>s\<close> is reached from \<open>s0\<close> with \<open>n\<close> calls of
  \<open>sem_post\<close> and \<open>m\<close> calls of \<open>sem_wait\<close> that have returned, interleaved with anything else the
  kernel does to its other queues.\<close>

inductive sem_run :: "u32 \<Rightarrow> sem_sys \<Rightarrow> nat \<Rightarrow> nat \<Rightarrow> sem_sys \<Rightarrow> bool" for p s0 where
  Run_init: "sem_run p s0 0 0 s0"
| Run_wait: "sem_run p s0 n m s \<Longrightarrow> kframes (sk s) (current (sk s)) = [] \<Longrightarrow> sys_sem_wait p s = Some s' \<Longrightarrow>
    sem_run p s0 n (if m_value (sems s p) = 0 then m else Suc m) s'"
| Run_back: "sem_run p s0 n m s \<Longrightarrow>
    kframes (sk s) (current (sk s)) = FSleepOn (m_wait_addr p) tmp # FSemWait p # fr \<Longrightarrow>
    sem_wait_back p tmp s = Some s' \<Longrightarrow> sem_run p s0 n (if m_value (sems s p) = 0 then m else Suc m) s'"
| Run_post: "sem_run p s0 n m s \<Longrightarrow> sem_run p s0 (Suc n) m (sys_sem_post p s)"
| Run_other: "sem_run p s0 n m s \<Longrightarrow> kstep (sk s) k' \<Longrightarrow>
    (\<And>tmp fr. kframes (sk s) (current (sk s)) \<noteq> FSleepOn (m_wait_addr p) tmp # FSemWait p # fr) \<Longrightarrow>
    wait_ptr k' (m_wait_addr p) = wait_ptr (sk s) (m_wait_addr p) \<Longrightarrow> sem_run p s0 n m (s\<lparr>sk := k'\<rparr>)"

section \<open>The counting invariant\<close>

text \<open>A frame of \<open>sleep_on\<close> is always the innermost call.\<close>

definition frames_ok :: "kern \<Rightarrow> bool" where
  "frames_ok k \<longleftrightarrow> (\<forall>t. \<forall>f \<in> set (tl (kframes k t)). \<not> is_FSleepOn f)"

lemma frames_ok_simps [simp]: "frames_ok (wake_up p k) = frames_ok k"
  "frames_ok (sleep_on_leave tmp k) = frames_ok k"
  by (simp_all add: frames_ok_def wake_up_def sleep_on_leave_def Let_def)

lemma frames_ok_pop: "frames_ok k \<Longrightarrow> frames_ok (pop_frame k)"
  by (simp add: frames_ok_def) (metis list.set_sel(2) tl_Nil)

lemma frames_ok_push: "frames_ok k \<Longrightarrow> (\<And>f. f \<in> set (kframes k (current k)) \<Longrightarrow> \<not> is_FSleepOn f) \<Longrightarrow> frames_ok (push_frame fr k)"
  by (simp add: frames_ok_def)

lemma frames_ok_cong: "kframes k' = kframes k \<Longrightarrow> frames_ok k' = frames_ok k"
  by (simp add: frames_ok_def)

lemma asleep_iff: "(\<forall>q. \<not> asleep_on k q t) \<longleftrightarrow> (\<forall>f \<in> set (kframes k t). \<not> is_FSleepOn f)"
  by (auto simp: asleep_on_def is_FSleepOn_def)

lemma frames_ok_enter:
  assumes "frames_ok k" "\<And>q. \<not> asleep_on k q (current k)" shows "frames_ok (sleep_on_enter p k)"
proof -
  have "kframes (sleep_on_enter p k) = (kframes k)(current k := FSleepOn p (wait_ptr k p) # kframes k (current k))"
    by (simp add: sleep_on_enter_def Let_def)
  with assms asleep_iff [of k "current k"] show ?thesis by (auto simp: frames_ok_def)
qed

lemma frames_ok_step:
  assumes "kstep k k'" "frames_ok k" "kern_wf k" shows "frames_ok k'"
  using assms
proof (cases rule: kstep.cases)
  case (Sleep p)
  have n: "\<And>q. \<not> asleep_on k q (current k)" using Sleep by (simp add: asleep_on_def)
  have "kern_wf (sleep_on_enter p k)" by (rule kern_wf_enter [OF assms(3) n])
  then have "kframes k' = kframes (sleep_on_enter p k)"
    using Sleep by (auto simp: sleep_on_def kern_wf_def intro: schedule_keeps(2))
  then show ?thesis using frames_ok_enter [OF assms(2) n, of p] by (simp add: frames_ok_def)
next
  case Pause
  have "sched_wf k" using assms(3) by (simp add: kern_wf_def)
  obtain j where j: "schedule (push_frame FPause j) = Some k'" "kframes j = kframes k" "current j = current k"
    "sched_wf (push_frame FPause j)"
  proof -
    let ?j = "if pid (cur (upd_ts (current k) (\<lambda>t. t\<lparr>state := TASK_INTERRUPTIBLE\<rparr>) k)) \<noteq> 0
      then fprintk (pid (cur (upd_ts (current k) (\<lambda>t. t\<lparr>state := TASK_INTERRUPTIBLE\<rparr>) k))) CHR ''W''
         (upd_ts (current k) (\<lambda>t. t\<lparr>state := TASK_INTERRUPTIBLE\<rparr>) k)
      else upd_ts (current k) (\<lambda>t. t\<lparr>state := TASK_INTERRUPTIBLE\<rparr>) k"
    have "sched_wf (push_frame FPause ?j)"
      by (rule sched_wf_state [OF \<open>sched_wf k\<close>]) simp_all
    moreover have "schedule (push_frame FPause ?j) = Some k'" using Pause(2) by (simp add: sys_pause_def Let_def)
    ultimately show thesis by (intro that [of ?j]) simp_all
  qed
  show ?thesis using assms(2) Pause(1) j(2,3) schedule_keeps(2) [OF j(4,1)] by (simp add: frames_ok_def)
next
  case Tick
  have "sched_wf (push_frame FTick k)"
    by (rule sched_wf_state [of k]) (use assms(3) in \<open>simp_all add: kern_wf_def\<close>)
  then show ?thesis using assms(2) Tick schedule_keeps(2) by (fastforce simp: frames_ok_def)
qed (auto simp: frames_ok_pop)


definition sem_inv :: "u32 \<Rightarrow> sem_sys \<Rightarrow> bool" where
  "sem_inv p s \<longleftrightarrow> kern_wf (sk s) \<and> frames_ok (sk s) \<and>
     (wait_ptr (sk s) (m_wait_addr p) \<noteq> 0 \<longrightarrow> m_value (sems s p) = 0)"

lemma sem_inv_wait:
  assumes "sem_inv p s" "\<And>q. \<not> asleep_on (sk s) q (current (sk s))" "m_wait_addr p \<noteq> 0"
    and "sys_sem_wait p s = Some s'"
  shows "sem_inv p s'"
    "unat (m_value (sems s' p)) + (if m_value (sems s p) = 0 then 0 else 1) = unat (m_value (sems s p))"
proof -
  let ?k = "push_frame (FSemWait p) (sk s)"
  have "sem_inv p s' \<and> unat (m_value (sems s' p)) + (if m_value (sems s p) = 0 then 0 else 1) = unat (m_value (sems s p))"
  proof (cases "m_value (sems s p) = 0")
    case True
    have n: "\<And>q. \<not> asleep_on ?k q (current ?k)" using assms(2) by (simp add: asleep_on_def)
    have "kern_wf (sk s)" "frames_ok (sk s)" using assms(1) by (simp_all add: sem_inv_def)
    moreover have "{f \<in> set (kframes ?k t). is_FSleepOn f} = {f \<in> set (kframes (sk s) t). is_FSleepOn f}" for t
      by auto
    ultimately have wf: "kern_wf ?k" "frames_ok ?k"
      using assms(2) frames_ok_push [of "sk s"] asleep_iff [of "sk s" "current (sk s)"]
        kern_wf_other [of "sk s" ?k] by auto
    obtain k' where k': "schedule (sleep_on_enter (m_wait_addr p) ?k) = Some k'" "s' = s\<lparr>sk := k'\<rparr>"
      using assms(3,4) True by (auto simp: sys_sem_wait_def sleep_on_def)
    have e: "kern_wf (sleep_on_enter (m_wait_addr p) ?k)" "frames_ok (sleep_on_enter (m_wait_addr p) ?k)"
      using kern_wf_enter [OF wf(1) n] frames_ok_enter [OF wf(2) n] by blast+
    then have "sched_wf (sleep_on_enter (m_wait_addr p) ?k)" by (simp add: kern_wf_def)
    note sk = schedule_keeps [OF this k'(1)]
    show ?thesis using True kern_wf_schedule [OF e(1) k'(1)] e(2) frames_ok_cong [OF sk(2)] k'(2)
      by (simp add: sem_inv_def)
  next
    case False
    moreover have "unat (m_value (sems s p) - 1) = unat (m_value (sems s p)) - 1" using False by (rule unat_minus_one)
    moreover have "unat (m_value (sems s p)) \<noteq> 0" using False by (simp add: unat_eq_zero)
    moreover have "s' = s\<lparr>sems := (sems s)(p := (sems s p)\<lparr>m_value := m_value (sems s p) - 1\<rparr>)\<rparr>"
      using False assms(4) by (simp add: sys_sem_wait_def)
    ultimately show ?thesis using assms(1) by (auto simp: sem_inv_def)
  qed
  then show "sem_inv p s'"
    "unat (m_value (sems s' p)) + (if m_value (sems s p) = 0 then 0 else 1) = unat (m_value (sems s p))" by blast+
qed

lemma sem_inv_post:
  assumes "sem_inv p s" "m_wait_addr p \<noteq> 0"
  shows "sem_inv p (sys_sem_post p s)"
    "m_value (sems (sys_sem_post p s) p) = m_value (sems s p) + 1"
proof -
  have w: "wait_ptr (wake_up (m_wait_addr p) (sk s)) (m_wait_addr p) = 0"
    using assms(2) by (auto simp: wake_up_def Let_def)
  show "sem_inv p (sys_sem_post p s)" using assms(1) kern_wf_wake_up
    by (simp add: sem_inv_def sys_sem_post_def Let_def w)
  show "m_value (sems (sys_sem_post p s) p) = m_value (sems s p) + 1"
    by (simp add: sys_sem_post_def Let_def)
qed

lemma sem_inv_back:
  assumes "sem_inv p s" "kframes (sk s) (current (sk s)) = FSleepOn (m_wait_addr p) tmp # FSemWait p # fr"
    and "m_wait_addr p \<noteq> 0" "sem_wait_back p tmp s = Some s'"
  shows "sem_inv p s'"
    "unat (m_value (sems s' p)) + (if m_value (sems s p) = 0 then 0 else 1) = unat (m_value (sems s p))"
proof -
  let ?k = "sleep_on_leave tmp (pop_frame (sk s))"
  let ?s = "s\<lparr>sk := pop_frame ?k\<rparr>"
  have wf: "kern_wf (sk s)" "frames_ok (sk s)" using assms(1) by (simp_all add: sem_inv_def)
  have fr: "kframes ?k (current ?k) = FSemWait p # fr" "wait_ptr ?k = wait_ptr (sk s)" "current ?k = current (sk s)"
    using assms(2) by (simp_all add: sleep_on_leave_def)
  have ok: "frames_ok ?k" "frames_ok (pop_frame ?k)" using wf(2) by (simp_all add: frames_ok_pop)
  have fs: "\<forall>f \<in> set fr. \<not> is_FSleepOn f" using assms(2) wf(2) unfolding frames_ok_def
    by (metis list.sel(3) list.set_intros(2))
  have "kern_wf (pop_frame ?k)"
    by (rule kern_wf_other [OF kern_wf_leave [OF wf(1) assms(2)]]) (use fr in auto)
  then have inv: "sem_inv p ?s" using ok assms(1) fr(2) by (simp add: sem_inv_def)
  have n: "\<And>q. \<not> asleep_on (sk ?s) q (current (sk ?s))"
    using asleep_iff [of "sk ?s" "current (sk ?s)"] fs fr by simp
  have w: "sys_sem_wait p ?s = Some s'" using assms(4) by (simp add: sem_wait_back_def)
  from sem_inv_wait [OF inv n assms(3) w] show "sem_inv p s'"
    "unat (m_value (sems s' p)) + (if m_value (sems s p) = 0 then 0 else 1) = unat (m_value (sems s p))" by simp_all
qed

lemma sem_run_inv:
  assumes "sem_run p s0 n m s" "sem_inv p s0" "m_wait_addr p \<noteq> 0"
    and "unat (m_value (sems s0 p)) + n < 4294967296"
  shows "sem_inv p s \<and> unat (m_value (sems s p)) + m = unat (m_value (sems s0 p)) + n"
  using assms(1,4)
proof induction
  case Run_init
  then show ?case using assms(2) by simp
next
  case (Run_wait n m s s')
  have "\<And>q. \<not> asleep_on (sk s) q (current (sk s))" using Run_wait by (simp add: asleep_on_def)
  from sem_inv_wait [OF _ this assms(3) Run_wait.hyps(3)] Run_wait.IH Run_wait.prems
  show ?case by (auto split: if_splits)
next
  case (Run_back n m s tmp fr s')
  from sem_inv_back [OF _ Run_back.hyps(2) assms(3) Run_back.hyps(3)] Run_back.IH Run_back.prems
  show ?case by (auto split: if_splits)
next
  case (Run_post n m s)
  then have "sem_inv p s" "unat (m_value (sems s p)) + m = unat (m_value (sems s0 p)) + n" by simp_all
  moreover have "unat (m_value (sems s p) + 1) = unat (m_value (sems s p)) + 1"
    using calculation(2) Run_post.prems by (subst unat_plus_simple [THEN iffD1]) (simp_all add: word_le_nat_alt unat_word_ariths)
  ultimately show ?case using sem_inv_post [OF _ assms(3), of s] by simp
next
  case (Run_other n m s k')
  then have i: "sem_inv p s" by simp
  then have "kern_wf k'" "frames_ok k'"
    using kern_wf_step [OF Run_other.hyps(2)] frames_ok_step [OF Run_other.hyps(2)] by (simp_all add: sem_inv_def)
  then show ?case using Run_other i by (simp add: sem_inv_def)
qed


section \<open>The list\<close>

definition name_of :: "sem_sys \<Rightarrow> u32 \<Rightarrow> u8 list" where
  "name_of s p = c_str (m_name (sems s p))"

text \<open>\<open>sem_seg s p xs\<close>: the links lead from \<open>p\<close> through \<open>xs\<close>, forwards and backwards.\<close>

fun sem_seg :: "sem_sys \<Rightarrow> u32 \<Rightarrow> u32 list \<Rightarrow> bool" where
  "sem_seg s p [] = True"
| "sem_seg s p (q # qs) = (m_next (sems s p) = q \<and> q \<noteq> 0 \<and> m_prev (sems s q) = p \<and> sem_seg s q qs)"

definition sem_list_wf :: "sem_sys \<Rightarrow> u32 list \<Rightarrow> bool" where
  "sem_list_wf s xs \<longleftrightarrow> sem_seg s (semHead s) xs \<and> m_next (sems s (last (semHead s # xs))) = 0 \<and>
     distinct (semHead s # xs) \<and> (\<forall>p \<in> set (semHead s # xs). 0 \<in> set (m_name (sems s p))) \<and>
     name_of s (semHead s) = semHead_name \<and> distinct (map (name_of s) (semHead s # xs))"

lemma strCmp_c_str:
  assumes "0 \<in> set a" "0 \<in> set b"
  obtains d where "strCmp a b = Some d" "d = 0 \<longleftrightarrow> c_str a = c_str b"
proof -
  have "\<exists>d. strCmp a b = Some d \<and> (d = 0 \<longleftrightarrow> c_str a = c_str b)"
    using assms by (induction a b rule: strCmp.induct) (auto simp: c_str_def word_uint_eq_iff)
  then show thesis using that by blast
qed

lemma sem_seg_append: "sem_seg s p (xs @ ys) = (sem_seg s p xs \<and> sem_seg s (last (p # xs)) ys)"
  by (induction xs arbitrary: p) auto

lemma sem_seg_cong:
  assumes "\<And>r. r \<in> set (butlast (p # xs)) \<Longrightarrow> m_next (sems s' r) = m_next (sems s r)"
    and "\<And>r. r \<in> set xs \<Longrightarrow> m_prev (sems s' r) = m_prev (sems s r)"
  shows "sem_seg s' p xs = sem_seg s p xs"
  using assms by (induction xs arbitrary: p) auto

lemma find_sem_from_spec:
  assumes "sem_seg s p xs" "m_next (sems s (last (p # xs))) = 0" "0 \<in> set nm"
    and "\<And>q. q \<in> set (p # xs) \<Longrightarrow> 0 \<in> set (m_name (sems s q))"
  shows "find_sem_from p nm s =
    Some (case List.find (\<lambda>q. name_of s q = c_str nm) (p # xs) of Some q \<Rightarrow> q | None \<Rightarrow> last (p # xs))"
  using assms
proof (induction xs arbitrary: p)
  case Nil
  then show ?case by (subst find_sem_from.simps) simp
next
  case (Cons q xs)
  obtain d where d: "strCmp (m_name (sems s p)) nm = Some d" "d = 0 \<longleftrightarrow> c_str (m_name (sems s p)) = c_str nm"
    using strCmp_c_str [OF _ Cons.prems(3)] Cons.prems(4) by (metis list.set_intros(1))
  have n: "m_next (sems s p) = q" "q \<noteq> 0" using Cons.prems(1) by simp_all
  show ?case
  proof (cases "d = 0")
    case True
    with d n show ?thesis by (subst find_sem_from.simps) (simp add: name_of_def)
  next
    case False
    have "find_sem_from q nm s =
      Some (case List.find (\<lambda>q. name_of s q = c_str nm) (q # xs) of Some q \<Rightarrow> q | None \<Rightarrow> last (q # xs))"
      using Cons.prems by (intro Cons.IH) auto
    with False d n show ?thesis
      by (subst find_sem_from.simps) (simp add: name_of_def split: option.splits)
  qed
qed

text \<open>Reading the name, and the search, for a name of at most 128 characters.\<close>

lemma sem_name:
  assumes "cstr_at um a nm" "length nm \<le> 128"
  shows "read_name um a (MAXSEMNAME + 1) 0 0 (replicate (MAXSEMNAME + 1) 0) =
      (length nm, 0, nm @ replicate (129 - length nm) 0)"
    "0 \<in> set (nm @ replicate (129 - length nm) (0 :: u8))" "c_str (nm @ replicate (129 - length nm) 0) = nm"
    "c_strlen (nm @ replicate (129 - length nm) 0) = Some (length nm)"
  using read_name_cstr [OF assms(1), of "MAXSEMNAME + 1" 0] assms cstr_at_no_nul [OF assms(1)]
  by (simp_all add: MAXSEMNAME_def c_str_pad c_strlen_pad)

lemma semHead_cmp:
  assumes "cstr_at um a nm" "length nm \<le> 128"
  shows "strCmp (semHead_name @ [0]) (nm @ replicate (129 - length nm) 0) = Some 0 \<longleftrightarrow> nm = semHead_name"
proof -
  obtain d where "strCmp (semHead_name @ [0]) (nm @ replicate (129 - length nm) 0) = Some d"
    "d = 0 \<longleftrightarrow> c_str (semHead_name @ [0]) = c_str (nm @ replicate (129 - length nm) 0)"
    by (rule strCmp_c_str [of "semHead_name @ [0]", OF _ sem_name(2) [OF assms]]) simp_all
  then show ?thesis using sem_name(3) [OF assms] by (auto simp: c_str_def semHead_name_def)
qed

lemma find_sem_spec:
  assumes wf: "sem_list_wf s xs" and nm: "cstr_at um a nm" "length nm \<le> 128" "nm \<noteq> semHead_name"
  shows "\<And>q. q \<in> set xs \<Longrightarrow> name_of s q = nm \<Longrightarrow> find_sem (nm @ replicate (129 - length nm) 0) s = Some q"
    "nm \<notin> name_of s ` set xs \<Longrightarrow> find_sem (nm @ replicate (129 - length nm) 0) s = Some (last (semHead s # xs))"
proof -
  let ?nm = "nm @ replicate (129 - length nm) 0"
  have f: "find_sem ?nm s = Some (case List.find (\<lambda>q. name_of s q = nm) (semHead s # xs) of Some q \<Rightarrow> q
      | None \<Rightarrow> last (semHead s # xs))"
    unfolding find_sem_def
    by (subst (3) sem_name(3) [OF nm(1,2), symmetric], rule find_sem_from_spec)
      (use wf sem_name(2) [OF nm(1,2)] in \<open>auto simp: sem_list_wf_def\<close>)
  show "find_sem ?nm s = Some q" if "q \<in> set xs" "name_of s q = nm" for q
  proof -
    have "List.find (\<lambda>q. name_of s q = nm) (semHead s # xs) = Some q"
    proof (cases "List.find (\<lambda>q. name_of s q = nm) (semHead s # xs)")
      case None
      with that show ?thesis by (simp add: find_None_iff split: if_splits)
    next
      case (Some r)
      then obtain i where "i < length (semHead s # xs)" "(semHead s # xs) ! i = r" "name_of s r = nm"
        unfolding find_Some_iff by blast
      then have "r \<in> set (semHead s # xs)" "name_of s r = nm" by (metis nth_mem)+
      have "distinct (map (name_of s) (semHead s # xs))" using wf unfolding sem_list_wf_def by blast
      then have "inj_on (name_of s) (set (semHead s # xs))" unfolding distinct_map ..
      moreover have "name_of s r = name_of s q" using that \<open>name_of s r = nm\<close> by simp
      ultimately have "r = q" using that \<open>r \<in> set (semHead s # xs)\<close> by (meson inj_onD list.set_intros(2))
      with Some show ?thesis by simp
    qed
    with f show ?thesis by simp
  qed
  show "find_sem ?nm s = Some (last (semHead s # xs))" if "nm \<notin> name_of s ` set xs"
  proof -
    have "List.find (\<lambda>q. name_of s q = nm) (semHead s # xs) = None"
      using that wf nm(3) by (auto simp: find_None_iff sem_list_wf_def)
    with f show ?thesis by simp
  qed
qed


text \<open>The two changes to the list.\<close>

lemma sem_list_insert:
  assumes wf: "sem_list_wf s xs" and c: "chunk \<noteq> 0" "chunk \<notin> set (semHead s # xs)"
    and nm: "0 \<in> set nm" "c_str nm \<notin> name_of s ` set (semHead s # xs)"
    and s': "sems s' = (sems s)(chunk := (sems s chunk)\<lparr>m_name := nm, m_value := v, m_prev := last (semHead s # xs), m_next := 0\<rparr>,
        last (semHead s # xs) := (sems s (last (semHead s # xs)))\<lparr>m_next := chunk\<rparr>)" "semHead s' = semHead s"
  shows "sem_list_wf s' (xs @ [chunk])" "name_of s' chunk = c_str nm" "m_value (sems s' chunk) = v"
    "\<And>q. q \<noteq> chunk \<Longrightarrow> name_of s' q = name_of s q \<and> m_value (sems s' q) = m_value (sems s q)"
proof -
  let ?h = "semHead s"
  define l where "l = last (semHead s # xs)"
  note s'l = s'(1) [folded l_def]
  have l: "l \<in> set (?h # xs)" unfolding l_def by (rule last_in_set) simp
  with c have cl: "chunk \<noteq> l" by metis
  have ch: "sems s' chunk = (sems s chunk)\<lparr>m_name := nm, m_value := v, m_prev := l, m_next := 0\<rparr>"
    using cl by (simp add: s'l)
  have ll: "sems s' l = (sems s l)\<lparr>m_next := chunk\<rparr>" by (simp add: s'l)
  have ot: "sems s' r = sems s r" if "r \<noteq> chunk" "r \<noteq> l" for r using that by (simp add: s'l)
  have d: "distinct (?h # xs)" using wf by (simp add: sem_list_wf_def)
  have nl: "r \<noteq> l" if "r \<in> set (butlast (?h # xs))" for r
  proof
    assume "r = l"
    moreover have "distinct (butlast (?h # xs) @ [l])" using d unfolding l_def by (metis append_butlast_last_id list.distinct(1))
    ultimately show False using that by simp
  qed
  have seg: "sem_seg s' ?h xs = sem_seg s ?h xs"
  proof (rule sem_seg_cong)
    fix r assume r: "r \<in> set (butlast (?h # xs))"
    then have "r \<noteq> chunk" using c(2) by (metis in_set_butlastD)
    with ot nl [OF r] show "m_next (sems s' r) = m_next (sems s r)" by metis
  next
    fix r assume "r \<in> set xs"
    then have "r \<noteq> chunk" using c(2) by auto
    then show "m_prev (sems s' r) = m_prev (sems s r)" by (cases "r = l") (simp_all add: ll ot)
  qed
  show nc: "name_of s' chunk = c_str nm" "m_value (sems s' chunk) = v" by (simp_all add: name_of_def ch)
  show o: "name_of s' q = name_of s q \<and> m_value (sems s' q) = m_value (sems s q)" if "q \<noteq> chunk" for q
    using that by (cases "q = l") (simp_all add: name_of_def ll ot)
  have z: "m_name (sems s' q) = m_name (sems s q)" if "q \<noteq> chunk" for q
    using that by (cases "q = l") (simp_all add: ll ot)
  have m: "map (name_of s') (?h # xs) = map (name_of s) (?h # xs)"
    using c(2) o by (intro map_cong refl) metis
  show "sem_list_wf s' (xs @ [chunk])"
    unfolding sem_list_wf_def s'(2)
  proof (intro conjI)
    show "sem_seg s' ?h (xs @ [chunk])"
      using wf c(1) by (simp add: sem_seg_append seg l_def [symmetric] ll ch sem_list_wf_def del: last.simps)
    show "m_next (sems s' (last (?h # xs @ [chunk]))) = 0" by (simp add: ch)
    show "distinct (?h # xs @ [chunk])" using d c(2) by auto
    show "\<forall>p \<in> set (?h # xs @ [chunk]). 0 \<in> set (m_name (sems s' p))"
    proof
      fix p assume "p \<in> set (?h # xs @ [chunk])"
      then show "0 \<in> set (m_name (sems s' p))"
        using wf nm(1) z [of p] by (cases "p = chunk") (auto simp: ch sem_list_wf_def)
    qed
    show "name_of s' ?h = semHead_name" using o [of ?h] c(2) wf by (auto simp: sem_list_wf_def)
    have "distinct (map (name_of s') (?h # xs) @ [name_of s' chunk])"
      using wf nm(2) unfolding m nc distinct_append by (auto simp: sem_list_wf_def)
    then show "distinct (map (name_of s') (?h # xs @ [chunk]))" by auto
  qed
qed


lemma sem_list_delete:
  assumes wf: "sem_list_wf s (xs @ q # ys)"
    and s': "sems s' = (let m = (sems s)(last (semHead s # xs) := (sems s (last (semHead s # xs)))\<lparr>m_next := m_next (sems s q)\<rparr>);
         nxt = m_next (m q)
       in if nxt \<noteq> 0 then m(nxt := (m nxt)\<lparr>m_prev := m_prev (m q)\<rparr>) else m)" "semHead s' = semHead s"
  shows "sem_list_wf s' (xs @ ys)"
    "\<And>r. name_of s' r = name_of s r \<and> m_value (sems s' r) = m_value (sems s r)"
proof -
  let ?h = "semHead s"
  define l where "l = last (semHead s # xs)"
  have l: "l \<in> set (?h # xs)" unfolding l_def by (rule last_in_set) simp
  have d: "distinct (?h # xs @ q # ys)" using wf by (simp add: sem_list_wf_def)
  have lq: "l \<noteq> q" using l d by auto
  have seg: "sem_seg s ?h xs" "m_next (sems s l) = q" "q \<noteq> 0" "m_prev (sems s q) = l" "sem_seg s q ys"
    using wf by (simp_all add: sem_list_wf_def sem_seg_append l_def del: last.simps)
  have "last (?h # xs @ q # ys) = last (q # ys)" by simp
  moreover have "m_next (sems s (last (?h # xs @ q # ys))) = 0" using wf unfolding sem_list_wf_def by blast
  ultimately have end0: "m_next (sems s (last (q # ys))) = 0" by simp
  define n where "n = m_next (sems s q)"
  have e: "sems s' = (let m = (sems s)(l := (sems s l)\<lparr>m_next := n\<rparr>)
      in if n \<noteq> 0 then m(n := (m n)\<lparr>m_prev := l\<rparr>) else m)"
    using s'(1) lq seg(4) by (simp add: l_def [symmetric] n_def Let_def del: last.simps)
  have nx: "m_next (sems s' r) = (if r = l then n else m_next (sems s r))" for r by (simp add: e Let_def)
  have pv: "m_prev (sems s' r) = (if n \<noteq> 0 \<and> r = n then l else m_prev (sems s r))" for r by (simp add: e Let_def)
  show o: "name_of s' r = name_of s r \<and> m_value (sems s' r) = m_value (sems s r)" for r by (simp add: e Let_def name_of_def)
  have mn: "m_name (sems s' r) = m_name (sems s r)" for r by (simp add: e Let_def)
  have nl: "r \<noteq> l" if "r \<in> set (butlast (?h # xs))" for r
  proof
    assume "r = l"
    moreover have "distinct (butlast (?h # xs) @ [l])"
      using d unfolding l_def by (metis append_Cons append_butlast_last_id distinct_append list.distinct(1))
    ultimately show False using that by simp
  qed
  have nys: "n \<noteq> 0 \<Longrightarrow> n = hd ys \<and> ys \<noteq> []" "ys = [] \<Longrightarrow> n = 0"
    using seg(5) end0 by (cases ys; simp add: n_def)+
  have "sem_seg s' ?h xs = sem_seg s ?h xs"
  proof (rule sem_seg_cong)
    fix r assume "r \<in> set (butlast (?h # xs))"
    then show "m_next (sems s' r) = m_next (sems s r)" by (simp add: nx nl)
  next
    fix r assume "r \<in> set xs"
    moreover have "n \<in> set ys" if "n \<noteq> 0" using nys(1) [OF that] by auto
    ultimately have "n \<noteq> 0 \<longrightarrow> r \<noteq> n" using d by auto
    then show "m_prev (sems s' r) = m_prev (sems s r)" by (auto simp: pv)
  qed
  moreover have "sem_seg s' l ys"
  proof (cases ys)
    case (Cons y zs)
    then have n: "n = y" "n \<noteq> 0" "sem_seg s y zs" using seg(5) by (auto simp: n_def)
    have "sem_seg s' y zs = sem_seg s y zs"
      by (rule sem_seg_cong) (use d l Cons n in \<open>auto simp: nx pv dest: in_set_butlastD split: if_splits\<close>)
    then show ?thesis using Cons n by (simp add: nx pv)
  qed simp
  ultimately have "sem_seg s' ?h (xs @ ys)" using seg(1) by (simp add: sem_seg_append l_def)
  moreover have "m_next (sems s' (last (?h # xs @ ys))) = 0"
  proof (cases "ys = []")
    case True
    then have "last (?h # xs @ ys) = l" by (simp add: l_def)
    then show ?thesis using nys(2) True by (simp add: nx)
  next
    case False
    then have "last (?h # xs @ ys) = last ys" "last (q # ys) = last ys" by simp_all
    moreover have "last ys \<noteq> l" using last_in_set [OF False] d l by auto
    ultimately show ?thesis using end0 by (simp add: nx)
  qed
  moreover have m: "map (name_of s') zs = map (name_of s) zs" for zs using o by simp
  ultimately show "sem_list_wf s' (xs @ ys)"
    using wf unfolding sem_list_wf_def s'(2) mn m by (auto simp: o)
qed


lemma sem_open_unfold:
  assumes "cstr_at um a nm" "length nm \<le> 128"
  shows "sys_sem_open um a v chunk s =
     (if nm = semHead_name then Some (Inl EINVAL, s)
      else Option.bind (find_sem (nm @ replicate (129 - length nm) 0) s) (\<lambda>p.
        Option.bind (strCmp (m_name (sems s p)) (nm @ replicate (129 - length nm) 0)) (\<lambda>d.
        if d = 0 then Some (Inr p, s) else if chunk = 0 then Some (Inl ENOSPC, s)
        else let s = s\<lparr>sems := (sems s)(chunk := (sems s chunk)
                       \<lparr>m_name := c_strncpy (m_name (sems s chunk)) (nm @ replicate (129 - length nm) 0) (length nm),
                        m_value := v, m_prev := p, m_next := 0\<rparr>)\<rparr>;
                 s = s\<lparr>sk := (sk s)\<lparr>wait_ptr := (wait_ptr (sk s))(m_wait_addr chunk := 0)\<rparr>\<rparr>;
                 s = s\<lparr>sems := (sems s)(p := (sems s p)\<lparr>m_next := chunk\<rparr>)\<rparr>
             in Some (Inr chunk, s))))"
  unfolding sys_sem_open_def sem_name(1) [OF assms] semHead_cmp [OF assms] sem_name(4) [OF assms]
    Option.bind.simps Let_def prod.case by simp

lemma sem_name_cmp:
  assumes "sem_list_wf s xs" "cstr_at um a nm" "length nm \<le> 128" "p \<in> set (semHead s # xs)"
  obtains d where "strCmp (m_name (sems s p)) (nm @ replicate (129 - length nm) 0) = Some d" "d = 0 \<longleftrightarrow> name_of s p = nm"
proof -
  have "0 \<in> set (m_name (sems s p))" using assms(1,4) by (auto simp: sem_list_wf_def)
  then show thesis
    using strCmp_c_str [OF _ sem_name(2) [OF assms(2,3)]] sem_name(3) [OF assms(2,3)] that
    by (metis name_of_def)
qed

lemma sem_open_old:
  assumes "sem_list_wf s xs" "cstr_at um a nm" "length nm \<le> 128" "nm \<noteq> semHead_name" "q \<in> set xs" "name_of s q = nm"
  shows "sys_sem_open um a v chunk s = Some (Inr q, s)"
proof -
  obtain d where "strCmp (m_name (sems s q)) (nm @ replicate (129 - length nm) 0) = Some d" "d = 0"
    using sem_name_cmp [OF assms(1-3), of q] assms(5,6) by auto
  then show ?thesis
    using assms(4) find_sem_spec(1) [OF assms(1-4) assms(5,6)] by (simp add: sem_open_unfold [OF assms(2,3)])
qed

text \<open>A new name: what the new structure is called depends on what the chunk held after the copied bytes.\<close>

lemma sem_open_new:
  assumes wf: "sem_list_wf s xs" and nm: "cstr_at um a nm" "length nm \<le> 128" "nm \<noteq> semHead_name"
    "nm \<notin> name_of s ` set xs"
  shows "chunk = 0 \<Longrightarrow> sys_sem_open um a v chunk s = Some (Inl ENOSPC, s)"
    "\<lbrakk>chunk \<noteq> 0; chunk \<notin> set (semHead s # xs); full = nm @ drop (length nm) (m_name (sems s chunk));
      0 \<in> set full; c_str full \<notin> name_of s ` set (semHead s # xs)\<rbrakk> \<Longrightarrow>
     \<exists>s'. sys_sem_open um a v chunk s = Some (Inr chunk, s') \<and> sem_list_wf s' (xs @ [chunk]) \<and> semHead s' = semHead s \<and>
       name_of s' chunk = c_str full \<and> m_value (sems s' chunk) = v \<and> wait_ptr (sk s') (m_wait_addr chunk) = 0 \<and>
       (\<forall>q. q \<noteq> chunk \<longrightarrow> name_of s' q = name_of s q \<and> m_name (sems s' q) = m_name (sems s q) \<and>
          m_value (sems s' q) = m_value (sems s q) \<and>
          wait_ptr (sk s') (m_wait_addr q) = wait_ptr (sk s) (m_wait_addr q))"
proof -
  let ?l = "last (semHead s # xs)" and ?nm = "nm @ replicate (129 - length nm) 0"
  have f: "find_sem ?nm s = Some ?l" using find_sem_spec(2) [OF wf nm(1-3)] nm(4) by blast
  have ln: "?l \<in> set (semHead s # xs)" by (rule last_in_set) simp
  then have "name_of s ?l \<noteq> nm" using wf nm(3,4) by (auto simp: sem_list_wf_def simp del: last.simps)
  then obtain d where d: "strCmp (m_name (sems s ?l)) ?nm = Some d" "d \<noteq> 0"
    using sem_name_cmp [OF wf nm(1,2) ln] by metis
  note o = sem_open_unfold [OF nm(1,2), of v chunk s]
  show "sys_sem_open um a v chunk s = Some (Inl ENOSPC, s)" if "chunk = 0"
    unfolding o f using d nm(3) by (simp add: that del: last.simps)
  assume c: "chunk \<noteq> 0" "chunk \<notin> set (semHead s # xs)" "full = nm @ drop (length nm) (m_name (sems s chunk))"
    "0 \<in> set full" "c_str full \<notin> name_of s ` set (semHead s # xs)"
  have cp: "c_strncpy (m_name (sems s chunk)) ?nm (length nm) = full"
    using c_strncpy_pad [OF cstr_at_no_nul [OF nm(1)], of "length nm"] c(3) by simp
  define s' where "s' = s\<lparr>sems := (sems s)(chunk := (sems s chunk)\<lparr>m_name := full, m_value := v, m_prev := ?l, m_next := 0\<rparr>,
      ?l := (sems s ?l)\<lparr>m_next := chunk\<rparr>), sk := (sk s)\<lparr>wait_ptr := (wait_ptr (sk s))(m_wait_addr chunk := 0)\<rparr>\<rparr>"
  have lc: "?l \<noteq> chunk" using ln c(2) by metis
  have e: "sems s' = (sems s)(chunk := (sems s chunk)\<lparr>m_name := full, m_value := v, m_prev := ?l, m_next := 0\<rparr>,
      ?l := (sems s ?l)\<lparr>m_next := chunk\<rparr>)" "semHead s' = semHead s" by (simp_all add: s'_def del: last.simps)
  have "m_name (sems s' q) = m_name (sems s q)" if "q \<noteq> chunk" for q using that by (simp add: e(1) del: last.simps)
  moreover have "sys_sem_open um a v chunk s = Some (Inr chunk, s')"
    unfolding o f cp using c(1) nm(3) d lc by (simp add: Let_def s'_def del: last.simps)
  moreover note ins = sem_list_insert [OF wf c(1,2,4,5) e]
  moreover have "wait_ptr (sk s') (m_wait_addr q) = (if q = chunk then 0 else wait_ptr (sk s) (m_wait_addr q))" for q
    by (simp add: s'_def m_wait_addr_def del: last.simps)
  ultimately show "\<exists>s'. sys_sem_open um a v chunk s = Some (Inr chunk, s') \<and> sem_list_wf s' (xs @ [chunk]) \<and> semHead s' = semHead s \<and>
       name_of s' chunk = c_str full \<and> m_value (sems s' chunk) = v \<and> wait_ptr (sk s') (m_wait_addr chunk) = 0 \<and>
       (\<forall>q. q \<noteq> chunk \<longrightarrow> name_of s' q = name_of s q \<and> m_name (sems s' q) = m_name (sems s q) \<and>
          m_value (sems s' q) = m_value (sems s q) \<and>
          wait_ptr (sk s') (m_wait_addr q) = wait_ptr (sk s) (m_wait_addr q))"
    using e(2) by (intro exI [of _ s']) auto
qed

section \<open>Properties\<close>

text \<open>C33. A semaphore counts: whatever the interleaving of \<open>sem_wait\<close>, \<open>sem_post\<close>, time slices, interrupts
  and sleeping elsewhere in the kernel, the value plus the waits that have returned equals the first
  value plus the posts, so no more waits return than there were units; nobody is queued while the value
  is positive; and when the value is positive and every task that was woken has run on, no task is
  asleep on the semaphore.\<close>

theorem semaphore_counts:
  assumes "sem_run p s0 n m s" "sem_inv p s0" "m_wait_addr p \<noteq> 0"
    and "unat (m_value (sems s0 p)) + n < 4294967296"
  shows "unat (m_value (sems s p)) + m = unat (m_value (sems s0 p)) + n \<and>
    m \<le> unat (m_value (sems s0 p)) + n \<and>
    (m_value (sems s p) \<noteq> 0 \<longrightarrow> wait_ptr (sk s) (m_wait_addr p) = 0) \<and>
    (m_value (sems s p) \<noteq> 0 \<and>
     (\<forall>t. state (ts (sk s) t) = TASK_RUNNING \<longrightarrow> \<not> asleep_on (sk s) (m_wait_addr p) t) \<longrightarrow>
     (\<forall>t. state (ts (sk s) t) = TASK_UNINTERRUPTIBLE \<longrightarrow> \<not> asleep_on (sk s) (m_wait_addr p) t))"
proof -
  have inv: "sem_inv p s" "unat (m_value (sems s p)) + m = unat (m_value (sems s0 p)) + n"
    using sem_run_inv [OF assms] by blast+
  then have w: "m_value (sems s p) \<noteq> 0 \<Longrightarrow> wait_ptr (sk s) (m_wait_addr p) = 0" by (auto simp: sem_inv_def)
  have none: "\<not> kept (sk s) q t" if "wait_ptr (sk s) q = 0"
    "\<forall>t. state (ts (sk s) t) = TASK_RUNNING \<longrightarrow> \<not> asleep_on (sk s) q t" for q t
  proof
    assume "kept (sk s) q t" then show False by induction (use that in auto)
  qed
  show ?thesis using inv w none unfolding sem_inv_def kern_wf_def no_lost_sleeper_def by auto
qed

definition sem_sys1 :: sem_sys where
  "sem_sys1 = \<lparr>sk = kern1, sems = (\<lambda>_. \<lparr>m_name = replicate 129 0, m_value = 0, m_prev = 0, m_next = 0\<rparr>)
     (0x500 := \<lparr>m_name = semHead_name @ replicate 121 0, m_value = 0, m_prev = 0, m_next = 0\<rparr>), semHead = 0x500\<rparr>"

theorem semaphore_counts_witness:
  "\<exists>s. sem_run 0x600 sem_sys1 1 1 s \<and> m_value (sems s 0x600) = 0 \<and> (1 :: nat) \<le> 0 + 1"
proof -
  have inv: "sem_inv 0x600 sem_sys1"
    using kern_wf_kern1 by (simp add: sem_inv_def sem_sys1_def frames_ok_def)
  define s1 where "s1 = sys_sem_post 0x600 sem_sys1"
  have s1: "m_value (sems s1 0x600) = 1" "kframes (sk s1) (current (sk s1)) = []"
    by (simp_all add: s1_def sys_sem_post_def sem_sys1_def wake_up_def)
  define s2 where "s2 = s1\<lparr>sems := (sems s1)(0x600 := (sems s1 0x600)\<lparr>m_value := m_value (sems s1 0x600) - 1\<rparr>)\<rparr>"
  have "sem_run 0x600 sem_sys1 (Suc 0) 0 s1" unfolding s1_def by (rule Run_post [OF Run_init])
  from Run_wait [OF this s1(2), of s2] s1(1) have run: "sem_run 0x600 sem_sys1 (Suc 0) (Suc 0) s2"
    by (simp add: sys_sem_wait_def s2_def)
  have "m_wait_addr 0x600 \<noteq> 0" "unat (m_value (sems sem_sys1 0x600)) + Suc 0 < 4294967296"
    by (simp_all add: m_wait_addr_def sem_sys1_def)
  from semaphore_counts [OF run inv this] run show ?thesis
    by (intro exI [of _ s2]) (simp add: sem_sys1_def unat_eq_zero)
qed

text \<open>\<open>sem_open\<close> on a well-formed list, for a name of at most 128 characters: the reserved name is
  refused; a name in the list gives its semaphore and changes nothing; a new name is \<open>ENOSPC\<close> when
  there is no memory; otherwise the semaphore is appended with the value, an empty queue and, provided
  the chunk happens to hold a NUL where the name ends, the name, and every other one is as it was.\<close>

theorem sem_open_correct:
  assumes "sem_list_wf s xs" "cstr_at um a nm" "length nm \<le> 128"
    and "chunk \<noteq> 0 \<longrightarrow> chunk \<notin> set (semHead s # xs) \<and> length nm < length (m_name (sems s chunk)) \<and>
      m_name (sems s chunk) ! length nm = 0"
  shows "(nm = semHead_name \<longrightarrow> sys_sem_open um a v chunk s = Some (Inl EINVAL, s)) \<and>
    (nm \<noteq> semHead_name \<longrightarrow> (\<forall>q \<in> set xs. name_of s q = nm \<longrightarrow> sys_sem_open um a v chunk s = Some (Inr q, s))) \<and>
    (nm \<noteq> semHead_name \<and> nm \<notin> name_of s ` set xs \<longrightarrow>
      (if chunk = 0 then sys_sem_open um a v chunk s = Some (Inl ENOSPC, s)
       else \<exists>s'. sys_sem_open um a v chunk s = Some (Inr chunk, s') \<and> sem_list_wf s' (xs @ [chunk]) \<and>
         name_of s' chunk = nm \<and> m_value (sems s' chunk) = v \<and> wait_ptr (sk s') (m_wait_addr chunk) = 0 \<and>
         (\<forall>q. q \<noteq> chunk \<longrightarrow> name_of s' q = name_of s q \<and> m_value (sems s' q) = m_value (sems s q) \<and>
            wait_ptr (sk s') (m_wait_addr q) = wait_ptr (sk s) (m_wait_addr q))))"
proof (intro conjI impI ballI)
  show "sys_sem_open um a v chunk s = Some (Inl EINVAL, s)" if "nm = semHead_name"
    using that by (simp add: sem_open_unfold [OF assms(2,3)])
  show "sys_sem_open um a v chunk s = Some (Inr q, s)" if "nm \<noteq> semHead_name" "q \<in> set xs" "name_of s q = nm" for q
    by (rule sem_open_old [OF assms(1-3) that])
  assume new: "nm \<noteq> semHead_name \<and> nm \<notin> name_of s ` set xs"
  note open_new = sem_open_new [OF assms(1-3) conjunct1 [OF new] conjunct2 [OF new]]
  show "if chunk = 0 then sys_sem_open um a v chunk s = Some (Inl ENOSPC, s)
       else \<exists>s'. sys_sem_open um a v chunk s = Some (Inr chunk, s') \<and> sem_list_wf s' (xs @ [chunk]) \<and>
         name_of s' chunk = nm \<and> m_value (sems s' chunk) = v \<and> wait_ptr (sk s') (m_wait_addr chunk) = 0 \<and>
         (\<forall>q. q \<noteq> chunk \<longrightarrow> name_of s' q = name_of s q \<and> m_value (sems s' q) = m_value (sems s q) \<and>
            wait_ptr (sk s') (m_wait_addr q) = wait_ptr (sk s) (m_wait_addr q))"
  proof (cases "chunk = 0")
    case True
    with open_new(1) show ?thesis by simp
  next
    case False
    let ?c = "nm @ drop (length nm) (m_name (sems s chunk))"
    have "?c = nm @ 0 # drop (Suc (length nm)) (m_name (sems s chunk))"
      using False assms(4) by (metis Cons_nth_drop_Suc)
    then have "0 \<in> set ?c" "c_str ?c = nm" using cstr_at_no_nul [OF assms(2)] by (simp_all add: c_str_stop)
    moreover have "chunk \<notin> set (semHead s # xs)" "nm \<notin> name_of s ` set (semHead s # xs)"
      using False new assms(1,4) by (auto simp: sem_list_wf_def)
    ultimately show ?thesis
      unfolding if_not_P [OF False] using open_new(2) [OF False _ refl, of v] by metis
  qed
qed

text \<open>User memory with a name at address 0.\<close>

definition user_name :: "u8 list \<Rightarrow> u32 \<Rightarrow> u8" where
  "user_name nm = (\<lambda>a. if unat a < length nm then nm ! unat a else 0)"

lemma cstr_user_name: "0 \<notin> set nm \<Longrightarrow> length nm < 4294967296 \<Longrightarrow> cstr_at (user_name nm) 0 nm"
  by (auto simp: cstr_at_def user_name_def unat_of_nat in_set_conv_nth)

lemma sem_list_wf_sys1: "sem_list_wf sem_sys1 []"
  by (simp add: sem_list_wf_def sem_sys1_def name_of_def semHead_name_def c_str_def)

text \<open>"full".\<close>

theorem sem_open_correct_witness:
  "\<exists>s'. sys_sem_open (user_name [0x66, 0x75, 0x6c, 0x6c]) 0 3 0x600 sem_sys1 = Some (Inr 0x600, s') \<and>
     sem_list_wf s' [0x600] \<and> m_value (sems s' 0x600) = 3"
proof -
  have n: "cstr_at (user_name [0x66, 0x75, 0x6c, 0x6c]) 0 [0x66, 0x75, 0x6c, 0x6c]"
    by (rule cstr_user_name) simp_all
  have c: "0x600 \<noteq> (0 :: u32) \<longrightarrow> 0x600 \<notin> set (semHead sem_sys1 # []) \<and>
      length [0x66, 0x75, 0x6c, 0x6c :: u8] < length (m_name (sems sem_sys1 0x600)) \<and>
      m_name (sems sem_sys1 0x600) ! length [0x66, 0x75, 0x6c, 0x6c :: u8] = 0"
    by (simp add: sem_sys1_def)
  have "\<exists>s'. sys_sem_open (user_name [0x66, 0x75, 0x6c, 0x6c]) 0 3 0x600 sem_sys1 = Some (Inr 0x600, s') \<and>
     sem_list_wf s' ([] @ [0x600]) \<and> m_value (sems s' 0x600) = 3"
    using sem_open_correct [OF sem_list_wf_sys1 n _ c, of 3] by (simp add: semHead_name_def) blast
  then show ?thesis by simp
qed

text \<open>\<open>sem_unlink\<close> on a well-formed list: the reserved name and a name that is not in the list are
  refused and nothing changes; otherwise exactly the semaphore of that name leaves the list, in both
  directions, and every other one stays as it was.\<close>

theorem sem_unlink_correct:
  assumes "sem_list_wf s xs" "cstr_at um a nm" "length nm \<le> 128"
  shows "(nm = semHead_name \<or> nm \<notin> name_of s ` set xs \<longrightarrow> sys_sem_unlink um a s = Some (Inl EINVAL, s)) \<and>
    (\<forall>ys q zs. nm \<noteq> semHead_name \<and> xs = ys @ q # zs \<and> name_of s q = nm \<longrightarrow>
      (\<exists>s'. sys_sem_unlink um a s = Some (Inr 0, s') \<and> sem_list_wf s' (ys @ zs) \<and> sk s' = sk s \<and>
        (\<forall>r. name_of s' r = name_of s r \<and> m_value (sems s' r) = m_value (sems s r))))"
proof (intro conjI impI allI)
  note n = sem_name [OF assms(2,3)] and h = semHead_cmp [OF assms(2,3)]
  let ?nm = "nm @ replicate (129 - length nm) 0"
  have o: "sys_sem_unlink um a s =
     (if nm = semHead_name then Some (Inl EINVAL, s)
      else Option.bind (find_sem ?nm s) (\<lambda>p. Option.bind (strCmp (m_name (sems s p)) ?nm) (\<lambda>d.
        if d \<noteq> 0 then Some (Inl EINVAL, s)
        else let prev = m_prev (sems s p); nxt = m_next (sems s p);
                    s = s\<lparr>sems := (sems s)(prev := (sems s prev)\<lparr>m_next := nxt\<rparr>)\<rparr>;
                    nxt = m_next (sems s p)
                in Some (Inr 0,
                     if nxt \<noteq> 0
                     then s\<lparr>sems := (sems s)(nxt := (sems s nxt)\<lparr>m_prev := m_prev (sems s p)\<rparr>)\<rparr>
                     else s))))"
    unfolding sys_sem_unlink_def n(1) h Let_def prod.case by simp
  {
    assume *: "nm = semHead_name \<or> nm \<notin> name_of s ` set xs"
    show "sys_sem_unlink um a s = Some (Inl EINVAL, s)"
    proof (cases "nm = semHead_name")
      case False
      let ?l = "last (semHead s # xs)"
      have f: "find_sem ?nm s = Some ?l" using find_sem_spec(2) [OF assms] False * by blast
      have "?l \<in> set (semHead s # xs)" by (rule last_in_set) simp
      then have "0 \<in> set (m_name (sems s ?l))" "name_of s ?l \<noteq> nm"
        using assms(1) False * by (auto simp: sem_list_wf_def simp del: last.simps)
      then obtain d where "strCmp (m_name (sems s ?l)) ?nm = Some d" "d \<noteq> 0"
        using strCmp_c_str [OF _ n(2), of "m_name (sems s ?l)"] n(3) by (auto simp: name_of_def)
      then show ?thesis unfolding o f by (simp add: False del: last.simps)
    qed (simp add: o)
  next
    fix ys q zs assume *: "nm \<noteq> semHead_name \<and> xs = ys @ q # zs \<and> name_of s q = nm"
    then have q: "q \<in> set xs" by simp
    have f: "find_sem ?nm s = Some q" using find_sem_spec(1) [OF assms] * q by blast
    have "0 \<in> set (m_name (sems s q))" using assms(1) q by (simp add: sem_list_wf_def)
    then obtain d where d: "strCmp (m_name (sems s q)) ?nm = Some d" "d = 0"
      using strCmp_c_str [OF _ n(2), of "m_name (sems s q)"] n(3) * by (auto simp: name_of_def)
    have wf: "sem_list_wf s (ys @ q # zs)" using assms(1) * by simp
    have pv: "m_prev (sems s q) = last (semHead s # ys)"
      using wf by (simp add: sem_list_wf_def sem_seg_append del: last.simps)
    define s' where "s' = snd (the (sys_sem_unlink um a s))"
    have r: "sys_sem_unlink um a s = Some (Inr 0, s')" "sk s' = sk s" "semHead s' = semHead s"
      unfolding s'_def o f using * d by (simp_all add: Let_def)
    have e: "sems s' = (let m = (sems s)(last (semHead s # ys) := (sems s (last (semHead s # ys)))\<lparr>m_next := m_next (sems s q)\<rparr>);
         nxt = m_next (m q)
       in if nxt \<noteq> 0 then m(nxt := (m nxt)\<lparr>m_prev := m_prev (m q)\<rparr>) else m)"
      unfolding s'_def o f using * d by (simp add: Let_def pv del: last.simps)
    note del = sem_list_delete [OF wf e r(3)]
    show "\<exists>s'. sys_sem_unlink um a s = Some (Inr 0, s') \<and> sem_list_wf s' (ys @ zs) \<and> sk s' = sk s \<and>
        (\<forall>r. name_of s' r = name_of s r \<and> m_value (sems s' r) = m_value (sems s r))"
      using r del by blast
  }
qed

theorem sem_unlink_correct_witness:
  "\<exists>s' s''. sys_sem_open (user_name [0x66, 0x75, 0x6c, 0x6c]) 0 3 0x600 sem_sys1 = Some (Inr 0x600, s') \<and>
     sys_sem_unlink (user_name [0x66, 0x75, 0x6c, 0x6c]) 0 s' = Some (Inr 0, s'') \<and> sem_list_wf s'' []"
proof -
  let ?nm = "[0x66, 0x75, 0x6c, 0x6c] :: u8 list"
  have n: "cstr_at (user_name ?nm) 0 ?nm" by (rule cstr_user_name) simp_all
  let ?s = "sem_sys1\<lparr>sems := (sems sem_sys1)(0x600 := \<lparr>m_name = ?nm @ replicate 125 0, m_value = 3, m_prev = 0x500, m_next = 0\<rparr>,
      0x500 := (sems sem_sys1 0x500)\<lparr>m_next := 0x600\<rparr>),
      sk := (sk sem_sys1)\<lparr>wait_ptr := (wait_ptr (sk sem_sys1))(m_wait_addr 0x600 := 0)\<rparr>\<rparr>"
  have h: "find_sem (?nm @ replicate 125 0) sem_sys1 = Some 0x500"
    using find_sem_spec(2) [OF sem_list_wf_sys1 n] by (simp add: semHead_name_def sem_sys1_def)
  have cs: "c_strncpy (replicate 129 0) (?nm @ replicate 125 0) (Suc (Suc (Suc (Suc 0)))) = ?nm @ replicate 125 0"
    by (simp add: c_strncpy_def c_str_def)
  have o: "sys_sem_open (user_name ?nm) 0 3 0x600 sem_sys1 = Some (Inr 0x600, ?s)"
    using h sem_name [OF n] semHead_cmp [OF n] cs
    by (simp add: sys_sem_open_def semHead_name_def sem_sys1_def MAXSEMNAME_def Let_def)
  define t where "t = ?s"
  have w: "sem_list_wf t [0x600]"
    by (simp add: t_def sem_list_wf_def sem_sys1_def name_of_def semHead_name_def c_str_def)
  have q: "?nm \<noteq> semHead_name \<and> [0x600] = [] @ 0x600 # [] \<and> name_of t 0x600 = ?nm"
    by (simp add: t_def name_of_def c_str_def semHead_name_def)
  obtain s' where "sys_sem_unlink (user_name ?nm) 0 t = Some (Inr 0, s')" "sem_list_wf s' ([] @ [])"
    using sem_unlink_correct [OF w n, THEN conjunct2, rule_format, OF _ q] by auto
  moreover have "sys_sem_open (user_name ?nm) 0 3 0x600 sem_sys1 = Some (Inr 0x600, t)" using o by (simp only: t_def)
  ultimately show ?thesis unfolding append_Nil by blast
qed


text \<open>The name is copied without its NUL (\<open>strncpy\<close> of \<open>strlen\<close> bytes), so a chunk of memory that
  held a longer string makes the new semaphore answer to another name: the process that opens it gets
  it, but the next process that opens the same name does not find it and makes a semaphore of its own.\<close>

theorem sem_open_stale_name:
  assumes "sem_list_wf s xs" "cstr_at um a nm" "length nm \<le> 128" "nm \<noteq> semHead_name" "nm \<notin> name_of s ` set xs"
    and "chunk \<noteq> 0" "chunk \<notin> set (semHead s # xs)" "stale = c_str (drop (length nm) (m_name (sems s chunk)))"
    and "stale \<noteq> []" "0 \<in> set (drop (length nm) (m_name (sems s chunk)))" "nm @ stale \<notin> name_of s ` set (semHead s # xs)"
    and "chunk2 \<noteq> 0" "chunk2 \<notin> set (semHead s # chunk # xs)"
    and "length nm < length (m_name (sems s chunk2))" "m_name (sems s chunk2) ! length nm = 0"
  shows "\<exists>s' s''. sys_sem_open um a v chunk s = Some (Inr chunk, s') \<and> name_of s' chunk = nm @ stale \<and>
    sys_sem_open um a w chunk2 s' = Some (Inr chunk2, s'')"
proof -
  let ?c = "nm @ drop (length nm) (m_name (sems s chunk))"
  have app: "c_str (xs @ ys) = xs @ c_str ys" if "0 \<notin> set xs" for xs ys :: "u8 list"
    using that by (induction xs) (auto simp: c_str_def)
  have c: "0 \<in> set ?c" "c_str ?c = nm @ stale"
    using assms(8,10) app [OF cstr_at_no_nul [OF assms(2)]] by simp_all
  then have "c_str ?c \<notin> name_of s ` set (semHead s # xs)" using assms(11) by simp
  from sem_open_new(2) [OF assms(1-5,6,7) refl c(1) this, of v]
  obtain s' where s': "sys_sem_open um a v chunk s = Some (Inr chunk, s')" "sem_list_wf s' (xs @ [chunk])"
    "semHead s' = semHead s" "name_of s' chunk = nm @ stale"
    "\<forall>q. q \<noteq> chunk \<longrightarrow> name_of s' q = name_of s q \<and> m_name (sems s' q) = m_name (sems s q)"
    unfolding c(2) by blast
  have n: "nm \<notin> name_of s' ` set (xs @ [chunk])"
  proof
    assume "nm \<in> name_of s' ` set (xs @ [chunk])"
    then obtain q where "q \<in> set (xs @ [chunk])" "name_of s' q = nm" by auto
    with s'(4,5) assms(5,9) show False by (cases "q = chunk") auto
  qed
  have "chunk2 \<noteq> chunk" using assms(13) by auto
  with s'(5) have m: "m_name (sems s' chunk2) = m_name (sems s chunk2)" by simp
  have "chunk2 \<notin> set (semHead s' # xs @ [chunk])" using assms(13) s'(3) by auto
  then have "\<exists>s''. sys_sem_open um a w chunk2 s' = Some (Inr chunk2, s'')"
    using sem_open_correct [OF s'(2) assms(2,3), of chunk2 w] assms(4,12,14,15) n m by auto
  with s'(1,4) show ?thesis by blast
qed

theorem sem_open_stale_name_witness:
  "\<exists>s' s''. sys_sem_open (user_name [0x61]) 0 1 0x600
       (sem_sys1\<lparr>sems := (sems sem_sys1)(0x600 := \<lparr>m_name = 0x61 # 0x62 # replicate 127 0, m_value = 0, m_prev = 0, m_next = 0\<rparr>)\<rparr>)
       = Some (Inr 0x600, s') \<and> name_of s' 0x600 = [0x61, 0x62] \<and>
     sys_sem_open (user_name [0x61]) 0 1 0x700 s' = Some (Inr 0x700, s'')"
proof -
  let ?s = "sem_sys1\<lparr>sems := (sems sem_sys1)(0x600 := \<lparr>m_name = 0x61 # 0x62 # replicate 127 0, m_value = 0, m_prev = 0, m_next = 0\<rparr>)\<rparr>"
  have n: "cstr_at (user_name [0x61]) 0 [0x61]" by (rule cstr_user_name) simp_all
  have wf: "sem_list_wf ?s []"
    by (simp add: sem_list_wf_def sem_sys1_def name_of_def semHead_name_def c_str_def)
  have m: "m_name (sems ?s 0x600) = 0x61 # 0x62 # replicate 127 0" "m_name (sems ?s 0x700) = replicate 129 0"
    "semHead ?s = 0x500" "name_of ?s 0x500 = semHead_name" by (simp_all add: sem_sys1_def name_of_def semHead_name_def c_str_def)
  have "\<exists>s' s''. sys_sem_open (user_name [0x61]) 0 1 0x600 ?s = Some (Inr 0x600, s') \<and> name_of s' 0x600 = [0x61] @ [0x62] \<and>
     sys_sem_open (user_name [0x61]) 0 1 0x700 s' = Some (Inr 0x700, s'')"
    by (rule sem_open_stale_name [OF wf n, where stale = "[0x62]"])
       (unfold m, simp_all add: m semHead_name_def c_str_def)
  then show ?thesis by simp
qed

end
