(* ===== verification/Fork.thy ===== *)
theory Fork imports Waitq Paging begin

text \<open>
  \<open>kernel/fork.c\<close> of Lab 3: a new task gets the first free slot, a fresh process number, a copy of the
  parent's \<open>task_struct\<close> on a page of its own, and a copy of the parent's page tables.
\<close>

unbundle bit_operations_syntax

section \<open>verify_area\<close>

function verify_loop :: "int \<Rightarrow> u32 \<Rightarrow> mm \<Rightarrow> mm_stop + mm" where
  "verify_loop sz start s =
     (if sz > 0 then sbind (write_verify start s) (verify_loop (sz - 4096) (start + 4096)) else Inr s)"
  by pat_completeness auto
termination
  by (relation "measure (\<lambda>(sz, start, s). nat sz)") auto

declare verify_loop.simps [simp del]

definition verify_area :: "u32 \<Rightarrow> int \<Rightarrow> kern \<Rightarrow> kstop + kern" where
  "verify_area addr sz k =
     (let sz = s32 (sz + uint (addr AND 0xfff)); start = (addr AND 0xfffff000) + get_base (ldt (cur k) ! 2)
      in lift_mm (verify_loop sz start) k)"

section \<open>find_empty_process\<close>

definition next_pid :: "int \<Rightarrow> int" where
  "next_pid l = (let l = s32 (l + 1) in if l < 0 then 1 else l)"

definition pid_used :: "kern \<Rightarrow> int \<Rightarrow> bool" where
  "pid_used k l \<longleftrightarrow> (\<exists>i \<in> {0..<NR_TASKS}. task k i \<noteq> 0 \<and> pid (ts k (task k i)) = l)"

partial_function (option) find_pid :: "kern \<Rightarrow> int \<Rightarrow> int option" where
  "find_pid k l = (let l = next_pid l in if pid_used k l then find_pid k l else Some l)"

text \<open>The first free slot from \<open>i\<close> on.\<close>

function find_slot :: "nat \<Rightarrow> kern \<Rightarrow> nat option" where
  "find_slot i k = (if i < NR_TASKS then (if task k i = 0 then Some i else find_slot (Suc i) k) else None)"
  by pat_completeness auto
termination
  by (relation "measure (\<lambda>(i, k). NR_TASKS - i)") auto

declare find_slot.simps [simp del]

definition find_empty_process :: "kern \<Rightarrow> ((errno + nat) \<times> kern) option" where
  "find_empty_process k =
     (case find_pid k (last_pid k) of
        None \<Rightarrow> None
      | Some l \<Rightarrow> let k = k\<lparr>last_pid := l\<rparr> in
          Some (case find_slot 1 k of Some i \<Rightarrow> (Inr i, k) | None \<Rightarrow> (Inl EAGAIN, k)))"

section \<open>copy_mem\<close>

definition new_base :: "nat \<Rightarrow> u32" where
  "new_base nr = of_nat nr * 0x4000000"

definition copy_mem :: "nat \<Rightarrow> u32 \<Rightarrow> kern \<Rightarrow> kstop + (errno + int) \<times> kern" where
  "copy_mem nr p k =
     (let code_limit = get_limit (ldt (cur k) ! 1); data_limit = get_limit (ldt (cur k) ! 2);
          old_code_base = get_base (ldt (cur k) ! 1); old_data_base = get_base (ldt (cur k) ! 2) in
      if old_data_base \<noteq> old_code_base then Inl (KPanic ''We do not support separate I&D'')
      else if data_limit < code_limit then Inl (KPanic ''Bad data_limit'')
      else let b = new_base nr;
               k = upd_ts p (\<lambda>t. t\<lparr>start_code := b, ldt := (ldt t)[1 := set_base (ldt t ! 1) b, 2 := set_base (ldt t ! 2) b]\<rparr>) k
      in (case copy_page_tables old_data_base b data_limit (kmm k) of
            Inl (MPanic msg) \<Rightarrow> Inl (KPanic msg)
          | Inl (Oom s) \<Rightarrow> Inl (KOom (k\<lparr>kmm := s\<rparr>))
          | Inr (r, s) \<Rightarrow>
              let k = k\<lparr>kmm := s\<rparr> in
              if r \<noteq> 0 then sbind (lift_mm (free_page_tables b data_limit) k) (\<lambda>k. Inr (Inl ENOMEM, k))
              else Inr (Inr 0, k)))"

section \<open>copy_process\<close>

text \<open>The registers on the kernel stack when \<open>copy_process\<close> is called.\<close>

record stack_regs =
  r_ebp :: u32
  r_edi :: u32
  r_esi :: u32
  r_gs :: u32
  r_ebx :: u32
  r_ecx :: u32
  r_edx :: u32
  r_fs :: u32
  r_es :: u32
  r_ds :: u32
  r_eip :: u32
  r_cs :: u32
  r_eflags :: u32
  r_esp :: u32
  r_ss :: u32

definition child_tss :: "nat \<Rightarrow> u32 \<Rightarrow> stack_regs \<Rightarrow> tss_struct \<Rightarrow> tss_struct" where
  "child_tss nr p r t = t\<lparr>back_link := 0, esp0 := 4096 + p, ss0 := 0x10, eip := r_eip r, eflags := r_eflags r,
     eax := 0, ecx := r_ecx r, edx := r_edx r, ebx := r_ebx r, esp := r_esp r, ebp := r_ebp r,
     esi := r_esi r, edi := r_edi r, es_sel := r_es r AND 0xffff, cs_sel := r_cs r AND 0xffff, ss_sel := r_ss r AND 0xffff,
     ds_sel := r_ds r AND 0xffff, fs_sel := r_fs r AND 0xffff, gs_sel := r_gs r AND 0xffff,
     ldt_sel := LDT_sel nr, trace_bitmap := 0x80000000\<rparr>"

definition child_task :: "nat \<Rightarrow> u32 \<Rightarrow> stack_regs \<Rightarrow> kern \<Rightarrow> task_struct" where
  "child_task nr p r k =
     (let c = cur k in c\<lparr>state := TASK_UNINTERRUPTIBLE, pid := last_pid k, father := pid c, counter := priority c,
        signal := 0, alarm := 0, leader := 0, utime := 0, stime := 0, cutime := 0, cstime := 0,
        start_time := jiffies k, tss := child_tss nr p r (tss c)\<rparr>)"

fun count_files :: "u32 list \<Rightarrow> kern \<Rightarrow> kern" where
  "count_files [] k = k"
| "count_files (f # fs) k =
     count_files fs (if f \<noteq> 0 then k\<lparr>f_count := (f_count k)(f := f_count k f + 1)\<rparr> else k)"

definition count_inode :: "u32 \<Rightarrow> kern \<Rightarrow> kern" where
  "count_inode i k = (if i \<noteq> 0 then k\<lparr>i_count := (i_count k)(i := i_count k i + 1)\<rparr> else k)"

definition copy_process ::
  "(u32 \<Rightarrow> desc_struct) \<Rightarrow> (u32 \<Rightarrow> desc_struct) \<Rightarrow> nat \<Rightarrow> stack_regs \<Rightarrow> kern \<Rightarrow> kstop + (errno + int) \<times> kern" where
  "copy_process tss_desc ldt_desc nr r k =
     (let (p, s) = get_free_page (kmm k); k = k\<lparr>kmm := s\<rparr> in
      if p = 0 then Inr (Inl EAGAIN, k)
      else let c = child_task nr p r k;
               k = k\<lparr>task := (task k)(nr := p), ts := (ts k)(p := c)\<rparr>;
               k = (if last_task_used_math k = current k
                    then upd_ts p (\<lambda>t. t\<lparr>tss := (tss t)\<lparr>i387 := fpu k\<rparr>\<rparr>) (k\<lparr>ts_flag := False\<rparr>) else k)
      in sbind (copy_mem nr p k) (\<lambda>(e, k).
           case e of
             Inl _ \<Rightarrow> let k = k\<lparr>task := (task k)(nr := 0)\<rparr> in
               sbind (lift_mm (free_page p) k) (\<lambda>k. Inr (Inl EAGAIN, k))
           | Inr _ \<Rightarrow>
               let k = count_files (filp (ts k p)) k;
                   k = count_inode (pwd (cur k)) k;
                   k = count_inode (root (cur k)) k;
                   k = count_inode (executable (cur k)) k;
                   k = k\<lparr>gdt := (gdt k)(2 * nr + FIRST_TSS_ENTRY := tss_desc p, 2 * nr + FIRST_LDT_ENTRY := ldt_desc p)\<rparr>;
                   k = fprintk (pid (ts k p)) CHR ''N'' k;
                   k = upd_ts p (\<lambda>t. t\<lparr>state := TASK_RUNNING\<rparr>) k;
                   k = fprintk (pid (ts k p)) CHR ''J'' k
               in Inr (Inr (last_pid k), k)))"

section \<open>A fresh process number is always found\<close>

lemma next_pid_simp: "0 \<le> l \<Longrightarrow> l \<le> 2147483647 \<Longrightarrow> next_pid l = (if l = 2147483647 then 1 else l + 1)"
  by (auto simp: next_pid_def s32_def)

text \<open>The \<open>n\<close>-th number after \<open>l\<close>, for at most 2147483646 of them: after 2147483647 comes 1.\<close>

definition nth_pid :: "int \<Rightarrow> nat \<Rightarrow> int" where
  "nth_pid l n = (if l + int n \<le> 2147483647 then l + int n else l + int n - 2147483647)"

lemma nth_pid_inj:
  assumes "0 \<le> l" "l \<le> 2147483647" "m < 65" "n < 65" "nth_pid l (Suc m) = nth_pid l (Suc n)"
  shows "m = n"
  using assms by (auto simp: nth_pid_def split: if_splits)

lemma next_nth_pid: "0 \<le> l \<Longrightarrow> l \<le> 2147483647 \<Longrightarrow> n < 65 \<Longrightarrow> next_pid (nth_pid l n) = nth_pid l (Suc n)"
  by (subst next_pid_simp) (auto simp: nth_pid_def)

lemma find_pid_skip:
  assumes "0 \<le> l" "l \<le> 2147483647" "n \<le> 65" "\<And>m. m < n \<Longrightarrow> pid_used k (nth_pid l (Suc m))"
  shows "find_pid k l = find_pid k (nth_pid l n)"
  using assms(3,4)
proof (induction n)
  case 0
  then show ?case using assms by (simp add: nth_pid_def)
next
  case (Suc n)
  then have "find_pid k l = find_pid k (nth_pid l n)" by simp
  also have "\<dots> = find_pid k (nth_pid l (Suc n))"
    using Suc.prems next_nth_pid [OF assms(1,2), of n] by (subst find_pid.simps) (simp add: Let_def)
  finally show ?case .
qed

lemma find_pid_fresh:
  assumes "0 \<le> l" "l \<le> 2147483647"
  obtains n where "n \<le> 64" "find_pid k l = Some (nth_pid l (Suc n))" "0 < nth_pid l (Suc n)" "nth_pid l (Suc n) \<le> 2147483647"
    "\<not> pid_used k (nth_pid l (Suc n))" "\<And>m. m < n \<Longrightarrow> pid_used k (nth_pid l (Suc m))"
proof -
  define used where "used = (\<lambda>i. pid (ts k (task k i))) ` {0..<64}"
  have card: "card used \<le> 64" unfolding used_def using card_image_le [of "{0..<64}"] by fastforce
  have "\<exists>n < 65. \<not> pid_used k (nth_pid l (Suc n))"
  proof (rule ccontr)
    assume "\<not> (\<exists>n < 65. \<not> pid_used k (nth_pid l (Suc n)))"
    then have "nth_pid l (Suc n) \<in> used" if "n < 65" for n
      using that unfolding used_def pid_used_def NR_TASKS_eq by (metis (mono_tags, lifting) image_eqI)
    then have "(\<lambda>n. nth_pid l (Suc n)) ` {0..<65} \<subseteq> used" by auto
    moreover have "finite used" by (simp add: used_def)
    ultimately have "card ((\<lambda>n. nth_pid l (Suc n)) ` {0..<65}) \<le> card used" by (intro card_mono)
    moreover have "inj_on (\<lambda>n. nth_pid l (Suc n)) {0..<65}"
      by (rule inj_onI) (use nth_pid_inj [OF assms] in auto)
    ultimately show False using card by (simp add: card_image)
  qed
  then obtain n where n: "n < 65" "\<not> pid_used k (nth_pid l (Suc n))" "\<And>m. m < n \<Longrightarrow> pid_used k (nth_pid l (Suc m))"
    using exists_least_iff [of "\<lambda>n. n < 65 \<and> \<not> pid_used k (nth_pid l (Suc n))"] by auto
  have "find_pid k l = find_pid k (nth_pid l n)" using n by (intro find_pid_skip assms) auto
  also have "\<dots> = Some (nth_pid l (Suc n))"
    using n next_nth_pid [OF assms n(1)] by (subst find_pid.simps) (simp add: Let_def)
  finally show thesis using n assms
    by (intro that [of n]) (auto simp: nth_pid_def)
qed

lemma find_slot_Some: "find_slot i k = Some j \<Longrightarrow> i \<le> j \<and> j < NR_TASKS \<and> task k j = 0 \<and> (\<forall>m. i \<le> m \<and> m < j \<longrightarrow> task k m \<noteq> 0)"
proof (induction i k rule: find_slot.induct)
  case (1 i k)
  show ?case
  proof (cases "i < NR_TASKS \<and> task k i \<noteq> 0")
    case True
    then have "find_slot (Suc i) k = Some j" using "1.prems" by (simp add: find_slot.simps [of i])
    with True "1.IH" have "Suc i \<le> j \<and> j < NR_TASKS \<and> task k j = 0 \<and> (\<forall>m. Suc i \<le> m \<and> m < j \<longrightarrow> task k m \<noteq> 0)" by blast
    with True show ?thesis by (metis Suc_leD le_antisym not_less_eq_eq)
  next
    case False
    with "1.prems" show ?thesis by (auto simp: find_slot.simps [of i] split: if_splits)
  qed
qed

lemma find_slot_None: "find_slot i k = None \<Longrightarrow> i \<le> m \<Longrightarrow> m < NR_TASKS \<Longrightarrow> task k m \<noteq> 0"
proof (induction i k rule: find_slot.induct)
  case (1 i k)
  then show ?case
    by (cases "i = m") (auto simp: find_slot.simps [of i] find_slot.simps [of m] split: if_splits)
qed

end
