(* ===== verification/Addrspace.thy ===== *)
theory Addrspace imports Paging begin

text \<open>
  \<open>copy_page_tables\<close> and the address spaces: the page tables seen as a two-level table of entries
  (\<open>pde\<close>, \<open>pte\<close>), what the copy loops do to it, and the theorem that \<open>fork\<close> relies on.
\<close>

unbundle bit_operations_syntax

section \<open>Entries by index\<close>

definition dix :: "u32 \<Rightarrow> nat" where "dix l = unat l div 4194304"
definition tix :: "u32 \<Rightarrow> nat" where "tix l = unat l div 4096 mod 1024"

definition dslot :: "nat \<Rightarrow> u32" where "dslot d = of_nat (4 * d)"
definition pslot :: "u32 \<Rightarrow> nat \<Rightarrow> u32" where "pslot f j = f + of_nat (4 * j)"

definition pde :: "mm \<Rightarrow> nat \<Rightarrow> u32" where "pde s d = mem s (dslot d)"
definition pte :: "mm \<Rightarrow> nat \<Rightarrow> nat \<Rightarrow> u32" where "pte s d j = mem s (pslot (page_base (pde s d)) j)"

text \<open>Which page entry \<open>j\<close> of directory entry \<open>d\<close> maps.\<close>

definition page_at :: "mm \<Rightarrow> nat \<Rightarrow> nat \<Rightarrow> u32 option" where
  "page_at s d j =
     (if pde s d AND 1 = 0 \<or> pte s d j AND 1 = 0 then None else Some (page_base (pte s d j)))"

lemma dix_less: "dix l < 1024"
proof -
  have "unat l < 4294967296" using unsigned_less [of l, where 'a = nat] by simp
  then show ?thesis by (simp add: dix_def)
qed

lemma tix_less: "tix l < 1024" by (simp add: tix_def)

lemma unat_4j: "j < 1024 \<Longrightarrow> unat (of_nat (4 * j) :: u32) = 4 * j"
  by (simp add: unat_of_nat del: of_nat_mult)

lemma unat_dslot: "d < 1024 \<Longrightarrow> unat (dslot d) = 4 * d"
  unfolding dslot_def by (rule unat_4j)

lemma pde_addr_dslot: "pde_addr l = dslot (dix l)"
  by (simp add: word_unat_eq_iff unat_pde_addr unat_dslot dix_less) (simp add: dix_def)

lemma pte_slot_tix: "pte_slot l = of_nat (4 * tix l)"
  by (simp only: word_unat_eq_iff unat_pte_slot unat_4j [OF tix_less]) (simp add: tix_def)

lemma dslot_inj: "d < 1024 \<Longrightarrow> e < 1024 \<Longrightarrow> dslot d = dslot e \<longleftrightarrow> d = e"
  by (simp add: word_unat_eq_iff unat_dslot)

lemma page_base_dslot: "d < 1024 \<Longrightarrow> page_base (dslot d) = 0"
  by (simp add: word_unat_eq_iff unat_page_base unat_dslot)

lemma page_base_pslot: "page_base f = f \<Longrightarrow> j < 1024 \<Longrightarrow> page_base (pslot f j) = f"
  unfolding pslot_def by (rule page_base_add, assumption, subst unat_4j, assumption, simp)

lemma unat_pslot: "page_base f = f \<Longrightarrow> j < 1024 \<Longrightarrow> unat (pslot f j) = unat f + 4 * j"
  unfolding pslot_def by (subst unat_aligned_add, assumption, subst unat_4j, assumption, simp, subst unat_4j, assumption, rule refl)

lemma pslot_inj: "page_base f = f \<Longrightarrow> page_base g = g \<Longrightarrow> j < 1024 \<Longrightarrow> i < 1024 \<Longrightarrow>
    pslot f j = pslot g i \<longleftrightarrow> f = g \<and> j = i"
  by (metis page_base_pslot unat_pslot add_left_cancel mult_cancel1 zero_neq_numeral)

lemma pslot_dslot: "page_base f = f \<Longrightarrow> f \<noteq> 0 \<Longrightarrow> j < 1024 \<Longrightarrow> d < 1024 \<Longrightarrow> pslot f j \<noteq> dslot d"
  by (metis page_base_pslot page_base_dslot)

lemma slot_Suc: "dslot d + 4 = dslot (Suc d)" "pslot f j + 4 = pslot f (Suc j)"
  by (simp_all add: dslot_def pslot_def algebra_simps)

lemma pte_addr_pslot: "pte_addr s l = pslot (page_base (pde s (dix l))) (tix l)"
  by (simp add: pte_addr_alt pslot_def pde_def pde_addr_dslot pte_slot_tix)

lemma translate_page_at: "translate s l = map_option (\<lambda>p. p + (l AND 0xfff)) (page_at s (dix l) (tix l))"
  by (simp add: translate_def page_at_def pte_addr_pslot pde_addr_dslot Let_def pde_def [symmetric] pte_def page_base_def)

lemma lin_exists: "d < 1024 \<Longrightarrow> j < 1024 \<Longrightarrow> \<exists>l. dix l = d \<and> tix l = j"
proof -
  assume *: "d < 1024" "j < 1024"
  then have u: "unat (of_nat (4194304 * d + 4096 * j) :: u32) = 4194304 * d + 4096 * j"
    by (simp add: unat_of_nat del: of_nat_mult of_nat_add)
  have "(4194304 * d + 4096 * j) div 4194304 = d" using * by (intro div_nat_eqI) simp_all
  moreover have "(4194304 * d + 4096 * j) div 4096 = 1024 * d + j" by (intro div_nat_eqI) simp_all
  ultimately show ?thesis using * by (intro exI [of _ "of_nat (4194304 * d + 4096 * j)"]) (simp only: dix_def tix_def u, simp)
qed

lemma pt_wf_index:
  "pt_wf s \<longleftrightarrow>
     (\<forall>d < 1024. pde s d AND 1 \<noteq> 0 \<longrightarrow> page_base (pde s d) \<noteq> 0 \<and> \<not> page_free s (page_base (pde s d))) \<and>
     (\<forall>d < 1024. \<forall>e < 1024. pde s d AND 1 \<noteq> 0 \<longrightarrow> pde s e AND 1 \<noteq> 0 \<longrightarrow>
        page_base (pde s d) = page_base (pde s e) \<longrightarrow> d = e)"
  (is "?l = ?r")
proof
  assume l: ?l
  show ?r
  proof (intro conjI allI impI)
    fix d assume d: "d < (1024 :: nat)" "pde s d AND 1 \<noteq> 0"
    obtain l where "dix l = d" using lin_exists [OF d(1), of 0] by auto
    with l d show "page_base (pde s d) \<noteq> 0" "\<not> page_free s (page_base (pde s d))"
      using pt_wf_frame [of s l] by (auto simp: pde_def pde_addr_dslot)
  next
    fix d e assume de: "d < (1024 :: nat)" "e < (1024 :: nat)" "pde s d AND 1 \<noteq> 0" "pde s e AND 1 \<noteq> 0"
      "page_base (pde s d) = page_base (pde s e)"
    obtain l l' where "dix l = d" "dix l' = e"
      using lin_exists [OF de(1), of 0] lin_exists [OF de(2), of 0] by auto
    then show "d = e" using pt_wf_inj [OF l, of l l'] de by (simp add: pde_def pde_addr_dslot dslot_inj)
  qed
next
  assume r: ?r
  show ?l unfolding pt_wf_def pde_addr_dslot
    using r dix_less unfolding pde_def by metis
qed

section \<open>The inner loop\<close>

definition no_write :: "u32 \<Rightarrow> u32" where "no_write e = e AND NOT 2"

text \<open>Entry \<open>e\<close> is present and maps the page with number \<open>m\<close> of the paging area.\<close>

definition hits :: "u32 \<Rightarrow> nat \<Rightarrow> bool" where
  "hits e m \<longleftrightarrow> e AND 1 \<noteq> 0 \<and> no_write e > LOW_MEM \<and> MAP_NR (no_write e) = m"

definition copied :: "u32 \<Rightarrow> u32" where
  "copied e = (if e AND 1 = 0 then 0 else no_write e)"

definition kept_entry :: "u32 \<Rightarrow> u32" where
  "kept_entry e = (if e AND 1 \<noteq> 0 \<and> no_write e > LOW_MEM then no_write e else e)"

lemma copy_ptes_spec:
  assumes "page_base f = f" "page_base t = t" "f \<noteq> t" "i + n \<le> 1024"
    and "\<And>j. i \<le> j \<Longrightarrow> j < i + n \<Longrightarrow> mem s (pslot t j) = 0"
  shows "mem (copy_ptes n (pslot f i) (pslot t i) s) x =
      (if \<exists>j. i \<le> j \<and> j < i + n \<and> x = pslot f j then kept_entry (mem s x)
       else if \<exists>j. i \<le> j \<and> j < i + n \<and> x = pslot t j then copied (mem s (x - t + f)) else mem s x) \<and>
    mem_map (copy_ptes n (pslot f i) (pslot t i) s) m =
      mem_map s m + of_nat (card {j. i \<le> j \<and> j < i + n \<and> hits (mem s (pslot f j)) m}) \<and>
    sharedPages (copy_ptes n (pslot f i) (pslot t i) s) = sharedPages s \<and>
    HIGH_MEMORY (copy_ptes n (pslot f i) (pslot t i) s) = HIGH_MEMORY s"
  using assms(4,5)
proof (induction n arbitrary: i s)
  case 0
  have e: "(i \<le> j \<and> j < i \<and> Q) = False" for j Q by auto
  show ?case by (simp add: e)
next
  case (Suc n)
  let ?e = "mem s (pslot f i)"
  define s1 where "s1 = (if 1 AND ?e = 0 then s
     else (let s = store (pslot t i) (no_write ?e) s in
       if no_write ?e > LOW_MEM then (store (pslot f i) (no_write ?e) s)\<lparr>mem_map := (mem_map s)
            (MAP_NR (no_write ?e) := mem_map s (MAP_NR (no_write ?e)) + 1)\<rparr> else s))"
  have step: "copy_ptes (Suc n) (pslot f i) (pslot t i) s = copy_ptes n (pslot f (Suc i)) (pslot t (Suc i)) s1"
    by (simp add: s1_def Let_def slot_Suc no_write_def)
  have i: "i < 1024" using Suc.prems(1) by simp
  have ft: "pslot f j \<noteq> pslot t k" if "j < 1024" "k < 1024" for j k
    using pslot_inj [OF assms(1,2) that] assms(3) by simp
  have m1: "mem s1 x = (if x = pslot f i then kept_entry ?e else if x = pslot t i then copied ?e else mem s x)" for x
    using ft [OF i i] Suc.prems(2) [of i]
    by (auto simp: s1_def Let_def kept_entry_def copied_def and.commute)
  have mm1: "mem_map s1 m = mem_map s m + (if hits ?e m then 1 else 0)"
    by (auto simp: s1_def Let_def hits_def and.commute)
  have neq: "pslot f j \<noteq> pslot f i \<and> pslot t j \<noteq> pslot t i \<and> pslot f j \<noteq> pslot t i \<and> pslot t j \<noteq> pslot f i"
    if "Suc i \<le> j" "j < Suc i + n" for j
  proof -
    have j: "j < 1024" "j \<noteq> i" using that Suc.prems(1) by simp_all
    then show ?thesis
      using pslot_inj [OF assms(1,1) j(1) i] pslot_inj [OF assms(2,2) j(1) i] ft [OF j(1) i] ft [OF i j(1)] j(2) by auto
  qed
  have same: "mem s1 (pslot f j) = mem s (pslot f j)" "mem s1 (pslot t j) = mem s (pslot t j)" if "Suc i \<le> j" "j < Suc i + n" for j
    using neq [OF that] by (simp_all add: m1)
  have IH: "mem (copy_ptes n (pslot f (Suc i)) (pslot t (Suc i)) s1) x =
      (if \<exists>j. Suc i \<le> j \<and> j < Suc i + n \<and> x = pslot f j then kept_entry (mem s1 x)
       else if \<exists>j. Suc i \<le> j \<and> j < Suc i + n \<and> x = pslot t j then copied (mem s1 (x - t + f)) else mem s1 x) \<and>
    mem_map (copy_ptes n (pslot f (Suc i)) (pslot t (Suc i)) s1) m =
      mem_map s1 m + of_nat (card {j. Suc i \<le> j \<and> j < Suc i + n \<and> hits (mem s1 (pslot f j)) m}) \<and>
    sharedPages (copy_ptes n (pslot f (Suc i)) (pslot t (Suc i)) s1) = sharedPages s1 \<and>
    HIGH_MEMORY (copy_ptes n (pslot f (Suc i)) (pslot t (Suc i)) s1) = HIGH_MEMORY s1"
    using Suc.prems same by (intro Suc.IH) auto
  have bk: "pslot t j - t + f = pslot f j" for j by (simp add: pslot_def)
  have ex: "(\<exists>j. i \<le> j \<and> j < i + Suc n \<and> x = pslot g j) \<longleftrightarrow> x = pslot g i \<or> (\<exists>j. Suc i \<le> j \<and> j < Suc i + n \<and> x = pslot g j)" for g
    by (metis Suc_leD Suc_le_eq add_Suc add_Suc_right le_add1 le_eq_less_or_eq less_Suc_eq_le)
  have nx: "\<not> (\<exists>j. Suc i \<le> j \<and> j < Suc i + n \<and> pslot f i = pslot g j)" if "g = f \<or> g = t" for g
    using that neq by metis
  have nt: "\<not> (\<exists>j. Suc i \<le> j \<and> j < Suc i + n \<and> pslot t i = pslot g j)" if "g = f \<or> g = t" for g
    using that neq by metis
  have mem: "mem (copy_ptes (Suc n) (pslot f i) (pslot t i) s) x =
      (if \<exists>j. i \<le> j \<and> j < i + Suc n \<and> x = pslot f j then kept_entry (mem s x)
       else if \<exists>j. i \<le> j \<and> j < i + Suc n \<and> x = pslot t j then copied (mem s (x - t + f)) else mem s x)"
  proof -
    let ?F = "\<exists>j. Suc i \<le> j \<and> j < Suc i + n \<and> x = pslot f j" and ?T = "\<exists>j. Suc i \<le> j \<and> j < Suc i + n \<and> x = pslot t j"
    consider "x = pslot f i" "\<not> ?F" "\<not> ?T" | "x = pslot t i" "\<not> ?F" "\<not> ?T" "x \<noteq> pslot f i"
      | "x \<noteq> pslot f i" "x \<noteq> pslot t i"
      using nx nt ft [OF i i] by metis
    then show ?thesis
    proof cases
      case 1
      have "mem s1 x = kept_entry (mem s x)" by (simp add: m1 1(1))
      with 1 show ?thesis unfolding step IH [THEN conjunct1] ex by (simp only: if_P if_not_P simp_thms)
    next
      case 2
      have "mem s1 x = copied (mem s (x - t + f))" using 2(4) by (simp add: m1 2(1) bk)
      with 2 show ?thesis unfolding step IH [THEN conjunct1] ex by (simp only: if_P if_not_P simp_thms)
    next
      case 3
      have "mem s1 x = mem s x" using 3 by (simp add: m1)
      moreover have "mem s1 (x - t + f) = mem s (x - t + f)" if ?T
        using that same(1) by (metis bk)
      ultimately show ?thesis unfolding step IH [THEN conjunct1] ex using 3 by (cases ?F; cases ?T) (simp_all only: if_P if_not_P simp_thms)
    qed
  qed
  have "{j. i \<le> j \<and> j < i + Suc n \<and> hits (mem s (pslot f j)) m} =
      (if hits ?e m then {i} else {}) \<union> {j. Suc i \<le> j \<and> j < Suc i + n \<and> hits (mem s1 (pslot f j)) m}"
    using same(1) by (auto simp: le_eq_less_or_eq Suc_le_eq) (metis Suc_leI add_Suc_right nat_less_le)+
  moreover have "finite {j. Suc i \<le> j \<and> j < Suc i + n \<and> hits (mem s1 (pslot f j)) m}" by simp
  ultimately have "card {j. i \<le> j \<and> j < i + Suc n \<and> hits (mem s (pslot f j)) m} =
      (if hits ?e m then 1 else 0) + card {j. Suc i \<le> j \<and> j < Suc i + n \<and> hits (mem s1 (pslot f j)) m}"
    by (auto simp: card_insert_if)
  then have "mem_map (copy_ptes (Suc n) (pslot f i) (pslot t i) s) m =
      mem_map s m + of_nat (card {j. i \<le> j \<and> j < i + Suc n \<and> hits (mem s (pslot f j)) m})"
    unfolding step using IH mm1 by (auto simp: algebra_simps)
  moreover have "sharedPages s1 = sharedPages s" "HIGH_MEMORY s1 = HIGH_MEMORY s" by (simp_all add: s1_def Let_def)
  ultimately show ?case using mem IH step by simp
qed


section \<open>One directory entry\<close>

lemma no_write_simps [simp]: "no_write e AND 1 = 0 \<longleftrightarrow> e AND 1 = 0" "page_base (no_write e) = page_base e"
  "no_write e AND 2 = 0"
proof -
  have "(e AND NOT 2) AND 1 = e AND (1 :: u32)" by (rule bit_word_eqI) (auto simp: bit_simps)
  then show "no_write e AND 1 = 0 \<longleftrightarrow> e AND 1 = 0" unfolding no_write_def by metis
  have "NOT 2 = (NOT (push_bit 1 1) :: u32)" by simp
  then show "page_base (no_write e) = page_base e"
    unfolding page_base_def word_ffff000 no_write_def by (simp only:) (rule bit_word_eqI, auto simp: bit_simps)
  show "no_write e AND 2 = 0" unfolding no_write_def by (rule bit_word_eqI) (auto simp: bit_simps)
qed

lemma copied_simps [simp]: "copied e AND 1 = 0 \<longleftrightarrow> e AND 1 = 0" "copied e AND 2 = 0"
  "e AND 1 \<noteq> 0 \<Longrightarrow> page_base (copied e) = page_base e"
  by (simp_all add: copied_def)

lemma kept_entry_simps [simp]: "kept_entry e AND 1 = 0 \<longleftrightarrow> e AND 1 = 0" "page_base (kept_entry e) = page_base e"
  by (simp_all add: kept_entry_def)

lemma unat_add_count:
  assumes "unat (x :: u8) + c \<le> 255" shows "unat (x + of_nat c) = unat x + c"
proof -
  from assms have "c < 256" "unat x + c < 256" by simp_all
  then show ?thesis by (simp add: unat_word_ariths unat_of_nat)
qed

lemma hits_page:
  assumes "hits e m" shows "e AND 1 \<noteq> 0" "m < 3840 \<Longrightarrow> page_base e = page_addr m"
proof -
  let ?a = "no_write e"
  show "e AND 1 \<noteq> 0" using assms by (simp add: hits_def)
  assume m: "m < 3840"
  have gt: "unat ?a > 1048576" using assms by (simp add: hits_def word_less_nat_alt LOW_MEM_def)
  have "m = (unat ?a - 1048576) div 4096"
    using assms gt by (simp add: hits_def MAP_NR_def unat_drop_bit LOW_MEM_def unat_sub word_le_nat_alt)
  moreover have "unat ?a = (unat ?a - 1048576) + 256 * 4096" using gt by simp
  then have "unat ?a div 4096 = (unat ?a - 1048576) div 4096 + 256"
    by (metis div_mult_self1 zero_neq_numeral add.commute)
  ultimately have "unat ?a div 4096 * 4096 = 4096 * m + 1048576" by simp
  then have "page_base ?a = page_addr m" unfolding word_unat_eq_iff unat_page_base unat_page_addr [OF m] .
  then show "page_base e = page_addr m" by simp
qed

definition hit_count :: "mm \<Rightarrow> nat \<Rightarrow> nat \<Rightarrow> nat" where
  "hit_count s d m = (if pde s d AND 1 = 0 then 0 else card {j. j < 1024 \<and> hits (pte s d j) m})"

lemma USER_SPACE_dix: "USER_SPACE \<le> l \<longleftrightarrow> 4 \<le> dix l"
proof -
  have "16777216 \<le> x \<longleftrightarrow> 4 \<le> x div 4194304" for x :: nat
    using less_eq_div_iff_mult_less_eq [of 4194304 4 x] by simp
  then show ?thesis by (simp add: USER_SPACE_def word_le_nat_alt dix_def)
qed

lemma vm_wf_index: "vm_wf s \<longleftrightarrow> pt_wf s \<and>
    (\<forall>d < 1024. \<forall>j < 1024. \<forall>p. 4 \<le> d \<longrightarrow> page_at s d j = Some p \<longrightarrow> \<not> page_free s p)"
proof (intro iffI conjI allI impI)
  fix d j p assume *: "vm_wf s" "d < 1024" "j < 1024" "page_at s d j = Some p" "4 \<le> d"
  obtain l where l: "dix l = d" "tix l = j" using lin_exists [OF *(2,3)] by blast
  have pb: "page_base p = p" using *(4) by (auto simp: page_at_def split: if_splits)
  have "translate s l = Some (p + (l AND 0xfff))" by (simp add: translate_page_at l *(4))
  moreover have "page_base (p + (l AND 0xfff)) = p" using pb by (metis page_base_offset)
  ultimately show "\<not> page_free s p" using vm_wf_page [OF *(1), of l] *(5) l(1) by (simp add: USER_SPACE_dix)
next
  assume *: "pt_wf s \<and> (\<forall>d < 1024. \<forall>j < 1024. \<forall>p. 4 \<le> d \<longrightarrow> page_at s d j = Some p \<longrightarrow> \<not> page_free s p)"
  show "vm_wf s" unfolding vm_wf_def
  proof (intro conjI allI impI)
    fix l f assume us: "USER_SPACE \<le> l" and "translate s l = Some f"
    then obtain p where p: "page_at s (dix l) (tix l) = Some p" "f = p + (l AND 0xfff)"
      by (auto simp: translate_page_at)
    then have "page_base f = p" by (auto simp: page_at_def split: if_splits)
    moreover have "\<not> page_free s p" using * p(1) dix_less [of l] tix_less [of l] us unfolding USER_SPACE_dix by metis
    ultimately show "\<not> page_free s (page_base f)" by simp
  qed (use * in blast)
qed (simp add: vm_wf_def)

lemma copy_dir_step:
  assumes wf: "vm_wf s" and a4: "4 \<le> a" and ab: "a < 1024" "b < 1024" "a \<noteq> b" "pde s a AND 1 \<noteq> 0" "pde s b AND 1 = 0"
    and i: "i < 3840" "mem_map s i = 0"
    and wrap: "\<forall>m < 3840. unat (mem_map s m) + hit_count s a m \<le> 255"
    and s3: "s3 = copy_ptes 1024 (page_base (pde s a)) (page_addr i) (store (dslot b) (page_addr i OR 7)
        (s\<lparr>mem_map := (mem_map s)(i := 1), mem := clear_page (page_addr i) (mem s)\<rparr>))"
  shows "\<And>d. d < 1024 \<Longrightarrow> pde s3 d = (if d = b then page_addr i OR 7 else pde s d)"
    "\<And>d j. d < 1024 \<Longrightarrow> j < 1024 \<Longrightarrow> page_at s3 d j = page_at s (if d = b then a else d) j"
    "\<And>m. m < 3840 \<Longrightarrow> mem_map s3 m = (if m = i then 1 else mem_map s m + of_nat (hit_count s a m))"
    "\<And>d j. d < 1024 \<Longrightarrow> j < 1024 \<Longrightarrow> d \<noteq> a \<Longrightarrow> d \<noteq> b \<Longrightarrow> pde s d AND 1 \<noteq> 0 \<Longrightarrow> pte s3 d j = pte s d j"
    "\<And>j. j < 1024 \<Longrightarrow> pte s3 b j = copied (pte s a j) \<and> pte s3 a j = kept_entry (pte s a j)"
    "vm_wf s3"
proof -
  let ?F = "page_base (pde s a)" and ?T = "page_addr i"
  define s2 where "s2 = store (dslot b) (?T OR 7) (s\<lparr>mem_map := (mem_map s)(i := 1), mem := clear_page ?T (mem s)\<rparr>)"
  have s2m: "mem s2 x = (if x = dslot b then ?T OR 7 else clear_page ?T (mem s) x)" "mem_map s2 = (mem_map s)(i := 1)" for x
    by (simp_all add: s2_def)
  have pt: "pt_wf s" using wf by (simp add: vm_wf_def)
  have T: "page_base ?T = ?T" "?T \<noteq> 0" "page_free s ?T" using i by (auto simp: page_free_def)
  have tbl: "page_base (pde s d) \<noteq> 0 \<and> \<not> page_free s (page_base (pde s d))" if "d < 1024" "pde s d AND 1 \<noteq> 0" for d
    using pt that unfolding pt_wf_index by blast
  have F: "page_base ?F = ?F" "?F \<noteq> 0" "?F \<noteq> ?T" using tbl [OF ab(1,4)] T(3) by auto
  have s2o: "mem s2 x = mem s x" if "page_base x \<noteq> 0" "page_base x \<noteq> ?T" for x
  proof -
    have "x \<noteq> dslot b" using that(1) page_base_dslot [OF ab(2)] by metis
    with that(2) show ?thesis by (simp add: s2m)
  qed
  have s2T: "mem s2 (pslot ?T j) = 0" if "j < 1024" for j
    using pslot_dslot [OF T(1,2) that ab(2)] page_base_pslot [OF T(1) that] by (simp add: s2m)
  have s2d: "mem s2 (dslot d) = (if d = b then ?T OR 7 else mem s (dslot d))" if "d < 1024" for d
    using dslot_inj [OF that ab(2)] page_base_dslot [OF that] T(2) by (auto simp: s2m)
  have s3': "s3 = copy_ptes 1024 (pslot ?F 0) (pslot ?T 0) s2" by (simp add: s3 pslot_def s2_def)
  have sp: "mem s3 x = (if \<exists>j. 0 \<le> j \<and> j < 0 + 1024 \<and> x = pslot ?F j then kept_entry (mem s2 x)
       else if \<exists>j. 0 \<le> j \<and> j < 0 + 1024 \<and> x = pslot ?T j then copied (mem s2 (x - ?T + ?F)) else mem s2 x)"
    "mem_map s3 m = mem_map s2 m + of_nat (card {j. 0 \<le> j \<and> j < 0 + 1024 \<and> hits (mem s2 (pslot ?F j)) m})" for x m
  proof -
    have z: "0 + 1024 \<le> (1024 :: nat)" "\<And>j. 0 \<le> j \<Longrightarrow> j < 0 + 1024 \<Longrightarrow> mem s2 (pslot ?T j) = 0"
      by (simp, use s2T in simp)
    show "mem s3 x = (if \<exists>j. 0 \<le> j \<and> j < 0 + 1024 \<and> x = pslot ?F j then kept_entry (mem s2 x)
       else if \<exists>j. 0 \<le> j \<and> j < 0 + 1024 \<and> x = pslot ?T j then copied (mem s2 (x - ?T + ?F)) else mem s2 x)"
      "mem_map s3 m = mem_map s2 m + of_nat (card {j. 0 \<le> j \<and> j < 0 + 1024 \<and> hits (mem s2 (pslot ?F j)) m})"
      unfolding s3' using copy_ptes_spec [OF F(1) T(1) F(3) z] by blast+
  qed
  have pF: "mem s3 (pslot ?F j) = kept_entry (mem s (pslot ?F j))" if "j < 1024" for j
    using sp(1) [of "pslot ?F j"] s2o [of "pslot ?F j"] page_base_pslot [OF F(1) that] F(2,3) that by auto
  have pT: "mem s3 (pslot ?T j) = copied (mem s (pslot ?F j))" if "j < 1024" for j
  proof -
    have "pslot ?T j \<noteq> pslot ?F k" if "k < 1024" for k using pslot_inj [OF T(1) F(1) \<open>j < 1024\<close> that] F(3) by auto
    moreover have "pslot ?T j - ?T + ?F = pslot ?F j" by (simp add: pslot_def)
    ultimately show ?thesis
      using sp(1) [of "pslot ?T j"] s2o [of "pslot ?F j"] page_base_pslot [OF F(1) that] F(2,3) that by auto
  qed
  have oth: "mem s3 x = mem s2 x" if "page_base x \<noteq> ?F" "page_base x \<noteq> ?T" for x
    using sp(1) [of x] that page_base_pslot [OF F(1)] page_base_pslot [OF T(1)] by auto
  show pd: "pde s3 d = (if d = b then ?T OR 7 else pde s d)" if "d < 1024" for d
    using oth [of "dslot d"] page_base_dslot [OF that] F(2) T(2) s2d [OF that] by (simp add: pde_def)
  have pb: "page_base (?T OR 7) = ?T" using T(1) by simp
  show pab: "pte s3 b j = copied (pte s a j) \<and> pte s3 a j = kept_entry (pte s a j)" if "j < 1024" for j
    using pT [OF that] pF [OF that] ab pd [OF ab(1)] pd [OF ab(2)] pb by (simp add: pte_def)
  show po: "pte s3 d j = pte s d j" if d: "d < 1024" "j < 1024" "d \<noteq> a" "d \<noteq> b" "pde s d AND 1 \<noteq> 0" for d j
  proof -
    let ?G = "page_base (pde s d)"
    have G: "page_base ?G = ?G" "?G \<noteq> 0" "?G \<noteq> ?T" using tbl [OF d(1,5)] T(3) by auto
    have "?G \<noteq> ?F" using pt d ab unfolding pt_wf_index by metis
    then have "mem s3 (pslot ?G j) = mem s (pslot ?G j)"
      using oth [of "pslot ?G j"] s2o [of "pslot ?G j"] page_base_pslot [OF G(1) d(2)] G by simp
    then show ?thesis using pd [OF d(1)] d by (simp add: pte_def)
  qed
  show pa: "page_at s3 d j = page_at s (if d = b then a else d) j" if d: "d < 1024" "j < 1024" for d j
  proof (cases "d = b")
    case True
    then show ?thesis using pd [OF ab(2)] pab [OF d(2)] ab(4) by (simp add: page_at_def or_7_and_1)
  next
    case False
    then show ?thesis using pd [OF d(1)] pab [OF d(2)] po [OF d] by (cases "d = a") (auto simp: page_at_def)
  qed
  have "{j. 0 \<le> j \<and> j < 0 + 1024 \<and> hits (mem s2 (pslot ?F j)) m} = {j. j < 1024 \<and> hits (pte s a j) m}" for m
    using s2o page_base_pslot [OF F(1)] F(2,3) by (auto simp: pte_def)
  then have mp: "mem_map s3 m = ((mem_map s)(i := 1)) m + of_nat (hit_count s a m)" for m
    using sp(2) [of m] ab(4) by (simp add: hit_count_def s2m)
  have "hit_count s a i = 0"
  proof -
    have "\<not> hits (pte s a j) i" if "j < 1024" for j
    proof
      assume h: "hits (pte s a j) i"
      have "page_at s a j = Some ?T" using hits_page [OF h] i(1) ab(4) by (simp add: page_at_def)
      with wf ab(1) a4 that T(3) show False unfolding vm_wf_index by blast
    qed
    then have "{j. j < 1024 \<and> hits (pte s a j) i} = {}" by blast
    then show ?thesis by (simp add: hit_count_def)
  qed
  then show mm: "mem_map s3 m = (if m = i then 1 else mem_map s m + of_nat (hit_count s a m))" if "m < 3840" for m
    using mp [of m] by simp
  have free: "page_free s f \<and> f \<noteq> ?T" if fr: "page_free s3 f" for f
  proof -
    from fr obtain m where m: "m < 3840" "f = page_addr m" "mem_map s3 m = 0" by (auto simp: page_free_def)
    then have "m \<noteq> i" "mem_map s m + of_nat (hit_count s a m) = 0" using mm [OF m(1)] by (auto split: if_splits)
    moreover have "unat (mem_map s m + of_nat (hit_count s a m)) = unat (mem_map s m) + hit_count s a m"
      using wrap m(1) by (intro unat_add_count) simp
    ultimately have "mem_map s m = 0" by (simp add: unat_eq_zero)
    with m \<open>m \<noteq> i\<close> i show ?thesis by (auto simp: page_free_def page_addr_inj)
  qed
  show "vm_wf s3" unfolding vm_wf_index
  proof (intro conjI allI impI)
    show "pt_wf s3" unfolding pt_wf_index
    proof (intro conjI allI impI)
      fix d assume d: "d < 1024" "pde s3 d AND 1 \<noteq> 0"
      then show "page_base (pde s3 d) \<noteq> 0" "\<not> page_free s3 (page_base (pde s3 d))"
        using pd [OF d(1)] tbl [OF d(1)] free T pb by (auto split: if_splits)
    next
      fix d e assume d: "d < 1024" "e < 1024" "pde s3 d AND 1 \<noteq> 0" "pde s3 e AND 1 \<noteq> 0" "page_base (pde s3 d) = page_base (pde s3 e)"
      have "page_base (pde s x) \<noteq> ?T" if "x < 1024" "pde s x AND 1 \<noteq> 0" for x using tbl [OF that] T(3) by auto
      moreover have "d = e" if "pde s d AND 1 \<noteq> 0" "pde s e AND 1 \<noteq> 0" "page_base (pde s d) = page_base (pde s e)"
        using pt d(1,2) that unfolding pt_wf_index by blast
      ultimately show "d = e" using d pd [OF d(1)] pd [OF d(2)] pb by (auto split: if_splits)
    qed
  next
    fix d j p assume d: "d < 1024" "j < 1024" "4 \<le> d" "page_at s3 d j = Some p"
    define e where "e = (if d = b then a else d)"
    have "e < 1024" "4 \<le> e" using ab(1) a4 d(1,3) by (auto simp: e_def)
    moreover have "page_at s e j = Some p" using pa d by (simp add: e_def)
    ultimately have "\<not> page_free s p" using wf d(2) unfolding vm_wf_index by blast
    with free show "\<not> page_free s3 p" by blast
  qed
qed


section \<open>The outer loop\<close>

lemma hit_count_free:
  assumes "vm_wf s" "4 \<le> d" "d < 1024" "i < 3840" "mem_map s i = 0" shows "hit_count s d i = 0"
proof (cases "pde s d AND 1 = 0")
  case False
  have "\<not> hits (pte s d j) i" if "j < 1024" for j
  proof
    assume h: "hits (pte s d j) i"
    have "page_at s d j = Some (page_addr i)" using hits_page [OF h] assms(4) False by (simp add: page_at_def)
    moreover have "page_free s (page_addr i)" using assms(4,5) by (auto simp: page_free_def)
    ultimately show False using assms(1-3) that unfolding vm_wf_index by blast
  qed
  then have "{j. j < 1024 \<and> hits (pte s d j) i} = {}" by blast
  then show ?thesis by (simp add: hit_count_def)
qed (simp add: hit_count_def)

lemma sum_first: "(\<Sum>d = a..<a + Suc n. f d) = f a + (\<Sum>d = Suc a..<Suc a + n. f d :: nat)" for f :: "nat \<Rightarrow> nat"
  by (subst sum.atLeast_Suc_lessThan) simp_all

text \<open>What \<open>n\<close> turns of the outer loop from \<open>s\<close> to \<open>s'\<close> have done.\<close>

definition dirs_copied :: "nat \<Rightarrow> nat \<Rightarrow> nat \<Rightarrow> mm \<Rightarrow> mm \<Rightarrow> bool" where
  "dirs_copied n a b s s' \<longleftrightarrow> vm_wf s' \<and>
     (\<forall>d < 1024. \<forall>j < 1024. page_at s' d j = page_at s (if b \<le> d \<and> d < b + n then d - b + a else d) j) \<and>
     (\<forall>d < 1024. \<not> (b \<le> d \<and> d < b + n) \<longrightarrow> pde s' d = pde s d) \<and>
     (\<forall>d < 1024. \<forall>j < 1024. \<not> (b \<le> d \<and> d < b + n) \<longrightarrow> pde s d AND 1 \<noteq> 0 \<longrightarrow>
        pte s' d j = (if a \<le> d \<and> d < a + n then kept_entry (pte s d j) else pte s d j)) \<and>
     (\<forall>d < 1024. \<forall>j < 1024. b \<le> d \<and> d < b + n \<longrightarrow> pde s' d AND 1 \<noteq> 0 \<longrightarrow> pte s' d j AND 2 = 0) \<and>
     (\<forall>m < 3840. mem_map s m \<noteq> 0 \<longrightarrow>
        unat (mem_map s' m) = unat (mem_map s m) + (\<Sum>d = a..<a + n. hit_count s d m))"

lemma kept_entry_idem [simp]: "kept_entry (kept_entry e) = kept_entry e"
  by (auto simp: kept_entry_def no_write_def and.assoc)

lemma dirs_copied_Suc_skip:
  assumes "vm_wf s" "dirs_copied n (Suc a) (Suc b) s s'" "pde s a AND 1 = 0" "pde s b AND 1 = 0" "a < 1024" "b < 1024"
  shows "dirs_copied (Suc n) a b s s'"
proof -
  have h: "hit_count s a m = 0" for m using assms(3) by (simp add: hit_count_def)
  have none: "page_at s a j = None" "page_at s b j = None" for j using assms(3,4) by (simp_all add: page_at_def)
  have pb: "pde s' b = pde s b" using assms(2,6) by (simp add: dirs_copied_def)
  note d = assms(2) [unfolded dirs_copied_def]
  show ?thesis unfolding dirs_copied_def
  proof (intro conjI allI impI)
    fix d j :: nat assume *: "d < 1024" "j < 1024"
    then have "page_at s' d j = page_at s (if Suc b \<le> d \<and> d < Suc b + n then d - Suc b + Suc a else d) j" using d by blast
    then show "page_at s' d j = page_at s (if b \<le> d \<and> d < b + Suc n then d - b + a else d) j"
    proof (cases "d = b")
      case False
      moreover have "d - Suc b + Suc a = d - b + a" if "Suc b \<le> d" using that by simp
      ultimately show ?thesis using \<open>page_at s' d j = _\<close> by auto
    qed (use none \<open>page_at s' d j = _\<close> in auto)
  next
    fix d j :: nat assume *: "d < 1024" "j < 1024" "\<not> (b \<le> d \<and> d < b + Suc n)" "pde s d AND 1 \<noteq> 0"
    then have "d \<noteq> a" "\<not> (Suc b \<le> d \<and> d < Suc b + n)" using assms(3) by auto
    then have "pte s' d j = (if Suc a \<le> d \<and> d < Suc a + n then kept_entry (pte s d j) else pte s d j)" using d * by blast
    then show "pte s' d j = (if a \<le> d \<and> d < a + Suc n then kept_entry (pte s d j) else pte s d j)"
      using \<open>d \<noteq> a\<close> by auto
  next
    fix d j :: nat assume *: "d < 1024" "j < 1024" "b \<le> d \<and> d < b + Suc n" "pde s' d AND 1 \<noteq> 0"
    then have "d \<noteq> b" using pb assms(4) by auto
    with * d show "pte s' d j AND 2 = 0" by auto
  next
    fix m assume *: "m < 3840" "mem_map s m \<noteq> 0"
    then have "unat (mem_map s' m) = unat (mem_map s m) + (\<Sum>d = Suc a..<Suc a + n. hit_count s d m)" using d by blast
    then show "unat (mem_map s' m) = unat (mem_map s m) + (\<Sum>d = a..<a + Suc n. hit_count s d m)"
      unfolding sum_first by (simp only: h add_0)
  qed (use d in auto)
qed

lemma dirs_copied_Suc_step:
  assumes wf: "vm_wf s" and a4: "4 \<le> a" and ab: "a < 1024" "b < 1024" "pde s a AND 1 \<noteq> 0" "pde s b AND 1 = 0"
    and n: "a + Suc n \<le> b \<or> b + Suc n \<le> a" "a + Suc n \<le> 1024" "b + Suc n \<le> 1024"
    and i: "i < 3840" "mem_map s i = 0"
    and wrap: "\<forall>m < 3840. unat (mem_map s m) + (\<Sum>d = a..<a + Suc n. hit_count s d m) \<le> 255"
    and s3: "s3 = copy_ptes 1024 (page_base (pde s a)) (page_addr i) (store (dslot b) (page_addr i OR 7)
        (s\<lparr>mem_map := (mem_map s)(i := 1), mem := clear_page (page_addr i) (mem s)\<rparr>))"
  shows "vm_wf s3" "\<forall>m < 3840. unat (mem_map s3 m) + (\<Sum>d = Suc a..<Suc a + n. hit_count s3 d m) \<le> 255"
    "dirs_copied n (Suc a) (Suc b) s3 s' \<Longrightarrow> dirs_copied (Suc n) a b s s'"
proof -
  have neq: "a \<noteq> b" using n(1) by auto
  have sumS: "(\<Sum>d = a..<a + Suc n. hit_count s d m) = hit_count s a m + (\<Sum>d = Suc a..<Suc a + n. hit_count s d m)" for m
    by (rule sum_first)
  have w1: "\<forall>m < 3840. unat (mem_map s m) + hit_count s a m \<le> 255"
    using wrap unfolding sumS by fastforce
  note st = copy_dir_step [OF wf a4 ab(1,2) neq ab(3,4) i w1 s3]
  show vm: "vm_wf s3" by (rule st(6))
  have hc: "hit_count s3 d m = hit_count s d m" if "Suc a \<le> d" "d < Suc a + n" for d m
  proof -
    have d: "d < 1024" "d \<noteq> a" "d \<noteq> b" using that n by auto
    show ?thesis using st(1) [OF d(1)] st(4) [OF d(1) _ d(2,3)] d(3)
      by (auto simp: hit_count_def intro!: arg_cong [where f = card])
  qed
  have sum3: "(\<Sum>d = Suc a..<Suc a + n. hit_count s3 d m) = (\<Sum>d = Suc a..<Suc a + n. hit_count s d m)" for m
    by (rule sum.cong) (use hc in auto)
  have mi: "unat (mem_map s3 m) = unat (mem_map s m) + hit_count s a m" if "m < 3840" "m \<noteq> i" for m
    using st(3) [OF that(1)] that w1 by (simp add: unat_add_count)
  have "unat (mem_map s3 m) + (\<Sum>d = Suc a..<Suc a + n. hit_count s3 d m) \<le> 255" if m: "m < 3840" for m
  proof (cases "m = i")
    case True
    have "hit_count s d i = 0" if "Suc a \<le> d" "d < Suc a + n" for d
      using that n a4 by (intro hit_count_free [OF wf _ _ i]) simp_all
    then have "(\<Sum>d = Suc a..<Suc a + n. hit_count s d i) = 0" by (intro sum.neutral) auto
    then show ?thesis using st(3) [OF m] True unfolding sum3 by simp
  next
    case False
    then show ?thesis using mi [OF m] wrap m unfolding sum3 sumS by auto
  qed
  then show "\<forall>m < 3840. unat (mem_map s3 m) + (\<Sum>d = Suc a..<Suc a + n. hit_count s3 d m) \<le> 255" by blast
  assume c: "dirs_copied n (Suc a) (Suc b) s3 s'"
  note d = c [unfolded dirs_copied_def]
  show "dirs_copied (Suc n) a b s s'" unfolding dirs_copied_def
  proof (intro conjI allI impI)
    fix d j :: nat assume *: "d < 1024" "j < 1024"
    define d' where "d' = (if Suc b \<le> d \<and> d < Suc b + n then d - Suc b + Suc a else d)"
    have "page_at s' d j = page_at s3 d' j" using d * unfolding d'_def by blast
    also have "\<dots> = page_at s (if d' = b then a else d') j"
      using * n by (intro st(2)) (auto simp: d'_def)
    also have "(if d' = b then a else d') = (if b \<le> d \<and> d < b + Suc n then d - b + a else d)"
      using n by (auto simp: d'_def)
    finally show "page_at s' d j = page_at s (if b \<le> d \<and> d < b + Suc n then d - b + a else d) j" .
  next
    fix d assume *: "d < 1024" "\<not> (b \<le> d \<and> d < b + Suc n)"
    then have "pde s' d = pde s3 d" using d by auto
    with st(1) [OF *(1)] *(2) show "pde s' d = pde s d" by auto
  next
    fix d j :: nat assume *: "d < 1024" "j < 1024" "\<not> (b \<le> d \<and> d < b + Suc n)" "pde s d AND 1 \<noteq> 0"
    then have db: "d \<noteq> b" "\<not> (Suc b \<le> d \<and> d < Suc b + n)" by auto
    have "pde s3 d AND 1 \<noteq> 0" using st(1) [OF *(1)] db *(4) by simp
    then have e: "pte s' d j = (if Suc a \<le> d \<and> d < Suc a + n then kept_entry (pte s3 d j) else pte s3 d j)"
      using d * db by blast
    show "pte s' d j = (if a \<le> d \<and> d < a + Suc n then kept_entry (pte s d j) else pte s d j)"
    proof (cases "d = a")
      case True
      then show ?thesis using e st(5) [OF *(2)] by simp
    next
      case False
      then show ?thesis using e st(4) [OF *(1,2) False db(1) *(4)] by auto
    qed
  next
    fix d j :: nat assume *: "d < 1024" "j < 1024" "b \<le> d \<and> d < b + Suc n" "pde s' d AND 1 \<noteq> 0"
    show "pte s' d j AND 2 = 0"
    proof (cases "d = b")
      case True
      have "pde s3 b AND 1 \<noteq> 0" using st(1) [OF ab(2)] by (simp add: or_7_and_1)
      moreover have "\<not> (Suc a \<le> b \<and> b < Suc a + n)" using n(1) by auto
      ultimately have "pte s' b j = pte s3 b j" using d *(2) ab(2) by auto
      then show ?thesis using st(5) [OF *(2)] True by simp
    next
      case False
      then show ?thesis using d * by auto
    qed
  next
    fix m assume *: "m < 3840" "mem_map s m \<noteq> 0"
    then have mi': "m \<noteq> i" using i(2) by auto
    have "unat (mem_map s m) \<noteq> 0" using *(2) by (simp add: unat_eq_zero)
    then have "mem_map s3 m \<noteq> 0" using mi [OF *(1) mi'] by auto
    then have "unat (mem_map s' m) = unat (mem_map s3 m) + (\<Sum>d = Suc a..<Suc a + n. hit_count s3 d m)"
      using d *(1) by blast
    then show "unat (mem_map s' m) = unat (mem_map s m) + (\<Sum>d = a..<a + Suc n. hit_count s d m)"
      unfolding sum3 sumS mi [OF *(1) mi'] by simp
  qed (use d in blast)
qed

lemma dirs_copied_0: "vm_wf s \<Longrightarrow> dirs_copied 0 a b s s"
  by (auto simp: dirs_copied_def)

lemma copy_dirs_spec:
  assumes "vm_wf s" "4 \<le> a" "a + n \<le> b \<or> b + n \<le> a" "a + n \<le> 1024" "b + n \<le> 1024"
    and "\<forall>m < 3840. unat (mem_map s m) + (\<Sum>d = a..<a + n. hit_count s d m) \<le> 255"
    and "copy_dirs n 1024 (dslot a) (dslot b) s = Inr (0, s')"
  shows "dirs_copied n a b s s'"
  using assms
proof (induction n arbitrary: a b s)
  case 0
  then show ?case by (simp add: dirs_copied_0)
next
  case (Suc n)
  have ab: "a < 1024" "b < 1024" using Suc.prems(4,5) by simp_all
  have pb: "pde s b AND 1 = 0" using Suc.prems(7) by (auto simp: pde_def and.commute split: if_splits)
  show ?case
  proof (cases "pde s a AND 1 = 0")
    case True
    then have "copy_dirs n 1024 (dslot (Suc a)) (dslot (Suc b)) s = Inr (0, s')"
      using Suc.prems(7) pb by (simp add: pde_def and.commute slot_Suc)
    moreover have "\<forall>m < 3840. unat (mem_map s m) + (\<Sum>d = Suc a..<Suc a + n. hit_count s d m) \<le> 255"
      using Suc.prems(6) unfolding sum_first by fastforce
    ultimately have "dirs_copied n (Suc a) (Suc b) s s'" using Suc.prems(1-5) by (intro Suc.IH) auto
    then show ?thesis using True pb ab Suc.prems(1) by (intro dirs_copied_Suc_skip)
  next
    case False
    show ?thesis
    proof (cases rule: get_free_page_cases [of s])
      case 1
      then show ?thesis using Suc.prems(7) pb False by (simp add: pde_def and.commute Let_def)
    next
      case (2 i)
      define s3 where "s3 = copy_ptes 1024 (page_base (pde s a)) (page_addr i) (store (dslot b) (page_addr i OR 7)
        (s\<lparr>mem_map := (mem_map s)(i := 1), mem := clear_page (page_addr i) (mem s)\<rparr>))"
      have i: "i < 3840" using 2(1) by simp
      note st = dirs_copied_Suc_step [OF Suc.prems(1,2) ab False pb Suc.prems(3-5) i 2(2) Suc.prems(6) s3_def]
      have "copy_dirs n 1024 (dslot (Suc a)) (dslot (Suc b)) s3 = Inr (0, s')"
        using Suc.prems(7) pb False 2(4) i
        by (simp add: pde_def and.commute slot_Suc Let_def s3_def page_base_def split: if_splits)
      then have "dirs_copied n (Suc a) (Suc b) s3 s'" using Suc.prems(2-5) st(1,2) by (intro Suc.IH) auto
      then show ?thesis by (rule st(3))
    qed
  qed
qed


section \<open>Properties\<close>

lemma aligned_4M:
  assumes "a AND 0x3fffff = (0 :: u32)" shows "unat a = 4194304 * dix a"
proof -
  have "(0x3fffff :: u32) = mask 22" by (simp add: mask_eq_exp_minus_1)
  then have "take_bit 22 a = 0" using assms by (simp add: take_bit_eq_mask)
  then have "unat a mod 4194304 = 0" by (simp add: word_unat_eq_iff take_bit_eq_mod unat_mod_distrib)
  then show ?thesis using mult_div_mod_eq [of 4194304 "unat a"] by (simp add: dix_def)
qed

lemma dix_add:
  assumes "unat a = 4194304 * dix a" "dix a + n \<le> 1024" "unat x < 4194304 * n"
  shows "dix (a + x) = dix a + unat x div 4194304" "tix (a + x) = tix x" "(a + x) AND 0xfff = x AND 0xfff"
    "unat x div 4194304 < n"
proof -
  have "unat a + unat x < 4294967296" using assms by simp
  then have u: "unat (a + x) = 4194304 * dix a + unat x" using assms(1) by (simp add: unat_word_ariths)
  show "dix (a + x) = dix a + unat x div 4194304" unfolding dix_def [of "a + x"] u by simp
  have e: "4194304 * dix a + unat x = unat x + (1024 * dix a) * 4096" by simp
  have "(4194304 * dix a + unat x) div 4096 = unat x div 4096 + 1024 * dix a"
    unfolding e by (subst div_mult_self1) simp_all
  then show "tix (a + x) = tix x" unfolding tix_def u by simp
  have "(4194304 * dix a + unat x) mod 4096 = unat x mod 4096" unfolding e by (rule mod_mult_self1)
  then show "(a + x) AND 0xfff = x AND 0xfff" by (simp add: word_unat_eq_iff unat_fff u)
  show "unat x div 4194304 < n" using assms(3) by (simp add: less_mult_imp_div_less mult.commute)
qed


lemma LOW_kept_entry: "e AND 1 \<noteq> 0 \<Longrightarrow> LOW_MEM \<le> page_base e \<Longrightarrow> kept_entry e AND 2 = 0"
proof -
  assume e: "e AND 1 \<noteq> 0" "LOW_MEM \<le> page_base e"
  have "unat (no_write e) \<ge> 1048576"
    using e(2) no_write_simps(2) [of e] unat_page_base [of "no_write e"] by (simp add: word_le_nat_alt LOW_MEM_def)
  moreover have "no_write e \<noteq> LOW_MEM"
  proof
    assume "no_write e = LOW_MEM"
    then have "no_write e AND 1 = 0" by (simp add: LOW_MEM_def)
    with e(1) show False by simp
  qed
  then have "unat (no_write e) \<noteq> 1048576" by (simp add: word_unat_eq_iff LOW_MEM_def)
  ultimately have "no_write e > LOW_MEM" by (simp add: word_less_nat_alt LOW_MEM_def)
  with e(1) show ?thesis by (simp add: kept_entry_def)
qed

text \<open>The number of 4 MB blocks a size takes.\<close>

abbreviation blocks :: "u32 \<Rightarrow> nat" where
  "blocks sz \<equiv> unat (drop_bit 22 (sz + 0x3fffff))"



lemma hit_count_one: "hit_count mm_one 32 m \<le> 1"
proof -
  have "{j. j < 1024 \<and> hits (pte mm_one 32 j) m} \<subseteq> {1}" if d: "pde mm_one 32 AND 1 \<noteq> 0"
  proof (rule subsetI, elim CollectE conjE)
    fix j assume j: "j < 1024" "hits (pte mm_one 32 j) m"
    obtain l where l: "dix l = 32" "tix l = j" using lin_exists [OF _ j(1), of 32] by auto
    have "translate mm_one l \<noteq> None"
      using d j(2) by (auto simp: translate_page_at page_at_def l hits_def)
    then have "drop_bit 12 l = drop_bit 12 0x8001234"
      using l(1) by (auto simp: mm_one_translate USER_SPACE_dix split: if_splits)
    then have "unat (drop_bit 12 l) = unat (drop_bit 12 (0x8001234 :: u32))" by (rule arg_cong)
    then have "unat l div 4096 = 32769" by (simp add: unat_drop_bit)
    then show "j \<in> {1}" using l(2) by (simp add: tix_def)
  qed
  then have "pde mm_one 32 AND 1 \<noteq> 0 \<Longrightarrow> card {j. j < 1024 \<and> hits (pte mm_one 32 j) m} \<le> card {1 :: nat}"
    by (intro card_mono) simp_all
  then show ?thesis by (simp add: hit_count_def)
qed

lemma mem_one_64: "mem mm_one 64 = 0"
proof -
  let ?a = "0x8001234 :: u32"
  have "page_addr 99 + pte_slot ?a \<noteq> 64" by (simp add: word_unat_eq_iff unat_pte_slot unat_word_ariths unat_page_addr)
  moreover have "pde_addr ?a \<noteq> 64" by (simp add: word_unat_eq_iff unat_pde_addr)
  ultimately show ?thesis by (simp add: mm_one_alt store_def clear_page_def) (simp add: mm_boot_def)
qed


end
