(* ===== verification/Forkprops.thy ===== *)
theory Forkprops imports Fork Addrspace begin

text \<open>
  What \<open>fork\<close> promises: \<open>find_empty_process\<close> always ends, with a process number no task has and the first
  free slot; the child of \<open>copy_process\<close> is a copy of its parent that differs where it should, and a
  failed \<open>copy_process\<close> leaves no trace in the task table.
\<close>

unbundle bit_operations_syntax

text \<open>C12. \<open>find_empty_process\<close> always returns, whatever numbers the tasks have. The number it leaves in
  \<open>last_pid\<close> is the first one after the old \<open>last_pid\<close> that no task has, counting on from 1 after
  2147483647: the search passes over at most 64 numbers, each of which some task has. The number is
  positive, and the result is the lowest free slot but slot 0, or EAGAIN exactly when there is none.\<close>

theorem find_empty_process_returns:
  assumes "0 \<le> last_pid k" "last_pid k \<le> 2147483647"
  shows "\<exists>r l n. find_empty_process k = Some (r, k\<lparr>last_pid := l\<rparr>) \<and> n \<le> 64 \<and> l = nth_pid (last_pid k) (Suc n) \<and>
    (\<forall>m < n. pid_used k (nth_pid (last_pid k) (Suc m))) \<and> \<not> pid_used k l \<and> 0 < l \<and> l \<le> 2147483647 \<and>
    (case r of
       Inr i \<Rightarrow> 1 \<le> i \<and> i < NR_TASKS \<and> task k i = 0 \<and> (\<forall>j. 1 \<le> j \<and> j < i \<longrightarrow> task k j \<noteq> 0)
     | Inl e \<Rightarrow> e = EAGAIN \<and> (\<forall>j. 1 \<le> j \<and> j < NR_TASKS \<longrightarrow> task k j \<noteq> 0))"
proof -
  obtain n where n: "n \<le> 64" "find_pid k (last_pid k) = Some (nth_pid (last_pid k) (Suc n))"
    "0 < nth_pid (last_pid k) (Suc n)" "nth_pid (last_pid k) (Suc n) \<le> 2147483647"
    "\<not> pid_used k (nth_pid (last_pid k) (Suc n))" "\<And>m. m < n \<Longrightarrow> pid_used k (nth_pid (last_pid k) (Suc m))"
    using find_pid_fresh [OF assms, of k] by blast
  define l where "l = nth_pid (last_pid k) (Suc n)"
  note l = n(1) l_def n(2-6) [folded l_def]
  define k1 where "k1 = k\<lparr>last_pid := l\<rparr>"
  have t: "task k1 = task k" by (simp add: k1_def)
  show ?thesis
  proof (cases "find_slot 1 k1")
    case None
    then have "find_empty_process k = Some (Inl EAGAIN, k1)" using l by (simp add: find_empty_process_def Let_def k1_def)
    moreover have "\<forall>j. 1 \<le> j \<and> j < NR_TASKS \<longrightarrow> task k j \<noteq> 0" using find_slot_None [OF None] t by simp
    ultimately show ?thesis using l unfolding k1_def by (intro exI [of _ "Inl EAGAIN"] exI [of _ l] exI [of _ n]) simp
  next
    case (Some i)
    then have "find_empty_process k = Some (Inr i, k1)" using l by (simp add: find_empty_process_def Let_def k1_def)
    moreover have "1 \<le> i \<and> i < NR_TASKS \<and> task k i = 0 \<and> (\<forall>j. 1 \<le> j \<and> j < i \<longrightarrow> task k j \<noteq> 0)"
      using find_slot_Some [OF Some] t by simp
    ultimately show ?thesis using l unfolding k1_def by (intro exI [of _ "Inr i"] exI [of _ l] exI [of _ n]) simp
  qed
qed

theorem find_empty_process_returns_witness:
  "\<exists>r k'. find_empty_process (kern1\<lparr>last_pid := 2147483647\<rparr>) = Some (r, k') \<and> 0 < last_pid k' \<and> last_pid k' \<le> 65 \<and>
     \<not> pid_used (kern1\<lparr>last_pid := 2147483647\<rparr>) (last_pid k')"
proof -
  let ?k = "kern1\<lparr>last_pid := 2147483647\<rparr>"
  obtain r l n where "find_empty_process ?k = Some (r, ?k\<lparr>last_pid := l\<rparr>)" "n \<le> 64" "l = nth_pid 2147483647 (Suc n)"
    "\<not> pid_used ?k l" "0 < l"
    using find_empty_process_returns [of ?k] by auto
  then show ?thesis by (auto simp: nth_pid_def)
qed

section \<open>The copy\<close>

lemma count_files_simps [simp]:
  "ts (count_files fs k) = ts k" "task (count_files fs k) = task k" "current (count_files fs k) = current k"
  "last_pid (count_files fs k) = last_pid k" "kmm (count_files fs k) = kmm k"
  by (induction fs arbitrary: k) simp_all

lemma count_files_count:
  "f_count (count_files fs k) f = f_count k f + (if f = 0 then 0 else int (count_list fs f))"
  by (induction fs arbitrary: k) auto

lemma count_inode_simps [simp]:
  "ts (count_inode i k) = ts k" "task (count_inode i k) = task k" "current (count_inode i k) = current k"
  "last_pid (count_inode i k) = last_pid k" "kmm (count_inode i k) = kmm k" "f_count (count_inode i k) = f_count k"
  by (simp_all add: count_inode_def)

lemma lift_mm_Inr:
  "lift_mm f k = Inr k' \<Longrightarrow> \<exists>s. f (kmm k) = Inr s \<and> k' = k\<lparr>kmm := s\<rparr>"
  by (auto simp: lift_mm_def split: sum.splits mm_stop.splits)

definition child_based :: "nat \<Rightarrow> task_struct \<Rightarrow> task_struct" where
  "child_based nr t = t\<lparr>start_code := new_base nr,
     ldt := (ldt t)[1 := set_base (ldt t ! 1) (new_base nr), 2 := set_base (ldt t ! 2) (new_base nr)]\<rparr>"

lemma copy_mem_cases:
  assumes "copy_mem nr p k = Inr (e, k')"
  shows "\<exists>s. k' = (upd_ts p (child_based nr) k)\<lparr>kmm := s\<rparr> \<and> (e = Inl ENOMEM \<or> e = Inr 0 \<and>
    copy_page_tables (get_base (ldt (cur k) ! 2)) (new_base nr) (get_limit (ldt (cur k) ! 2)) (kmm k) = Inr (0, s))"
  using assms
  by (auto simp: copy_mem_def Let_def child_based_def [abs_def] sbind_Inr_iff dest!: lift_mm_Inr
      split: if_splits sum.splits mm_stop.splits) (rule exI, rule refl)

text \<open>The state in which \<open>copy_mem\<close> is called.\<close>

definition fork_start :: "nat \<Rightarrow> u32 \<Rightarrow> stack_regs \<Rightarrow> kern \<Rightarrow> kern" where
  "fork_start nr p r k =
     (let c = child_task nr p r k; k = k\<lparr>task := (task k)(nr := p), ts := (ts k)(p := c)\<rparr>
      in if last_task_used_math k = current k
         then upd_ts p (\<lambda>t. t\<lparr>tss := (tss t)\<lparr>i387 := fpu k\<rparr>\<rparr>) (k\<lparr>ts_flag := False\<rparr>) else k)"

definition fork_end :: "(u32 \<Rightarrow> desc_struct) \<Rightarrow> (u32 \<Rightarrow> desc_struct) \<Rightarrow> nat \<Rightarrow> u32 \<Rightarrow> kern \<Rightarrow> kern" where
  "fork_end tss_desc ldt_desc nr p k =
     (let k = count_files (filp (ts k p)) k;
          k = count_inode (pwd (cur k)) k; k = count_inode (root (cur k)) k; k = count_inode (executable (cur k)) k;
          k = k\<lparr>gdt := (gdt k)(2 * nr + FIRST_TSS_ENTRY := tss_desc p, 2 * nr + FIRST_LDT_ENTRY := ldt_desc p)\<rparr>;
          k = fprintk (pid (ts k p)) CHR ''N'' k; k = upd_ts p (\<lambda>t. t\<lparr>state := TASK_RUNNING\<rparr>) k
      in fprintk (pid (ts k p)) CHR ''J'' k)"

lemma copy_process_alt:
  "copy_process td ld nr r k =
     (let (p, s) = get_free_page (kmm k); k = k\<lparr>kmm := s\<rparr> in
      if p = 0 then Inr (Inl EAGAIN, k)
      else sbind (copy_mem nr p (fork_start nr p r k)) (\<lambda>(e, k).
           case e of
             Inl _ \<Rightarrow> sbind (lift_mm (free_page p) (k\<lparr>task := (task k)(nr := 0)\<rparr>)) (\<lambda>k. Inr (Inl EAGAIN, k))
           | Inr _ \<Rightarrow> Inr (Inr (last_pid k), fork_end td ld nr p k)))"
  unfolding copy_process_def fork_start_def fork_end_def Let_def
  by (simp cong: if_cong sum.case_cong prod.case_cong)

lemma fprintk_f_count [simp]: "f_count (fprintk n c k) = f_count k" "f_count (upd_ts p f k) = f_count k"
  by (simp_all add: fprintk_def upd_ts_def)

lemma fork_end_simps [simp]:
  "ts (fork_end td ld nr p k) = (ts k)(p := (ts k p)\<lparr>state := TASK_RUNNING\<rparr>)"
  "task (fork_end td ld nr p k) = task k" "current (fork_end td ld nr p k) = current k" "kmm (fork_end td ld nr p k) = kmm k"
  "f_count (fork_end td ld nr p k) f = f_count k f + (if f = 0 then 0 else int (count_list (filp (ts k p)) f))"
  unfolding fork_end_def Let_def by (simp_all add: fun_eq_iff count_files_count)

lemma fork_start_simps [simp]:
  "q \<noteq> p \<Longrightarrow> ts (fork_start nr p r k) q = ts k q" "task (fork_start nr p r k) = (task k)(nr := p)"
  "current (fork_start nr p r k) = current k" "last_pid (fork_start nr p r k) = last_pid k"
  "kmm (fork_start nr p r k) = kmm k" "f_count (fork_start nr p r k) = f_count k"
  unfolding fork_start_def Let_def by simp_all

text \<open>What the child shares with its parent, and what is its own, field by field: the task structure, then the
  task state segment, whose registers are those on the kernel stack of the parent.\<close>

definition child_regs :: "nat \<Rightarrow> u32 \<Rightarrow> stack_regs \<Rightarrow> kern \<Rightarrow> tss_struct \<Rightarrow> bool" where
  "child_regs nr p r k t \<longleftrightarrow>
     (let t0 = tss (cur k) in
      eax t = 0 \<and> ebx t = r_ebx r \<and> ecx t = r_ecx r \<and> edx t = r_edx r \<and> esi t = r_esi r \<and> edi t = r_edi r \<and>
      ebp t = r_ebp r \<and> esp t = r_esp r \<and> eip t = r_eip r \<and> eflags t = r_eflags r \<and>
      cs_sel t = r_cs r AND 0xffff \<and> ss_sel t = r_ss r AND 0xffff \<and> ds_sel t = r_ds r AND 0xffff \<and>
      es_sel t = r_es r AND 0xffff \<and> fs_sel t = r_fs r AND 0xffff \<and> gs_sel t = r_gs r AND 0xffff \<and>
      back_link t = 0 \<and> esp0 t = p + 4096 \<and> ss0 t = 0x10 \<and> ldt_sel t = LDT_sel nr \<and> trace_bitmap t = 0x80000000 \<and>
      esp1 t = esp1 t0 \<and> ss1 t = ss1 t0 \<and> esp2 t = esp2 t0 \<and> ss2 t = ss2 t0 \<and> cr3 t = cr3 t0 \<and>
      i387 t = (if last_task_used_math k = current k then fpu k else i387 t0))"

definition child_of :: "nat \<Rightarrow> u32 \<Rightarrow> stack_regs \<Rightarrow> kern \<Rightarrow> task_struct \<Rightarrow> bool" where
  "child_of nr p r k c \<longleftrightarrow>
     (let c0 = cur k in
      state c = TASK_RUNNING \<and> pid c = last_pid k \<and> father c = pid c0 \<and> counter c = priority c0 \<and>
      signal c = 0 \<and> alarm c = 0 \<and> leader c = 0 \<and>
      utime c = 0 \<and> stime c = 0 \<and> cutime c = 0 \<and> cstime c = 0 \<and> start_time c = jiffies k \<and>
      priority c = priority c0 \<and> blocked c = blocked c0 \<and> sigactions c = sigactions c0 \<and> exit_code c = exit_code c0 \<and>
      end_code c = end_code c0 \<and> end_data c = end_data c0 \<and> brk c = brk c0 \<and> start_stack c = start_stack c0 \<and>
      pgrp c = pgrp c0 \<and> session c = session c0 \<and> uid c = uid c0 \<and> euid c = euid c0 \<and> suid c = suid c0 \<and>
      gid c = gid c0 \<and> egid c = egid c0 \<and> sgid c = sgid c0 \<and> used_math c = used_math c0 \<and> tty c = tty c0 \<and>
      umask c = umask c0 \<and> close_on_exec c = close_on_exec c0 \<and>
      filp c = filp c0 \<and> pwd c = pwd c0 \<and> root c = root c0 \<and> executable c = executable c0 \<and>
      start_code c = new_base nr \<and> length (ldt c) = 3 \<and> ldt c ! 0 = ldt c0 ! 0 \<and>
      (\<forall>i \<in> {1, 2}. get_base (ldt c ! i) = new_base nr \<and> get_limit (ldt c ! i) = get_limit (ldt c0 ! i) \<and>
         db (ldt c ! i) AND 0xffff00 = db (ldt c0 ! i) AND 0xffff00) \<and>
      child_regs nr p r k (tss c))"

lemma set_base_access: "db (set_base d b) AND 0xffff00 = db d AND 0xffff00"
  unfolding set_base_def desc_masks by (rule bit_eqI) (auto simp: bit_simps)

lemma child_of_start:
  assumes "length (ldt (cur k)) = 3" "current k \<noteq> p"
  shows "child_of nr p r k ((child_based nr (ts (fork_start nr p r k) p))\<lparr>state := TASK_RUNNING\<rparr>)"
proof -
  define x where "x = (if last_task_used_math k = current k then fpu k else i387 (tss (cur k)))"
  have x: "ts (fork_start nr p r k) p = (child_task nr p r k)\<lparr>tss := (tss (child_task nr p r k))\<lparr>i387 := x\<rparr>\<rparr>"
    using assms(2) by (simp add: fork_start_def Let_def x_def child_task_def child_tss_def)
  show ?thesis using assms
    unfolding child_of_def x
    by (simp add: child_based_def child_task_def child_tss_def child_regs_def Let_def get_set_base set_base_limit set_base_access)
      (simp add: x_def)
qed

lemma child_of_kmm: "child_of nr p r (k\<lparr>kmm := s\<rparr>) c = child_of nr p r k c"
  by (simp add: child_of_def child_regs_def)

lemma count_inode_count: "i_count (count_inode a k) i = i_count k i + (if i \<noteq> 0 \<and> i = a then 1 else 0)"
  by (simp add: count_inode_def)

lemma count_files_frame [simp]: "i_count (count_files fs k) = i_count k" "gdt (count_files fs k) = gdt k"
  "process_log (count_files fs k) = process_log k" "jiffies (count_files fs k) = jiffies k"
  by (induction fs arbitrary: k) simp_all

lemma count_inode_frame [simp]: "gdt (count_inode i k) = gdt k" "process_log (count_inode i k) = process_log k"
  "jiffies (count_inode i k) = jiffies k"
  by (simp_all add: count_inode_def)

lemma fork_frame [simp]: "i_count (upd_ts p f k) = i_count k" "gdt (upd_ts p f k) = gdt k"
  "i_count (fprintk n c k) = i_count k" "gdt (fprintk n c k) = gdt k"
  by (simp_all add: upd_ts_def fprintk_def)

lemma fork_start_frame [simp]: "i_count (fork_start nr p r k) = i_count k" "gdt (fork_start nr p r k) = gdt k"
  "process_log (fork_start nr p r k) = process_log k" "jiffies (fork_start nr p r k) = jiffies k"
  by (simp_all add: fork_start_def Let_def)

text \<open>The inode \<open>i\<close> among the three a task holds, counted.\<close>

definition inode_uses :: "task_struct \<Rightarrow> u32 \<Rightarrow> int" where
  "inode_uses t i = (if i = 0 then 0 else int (count_list [pwd t, root t, executable t] i))"

lemma fork_end_more:
  "i_count (fork_end td ld nr p k) i = i_count k i + inode_uses (cur k) i"
  "gdt (fork_end td ld nr p k) = (gdt k)(2 * nr + FIRST_TSS_ENTRY := td p, 2 * nr + FIRST_LDT_ENTRY := ld p)"
  "process_log (fork_end td ld nr p k) = process_log k @
     (if filp (ts k (task k 0)) ! 3 = 0 then [] else [(pid (ts k p), CHR ''N'', jiffies k), (pid (ts k p), CHR ''J'', jiffies k)])"
  unfolding fork_end_def Let_def inode_uses_def
  by (simp_all add: count_inode_count) (simp add: fprintk_def)

text \<open>C6. A \<open>fork\<close> that succeeds: the new task stands in the slot it was given, on a page that was free
  before, and the slot's two descriptors in the GDT are its own. It is a copy of its parent in every field but
  the number, father, state, time slice, signals, alarm, leadership, times and segment base, and it has the
  registers of the parent's call, except that it gets 0 from \<open>fork\<close>. Every file the parent has open has one
  user more for each descriptor, and its directories and its executable one user more each. The log, when it
  is open, gains the lines N and J of the child. No other task changes, and the page tables are those
  \<open>copy_page_tables\<close> made for the new segment. (The parent's own structure is not on a free page, and its LDT
  has three descriptors.)\<close>

theorem copy_process_child:
  assumes "copy_process td ld nr r k = Inr (Inr v, k')" "\<not> page_free (kmm k) (current k)" "length (ldt (cur k)) = 3"
  shows "\<exists>p. page_free (kmm k) p \<and> p \<noteq> 0 \<and> task k' = (task k)(nr := p) \<and> v = last_pid k \<and> child_of nr p r k (ts k' p) \<and>
    (\<forall>q. q \<noteq> p \<longrightarrow> ts k' q = ts k q) \<and>
    (\<forall>f. f_count k' f = f_count k f + (if f = 0 then 0 else int (count_list (filp (cur k)) f))) \<and>
    (\<forall>i. i_count k' i = i_count k i + inode_uses (cur k) i) \<and>
    gdt k' = (gdt k)(2 * nr + FIRST_TSS_ENTRY := td p, 2 * nr + FIRST_LDT_ENTRY := ld p) \<and>
    process_log k' = process_log k @
      (if filp (ts k' (task k' 0)) ! 3 = 0 then [] else [(v, CHR ''N'', jiffies k), (v, CHR ''J'', jiffies k)]) \<and>
    copy_page_tables (get_base (ldt (cur k) ! 2)) (new_base nr) (get_limit (ldt (cur k) ! 2)) (snd (get_free_page (kmm k)))
      = Inr (0, kmm k')"
proof -
  obtain p s where ps: "get_free_page (kmm k) = (p, s)" by force
  define k1 where "k1 = k\<lparr>kmm := s\<rparr>"
  have k1: "current k1 = current k" "ts k1 = ts k" "task k1 = task k" "last_pid k1 = last_pid k" "kmm k1 = s" "f_count k1 = f_count k"
    by (simp_all add: k1_def)
  have nz: "p \<noteq> 0" using assms(1) ps by (auto simp: copy_process_alt)
  have free: "page_free (kmm k) p"
    using ps nz by (cases rule: get_free_page_cases [of "kmm k"]) (auto simp: page_free_def)
  then have cp: "current k \<noteq> p" using assms(2) by auto
  obtain e k2 where cm: "copy_mem nr p (fork_start nr p r k1) = Inr (e, k2)"
    using assms(1) nz unfolding copy_process_alt ps k1_def [symmetric] Let_def prod.case
    by (auto simp: sbind_Inr_iff k1_def)
  then have e: "e = Inr 0"
    using copy_mem_cases [OF cm] assms(1) nz unfolding copy_process_alt ps k1_def [symmetric] Let_def prod.case
    by (auto simp: k1_def sbind_Inr_iff)
  have k2: "v = last_pid k2" "k' = fork_end td ld nr p k2"
    using cm assms(1) nz unfolding copy_process_alt ps k1_def [symmetric] Let_def prod.case e by (simp_all add: k1_def)
  obtain s' where s': "k2 = (upd_ts p (child_based nr) (fork_start nr p r k1))\<lparr>kmm := s'\<rparr>"
    "copy_page_tables (get_base (ldt (cur k) ! 2)) (new_base nr) (get_limit (ldt (cur k) ! 2)) s = Inr (0, s')"
    using copy_mem_cases [OF cm] cp e by (auto simp: k1)
  have t2: "ts k2 p = child_based nr (ts (fork_start nr p r k1) p)" "\<And>q. q \<noteq> p \<Longrightarrow> ts k2 q = ts k q"
    by (simp_all add: s' k1)
  have "child_of nr p r k1 ((ts k2 p)\<lparr>state := TASK_RUNNING\<rparr>)"
    unfolding t2(1) by (rule child_of_start) (simp_all add: k1 assms cp)
  then have c: "child_of nr p r k (ts k' p)" unfolding k1_def child_of_kmm k2(2) by simp
  have pidc: "pid (ts k2 p) = last_pid k2"
    using c k2(2) by (simp add: child_of_def Let_def s' k1)
  have more: "i_count k2 = i_count k" "gdt k2 = gdt k" "process_log k2 = process_log k" "jiffies k2 = jiffies k"
    "cur k2 = cur k" using cp by (simp_all add: s' k1_def)
  have fl: "filp (ts k' (task k' 0)) = filp (ts k2 (task k2 0))" by (simp add: k2(2))
  from c have "filp (ts k' p) = filp (cur k)" by (simp add: child_of_def Let_def)
  then have f: "filp (ts k2 p) = filp (cur k)" by (simp add: k2(2))
  show ?thesis
  proof (intro exI [of _ p] conjI)
    show "child_of nr p r k (ts k' p)" by (rule c)
    show "\<forall>i. i_count k' i = i_count k i + inode_uses (cur k) i"
      "gdt k' = (gdt k)(2 * nr + FIRST_TSS_ENTRY := td p, 2 * nr + FIRST_LDT_ENTRY := ld p)"
      unfolding k2(2) fork_end_more more by simp_all
    show "process_log k' = process_log k @
      (if filp (ts k' (task k' 0)) ! 3 = 0 then [] else [(v, CHR ''N'', jiffies k), (v, CHR ''J'', jiffies k)])"
      unfolding fl unfolding k2 fork_end_more(3) more pidc ..
  qed (use free nz t2(2) s' ps f in \<open>simp_all add: k2 k1\<close>)
qed

text \<open>A \<open>fork\<close> that fails says EAGAIN, whatever was missing, and leaves the task table as it was when the
  slot it was given was free; no task but the one on the page that was taken and given back changes.\<close>

theorem copy_process_fails:
  assumes "copy_process td ld nr r k = Inr (Inl e, k')" "task k nr = 0"
  shows "e = EAGAIN \<and> task k' = task k \<and> current k' = current k \<and> f_count k' = f_count k \<and>
    (\<forall>q. \<not> page_free (kmm k) q \<longrightarrow> ts k' q = ts k q)"
proof -
  obtain p s where ps: "get_free_page (kmm k) = (p, s)" by force
  define k1 where "k1 = k\<lparr>kmm := s\<rparr>"
  have k1: "current k1 = current k" "ts k1 = ts k" "task k1 = task k" "last_pid k1 = last_pid k" "kmm k1 = s" "f_count k1 = f_count k"
    by (simp_all add: k1_def)
  have slot: "(task k)(nr := 0) = task k" using assms(2) by auto
  show ?thesis
  proof (cases "p = 0")
    case True
    then show ?thesis using assms(1) ps by (auto simp: copy_process_alt)
  next
    case False
    have free: "page_free (kmm k) p"
      using ps False by (cases rule: get_free_page_cases [of "kmm k"]) (auto simp: page_free_def)
    obtain e' k2 where cm: "copy_mem nr p (fork_start nr p r k1) = Inr (e', k2)"
      using assms(1) False unfolding copy_process_alt ps k1_def [symmetric] Let_def prod.case
      by (auto simp: sbind_Inr_iff k1_def)
    then obtain x where x: "e' = Inl x"
      using assms(1) False unfolding copy_process_alt ps k1_def [symmetric] Let_def prod.case
      by (cases e') (simp_all add: k1_def)
    obtain s2 where k2: "k' = (k2\<lparr>task := (task k2)(nr := 0)\<rparr>)\<lparr>kmm := s2\<rparr>" "e = EAGAIN"
      using assms(1) False cm unfolding copy_process_alt ps k1_def [symmetric] Let_def prod.case x
      by (auto simp: sbind_Inr_iff k1_def dest!: lift_mm_Inr)
    obtain s' where s': "k2 = (upd_ts p (child_based nr) (fork_start nr p r k1))\<lparr>kmm := s'\<rparr>"
      using copy_mem_cases [OF cm] by blast
    have "\<not> page_free (kmm k) q \<Longrightarrow> ts k2 q = ts k q" for q using free by (auto simp: s' k1)
    then show ?thesis by (simp add: k2 s' k1 slot)
  qed
qed

section \<open>Concrete forks\<close>

definition regs0 :: stack_regs where
  "regs0 = \<lparr>r_ebp = 1, r_edi = 2, r_esi = 3, r_gs = 0x17, r_ebx = 4, r_ecx = 5, r_edx = 6, r_fs = 0x17, r_es = 0x17, r_ds = 0x17,
     r_eip = 0x1000, r_cs = 0xf, r_eflags = 0x202, r_esp = 0x3fff000, r_ss = 0x17\<rparr>"

lemma kmm_kern1: "kmm kern1 = mm_start"
  by (simp add: kern1_def mm_start_def)

lemma copy_mem_kern1:
  assumes "kmm k = snd (get_free_page mm_start)" "ldt (cur k) = ldt (some_task 0 TASK_RUNNING 0)"
  shows "\<exists>k'. copy_mem 3 p k = Inr (Inr 0, k')"
proof -
  have l: "get_base (ldt (cur k) ! 1) = 0" "get_base (ldt (cur k) ! 2) = 0"
    "get_limit (ldt (cur k) ! 1) = 0xA0000" "get_limit (ldt (cur k) ! 2) = 0xA0000"
    unfolding assms(2) by (simp_all add: some_task_def INIT_TASK_def get_base_def get_limit_def Let_def)
  have z: "mem (snd (get_free_page mm_start)) a = 0" for a
    unfolding get_free_page_start by (simp add: clear_page_def) (simp add: mm_start_def)
  have "copy_page_tables 0 (new_base 3) 0xA0000 (kmm k) = Inr (0, kmm k)"
    unfolding assms(1) by (simp add: copy_page_tables_def new_base_def z)
  then show ?thesis unfolding copy_mem_def Let_def l by simp
qed

theorem copy_process_child_witness:
  "\<exists>k' p. copy_process (\<lambda>_. \<lparr>da = 0, db = 0\<rparr>) (\<lambda>_. \<lparr>da = 0, db = 0\<rparr>) 3 regs0 kern1 = Inr (Inr 2, k') \<and>
     task k' 3 = p \<and> p \<noteq> 0 \<and> eax (tss (ts k' p)) = 0 \<and> eip (tss (ts k' p)) = 0x1000 \<and> edi (tss (ts k' p)) = 2 \<and> father (ts k' p) = 2 \<and>
     get_base (ldt (ts k' p) ! 1) = 0xC000000"
proof -
  let ?d = "\<lambda>_. \<lparr>da = 0, db = 0\<rparr>"
  define k1 where "k1 = fork_start 3 (page_addr 99) regs0 (kern1\<lparr>kmm := snd (get_free_page mm_start)\<rparr>)"
  have cp: "(0x201000 :: u32) \<noteq> page_addr 99" by (simp add: word_unat_eq_iff unat_page_addr)
  have "kmm k1 = snd (get_free_page mm_start)" "cur k1 = some_task 2 TASK_RUNNING 0"
    unfolding k1_def using cp by simp_all
  then obtain k2 where "copy_mem 3 (page_addr 99) k1 = Inr (Inr 0, k2)"
    using copy_mem_kern1 [of k1] by (auto simp: some_task_def)
  then have "\<exists>v k'. copy_process ?d ?d 3 regs0 kern1 = Inr (Inr v, k')"
    by (simp add: copy_process_alt kmm_kern1 Let_def k1_def get_free_page_start)
  then obtain v k' where k': "copy_process ?d ?d 3 regs0 kern1 = Inr (Inr v, k')" by blast
  have "\<not> page_free (kmm kern1) (current kern1)"
  proof
    assume "page_free (kmm kern1) (current kern1)"
    then obtain i where i: "i < 3840" "page_addr i = 0x201000" "mem_map mm_start i = 0"
      by (auto simp: page_free_def kmm_kern1)
    then have "unat (page_addr i) = 2101248" by simp
    moreover have "i < 100" using i(3) by (auto simp: mm_start_def USED_def split: if_splits)
    ultimately show False by (simp add: unat_page_addr [OF i(1)] del: i(2))
  qed
  moreover have "length (ldt (cur kern1)) = 3" by (simp add: some_task_def INIT_TASK_def)
  ultimately obtain p where p: "p \<noteq> 0" "task k' = (task kern1)(3 := p)" "v = last_pid kern1" "child_of 3 p regs0 kern1 (ts k' p)"
    using copy_process_child [OF k'] by blast
  have "eax (tss (ts k' p)) = 0" "eip (tss (ts k' p)) = 0x1000" "edi (tss (ts k' p)) = 2" "father (ts k' p) = 2"
    "get_base (ldt (ts k' p) ! 1) = 0xC000000"
    using p(4) by (simp_all add: child_of_def child_regs_def Let_def regs0_def new_base_def some_task_def)
  moreover have "v = 2" "task k' 3 = p" using p(2,3) by (simp_all add: kern1_def)
  ultimately show ?thesis using k' p(1) by blast
qed

theorem copy_process_fails_witness:
  "\<exists>k k'. copy_process (\<lambda>_. \<lparr>da = 0, db = 0\<rparr>) (\<lambda>_. \<lparr>da = 0, db = 0\<rparr>) 3 regs0 k = Inr (Inl EAGAIN, k') \<and>
     task k 1 = 0x200000 \<and> task k' = task k"
proof -
  define k where "k = kern1\<lparr>kmm := mm_start\<lparr>mem_map := \<lambda>_. USED\<rparr>\<rparr>"
  have "get_free_page (kmm k) = (0, kmm k)"
    by (cases rule: get_free_page_cases [of "kmm k"]) (simp_all add: k_def USED_def)
  then have f: "copy_process (\<lambda>_. \<lparr>da = 0, db = 0\<rparr>) (\<lambda>_. \<lparr>da = 0, db = 0\<rparr>) 3 regs0 k = Inr (Inl EAGAIN, k)"
    by (simp add: copy_process_alt Let_def)
  have "task k 3 = 0" "task k 1 = 0x200000" by (simp_all add: k_def)
  with copy_process_fails [OF f] f show ?thesis by blast
qed

end
