(* ===== verification/Exit.thy ===== *)
theory Exit imports Forkprops begin

text \<open>
  \<open>kernel/exit.c\<close> of Lab 3: signals to other tasks, the end of a task, and waiting for a child. A task that
  ends stays in the table as a zombie until its father waits for it; its children go to task 1.

  \<open>sys_close\<close> and \<open>iput\<close> are functions of the file system, which is not part of the repository: they are
  the parameters \<open>close_fd\<close> and \<open>iput\<close>.
\<close>

unbundle bit_operations_syntax

section \<open>release\<close>

fun find_task :: "nat \<Rightarrow> nat \<Rightarrow> u32 \<Rightarrow> kern \<Rightarrow> nat option" where
  "find_task 0 i p k = None"
| "find_task (Suc n) i p k = (if task k i = p then Some i else find_task n (Suc i) p k)"

text \<open>\<open>fr\<close> is what the caller has left to do when \<open>release\<close> comes back from \<open>schedule\<close>.\<close>

definition release :: "frame \<Rightarrow> u32 \<Rightarrow> kern \<Rightarrow> kstop + kern" where
  "release fr p k =
     (if p = 0 then Inr k
      else case find_task (NR_TASKS - 1) 1 p k of
        None \<Rightarrow> Inl (KPanic ''trying to release non-existent task'')
      | Some i \<Rightarrow> sbind (lift_mm (free_page p) (k\<lparr>task := (task k)(i := 0)\<rparr>)) (\<lambda>k. schedule_k (push_frame fr k)))"

section \<open>Signals\<close>

abbreviation suser :: "kern \<Rightarrow> bool" where
  "suser k \<equiv> euid (cur k) = 0"

definition send_sig :: "int \<Rightarrow> u32 \<Rightarrow> bool \<Rightarrow> kern \<Rightarrow> (errno + int) \<times> kern" where
  "send_sig sig p priv k =
     (if p = 0 \<or> sig < 1 \<or> sig > 32 then (Inl EINVAL, k)
      else if priv \<or> euid (cur k) = euid (ts k p) \<or> suser k
      then (Inr 0, upd_ts p (\<lambda>t. t\<lparr>signal := signal t OR S_bit sig\<rparr>) k)
      else (Inl EPERM, k))"

definition kill_session :: "kern \<Rightarrow> kern" where
  "kill_session = for_slots (NR_TASKS - 1) (\<lambda>p k.
     if session (ts k p) = session (cur k) then upd_ts p (\<lambda>t. t\<lparr>signal := signal t OR S_bit SIGHUP\<rparr>) k else k)"

text \<open>The loops of \<open>sys_kill\<close> over the slots \<open>n\<close>, ..., 1; an error replaces the result so far.\<close>

fun kill_loop :: "nat \<Rightarrow> (u32 \<Rightarrow> kern \<Rightarrow> bool) \<Rightarrow> int \<Rightarrow> bool \<Rightarrow> errno + int \<Rightarrow> kern \<Rightarrow> (errno + int) \<times> kern" where
  "kill_loop 0 sel sig priv retval k = (retval, k)"
| "kill_loop (Suc n) sel sig priv retval k =
     (if sel (task k (Suc n)) k then
        (case send_sig sig (task k (Suc n)) priv k of
           (Inl e, k) \<Rightarrow> kill_loop n sel sig priv (Inl e) k
         | (Inr _, k) \<Rightarrow> kill_loop n sel sig priv retval k)
      else kill_loop n sel sig priv retval k)"

definition sys_kill :: "int \<Rightarrow> int \<Rightarrow> kern \<Rightarrow> (errno + int) \<times> kern" where
  "sys_kill n sig k =
     (if n = 0 then
        kill_loop (NR_TASKS - 1) (\<lambda>p k. p \<noteq> 0 \<and> pgrp (ts k p) = pid (cur k)) sig True (Inr 0) k
      else if n > 0 then kill_loop (NR_TASKS - 1) (\<lambda>p k. p \<noteq> 0 \<and> pid (ts k p) = n) sig False (Inr 0) k
      else if n = - 1 then kill_loop (NR_TASKS - 1) (\<lambda>p k. True) sig False (Inr 0) k
      else kill_loop (NR_TASKS - 1) (\<lambda>p k. p \<noteq> 0 \<and> pgrp (ts k p) = s32 (- n)) sig False (Inr 0) k)"

section \<open>exit\<close>

fun find_pid_slot :: "nat \<Rightarrow> nat \<Rightarrow> int \<Rightarrow> kern \<Rightarrow> nat option" where
  "find_pid_slot 0 i n k = None"
| "find_pid_slot (Suc m) i n k =
     (if task k i \<noteq> 0 \<and> pid (ts k (task k i)) = n then Some i else find_pid_slot m (Suc i) n k)"

text \<open>\<open>True\<close> when no father was found: the task has released itself and \<open>schedule\<close> has left it.\<close>

definition tell_father :: "int \<Rightarrow> kern \<Rightarrow> kstop + bool \<times> kern" where
  "tell_father n k =
     (case (if n \<noteq> 0 then find_pid_slot NR_TASKS 0 n k else None) of
        Some i \<Rightarrow> Inr (False, upd_ts (task k i) (\<lambda>t. t\<lparr>signal := signal t OR S_bit SIGCHLD\<rparr>) k)
      | None \<Rightarrow> sbind (release FExit (current k) k) (\<lambda>k. Inr (True, k)))"

fun reparent :: "nat \<Rightarrow> nat \<Rightarrow> kern \<Rightarrow> kern" where
  "reparent 0 i k = k"
| "reparent (Suc n) i k =
     (let p = task k i in
      if p \<noteq> 0 \<and> father (ts k p) = pid (cur k) then
        (let k = upd_ts p (\<lambda>t. t\<lparr>father := 1\<rparr>) k;
             k = (if state (ts k p) = TASK_ZOMBIE then snd (send_sig SIGCHLD (task k 1) True k) else k)
         in reparent n (Suc i) k)
      else reparent n (Suc i) k)"

fun close_files :: "(nat \<Rightarrow> kern \<Rightarrow> kern) \<Rightarrow> nat \<Rightarrow> nat \<Rightarrow> kern \<Rightarrow> kern" where
  "close_files close_fd 0 i k = k"
| "close_files close_fd (Suc n) i k =
     close_files close_fd n (Suc i) (if filp (cur k) ! i \<noteq> 0 then close_fd i k else k)"

definition exit_files :: "(nat \<Rightarrow> kern \<Rightarrow> kern) \<Rightarrow> (u32 \<Rightarrow> kern \<Rightarrow> kern) \<Rightarrow> kern \<Rightarrow> kern" where
  "exit_files close_fd iput k =
     (let k = close_files close_fd NR_OPEN 0 k;
          k = iput (pwd (cur k)) k; k = upd_ts (current k) (\<lambda>t. t\<lparr>pwd := 0\<rparr>) k;
          k = iput (root (cur k)) k; k = upd_ts (current k) (\<lambda>t. t\<lparr>root := 0\<rparr>) k;
          k = iput (executable (cur k)) k
      in upd_ts (current k) (\<lambda>t. t\<lparr>executable := 0\<rparr>) k)"

definition exit_zombie :: "int \<Rightarrow> kern \<Rightarrow> kern" where
  "exit_zombie code k =
     (let k = (if leader (cur k) \<noteq> 0 \<and> tty (cur k) \<ge> 0 then k\<lparr>tty_pgrp := (tty_pgrp k)(tty (cur k) := 0)\<rparr> else k);
          k = (if last_task_used_math k = current k then k\<lparr>last_task_used_math := 0\<rparr> else k);
          k = (if leader (cur k) \<noteq> 0 then kill_session k else k);
          k = upd_ts (current k) (\<lambda>t. t\<lparr>state := TASK_ZOMBIE\<rparr>) k;
          k = fprintk (pid (cur k)) CHR ''E'' k
      in upd_ts (current k) (\<lambda>t. t\<lparr>exit_code := code\<rparr>) k)"

definition do_exit :: "(nat \<Rightarrow> kern \<Rightarrow> kern) \<Rightarrow> (u32 \<Rightarrow> kern \<Rightarrow> kern) \<Rightarrow> int \<Rightarrow> kern \<Rightarrow> kstop + kern" where
  "do_exit close_fd iput code k =
     sbind (lift_mm (free_page_tables (get_base (ldt (cur k) ! 1)) (get_limit (ldt (cur k) ! 1))) k) (\<lambda>k.
     sbind (lift_mm (free_page_tables (get_base (ldt (cur k) ! 2)) (get_limit (ldt (cur k) ! 2))) k) (\<lambda>k.
       let k = reparent NR_TASKS 0 k;
           k = exit_files close_fd iput k;
           k = exit_zombie code k
       in sbind (tell_father (father (cur k)) k) (\<lambda>(gone, k).
            if gone then Inr k else schedule_k (push_frame FExit k))))"

definition sys_exit :: "(nat \<Rightarrow> kern \<Rightarrow> kern) \<Rightarrow> (u32 \<Rightarrow> kern \<Rightarrow> kern) \<Rightarrow> int \<Rightarrow> kern \<Rightarrow> kstop + kern" where
  "sys_exit close_fd iput error_code k = do_exit close_fd iput (push_bit 8 (error_code AND 0xff)) k"

section \<open>waitpid\<close>

text \<open>The options of \<open>sys/wait.h\<close>, which is not part of the repository.\<close>

definition WNOHANG :: int where "WNOHANG = 1"
definition WUNTRACED :: int where "WUNTRACED = 2"

definition put_fs_long :: "int \<Rightarrow> u32 \<Rightarrow> kern \<Rightarrow> kern" where
  "put_fs_long v a k = k\<lparr>user_mem := (user_mem k)(get_base (ldt (cur k) ! 2) + a := of_int v)\<rparr>"

definition wanted :: "int \<Rightarrow> u32 \<Rightarrow> kern \<Rightarrow> bool" where
  "wanted n p k \<longleftrightarrow> p \<noteq> 0 \<and> p \<noteq> current k \<and> father (ts k p) = pid (cur k) \<and>
     (if n > 0 then pid (ts k p) = n
      else if n = 0 then pgrp (ts k p) = pgrp (cur k)
      else n = - 1 \<or> pgrp (ts k p) = s32 (- n))"

text \<open>The scan of the children over the slots \<open>n\<close>, ..., 1: it ends at a stopped child when those are asked
  for, at a zombie, or at the end of the table with \<open>flag\<close>.\<close>

datatype wait_scan = WStopped u32 | WZombie u32 | WEnd bool

fun wait_loop :: "nat \<Rightarrow> int \<Rightarrow> int \<Rightarrow> bool \<Rightarrow> kern \<Rightarrow> wait_scan" where
  "wait_loop 0 n options flag k = WEnd flag"
| "wait_loop (Suc m) n options flag k =
     (let p = task k (Suc m) in
      if \<not> wanted n p k then wait_loop m n options flag k
      else case state (ts k p) of
        TASK_STOPPED \<Rightarrow> if options AND WUNTRACED = 0 then wait_loop m n options flag k else WStopped p
      | TASK_ZOMBIE \<Rightarrow> WZombie p
      | _ \<Rightarrow> wait_loop m n options True k)"

text \<open>From \<open>repeat\<close> on. \<open>None\<close>: the task has given up the processor, and the rest is the frame it left.\<close>

definition wait_repeat :: "int \<Rightarrow> u32 \<Rightarrow> int \<Rightarrow> kern \<Rightarrow> kstop + (errno + int) option \<times> kern" where
  "wait_repeat n stat_addr options k =
     (case wait_loop (NR_TASKS - 1) n options False k of
        WStopped p \<Rightarrow> Inr (Some (Inr (pid (ts k p))), put_fs_long 0x7f stat_addr k)
      | WZombie p \<Rightarrow>
          let k = upd_ts (current k) (\<lambda>t. t\<lparr>cutime := s32 (cutime t + utime (ts k p)), cstime := s32 (cstime t + stime (ts k p))\<rparr>) k
          in sbind (release (FWaitRelease (pid (ts k p)) (exit_code (ts k p)) stat_addr) p k) (\<lambda>k. Inr (None, k))
      | WEnd flag \<Rightarrow>
          if flag then
            if options AND WNOHANG \<noteq> 0 then Inr (Some (Inr 0), k)
            else let k = upd_ts (current k) (\<lambda>t. t\<lparr>state := TASK_INTERRUPTIBLE\<rparr>) k;
                     k = fprintk (pid (cur k)) CHR ''W'' k
                 in sbind (schedule_k (push_frame (FWaitSleep n stat_addr options) k)) (\<lambda>k. Inr (None, k))
          else Inr (Some (Inl ECHILD), k))"

definition sys_waitpid :: "int \<Rightarrow> u32 \<Rightarrow> int \<Rightarrow> kern \<Rightarrow> kstop + (errno + int) option \<times> kern" where
  "sys_waitpid n stat_addr options k = sbind (verify_area stat_addr 4 k) (wait_repeat n stat_addr options)"

text \<open>After \<open>schedule\<close>, in the two places where the task leaves the processor.\<close>

definition wait_back :: "int \<Rightarrow> u32 \<Rightarrow> int \<Rightarrow> kern \<Rightarrow> kstop + (errno + int) option \<times> kern" where
  "wait_back n stat_addr options k =
     (let k = upd_ts (current k) (\<lambda>t. t\<lparr>signal := signal t AND NOT (S_bit SIGCHLD)\<rparr>) k in
      if signal (cur k) = 0 then wait_repeat n stat_addr options k else Inr (Some (Inl EINTR), k))"

definition wait_release_back :: "int \<Rightarrow> int \<Rightarrow> u32 \<Rightarrow> kern \<Rightarrow> (errno + int) \<times> kern" where
  "wait_release_back flag code stat_addr k = (Inr flag, put_fs_long code stat_addr k)"

section \<open>What schedule leaves alone\<close>

definition sched_change :: "task_struct \<Rightarrow> task_struct \<Rightarrow> bool" where
  "sched_change t t' \<longleftrightarrow>
     t' = t\<lparr>counter := counter t', signal := signal t', alarm := alarm t', state := state t'\<rparr> \<and>
     (\<forall>n. bit (signal t) n \<longrightarrow> bit (signal t') n) \<and>
     (state t' = state t \<or> state t' = TASK_RUNNING \<and> state t = TASK_INTERRUPTIBLE)"

lemma sched_change_refl: "sched_change t t"
  by (cases t) (simp add: sched_change_def)

lemma sched_change_check: "sched_change t (after_check j t)"
  by (cases t) (simp add: sched_change_def after_check_def after_alarm_def Let_def bit_or_iff)

lemma sched_change_recharge: "sched_change t t' \<Longrightarrow> sched_change t (recharge_task t')"
  by (cases t; cases t') (auto simp: sched_change_def recharge_task_def)

lemma sched_changeD:
  assumes "sched_change t t'"
  shows "father t' = father t" "pid t' = pid t" "exit_code t' = exit_code t" "pgrp t' = pgrp t" "ldt t' = ldt t"
    "utime t' = utime t" "stime t' = stime t" "cutime t' = cutime t" "cstime t' = cstime t" "session t' = session t"
    "euid t' = euid t" "uid t' = uid t" "filp t' = filp t"
    "state t = TASK_ZOMBIE \<Longrightarrow> state t' = TASK_ZOMBIE" "bit (signal t) n \<Longrightarrow> bit (signal t') n"
    "state t' = TASK_ZOMBIE \<Longrightarrow> state t = TASK_ZOMBIE"
  using assms by (cases t; cases t'; auto simp: sched_change_def)+

lemma schedule_change:
  assumes "sched_wf k" "schedule k = Some k'"
  shows "sched_change (ts k t) (ts k' t)" "kmm k' = kmm k" "jiffies k' = jiffies k"
    "current k' = task k 0 \<or> state (ts k' (current k')) = TASK_RUNNING"
proof -
  obtain n k2 k'' where s: "schedule k = Some k''" "best k2 n" "current k'' = task k n" "ts k'' = ts k2"
    "kmm k'' = kmm k" "jiffies k'' = jiffies k" "task k2 = task k"
    "k2 = (if (\<exists>i \<in> {1..63}. runnable (check_signals k) i) \<and>
              (\<forall>i \<in> {1..63}. runnable (check_signals k) i \<longrightarrow> slice (check_signals k) i = 0)
           then recharge (check_signals k) else check_signals k)"
    by (rule schedule_wf [OF assms(1)])
  have d: "tasks_distinct k" "tasks_distinct (check_signals k)"
    using assms sched_wf_check_signals [OF assms(1)] by (simp_all add: sched_wf_def)
  have e: "k'' = k'" using s(1) assms(2) by simp
  have "sched_change (ts k t) (ts (check_signals k) t)"
    by (simp add: check_signals_ts [OF d(1)] sched_change_check sched_change_refl)
  then show "sched_change (ts k t) (ts k' t)"
    unfolding e [symmetric] s(4) s(8) by (simp add: recharge_ts [OF d(2)] sched_change_recharge)
  show "kmm k' = kmm k" "jiffies k' = jiffies k" using s e by simp_all
  show "current k' = task k 0 \<or> state (ts k' (current k')) = TASK_RUNNING"
    using s(2,3,4,7) e by (auto simp: best_def runnable_def)
qed

lemma schedule_kE:
  assumes "schedule_k k = Inr k'" "sched_wf k"
  shows "schedule k = Some k'" "sched_wf k'" "task k' = task k" "kframes k' = kframes k"
  using assms schedule_keeps [OF assms(2)] by (auto simp: schedule_k_def split: option.splits)

section \<open>Signals\<close>

lemma send_sig_simps [simp]:
  "task (snd (send_sig sig p priv k)) = task k" "current (snd (send_sig sig p priv k)) = current k"
  "kmm (snd (send_sig sig p priv k)) = kmm k" "kframes (snd (send_sig sig p priv k)) = kframes k"
  by (simp_all add: send_sig_def)

text \<open>A task is out of reach of a caller who neither is the superuser nor has its user id.\<close>

definition may_signal :: "kern \<Rightarrow> u32 \<Rightarrow> bool" where
  "may_signal k p \<longleftrightarrow> euid (cur k) = euid (ts k p) \<or> suser k"

lemma may_signal_cong:
  "current k' = current k \<Longrightarrow> (\<And>p. euid (ts k' p) = euid (ts k p)) \<Longrightarrow> may_signal k' p = may_signal k p"
  by (simp add: may_signal_def)

definition sig_ok :: "int \<Rightarrow> bool" where "sig_ok sig \<longleftrightarrow> 1 \<le> sig \<and> sig \<le> 32"

lemma send_sig_alt:
  "send_sig sig p priv k =
     (if p \<noteq> 0 \<and> sig_ok sig \<and> (priv \<or> may_signal k p)
      then (Inr 0, upd_ts p (\<lambda>t. t\<lparr>signal := signal t OR S_bit sig\<rparr>) k)
      else (Inl (if p = 0 \<or> \<not> sig_ok sig then EINVAL else EPERM), k))"
  by (auto simp: send_sig_def sig_ok_def may_signal_def)

lemma send_sig_ts:
  "\<exists>sg. ts (snd (send_sig sig p priv k)) q = (ts k q)\<lparr>signal := signal (ts k q) OR sg\<rparr>"
proof (cases "q = p \<and> p \<noteq> 0 \<and> sig_ok sig \<and> (priv \<or> may_signal k p)")
  case True
  then show ?thesis by (intro exI [of _ "S_bit sig"]) (simp add: send_sig_alt)
next
  case False
  then show ?thesis by (intro exI [of _ 0]) (auto simp: send_sig_alt)
qed

text \<open>\<open>sel\<close> looks only at fields that no signal changes.\<close>

definition sel_stable :: "(u32 \<Rightarrow> kern \<Rightarrow> bool) \<Rightarrow> bool" where
  "sel_stable sel \<longleftrightarrow> (\<forall>p q k f. sel p (upd_ts q (\<lambda>t. t\<lparr>signal := f t\<rparr>) k) = sel p k)"

definition hit :: "nat \<Rightarrow> (u32 \<Rightarrow> kern \<Rightarrow> bool) \<Rightarrow> kern \<Rightarrow> u32 \<Rightarrow> bool" where
  "hit n sel k p \<longleftrightarrow> in_slots n k p \<and> sel p k"

definition kill_ok :: "int \<Rightarrow> bool \<Rightarrow> kern \<Rightarrow> u32 \<Rightarrow> bool" where
  "kill_ok sig priv k p \<longleftrightarrow> p \<noteq> 0 \<and> sig_ok sig \<and> (priv \<or> may_signal k p)"

lemma kill_ok_nz: "kill_ok sig priv k p \<Longrightarrow> p \<noteq> 0"
  by (simp add: kill_ok_def)

lemma kill_loop_spec:
  assumes "sel_stable sel" "kill_loop n sel sig priv r k = (r', k')"
  shows "task k' = task k \<and> current k' = current k \<and>
    (\<forall>p. ts k' p = (if hit n sel k p \<and> kill_ok sig priv k p
                then (ts k p)\<lparr>signal := signal (ts k p) OR S_bit sig\<rparr> else ts k p)) \<and>
    (r' = r \<or> r' = Inl EINVAL \<or> r' = Inl EPERM) \<and>
    (\<forall>v. r' = Inr v \<longleftrightarrow> r = Inr v \<and> (\<forall>i \<in> {1..n}. sel (task k i) k \<longrightarrow> kill_ok sig priv k (task k i)))"
  using assms(2)
proof (induction n arbitrary: r k)
  case 0
  then show ?case by (auto simp: hit_def in_slots_def)
next
  case (Suc n)
  let ?p = "task k (Suc n)"
  define k1 where "k1 = (if sel ?p k \<and> kill_ok sig priv k ?p then upd_ts ?p (\<lambda>t. t\<lparr>signal := signal t OR S_bit sig\<rparr>) k else k)"
  define r1 where "r1 = (if sel ?p k \<and> \<not> kill_ok sig priv k ?p then Inl (if ?p = 0 \<or> \<not> sig_ok sig then EINVAL else EPERM) else r)"
  have step: "kill_loop (Suc n) sel sig priv r k = kill_loop n sel sig priv r1 k1"
    by (simp add: send_sig_alt k1_def r1_def kill_ok_def)
  have k1: "task k1 = task k" "current k1 = current k" by (simp_all add: k1_def)
  have sel: "sel q k1 = sel q k" for q using assms(1) unfolding sel_stable_def k1_def by simp
  have ok: "kill_ok sig priv k1 q = kill_ok sig priv k q" for q
    unfolding kill_ok_def by (subst may_signal_cong [of k1 k]) (simp_all add: k1, simp add: k1_def)
  have hit: "hit n sel k1 q = hit n sel k q" for q by (simp add: hit_def in_slots_def k1 sel)
  have S: "{1..Suc n} = insert (Suc n) {1..n}" by auto
  note IH = Suc.IH [OF Suc.prems [unfolded step]]
  show ?case
  proof (intro conjI allI)
    show "task k' = task k" "current k' = current k" using IH k1 by simp_all
  next
    fix p
    have "ts k' p = (if hit n sel k p \<and> kill_ok sig priv k p
                then (ts k1 p)\<lparr>signal := signal (ts k1 p) OR S_bit sig\<rparr> else ts k1 p)"
      using IH unfolding hit ok by blast
    moreover have "ts k1 p = (if p = ?p \<and> sel p k \<and> kill_ok sig priv k p
        then (ts k p)\<lparr>signal := signal (ts k p) OR S_bit sig\<rparr> else ts k p)" by (auto simp: k1_def)
    moreover have "hit (Suc n) sel k p \<longleftrightarrow> p \<noteq> 0 \<and> p = ?p \<and> sel p k \<or> hit n sel k p" by (auto simp: hit_def in_slots_Suc)
    moreover have "kill_ok sig priv k p \<Longrightarrow> p \<noteq> 0" by (rule kill_ok_nz)
    moreover have "hit n sel k p \<Longrightarrow> sel p k" by (simp add: hit_def)
    ultimately show "ts k' p = (if hit (Suc n) sel k p \<and> kill_ok sig priv k p
                then (ts k p)\<lparr>signal := signal (ts k p) OR S_bit sig\<rparr> else ts k p)"
      by (cases "kill_ok sig priv k p"; cases "sel p k"; cases "p = ?p"; cases "hit n sel k p"; simp add: or.assoc)
  next
    have "r1 = r \<or> r1 = Inl EINVAL \<or> r1 = Inl EPERM" by (auto simp: r1_def)
    then show "r' = r \<or> r' = Inl EINVAL \<or> r' = Inl EPERM" using IH by metis
  next
    fix v
    have "r' = Inr v \<longleftrightarrow> r1 = Inr v \<and> (\<forall>i \<in> {1..n}. sel (task k i) k \<longrightarrow> kill_ok sig priv k (task k i))"
      using IH unfolding k1 sel ok by blast
    moreover have "r1 = Inr v \<longleftrightarrow> r = Inr v \<and> (sel ?p k \<longrightarrow> kill_ok sig priv k ?p)" by (simp add: r1_def)
    ultimately show "r' = Inr v \<longleftrightarrow> r = Inr v \<and> (\<forall>i \<in> {1..Suc n}. sel (task k i) k \<longrightarrow> kill_ok sig priv k (task k i))"
      unfolding S by auto
  qed
qed

lemma kill_loop_none:
  "m \<le> n \<Longrightarrow> \<forall>i \<in> {m<..n}. \<not> sel (task k i) k \<Longrightarrow> kill_loop n sel sig priv r k = kill_loop m sel sig priv r k"
proof (induction n)
  case (Suc n)
  then show ?case by (cases "m = Suc n") simp_all
qed simp

text \<open>Which tasks \<open>sys_kill\<close> picks, and whether it asks for permission.\<close>

definition kill_sel :: "int \<Rightarrow> u32 \<Rightarrow> kern \<Rightarrow> bool" where
  "kill_sel n p k \<longleftrightarrow>
     (if n = 0 then p \<noteq> 0 \<and> pgrp (ts k p) = pid (cur k)
      else if n > 0 then p \<noteq> 0 \<and> pid (ts k p) = n
      else n = - 1 \<or> p \<noteq> 0 \<and> pgrp (ts k p) = s32 (- n))"

lemma sys_kill_alt: "sys_kill n sig k = kill_loop 63 (kill_sel n) sig (n = 0) (Inr 0) k"
  unfolding sys_kill_def NR_TASKS_eq by (simp add: kill_sel_def [abs_def])

lemma kill_sel_stable: "sel_stable (kill_sel n)"
  by (simp add: sel_stable_def kill_sel_def)

text \<open>\<open>kill\<close> with a positive number, or a negative one for a group: a caller who is not the superuser
  changes no task of another user, and no field of any task but its signals changes; the signal reaches
  every task that is meant and may be reached. The result is 0 exactly when every slot picked was reached.\<close>

theorem sys_kill_permission:
  assumes "sys_kill n sig k = (r, k')" "n \<noteq> 0"
  shows "task k' = task k \<and> current k' = current k \<and>
    (\<forall>p. ts k' p = (if in_slots 63 k p \<and> kill_sel n p k \<and> sig_ok sig \<and> may_signal k p
       then (ts k p)\<lparr>signal := signal (ts k p) OR S_bit sig\<rparr> else ts k p)) \<and>
    (r = Inr 0 \<or> r = Inl EINVAL \<or> r = Inl EPERM) \<and>
    (r = Inr 0 \<longleftrightarrow> (\<forall>i \<in> {1..63}. kill_sel n (task k i) k \<longrightarrow> task k i \<noteq> 0 \<and> sig_ok sig \<and> may_signal k (task k i)))"
proof -
  note * = kill_loop_spec [OF kill_sel_stable assms(1) [unfolded sys_kill_alt]]
  have h: "hit 63 (kill_sel n) k p \<and> kill_ok sig (n = 0) k p \<longleftrightarrow> in_slots 63 k p \<and> kill_sel n p k \<and> sig_ok sig \<and> may_signal k p"
    for p using assms(2) by (auto simp: hit_def kill_ok_def in_slots_def)
  have "kill_ok sig (n = 0) k p \<longleftrightarrow> p \<noteq> 0 \<and> sig_ok sig \<and> may_signal k p" for p using assms(2) by (simp add: kill_ok_def)
  with * [unfolded h] have l: "r = Inr 0 \<longleftrightarrow> (\<forall>i \<in> {1..63}. kill_sel n (task k i) k \<longrightarrow> task k i \<noteq> 0 \<and> sig_ok sig \<and> may_signal k (task k i))"
    by simp
  from * [unfolded h] show ?thesis by (intro conjI l) blast+
qed

text \<open>\<open>kill(-1, sig)\<close> fails whenever some slot of the task table is empty, although it has then sent the
  signal to every task it may send it to: the loop calls \<open>send_sig\<close> on the empty slot, too, and the
  \<open>EINVAL\<close> of that call is the result.\<close>

theorem kill_all_reports_error:
  assumes "i \<in> {1..63}" "task k i = 0" "sys_kill (- 1) sig k = (r, k')"
  shows "(r = Inl EINVAL \<or> r = Inl EPERM) \<and>
    (sig_ok sig \<and> suser k \<longrightarrow> (\<forall>p. in_slots 63 k p \<longrightarrow> ts k' p = (ts k p)\<lparr>signal := signal (ts k p) OR S_bit sig\<rparr>))"
proof -
  note * = kill_loop_spec [OF kill_sel_stable assms(3) [unfolded sys_kill_alt]]
  have "kill_sel (- 1) p k" for p by (simp add: kill_sel_def)
  moreover have "in_slots 63 k p \<Longrightarrow> p \<noteq> 0" for p by (simp add: in_slots_def)
  ultimately show ?thesis using * assms(1,2) by (auto simp: hit_def kill_ok_def may_signal_def)
qed

theorem kill_all_reports_error_witness:
  "\<exists>r k'. sys_kill (- 1) 9 kern1 = (r, k') \<and> r \<noteq> Inr 0 \<and> signal (ts k' 0x200000) = 0x100"
proof -
  obtain r k' where rk: "sys_kill (- 1) 9 kern1 = (r, k')" by force
  have e: "suser kern1" by (simp add: some_task_def INIT_TASK_def)
  note * = kill_all_reports_error [OF _ _ rk, of 5] kill_loop_spec [OF kill_sel_stable rk [unfolded sys_kill_alt]]
  have "in_slots 63 kern1 0x200000" by (auto simp: in_slots_def intro!: bexI [of _ 1])
  moreover have "sig_ok 9" by (simp add: sig_ok_def)
  ultimately have s: "signal (ts k' 0x200000) = signal (ts kern1 0x200000) OR S_bit 9" using * e by simp
  have "r \<noteq> Inr 0" using *(1) by auto
  with s rk show ?thesis by (auto simp: S_bit_def)
qed

theorem sys_kill_permission_witness:
  "\<exists>k'. sys_kill 1 9 (upd_ts 0x201000 (\<lambda>t. t\<lparr>euid := 7\<rparr>) kern1) = (Inl EPERM, k') \<and> signal (ts k' 0x200000) = 0"
proof -
  define k where "k = upd_ts 0x201000 (\<lambda>t. t\<lparr>euid := 7\<rparr>) kern1"
  obtain r k' where rk: "sys_kill 1 9 k = (r, k')" by force
  have "\<not> may_signal k 0x200000" by (simp add: may_signal_def k_def some_task_def INIT_TASK_def)
  then have "signal (ts k' 0x200000) = signal (ts k 0x200000)" using sys_kill_permission [OF rk] by simp
  moreover have "r = Inl EPERM"
  proof -
    have "send_sig 9 0x200000 False k = (Inl EPERM, k)"
      by (simp add: send_sig_def k_def some_task_def INIT_TASK_def)
    then have "kill_loop 3 (kill_sel 1) 9 False (Inr 0) k = (Inl EPERM, k)"
      by (simp add: numeral_3_eq_3 kill_sel_def k_def some_task_def INIT_TASK_def)
    moreover have "kill_loop 63 (kill_sel 1) 9 False (Inr 0) k = kill_loop 3 (kill_sel 1) 9 False (Inr 0) k"
      by (rule kill_loop_none) (simp_all add: kill_sel_def k_def)
    ultimately show ?thesis using rk by (simp add: sys_kill_alt)
  qed
  ultimately show ?thesis using rk by (simp add: k_def)
qed

section \<open>exit\<close>

text \<open>A task without its files; what the file system's functions leave alone.\<close>

definition core :: "task_struct \<Rightarrow> task_struct" where
  "core t = t\<lparr>filp := [], close_on_exec := 0, pwd := 0, root := 0, executable := 0\<rparr>"

lemma core_fields:
  assumes "core t = core t'"
  shows "father t = father t'" "pid t = pid t'" "state t = state t'" "signal t = signal t'" "exit_code t = exit_code t'"
    "priority t = priority t'" "counter t = counter t'" "leader t = leader t'" "session t = session t'" "ldt t = ldt t'"
  using assms by (cases t; cases t'; simp add: core_def)+

definition fs_step :: "kern \<Rightarrow> kern \<Rightarrow> bool" where
  "fs_step k k' \<longleftrightarrow> task k' = task k \<and> current k' = current k \<and> (\<forall>p. core (ts k' p) = core (ts k p))"

definition fs_frame :: "(kern \<Rightarrow> kern) \<Rightarrow> bool" where
  "fs_frame f \<longleftrightarrow> (\<forall>k. fs_step k (f k))"

lemma fs_step_refl: "fs_step k k" by (simp add: fs_step_def)
lemma fs_step_trans: "fs_step k k' \<Longrightarrow> fs_step k' k'' \<Longrightarrow> fs_step k k''" by (simp add: fs_step_def)

lemma fs_step_file: "fs_step k (upd_ts p (\<lambda>t. t\<lparr>pwd := 0\<rparr>) k)" "fs_step k (upd_ts p (\<lambda>t. t\<lparr>root := 0\<rparr>) k)"
  "fs_step k (upd_ts p (\<lambda>t. t\<lparr>executable := 0\<rparr>) k)"
  by (simp_all add: fs_step_def core_def)

lemma fs_step_close: "\<forall>i. fs_frame (cf i) \<Longrightarrow> fs_step k (close_files cf n i k)"
proof (induction n arbitrary: i k)
  case (Suc n)
  have "fs_step k (if filp (cur k) ! i \<noteq> 0 then cf i k else k)" using Suc.prems by (simp add: fs_step_refl fs_frame_def)
  then show ?case unfolding close_files.simps using Suc by (blast intro: fs_step_trans)
qed (simp add: fs_step_refl)

lemma fs_step_exit_files:
  assumes "\<forall>i. fs_frame (cf i)" "\<forall>i. fs_frame (ip i)"
  shows "fs_step k (exit_files cf ip k)"
proof -
  have ip: "fs_step k (ip p k)" for p k using assms(2) by (simp add: fs_frame_def)
  show ?thesis unfolding exit_files_def Let_def
    by (rule fs_step_trans [OF fs_step_close [OF assms(1)]], rule fs_step_trans [OF ip], rule fs_step_trans [OF fs_step_file(1)],
        rule fs_step_trans [OF ip], rule fs_step_trans [OF fs_step_file(2)], rule fs_step_trans [OF ip], rule fs_step_file)
qed

text \<open>The general case: a function of the file system may put its caller to sleep, and whatever the other tasks do
  meanwhile, it comes back to its caller, who still stands in its slots and has its number and its father. The father has
  not ended meanwhile, and nobody has become a child of the sleeping task.\<close>

definition father_at :: "kern \<Rightarrow> nat \<Rightarrow> bool" where
  "father_at k i \<longleftrightarrow> task k i \<noteq> 0 \<and> pid (ts k (task k i)) = father (cur k)"

definition child_at :: "kern \<Rightarrow> nat \<Rightarrow> bool" where
  "child_at k i \<longleftrightarrow> task k i \<noteq> 0 \<and> father (ts k (task k i)) = pid (cur k)"

definition fs_back :: "kern \<Rightarrow> kern \<Rightarrow> bool" where
  "fs_back k k' \<longleftrightarrow> current k' = current k \<and> (sched_wf k \<longrightarrow> sched_wf k') \<and>
     pid (cur k') = pid (cur k) \<and> father (cur k') = father (cur k) \<and>
     (\<forall>i < NR_TASKS. (task k i = current k \<longrightarrow> task k' i = current k) \<and> (father_at k' i \<longleftrightarrow> father_at k i) \<and> (child_at k' i \<longrightarrow> child_at k i))"

definition fs_call :: "(kern \<Rightarrow> kern) \<Rightarrow> bool" where
  "fs_call f \<longleftrightarrow> (\<forall>k. fs_back k (f k))"

lemma fs_back_trans: "fs_back k k' \<Longrightarrow> fs_back k' k'' \<Longrightarrow> fs_back k k''"
  unfolding fs_back_def by auto

lemma fs_step_back:
  assumes "fs_step k k'" shows "fs_back k k'"
proof -
  have t: "task k' = task k" "current k' = current k" "\<And>p. core (ts k' p) = core (ts k p)" using assms by (simp_all add: fs_step_def)
  have "sched_wf k \<Longrightarrow> sched_wf k'"
    by (erule sched_wf_state [OF _ t(1)]) (simp add: core_fields(6,7) [OF t(3)])
  then show ?thesis
    using t core_fields(1,2) [OF t(3)] by (simp add: fs_back_def father_at_def child_at_def)
qed

lemma fs_frame_call: "fs_frame f \<Longrightarrow> fs_call f"
  by (simp add: fs_frame_def fs_call_def fs_step_back)

lemma fs_back_close: "\<forall>i. fs_call (cf i) \<Longrightarrow> fs_back k (close_files cf n i k)"
proof (induction n arbitrary: i k)
  case (Suc n)
  have "fs_back k (if filp (cur k) ! i \<noteq> 0 then cf i k else k)"
    using Suc.prems by (simp add: fs_step_back fs_step_refl fs_call_def)
  then show ?case unfolding close_files.simps using Suc by (blast intro: fs_back_trans)
qed (simp add: fs_step_back fs_step_refl)

lemma fs_back_exit_files:
  assumes "\<forall>i. fs_call (cf i)" "\<forall>i. fs_call (ip i)"
  shows "fs_back k (exit_files cf ip k)"
proof -
  have ip: "fs_back k (ip p k)" for p k using assms(2) by (simp add: fs_call_def)
  note fl = fs_step_file [THEN fs_step_back]
  show ?thesis unfolding exit_files_def Let_def
    by (rule fs_back_trans [OF fs_back_close [OF assms(1)]], rule fs_back_trans [OF ip], rule fs_back_trans [OF fl(1)],
        rule fs_back_trans [OF ip], rule fs_back_trans [OF fl(2)], rule fs_back_trans [OF ip], rule fl)
qed

text \<open>Steps that only add signals (and change fathers).\<close>

definition sig_step :: "kern \<Rightarrow> kern \<Rightarrow> bool" where
  "sig_step k k' \<longleftrightarrow> task k' = task k \<and> current k' = current k \<and>
     (\<forall>p. ts k' p = (ts k p)\<lparr>father := father (ts k' p), signal := signal (ts k' p)\<rparr> \<and>
          (\<forall>n. bit (signal (ts k p)) n \<longrightarrow> bit (signal (ts k' p)) n))"

lemma sig_step_refl: "sig_step k k"
  unfolding sig_step_def
proof (intro conjI allI)
  fix p show "ts k p = (ts k p)\<lparr>father := father (ts k p), signal := signal (ts k p)\<rparr>" by (cases "ts k p") simp
qed simp_all

lemma sig_step_trans: "sig_step k k' \<Longrightarrow> sig_step k' k'' \<Longrightarrow> sig_step k k''"
proof -
  have *: "t' = t\<lparr>father := f, signal := s\<rparr> \<Longrightarrow> t'' = t'\<lparr>father := f', signal := s'\<rparr> \<Longrightarrow> t'' = t\<lparr>father := f', signal := s'\<rparr>"
    for t t' t'' :: task_struct and f s f' s' by (cases t) simp
  assume "sig_step k k'" "sig_step k' k''"
  then show ?thesis unfolding sig_step_def by (metis *)
qed

lemma sig_step_fields:
  assumes "sig_step k k'"
  shows "pid (ts k' p) = pid (ts k p)" "state (ts k' p) = state (ts k p)" "exit_code (ts k' p) = exit_code (ts k p)"
    "priority (ts k' p) = priority (ts k p)" "counter (ts k' p) = counter (ts k p)" "leader (ts k' p) = leader (ts k p)"
    "session (ts k' p) = session (ts k p)" "bit (signal (ts k p)) n \<Longrightarrow> bit (signal (ts k' p)) n"
proof -
  have e: "ts k' p = (ts k p)\<lparr>father := father (ts k' p), signal := signal (ts k' p)\<rparr>"
    and b: "bit (signal (ts k p)) n \<Longrightarrow> bit (signal (ts k' p)) n" using assms unfolding sig_step_def by blast+
  show "pid (ts k' p) = pid (ts k p)" "state (ts k' p) = state (ts k p)" "exit_code (ts k' p) = exit_code (ts k p)"
    "priority (ts k' p) = priority (ts k p)" "counter (ts k' p) = counter (ts k p)" "leader (ts k' p) = leader (ts k p)"
    "session (ts k' p) = session (ts k p)" by (subst e, simp)+
  show "bit (signal (ts k p)) n \<Longrightarrow> bit (signal (ts k' p)) n" by (rule b)
qed

lemma sig_step_upd:
  "(\<And>t. f t = t\<lparr>father := father (f t), signal := signal (f t)\<rparr>) \<Longrightarrow> (\<And>t n. bit (signal t) n \<Longrightarrow> bit (signal (f t)) n) \<Longrightarrow>
   sig_step k (upd_ts p f k)"
  using sig_step_refl [of k] by (simp add: sig_step_def)

lemma sig_step_or: "sig_step k (upd_ts p (\<lambda>t. t\<lparr>signal := signal t OR s\<rparr>) k)"
  by (rule sig_step_upd) (simp_all add: bit_or_iff)

lemma sig_step_send: "sig_step k (snd (send_sig s p b k))"
  by (simp add: send_sig_alt sig_step_or sig_step_refl)

lemma sig_step_slots: "(\<And>p k. sig_step k (f p k)) \<Longrightarrow> sig_step k (for_slots n f k)"
  by (induction n arbitrary: k) (auto simp: sig_step_refl intro: sig_step_trans)

lemma sig_step_kill_session: "sig_step k (kill_session k)"
  unfolding kill_session_def by (rule sig_step_slots) (simp add: sig_step_or sig_step_refl)


lemma sig_step_ts:
  "sig_step k k' \<Longrightarrow> task k' = task k \<and> current k' = current k"
  by (simp add: sig_step_def)

lemma send_sig_father [simp]: "father (ts (snd (send_sig s p b k)) q) = father (ts k q)"
  by (simp add: send_sig_alt)

lemma send_sig_sets: "p \<noteq> 0 \<Longrightarrow> sig_ok s \<Longrightarrow> bit (signal (ts (snd (send_sig s p True k)) p)) (nat (s - 1))"
  by (auto simp: send_sig_alt S_bit_def bit_simps sig_ok_def)

lemma reparent_spec:
  "sig_step k (reparent n i k) \<and>
   (\<forall>p. father (ts (reparent n i k) p) =
      (if p \<noteq> 0 \<and> (\<exists>j \<in> {i..<i + n}. task k j = p) \<and> father (ts k p) = pid (cur k) then 1 else father (ts k p))) \<and>
   ((\<exists>j \<in> {i..<i + n}. task k j \<noteq> 0 \<and> father (ts k (task k j)) = pid (cur k) \<and> state (ts k (task k j)) = TASK_ZOMBIE) \<longrightarrow>
    task k 1 \<noteq> 0 \<longrightarrow> bit (signal (ts (reparent n i k) (task k 1))) 16)"
proof (induction n arbitrary: i k)
  case 0
  then show ?case by (simp add: sig_step_refl)
next
  case (Suc n)
  let ?p = "task k i"
  let ?c = "?p \<noteq> 0 \<and> father (ts k ?p) = pid (cur k)"
  define k1 where "k1 = upd_ts ?p (\<lambda>t. t\<lparr>father := 1\<rparr>) k"
  define k2 where "k2 = (if ?c then if state (ts k ?p) = TASK_ZOMBIE then snd (send_sig SIGCHLD (task k 1) True k1) else k1 else k)"
  have step: "reparent (Suc n) i k = reparent n (Suc i) k2" by (simp add: k2_def k1_def Let_def)
  have "sig_step k k1" unfolding k1_def
    by (rule sig_step_upd) simp_all
  then have s2: "sig_step k k2" unfolding k2_def by (auto intro: sig_step_refl sig_step_trans sig_step_send)
  note IH = Suc.IH [of k2 "Suc i"]
  have t2: "task k2 = task k" "pid (cur k2) = pid (cur k)" "\<And>p. state (ts k2 p) = state (ts k p)"
    using sig_step_ts [OF s2] sig_step_fields [OF s2] by simp_all
  have f2: "father (ts k2 p) = (if ?c \<and> p = ?p then 1 else father (ts k p))" for p by (simp add: k2_def k1_def)
  have S: "{i..<i + Suc n} = insert i {Suc i..<Suc i + n}" by auto
  have z: "bit (signal (ts k2 (task k 1))) 16" if "?c" "state (ts k ?p) = TASK_ZOMBIE" "task k 1 \<noteq> 0"
    using that send_sig_sets [of "task k 1" SIGCHLD k1] by (simp add: k2_def SIGCHLD_def sig_ok_def)
  show ?case unfolding step
  proof (intro conjI allI impI)
    show "sig_step k (reparent n (Suc i) k2)" using s2 IH by (blast intro: sig_step_trans)
  next
    fix p
    have "father (ts (reparent n (Suc i) k2) p) =
      (if p \<noteq> 0 \<and> (\<exists>j \<in> {Suc i..<Suc i + n}. task k j = p) \<and> father (ts k2 p) = pid (cur k) then 1 else father (ts k2 p))"
      using IH unfolding t2 by blast
    then show "father (ts (reparent n (Suc i) k2) p) =
      (if p \<noteq> 0 \<and> (\<exists>j \<in> {i..<i + Suc n}. task k j = p) \<and> father (ts k p) = pid (cur k) then 1 else father (ts k p))"
      unfolding S f2 by auto
  next
    assume ex: "\<exists>j \<in> {i..<i + Suc n}. task k j \<noteq> 0 \<and> father (ts k (task k j)) = pid (cur k) \<and> state (ts k (task k j)) = TASK_ZOMBIE"
      and one: "task k 1 \<noteq> 0"
    show "bit (signal (ts (reparent n (Suc i) k2) (task k 1))) 16"
    proof (cases "?c \<and> state (ts k ?p) = TASK_ZOMBIE")
      case True
      with z one have "bit (signal (ts k2 (task k 1))) 16" by blast
      moreover have "sig_step k2 (reparent n (Suc i) k2)" using IH by blast
      ultimately show ?thesis by (blast intro: sig_step_fields)
    next
      case False
      with ex obtain j where j: "j \<in> {Suc i..<Suc i + n}" "task k j \<noteq> 0" "father (ts k (task k j)) = pid (cur k)"
        "state (ts k (task k j)) = TASK_ZOMBIE" unfolding S by auto
      have "father (ts k2 (task k j)) = pid (cur k)" using j False by (auto simp: f2)
      with j IH one show ?thesis unfolding t2 by blast
    qed
  qed
qed

lemma exit_zombie_sig:
  "\<exists>k1. sig_step k k1 \<and> task (exit_zombie c k) = task k \<and> current (exit_zombie c k) = current k \<and>
     (\<forall>p. ts (exit_zombie c k) p = (if p = current k then (ts k1 p)\<lparr>state := TASK_ZOMBIE, exit_code := c\<rparr> else ts k1 p)) \<and>
     (\<forall>p. father (ts k1 p) = father (ts k p))"
proof -
  define k0 where "k0 = (if leader (cur k) \<noteq> 0 \<and> tty (cur k) \<ge> 0 then k\<lparr>tty_pgrp := (tty_pgrp k)(tty (cur k) := 0)\<rparr> else k)"
  define k1 where "k1 = (if last_task_used_math k0 = current k0 then k0\<lparr>last_task_used_math := 0\<rparr> else k0)"
  define k2 where "k2 = (if leader (cur k1) \<noteq> 0 then kill_session k1 else k1)"
  have e: "ts k1 = ts k" "task k1 = task k" "current k1 = current k" by (simp_all add: k1_def k0_def)
  have "sig_step k1 k2" by (simp add: k2_def sig_step_kill_session sig_step_refl)
  then have s: "sig_step k k2" by (simp add: sig_step_def e)
  have "father (ts (kill_session k1) p) = father (ts k1 p)" for p
    unfolding kill_session_def by (rule for_slots_frame [where h = "\<lambda>k. father (ts k p)"]) simp
  then have f: "father (ts k2 p) = father (ts k p)" for p by (simp add: k2_def e)
  have z: "exit_zombie c k = upd_ts (current k2) (\<lambda>t. t\<lparr>exit_code := c\<rparr>) (fprintk (pid (cur k2)) CHR ''E''
      (upd_ts (current k2) (\<lambda>t. t\<lparr>state := TASK_ZOMBIE\<rparr>) k2))"
    unfolding exit_zombie_def Let_def k0_def [symmetric] k1_def [symmetric] k2_def [symmetric] by simp
  have "task k2 = task k" "current k2 = current k" using sig_step_ts [OF s] by simp_all
  then show ?thesis using s f by (intro exI [of _ k2]) (simp add: z)
qed

lemma find_pid_slot_first:
  assumes "i \<le> j" "j < i + n" "task k j \<noteq> 0" "pid (ts k (task k j)) = v"
    "\<forall>m. i \<le> m \<and> m < j \<longrightarrow> \<not> (task k m \<noteq> 0 \<and> pid (ts k (task k m)) = v)"
  shows "find_pid_slot n i v k = Some j"
  using assms
proof (induction n arbitrary: i)
  case (Suc n)
  show ?case
  proof (cases "i = j")
    case False
    then have "find_pid_slot n (Suc i) v k = Some j" using Suc.prems by (intro Suc.IH) simp_all
    with False Suc.prems show ?thesis by simp
  qed (use Suc.prems in simp)
qed simp

lemma bit_16_S: "bit (x OR S_bit SIGCHLD) 16"
  by (simp add: S_bit_def SIGCHLD_def bit_simps)

lemma reparent_back:
  assumes "k1 = reparent NR_TASKS 0 k" "father (cur k) \<noteq> pid (cur k)"
  shows "current k1 = current k" "task k1 = task k" "sched_wf k \<Longrightarrow> sched_wf k1" "pid (ts k1 p) = pid (ts k p)"
    "father (cur k1) = father (cur k)" "father_at k1 i = father_at k i" "i < NR_TASKS \<Longrightarrow> child_at k1 i \<Longrightarrow> pid (cur k) = 1"
proof -
  note r = reparent_spec [of k NR_TASKS 0, folded assms(1)]
  have s: "sig_step k k1" using r by blast
  show t: "current k1 = current k" "task k1 = task k" using sig_step_ts [OF s] by simp_all
  show pd: "pid (ts k1 p) = pid (ts k p)" for p by (rule sig_step_fields(1) [OF s])
  show "sched_wf k \<Longrightarrow> sched_wf k1"
    by (erule sched_wf_state [OF _ t(2)]) (simp add: sig_step_fields(4,5) [OF s])
  show f: "father (cur k1) = father (cur k)" unfolding t using r assms(2) by auto
  then show "father_at k1 i = father_at k i" by (simp add: father_at_def pd t)
  assume i: "i < NR_TASKS" "child_at k1 i"
  then have "task k i \<noteq> 0" "father (ts k1 (task k i)) = pid (cur k)" by (simp_all add: child_at_def pd t)
  then show "pid (cur k) = 1" using r i(1) by (auto split: if_splits)
qed

text \<open>What \<open>exit_zombie\<close> leaves as it was, but for the current task's state and code.\<close>

lemma exit_zombie_frame:
  assumes "k3 = exit_zombie c k"
  shows "task k3 = task k" "current k3 = current k" "father (ts k3 p) = father (ts k p)" "pid (ts k3 p) = pid (ts k p)"
    "state (cur k3) = TASK_ZOMBIE" "exit_code (cur k3) = c" "sched_wf k \<Longrightarrow> sched_wf k3"
    "bit (signal (ts k p)) n \<Longrightarrow> bit (signal (ts k3 p)) n" "father_at k3 i = father_at k i" "child_at k3 i = child_at k i"
proof -
  obtain k1 where s: "sig_step k k1" "task k3 = task k" "current k3 = current k"
    "\<And>p. ts k3 p = (if p = current k then (ts k1 p)\<lparr>state := TASK_ZOMBIE, exit_code := c\<rparr> else ts k1 p)"
    "\<And>p. father (ts k1 p) = father (ts k p)"
    using exit_zombie_sig [of k c] unfolding assms by blast
  note f = sig_step_fields [OF s(1)]
  show t: "task k3 = task k" "current k3 = current k" "father (ts k3 p) = father (ts k p)" "pid (ts k3 p) = pid (ts k p)" for p
    using s f by simp_all
  show "state (cur k3) = TASK_ZOMBIE" "exit_code (cur k3) = c" by (simp_all add: s)
  show "bit (signal (ts k p)) n \<Longrightarrow> bit (signal (ts k3 p)) n" using f(8) [of p n] by (auto simp: s)
  show "sched_wf k \<Longrightarrow> sched_wf k3" by (erule sched_wf_state [OF _ s(2)]) (simp add: s(4) f(4,5))
  show "father_at k3 i = father_at k i" "child_at k3 i = child_at k i" using t by (simp_all add: father_at_def child_at_def)
qed

lemma do_exit_tell:
  assumes "free_page_tables (get_base (ldt (cur k) ! 1)) (get_limit (ldt (cur k) ! 1)) (kmm k) = Inr s1"
    and "free_page_tables (get_base (ldt (cur k) ! 2)) (get_limit (ldt (cur k) ! 2)) s1 = Inr s"
    and "k3 = exit_zombie code (exit_files close_fd iput (reparent NR_TASKS 0 (k\<lparr>kmm := s\<rparr>)))"
  shows "do_exit close_fd iput code k =
       sbind (tell_father (father (cur k3)) k3) (\<lambda>(gone, k). if gone then Inr k else schedule_k (push_frame FExit k))"
proof -
  have "lift_mm (free_page_tables (get_base (ldt (cur k) ! 1)) (get_limit (ldt (cur k) ! 1))) k = Inr (k\<lparr>kmm := s1\<rparr>)"
    "lift_mm (free_page_tables (get_base (ldt (cur k) ! 2)) (get_limit (ldt (cur k) ! 2))) (k\<lparr>kmm := s1\<rparr>) = Inr (k\<lparr>kmm := s\<rparr>)"
    using assms(1,2) by (simp_all add: lift_mm_def)
  then show ?thesis unfolding do_exit_def assms(3) Let_def by simp
qed

text \<open>The scheduler passes a zombie over.\<close>

lemma zombie_passed_over:
  assumes "sched_wf k" "in_slots 63 k c" "state (ts k c) = TASK_ZOMBIE" "schedule k = Some k'"
  shows "current k' \<noteq> c \<and> state (ts k' c) = TASK_ZOMBIE"
proof
  note sc = schedule_change [OF assms(1,4)]
  show z: "state (ts k' c) = TASK_ZOMBIE" using sched_changeD(14) [OF sc(1), of c] assms(3) by simp
  obtain n where n: "n \<in> {1..63}" "task k n = c" "c \<noteq> 0" using assms(2) by (auto simp: in_slots_def)
  have "tasks_distinct k" using assms(1) by (simp add: sched_wf_def)
  then have "task k 0 = task k n \<Longrightarrow> 0 = n" using n unfolding tasks_distinct_def by simp
  then have "task k 0 \<noteq> c" using n by auto
  then show "current k' \<noteq> c" using sc(4) z by auto
qed

text \<open>The father, found in the first slot that has its number, is told; then the zombie gives the processor away.\<close>

lemma told_and_gone:
  assumes "sched_wf k" "in_slots 63 k (current k)" "state (cur k) = TASK_ZOMBIE"
    and "father (cur k) \<noteq> 0" "j < NR_TASKS" "father_at k j" "\<forall>m < j. \<not> father_at k m"
  obtains k' where
    "sbind (tell_father (father (cur k)) k) (\<lambda>(gone, k). if gone then Inr k else schedule_k (push_frame FExit k)) = Inr k'"
    "sched_wf k'" "task k' = task k" "current k' \<noteq> current k" "state (ts k' (current k)) = TASK_ZOMBIE"
    "\<And>p. father (ts k' p) = father (ts k p) \<and> pid (ts k' p) = pid (ts k p) \<and> exit_code (ts k' p) = exit_code (ts k p)"
    "bit (signal (ts k' (task k j))) 16" "\<And>p n. bit (signal (ts k p)) n \<Longrightarrow> bit (signal (ts k' p)) n"
proof -
  have fs: "find_pid_slot NR_TASKS 0 (father (cur k)) k = Some j"
    by (rule find_pid_slot_first) (use assms(5-7) in \<open>simp_all add: father_at_def\<close>)
  define k4 where "k4 = push_frame FExit (upd_ts (task k j) (\<lambda>t. t\<lparr>signal := signal t OR S_bit SIGCHLD\<rparr>) k)"
  have ex: "sbind (tell_father (father (cur k)) k) (\<lambda>(gone, k). if gone then Inr k else schedule_k (push_frame FExit k)) = schedule_k k4"
    using assms(4) unfolding tell_father_def fs by (simp add: k4_def)
  have t: "task k4 = task k" "current k4 = current k" by (simp_all add: k4_def)
  have same: "father (ts k4 p) = father (ts k p) \<and> pid (ts k4 p) = pid (ts k p) \<and> exit_code (ts k4 p) = exit_code (ts k p) \<and>
      state (ts k4 p) = state (ts k p)" for p by (simp add: k4_def)
  have wf: "sched_wf k4" by (rule sched_wf_state [OF assms(1)]) (simp_all add: k4_def)
  obtain k' where "schedule k4 = Some k'" by (rule schedule_wf [OF wf])
  then have sch: "schedule_k k4 = Inr k'" by (simp add: schedule_k_def)
  note sk = schedule_kE [OF sch wf]
  note sc = schedule_change [OF wf sk(1)]
  have "in_slots 63 k4 (current k)" using assms(2) by (simp add: in_slots_def t)
  then have "current k' \<noteq> current k \<and> state (ts k' (current k)) = TASK_ZOMBIE"
    using same assms(3) by (intro zombie_passed_over [OF wf _ _ sk(1)]) simp_all
  moreover have "bit (signal (ts k4 p)) n \<Longrightarrow> bit (signal (ts k' p)) n" for p n by (rule sched_changeD(15) [OF sc(1)])
  moreover have "bit (signal (ts k4 (task k j))) 16" "\<And>p n. bit (signal (ts k p)) n \<Longrightarrow> bit (signal (ts k4 p)) n"
    using bit_16_S by (auto simp: k4_def bit_or_iff)
  ultimately show thesis
    using sched_changeD(1-3) [OF sc(1)] same sk(2,3) t
    by (intro that [of k']) (simp_all add: ex sch)
qed


definition kern_exit :: kern where
  "kern_exit = upd_ts 0x201000 (\<lambda>t. t\<lparr>ldt := map (\<lambda>d. set_base d 0x8000000) (ldt t)\<rparr>) kern1"


section \<open>waitpid\<close>

text \<open>The scan passes over slot \<open>j\<close>.\<close>

definition passes :: "int \<Rightarrow> int \<Rightarrow> kern \<Rightarrow> nat \<Rightarrow> bool" where
  "passes n options k j \<longleftrightarrow> wanted n (task k j) k \<longrightarrow>
     state (ts k (task k j)) \<noteq> TASK_ZOMBIE \<and> (state (ts k (task k j)) = TASK_STOPPED \<longrightarrow> options AND WUNTRACED = 0)"

definition waits_for :: "int \<Rightarrow> kern \<Rightarrow> nat \<Rightarrow> bool" where
  "waits_for n k j \<longleftrightarrow> wanted n (task k j) k \<and> state (ts k (task k j)) \<noteq> TASK_STOPPED"

lemma wait_loop_Suc_pass:
  "passes n options k (Suc m) \<Longrightarrow>
   wait_loop (Suc m) n options flag k = wait_loop m n options (flag \<or> waits_for n k (Suc m)) k"
  by (cases "state (ts k (task k (Suc m)))") (auto simp: passes_def waits_for_def Let_def)

lemma wait_loop_pass:
  assumes "i \<le> m" "\<forall>j. i < j \<and> j \<le> m \<longrightarrow> passes n options k j"
  shows "wait_loop m n options flag k = wait_loop i n options (flag \<or> (\<exists>j. i < j \<and> j \<le> m \<and> waits_for n k j)) k"
  using assms
proof (induction m arbitrary: flag)
  case (Suc m)
  show ?case
  proof (cases "i = Suc m")
    case False
    then have i: "i \<le> m" "passes n options k (Suc m)" using Suc.prems by auto
    have "wait_loop (Suc m) n options flag k =
        wait_loop i n options ((flag \<or> waits_for n k (Suc m)) \<or> (\<exists>j. i < j \<and> j \<le> m \<and> waits_for n k j)) k"
      unfolding wait_loop_Suc_pass [OF i(2)] using Suc.prems(2) by (intro Suc.IH i(1)) auto
    also have "((flag \<or> waits_for n k (Suc m)) \<or> (\<exists>j. i < j \<and> j \<le> m \<and> waits_for n k j)) =
        (flag \<or> (\<exists>j. i < j \<and> j \<le> Suc m \<and> waits_for n k j))" using i(1) by (metis le_Suc_eq le_imp_less_Suc)
    finally show ?thesis .
  next
    case True
    then have "(flag \<or> (\<exists>j. i < j \<and> j \<le> Suc m \<and> waits_for n k j)) = flag" by auto
    then show ?thesis unfolding True by (simp only:)
  qed
qed simp

lemma find_task_first:
  assumes "i \<le> j" "j < i + n" "task k j = p" "\<forall>m. i \<le> m \<and> m < j \<longrightarrow> task k m \<noteq> p"
  shows "find_task n i p k = Some j"
  using assms
proof (induction n arbitrary: i)
  case (Suc n)
  show ?case
  proof (cases "i = j")
    case False
    then have "find_task n (Suc i) p k = Some j" using Suc.prems by (intro Suc.IH) simp_all
    with False Suc.prems show ?thesis by simp
  qed (use Suc.prems in simp)
qed simp

lemma sched_wf_remove:
  assumes "sched_wf k" "i \<noteq> 0" shows "sched_wf (k\<lparr>task := (task k)(i := 0)\<rparr>)"
  using assms by (auto simp: sched_wf_def tasks_distinct_def in_slots_def)

text \<open>C8. \<open>waitpid\<close> reaps the zombie child in the highest slot that is meant: the slot becomes free, the page of
  the task goes back to the allocator, its times are added to those of the caller, and what the caller has
  left to do is to store the exit code and return the process number.\<close>

theorem waitpid_reaps:
  assumes "verify_area stat_addr 4 k = Inr k1" "sched_wf k1" "current k1 \<noteq> 0"
    and "i \<in> {1..63}" "wanted n (task k1 i) k1" "state (ts k1 (task k1 i)) = TASK_ZOMBIE"
    and "\<forall>j. i < j \<and> j \<le> 63 \<longrightarrow> passes n options k1 j" "free_page (task k1 i) (kmm k1) = Inr s"
  shows "\<exists>k'. sys_waitpid n stat_addr options k = Inr (None, k') \<and> task k' = (task k1)(i := 0) \<and> kmm k' = s \<and>
    cutime (ts k' (current k1)) = s32 (cutime (cur k1) + utime (ts k1 (task k1 i))) \<and>
    cstime (ts k' (current k1)) = s32 (cstime (cur k1) + stime (ts k1 (task k1 i))) \<and>
    kframes k' (current k1) =
      FWaitRelease (pid (ts k1 (task k1 i))) (exit_code (ts k1 (task k1 i))) stat_addr # kframes k1 (current k1) \<and> sched_wf k'"
proof -
  let ?p = "task k1 i" and ?c = "current k1"
  have p: "?p \<noteq> 0" "?p \<noteq> ?c" using assms(5) by (auto simp: wanted_def)
  have "wait_loop 63 n options False k1 = wait_loop i n options (\<exists>j. i < j \<and> j \<le> 63 \<and> waits_for n k1 j) k1"
    using wait_loop_pass [of i 63 n options k1 False] assms(4,7) by simp
  also have "\<dots> = WZombie ?p"
    using assms(4,5,6) by (cases i) simp_all
  finally have w: "wait_loop (NR_TASKS - 1) n options False k1 = WZombie ?p" by simp
  define k2 where "k2 = upd_ts ?c (\<lambda>t. t\<lparr>cutime := s32 (cutime t + utime (ts k1 ?p)), cstime := s32 (cstime t + stime (ts k1 ?p))\<rparr>) k1"
  define fr where "fr = FWaitRelease (pid (ts k1 ?p)) (exit_code (ts k1 ?p)) stat_addr"
  define k3 where "k3 = push_frame fr ((k2\<lparr>task := (task k2)(i := 0)\<rparr>)\<lparr>kmm := s\<rparr>)"
  have "tasks_distinct k1" using assms(2) by (simp add: sched_wf_def)
  then have "task k1 m = ?p \<Longrightarrow> m < 64 \<Longrightarrow> m = i" for m
    using p(1) assms(4) unfolding tasks_distinct_def by simp
  then have "\<forall>m. 1 \<le> m \<and> m < i \<longrightarrow> task k2 m \<noteq> ?p" using assms(4) by (fastforce simp: k2_def)
  then have ft: "find_task 63 1 ?p k2 = Some i"
    using assms(4) by (intro find_task_first) (simp_all add: k2_def)
  have "ts k2 ?p = ts k1 ?p" using p by (simp add: k2_def)
  then have "release (FWaitRelease (pid (ts k2 ?p)) (exit_code (ts k2 ?p)) stat_addr) ?p k2 = schedule_k k3"
    using p ft [unfolded One_nat_def] assms(8) unfolding release_def fr_def k3_def by (simp add: lift_mm_def k2_def)
  then have sw: "sys_waitpid n stat_addr options k = sbind (schedule_k k3) (\<lambda>k. Inr (None, k))"
    unfolding sys_waitpid_def assms(1) sbind_simps wait_repeat_def w wait_scan.case Let_def k2_def [symmetric] by simp
  have "sched_wf k2" by (rule sched_wf_state [OF assms(2)]) (simp_all add: k2_def)
  then have "sched_wf (k2\<lparr>task := (task k2)(i := 0)\<rparr>)" using assms(4) by (intro sched_wf_remove) auto
  then have wf: "sched_wf k3" by (rule sched_wf_state) (simp_all add: k3_def)
  obtain k' where s: "schedule k3 = Some k'" by (rule schedule_wf [OF wf])
  then have sk: "schedule_k k3 = Inr k'" by (simp add: schedule_k_def)
  note se = schedule_kE [OF sk wf] and sc = schedule_change [OF wf s]
  have "cutime (ts k' ?c) = cutime (ts k3 ?c)" "cstime (ts k' ?c) = cstime (ts k3 ?c)"
    using sched_changeD(8,9) [OF sc(1), of ?c] by simp_all
  then show ?thesis using se sc(2) unfolding sw sk
    by (intro exI [of _ k']) (simp add: k3_def k2_def fr_def)
qed

text \<open>A caller all of whose children are stopped is told that it has none, unless it asks for stopped ones:
  the scan passes over them without setting the flag that says that there is something to wait for.\<close>

theorem waitpid_stopped_children:
  assumes "verify_area stat_addr 4 k = Inr k1" "options AND WUNTRACED = 0"
    and "\<forall>i \<in> {1..63}. wanted n (task k1 i) k1 \<longrightarrow> state (ts k1 (task k1 i)) = TASK_STOPPED"
  shows "sys_waitpid n stat_addr options k = Inr (Some (Inl ECHILD), k1)"
proof -
  have "\<forall>j. 0 < j \<and> j \<le> 63 \<longrightarrow> passes n options k1 j" using assms(2,3) by (auto simp: passes_def)
  then have "wait_loop 63 n options False k1 = wait_loop 0 n options (\<exists>j. 0 < j \<and> j \<le> 63 \<and> waits_for n k1 j) k1"
    using wait_loop_pass [of 0 63 n options k1 False] by simp
  moreover have "\<not> (\<exists>j. 0 < j \<and> j \<le> 63 \<and> waits_for n k1 j)" using assms(3) by (auto simp: waits_for_def)
  ultimately have "wait_loop (NR_TASKS - 1) n options False k1 = WEnd False" by simp
  then show ?thesis by (simp add: sys_waitpid_def assms(1) wait_repeat_def)
qed

definition kern_wait :: kern where
  "kern_wait = upd_ts 0x201000 (\<lambda>t. t\<lparr>state := TASK_ZOMBIE, exit_code := 256, utime := 7\<rparr>) (kern1\<lparr>current := 0x200000\<rparr>)"

lemma kern_wait_simps:
  "task kern_wait = task kern1" "current kern_wait = 0x200000" "kmm kern_wait = mm_start" "kframes kern_wait = (\<lambda>_. [])"
  "ts kern_wait 0x201000 = (some_task 2 TASK_RUNNING 0)\<lparr>state := TASK_ZOMBIE, exit_code := 256, utime := 7\<rparr>"
  "ts kern_wait 0x200000 = (some_task 1 TASK_INTERRUPTIBLE 0)\<lparr>alarm := 50\<rparr>"
  by (simp_all add: kern_wait_def kmm_kern1)

lemma verify_area_start:
  assumes "kmm k = mm_start" shows "verify_area a 4 k = Inr k"
proof -
  have w: "write_verify b mm_start = Inr mm_start" for b by (simp add: write_verify_def mm_start_def)
  have "verify_loop n b mm_start = Inr mm_start" for n b
    by (induction n b mm_start rule: verify_loop.induct) (subst verify_loop.simps, simp add: w)
  then show ?thesis by (simp add: verify_area_def lift_mm_def assms Let_def)
qed

theorem waitpid_reaps_witness:
  "\<exists>k'. sys_waitpid (- 1) 0x100 0 kern_wait = Inr (None, k') \<and> task k' 2 = 0 \<and>
     kframes k' 0x200000 = [FWaitRelease 2 256 0x100] \<and> cutime (ts k' 0x200000) = 7"
proof -
  have wf: "sched_wf kern_wait"
    using sched_wf_kern1 by (intro sched_wf_state [OF sched_wf_kern1]) (simp_all add: kern_wait_def)
  have w: "wanted (- 1) (task kern_wait 2) kern_wait" by (simp add: wanted_def kern_wait_simps)
  have z: "state (ts kern_wait (task kern_wait 2)) = TASK_ZOMBIE" by (simp add: kern_wait_simps)
  have ps: "\<forall>j. 2 < j \<and> j \<le> 63 \<longrightarrow> passes (- 1) 0 kern_wait j" by (simp add: passes_def wanted_def kern_wait_simps)
  have "\<exists>s. free_page 0x201000 mm_start = Inr s"
    by (simp add: free_page_def mm_start_def LOW_MEM_def MAP_NR_def USED_def Let_def split: prod.splits)
  then obtain s where fp: "free_page (task kern_wait 2) (kmm kern_wait) = Inr s" by (auto simp: kern_wait_simps)
  have "2 \<in> {1..63 :: nat}" "current kern_wait \<noteq> 0" by (simp_all add: kern_wait_simps)
  from waitpid_reaps [OF verify_area_start wf this(2,1) w z ps fp, of "0x100"] show ?thesis
    by (auto simp: kern_wait_simps some_task_def INIT_TASK_def)
qed

theorem waitpid_stopped_children_witness:
  "sys_waitpid 5 0x100 0 kern_wait = Inr (Some (Inl ECHILD), kern_wait)"
proof -
  have "\<forall>i \<in> {1..63}. wanted 5 (task kern_wait i) kern_wait \<longrightarrow> state (ts kern_wait (task kern_wait i)) = TASK_STOPPED"
    by (auto simp: wanted_def kern_wait_simps)
  then show ?thesis by (intro waitpid_stopped_children verify_area_start) (simp_all add: kern_wait_simps)
qed

end
