(* ===== verification/Timer.thy ===== *)
theory Timer imports Waitq begin

text \<open>
  The rest of \<open>kernel/sched.c\<close> of Lab 3: the floppy motors, the timer requests and the clock tick
  \<open>do_timer\<close>. A timer request is an entry of the static array \<open>timer_list\<close>; the pending ones are
  linked through \<open>next\<close>, each with the number of ticks after its predecessor. Pointers into the array
  are indices, \<open>NULL\<close> is \<open>None\<close>, and the functions the requests call are the parameter \<open>run\<close>.
\<close>

unbundle bit_operations_syntax

section \<open>The state\<close>

record timer_node =
  t_jiffies :: int
  t_fn :: u32
  t_next :: "nat option"

record clock =
  timer_list :: "nat \<Rightarrow> timer_node"
  next_timer :: "nat option"
  mon_timer :: "nat \<Rightarrow> int"
  moff_timer :: "nat \<Rightarrow> int"
  current_DOR :: u8
  selected :: bool
  beepcount :: int
  dor_writes :: "u8 list"

definition TIME_REQUESTS :: nat where "TIME_REQUESTS = 64"

section \<open>Floppy motors\<close>

text \<open>\<open>outb(v, FD_DOR)\<close> appends to \<open>dor_writes\<close>. Only called with \<open>nr\<close> at most 3.\<close>

definition ticks_to_floppy_on :: "nat \<Rightarrow> clock \<Rightarrow> kstop + int \<times> clock" where
  "ticks_to_floppy_on nr c =
     (if nr > 3 then Inl (KPanic ''floppy_on: nr>3'')
      else let c = c\<lparr>moff_timer := (moff_timer c)(nr := 10000)\<rparr>;
               m = push_bit nr 0x10 OR current_DOR c;
               m = (if selected c then m else m AND 0xFC OR of_nat nr);
               c = (if m \<noteq> current_DOR c then
                      (let c = c\<lparr>dor_writes := dor_writes c @ [m]\<rparr>;
                           c = (if (m XOR current_DOR c) AND 0xf0 \<noteq> 0
                                then c\<lparr>mon_timer := (mon_timer c)(nr := HZ sdiv 2)\<rparr>
                                else if mon_timer c nr < 2 then c\<lparr>mon_timer := (mon_timer c)(nr := 2)\<rparr> else c)
                       in c\<lparr>current_DOR := m\<rparr>)
                    else c)
           in Inr (mon_timer c nr, c))"

text \<open>The wait variable of motor \<open>nr\<close>, where the array stands at \<open>wm\<close>.\<close>

definition wait_motor :: "u32 \<Rightarrow> nat \<Rightarrow> u32" where
  "wait_motor wm nr = wm + of_nat (4 * nr)"

text \<open>The loop of \<open>floppy_on\<close>, from its condition on: \<open>True\<close> when it is done, \<open>False\<close> when the task sleeps
  and \<open>FFloppyOn\<close> is the frame that goes on with the loop.\<close>

definition floppy_on :: "u32 \<Rightarrow> nat \<Rightarrow> clock \<Rightarrow> kern \<Rightarrow> kstop + bool \<times> clock \<times> kern" where
  "floppy_on wm nr c k =
     sbind (ticks_to_floppy_on nr c) (\<lambda>(n, c).
       if n = 0 then Inr (True, c, k)
       else case sleep_on (wait_motor wm nr) (push_frame (FFloppyOn (of_nat nr)) k) of
         None \<Rightarrow> Inl KDiverge
       | Some k \<Rightarrow> Inr (False, c, k))"

definition floppy_off :: "nat \<Rightarrow> clock \<Rightarrow> clock" where
  "floppy_off nr c = c\<lparr>moff_timer := (moff_timer c)(nr := 3 * HZ)\<rparr>"

text \<open>The loop of \<open>do_floppy_timer\<close>: \<open>n\<close> motors from \<open>i\<close> on.\<close>

fun floppy_timer_loop :: "u32 \<Rightarrow> nat \<Rightarrow> nat \<Rightarrow> u8 \<Rightarrow> clock \<Rightarrow> kern \<Rightarrow> clock \<times> kern" where
  "floppy_timer_loop wm 0 i m c k = (c, k)"
| "floppy_timer_loop wm (Suc n) i m c k =
     (let (c, k) =
        (if m AND current_DOR c = 0 then (c, k)
         else if mon_timer c i \<noteq> 0 then
           (let c = c\<lparr>mon_timer := (mon_timer c)(i := s32 (mon_timer c i - 1))\<rparr>
            in (c, if mon_timer c i = 0 then wake_up (wait_motor wm i) k else k))
         else if moff_timer c i = 0 then
           (let c = c\<lparr>current_DOR := current_DOR c AND NOT m\<rparr> in (c\<lparr>dor_writes := dor_writes c @ [current_DOR c]\<rparr>, k))
         else (c\<lparr>moff_timer := (moff_timer c)(i := s32 (moff_timer c i - 1))\<rparr>, k))
      in floppy_timer_loop wm n (Suc i) (push_bit 1 m) c k)"

definition do_floppy_timer :: "u32 \<Rightarrow> clock \<Rightarrow> kern \<Rightarrow> clock \<times> kern" where
  "do_floppy_timer wm = floppy_timer_loop wm 4 0 0x10"

section \<open>Timer requests\<close>

text \<open>The first free entry of the array, from \<open>i\<close> on.\<close>

fun free_request :: "nat \<Rightarrow> nat \<Rightarrow> clock \<Rightarrow> nat option" where
  "free_request 0 i c = None"
| "free_request (Suc n) i c = (if t_fn (timer_list c i) = 0 then Some i else free_request n (Suc i) c)"

definition set_node :: "nat \<Rightarrow> (timer_node \<Rightarrow> timer_node) \<Rightarrow> clock \<Rightarrow> clock" where
  "set_node p f c = c\<lparr>timer_list := (timer_list c)(p := f (timer_list c p))\<rparr>"

text \<open>The loop that moves the new request behind the earlier ones, by exchanging contents.\<close>

partial_function (option) sift :: "nat \<Rightarrow> clock \<Rightarrow> clock option" where
  "sift p c =
     (case t_next (timer_list c p) of
        None \<Rightarrow> Some c
      | Some q \<Rightarrow>
          let np = timer_list c p; nq = timer_list c q in
          if t_jiffies nq < t_jiffies np then
            let d = s32 (t_jiffies np - t_jiffies nq);
                c = set_node p (\<lambda>n. n\<lparr>t_jiffies := t_jiffies nq, t_fn := t_fn nq\<rparr>) c;
                c = set_node q (\<lambda>n. n\<lparr>t_jiffies := d, t_fn := t_fn np\<rparr>) c
            in sift q c
          else Some c)"

definition add_timer :: "(u32 \<Rightarrow> clock \<Rightarrow> clock) \<Rightarrow> int \<Rightarrow> u32 \<Rightarrow> clock \<Rightarrow> kstop + clock" where
  "add_timer run j fn c =
     (if fn = 0 then Inr c
      else if j \<le> 0 then Inr (run fn c)
      else case free_request TIME_REQUESTS 0 c of
        None \<Rightarrow> Inl (KPanic ''No more time requests free'')
      | Some p \<Rightarrow>
          let c = set_node p (\<lambda>n. n\<lparr>t_fn := fn, t_jiffies := j, t_next := next_timer c\<rparr>) c;
              c = c\<lparr>next_timer := Some p\<rparr>
          in (case sift p c of None \<Rightarrow> Inl KDiverge | Some c \<Rightarrow> Inr c))"

section \<open>The clock tick\<close>

text \<open>The requests that are due are unlinked and called, one after the other.\<close>

partial_function (option) expire :: "(u32 \<Rightarrow> clock \<Rightarrow> clock) \<Rightarrow> clock \<Rightarrow> clock option" where
  "expire run c =
     (case next_timer c of
        None \<Rightarrow> Some c
      | Some p \<Rightarrow>
          if t_jiffies (timer_list c p) \<le> 0 then
            let fn = t_fn (timer_list c p);
                c = set_node p (\<lambda>n. n\<lparr>t_fn := 0\<rparr>) c;
                c = c\<lparr>next_timer := t_next (timer_list c p)\<rparr>
            in expire run (run fn c)
          else Some c)"

definition tick_timers :: "(u32 \<Rightarrow> clock \<Rightarrow> clock) \<Rightarrow> clock \<Rightarrow> clock option" where
  "tick_timers run c =
     (case next_timer c of
        None \<Rightarrow> Some c
      | Some p \<Rightarrow> expire run (set_node p (\<lambda>n. n\<lparr>t_jiffies := s32 (t_jiffies n - 1)\<rparr>) c))"

definition charge_time :: "bool \<Rightarrow> kern \<Rightarrow> kern" where
  "charge_time cpl k = upd_ts (current k)
     (\<lambda>t. if cpl then t\<lparr>utime := s32 (utime t + 1)\<rparr> else t\<lparr>stime := s32 (stime t + 1)\<rparr>) k"

text \<open>\<open>do_timer\<close>; \<open>cpl\<close> says whether the tick came in user mode, \<open>beep_stop\<close> is \<open>sysbeepstop\<close> of the console.\<close>

definition do_timer ::
  "(u32 \<Rightarrow> clock \<Rightarrow> clock) \<Rightarrow> (clock \<Rightarrow> clock) \<Rightarrow> u32 \<Rightarrow> bool \<Rightarrow> clock \<Rightarrow> kern \<Rightarrow> kstop + clock \<times> kern" where
  "do_timer run beep_stop wm cpl c k =
     (let c = (if beepcount c \<noteq> 0 then
                 (let c = c\<lparr>beepcount := s32 (beepcount c - 1)\<rparr> in if beepcount c = 0 then beep_stop c else c)
               else c);
          k = charge_time cpl k
      in case tick_timers run c of
        None \<Rightarrow> Inl KDiverge
      | Some c \<Rightarrow>
          let (c, k) = (if current_DOR c AND 0xf0 \<noteq> 0 then do_floppy_timer wm c k else (c, k));
              k = upd_ts (current k) (\<lambda>t. t\<lparr>counter := s32 (counter t - 1)\<rparr>) k
          in if counter (cur k) > 0 then Inr (c, k)
             else let k = upd_ts (current k) (\<lambda>t. t\<lparr>counter := 0\<rparr>) k in
               if \<not> cpl then Inr (c, k)
               else sbind (schedule_k (push_frame FTick k)) (\<lambda>k. Inr (c, k)))"

section \<open>The list of requests\<close>

text \<open>\<open>chain c p xs\<close>: the entries linked from \<open>p\<close> on are those with the indices \<open>xs\<close>.\<close>

fun chain :: "clock \<Rightarrow> nat option \<Rightarrow> nat list \<Rightarrow> bool" where
  "chain c p [] \<longleftrightarrow> p = None"
| "chain c p (x # xs) \<longleftrightarrow> p = Some x \<and> chain c (t_next (timer_list c x)) xs"

type_synonym request = "int \<times> u32"

definition request_at :: "clock \<Rightarrow> nat \<Rightarrow> request" where
  "request_at c x = (t_jiffies (timer_list c x), t_fn (timer_list c x))"

text \<open>\<open>timers_ok c xs\<close>: the pending requests stand in the entries \<open>xs\<close>, all other entries are free, and every
  delay is positive.\<close>

definition timers_ok :: "clock \<Rightarrow> nat list \<Rightarrow> bool" where
  "timers_ok c xs \<longleftrightarrow> chain c (next_timer c) xs \<and> distinct xs \<and> set xs \<subseteq> {..<TIME_REQUESTS} \<and>
     (\<forall>i < TIME_REQUESTS. t_fn (timer_list c i) \<noteq> 0 \<longleftrightarrow> i \<in> set xs) \<and>
     (\<forall>x \<in> set xs. 0 < t_jiffies (timer_list c x) \<and> t_jiffies (timer_list c x) \<le> 2147483647)"

text \<open>The abstract operations on the list of \<open>(delay after the predecessor, function)\<close>.\<close>

fun insert_request :: "int \<Rightarrow> u32 \<Rightarrow> request list \<Rightarrow> request list" where
  "insert_request d f [] = [(d, f)]"
| "insert_request d f ((e, g) # rs) = (if e < d then (e, g) # insert_request (d - e) f rs else (d, f) # (e, g) # rs)"

text \<open>When each request is due, in ticks from now.\<close>

fun due :: "request list \<Rightarrow> request list" where
  "due [] = []"
| "due ((d, f) # rs) = (d, f) # map (\<lambda>(e, g). (d + e, g)) (due rs)"

lemma chain_cong: "(\<And>x. x \<in> set xs \<Longrightarrow> t_next (timer_list c' x) = t_next (timer_list c x)) \<Longrightarrow> chain c' p xs = chain c p xs"
  by (induction xs arbitrary: p) auto

lemma set_node_simps [simp]:
  "timer_list (set_node p f c) x = (if x = p then f (timer_list c p) else timer_list c x)"
  "next_timer (set_node p f c) = next_timer c"
  by (simp_all add: set_node_def)

lemma sift_spec:
  assumes "chain c (Some p) (p # xs)" "distinct (p # xs)"
    and "\<forall>x \<in> set (p # xs). 0 < t_jiffies (timer_list c x) \<and> t_jiffies (timer_list c x) \<le> 2147483647"
    and "\<forall>x \<in> set (p # xs). t_fn (timer_list c x) \<noteq> 0"
  shows "\<exists>c'. sift p c = Some c' \<and> next_timer c' = next_timer c \<and> (\<forall>x. t_next (timer_list c' x) = t_next (timer_list c x)) \<and>
    (\<forall>x. x \<notin> set (p # xs) \<longrightarrow> timer_list c' x = timer_list c x) \<and>
    map (request_at c') (p # xs) = insert_request (t_jiffies (timer_list c p)) (t_fn (timer_list c p)) (map (request_at c) xs) \<and>
    (\<forall>x \<in> set (p # xs). 0 < t_jiffies (timer_list c' x) \<and> t_jiffies (timer_list c' x) \<le> 2147483647) \<and>
    (\<forall>x \<in> set (p # xs). t_fn (timer_list c' x) \<noteq> 0)"
  using assms
proof (induction xs arbitrary: p c)
  case Nil
  then show ?case by (subst sift.simps) (simp add: request_at_def)
next
  case (Cons q xs)
  let ?np = "timer_list c p" and ?nq = "timer_list c q"
  have n: "t_next ?np = Some q" using Cons.prems(1) by simp
  have pq: "p \<noteq> q" using Cons.prems(2) by auto
  show ?case
  proof (cases "t_jiffies ?nq < t_jiffies ?np")
    case False
    then show ?thesis using n Cons.prems by (subst sift.simps) (auto simp: request_at_def)
  next
    case True
    define d where "d = t_jiffies ?np - t_jiffies ?nq"
    have d: "s32 (t_jiffies ?np - t_jiffies ?nq) = d" "0 < d" "d \<le> 2147483647"
      using True Cons.prems(3) by (auto simp: d_def)
    define c1 where "c1 = set_node q (\<lambda>n. n\<lparr>t_jiffies := d, t_fn := t_fn ?np\<rparr>)
      (set_node p (\<lambda>n. n\<lparr>t_jiffies := t_jiffies ?nq, t_fn := t_fn ?nq\<rparr>) c)"
    have step: "sift p c = sift q c1"
      using True n by (subst sift.simps) (simp add: d c1_def Let_def)
    have l: "timer_list c1 x = (if x = q then ?nq\<lparr>t_jiffies := d, t_fn := t_fn ?np\<rparr>
        else if x = p then ?np\<lparr>t_jiffies := t_jiffies ?nq, t_fn := t_fn ?nq\<rparr> else timer_list c x)" for x
      using pq by (simp add: c1_def)
    have nx: "t_next (timer_list c1 x) = t_next (timer_list c x)" for x by (simp add: l)
    have "chain c1 (Some q) (q # xs)" using Cons.prems(1) chain_cong [of "q # xs" c1 c "Some q"] nx by simp
    moreover have "\<forall>x \<in> set (q # xs). 0 < t_jiffies (timer_list c1 x) \<and> t_jiffies (timer_list c1 x) \<le> 2147483647"
      using Cons.prems d by (auto simp: l)
    moreover have "\<forall>x \<in> set (q # xs). t_fn (timer_list c1 x) \<noteq> 0" using Cons.prems(4) by (auto simp: l)
    ultimately obtain c' where c': "sift q c1 = Some c'" "next_timer c' = next_timer c1"
      "\<And>x. t_next (timer_list c' x) = t_next (timer_list c1 x)"
      "\<And>x. x \<notin> set (q # xs) \<Longrightarrow> timer_list c' x = timer_list c1 x"
      "map (request_at c') (q # xs) = insert_request (t_jiffies (timer_list c1 q)) (t_fn (timer_list c1 q)) (map (request_at c1) xs)"
      "\<forall>x \<in> set (q # xs). 0 < t_jiffies (timer_list c' x) \<and> t_jiffies (timer_list c' x) \<le> 2147483647"
      "\<forall>x \<in> set (q # xs). t_fn (timer_list c' x) \<noteq> 0"
      using Cons.IH [of c1 q] Cons.prems(2) by auto
    have m: "map (request_at c1) xs = map (request_at c) xs"
      using Cons.prems(2) by (auto simp: request_at_def l)
    have p: "timer_list c' p = ?np\<lparr>t_jiffies := t_jiffies ?nq, t_fn := t_fn ?nq\<rparr>"
      using Cons.prems(2) pq by (subst c'(4)) (auto simp: l)
    have "map (request_at c') (p # q # xs) = insert_request (t_jiffies ?np) (t_fn ?np) (map (request_at c) (q # xs))"
      using True c'(5) by (simp add: m request_at_def p l d_def)
    moreover have "\<forall>x. x \<notin> set (p # q # xs) \<longrightarrow> timer_list c' x = timer_list c x" using c'(4) by (simp add: l)
    moreover have "\<forall>x \<in> set (p # q # xs). 0 < t_jiffies (timer_list c' x) \<and> t_jiffies (timer_list c' x) \<le> 2147483647"
      using c'(6) Cons.prems(3) p by auto
    moreover have "\<forall>x \<in> set (p # q # xs). t_fn (timer_list c' x) \<noteq> 0"
      using c'(7) Cons.prems(4) p by auto
    ultimately show ?thesis using step c' nx by (intro exI [of _ c']) (simp add: c1_def)
  qed
qed

lemma free_request_Some:
  "(\<exists>j. i \<le> j \<and> j < i + n \<and> t_fn (timer_list c j) = 0) \<Longrightarrow>
   \<exists>j. free_request n i c = Some j \<and> i \<le> j \<and> j < i + n \<and> t_fn (timer_list c j) = 0"
proof (induction n arbitrary: i)
  case (Suc n)
  show ?case
  proof (cases "t_fn (timer_list c i) = 0")
    case False
    then have "\<exists>j. Suc i \<le> j \<and> j < Suc i + n \<and> t_fn (timer_list c j) = 0"
      using Suc.prems by (metis add_Suc_right add_Suc le_neq_implies_less Suc_leI)
    from Suc.IH [OF this] False show ?thesis by auto
  qed auto
qed auto

lemma free_request_None: "\<forall>j. i \<le> j \<and> j < i + n \<longrightarrow> t_fn (timer_list c j) \<noteq> 0 \<Longrightarrow> free_request n i c = None"
  by (induction n arbitrary: i) auto

text \<open>C14. \<open>add_timer\<close> refines the insertion into a list of delays: as long as an entry is free, the loop ends,
  the new request stands in the list with the delay that remains after its predecessors, and the
  invariant of the table is kept. With all 64 entries in use it panics.\<close>

theorem add_timer_inserts:
  assumes "timers_ok c xs" "fn \<noteq> 0" "0 < j" "j \<le> 2147483647"
  shows "if length xs = TIME_REQUESTS then add_timer run j fn c = Inl (KPanic ''No more time requests free'')
    else \<exists>c' p. add_timer run j fn c = Inr c' \<and> timers_ok c' (p # xs) \<and>
      map (request_at c') (p # xs) = insert_request j fn (map (request_at c) xs)"
proof -
  have xs: "chain c (next_timer c) xs" "distinct xs" "set xs \<subseteq> {..<TIME_REQUESTS}"
    "\<And>i. i < TIME_REQUESTS \<Longrightarrow> t_fn (timer_list c i) \<noteq> 0 \<longleftrightarrow> i \<in> set xs"
    "\<forall>x \<in> set xs. 0 < t_jiffies (timer_list c x) \<and> t_jiffies (timer_list c x) \<le> 2147483647"
    using assms(1) unfolding timers_ok_def by blast+
  have card: "card (set xs) = length xs" using xs(2) by (rule distinct_card)
  show ?thesis
  proof (cases "length xs = TIME_REQUESTS")
    case True
    then have "set xs = {..<TIME_REQUESTS}" using xs(3) card by (intro card_subset_eq) simp_all
    then have "free_request TIME_REQUESTS 0 c = None" using xs(4) by (intro free_request_None) auto
    with True assms show ?thesis by (simp add: add_timer_def)
  next
    case False
    then have "set xs \<noteq> {..<TIME_REQUESTS}" using card by (metis card_lessThan)
    then obtain i where "i < TIME_REQUESTS" "i \<notin> set xs" using xs(3) by blast
    then have "\<exists>i. 0 \<le> i \<and> i < 0 + TIME_REQUESTS \<and> t_fn (timer_list c i) = 0" using xs(4) by auto
    from free_request_Some [OF this] obtain p where
      p: "free_request TIME_REQUESTS 0 c = Some p" "p < TIME_REQUESTS" "t_fn (timer_list c p) = 0" by auto
    have px: "p \<notin> set xs" using xs(4) [OF p(2)] p(3) by simp
    define c1 where "c1 = (set_node p (\<lambda>n. n\<lparr>t_fn := fn, t_jiffies := j, t_next := next_timer c\<rparr>) c)\<lparr>next_timer := Some p\<rparr>"
    have l: "timer_list c1 x = (if x = p then \<lparr>t_jiffies = j, t_fn = fn, t_next = next_timer c\<rparr> else timer_list c x)" for x
      by (simp add: c1_def)
    have "chain c1 (next_timer c) xs = chain c (next_timer c) xs" by (rule chain_cong) (use px l in auto)
    then have ch: "chain c1 (Some p) (p # xs)" using xs(1) by (simp add: l)
    have po: "\<forall>x \<in> set (p # xs). 0 < t_jiffies (timer_list c1 x) \<and> t_jiffies (timer_list c1 x) \<le> 2147483647"
      using xs(5) assms px by (auto simp: l)
    have nz: "\<forall>x \<in> set (p # xs). t_fn (timer_list c1 x) \<noteq> 0" using xs(3,4) assms px by (auto simp: l)
    have dp: "distinct (p # xs)" using px xs(2) by simp
    obtain c' where c': "sift p c1 = Some c'" "next_timer c' = next_timer c1"
      "\<And>x. t_next (timer_list c' x) = t_next (timer_list c1 x)"
      "\<And>x. x \<notin> set (p # xs) \<Longrightarrow> timer_list c' x = timer_list c1 x"
      "map (request_at c') (p # xs) = insert_request (t_jiffies (timer_list c1 p)) (t_fn (timer_list c1 p)) (map (request_at c1) xs)"
      "\<forall>x \<in> set (p # xs). 0 < t_jiffies (timer_list c' x) \<and> t_jiffies (timer_list c' x) \<le> 2147483647"
      "\<forall>x \<in> set (p # xs). t_fn (timer_list c' x) \<noteq> 0"
      using sift_spec [OF ch dp po nz] by blast
    have "map (request_at c1) xs = map (request_at c) xs" using px by (auto simp: request_at_def l)
    then have m: "map (request_at c') (p # xs) = insert_request j fn (map (request_at c) xs)"
      using c'(5) by (simp add: l del: map_eq_conv)
    have "add_timer run j fn c = Inr c'"
      using assms p(1) c'(1) by (simp add: add_timer_def Let_def c1_def [symmetric])
    moreover have "timers_ok c' (p # xs)"
      unfolding timers_ok_def
    proof (intro conjI)
      show "chain c' (next_timer c') (p # xs)"
        using ch chain_cong [of "p # xs" c' c1 "Some p"] c'(2,3) by (simp add: c1_def)
      show "\<forall>i < TIME_REQUESTS. t_fn (timer_list c' i) \<noteq> 0 \<longleftrightarrow> i \<in> set (p # xs)"
        using c'(4,7) xs(4) by (metis l list.set_intros(1,2))
    qed (use dp p(2) xs(3) c'(6) in simp_all)
    ultimately show ?thesis using m False by auto
  qed
qed

lemma insert_request_due:
  "due (insert_request d f rs) =
     (let ys = takeWhile (\<lambda>(t, g). t < d) (due rs); zs = dropWhile (\<lambda>(t, g). t < d) (due rs);
          late = d - (if ys = [] then 0 else fst (last ys))
      in ys @ (d, f) # map (\<lambda>(t, g). (t + late, g)) zs)"
proof (induction d f rs rule: insert_request.induct)
  case (1 d f)
  then show ?case by simp
next
  case (2 d f e g rs)
  show ?case
  proof (cases "e < d")
    case True
    define ys where "ys = takeWhile (\<lambda>(t, g). t < d - e) (due rs)"
    define zs where "zs = dropWhile (\<lambda>(t, g). t < d - e) (due rs)"
    have c: "((\<lambda>(t, g). t < d) \<circ> (\<lambda>(t, g :: u32). (e + t, g))) = (\<lambda>(t, g). t < d - e)" by auto
    have t: "takeWhile (\<lambda>(t, g). t < d) (due ((e, g) # rs)) = (e, g) # map (\<lambda>(t, g). (e + t, g)) ys"
      "dropWhile (\<lambda>(t, g). t < d) (due ((e, g) # rs)) = map (\<lambda>(t, g). (e + t, g)) zs"
      using True by (simp_all add: takeWhile_map dropWhile_map c ys_def zs_def)
    define late where "late = (d - e) - (if ys = [] then 0 else fst (last ys))"
    have la: "d - fst (last ((e, g) # map (\<lambda>(t, g). (e + t, g)) ys)) = late"
      by (simp add: last_map late_def split: prod.split)
    have "due (insert_request (d - e) f rs) = ys @ (d - e, f) # map (\<lambda>(t, g). (t + late, g)) zs"
      using 2 [OF True] by (simp add: Let_def ys_def zs_def late_def)
    then have "due (insert_request d f ((e, g) # rs)) =
        (e, g) # map (\<lambda>(t, g). (e + t, g)) (ys @ (d - e, f) # map (\<lambda>(t, g). (t + late, g)) zs)"
      using True by simp
    also have "\<dots> = ((e, g) # map (\<lambda>(t, g). (e + t, g)) ys) @ (d, f) #
        map (\<lambda>(t, g). (t + late, g)) (map (\<lambda>(t, g). (e + t, g)) zs)"
      by (simp add: case_prod_unfold comp_def algebra_simps)
    finally show ?thesis unfolding t Let_def la [symmetric] by simp
  qed (simp add: case_prod_unfold)
qed

text \<open>When the requests are due: a new request is due after exactly the ticks it was made for and the earlier
  ones stay where they were, but every request behind the new one is delayed by the ticks between its
  predecessor and the new request, because its own delay is not reduced.\<close>

theorem add_timer_delays_later:
  assumes "timers_ok c xs" "fn \<noteq> 0" "0 < j" "j \<le> 2147483647" "length xs < TIME_REQUESTS"
    and "ys = takeWhile (\<lambda>(t, g). t < j) (due (map (request_at c) xs))"
    and "zs = dropWhile (\<lambda>(t, g). t < j) (due (map (request_at c) xs))"
  shows "\<exists>c' ps late. add_timer run j fn c = Inr c' \<and> timers_ok c' ps \<and> 0 < late \<and>
    due (map (request_at c') ps) = ys @ (j, fn) # map (\<lambda>(t, g). (t + late, g)) zs"
proof -
  obtain c' p where c': "add_timer run j fn c = Inr c'" "timers_ok c' (p # xs)"
    "map (request_at c') (p # xs) = insert_request j fn (map (request_at c) xs)"
    using add_timer_inserts [OF assms(1-4), of run] assms(5) by auto
  define late where "late = j - (if ys = [] then 0 else fst (last ys))"
  have "fst (last ys) < j" if "ys \<noteq> []"
  proof -
    have "last ys \<in> set ys" using that by simp
    then have "(\<lambda>(t, g). t < j) (last ys)" unfolding assms(6) by (rule set_takeWhileD [THEN conjunct2])
    then show ?thesis by (simp add: case_prod_unfold)
  qed
  then have "0 < late" using assms(3) by (simp add: late_def)
  moreover have "due (map (request_at c') (p # xs)) = ys @ (j, fn) # map (\<lambda>(t, g). (t + late, g)) zs"
    unfolding c'(3) insert_request_due Let_def assms(6,7) late_def ..
  ultimately show ?thesis using c' by blast
qed

section \<open>A tick on the list\<close>

fun tick_requests :: "request list \<Rightarrow> request list" where
  "tick_requests [] = []"
| "tick_requests ((d, f) # rs) = (if d = 1 then rs else (d - 1, f) # rs)"

text \<open>One tick of a list that is not empty: the first request is due, or has to wait.\<close>

lemma timers_ok_Cons:
  assumes "timers_ok c (p # ps)"
  shows "next_timer c = Some p" "chain c (t_next (timer_list c p)) ps" "distinct (p # ps)" "set (p # ps) \<subseteq> {..<TIME_REQUESTS}"
    "\<And>i. i < TIME_REQUESTS \<Longrightarrow> t_fn (timer_list c i) \<noteq> 0 \<longleftrightarrow> i \<in> set (p # ps)"
    "\<And>x. x \<in> set (p # ps) \<Longrightarrow> 0 < t_jiffies (timer_list c x) \<and> t_jiffies (timer_list c x) \<le> 2147483647"
  using assms unfolding timers_ok_def by auto

lemma request_at_same: "(\<And>x. x \<in> set ps \<Longrightarrow> timer_list c' x = timer_list c x) \<Longrightarrow> map (request_at c') ps = map (request_at c) ps"
  by (simp add: request_at_def)

lemma timers_ok_expire:
  assumes "timers_ok c xs" shows "expire run c = Some c"
proof (cases xs)
  case Nil
  then have "next_timer c = None" using assms by (simp add: timers_ok_def)
  then show ?thesis by (subst expire.simps) simp
next
  case (Cons p ps)
  then have "next_timer c = Some p" "0 < t_jiffies (timer_list c p)" using timers_ok_Cons [of c p ps] assms by auto
  then show ?thesis by (subst expire.simps) simp
qed

lemma tick_waits:
  assumes "timers_ok c (p # ps)" "t_jiffies (timer_list c p) \<noteq> 1"
  shows "\<exists>c0. tick_timers run c = Some c0 \<and> timers_ok c0 (p # ps) \<and>
    map (request_at c0) (p # ps) = tick_requests (map (request_at c) (p # ps)) \<and>
    c0 = c\<lparr>timer_list := timer_list c0, next_timer := next_timer c0\<rparr>"
proof -
  note xs = timers_ok_Cons [OF assms(1)]
  define c1 where "c1 = set_node p (\<lambda>n. n\<lparr>t_jiffies := s32 (t_jiffies n - 1)\<rparr>) c"
  have l: "timer_list c1 x = (if x = p then (timer_list c p)\<lparr>t_jiffies := t_jiffies (timer_list c p) - 1\<rparr> else timer_list c x)" for x
    using xs(6) [of p] by (simp add: c1_def)
  have pos: "0 < t_jiffies (timer_list c p) - 1" using xs(6) [of p] assms(2) by simp
  have ok: "timers_ok c1 (p # ps)" unfolding timers_ok_def
  proof (intro conjI)
    have "chain c1 (t_next (timer_list c p)) ps = chain c (t_next (timer_list c p)) ps" using xs(3) by (intro chain_cong) (auto simp: l)
    then show "chain c1 (next_timer c1) (p # ps)" using xs(1,2) l [of p] by (simp add: c1_def)
    show "\<forall>x \<in> set (p # ps). 0 < t_jiffies (timer_list c1 x) \<and> t_jiffies (timer_list c1 x) \<le> 2147483647"
    proof
      fix x assume "x \<in> set (p # ps)"
      from xs(6) [OF this] pos show "0 < t_jiffies (timer_list c1 x) \<and> t_jiffies (timer_list c1 x) \<le> 2147483647"
        by (cases "x = p") (simp_all add: l)
    qed
  qed (use xs l in auto)
  moreover have "tick_timers run c = Some c1" using timers_ok_expire [OF ok] by (simp add: tick_timers_def xs(1) c1_def)
  moreover have "map (request_at c1) (p # ps) = tick_requests (map (request_at c) (p # ps))"
    using assms(2) request_at_same [of ps c1 c] xs(3) l by (auto simp: request_at_def)
  moreover have "c1 = c\<lparr>timer_list := timer_list c1, next_timer := next_timer c1\<rparr>" by (simp add: c1_def set_node_def)
  ultimately show ?thesis by (intro exI conjI)
qed

lemma tick_due:
  assumes "timers_ok c (p # ps)" "t_jiffies (timer_list c p) = 1" "\<forall>f c. (\<exists>ys. timers_ok c ys) \<longrightarrow> (\<exists>ys. timers_ok (run f c) ys)"
  shows "\<exists>c0. tick_timers run c = Some (run (t_fn (timer_list c p)) c0) \<and> timers_ok c0 ps \<and>
    map (request_at c0) ps = tick_requests (map (request_at c) (p # ps)) \<and>
    c0 = c\<lparr>timer_list := timer_list c0, next_timer := next_timer c0\<rparr>"
proof -
  note xs = timers_ok_Cons [OF assms(1)]
  define c1 where "c1 = set_node p (\<lambda>n. n\<lparr>t_jiffies := s32 (t_jiffies n - 1)\<rparr>) c"
  define c2 where "c2 = (set_node p (\<lambda>n. n\<lparr>t_fn := 0\<rparr>) c1)\<lparr>next_timer := t_next (timer_list c p)\<rparr>"
  have l2: "timer_list c2 x = (if x = p then (timer_list c1 p)\<lparr>t_fn := 0\<rparr> else timer_list c x)"
    and n2: "next_timer c2 = t_next (timer_list c p)" for x by (simp_all add: c2_def c1_def)
  have ok: "timers_ok c2 ps" unfolding timers_ok_def
  proof (intro conjI)
    have "chain c2 (t_next (timer_list c p)) ps = chain c (t_next (timer_list c p)) ps" using xs(3) by (intro chain_cong) (auto simp: l2)
    then show "chain c2 (next_timer c2) ps" using xs(2) by (simp add: n2)
  qed (use xs l2 in auto)
  then obtain ys where "timers_ok (run (t_fn (timer_list c p)) c2) ys" using assms(3) by blast
  from timers_ok_expire [OF this] have "tick_timers run c = Some (run (t_fn (timer_list c p)) c2)"
    by (simp add: tick_timers_def xs(1), subst expire.simps) (simp add: c2_def c1_def xs(1) assms(2) Let_def)
  moreover have "map (request_at c2) ps = tick_requests (map (request_at c) (p # ps))"
    using assms(2) request_at_same [of ps c2 c] xs(3) l2 by (auto simp: request_at_def)
  moreover have "c2 = c\<lparr>timer_list := timer_list c2, next_timer := next_timer c2\<rparr>" by (simp add: c2_def c1_def set_node_def)
  ultimately show ?thesis using ok by (intro exI conjI)
qed

text \<open>C15. A clock tick refines the decrement of the first delay: a request whose delay ends is taken off the list and
  its entry becomes free, and only then is its function called, once; without such a request no function is called. No
  more than one request ends in a tick, and nothing but the requests changes otherwise. The functions may themselves make
  requests: all that is asked of them is that they leave a well-formed list.\<close>

theorem tick_timers_refines:
  assumes "timers_ok c xs" "\<forall>f c. (\<exists>ys. timers_ok c ys) \<longrightarrow> (\<exists>ys. timers_ok (run f c) ys)"
  shows "\<exists>c0 xs'. timers_ok c0 xs' \<and> map (request_at c0) xs' = tick_requests (map (request_at c) xs) \<and>
    c0 = c\<lparr>timer_list := timer_list c0, next_timer := next_timer c0\<rparr> \<and>
    tick_timers run c = Some (case map (request_at c) xs of [] \<Rightarrow> c0 | (d, f) # rs \<Rightarrow> if d = 1 then run f c0 else c0)"
proof (cases xs)
  case Nil
  then have "next_timer c = None" using assms(1) by (simp add: timers_ok_def)
  then show ?thesis using assms(1) Nil by (intro exI [of _ c] exI [of _ "[]"]) (simp add: tick_timers_def)
next
  case (Cons p ps)
  have r: "request_at c p = (t_jiffies (timer_list c p), t_fn (timer_list c p))" by (simp add: request_at_def)
  show ?thesis
  proof (cases "t_jiffies (timer_list c p) = 1")
    case True
    then obtain c0 where "tick_timers run c = Some (run (t_fn (timer_list c p)) c0)" "timers_ok c0 ps"
      "map (request_at c0) ps = tick_requests (map (request_at c) xs)" "c0 = c\<lparr>timer_list := timer_list c0, next_timer := next_timer c0\<rparr>"
      using tick_due [OF assms(1) [unfolded Cons] True assms(2)] unfolding Cons by blast
    with True show ?thesis by (intro exI [of _ c0] exI [of _ ps]) (simp add: Cons r)
  next
    case False
    then obtain c0 where "tick_timers run c = Some c0" "timers_ok c0 (p # ps)"
      "map (request_at c0) (p # ps) = tick_requests (map (request_at c) xs)" "c0 = c\<lparr>timer_list := timer_list c0, next_timer := next_timer c0\<rparr>"
      using tick_waits [OF assms(1) [unfolded Cons] False, of run] unfolding Cons by blast
    with False show ?thesis by (intro exI [of _ c0] exI [of _ "p # ps"]) (simp add: Cons r)
  qed
qed

section \<open>The motors\<close>

definition motor_on :: "clock \<Rightarrow> nat \<Rightarrow> bool" where
  "motor_on c i \<longleftrightarrow> bit (current_DOR c) (4 + i)"

lemma motor_bit: "push_bit i 0x10 AND (d :: u8) = (if bit d (4 + i) then push_bit i 0x10 else 0)"
proof -
  have "(0x10 :: u8) = push_bit 4 1" by (simp add: push_bit_eq_mult)
  then have e: "push_bit i (0x10 :: u8) = push_bit (4 + i) 1" by (simp only: push_bit_push_bit add.commute)
  show ?thesis unfolding e by (rule bit_word_eqI) (auto simp: bit_simps)
qed

lemma less_4_cases: "i < 4 \<Longrightarrow> i = 0 \<or> i = 1 \<or> i = 2 \<or> i = (3 :: nat)" by arith

lemma motor_mask_nz: "i < 4 \<Longrightarrow> push_bit i (0x10 :: u8) \<noteq> 0"
  by (drule less_4_cases, elim disjE) (simp_all add: push_bit_eq_mult)

lemma wake_up_wait_ptr: "wait_ptr (wake_up q k) p = (if p = q \<and> q \<noteq> 0 then 0 else wait_ptr k p)"
  by (simp add: wake_up_def Let_def)

text \<open>One round of the loop of \<open>do_floppy_timer\<close>.\<close>

definition motor_step :: "u32 \<Rightarrow> nat \<Rightarrow> clock \<times> kern \<Rightarrow> clock \<times> kern" where
  "motor_step wm i = (\<lambda>(c, k).
     if \<not> motor_on c i then (c, k)
     else if mon_timer c i \<noteq> 0 then
       (c\<lparr>mon_timer := (mon_timer c)(i := s32 (mon_timer c i - 1))\<rparr>,
        if s32 (mon_timer c i - 1) = 0 then wake_up (wait_motor wm i) k else k)
     else if moff_timer c i = 0 then
       (c\<lparr>current_DOR := current_DOR c AND NOT (push_bit i 0x10), dor_writes := dor_writes c @ [current_DOR c AND NOT (push_bit i 0x10)]\<rparr>, k)
     else (c\<lparr>moff_timer := (moff_timer c)(i := s32 (moff_timer c i - 1))\<rparr>, k))"

lemma floppy_timer_loop_Suc:
  "i < 4 \<Longrightarrow> floppy_timer_loop wm (Suc n) i (push_bit i 0x10) c k =
     (let (c, k) = motor_step wm i (c, k) in floppy_timer_loop wm n (Suc i) (push_bit (Suc i) 0x10) c k)"
  by (cases "motor_on c i"; cases "mon_timer c i = 0"; cases "moff_timer c i = 0")
    (simp_all add: motor_step_def motor_bit motor_mask_nz motor_on_def Let_def)

lemma do_floppy_timer_alt:
  "do_floppy_timer wm c k = motor_step wm 3 (motor_step wm 2 (motor_step wm 1 (motor_step wm 0 (c, k))))"
proof -
  have "do_floppy_timer wm c k = floppy_timer_loop wm (Suc (Suc (Suc (Suc 0)))) 0 (push_bit 0 0x10) c k"
    by (simp add: do_floppy_timer_def numeral_eq_Suc)
  then show ?thesis by (simp only: floppy_timer_loop_Suc split: prod.splits) (simp add: numeral_eq_Suc split: prod.splits)
qed

lemma motor_step_other:
  assumes "i < 4" "j < 4" "j \<noteq> i"
  shows "motor_on (fst (motor_step wm i s)) j = motor_on (fst s) j" "mon_timer (fst (motor_step wm i s)) j = mon_timer (fst s) j"
proof -
  have "(0x10 :: u8) = push_bit 4 1" by (simp add: push_bit_eq_mult)
  then have e: "push_bit i (0x10 :: u8) = push_bit (4 + i) 1" by (simp only: push_bit_push_bit add.commute)
  have b: "bit (NOT (push_bit i (0x10 :: u8))) (4 + j)" unfolding e using assms by (simp add: bit_simps)
  obtain c k where s: "s = (c, k)" by force
  show "motor_on (fst (motor_step wm i s)) j = motor_on (fst s) j" "mon_timer (fst (motor_step wm i s)) j = mon_timer (fst s) j"
    using assms b unfolding s by (simp_all add: motor_step_def motor_on_def bit_and_iff)
qed

lemma motor_step_wait: "wait_ptr (snd s) p = 0 \<Longrightarrow> wait_ptr (snd (motor_step wm i s)) p = 0"
  by (cases s) (auto simp: motor_step_def wake_up_wait_ptr)

lemma motor_step_self:
  assumes "motor_on (fst s) i" "0 < mon_timer (fst s) i" "mon_timer (fst s) i \<le> 2147483647" "wait_motor wm i \<noteq> 0"
  shows "motor_on (fst (motor_step wm i s)) i" "mon_timer (fst (motor_step wm i s)) i = mon_timer (fst s) i - 1"
    "mon_timer (fst s) i = 1 \<longrightarrow> wait_ptr (snd (motor_step wm i s)) (wait_motor wm i) = 0"
  using assms by (cases s; simp add: motor_step_def motor_on_def wake_up_wait_ptr)+

lemma do_floppy_timer_motor:
  assumes "i < 4" "motor_on c i" "0 < mon_timer c i" "mon_timer c i \<le> 2147483647" "wait_motor wm i \<noteq> 0"
    and "do_floppy_timer wm c k = (c', k')"
  shows "motor_on c' i \<and> mon_timer c' i = mon_timer c i - 1 \<and> (mon_timer c i = 1 \<longrightarrow> wait_ptr k' (wait_motor wm i) = 0)"
proof -
  define s1 where "s1 = motor_step wm 0 (c, k)"
  define s2 where "s2 = motor_step wm 1 s1"
  define s3 where "s3 = motor_step wm 2 s2"
  define s4 where "s4 = motor_step wm 3 s3"
  have e: "s4 = (c', k')" using assms(6) by (simp add: do_floppy_timer_alt s1_def s2_def s3_def s4_def)
  note d = s1_def s2_def s3_def s4_def
  note o = motor_step_other [where wm = wm] and w = motor_step_wait [where wm = wm]
  note self = motor_step_self [where wm = wm and i = i, OF _ _ _ assms(5)]
  from assms(1) consider "i = 0" | "i = 1" | "i = 2" | "i = 3" using less_4_cases by blast
  then have "motor_on (fst s4) i \<and> mon_timer (fst s4) i = mon_timer c i - 1 \<and> (mon_timer c i = 1 \<longrightarrow> wait_ptr (snd s4) (wait_motor wm i) = 0)"
  proof cases
    case 1
    have "motor_on (fst s1) i \<and> mon_timer (fst s1) i = mon_timer c i - 1 \<and> (mon_timer c i = 1 \<longrightarrow> wait_ptr (snd s1) (wait_motor wm i) = 0)"
      unfolding s1_def using self [of "(c, k)"] assms 1 by simp
    then show ?thesis unfolding s4_def s3_def s2_def using 1 by (simp add: o w)
  next
    case 2
    have "motor_on (fst s1) i" "mon_timer (fst s1) i = mon_timer c i" unfolding s1_def using 2 assms by (simp_all add: o)
    then have "motor_on (fst s2) i \<and> mon_timer (fst s2) i = mon_timer c i - 1 \<and> (mon_timer c i = 1 \<longrightarrow> wait_ptr (snd s2) (wait_motor wm i) = 0)"
      unfolding s2_def using self [of s1] assms 2 by simp
    then show ?thesis unfolding s4_def s3_def using 2 by (simp add: o w)
  next
    case 3
    have "motor_on (fst s2) i" "mon_timer (fst s2) i = mon_timer c i" unfolding s1_def s2_def using 3 assms by (simp_all add: o)
    then have "motor_on (fst s3) i \<and> mon_timer (fst s3) i = mon_timer c i - 1 \<and> (mon_timer c i = 1 \<longrightarrow> wait_ptr (snd s3) (wait_motor wm i) = 0)"
      unfolding s3_def using self [of s2] assms 3 by simp
    then show ?thesis unfolding s4_def using 3 by (simp add: o w)
  next
    case 4
    have "motor_on (fst s3) i" "mon_timer (fst s3) i = mon_timer c i" unfolding s1_def s2_def s3_def using 4 assms by (simp_all add: o)
    then show ?thesis unfolding s4_def using self [of s3] assms 4 by simp
  qed
  then show ?thesis unfolding e by simp
qed

text \<open>\<open>n\<close> clock ticks, as far as the floppies go.\<close>

fun floppy_ticks :: "u32 \<Rightarrow> nat \<Rightarrow> clock \<times> kern \<Rightarrow> clock \<times> kern" where
  "floppy_ticks wm 0 s = s"
| "floppy_ticks wm (Suc n) s = floppy_ticks wm n (do_floppy_timer wm (fst s) (snd s))"

lemma floppy_ticks_motor:
  assumes "i < 4" "wait_motor wm i \<noteq> 0"
  shows "motor_on c i \<Longrightarrow> mon_timer c i = int n \<Longrightarrow> 0 < n \<Longrightarrow> n \<le> 2147483647 \<Longrightarrow> floppy_ticks wm n (c, k) = (c', k') \<Longrightarrow>
    motor_on c' i \<and> mon_timer c' i = 0 \<and> wait_ptr k' (wait_motor wm i) = 0"
proof (induction n arbitrary: c k)
  case (Suc n)
  obtain c1 k1 where s: "do_floppy_timer wm c k = (c1, k1)" by force
  have d: "motor_on c1 i" "mon_timer c1 i = int n" "n = 0 \<Longrightarrow> wait_ptr k1 (wait_motor wm i) = 0"
    using do_floppy_timer_motor [OF assms(1) Suc.prems(1) _ _ assms(2) s] Suc.prems by simp_all
  show ?case
  proof (cases "n = 0")
    case True
    then show ?thesis using d Suc.prems(5) s by simp
  next
    case False
    then show ?thesis using Suc.IH [OF d(1,2)] Suc.prems(4,5) s by simp
  qed
qed simp

lemma motor_on_request:
  assumes "ticks_to_floppy_on nr c = Inr (t, c1)" shows "nr < 4" "motor_on c1 nr" "t = mon_timer c1 nr"
proof -
  show nr: "nr < 4" using assms by (auto simp: ticks_to_floppy_on_def split: if_splits)
  show "t = mon_timer c1 nr" using assms by (auto simp: ticks_to_floppy_on_def Let_def split: if_splits)
  define m where "m = push_bit nr 0x10 OR current_DOR c"
  define m' where "m' = (if selected c then m else m AND 0xFC OR of_nat nr)"
  have "current_DOR c1 = m'"
    using assms nr unfolding ticks_to_floppy_on_def m_def m'_def Let_def by (auto split: if_splits)
  moreover have "bit m (4 + nr)" "bit (0xFC :: u8) (4 + nr)"
    using less_4_cases [OF nr] by (auto simp: m_def bit_or_iff)
  ultimately show "motor_on c1 nr" by (simp add: motor_on_def m'_def bit_or_iff bit_and_iff)
qed

text \<open>A task that waits for a floppy motor is woken: when \<open>ticks_to_floppy_on\<close> asks for \<open>n\<close> ticks, then after
  \<open>n\<close> clock ticks the motor is on and up to speed, and nobody sleeps on its wait variable any more,
  whatever the other motors do meanwhile.\<close>

theorem floppy_comes_up:
  assumes "ticks_to_floppy_on nr c = Inr (int n, c1)" "0 < n" "n \<le> 2147483647" "wait_motor wm nr \<noteq> 0"
    and "floppy_ticks wm n (c1, k) = (c', k')"
  shows "motor_on c' nr \<and> mon_timer c' nr = 0 \<and> wait_ptr k' (wait_motor wm nr) = 0"
  using floppy_ticks_motor [OF _ assms(4)] motor_on_request [OF assms(1)] assms by metis

section \<open>Concrete clocks\<close>

text \<open>Two requests, due in 5 and in 9 ticks.\<close>

definition clock2 :: clock where
  "clock2 = \<lparr>timer_list = (\<lambda>_. \<lparr>t_jiffies = 0, t_fn = 0, t_next = None\<rparr>)
     (0 := \<lparr>t_jiffies = 4, t_fn = 0x90, t_next = None\<rparr>, 1 := \<lparr>t_jiffies = 5, t_fn = 0x50, t_next = Some 0\<rparr>),
     next_timer = Some 1, mon_timer = (\<lambda>_. 0), moff_timer = (\<lambda>_. 0), current_DOR = 0x0C, selected = False,
     beepcount = 0, dor_writes = []\<rparr>"

lemma clock2_ok: "timers_ok clock2 [1, 0]"
  by (auto simp: timers_ok_def clock2_def TIME_REQUESTS_def)

theorem add_timer_inserts_witness:
  "\<exists>c' p. add_timer (\<lambda>_ c. c) 7 0x70 clock2 = Inr c' \<and> map (request_at c') [p, 1, 0] = [(5, 0x50), (2, 0x70), (4, 0x90)]"
proof -
  have "map (request_at clock2) [1, 0] = [(5, 0x50), (4, 0x90)]" by (simp add: request_at_def clock2_def)
  then show ?thesis using add_timer_inserts [OF clock2_ok, of "0x70" 7 "\<lambda>_ c. c"] by (auto simp: TIME_REQUESTS_def)
qed

theorem add_timer_delays_later_witness:
  "\<exists>c' ps. add_timer (\<lambda>_ c. c) 7 0x70 clock2 = Inr c' \<and>
     due (map (request_at clock2) [1, 0]) = [(5, 0x50), (9, 0x90)] \<and>
     (\<exists>late > 0. due (map (request_at c') ps) = [(5, 0x50), (7, 0x70), (9 + late, 0x90)])"
proof -
  have d: "due (map (request_at clock2) [1, 0]) = [(5, 0x50), (9, 0x90)]" by (simp add: request_at_def clock2_def)
  have "\<exists>c' ps late. add_timer (\<lambda>_ c. c) 7 0x70 clock2 = Inr c' \<and> timers_ok c' ps \<and> 0 < late \<and>
      due (map (request_at c') ps) = [(5, 0x50)] @ (7, 0x70) # map (\<lambda>(t, g). (t + late, g)) [(9, 0x90)]"
    by (rule add_timer_delays_later [OF clock2_ok]) (unfold d, simp_all add: TIME_REQUESTS_def)
  then show ?thesis unfolding d by auto
qed

theorem tick_timers_refines_witness:
  "\<exists>c'. tick_timers (\<lambda>f c. c\<lparr>beepcount := uint f\<rparr>) (set_node 1 (\<lambda>n. n\<lparr>t_jiffies := 1\<rparr>) clock2) = Some c' \<and> beepcount c' = 0x50 \<and>
     (\<exists>xs'. map (request_at c') xs' = [(4, 0x90)])"
proof -
  let ?run = "\<lambda>f c. c\<lparr>beepcount := uint (f :: u32)\<rparr>" and ?c = "set_node 1 (\<lambda>n. n\<lparr>t_jiffies := 1\<rparr>) clock2"
  have ok: "timers_ok ?c [1, 0]"
    using clock2_ok by (auto simp: timers_ok_def clock2_def TIME_REQUESTS_def)
  have ch: "chain (c\<lparr>beepcount := x\<rparr>) p ys = chain c p ys" for c x p ys by (rule chain_cong) simp
  have run: "\<forall>f c. (\<exists>ys. timers_ok c ys) \<longrightarrow> (\<exists>ys. timers_ok (?run f c) ys)"
    by (simp add: timers_ok_def ch)
  have m: "map (request_at ?c) [1, 0] = [(1, 0x50), (4, 0x90)]" by (simp add: request_at_def clock2_def)
  obtain c0 xs' where c0: "map (request_at c0) xs' = [(4, 0x90)]" "tick_timers ?run ?c = Some (?run 0x50 c0)"
    using tick_timers_refines [OF ok run] unfolding m by (elim exE conjE) simp
  have "map (request_at (?run 0x50 c0)) xs' = [(4, 0x90)]" unfolding c0(1) [symmetric] by (simp add: request_at_def)
  then have e: "\<exists>xs'. map (request_at (?run 0x50 c0)) xs' = [(4, 0x90)]" ..
  have "beepcount (?run 0x50 c0) = 0x50" by (cases c0) simp
  then show ?thesis by (intro exI [of _ "?run 0x50 c0"] conjI) (rule c0(2), assumption, rule e)
qed

theorem floppy_comes_up_witness:
  "\<exists>c1 c' k'. ticks_to_floppy_on 2 clock2 = Inr (50, c1) \<and> floppy_ticks 0x100 50 (c1, kern1) = (c', k') \<and>
     motor_on c' 2 \<and> mon_timer c' 2 = 0"
proof -
  have "\<exists>c1. ticks_to_floppy_on 2 clock2 = Inr (int 50, c1)"
    by (simp add: ticks_to_floppy_on_def clock2_def HZ_def Let_def)
  then obtain c1 where c1: "ticks_to_floppy_on 2 clock2 = Inr (int 50, c1)" ..
  obtain c' k' where t: "floppy_ticks 0x100 50 (c1, kern1) = (c', k')" by force
  have "wait_motor 0x100 2 \<noteq> 0" by (simp add: wait_motor_def)
  from floppy_comes_up [OF c1 _ _ this t] c1 t show ?thesis by auto
qed

end
