(* ===== verification/Fault.thy ===== *)
theory Fault imports Exit begin

text \<open>
  Page faults on missing pages (the last part of \<open>mm/memory.c\<close>, Lab 6): a page of the executable is
  shared with another task that runs the same file when it can be, and read from the file when not.

  \<open>bmap\<close> and \<open>bread_page\<close> are functions of the file system, which is not part of the repository, and so is
  the device of an inode: they are parameters.
\<close>

unbundle bit_operations_syntax

section \<open>Sharing a page\<close>

text \<open>The page table of the current task, made when it is missing; 0 when there is no page for it.\<close>

definition to_table :: "u32 \<Rightarrow> mm \<Rightarrow> u32 \<times> mm" where
  "to_table to_dir s =
     (if mem s to_dir AND 1 = 0
      then (let (to, s) = get_free_page s in (to, if to \<noteq> 0 then store to_dir (to OR 7) s else s))
      else (mem s to_dir, s))"

definition share_pages :: "u32 \<Rightarrow> u32 \<Rightarrow> u32 \<Rightarrow> mm \<Rightarrow> mm_stop + bool \<times> mm" where
  "share_pages from_page to_dir address s =
     (let phys_addr = mem s from_page in
      if phys_addr AND 0x41 \<noteq> 1 then Inr (False, s)
      else let phys_addr = phys_addr AND 0xfffff000 in
        if phys_addr \<ge> HIGH_MEMORY s \<or> phys_addr < LOW_MEM then Inr (False, s)
        else let (to, s) = to_table to_dir s in
          if to = 0 then Inl (Oom s)
          else let to_page = (to AND 0xfffff000) + (drop_bit 10 address AND 0xffc) in
            if 1 AND mem s to_page \<noteq> 0 then Inl (MPanic ''try_to_share: to_page already exists'')
            else let s = store from_page (mem s from_page AND NOT 2) s;
                     s = store to_page (mem s from_page) s;
                     i = MAP_NR phys_addr
                 in Inr (True, s\<lparr>mem_map := (mem_map s)(i := mem_map s i + 1)\<rparr>))"

definition try_to_share :: "u32 \<Rightarrow> u32 \<Rightarrow> kern \<Rightarrow> mm_stop + bool \<times> mm" where
  "try_to_share address p k =
     (let s = kmm k;
          from_dir = (drop_bit 20 address AND 0xffc) + (drop_bit 20 (start_code (ts k p)) AND 0xffc);
          to_dir = (drop_bit 20 address AND 0xffc) + (drop_bit 20 (start_code (cur k)) AND 0xffc);
          from = mem s from_dir
      in if from AND 1 = 0 then Inr (False, s)
         else share_pages ((from AND 0xfffff000) + (drop_bit 10 address AND 0xffc)) to_dir address s)"

text \<open>The loop of \<open>share_page\<close> over the slots \<open>n\<close>, ..., 1.\<close>

fun share_loop :: "nat \<Rightarrow> u32 \<Rightarrow> kern \<Rightarrow> mm_stop + bool \<times> mm" where
  "share_loop 0 address k = Inr (False, kmm k)"
| "share_loop (Suc n) address k =
     (let p = task k (Suc n) in
      if p = 0 \<or> current k = p \<or> executable (ts k p) \<noteq> executable (cur k) then share_loop n address k
      else sbind (try_to_share address p k) (\<lambda>(ok, s).
             if ok then Inr (True, s) else share_loop n address (k\<lparr>kmm := s\<rparr>)))"

definition share_page :: "u32 \<Rightarrow> kern \<Rightarrow> mm_stop + bool \<times> mm" where
  "share_page address k =
     (if executable (cur k) = 0 then Inr (False, kmm k)
      else if i_count k (executable (cur k)) < 2 then Inr (False, kmm k)
      else share_loop (NR_TASKS - 1) address k)"

section \<open>do_no_page\<close>

text \<open>A byte of the memory, which the model keeps as words.\<close>

definition store_byte :: "u32 \<Rightarrow> u8 \<Rightarrow> mm \<Rightarrow> mm" where
  "store_byte a b s =
     (let w = a AND NOT 3; sh = 8 * unat (a AND 3)
      in store w ((mem s w AND NOT (push_bit sh 0xff)) OR push_bit sh (ucast b)) s)"

text \<open>\<open>while (i-- > 0) { tmp--; *(char *)tmp = 0; }\<close>\<close>

fun zero_tail :: "nat \<Rightarrow> u32 \<Rightarrow> mm \<Rightarrow> mm" where
  "zero_tail 0 tmp s = s"
| "zero_tail (Suc i) tmp s = zero_tail i (tmp - 1) (store_byte (tmp - 1) 0 s)"

definition BLOCK_SIZE :: nat where "BLOCK_SIZE = 1024"

definition do_no_page ::
  "(u32 \<Rightarrow> nat \<Rightarrow> int) \<Rightarrow> (u32 \<Rightarrow> u32) \<Rightarrow> (u32 \<Rightarrow> u32 \<Rightarrow> int list \<Rightarrow> mm \<Rightarrow> mm) \<Rightarrow> u32 \<Rightarrow> kern \<Rightarrow> mm_stop + mm" where
  "do_no_page bmap i_dev bread_page address k =
     (let address = address AND 0xfffff000; tmp = address - start_code (cur k) in
      if executable (cur k) = 0 \<or> tmp \<ge> end_data (cur k) then get_empty_page address (kmm k)
      else sbind (share_page tmp k) (\<lambda>(ok, s).
        if ok then Inr s
        else let (page, s) = get_free_page s in
          if page = 0 then Inl (Oom s)
          else let b = 1 + unat tmp div BLOCK_SIZE;
                   nr = map (\<lambda>i. bmap (executable (cur k)) (b + i)) [0..<4];
                   s = bread_page page (i_dev (executable (cur k))) nr s;
                   i = s32 (uint (tmp + 4096 - end_data (cur k)));
                   s = zero_tail (nat i) (page + 4096) s;
                   (r, s) = put_page page address s
               in if r \<noteq> 0 then Inr s
                  else sbind (free_page page s) (\<lambda>s. Inl (Oom s))))"

section \<open>Addresses\<close>

lemma slot_addr:
  assumes "b AND 0x3fffff = 0" "unat a + unat b < 4294967296"
  shows "(drop_bit 20 a AND 0xffc) + (drop_bit 20 b AND 0xffc) = pde_addr (b + a)"
    "drop_bit 10 a AND 0xffc = pte_slot (b + a)" "(b + a) AND 0xfff = a AND 0xfff"
proof -
  have b: "unat b = 4194304 * dix b" by (rule aligned_4M [OF assms(1)])
  have ab: "unat (b + a) = 4194304 * dix b + unat a" using assms(2) b by (simp add: unat_word_ariths)
  have less: "unat a div 4194304 < 1024" "dix b < 1024"
    using dix_less [of a] dix_less [of b] by (simp_all add: dix_def)
  have "unat (b + a) div 4194304 = unat a div 4194304 + dix b"
    unfolding ab by simp
  then show "(drop_bit 20 a AND 0xffc) + (drop_bit 20 b AND 0xffc) = pde_addr (b + a)"
    unfolding pde_addr_alt word_unat_eq_iff
    using less b by (subst unat_pde_addr, simp only: unat_word_ariths unat_pde_addr) simp
  have "(4194304 * dix b + unat a) div 4096 = unat a div 4096 + 1024 * dix b"
  proof -
    have "4194304 * dix b + unat a = unat a + (1024 * dix b) * 4096" by simp
    then show ?thesis by (simp only: div_mult_self1)
  qed
  then show "drop_bit 10 a AND 0xffc = pte_slot (b + a)"
    unfolding pte_slot_alt word_unat_eq_iff unat_pte_slot ab by simp
  have "(4194304 * dix b + unat a) mod 4096 = unat a mod 4096"
  proof -
    have "4194304 * dix b + unat a = unat a + (1024 * dix b) * 4096" by simp
    then show ?thesis by (simp only: mod_mult_self1)
  qed
  then show "(b + a) AND 0xfff = a AND 0xfff" by (simp add: word_unat_eq_iff unat_fff ab)
qed

lemma store_pte_wf:
  assumes "pt_wf s" "mem s (pde_addr a) AND 1 \<noteq> 0"
  shows "pt_wf (store (pte_addr s a) v s)" "mem (store (pte_addr s a) v s) (pde_addr l) = mem s (pde_addr l)"
proof -
  show e: "mem (store (pte_addr s a) v s) (pde_addr l) = mem s (pde_addr l)" for l
    using pt_addr_neq [of "page_base (mem s (pde_addr a))"] pt_wf_frame [OF assms] by (simp add: pte_addr_alt)
  show "pt_wf (store (pte_addr s a) v s)"
    by (rule pt_wf_cong [OF assms(1) e]) (simp add: page_free_def)
qed

text \<open>The two stores of \<open>try_to_share\<close>, once the page tables of both addresses are there.\<close>

lemma share_stores:
  assumes vm: "vm_wf s" and us: "USER_SPACE \<le> F" and F: "mem s (pde_addr F) AND 1 \<noteq> 0" and T: "mem s (pde_addr T) AND 1 \<noteq> 0"
    and e: "e = mem s (pte_addr s F)" "e AND 1 \<noteq> 0" and ne: "drop_bit 12 F \<noteq> drop_bit 12 T"
    and m: "LOW_MEM \<le> page_base e" "mem_map s (MAP_NR (page_base e)) \<noteq> 255"
    and s1: "s1 = store (pte_addr s F) (e AND NOT 2) s" and s2: "s2 = store (pte_addr s T) (mem s1 (pte_addr s F)) s1"
    and s3: "s3 = s2\<lparr>mem_map := (mem_map s2)(MAP_NR (page_base e) := mem_map s2 (MAP_NR (page_base e)) + 1)\<rparr>"
  shows "translate s3 l = (if drop_bit 12 l = drop_bit 12 T then Some (page_base e + (l AND 0xfff)) else translate s l) \<and>
    mem s3 (pte_addr s3 F) AND 2 = 0 \<and> mem s3 (pte_addr s3 T) AND 2 = 0 \<and>
    mem_map s3 (MAP_NR (page_base e)) = mem_map s (MAP_NR (page_base e)) + 1 \<and> vm_wf s3"
proof -
  have pt: "pt_wf s" using vm by (simp add: vm_wf_def)
  have e': "e AND NOT 2 = no_write e" by (simp only: no_write_def)
  have s1: "s1 = store (pte_addr s F) (no_write e) s" using s1 unfolding e' .
  have nw: "no_write e AND 2 = 0" using copied_simps(2) [of e] e(2) by (simp add: copied_def)
  have tF: "translate s F = Some (page_base e + (F AND 0xfff))"
    using F e by (simp add: translate_def Let_def page_base_def)
  have "translate (store (pte_addr s F) e s) l = translate s l" for l by (simp add: e(1) store_def)
  then have same: "translate s l = Some (page_base e + (l AND 0xfff))" if "drop_bit 12 l = drop_bit 12 F" for l
    using translate_store_pte [OF pt F, of e l] that e(2) by (simp add: page_base_def)
  have tr1: "translate s1 l = translate s l" for l
    unfolding s1 translate_store_pte [OF pt F] using same [of l] e(2) by (auto simp: page_base_def [symmetric])
  note w1 = store_pte_wf [OF pt F, of "no_write e", folded s1]
  have p1: "pte_addr s1 l = pte_addr s l" for l by (simp add: pte_addr_alt w1(2))
  have v: "mem s1 (pte_addr s F) = no_write e" by (simp add: s1)
  have s2: "s2 = store (pte_addr s1 T) (no_write e) s1" using s2 by (simp add: v p1)
  have T1: "mem s1 (pde_addr T) AND 1 \<noteq> 0" using T by (simp add: w1(2))
  note w2 = store_pte_wf [OF w1(1) T1, of "no_write e", folded s2]
  have tr2: "translate s2 l = (if drop_bit 12 l = drop_bit 12 T then Some (page_base e + (l AND 0xfff)) else translate s l)" for l
    unfolding s2 translate_store_pte [OF w1(1) T1] tr1 using e(2) by (simp add: page_base_def [symmetric])
  have mem3: "mem s3 = mem s2" by (simp add: s3)
  have tr3: "translate s3 l = translate s2 l" for l by (rule translate_cong) (simp_all add: mem3)
  have p3: "pte_addr s3 l = pte_addr s l" for l by (simp add: pte_addr_alt mem3 w2(2) w1(2))
  have mm: "mem_map s3 i = (if i = MAP_NR (page_base e) then mem_map s i + 1 else mem_map s i)" for i
    by (simp add: s3 s2 s1 store_def)
  have nz: "mem_map s (MAP_NR (page_base e)) + 1 \<noteq> 0"
  proof
    assume "mem_map s (MAP_NR (page_base e)) + 1 = 0"
    then have "mem_map s (MAP_NR (page_base e)) = - 1" by (simp add: eq_neg_iff_add_eq_0)
    then show False using m(2) by simp
  qed
  have free: "page_free s3 f \<Longrightarrow> page_free s f" for f
    using nz by (auto simp: page_free_def mm split: if_splits)
  have pw: "pt_wf s3" by (rule pt_wf_cong [OF w2(1)]) (use free in \<open>auto simp: mem3 page_free_def s2 s1 store_def\<close>)
  have "\<not> page_free s (page_base e)" using vm_wf_page [OF vm us tF] by simp
  then have vm3: "vm_wf s3"
    using vm pw free by (intro vm_wfI) (auto simp: tr3 tr2 vm_wf_def split: if_splits)
  show ?thesis
    using vm3 by (simp add: tr3 tr2 p3 mem3 mm) (simp add: s2 p1 v nw)
qed

lemma new_table_vm:
  assumes vm: "vm_wf s" and F: "mem s (pde_addr F) AND 1 \<noteq> 0" and np: "mem s (pde_addr T) AND 1 = 0"
    and g: "get_free_page s = (p, s0)" "p \<noteq> 0" and t: "t = store (pde_addr T) (p OR 7) s0"
  shows "vm_wf t" "translate t l = translate s l" "mem t (pde_addr T) = p OR 7" "mem t (pde_addr F) = mem s (pde_addr F)"
    "mem t (pte_addr s F) = mem s (pte_addr s F)" "\<not> page_free s f \<Longrightarrow> page_base f = f \<Longrightarrow> LOW_MEM \<le> f \<Longrightarrow> mem_map t (MAP_NR f) = mem_map s (MAP_NR f)"
    "page_base p = p"
proof -
  have pt: "pt_wf s" using vm by (simp add: vm_wf_def)
  obtain i where i: "i < PAGING_PAGES" "mem_map s i = 0" "p = page_addr i"
    "s0 = s\<lparr>mem_map := (mem_map s)(i := 1), mem := clear_page (page_addr i) (mem s)\<rparr>"
    using g by (cases rule: get_free_page_cases [of s]) auto
  have t': "t = store (pde_addr T) (page_addr i OR 7) (s\<lparr>mem_map := (mem_map s)(i := 1), mem := clear_page (page_addr i) (mem s)\<rparr>)"
    using t i by simp
  note nt = translate_new_table [OF pt np i(1,2) t']
  have free: "page_free t f \<Longrightarrow> page_free s f" for f by (auto simp: page_free_def t' store_def split: if_splits)
  show "vm_wf t" using vm nt(2) free by (intro vm_wfI) (auto simp: nt(1) vm_wf_def)
  show "translate t l = translate s l" "mem t (pde_addr T) = p OR 7" "page_base p = p" using nt i by simp_all
  have FT: "pde_addr F \<noteq> pde_addr T" using F np by auto
  have "page_free s p" using i by (auto simp: page_free_def)
  then have tab: "page_base (mem s (pde_addr F)) \<noteq> p" using pt_wf_frame [OF pt F] by auto
  show "mem t (pde_addr F) = mem s (pde_addr F)" using FT i(1) by (simp add: t')
  have "pte_addr s F \<noteq> pde_addr T" using pt_addr_neq [of "page_base (mem s (pde_addr F))"] pt_wf_frame [OF pt F]
    by (simp add: pte_addr_alt)
  then show "mem t (pte_addr s F) = mem s (pte_addr s F)" using tab i by (simp add: t' clear_page_def pte_addr_page)
  show "mem_map t (MAP_NR f) = mem_map s (MAP_NR f)" if f: "\<not> page_free s f" "page_base f = f" "LOW_MEM \<le> f"
  proof -
    have "f \<noteq> page_addr i" using f(1) i(1,2) by (auto simp: page_free_def)
    then have "MAP_NR f \<noteq> i" using i(1) by (intro MAP_NR_neq f(2,3)) simp_all
    then show ?thesis by (simp add: t' store_def)
  qed
qed

text \<open>\<open>try_to_share\<close> says yes only when the page is there and clean: then the address of the current task
  translates to the page of the other one, both entries are read-only, the page has one user more, no
  other address of any task changes, and the page tables stay well-formed.\<close>

theorem try_to_share_shares:
  assumes "vm_wf (kmm k)" "try_to_share address p k = Inr (True, s')"
    and "start_code (ts k p) AND 0x3fffff = 0" "start_code (cur k) AND 0x3fffff = 0"
    and "unat address + unat (start_code (ts k p)) < 4294967296" "unat address + unat (start_code (cur k)) < 4294967296"
    and "F = start_code (ts k p) + address" "T = start_code (cur k) + address" "drop_bit 12 F \<noteq> drop_bit 12 T"
    and "\<forall>i. mem_map (kmm k) i \<noteq> 255" "USER_SPACE \<le> F"
  shows "\<exists>f. translate (kmm k) F = Some f \<and> mem (kmm k) (pte_addr (kmm k) F) AND 0x40 = 0 \<and> translate (kmm k) T = None \<and>
    (\<forall>l. translate s' l = (if drop_bit 12 l = drop_bit 12 T then Some (page_base f + (l AND 0xfff)) else translate (kmm k) l)) \<and>
    mem s' (pte_addr s' F) AND 2 = 0 \<and> mem s' (pte_addr s' T) AND 2 = 0 \<and>
    mem_map s' (MAP_NR (page_base f)) = mem_map (kmm k) (MAP_NR (page_base f)) + 1 \<and> vm_wf s'"
proof -
  let ?s = "kmm k"
  note aF = slot_addr [OF assms(3,5), folded assms(7)] and aT = slot_addr [OF assms(4,6), folded assms(8)]
  have F: "mem ?s (pde_addr F) AND 1 \<noteq> 0"
    and sh: "share_pages (pte_addr ?s F) (pde_addr T) address ?s = Inr (True, s')"
    using assms(2) unfolding try_to_share_def Let_def aF(1) aT(1) aF(2)
    by (auto simp: pte_addr_alt page_base_def and.commute split: if_splits)
  define e where "e = mem ?s (pte_addr ?s F)"
  obtain to t where tt0: "to_table (pde_addr T) ?s = (to, t)" by force
  have pb: "page_base e = e AND 0xfffff000" by (simp only: page_base_def)
  have ph: "e AND 0x41 = 1" "LOW_MEM \<le> page_base e" and hi: "\<not> (e AND 0xfffff000 \<ge> HIGH_MEMORY ?s \<or> e AND 0xfffff000 < LOW_MEM)"
    and to: "to \<noteq> 0"
    using sh unfolding share_pages_def Let_def e_def [symmetric] tt0 pb
    by (auto simp: not_less split: if_splits)
  have e1: "e AND 1 \<noteq> 0" "e AND 0x40 = 0"
  proof -
    have "e AND 1 = (e AND 0x41) AND 1" by (simp add: and.assoc)
    then show "e AND 1 \<noteq> 0" unfolding ph(1) by simp
    have "e AND 0x40 = (e AND 0x41) AND 0x40" by (simp add: and.assoc)
    then show "e AND 0x40 = 0" unfolding ph(1) by simp
  qed
  have tF: "translate ?s F = Some (page_base e + (F AND 0xfff))"
    using F e1 by (simp add: translate_def Let_def page_base_def e_def)
  have nf: "\<not> page_free ?s (page_base e)" using vm_wf_page [OF assms(1,11) tF] by simp
  have tt: "vm_wf t" "\<And>l. translate t l = translate ?s l" "mem t (pde_addr T) AND 1 \<noteq> 0" "mem t (pde_addr F) = mem ?s (pde_addr F)"
    "mem t (pte_addr ?s F) = e" "mem_map t (MAP_NR (page_base e)) = mem_map ?s (MAP_NR (page_base e))"
    "page_base to = page_base (mem t (pde_addr T))"
  proof -
    have "vm_wf t \<and> (\<forall>l. translate t l = translate ?s l) \<and> mem t (pde_addr T) AND 1 \<noteq> 0 \<and> mem t (pde_addr F) = mem ?s (pde_addr F) \<and>
      mem t (pte_addr ?s F) = e \<and> mem_map t (MAP_NR (page_base e)) = mem_map ?s (MAP_NR (page_base e)) \<and>
      page_base to = page_base (mem t (pde_addr T))"
    proof (cases "mem ?s (pde_addr T) AND 1 = 0")
      case True
      then obtain s0 where t: "get_free_page ?s = (to, s0)" "t = store (pde_addr T) (to OR 7) s0"
        using tt0 to by (auto simp: to_table_def split: prod.splits)
      note n = new_table_vm [OF assms(1) F True t(1) to t(2)]
      show ?thesis using n nf ph(2) by (simp add: e_def or_7_and_1)
    qed (use tt0 assms(1) in \<open>auto simp: to_table_def e_def\<close>)
    then show "vm_wf t" "\<And>l. translate t l = translate ?s l" "mem t (pde_addr T) AND 1 \<noteq> 0" "mem t (pde_addr F) = mem ?s (pde_addr F)"
      "mem t (pte_addr ?s F) = e" "mem_map t (MAP_NR (page_base e)) = mem_map ?s (MAP_NR (page_base e))"
      "page_base to = page_base (mem t (pde_addr T))" by blast+
  qed
  have pF: "pte_addr t F = pte_addr ?s F" by (simp add: pte_addr_alt tt(4))
  define s1 where "s1 = store (pte_addr t F) (e AND NOT 2) t"
  define s2 where "s2 = store (pte_addr t T) (mem s1 (pte_addr t F)) s1"
  define s3 where "s3 = s2\<lparr>mem_map := (mem_map s2)(MAP_NR (page_base e) := mem_map s2 (MAP_NR (page_base e)) + 1)\<rparr>"
  have "(to AND 0xfffff000) + (drop_bit 10 address AND 0xffc) = pte_addr t T"
    using tt(7) by (simp add: aT(2) pte_addr_alt) (simp add: page_base_def)
  then have cont: "s' = s3 \<and> mem t (pte_addr t T) AND 1 = 0"
    using sh ph(1) hi to unfolding share_pages_def e_def [symmetric] Let_def tt0 prod.case s3_def s2_def s1_def pb pF
    by (simp add: tt(5) and.commute split: if_splits)
  have "translate t T = None" using cont tt(3) by (simp add: translate_def Let_def)
  then have nT: "translate ?s T = None" by (simp add: tt(2))
  have off: "page_base (page_base e + (F AND 0xfff)) = page_base e" by simp
  show ?thesis
  proof (intro exI [of _ "page_base e + (F AND 0xfff)"] conjI allI)
    fix l
    note ss = share_stores [OF tt(1) assms(11) _ tt(3) _ e1(1) assms(9) ph(2) _ s1_def s2_def s3_def, unfolded tt(4,5) pF, OF F refl]
    show "translate ?s F = Some (page_base e + (F AND 0xfff))" by (rule tF)
    show "translate ?s T = None" by (rule nT)
    show "mem ?s (pte_addr ?s F) AND 0x40 = 0" using e1 by (simp add: e_def)
  qed (unfold off, use share_stores [OF tt(1) assms(11) _ tt(3) _ e1(1) assms(9) ph(2) _ s1_def s2_def s3_def, unfolded tt(4-6) pF, OF F refl] assms(10) cont tt in auto)
qed

section \<open>A concrete fault\<close>

definition kern_fault :: kern where
  "kern_fault = (kern1\<lparr>kmm := mm_one, ts := (ts kern1)(0x200000 := (ts kern1 0x200000)\<lparr>start_code := 0x8000000\<rparr>,
     0x201000 := (ts kern1 0x201000)\<lparr>start_code := 0x4000000\<rparr>)\<rparr>)"

lemma mm_one_entry:
  "mem mm_one 128 = page_addr 99 OR 7" "mem mm_one (page_addr 99 + 4) = page_addr 500 OR 7" "HIGH_MEMORY mm_one = 0x1000000"
proof -
  let ?a = "0x8001234 :: u32"
  have "pde_addr ?a = 128" "pte_slot ?a = 4" by (simp_all add: word_unat_eq_iff unat_pde_addr unat_pte_slot)
  moreover have "page_addr 99 + 4 \<noteq> (128 :: u32)" by (simp add: word_unat_eq_iff unat_word_ariths unat_page_addr)
  ultimately show "mem mm_one 128 = page_addr 99 OR 7" "mem mm_one (page_addr 99 + 4) = page_addr 500 OR 7" "HIGH_MEMORY mm_one = 0x1000000"
    unfolding mm_one_alt by (simp_all add: store_def) (simp add: mm_start_def)
qed

theorem try_to_share_shares_witness:
  "\<exists>s'. try_to_share 0x1234 0x200000 kern_fault = Inr (True, s') \<and> translate s' 0x4001234 = Some (page_addr 500 + 0x234) \<and>
     translate mm_one 0x4001234 = None \<and> vm_wf s'"
proof -
  have k: "kmm kern_fault = mm_one" "current kern_fault = 0x201000" "start_code (ts kern_fault 0x200000) = 0x8000000"
    "start_code (ts kern_fault 0x201000) = 0x4000000" by (simp_all add: kern_fault_def)
  have "scan_free (mem_map mm_one) PAGING_PAGES = Some 98"
    by (rule scan_free_skip) (auto simp: mm_one_facts mm_start_def USED_def)
  then have g: "get_free_page mm_one = (page_addr 98, mm_one\<lparr>mem_map := (mem_map mm_one)(98 := 1), mem := clear_page (page_addr 98) (mem mm_one)\<rparr>)"
    by (simp add: get_free_page_def Let_def)
  define t where "t = store 64 (page_addr 98 OR 7) (mm_one\<lparr>mem_map := (mem_map mm_one)(98 := 1), mem := clear_page (page_addr 98) (mem mm_one)\<rparr>)"
  have tt: "to_table 64 mm_one = (page_addr 98, t)" by (simp add: to_table_def mem_one_64 g t_def)
  have b: "page_base (page_addr 98 + 4) = page_addr 98" "page_addr 98 + 4 \<noteq> 64"
    by (rule page_base_add) (simp_all add: word_unat_eq_iff unat_word_ariths unat_page_addr)
  have z: "mem t (page_addr 98 + 4) = 0" using b by (simp add: t_def clear_page_def)
  have n: "page_addr 99 = 0x163000" "page_addr 98 = 0x162000" "page_addr 500 = 0x2f4000"
    by (simp_all add: word_unat_eq_iff unat_page_addr)
  have e: "mem mm_one 0x163004 = 0x2f4007" "mem mm_one 128 = 0x163007" "mem t 0x162004 = 0"
    using mm_one_entry(1,2) z by (simp_all add: n)
  have "\<exists>s'. share_pages 0x163004 64 0x1234 mm_one = Inr (True, s')"
    by (simp add: share_pages_def e mm_one_entry(3) LOW_MEM_def tt n Let_def)
  moreover have "try_to_share 0x1234 0x200000 kern_fault = share_pages 0x163004 64 0x1234 mm_one"
    by (simp add: try_to_share_def k e)
  ultimately obtain s' where s': "try_to_share 0x1234 0x200000 kern_fault = Inr (True, s')" by auto
  have c: "\<forall>i. mem_map (kmm kern_fault) i \<noteq> 255" by (simp add: k mm_one_facts mm_start_def USED_def)
  obtain f where f: "translate mm_one 0x8001234 = Some f" "translate mm_one 0x4001234 = None" "vm_wf s'"
    "\<forall>l. translate s' l = (if drop_bit 12 l = drop_bit 12 0x4001234 then Some (page_base f + (l AND 0xfff)) else translate mm_one l)"
    using try_to_share_shares [OF _ s' _ _ _ _ refl refl _ c] mm_one_facts(1) unfolding k by (auto simp: USER_SPACE_def)
  have "f = page_addr 500 + 0x234" using f(1) mm_one_facts(2) by simp
  then have "page_base f = page_addr 500" by simp
  then have "translate s' 0x4001234 = Some (page_addr 500 + 0x234)" using f(4) by simp
  then show ?thesis using s' f by blast
qed

end
