(* ===== verification/Console.thy ===== *)
theory Console imports Kprelude begin

text \<open>
  \<open>kernel/chr_drv/console.c\<close> of Lab 7: the VT102 console. Its variables are the record \<open>console\<close> (the
  variables \<open>x\<close>, \<open>y\<close>, \<open>pos\<close>, \<open>top\<close>, \<open>bottom\<close>, \<open>state\<close> and \<open>attr\<close> are \<open>con_x\<close>, ...), video memory is
  a function from addresses to 16-bit cells, and what goes out to the ports is logged. The string
  instructions (\<open>rep stosw\<close>, \<open>rep movsl\<close> with the direction flag clear or set) are \<open>stosw\<close>,
  \<open>movsl_up\<close> and \<open>movsl_down\<close>.

  \<open>con_write\<close> gets the characters that stand in the write queue of the terminal; \<open>copy_to_cooked\<close>, a
  function of \<open>tty_io.c\<close> that is not part of the repository, is a parameter on the read queue.
\<close>

unbundle bit_operations_syntax

section \<open>The state\<close>

record console =
  video_type :: u8
  video_num_columns :: u32
  video_size_row :: u32
  video_num_lines :: u32
  video_page :: u8
  video_mem_start :: u32
  video_mem_end :: u32
  video_port_reg :: u16
  video_port_val :: u16
  video_erase_char :: u16
  origin :: u32
  scr_end :: u32
  con_pos :: u32
  con_x :: u32
  con_y :: u32
  con_top :: u32
  con_bottom :: u32
  con_state :: u32
  npar :: nat
  par :: "u32 list"
  ques :: bool
  con_attr :: u8
  F12Flag :: u32
  saved_x :: u32
  saved_y :: u32
  con_beepcount :: int
  vmem :: "u32 \<Rightarrow> u16"
  port_in :: "u16 \<Rightarrow> u8"
  port_out :: "(u16 \<times> u8) list"
  con_read_q :: "u8 list"

definition VIDEO_TYPE_MDA :: u8 where "VIDEO_TYPE_MDA = 0x10"
definition VIDEO_TYPE_CGA :: u8 where "VIDEO_TYPE_CGA = 0x11"
definition VIDEO_TYPE_EGAM :: u8 where "VIDEO_TYPE_EGAM = 0x20"
definition VIDEO_TYPE_EGAC :: u8 where "VIDEO_TYPE_EGAC = 0x21"
definition NPAR :: nat where "NPAR = 16"

text \<open>\<open>"\033[?1;2c"\<close>\<close>

definition RESPONSE :: "u8 list" where "RESPONSE = [0x1b, 0x5b, 0x3f, 0x31, 0x3b, 0x32, 0x63]"

section \<open>String instructions\<close>

fun stosw :: "nat \<Rightarrow> u32 \<Rightarrow> u16 \<Rightarrow> (u32 \<Rightarrow> u16) \<Rightarrow> u32 \<Rightarrow> u16" where
  "stosw 0 edi ax m = m"
| "stosw (Suc n) edi ax m = stosw n (edi + 2) ax (m(edi := ax))"

text \<open>A long word is two cells.\<close>

definition movl :: "u32 \<Rightarrow> u32 \<Rightarrow> (u32 \<Rightarrow> u16) \<Rightarrow> u32 \<Rightarrow> u16" where
  "movl edi esi m = m(edi := m esi, edi + 2 := m (esi + 2))"

fun movsl_up :: "nat \<Rightarrow> u32 \<Rightarrow> u32 \<Rightarrow> (u32 \<Rightarrow> u16) \<Rightarrow> u32 \<Rightarrow> u16" where
  "movsl_up 0 edi esi m = m"
| "movsl_up (Suc n) edi esi m = movsl_up n (edi + 4) (esi + 4) (movl edi esi m)"

fun movsl_down :: "nat \<Rightarrow> u32 \<Rightarrow> u32 \<Rightarrow> (u32 \<Rightarrow> u16) \<Rightarrow> u32 \<Rightarrow> u16" where
  "movsl_down 0 edi esi m = m"
| "movsl_down (Suc n) edi esi m = movsl_down n (edi - 4) (esi - 4) (movl edi esi m)"

text \<open>\<open>rep stosw\<close> with the direction flag set.\<close>

fun stosw_down :: "nat \<Rightarrow> u32 \<Rightarrow> u16 \<Rightarrow> (u32 \<Rightarrow> u16) \<Rightarrow> u32 \<Rightarrow> u16" where
  "stosw_down 0 edi ax m = m"
| "stosw_down (Suc n) edi ax m = stosw_down n (edi - 2) ax (m(edi := ax))"

section \<open>Cursor and scrolling\<close>

definition outb :: "u8 \<Rightarrow> u16 \<Rightarrow> console \<Rightarrow> console" where
  "outb v port c = c\<lparr>port_out := port_out c @ [(port, v)]\<rparr>"

definition gotoxy :: "u32 \<Rightarrow> u32 \<Rightarrow> console \<Rightarrow> console" where
  "gotoxy new_x new_y c =
     (if new_x > video_num_columns c \<or> new_y \<ge> video_num_lines c then c
      else c\<lparr>con_x := new_x, con_y := new_y, con_pos := origin c + new_y * video_size_row c + push_bit 1 new_x\<rparr>)"

definition set_origin :: "console \<Rightarrow> console" where
  "set_origin c =
     (let a = origin c - video_mem_start c;
          c = outb 12 (video_port_reg c) c; c = outb (ucast (drop_bit 9 a)) (video_port_val c) c;
          c = outb 13 (video_port_reg c) c
      in outb (ucast (drop_bit 1 a)) (video_port_val c) c)"

definition set_cursor :: "console \<Rightarrow> console" where
  "set_cursor c =
     (let a = con_pos c - video_mem_start c;
          c = outb 14 (video_port_reg c) c; c = outb (ucast (drop_bit 9 a)) (video_port_val c) c;
          c = outb 15 (video_port_reg c) c
      in outb (ucast (drop_bit 1 a)) (video_port_val c) c)"

abbreviation ega :: "console \<Rightarrow> bool" where
  "ega c \<equiv> video_type c = VIDEO_TYPE_EGAC \<or> video_type c = VIDEO_TYPE_EGAM"

text \<open>The lines between \<open>top\<close> and \<open>bottom\<close> move up by one; the fill goes on where the copy ended.\<close>

definition scroll_region_up :: "console \<Rightarrow> console" where
  "scroll_region_up c =
     (let n = unat (drop_bit 1 ((con_bottom c - con_top c - 1) * video_num_columns c));
          edi = origin c + video_size_row c * con_top c; esi = origin c + video_size_row c * (con_top c + 1)
      in c\<lparr>vmem := stosw (unat (video_num_columns c)) (edi + of_nat (4 * n)) (video_erase_char c)
            (movsl_up n edi esi (vmem c))\<rparr>)"

text \<open>The whole screen of an EGA or VGA card: the start of the display moves by one line, and the screen is
  copied back to the start of video memory when it would pass the end.\<close>

definition scroll_screen_up :: "console \<Rightarrow> console" where
  "scroll_screen_up c =
     (let c = c\<lparr>origin := origin c + video_size_row c, con_pos := con_pos c + video_size_row c,
                scr_end := scr_end c + video_size_row c\<rparr>;
          c = (if scr_end c > video_mem_end c then
                 (let n = unat (drop_bit 1 ((video_num_lines c - 1) * video_num_columns c));
                      m = stosw (unat (video_num_columns c)) (video_mem_start c + of_nat (4 * n)) (video_erase_char c)
                        (movsl_up n (video_mem_start c) (origin c) (vmem c))
                  in c\<lparr>vmem := m, scr_end := scr_end c - (origin c - video_mem_start c),
                       con_pos := con_pos c - (origin c - video_mem_start c), origin := video_mem_start c\<rparr>)
               else c\<lparr>vmem := stosw (unat (video_num_columns c)) (scr_end c - video_size_row c) (video_erase_char c) (vmem c)\<rparr>)
      in set_origin c)"

definition scrup :: "console \<Rightarrow> console" where
  "scrup c = (if ega c \<and> con_top c = 0 \<and> con_bottom c = video_num_lines c then scroll_screen_up c else scroll_region_up c)"

text \<open>Both branches of \<open>scrdown\<close> are the same.\<close>

definition scrdown :: "console \<Rightarrow> console" where
  "scrdown c =
     (let n = unat (drop_bit 1 ((con_bottom c - con_top c - 1) * video_num_columns c));
          edi = origin c + video_size_row c * con_bottom c - 4; esi = origin c + video_size_row c * (con_bottom c - 1) - 4
      in c\<lparr>vmem := stosw_down (unat (video_num_columns c)) (edi - of_nat (4 * n) + 2) (video_erase_char c)
            (movsl_down n edi esi (vmem c))\<rparr>)"

definition lf :: "console \<Rightarrow> console" where
  "lf c = (if con_y c + 1 < con_bottom c then c\<lparr>con_y := con_y c + 1, con_pos := con_pos c + video_size_row c\<rparr> else scrup c)"

definition ri :: "console \<Rightarrow> console" where
  "ri c = (if con_y c > con_top c then c\<lparr>con_y := con_y c - 1, con_pos := con_pos c - video_size_row c\<rparr> else scrdown c)"

definition cr :: "console \<Rightarrow> console" where
  "cr c = c\<lparr>con_pos := con_pos c - push_bit 1 (con_x c), con_x := 0\<rparr>"

definition del :: "console \<Rightarrow> console" where
  "del c = (if con_x c \<noteq> 0 then
     (let c = c\<lparr>con_x := con_x c - 1, con_pos := con_pos c - 2\<rparr> in c\<lparr>vmem := (vmem c)(con_pos c := video_erase_char c)\<rparr>) else c)"

section \<open>Erasing, inserting, deleting\<close>

definition erase :: "u32 \<Rightarrow> u32 \<Rightarrow> console \<Rightarrow> console" where
  "erase start count c = c\<lparr>vmem := stosw (unat count) start (video_erase_char c) (vmem c)\<rparr>"

definition csi_J :: "u32 \<Rightarrow> console \<Rightarrow> console" where
  "csi_J n c =
     (if n = 0 then erase (con_pos c) (drop_bit 1 (scr_end c - con_pos c)) c
      else if n = 1 then erase (origin c) (drop_bit 1 (con_pos c - origin c)) c
      else if n = 2 then erase (origin c) (video_num_columns c * video_num_lines c) c
      else c)"

definition csi_K :: "u32 \<Rightarrow> console \<Rightarrow> console" where
  "csi_K n c =
     (if n = 0 then
        (if con_x c \<ge> video_num_columns c then c else erase (con_pos c) (video_num_columns c - con_x c) c)
      else if n = 1 then
        erase (con_pos c - push_bit 1 (con_x c)) (if con_x c < video_num_columns c then con_x c else video_num_columns c) c
      else if n = 2 then erase (con_pos c - push_bit 1 (con_x c)) (video_num_columns c) c
      else c)"

definition sgr :: "u8 \<Rightarrow> u32 \<Rightarrow> u8" where
  "sgr a n = (if n = 0 then 0x07 else if n = 1 then 0x0f else if n = 4 then 0x0f else if n = 7 then 0x70
     else if n = 27 then 0x07 else a)"

definition csi_m :: "console \<Rightarrow> console" where
  "csi_m c = c\<lparr>con_attr := foldl sgr (con_attr c) (take (npar c + 1) (par c))\<rparr>"

fun insert_cells :: "nat \<Rightarrow> u32 \<Rightarrow> u16 \<Rightarrow> (u32 \<Rightarrow> u16) \<Rightarrow> u32 \<Rightarrow> u16" where
  "insert_cells 0 p old m = m"
| "insert_cells (Suc n) p old m = insert_cells n (p + 2) (m p) (m(p := old))"

definition insert_char :: "console \<Rightarrow> console" where
  "insert_char c = c\<lparr>vmem := insert_cells (unat (video_num_columns c) - unat (con_x c)) (con_pos c) (video_erase_char c) (vmem c)\<rparr>"

fun delete_cells :: "nat \<Rightarrow> u32 \<Rightarrow> u16 \<Rightarrow> (u32 \<Rightarrow> u16) \<Rightarrow> u32 \<Rightarrow> u16" where
  "delete_cells 0 p e m = m(p := e)"
| "delete_cells (Suc n) p e m = delete_cells n (p + 2) e (m(p := m (p + 2)))"

definition delete_char :: "console \<Rightarrow> console" where
  "delete_char c =
     (if con_x c \<ge> video_num_columns c then c
      else c\<lparr>vmem := delete_cells (unat (video_num_columns c) - unat (con_x c) - 1) (con_pos c) (video_erase_char c) (vmem c)\<rparr>)"

definition with_region :: "u32 \<Rightarrow> u32 \<Rightarrow> (console \<Rightarrow> console) \<Rightarrow> console \<Rightarrow> console" where
  "with_region t b f c = (f (c\<lparr>con_top := t, con_bottom := b\<rparr>))\<lparr>con_top := con_top c, con_bottom := con_bottom c\<rparr>"

definition insert_line :: "console \<Rightarrow> console" where
  "insert_line c = with_region (con_y c) (video_num_lines c) scrdown c"

definition delete_line :: "console \<Rightarrow> console" where
  "delete_line c = with_region (con_y c) (video_num_lines c) scrup c"

text \<open>The number of times an operation is done: at most \<open>m\<close>, and once for 0.\<close>

definition csi_count :: "u32 \<Rightarrow> u32 \<Rightarrow> nat" where
  "csi_count nr m = unat (if nr > m then m else if nr = 0 then 1 else nr)"

definition csi_at :: "u32 \<Rightarrow> console \<Rightarrow> console" where
  "csi_at nr c = (insert_char ^^ csi_count nr (video_num_columns c)) c"

definition csi_L :: "u32 \<Rightarrow> console \<Rightarrow> console" where
  "csi_L nr c = (insert_line ^^ csi_count nr (video_num_lines c)) c"

definition csi_P :: "u32 \<Rightarrow> console \<Rightarrow> console" where
  "csi_P nr c = (delete_char ^^ csi_count nr (video_num_columns c)) c"

definition csi_M :: "u32 \<Rightarrow> console \<Rightarrow> console" where
  "csi_M nr c = (delete_line ^^ csi_count nr (video_num_lines c)) c"

section \<open>Other operations\<close>

definition respond :: "(u8 list \<Rightarrow> u8 list) \<Rightarrow> console \<Rightarrow> console" where
  "respond copy_to_cooked c = c\<lparr>con_read_q := copy_to_cooked (con_read_q c @ RESPONSE)\<rparr>"

definition save_cur :: "console \<Rightarrow> console" where
  "save_cur c = c\<lparr>saved_x := con_x c, saved_y := con_y c\<rparr>"

definition restore_cur :: "console \<Rightarrow> console" where
  "restore_cur c = gotoxy (saved_x c) (saved_y c) c"

definition F12_trigger :: "console \<Rightarrow> console" where
  "F12_trigger c = c\<lparr>F12Flag := F12Flag c XOR 1\<rparr>"

definition sysbeepstop :: "console \<Rightarrow> console" where
  "sysbeepstop c = outb (port_in c 0x61 AND 0xFC) 0x61 c"

definition sysbeep :: "console \<Rightarrow> console" where
  "sysbeep c =
     (let c = outb (port_in c 0x61 OR 3) 0x61 c; c = outb 0xB6 0x43 c; c = outb 0x37 0x42 c; c = outb 0x06 0x42 c
      in c\<lparr>con_beepcount := 100 div 8\<rparr>)"

definition isalpha :: "u8 \<Rightarrow> bool" where
  "isalpha ch \<longleftrightarrow> 0x41 \<le> ch \<and> ch \<le> 0x5a \<or> 0x61 \<le> ch \<and> ch \<le> 0x7a"

section \<open>con_write\<close>

text \<open>The wrap at the end of a line.\<close>

definition wrap_line :: "console \<Rightarrow> console" where
  "wrap_line c = lf (c\<lparr>con_x := con_x c - video_num_columns c, con_pos := con_pos c - video_size_row c\<rparr>)"

definition put_char :: "u8 \<Rightarrow> console \<Rightarrow> console" where
  "put_char ch c =
     (let c = (if con_x c \<ge> video_num_columns c then wrap_line c else c);
          ch = (if F12Flag c \<noteq> 0 \<and> isalpha ch then 0x2a else ch)
      in c\<lparr>vmem := (vmem c)(con_pos c := push_bit 8 (ucast (con_attr c)) OR ucast ch),
           con_pos := con_pos c + 2, con_x := con_x c + 1\<rparr>)"

definition tab :: "console \<Rightarrow> console" where
  "tab c =
     (let n = 8 - (con_x c AND 7); c = c\<lparr>con_x := con_x c + n, con_pos := con_pos c + push_bit 1 n\<rparr>
      in if con_x c > video_num_columns c then wrap_line c else c)"

text \<open>A character in state 0; \<open>erase_char\<close> is \<open>ERASE_CHAR(tty)\<close>. A \<open>char\<close> is signed.\<close>

definition plain_char :: "u8 \<Rightarrow> u8 \<Rightarrow> console \<Rightarrow> console" where
  "plain_char erase_char ch c =
     (if sint ch > 31 \<and> sint ch < 127 then put_char ch c
      else if ch = 27 then c\<lparr>con_state := 1\<rparr>
      else if ch = 10 \<or> ch = 11 \<or> ch = 12 then lf c
      else if ch = 13 then cr c
      else if sint ch = uint erase_char then del c
      else if ch = 8 then (if con_x c \<noteq> 0 then c\<lparr>con_x := con_x c - 1, con_pos := con_pos c - 2\<rparr> else c)
      else if ch = 9 then tab c
      else if ch = 7 then sysbeep c
      else c)"

text \<open>A character after ESC. The tests for \<open>'7'\<close> and \<open>'8'\<close> look at the column, not at the character.\<close>

definition esc_char :: "(u8 list \<Rightarrow> u8 list) \<Rightarrow> u8 \<Rightarrow> console \<Rightarrow> console" where
  "esc_char copy_to_cooked ch c =
     (let c = c\<lparr>con_state := 0\<rparr> in
      if ch = 0x5b then c\<lparr>con_state := 2\<rparr>
      else if ch = 0x45 then gotoxy 0 (con_y c + 1) c
      else if ch = 0x4d then ri c
      else if ch = 0x44 then lf c
      else if ch = 0x5a then respond copy_to_cooked c
      else if con_x c = 0x37 then save_cur c
      else if con_x c = 0x38 then restore_cur c
      else c)"

definition less_one :: "u32 \<Rightarrow> u32" where "less_one n = (if n \<noteq> 0 then n - 1 else n)"
definition at_least_one :: "u32 \<Rightarrow> u32" where "at_least_one n = (if n = 0 then 1 else n)"

text \<open>What the cases do to the parameters before they use them.\<close>

definition csi_par :: "u8 \<Rightarrow> u32 \<Rightarrow> u32 list \<Rightarrow> u32 list" where
  "csi_par ch lines p =
     (if ch = 0x47 \<or> ch = 0x60 \<or> ch = 0x64 then p[0 := less_one (p ! 0)]
      else if ch = 0x41 \<or> ch = 0x42 \<or> ch = 0x65 \<or> ch = 0x43 \<or> ch = 0x61 \<or> ch = 0x44 \<or> ch = 0x45 \<or> ch = 0x46
      then p[0 := at_least_one (p ! 0)]
      else if ch = 0x48 \<or> ch = 0x66 then p[0 := less_one (p ! 0), 1 := less_one (p ! 1)]
      else if ch = 0x72 then p[0 := less_one (p ! 0), 1 := (if p ! 1 = 0 then lines else p ! 1)]
      else p)"

definition set_region :: "console \<Rightarrow> console" where
  "set_region c =
     (if par c ! 0 < par c ! 1 \<and> par c ! 1 \<le> video_num_lines c
      then c\<lparr>con_top := par c ! 0, con_bottom := par c ! 1\<rparr> else c)"

text \<open>The last character of a control sequence.\<close>

definition csi_final :: "u8 \<Rightarrow> console \<Rightarrow> console" where
  "csi_final ch c =
     (let c = c\<lparr>con_state := 0, par := csi_par ch (video_num_lines c) (par c)\<rparr>; p0 = par c ! 0; p1 = par c ! 1 in
      if ch = 0x47 \<or> ch = 0x60 then gotoxy p0 (con_y c) c
      else if ch = 0x41 then gotoxy (con_x c) (con_y c - p0) c
      else if ch = 0x42 \<or> ch = 0x65 then gotoxy (con_x c) (con_y c + p0) c
      else if ch = 0x43 \<or> ch = 0x61 then gotoxy (con_x c + p0) (con_y c) c
      else if ch = 0x44 then gotoxy (con_x c - p0) (con_y c) c
      else if ch = 0x45 then gotoxy 0 (con_y c + p0) c
      else if ch = 0x46 then gotoxy 0 (con_y c - p0) c
      else if ch = 0x64 then gotoxy (con_x c) p0 c
      else if ch = 0x48 \<or> ch = 0x66 then gotoxy p1 p0 c
      else if ch = 0x4a then csi_J p0 c
      else if ch = 0x4b then csi_K p0 c
      else if ch = 0x4c then csi_L p0 c
      else if ch = 0x4d then csi_M p0 c
      else if ch = 0x50 then csi_P p0 c
      else if ch = 0x40 then csi_at p0 c
      else if ch = 0x6d then csi_m c
      else if ch = 0x72 then set_region c
      else if ch = 0x73 then save_cur c
      else if ch = 0x75 then restore_cur c
      else c)"

definition csi_start :: "u8 \<Rightarrow> console \<Rightarrow> console" where
  "csi_start ch c = c\<lparr>par := replicate NPAR 0, npar := 0, con_state := 3, ques := (ch = 0x3f)\<rparr>"

text \<open>State 3 falls through to state 4 when the character neither separates nor extends a parameter.\<close>

definition csi_param :: "u8 \<Rightarrow> console \<Rightarrow> console" where
  "csi_param ch c =
     (if ch = 0x3b \<and> npar c < NPAR - 1 then c\<lparr>npar := npar c + 1\<rparr>
      else if 0x30 \<le> ch \<and> ch \<le> 0x39 then
        c\<lparr>par := (par c)[npar c := 10 * par c ! npar c + ucast ch - 0x30]\<rparr>
      else csi_final ch (c\<lparr>con_state := 4\<rparr>))"

definition con_char :: "(u8 list \<Rightarrow> u8 list) \<Rightarrow> u8 \<Rightarrow> u8 \<Rightarrow> console \<Rightarrow> console" where
  "con_char copy_to_cooked erase_char ch c =
     (if con_state c = 0 then plain_char erase_char ch c
      else if con_state c = 1 then esc_char copy_to_cooked ch c
      else if con_state c = 2 then
        (let c = csi_start ch c in if ques c then c else csi_param ch c)
      else if con_state c = 3 then csi_param ch c
      else if con_state c = 4 then csi_final ch c
      else c)"

definition con_write :: "(u8 list \<Rightarrow> u8 list) \<Rightarrow> u8 \<Rightarrow> u8 list \<Rightarrow> console \<Rightarrow> console" where
  "con_write copy_to_cooked erase_char cs c = set_cursor (fold (con_char copy_to_cooked erase_char) cs c)"

section \<open>Initialisation\<close>

text \<open>What \<open>setup.s\<close> leaves at 0x90000: \<open>ORIG_X\<close>, \<open>ORIG_Y\<close>, and the words read as \<open>ORIG_VIDEO_PAGE\<close>, the mode and
  the number of columns (\<open>video_info\<close>), and \<open>ORIG_VIDEO_EGA_BX\<close>.\<close>

record boot_params =
  orig_x :: u8
  orig_y :: u8
  orig_video_page :: u16
  video_info :: u16
  orig_ega_bx :: u16

definition display_desc :: "u8 \<Rightarrow> u8 list" where
  "display_desc t = (if t = VIDEO_TYPE_EGAM then [0x45, 0x47, 0x41, 0x6d] else if t = VIDEO_TYPE_MDA then [0x2a, 0x4d, 0x44, 0x41]
     else if t = VIDEO_TYPE_EGAC then [0x45, 0x47, 0x41, 0x63] else [0x2a, 0x43, 0x47, 0x41])"

text \<open>Characters are written to the low bytes of cells.\<close>

fun put_desc :: "u8 list \<Rightarrow> u32 \<Rightarrow> (u32 \<Rightarrow> u16) \<Rightarrow> u32 \<Rightarrow> u16" where
  "put_desc [] p m = m"
| "put_desc (ch # cs) p m = put_desc cs (p + 2) (m(p := m p AND 0xff00 OR ucast ch))"

definition con_init_card :: "boot_params \<Rightarrow> console \<Rightarrow> console" where
  "con_init_card b c =
     (if video_info b AND 0xff = 7 then
        (let c = c\<lparr>video_mem_start := 0xb0000, video_port_reg := 0x3b4, video_port_val := 0x3b5\<rparr> in
         if orig_ega_bx b AND 0xff \<noteq> 0x10 then c\<lparr>video_type := VIDEO_TYPE_EGAM, video_mem_end := 0xb8000\<rparr>
         else c\<lparr>video_type := VIDEO_TYPE_MDA, video_mem_end := 0xb2000\<rparr>)
      else
        (let c = c\<lparr>video_mem_start := 0xb8000, video_port_reg := 0x3d4, video_port_val := 0x3d5\<rparr> in
         if orig_ega_bx b AND 0xff \<noteq> 0x10 then c\<lparr>video_type := VIDEO_TYPE_EGAC, video_mem_end := 0xbc000\<rparr>
         else c\<lparr>video_type := VIDEO_TYPE_CGA, video_mem_end := 0xba000\<rparr>))"

definition con_init :: "boot_params \<Rightarrow> console \<Rightarrow> console" where
  "con_init b c =
     (let c = c\<lparr>video_num_columns := ucast (drop_bit 8 (video_info b AND 0xff00)),
                video_size_row := ucast (drop_bit 8 (video_info b AND 0xff00)) * 2, video_num_lines := 25,
                video_page := ucast (orig_video_page b), video_erase_char := 0x0720\<rparr>;
          c = con_init_card b c;
          c = c\<lparr>vmem := put_desc (display_desc (video_type c)) (video_mem_start c + video_size_row c - 8) (vmem c)\<rparr>;
          c = c\<lparr>origin := video_mem_start c, scr_end := video_mem_start c + video_num_lines c * video_size_row c,
                con_top := 0, con_bottom := video_num_lines c\<rparr>;
          c = gotoxy (ucast (orig_x b)) (ucast (orig_y b)) c;
          c = outb (port_in c 0x21 AND 0xfd) 0x21 c;
          a = port_in c 0x61;
          c = outb (a OR 0x80) 0x61 c
      in outb a 0x61 c)"

end
