(* ===== verification/Conscreen.thy ===== *)
theory Conscreen imports Console begin

text \<open>
  What the string instructions of the console write, the well-formed consoles \<open>con_wf\<close>, the steps \<open>con_step\<close> that keep
  them and write inside video memory only, and scrolling: \<open>scrup\<close> and \<open>scrdown\<close> on the screen.
\<close>

unbundle bit_operations_syntax

section \<open>What the string instructions write\<close>

text \<open>The \<open>i\<close>-th cell from \<open>a\<close> on.\<close>

definition cell :: "u32 \<Rightarrow> nat \<Rightarrow> u32" where "cell a i = a + of_nat (2 * i)"

lemma cell_0 [simp]: "cell a 0 = a" by (simp add: cell_def)
lemma cell_Suc: "cell a (Suc i) = cell (a + 2) i" by (simp add: cell_def)
lemma cell_cell [simp]: "cell (cell a i) j = cell a (i + j)" by (simp add: cell_def algebra_simps)
lemma cell_2: "a + 2 = cell a 1" "a + 4 = cell a 2" by (simp_all add: cell_def)

lemma cell_inj: "i < 2147483648 \<Longrightarrow> j < 2147483648 \<Longrightarrow> cell a i = cell a j \<longleftrightarrow> i = j"
  using of_nat_u32_inj [of "2 * i" "2 * j"] by (simp add: cell_def del: of_nat_mult)

lemma unat_cell: "unat a + 2 * i < 4294967296 \<Longrightarrow> unat (cell a i) = unat a + 2 * i"
  unfolding cell_def by (subst unat_add_lem [THEN iffD1]) (simp_all add: unat_of_nat del: of_nat_mult)

lemma stosw_at: "stosw n a v m x = (if \<exists>i < n. x = cell a i then v else m x)"
proof (induction n arbitrary: a m)
  case (Suc n)
  have e: "(\<exists>i < Suc n. x = cell a i) \<longleftrightarrow> x = a \<or> (\<exists>i < n. x = cell (a + 2) i)"
    by (simp add: Ex_less_Suc2 cell_Suc)
  show ?case unfolding stosw.simps Suc.IH e by auto
qed simp

lemma movsl_up_at:
  "2 * n + k < 2147483648 \<Longrightarrow>
   movsl_up n d (cell d k) m x = (if \<exists>i < 2 * n. x = cell d i then m (cell x k) else m x)"
proof (induction n arbitrary: d m)
  case (Suc n)
  let ?m = "movl d (cell d k) m"
  have s: "cell d k + 4 = cell (d + 4) k" by (simp add: cell_def)
  have IH: "movsl_up n (d + 4) (cell d k + 4) ?m x = (if \<exists>i < 2 * n. x = cell (d + 4) i then ?m (cell x k) else ?m x)"
    unfolding s using Suc.prems by (intro Suc.IH) simp
  have c4: "cell (d + 4) i = cell d (i + 2)" for i by (simp add: cell_def algebra_simps)
  have ex: "(\<exists>i < 2 * Suc n. x = cell d i) \<longleftrightarrow> x = d \<or> x = d + 2 \<or> (\<exists>i < 2 * n. x = cell (d + 4) i)"
  proof -
    have "2 * Suc n = Suc (Suc (2 * n))" by simp
    then show ?thesis by (simp only: Ex_less_Suc2 cell_Suc) (simp add: algebra_simps)
  qed
  have far: "cell x k \<noteq> d" "cell x k \<noteq> d + 2" if "i < 2 * n" "x = cell (d + 4) i" for i
  proof -
    have "cell d (i + 2 + k) \<noteq> cell d 0" "cell d (i + 2 + k) \<noteq> cell d 1"
      using that(1) Suc.prems by (subst cell_inj; simp)+
    then show "cell x k \<noteq> d" "cell x k \<noteq> d + 2" using that(2) by (simp_all add: c4 cell_2 add.assoc)
  qed
  have m: "?m y = (if y = d + 2 then m (cell d k + 2) else if y = d then m (cell d k) else m y)" for y
    by (simp add: movl_def)
  have "cell d k + 2 = cell (d + 2) k" by (simp add: cell_def)
  then have z: "?m d = m (cell d k)" "?m (d + 2) = m (cell (d + 2) k)" by (simp_all add: m)
  define P where "P \<longleftrightarrow> (\<exists>i < 2 * n. x = cell (d + 4) i)"
  have "?m (cell x k) = m (cell x k)" if P using that far unfolding P_def by (auto simp: m)
  then show ?case unfolding movsl_up.simps IH ex P_def [symmetric]
    using z m [of x] by (cases P; cases "x = d"; cases "x = d + 2") simp_all
qed simp

lemma movsl_down_at:
  "2 * n + k < 2147483648 \<Longrightarrow>
   movsl_down n (cell e (2 * n + k) - 4) (cell e (2 * n) - 4) m x =
     (if \<exists>i < 2 * n. x = cell e (i + k) then m (x - of_nat (2 * k)) else m x)"
proof (induction n arbitrary: m)
  case (Suc n)
  let ?d = "cell e (2 * n + k)" and ?s = "cell e (2 * n)"
  let ?m = "movl ?d ?s m"
  have a: "cell e (2 * Suc n + k) - 4 = ?d" "cell e (2 * Suc n) - 4 = ?s" by (simp_all add: cell_def algebra_simps)
  have IH: "movsl_down n (?d - 4) (?s - 4) ?m x = (if \<exists>i < 2 * n. x = cell e (i + k) then ?m (x - of_nat (2 * k)) else ?m x)"
    using Suc.prems by (intro Suc.IH) simp
  have sub: "cell e (i + k) - of_nat (2 * k) = cell e i" for i by (simp add: cell_def algebra_simps)
  have d2: "?d + 2 = cell e (2 * n + k + 1)" "?s + 2 = cell e (2 * n + 1)" by (simp_all add: cell_def algebra_simps)
  have ex: "(\<exists>i < 2 * Suc n. x = cell e (i + k)) \<longleftrightarrow> x = ?d \<or> x = ?d + 2 \<or> (\<exists>i < 2 * n. x = cell e (i + k))"
  proof -
    have "2 * Suc n = Suc (Suc (2 * n))" by simp
    then show ?thesis unfolding d2 by (simp only: Ex_less_Suc) (auto simp: add.commute add.left_commute)
  qed
  have m: "?m y = (if y = ?d + 2 then m (?s + 2) else if y = ?d then m ?s else m y)" for y
    by (simp add: movl_def)
  have far: "?m (x - of_nat (2 * k)) = m (x - of_nat (2 * k))" if "i < 2 * n" "x = cell e (i + k)" for i
  proof -
    have "cell e i \<noteq> ?d" "cell e i \<noteq> cell e (2 * n + k + 1)" using that(1) Suc.prems by (subst cell_inj; simp)+
    then show ?thesis unfolding that(2) sub m d2 by simp
  qed
  have z: "m (?d - of_nat (2 * k)) = m ?s" "m (?d + 2 - of_nat (2 * k)) = m (?s + 2)"
    unfolding d2 using sub [of "2 * n"] sub [of "2 * n + 1"] by (simp_all add: add.commute add.left_commute)
  define P where "P \<longleftrightarrow> (\<exists>i < 2 * n. x = cell e (i + k))"
  have "?m (x - of_nat (2 * k)) = m (x - of_nat (2 * k))" if P using that far unfolding P_def by blast
  then show ?case unfolding movsl_down.simps a IH ex P_def [symmetric]
    using z m [of x] by (cases P; cases "x = ?d"; cases "x = ?d + 2") simp_all
qed simp

lemma stosw_down_at: "stosw_down n (cell e n - 2) v m x = (if \<exists>i < n. x = cell e i then v else m x)"
proof (induction n arbitrary: m)
  case (Suc n)
  have a: "cell e (Suc n) - 2 = cell e n" by (simp add: cell_def)
  show ?case unfolding stosw_down.simps a Suc.IH by (auto simp: less_Suc_eq)
qed simp

section \<open>Well-formed consoles\<close>

abbreviation cols :: "console \<Rightarrow> nat" where "cols c \<equiv> unat (video_num_columns c)"
abbreviation rows :: "console \<Rightarrow> nat" where "rows c \<equiv> unat (video_num_lines c)"
abbreviation curx :: "console \<Rightarrow> nat" where "curx c \<equiv> unat (con_x c)"
abbreviation cury :: "console \<Rightarrow> nat" where "cury c \<equiv> unat (con_y c)"
abbreviation rtop :: "console \<Rightarrow> nat" where "rtop c \<equiv> unat (con_top c)"
abbreviation rbot :: "console \<Rightarrow> nat" where "rbot c \<equiv> unat (con_bottom c)"

text \<open>The number of cells of video memory.\<close>

definition mem_cells :: "console \<Rightarrow> nat" where
  "mem_cells c = (unat (video_mem_end c) - unat (video_mem_start c)) div 2"

text \<open>The card: an even number of columns, and video memory that holds the screen.\<close>

definition card_wf :: "console \<Rightarrow> bool" where
  "card_wf c \<longleftrightarrow> even (cols c) \<and> 8 \<le> cols c \<and> cols c \<le> 255 \<and> 0 < rows c \<and> rows c \<le> 255 \<and>
     video_size_row c = 2 * video_num_columns c \<and> video_mem_end c = cell (video_mem_start c) (mem_cells c) \<and>
     unat (video_mem_start c) < 16777216 \<and> mem_cells c < 16777216"

text \<open>The display starts inside video memory and ends inside it; the cursor is on the screen (possibly just
  behind the end of a line), at the address \<open>pos\<close>; the scrolling region is not empty.\<close>

definition con_wf :: "console \<Rightarrow> bool" where
  "con_wf c \<longleftrightarrow> card_wf c \<and>
     (\<exists>n. origin c = cell (video_mem_start c) n \<and> n + cols c * rows c \<le> mem_cells c) \<and>
     scr_end c = cell (origin c) (cols c * rows c) \<and> con_pos c = cell (origin c) (cols c * cury c + curx c) \<and>
     curx c \<le> cols c \<and> cury c < rows c \<and> rtop c < rbot c \<and> rbot c \<le> rows c \<and> length (par c) = NPAR \<and> npar c < NPAR"

definition in_vmem :: "console \<Rightarrow> u32 \<Rightarrow> bool" where
  "in_vmem c x \<longleftrightarrow> (\<exists>i < mem_cells c. x = cell (video_mem_start c) i)"

text \<open>A step of the console: the card stays the same, and nothing outside video memory is written.\<close>

definition con_step :: "console \<Rightarrow> console \<Rightarrow> bool" where
  "con_step c c' \<longleftrightarrow> con_wf c' \<and> video_num_columns c' = video_num_columns c \<and> video_num_lines c' = video_num_lines c \<and>
     video_mem_start c' = video_mem_start c \<and> video_mem_end c' = video_mem_end c \<and>
     video_erase_char c' = video_erase_char c \<and> (\<forall>x. \<not> in_vmem c x \<longrightarrow> vmem c' x = vmem c x)"

lemma con_step_refl: "con_wf c \<Longrightarrow> con_step c c" by (simp add: con_step_def)

lemma con_step_trans: "con_step c c' \<Longrightarrow> con_step c' c'' \<Longrightarrow> con_step c c''"
  by (simp add: con_step_def in_vmem_def mem_cells_def)

lemma row_cell: "video_size_row c = 2 * video_num_columns c \<Longrightarrow> a + video_size_row c * n = cell a (cols c * unat n)"
  "video_size_row c = 2 * video_num_columns c \<Longrightarrow> a + video_size_row c = cell a (cols c)"
  "video_size_row c = 2 * video_num_columns c \<Longrightarrow> a - video_size_row c = a - of_nat (2 * cols c)"
  by (simp_all add: cell_def)

lemma shift_cell: "a + push_bit 1 n = cell a (unat n)" "a - push_bit 1 n = a - of_nat (2 * unat n)"
  by (simp_all add: cell_def push_bit_eq_mult mult.commute)

lemma cell_sub: "k \<le> i \<Longrightarrow> cell a i - of_nat (2 * k) = cell a (i - k)"
  by (simp add: cell_def algebra_simps of_nat_diff)

lemma screen_in_vmem:
  assumes "con_wf c" "i < cols c * rows c" shows "in_vmem c (cell (origin c) i)"
proof -
  obtain n where "origin c = cell (video_mem_start c) n" "n + cols c * rows c \<le> mem_cells c" using assms(1) by (auto simp: con_wf_def)
  with assms(2) show ?thesis by (auto simp: in_vmem_def intro!: exI [of _ "n + i"])
qed

lemma CL_bound: "card_wf c \<Longrightarrow> cols c * rows c \<le> 65025"
  using mult_le_mono [of "cols c" 255 "rows c" 255] by (simp add: card_wf_def)

lemma row_le: "r < n \<Longrightarrow> k \<le> m \<Longrightarrow> m * r + k \<le> m * (n :: nat)"
  by (metis Suc_leI add.commute add_le_mono1 le_trans mult_Suc_right mult_le_mono2)

lemma row_less: "r < n \<Longrightarrow> k < m \<Longrightarrow> m * r + k < m * (n :: nat)"
  by (metis Suc_leI add.commute less_le_trans mult_Suc_right mult_le_mono2 nat_add_left_cancel_less)

text \<open>The count of \<open>rep movsl\<close>: the cells of \<open>m\<close> lines, in long words.\<close>

lemma half_count:
  assumes "card_wf c" "unat n \<le> 255"
  shows "2 * unat (drop_bit 1 (n * video_num_columns c)) = cols c * unat n"
proof -
  have "unat n * cols c \<le> 65025" using mult_le_mono [of "unat n" 255 "cols c" 255] assms by (simp add: card_wf_def)
  then have "unat (n * video_num_columns c) = unat n * cols c" by (simp add: unat_word_ariths)
  moreover have "even (unat n * cols c)" using assms(1) by (simp add: card_wf_def)
  ultimately show ?thesis by (simp add: unat_drop_bit mult.commute)
qed

lemma unat_minus_1: "0 < unat n \<Longrightarrow> unat (n - 1 :: u32) = unat n - 1"
  by (rule unat_minus_one) auto

lemma unat_diff: "unat m \<le> unat n \<Longrightarrow> unat (n - m :: u32) = unat n - unat m"
  by (simp add: unat_sub word_le_nat_alt)

text \<open>The cells the two region scrolls write, and what they write there.\<close>

lemma scroll_region_up_at:
  assumes "card_wf c" "rtop c < rbot c" "rbot c \<le> rows c"
  shows "vmem (scroll_region_up c) x =
    (if \<exists>i < cols c. x = cell (origin c) (cols c * (rbot c - 1) + i) then video_erase_char c
     else if \<exists>i < cols c * (rbot c - rtop c - 1). x = cell (origin c) (cols c * rtop c + i) then vmem c (cell x (cols c)) else vmem c x)"
proof -
  let ?e = "cell (origin c) (cols c * rtop c)"
  have row: "video_size_row c = 2 * video_num_columns c" using assms(1) by (simp add: card_wf_def)
  have lb: "rows c \<le> 255" "cols c \<le> 255" using assms(1) by (simp_all add: card_wf_def)
  have u: "unat (con_bottom c - con_top c - 1) = rbot c - rtop c - 1"
    using assms by (simp add: unat_diff unat_minus_1)
  define n where "n = unat (drop_bit 1 ((con_bottom c - con_top c - 1) * video_num_columns c))"
  have n: "2 * n = cols c * (rbot c - rtop c - 1)" unfolding n_def using half_count [OF assms(1), of "con_bottom c - con_top c - 1"] u lb assms by simp
  have "unat (con_top c + 1) = rtop c + 1" using assms lb by (simp add: unat_word_ariths)
  then have s: "origin c + video_size_row c * (con_top c + 1) = cell ?e (cols c)" "origin c + video_size_row c * con_top c = ?e"
    unfolding row_cell(1) [OF row] by (simp_all add: add.commute)
  have "cols c * (rbot c - rtop c - 1) \<le> 255 * 255" using assms lb by (intro mult_le_mono) simp_all
  then have b: "2 * n + cols c < 2147483648" using n lb by simp
  have "cols c * rtop c + cols c * (rbot c - rtop c - 1) = cols c * (rbot c - 1)" using assms(2) by (simp add: add_mult_distrib2 [symmetric])
  then have f: "?e + of_nat (4 * n) = cell (origin c) (cols c * (rbot c - 1))"
  proof -
    have "?e + of_nat (4 * n) = cell ?e (2 * n)" by (simp add: cell_def)
    then show ?thesis using \<open>cols c * rtop c + _ = _\<close> n by simp
  qed
  have "vmem (scroll_region_up c) = stosw (cols c) (cell (origin c) (cols c * (rbot c - 1))) (video_erase_char c) (movsl_up n ?e (cell ?e (cols c)) (vmem c))"
    unfolding scroll_region_up_def Let_def s n_def [symmetric] f by simp
  then show ?thesis
    by (simp only: stosw_at movsl_up_at [OF b] n) (simp only: cell_cell)
qed

section \<open>Scrolling\<close>

text \<open>What is on the screen: line \<open>r\<close>, column \<open>k\<close>.\<close>

definition screen :: "console \<Rightarrow> nat \<Rightarrow> nat \<Rightarrow> u16" where
  "screen c r k = vmem c (cell (origin c) (cols c * r + k))"

lemma row_range:
  assumes "k < n" shows "(\<exists>i < n * m. n * r + k = n * t + i) \<longleftrightarrow> t \<le> r \<and> r < t + (m :: nat)"
proof
  assume "\<exists>i < n * m. n * r + k = n * t + i"
  then obtain i where i: "i < n * m" "n * r + k = n * t + i" by blast
  have "t \<le> r"
  proof (rule ccontr)
    assume "\<not> t \<le> r"
    then have "n * r + k < n * t" using assms by (intro row_less) simp_all
    with i show False by simp
  qed
  moreover have "r < t + m"
  proof (rule ccontr)
    assume "\<not> r < t + m"
    then have "n * (t + m) \<le> n * r" by (intro mult_le_mono2) simp
    with i show False by (simp add: add_mult_distrib2)
  qed
  ultimately show "t \<le> r \<and> r < t + m" ..
next
  assume r: "t \<le> r \<and> r < t + m"
  then have "n * t + (n * (r - t) + k) = n * r + k" by (metis add.assoc add_mult_distrib2 le_add_diff_inverse)
  moreover have "n * (r - t) + k < n * m" using r assms by (intro row_less) auto
  ultimately show "\<exists>i < n * m. n * r + k = n * t + i" by metis
qed

lemma cell_range:
  assumes "k < n" "n * r + k < 2147483648" "n * t + n * m < 2147483648"
  shows "(\<exists>i < n * m. cell a (n * r + k) = cell a (n * t + i)) \<longleftrightarrow> t \<le> r \<and> r < t + (m :: nat)"
proof -
  have "cell a (n * r + k) = cell a (n * t + i) \<longleftrightarrow> n * r + k = n * t + i" if "i < n * m" for i
    using assms that by (intro cell_inj) simp_all
  then show ?thesis using row_range [OF assms(1), of m r t] by auto
qed

lemma con_wf_rows:
  assumes "con_wf c" "r \<le> rows c" shows "cols c * r \<le> 65025"
proof -
  have "card_wf c" using assms(1) by (simp add: con_wf_def)
  from order_trans [OF mult_le_mono2 [OF assms(2)] CL_bound [OF this]] show ?thesis .
qed

lemma scroll_region_up_step:
  assumes "con_wf c"
  shows "con_step c (scroll_region_up c)"
    "r < rows c \<Longrightarrow> k < cols c \<Longrightarrow> screen (scroll_region_up c) r k =
      (if r = rbot c - 1 then video_erase_char c else if rtop c \<le> r \<and> r < rbot c - 1 then screen c (r + 1) k else screen c r k)"
proof -
  have w: "card_wf c" "rtop c < rbot c" "rbot c \<le> rows c" using assms by (simp_all add: con_wf_def)
  have o: "origin (scroll_region_up c) = origin c" by (simp add: scroll_region_up_def Let_def)
  note at = scroll_region_up_at [OF w]
  have cb: "cols c * (rbot c - 1) + cols c = cols c * rbot c"
    using w(2) by (metis Suc_pred' less_nat_zero_code linorder_neqE_nat mult_Suc_right add.commute)
  have lim: "cols c * rbot c \<le> cols c * rows c" "cols c * (rbot c - 1) \<le> cols c * rows c"
    using w(3) by (intro mult_le_mono2; simp)+
  show "con_step c (scroll_region_up c)"
  proof -
    have "vmem (scroll_region_up c) x = vmem c x" if "\<not> in_vmem c x" for x
    proof -
      have "x \<noteq> cell (origin c) i" if "i < cols c * rows c" for i
        using screen_in_vmem [OF assms that] \<open>\<not> in_vmem c x\<close> by auto
      moreover have "cols c * (rbot c - 1) + i < cols c * rows c" if "i < cols c" for i using that cb lim by linarith
      moreover have "cols c * rtop c + i < cols c * rows c" if "i < cols c * (rbot c - rtop c - 1)" for i
      proof -
        have "cols c * rtop c + cols c * (rbot c - rtop c - 1) = cols c * (rbot c - 1)"
          using w(2) by (simp add: add_mult_distrib2 [symmetric])
        then show ?thesis using that lim by linarith
      qed
      ultimately show ?thesis unfolding at by auto
    qed
    then show ?thesis using assms
      by (simp add: con_step_def) (simp add: con_wf_def card_wf_def mem_cells_def scroll_region_up_def Let_def)
  qed
  assume rk: "r < rows c" "k < cols c"
  have b: "cols c * r + k < 65025" using row_less [OF rk] con_wf_rows [OF assms order_refl] by simp
  have e1: "(\<exists>i < cols c. cell (origin c) (cols c * r + k) = cell (origin c) (cols c * (rbot c - 1) + i)) \<longleftrightarrow> r = rbot c - 1"
  proof -
    have "cols c * r + k < 2147483648" "cols c * (rbot c - 1) + cols c * 1 < 2147483648"
      using b cb lim con_wf_rows [OF assms order_refl] by linarith+
    from cell_range [OF rk(2) this, of "origin c"] show ?thesis by auto
  qed
  have e2: "(\<exists>i < cols c * (rbot c - rtop c - 1). cell (origin c) (cols c * r + k) = cell (origin c) (cols c * rtop c + i)) \<longleftrightarrow>
      rtop c \<le> r \<and> r < rbot c - 1"
  proof -
    have "cols c * rtop c + cols c * (rbot c - rtop c - 1) = cols c * (rbot c - 1)"
      using w(2) by (simp add: add_mult_distrib2 [symmetric])
    then have "cols c * r + k < 2147483648" "cols c * rtop c + cols c * (rbot c - rtop c - 1) < 2147483648"
      using b lim con_wf_rows [OF assms order_refl] by linarith+
    from cell_range [OF rk(2) this, of "origin c"] show ?thesis using w(2) by auto
  qed
  have n: "cols (scroll_region_up c) = cols c" by (simp add: scroll_region_up_def Let_def)
  show "screen (scroll_region_up c) r k =
      (if r = rbot c - 1 then video_erase_char c else if rtop c \<le> r \<and> r < rbot c - 1 then screen c (r + 1) k else screen c r k)"
    unfolding screen_def o n at e1 e2 by (simp add: algebra_simps)
qed

lemma set_origin_simps [simp]: "vmem (set_origin c) = vmem c" "con_wf (set_origin c) = con_wf c" "con_step c0 (set_origin c) = con_step c0 c"
  "origin (set_origin c) = origin c" "video_num_columns (set_origin c) = video_num_columns c"
  by (simp_all add: set_origin_def outb_def Let_def con_wf_def card_wf_def mem_cells_def con_step_def)

lemma cell_diff: "cell a i - a = of_nat (2 * i)" "cell a i - (cell b j - b) = cell a i - of_nat (2 * j)"
  by (simp_all add: cell_def)

lemma scroll_screen_up_step:
  assumes wf: "con_wf c" and full: "con_top c = 0" "con_bottom c = video_num_lines c"
  shows "con_step c (scroll_screen_up c)"
    "r < rows c \<Longrightarrow> k < cols c \<Longrightarrow> screen (scroll_screen_up c) r k =
      (if r = rows c - 1 then video_erase_char c else screen c (r + 1) k)"
proof -
  let ?C = "cols c" and ?R = "rows c" and ?s = "video_mem_start c"
  have w: "card_wf c" using wf by (simp add: con_wf_def)
  have row: "video_size_row c = 2 * video_num_columns c" using w by (simp add: card_wf_def)
  obtain n where n: "origin c = cell ?s n" "n + ?C * ?R \<le> mem_cells c" using wf by (auto simp: con_wf_def)
  have R: "0 < ?R" "?R \<le> 255" "?C \<le> 255" using w by (simp_all add: card_wf_def)
  have CR: "?C * (?R - 1) + ?C = ?C * ?R" using R(1) by (metis Suc_pred' mult_Suc_right add.commute)
  have lim: "?C * ?R \<le> 65025" "mem_cells c < 16777216" "unat ?s < 16777216" using CL_bound [OF w] w by (simp_all add: card_wf_def)
  have u: "unat (video_num_lines c - 1) = ?R - 1" using R by (simp add: unat_minus_1)
  define h where "h = unat (drop_bit 1 ((video_num_lines c - 1) * video_num_columns c))"
  have h: "2 * h = ?C * (?R - 1)" unfolding h_def using half_count [OF w, of "video_num_lines c - 1"] u R by simp
  have or1: "origin c + video_size_row c = cell ?s (n + ?C)" "con_pos c + video_size_row c = cell (cell ?s (n + ?C)) (?C * cury c + curx c)"
    "scr_end c + video_size_row c = cell ?s (n + ?C + ?C * ?R)"
    using wf unfolding row_cell(2) [OF row] by (simp_all add: con_wf_def n(1) algebra_simps)
  have mend: "video_mem_end c = cell ?s (mem_cells c)" using w by (simp add: card_wf_def)
  have past: "cell ?s (n + ?C + ?C * ?R) > video_mem_end c \<longleftrightarrow> n + ?C + ?C * ?R > mem_cells c"
    unfolding mend using lim R n(2) by (auto simp: word_less_nat_alt unat_cell)
  have last: "(\<exists>i < ?C. cell a (?C * r + k) = cell a (?C * (?R - 1) + i)) \<longleftrightarrow> r = ?R - 1" if rk: "r < ?R" "k < ?C" for a r k
  proof -
    have "?C * r + k < 2147483648" "?C * (?R - 1) + ?C * 1 < 2147483648"
      using row_less [OF rk] CR lim(1) by linarith+
    from cell_range [OF rk(2) this, of a] show ?thesis using R(1) by auto
  qed
  have *: "con_step c (scroll_screen_up c) \<and>
    (\<forall>r k. r < ?R \<longrightarrow> k < ?C \<longrightarrow> screen (scroll_screen_up c) r k = (if r = ?R - 1 then video_erase_char c else screen c (r + 1) k))"
  proof (cases "n + ?C + ?C * ?R > mem_cells c")
    case True
    define m where "m = stosw ?C (cell ?s (?C * (?R - 1))) (video_erase_char c) (movsl_up h ?s (cell ?s (n + ?C)) (vmem c))"
    define c1 where "c1 = c\<lparr>vmem := m, scr_end := cell ?s (?C * ?R), con_pos := cell ?s (?C * cury c + curx c), origin := ?s\<rparr>"
    have "?s + of_nat (4 * h) = cell ?s (2 * h)" by (simp add: cell_def)
    then have f: "?s + of_nat (4 * h) = cell ?s (?C * (?R - 1))" unfolding h .
    have f2: "?s + 4 * of_nat h = cell ?s (?C * (?R - Suc 0))" using f by simp
    have hs: "unat (drop_bit (Suc 0) ((video_num_lines c - 1) * video_num_columns c)) = h" by (simp add: h_def)
    have sub: "cell ?s (n + ?C + i) - (cell ?s (n + ?C) - ?s) = cell ?s i" for i
      by (simp add: cell_def algebra_simps)
    have e: "scroll_screen_up c = set_origin c1"
      unfolding scroll_screen_up_def Let_def using True past sub [of "?C * ?R"] sub [of "?C * cury c + curx c"]
      by (simp add: or1 hs f2 m_def c1_def add.assoc)
    have b: "2 * h + (n + ?C) < 2147483648" using h n(2) lim R CR by linarith
    have at: "m x = (if \<exists>i < ?C. x = cell ?s (?C * (?R - 1) + i) then video_erase_char c
        else if \<exists>i < ?C * (?R - 1). x = cell ?s i then vmem c (cell x (n + ?C)) else vmem c x)" for x
      unfolding m_def by (simp only: stosw_at movsl_up_at [OF b] h) (simp only: cell_cell)
    have "m x = vmem c x" if "\<not> in_vmem c x" for x
    proof -
      have "x \<noteq> cell ?s i" if "i < ?C * ?R" for i using \<open>\<not> in_vmem c x\<close> that n(2) by (auto simp: in_vmem_def)
      moreover have "?C * (?R - 1) + i < ?C * ?R" if "i < ?C" for i using that CR by linarith
      moreover have "i < ?C * ?R" if "i < ?C * (?R - 1)" for i using that CR by linarith
      ultimately show ?thesis unfolding at by metis
    qed
    moreover have "con_wf c1" using wf n(2) unfolding con_wf_def card_wf_def mem_cells_def
      by (auto simp: c1_def mem_cells_def intro!: exI [of _ 0])
    ultimately have st: "con_step c c1" by (simp add: con_step_def) (simp add: c1_def)
    have "m (cell ?s (?C * r + k)) = (if r = ?R - 1 then video_erase_char c else screen c (r + 1) k)" if rk: "r < ?R" "k < ?C" for r k
    proof -
      have "?C * r + k < ?C * (?R - 1)" if "r \<noteq> ?R - 1" using that rk by (intro row_less) simp_all
      then have "(\<exists>i < ?C * (?R - 1). cell ?s (?C * r + k) = cell ?s i)" if "r \<noteq> ?R - 1" using that by blast
      then show ?thesis unfolding at last [OF rk] screen_def n(1) by (simp add: algebra_simps)
    qed
    moreover have "screen (set_origin c1) r k = m (cell ?s (?C * r + k))" for r k by (simp add: screen_def) (simp add: c1_def)
    ultimately show ?thesis using st unfolding e by simp
  next
    case False
    define m where "m = stosw ?C (cell ?s (n + ?C * ?R)) (video_erase_char c) (vmem c)"
    define c1 where "c1 = c\<lparr>origin := cell ?s (n + ?C), con_pos := cell (cell ?s (n + ?C)) (?C * cury c + curx c),
        scr_end := cell ?s (n + ?C + ?C * ?R), vmem := m\<rparr>"
    have sub: "cell ?s (n + ?C + ?C * ?R) - video_size_row c = cell ?s (n + ?C * ?R)"
      unfolding row_cell(3) [OF row] by (subst cell_sub) (simp_all add: add.commute add.left_commute)
    have e: "scroll_screen_up c = set_origin c1"
      unfolding scroll_screen_up_def Let_def using False past sub by (simp add: or1 m_def c1_def)
    have at: "m x = (if \<exists>i < ?C. x = cell (cell ?s (n + ?C)) (?C * (?R - 1) + i) then video_erase_char c else vmem c x)" for x
    proof -
      have "n + ?C * ?R + i = n + ?C + (?C * (?R - 1) + i)" for i using CR by simp
      then show ?thesis unfolding m_def stosw_at cell_cell by (simp only:)
    qed
    have "m x = vmem c x" if "\<not> in_vmem c x" for x
    proof -
      have "x \<noteq> cell ?s (n + ?C + (?C * (?R - 1) + i))" if "i < ?C" for i
      proof -
        have "n + ?C + (?C * (?R - 1) + i) < mem_cells c" using that CR False by linarith
        then show ?thesis using \<open>\<not> in_vmem c x\<close> unfolding in_vmem_def by blast
      qed
      then show ?thesis unfolding at cell_cell by auto
    qed
    moreover have "con_wf c1" using wf False unfolding con_wf_def card_wf_def mem_cells_def
      by (auto simp: c1_def mem_cells_def intro!: exI [of _ "n + ?C"])
    ultimately have st: "con_step c c1" by (simp add: con_step_def) (simp add: c1_def)
    have "m (cell (cell ?s (n + ?C)) (?C * r + k)) = (if r = ?R - 1 then video_erase_char c else screen c (r + 1) k)"
      if rk: "r < ?R" "k < ?C" for r k
      unfolding at last [OF rk] screen_def n(1) by (simp add: algebra_simps)
    moreover have "screen (set_origin c1) r k = m (cell (cell ?s (n + ?C)) (?C * r + k))" for r k
      by (simp add: screen_def) (simp add: c1_def)
    ultimately show ?thesis using st unfolding e by simp
  qed
  then show "con_step c (scroll_screen_up c)"
    "r < rows c \<Longrightarrow> k < cols c \<Longrightarrow> screen (scroll_screen_up c) r k =
      (if r = rows c - 1 then video_erase_char c else screen c (r + 1) k)" by blast+
qed

lemma scrdown_step:
  assumes wf: "con_wf c"
  shows "con_step c (scrdown c)"
    "r < rows c \<Longrightarrow> k < cols c \<Longrightarrow> screen (scrdown c) r k =
      (if r = rtop c then video_erase_char c else if rtop c < r \<and> r < rbot c then screen c (r - 1) k else screen c r k)"
proof -
  let ?C = "cols c" and ?e = "cell (origin c) (cols c * rtop c)"
  have w: "card_wf c" "rtop c < rbot c" "rbot c \<le> rows c" using wf by (simp_all add: con_wf_def)
  have row: "video_size_row c = 2 * video_num_columns c" using w(1) by (simp add: card_wf_def)
  have lb: "rows c \<le> 255" "?C \<le> 255" using w(1) by (simp_all add: card_wf_def)
  have lim: "?C * rows c \<le> 65025" by (rule CL_bound [OF w(1)])
  have "?C * rtop c + ?C * (rbot c - rtop c - 1) + ?C = ?C * (rtop c + (rbot c - rtop c - 1) + 1)" by (simp add: add_mult_distrib2)
  then have sum: "?C * rtop c + ?C * (rbot c - rtop c - 1) + ?C = ?C * rbot c" using w(2) by simp
  have top: "?C * rbot c \<le> ?C * rows c" using w(3) by (intro mult_le_mono2)
  have u: "unat (con_bottom c - con_top c - 1) = rbot c - rtop c - 1" using w by (simp add: unat_diff unat_minus_1)
  have ub: "unat (con_bottom c - 1) = rbot c - 1" using w by (simp add: unat_minus_1)
  define n where "n = unat (drop_bit 1 ((con_bottom c - con_top c - 1) * video_num_columns c))"
  have n: "2 * n = ?C * (rbot c - rtop c - 1)"
    unfolding n_def using half_count [OF w(1), of "con_bottom c - con_top c - 1"] u lb w by simp
  have cb: "?C * (rbot c - 1) = ?C * rtop c + 2 * n" unfolding n using w(2) by (simp add: add_mult_distrib2 [symmetric])
  have d: "origin c + video_size_row c * con_bottom c - 4 = cell ?e (2 * n + ?C) - 4"
    "origin c + video_size_row c * (con_bottom c - 1) - 4 = cell ?e (2 * n) - 4"
    unfolding row_cell(1) [OF row] ub cell_cell cb using sum n by (simp_all add: add.assoc)
  have f: "cell ?e (2 * n + ?C) - 4 - of_nat (4 * n) + 2 = cell ?e ?C - 2"
    by (simp add: cell_def algebra_simps)
  have b: "2 * n + ?C < 2147483648" using n sum top lim by linarith
  have "vmem (scrdown c) x = stosw_down ?C (cell ?e ?C - 2) (video_erase_char c)
      (movsl_down n (cell ?e (2 * n + ?C) - 4) (cell ?e (2 * n) - 4) (vmem c)) x" for x
    unfolding scrdown_def Let_def d n_def [symmetric] f by simp
  then have at0: "vmem (scrdown c) x = (if \<exists>i < ?C. x = cell ?e i then video_erase_char c
      else if \<exists>i < 2 * n. x = cell ?e (i + ?C) then vmem c (x - of_nat (2 * ?C)) else vmem c x)" for x
    by (simp only: stosw_down_at movsl_down_at [OF b])
  have "cell ?e i = cell (origin c) (?C * rtop c + i)" "cell ?e (i + ?C) = cell (origin c) (?C * (rtop c + 1) + i)" for i
    by (simp_all add: algebra_simps)
  then have at: "vmem (scrdown c) x =
    (if \<exists>i < ?C. x = cell (origin c) (?C * rtop c + i) then video_erase_char c
     else if \<exists>i < ?C * (rbot c - rtop c - 1). x = cell (origin c) (?C * (rtop c + 1) + i) then vmem c (x - of_nat (2 * ?C)) else vmem c x)" for x
    by (simp only: at0 n)
  have o: "origin (scrdown c) = origin c" "cols (scrdown c) = ?C" by (simp_all add: scrdown_def Let_def)
  have next_row: "?C * (rtop c + 1) = ?C * rtop c + ?C" by simp
  have "vmem (scrdown c) x = vmem c x" if "\<not> in_vmem c x" for x
  proof -
    have "x \<noteq> cell (origin c) i" if "i < ?C * rows c" for i
      using screen_in_vmem [OF wf that] \<open>\<not> in_vmem c x\<close> by auto
    moreover have "?C * rtop c + i < ?C * rows c" if "i < ?C" for i using that sum top by linarith
    moreover have "?C * (rtop c + 1) + i < ?C * rows c" if "i < ?C * (rbot c - rtop c - 1)" for i
      using that sum top next_row by linarith
    ultimately show ?thesis unfolding at by metis
  qed
  then show "con_step c (scrdown c)" using wf
    by (simp add: con_step_def) (simp add: con_wf_def card_wf_def mem_cells_def scrdown_def Let_def)
  assume rk: "r < rows c" "k < ?C"
  have r1: "?C * r + k < 2147483648" using row_less [OF rk] lim by linarith
  have "?C * rtop c + ?C * 1 < 2147483648" "?C * (rtop c + 1) + ?C * (rbot c - rtop c - 1) < 2147483648"
    using sum top lim next_row by linarith+
  note e = cell_range [OF rk(2) r1 this(1), of "origin c"] cell_range [OF rk(2) r1 this(2), of "origin c"]
  have e1: "(\<exists>i < ?C. cell (origin c) (?C * r + k) = cell (origin c) (?C * rtop c + i)) \<longleftrightarrow> r = rtop c" using e(1) by auto
  have e2: "(\<exists>i < ?C * (rbot c - rtop c - 1). cell (origin c) (?C * r + k) = cell (origin c) (?C * (rtop c + 1) + i)) \<longleftrightarrow>
      rtop c < r \<and> r < rbot c" using e(2) w(2) by auto
  have sub: "cell (origin c) (?C * r + k) - of_nat (2 * ?C) = cell (origin c) (?C * (r - 1) + k)" if "rtop c < r"
  proof -
    from that obtain q where q: "r = Suc q" by (cases r) simp_all
    have "cell (origin c) (?C * r + k) - of_nat (2 * ?C) = cell (origin c) (?C * r + k - ?C)"
      by (rule cell_sub) (simp add: q)
    moreover have "?C * r + k - ?C = ?C * (r - 1) + k" by (simp add: q)
    ultimately show ?thesis by simp
  qed
  show "screen (scrdown c) r k =
      (if r = rtop c then video_erase_char c else if rtop c < r \<and> r < rbot c then screen c (r - 1) k else screen c r k)"
    unfolding screen_def o at e1 e2 using sub by simp
qed

lemma scrup_step:
  assumes "con_wf c"
  shows "con_step c (scrup c)"
    "r < rows c \<Longrightarrow> k < cols c \<Longrightarrow> screen (scrup c) r k =
      (if r = rbot c - 1 then video_erase_char c else if rtop c \<le> r \<and> r < rbot c - 1 then screen c (r + 1) k else screen c r k)"
proof -
  show "con_step c (scrup c)"
    using scroll_region_up_step(1) [OF assms] scroll_screen_up_step(1) [OF assms] by (simp add: scrup_def)
  assume rk: "r < rows c" "k < cols c"
  show "screen (scrup c) r k =
      (if r = rbot c - 1 then video_erase_char c else if rtop c \<le> r \<and> r < rbot c - 1 then screen c (r + 1) k else screen c r k)"
  proof (cases "ega c \<and> con_top c = 0 \<and> con_bottom c = video_num_lines c")
    case True
    then have e: "scrup c = scroll_screen_up c" "rtop c = 0" "rbot c = rows c" by (simp_all add: scrup_def)
    have "r < rows c - 1" if "r \<noteq> rows c - 1" using rk that by linarith
    moreover have "screen (scroll_screen_up c) r k = (if r = rows c - 1 then video_erase_char c else screen c (r + 1) k)"
      using scroll_screen_up_step(2) [OF assms _ _ rk] True by blast
    ultimately show ?thesis unfolding e by simp
  next
    case False
    then have "scrup c = scroll_region_up c" by (simp only: scrup_def if_False)
    then show ?thesis using scroll_region_up_step(2) [OF assms rk] by simp
  qed
qed

end
