(* ===== verification/Consoleprops.thy ===== *)
theory Consoleprops imports Conscreen begin

text \<open>
  Every operation of the console is a step in the sense of \<open>Conscreen\<close>, \<open>con_init\<close> starts with a well-formed console,
  and the properties: the driver stays in video memory, scrolling moves lines, F12 hides letters, and what
  \<open>ESC 7\<close> and \<open>ESC 8\<close> do.
\<close>

unbundle bit_operations_syntax

section \<open>Every operation is a step\<close>

lemma step_cursor:
  assumes "con_wf c" "unat x \<le> cols c" "unat y < rows c" "p = cell (origin c) (cols c * unat y + unat x)"
  shows "con_step c (c\<lparr>con_x := x, con_y := y, con_pos := p\<rparr>)"
  using assms by (simp add: con_step_def con_wf_def card_wf_def mem_cells_def)

lemma step_misc:
  assumes "con_wf c"
  shows "con_step c (c\<lparr>con_state := n\<rparr>)" "con_step c (outb v port c)" "con_step c (c\<lparr>con_beepcount := i\<rparr>)"
    "con_step c (c\<lparr>con_read_q := q\<rparr>)" "con_step c (c\<lparr>con_attr := a\<rparr>)" "con_step c (c\<lparr>saved_x := x, saved_y := y\<rparr>)"
  using assms by (simp_all add: con_step_def con_wf_def card_wf_def mem_cells_def outb_def)

lemma step_vmem:
  assumes "con_wf c" "\<And>x. \<forall>i < cols c * rows c. x \<noteq> cell (origin c) i \<Longrightarrow> m x = vmem c x"
  shows "con_step c (c\<lparr>vmem := m\<rparr>)"
proof -
  have "m x = vmem c x" if "\<not> in_vmem c x" for x
    using screen_in_vmem [OF assms(1)] that by (intro assms(2)) auto
  then show ?thesis using assms(1) by (simp add: con_step_def con_wf_def card_wf_def mem_cells_def)
qed

lemma con_step_wf: "con_step c c' \<Longrightarrow> con_wf c'" by (simp add: con_step_def)

lemma step_then:
  "con_step c c' \<Longrightarrow> (con_wf c' \<Longrightarrow> con_step c' c'') \<Longrightarrow> con_step c c''"
  using con_step_trans con_step_wf by blast

lemma pos_index: "con_wf c \<Longrightarrow> cols c * cury c + curx c \<le> cols c * rows c"
  by (rule row_le) (simp_all add: con_wf_def)

lemma gotoxy_step: "con_wf c \<Longrightarrow> con_step c (gotoxy new_x new_y c)"
proof (cases "new_x > video_num_columns c \<or> new_y \<ge> video_num_lines c")
  case False
  assume wf: "con_wf c"
  have row: "video_size_row c = 2 * video_num_columns c" using wf by (simp add: con_wf_def card_wf_def)
  have "origin c + new_y * video_size_row c + push_bit 1 new_x = cell (origin c) (cols c * unat new_y + unat new_x)"
    using row_cell(1) [OF row, of "origin c" new_y] by (simp only: mult.commute [of new_y] shift_cell(1) cell_cell)
  with step_cursor [OF wf _ _ this] False show ?thesis
    by (simp add: gotoxy_def word_less_nat_alt word_le_nat_alt not_le not_less)
qed (simp add: gotoxy_def con_step_refl)

lemma lf_step: "con_wf c \<Longrightarrow> con_step c (lf c)"
proof (cases "con_y c + 1 < con_bottom c")
  case True
  assume wf: "con_wf c"
  have row: "video_size_row c = 2 * video_num_columns c" and b: "rbot c \<le> rows c" "cury c < rows c" "rows c \<le> 255"
    using wf by (simp_all add: con_wf_def card_wf_def)
  have u: "unat (con_y c + 1) = cury c + 1" using b by (simp add: unat_word_ariths)
  have p: "con_pos c + video_size_row c = cell (origin c) (cols c * unat (con_y c + 1) + curx c)"
    using wf unfolding row_cell(2) [OF row] u by (simp add: con_wf_def algebra_simps)
  have "con_step c (c\<lparr>con_x := con_x c, con_y := con_y c + 1, con_pos := con_pos c + video_size_row c\<rparr>)"
    using wf True b u by (intro step_cursor [OF wf _ _ p]) (simp_all add: con_wf_def word_less_nat_alt)
  with True show ?thesis by (simp add: lf_def)
qed (simp add: lf_def scrup_step)

lemma ri_step: "con_wf c \<Longrightarrow> con_step c (ri c)"
proof (cases "con_y c > con_top c")
  case True
  assume wf: "con_wf c"
  have row: "video_size_row c = 2 * video_num_columns c" using wf by (simp add: con_wf_def card_wf_def)
  have u: "unat (con_y c - 1) = cury c - 1" "0 < cury c" using True by (simp_all add: unat_minus_1 word_less_nat_alt)
  have "cols c * cury c + curx c - cols c = cols c * (cury c - 1) + curx c" "cols c \<le> cols c * cury c + curx c"
    using u(2) by (cases "cury c"; simp)+
  then have p: "con_pos c - video_size_row c = cell (origin c) (cols c * unat (con_y c - 1) + curx c)"
    using wf unfolding row_cell(3) [OF row] u by (simp add: con_wf_def cell_sub del: of_nat_mult)
  have "con_step c (c\<lparr>con_x := con_x c, con_y := con_y c - 1, con_pos := con_pos c - video_size_row c\<rparr>)"
    using wf u by (intro step_cursor [OF wf _ _ p]) (auto simp: con_wf_def)
  with True show ?thesis by (simp add: ri_def)
qed (simp add: ri_def scrdown_step)

lemma back_pos:
  assumes "con_wf c" "k \<le> curx c"
  shows "con_pos c - of_nat (2 * k) = cell (origin c) (cols c * cury c + (curx c - k))"
  using assms by (simp add: con_wf_def cell_sub del: of_nat_mult)

lemma cr_step: "con_wf c \<Longrightarrow> con_step c (cr c)"
proof -
  assume wf: "con_wf c"
  have p: "con_pos c - push_bit 1 (con_x c) = cell (origin c) (cols c * cury c + unat (0 :: u32))"
    unfolding shift_cell(2) back_pos [OF wf order_refl] by simp
  have "con_step c (c\<lparr>con_x := 0, con_y := con_y c, con_pos := con_pos c - push_bit 1 (con_x c)\<rparr>)"
    by (rule step_cursor [OF wf _ _ p]) (use wf in \<open>simp_all add: con_wf_def\<close>)
  moreover have "cr c = c\<lparr>con_x := 0, con_y := con_y c, con_pos := con_pos c - push_bit 1 (con_x c)\<rparr>"
    by (cases c) (simp add: cr_def)
  ultimately show ?thesis by simp
qed

lemma left_step: "con_wf c \<Longrightarrow> con_x c \<noteq> 0 \<Longrightarrow> con_step c (c\<lparr>con_x := con_x c - 1, con_pos := con_pos c - 2\<rparr>)"
proof -
  assume wf: "con_wf c" and x: "con_x c \<noteq> 0"
  have u: "0 < curx c" using x by (simp add: unat_gt_0)
  have p: "con_pos c - 2 = cell (origin c) (cols c * cury c + unat (con_x c - 1))"
    using back_pos [OF wf, of 1] u by (simp add: unat_minus_1)
  have "con_step c (c\<lparr>con_x := con_x c - 1, con_y := con_y c, con_pos := con_pos c - 2\<rparr>)"
    using wf u by (intro step_cursor [OF wf _ _ p]) (auto simp: con_wf_def unat_minus_1)
  then show ?thesis by simp
qed

lemma put_cell_step: "con_wf c \<Longrightarrow> curx c < cols c \<Longrightarrow> con_step c (c\<lparr>vmem := (vmem c)(con_pos c := v)\<rparr>)"
proof (rule step_vmem)
  fix x assume wf: "con_wf c" and "curx c < cols c" and x: "\<forall>i < cols c * rows c. x \<noteq> cell (origin c) i"
  then have "cols c * cury c + curx c < cols c * rows c" by (intro row_less) (simp_all add: con_wf_def)
  with x have "x \<noteq> con_pos c" using wf by (auto simp: con_wf_def)
  then show "((vmem c)(con_pos c := v)) x = vmem c x" by simp
qed

lemma del_step: "con_wf c \<Longrightarrow> con_step c (del c)"
proof (cases "con_x c = 0")
  case False
  assume wf: "con_wf c"
  let ?c = "c\<lparr>con_x := con_x c - 1, con_pos := con_pos c - 2\<rparr>"
  have s: "con_step c ?c" using left_step [OF wf False] .
  have "0 < curx c" using False by (simp add: unat_gt_0)
  then have "unat (con_x c - 1) < cols c" using wf by (auto simp: con_wf_def unat_minus_1)
  then have "con_step ?c (?c\<lparr>vmem := (vmem ?c)(con_pos ?c := video_erase_char c)\<rparr>)"
    using put_cell_step [OF con_step_wf [OF s]] by simp
  then show ?thesis using con_step_trans [OF s] False by (simp add: del_def Let_def)
qed (simp add: del_def con_step_refl)

text \<open>Wrapping at the end of a line, from a column that may lie behind it.\<close>

lemma wrap_line_step:
  assumes wf: "con_wf c" and x: "cols c \<le> unat x" "unat x \<le> 2 * cols c" and p: "p = cell (origin c) (cols c * cury c + unat x)"
  shows "con_step c (wrap_line (c\<lparr>con_x := x, con_pos := p\<rparr>)) \<and> (unat x < 2 * cols c \<longrightarrow> curx (wrap_line (c\<lparr>con_x := x, con_pos := p\<rparr>)) < cols c)"
proof -
  have row: "video_size_row c = 2 * video_num_columns c" using wf by (simp add: con_wf_def card_wf_def)
  have u: "unat (x - video_num_columns c) = unat x - cols c" using x(1) by (rule unat_diff)
  have q: "p - video_size_row c = cell (origin c) (cols c * cury c + unat (x - video_num_columns c))"
    unfolding row_cell(3) [OF row] p u using x(1) by (subst cell_sub) simp_all
  define c1 where "c1 = c\<lparr>con_x := x - video_num_columns c, con_y := con_y c, con_pos := p - video_size_row c\<rparr>"
  have s: "con_step c c1" unfolding c1_def
    by (rule step_cursor [OF wf _ _ q]) (use x u wf in \<open>simp_all add: con_wf_def\<close>)
  have w: "wrap_line (c\<lparr>con_x := x, con_pos := p\<rparr>) = lf c1" by (simp add: wrap_line_def c1_def)
  have "con_x (lf c1) = con_x c1"
    by (simp add: lf_def scrup_def scroll_region_up_def scroll_screen_up_def set_origin_def outb_def Let_def)
  then show ?thesis using con_step_trans [OF s lf_step [OF con_step_wf [OF s]]] u x by (auto simp: w c1_def)
qed

lemma put_char_step: "con_wf c \<Longrightarrow> con_step c (put_char ch c)"
proof -
  assume wf: "con_wf c"
  define c1 where "c1 = (if con_x c \<ge> video_num_columns c then wrap_line c else c)"
  have 1: "con_step c c1 \<and> curx c1 < cols c"
  proof (cases "con_x c \<ge> video_num_columns c")
    case True
    have x: "cols c \<le> curx c" "curx c \<le> cols c" "8 \<le> cols c" "con_pos c = cell (origin c) (cols c * cury c + curx c)"
      using True wf by (simp_all add: con_wf_def card_wf_def word_le_nat_alt)
    have "c\<lparr>con_x := con_x c, con_pos := con_pos c\<rparr> = c" by simp
    note ws = wrap_line_step [OF wf x(1) _ x(4), unfolded this]
    show ?thesis using ws x(2,3) True by (simp add: c1_def)
  next
    case False
    then show ?thesis using wf by (simp add: c1_def con_step_refl word_le_nat_alt not_le)
  qed
  then have wf1: "con_wf c1" and lt: "curx c1 < cols c1" by (auto simp: con_step_def)
  define v where "v = push_bit 8 (ucast (con_attr c1)) OR (ucast (if F12Flag c1 \<noteq> 0 \<and> isalpha ch then 0x2a else ch) :: u16)"
  define c2 where "c2 = c1\<lparr>vmem := (vmem c1)(con_pos c1 := v)\<rparr>"
  have 2: "con_step c1 c2" unfolding c2_def by (rule put_cell_step [OF wf1 lt])
  have e: "con_x c2 = con_x c1" "con_y c2 = con_y c1" "con_pos c2 = con_pos c1" "origin c2 = origin c1" "cols c2 = cols c1"
    by (simp_all add: c2_def)
  have "cols c1 \<le> 255" using wf1 by (simp add: con_wf_def card_wf_def)
  then have u: "unat (con_x c1 + 1) = curx c1 + 1" using lt by (simp add: unat_word_ariths)
  have p: "con_pos c1 + 2 = cell (origin c1) (cols c1 * cury c1 + unat (con_x c1 + 1))"
    using wf1 unfolding u by (simp add: con_wf_def cell_def algebra_simps)
  have "con_step c2 (c2\<lparr>con_x := con_x c1 + 1, con_y := con_y c1, con_pos := con_pos c1 + 2\<rparr>)"
    by (rule step_cursor [OF con_step_wf [OF 2]]) (use lt u p wf1 in \<open>simp_all add: e, simp add: con_wf_def c2_def\<close>)
  then have 3: "con_step c (c2\<lparr>con_x := con_x c1 + 1, con_y := con_y c1, con_pos := con_pos c1 + 2\<rparr>)"
    using con_step_trans [OF con_step_trans [OF _ 2]] 1 by blast
  have "put_char ch c = c1\<lparr>vmem := (vmem c1)(con_pos c1 := v), con_pos := con_pos c1 + 2, con_x := con_x c1 + 1\<rparr>"
    unfolding put_char_def Let_def c1_def [symmetric] v_def by simp
  also have "\<dots> = c2\<lparr>con_x := con_x c1 + 1, con_y := con_y c1, con_pos := con_pos c1 + 2\<rparr>"
    by (cases c1) (simp add: c2_def)
  finally show ?thesis using 3 by simp
qed

lemma tab_step: "con_wf c \<Longrightarrow> con_step c (tab c)"
proof -
  assume wf: "con_wf c"
  define n where "n = 8 - (con_x c AND 7)"
  have "con_x c AND 7 = take_bit 3 (con_x c)" unfolding word_7 by (simp add: take_bit_eq_mask)
  then have "unat (con_x c AND 7) = curx c mod 8" by (simp add: take_bit_eq_mod unat_mod_distrib)
  then have un: "unat n = 8 - curx c mod 8" unfolding n_def by (subst unat_diff) (simp_all add: less_imp_le)
  have b: "curx c \<le> cols c" "cols c \<le> 255" "8 \<le> cols c" "even (cols c)" using wf by (simp_all add: con_wf_def card_wf_def)
  have n8: "1 \<le> unat n" "unat n \<le> 8" using un by (simp_all add: Suc_le_eq)
  have ux: "unat (con_x c + n) = curx c + unat n" using b n8 by (simp add: unat_word_ariths)
  have p: "con_pos c + push_bit 1 n = cell (origin c) (cols c * cury c + unat (con_x c + n))"
    unfolding shift_cell(1) ux using wf by (simp add: con_wf_def add.assoc)
  let ?c = "c\<lparr>con_x := con_x c + n, con_pos := con_pos c + push_bit 1 n\<rparr>"
  show ?thesis
  proof (cases "con_x c + n > video_num_columns c")
    case True
    then have "tab c = wrap_line ?c" by (simp add: tab_def n_def Let_def)
    moreover have "cols c \<le> unat (con_x c + n)" "unat (con_x c + n) \<le> 2 * cols c"
      using True ux b n8 by (simp_all add: word_less_nat_alt)
    ultimately show ?thesis using wrap_line_step [OF wf _ _ p] by simp
  next
    case False
    then have "tab c = ?c\<lparr>con_y := con_y c\<rparr>" by (simp add: tab_def n_def Let_def)
    also have "\<dots> = c\<lparr>con_x := con_x c + n, con_y := con_y c, con_pos := con_pos c + push_bit 1 n\<rparr>" by simp
    finally have e: "tab c = c\<lparr>con_x := con_x c + n, con_y := con_y c, con_pos := con_pos c + push_bit 1 n\<rparr>" .
    have "unat (con_x c + n) \<le> cols c" using False by (simp add: word_less_nat_alt not_less)
    then show ?thesis unfolding e using wf by (intro step_cursor [OF wf _ _ p]) (simp_all add: con_wf_def)
  qed
qed

lemma erase_step:
  assumes "con_wf c" "start = cell (origin c) i" "i + unat n \<le> cols c * rows c"
  shows "con_step c (erase start n c)"
  unfolding erase_def
proof (rule step_vmem [OF assms(1)])
  fix x assume "\<forall>i < cols c * rows c. x \<noteq> cell (origin c) i"
  then have "x \<noteq> cell start ia" if "ia < unat n" for ia
    using spec [of _ "i + ia"] that assms(2,3) by simp
  then show "stosw (unat n) start (video_erase_char c) (vmem c) x = vmem c x" by (auto simp: stosw_at)
qed

lemma half_cells: "i < 2147483648 \<Longrightarrow> unat (drop_bit 1 (of_nat (2 * i) :: u32)) = i"
  by (simp add: unat_drop_bit unat_of_nat del: of_nat_mult)

lemma cell_minus: "j \<le> i \<Longrightarrow> cell a i - cell a j = of_nat (2 * (i - j))"
  by (simp add: cell_def of_nat_diff algebra_simps)

lemma csi_J_step: "con_wf c \<Longrightarrow> con_step c (csi_J n c)"
proof -
  assume wf: "con_wf c"
  let ?i = "cols c * cury c + curx c"
  have p: "con_pos c = cell (origin c) ?i" "scr_end c = cell (origin c) (cols c * rows c)" "?i \<le> cols c * rows c"
    using wf pos_index [OF wf] by (simp_all add: con_wf_def)
  have b: "cols c * rows c \<le> 65025" "cols c \<le> 255" "rows c \<le> 255" using CL_bound [of c] wf by (simp_all add: con_wf_def card_wf_def)
  have "unat (drop_bit 1 (scr_end c - con_pos c)) = cols c * rows c - ?i"
    unfolding p(1,2) cell_minus [OF p(3)] using b by (intro half_cells) simp
  then have 0: "con_step c (erase (con_pos c) (drop_bit 1 (scr_end c - con_pos c)) c)"
    using p by (intro erase_step [OF wf p(1)]) simp
  have "unat (drop_bit 1 (con_pos c - origin c)) = ?i"
    unfolding p(1) cell_diff(1) using b p(3) by (intro half_cells) simp
  then have 1: "con_step c (erase (origin c) (drop_bit 1 (con_pos c - origin c)) c)"
    using p by (intro erase_step [OF wf cell_0 [symmetric]]) simp
  have "unat (video_num_columns c * video_num_lines c) = cols c * rows c"
    using b by (simp add: unat_word_ariths)
  then have 2: "con_step c (erase (origin c) (video_num_columns c * video_num_lines c) c)"
    by (intro erase_step [OF wf cell_0 [symmetric]]) simp
  show ?thesis using 0 1 2 wf by (simp add: csi_J_def con_step_refl)
qed

lemma csi_K_step: "con_wf c \<Longrightarrow> con_step c (csi_K n c)"
proof -
  assume wf: "con_wf c"
  have p: "con_pos c = cell (origin c) (cols c * cury c + curx c)" "curx c \<le> cols c" "cury c < rows c"
    using wf by (simp_all add: con_wf_def)
  have line: "cols c * cury c + cols c \<le> cols c * rows c" using p(3) by (intro row_le) simp_all
  have s: "con_pos c - push_bit 1 (con_x c) = cell (origin c) (cols c * cury c)"
    unfolding shift_cell(2) back_pos [OF wf order_refl] by simp
  have 0: "con_step c (erase (con_pos c) (video_num_columns c - con_x c) c)" if "\<not> con_x c \<ge> video_num_columns c"
    using line p(2) by (intro erase_step [OF wf p(1)]) (simp add: unat_diff)
  have 1: "con_step c (erase (con_pos c - push_bit 1 (con_x c)) (if con_x c < video_num_columns c then con_x c else video_num_columns c) c)"
    using line p(2) by (intro erase_step [OF wf s]) simp
  have 2: "con_step c (erase (con_pos c - push_bit 1 (con_x c)) (video_num_columns c) c)"
    using line by (intro erase_step [OF wf s]) simp
  show ?thesis using 0 1 2 wf by (simp add: csi_K_def con_step_refl)
qed

lemma insert_cells_out: "\<forall>i < n. x \<noteq> cell p i \<Longrightarrow> insert_cells n p old m x = m x"
proof (induction n arbitrary: p old m)
  case (Suc n)
  then have "\<forall>i < n. x \<noteq> cell (p + 2) i" "x \<noteq> p" by (auto simp: cell_Suc [symmetric] dest: spec [of _ 0])
  with Suc.IH show ?case by simp
qed simp

lemma delete_cells_out: "\<forall>i \<le> n. x \<noteq> cell p i \<Longrightarrow> delete_cells n p e m x = m x"
proof (induction n arbitrary: p m)
  case (Suc n)
  then have "\<forall>i \<le> n. x \<noteq> cell (p + 2) i" "x \<noteq> p" by (auto simp: cell_Suc [symmetric] dest: spec [of _ 0])
  with Suc.IH show ?case by simp
qed auto

lemma cell_step:
  assumes "con_wf c" "\<And>x. \<forall>i < cols c - curx c. x \<noteq> cell (con_pos c) i \<Longrightarrow> m x = vmem c x"
  shows "con_step c (c\<lparr>vmem := m\<rparr>)"
proof (rule step_vmem [OF assms(1)], rule assms(2), intro allI impI)
  fix x i assume x: "\<forall>i < cols c * rows c. x \<noteq> cell (origin c) i" and "i < cols c - curx c"
  then have "cols c * cury c + (curx c + i) < cols c * rows c" using assms(1) by (intro row_less) (auto simp: con_wf_def)
  then have "x \<noteq> cell (origin c) (cols c * cury c + (curx c + i))" using x by blast
  then show "x \<noteq> cell (con_pos c) i" using assms(1) by (simp add: con_wf_def add.assoc)
qed

lemma insert_char_step: "con_wf c \<Longrightarrow> con_step c (insert_char c)"
  unfolding insert_char_def by (rule cell_step) (simp_all add: insert_cells_out)

lemma delete_char_step: "con_wf c \<Longrightarrow> con_step c (delete_char c)"
proof (cases "con_x c \<ge> video_num_columns c")
  case False
  assume wf: "con_wf c"
  have "con_step c (c\<lparr>vmem := delete_cells (cols c - curx c - 1) (con_pos c) (video_erase_char c) (vmem c)\<rparr>)"
  proof (rule cell_step [OF wf], rule delete_cells_out, intro allI impI)
    fix x i assume "\<forall>i < cols c - curx c. x \<noteq> cell (con_pos c) i" "i \<le> cols c - curx c - 1"
    moreover have "0 < cols c - curx c" using False by (simp add: word_le_nat_alt)
    ultimately show "x \<noteq> cell (con_pos c) i" by simp
  qed
  with False show ?thesis by (simp add: delete_char_def)
qed (simp add: delete_char_def con_step_refl)

lemma region_wf: "con_wf c \<Longrightarrow> unat t < unat b \<Longrightarrow> unat b \<le> rows c \<Longrightarrow> con_step c (c\<lparr>con_top := t, con_bottom := b\<rparr>)"
  by (simp add: con_step_def con_wf_def card_wf_def mem_cells_def)

lemma with_region_step:
  assumes f: "\<And>c. con_wf c \<Longrightarrow> con_step c (f c)" and wf: "con_wf c" and t: "unat t < unat b" "unat b \<le> rows c"
  shows "con_step c (with_region t b f c)"
proof -
  let ?c = "c\<lparr>con_top := t, con_bottom := b\<rparr>"
  have s: "con_step c ?c" by (rule region_wf [OF wf t])
  have s2: "con_step c (f ?c)" using con_step_trans [OF s f [OF con_step_wf [OF s]]] .
  have "con_step (f ?c) ((f ?c)\<lparr>con_top := con_top c, con_bottom := con_bottom c\<rparr>)"
  proof (rule region_wf [OF con_step_wf [OF s2]])
    have "rows (f ?c) = rows c" using s2 by (simp only: con_step_def)
    then show "rtop c < rbot c" "rbot c \<le> rows (f ?c)" using wf by (simp_all only: con_wf_def)
  qed
  with s2 show ?thesis unfolding with_region_def by (rule con_step_trans)
qed

lemma line_step: "con_wf c \<Longrightarrow> con_step c (insert_line c)" "con_wf c \<Longrightarrow> con_step c (delete_line c)"
  unfolding insert_line_def delete_line_def
  by (rule with_region_step; (rule scrdown_step(1) scrup_step(1), assumption | simp add: con_wf_def))+

lemma repeat_step: "(\<And>c. con_wf c \<Longrightarrow> con_step c (f c)) \<Longrightarrow> con_wf c \<Longrightarrow> con_step c ((f ^^ n) c)"
  by (induction n) (auto simp: con_step_refl intro: step_then)

lemma set_region_step: "con_wf c \<Longrightarrow> con_step c (set_region c)"
  by (auto simp: set_region_def con_step_refl word_less_nat_alt word_le_nat_alt intro: region_wf)

lemma csi_count_steps:
  "con_wf c \<Longrightarrow> con_step c (csi_at n c)" "con_wf c \<Longrightarrow> con_step c (csi_L n c)"
  "con_wf c \<Longrightarrow> con_step c (csi_P n c)" "con_wf c \<Longrightarrow> con_step c (csi_M n c)"
  unfolding csi_at_def csi_L_def csi_P_def csi_M_def
  by (rule repeat_step [OF insert_char_step] repeat_step [OF line_step(1)] repeat_step [OF delete_char_step]
      repeat_step [OF line_step(2)], assumption+)+

lemma step_if: "con_step c a \<Longrightarrow> con_step c b \<Longrightarrow> con_step c (if P then a else b)" by simp

lemma csi_final_step:
  assumes "con_wf c" shows "con_step c (csi_final ch c)"
proof -
  define c0 where "c0 = c\<lparr>con_state := 0, par := csi_par ch (video_num_lines c) (par c)\<rparr>"
  have "length (csi_par ch (video_num_lines c) (par c)) = length (par c)" by (simp add: csi_par_def)
  then have s: "con_step c c0" unfolding c0_def using assms by (simp add: con_step_def con_wf_def card_wf_def mem_cells_def)
  note s = s con_step_wf [OF s]
  have "con_step c0 (csi_final ch c)"
    unfolding csi_final_def Let_def c0_def [symmetric] csi_m_def save_cur_def restore_cur_def
    by (rule step_if gotoxy_step [OF s(2)] csi_J_step [OF s(2)] csi_K_step [OF s(2)] csi_count_steps [OF s(2)]
        set_region_step [OF s(2)] step_misc [OF s(2)] con_step_refl [OF s(2)])+
  with s(1) show ?thesis by (rule con_step_trans)
qed

lemma outb_step: "con_step c0 c \<Longrightarrow> con_step c0 (outb v port c)"
  using con_step_trans step_misc(2) [OF con_step_wf] by blast

lemma sysbeep_step: "con_wf c \<Longrightarrow> con_step c (sysbeep c)"
  unfolding sysbeep_def Let_def by (rule step_then [OF _ step_misc(3)]) (intro outb_step con_step_refl)

lemma set_cursor_step: "con_wf c \<Longrightarrow> con_step c (set_cursor c)"
  unfolding set_cursor_def Let_def by (intro outb_step con_step_refl)

lemma back_step: "con_wf c \<Longrightarrow> con_step c (if con_x c \<noteq> 0 then c\<lparr>con_x := con_x c - 1, con_pos := con_pos c - 2\<rparr> else c)"
  by (simp add: left_step con_step_refl)

lemma plain_char_step:
  assumes "con_wf c" shows "con_step c (plain_char erase_char ch c)"
  unfolding plain_char_def
  by (rule back_step [OF assms] step_if put_char_step [OF assms] lf_step [OF assms] cr_step [OF assms] del_step [OF assms] tab_step [OF assms]
      sysbeep_step [OF assms] con_step_refl [OF assms] step_misc(1) [OF assms])+

lemma esc_char_step:
  assumes "con_wf c" shows "con_step c (esc_char f ch c)"
proof -
  define c0 where "c0 = c\<lparr>con_state := 0\<rparr>"
  have s: "con_step c c0" "con_wf c0" using step_misc(1) [OF assms] con_step_wf unfolding c0_def by blast+
  have "con_step c0 (esc_char f ch c)"
    unfolding esc_char_def Let_def c0_def [symmetric] respond_def save_cur_def restore_cur_def
    by (rule step_if gotoxy_step [OF s(2)] ri_step [OF s(2)] lf_step [OF s(2)] step_misc [OF s(2)] con_step_refl [OF s(2)])+
  with s(1) show ?thesis by (rule con_step_trans)
qed

lemma csi_param_step:
  assumes "con_wf c" shows "con_step c (csi_param ch c)"
proof -
  have "con_step c (csi_final ch (c\<lparr>con_state := 4\<rparr>))" by (rule step_then [OF step_misc(1) [OF assms] csi_final_step])
  moreover have "con_step c (c\<lparr>npar := npar c + 1\<rparr>)" if "npar c < NPAR - 1"
    using assms that by (simp add: con_step_def con_wf_def card_wf_def mem_cells_def)
  moreover have "con_step c (c\<lparr>par := (par c)[npar c := n]\<rparr>)" for n
    using assms by (simp add: con_step_def con_wf_def card_wf_def mem_cells_def)
  ultimately show ?thesis by (simp add: csi_param_def)
qed

lemma csi_start_step: "con_wf c \<Longrightarrow> con_step c (csi_start ch c)"
  by (simp add: csi_start_def con_step_def con_wf_def card_wf_def mem_cells_def NPAR_def)

lemma con_char_step:
  assumes "con_wf c" shows "con_step c (con_char f e ch c)"
proof -
  note 1 = csi_start_step [OF assms, of ch]
  note 2 = con_step_trans [OF 1 csi_param_step [OF con_step_wf [OF 1]]]
  show ?thesis
    unfolding con_char_def Let_def
    by (rule step_if plain_char_step [OF assms] esc_char_step [OF assms] 1 2
      csi_param_step [OF assms] csi_final_step [OF assms] con_step_refl [OF assms])+
qed

lemma con_chars_step: "con_wf c \<Longrightarrow> con_step c (fold (con_char f e) cs c)"
proof (induction cs arbitrary: c)
  case (Cons ch cs)
  show ?case using step_then [OF con_char_step [OF Cons.prems] Cons.IH] by simp
qed (simp add: con_step_refl)

section \<open>The console from boot on\<close>

text \<open>The display modes the driver is made for: an even number of columns, the 25 lines fit into the smallest
  video memory, and the cursor that \<open>setup.s\<close> found is on the screen.\<close>

definition boot_cols :: "boot_params \<Rightarrow> nat" where
  "boot_cols b = unat (drop_bit 8 (video_info b AND 0xff00))"

definition boot_ok :: "boot_params \<Rightarrow> bool" where
  "boot_ok b \<longleftrightarrow> even (boot_cols b) \<and> 8 \<le> boot_cols b \<and> boot_cols b \<le> 162 \<and> unat (orig_x b) \<le> boot_cols b \<and> orig_y b < 25"

lemma put_desc_out: "\<forall>i < length cs. x \<noteq> cell p i \<Longrightarrow> put_desc cs p m x = m x"
proof (induction cs arbitrary: p m)
  case (Cons ch cs)
  then have "\<forall>i < length cs. x \<noteq> cell (p + 2) i" "x \<noteq> p" by (auto simp: cell_Suc [symmetric] dest: spec [of _ 0])
  with Cons.IH show ?case by simp
qed simp

lemma unat_ucast_word: "unat (ucast (w :: u16) :: u32) = unat w" "unat (ucast (v :: u8) :: u32) = unat v"
proof -
  have "unat w < 65536" "unat v < 256" using unsigned_less [of w] unsigned_less [of v] by simp_all
  then show "unat (ucast w :: u32) = unat w" "unat (ucast v :: u32) = unat v"
    by (simp_all only: unsigned_ucast_eq) (simp_all add: take_bit_nat_eq_self)
qed

text \<open>After the card is known and before the cursor is put there.\<close>

definition con_init_screen :: "boot_params \<Rightarrow> console \<Rightarrow> console" where
  "con_init_screen b c =
     (let c = con_init_card b (c\<lparr>video_num_columns := ucast (drop_bit 8 (video_info b AND 0xff00)),
                video_size_row := ucast (drop_bit 8 (video_info b AND 0xff00)) * 2, video_num_lines := 25,
                video_page := ucast (orig_video_page b), video_erase_char := 0x0720\<rparr>);
          c = c\<lparr>vmem := put_desc (display_desc (video_type c)) (video_mem_start c + video_size_row c - 8) (vmem c)\<rparr>
      in c\<lparr>origin := video_mem_start c, scr_end := video_mem_start c + video_num_lines c * video_size_row c,
                con_top := 0, con_bottom := video_num_lines c\<rparr>)"

lemma con_init_screen:
  "con_init b c = (let c = gotoxy (ucast (orig_x b)) (ucast (orig_y b)) (con_init_screen b c);
     c = outb (port_in c 0x21 AND 0xfd) 0x21 c; a = port_in c 0x61; c = outb (a OR 0x80) 0x61 c in outb a 0x61 c)"
  unfolding con_init_def con_init_screen_def Let_def ..

lemma con_init_screen_simps:
  "cols (con_init_screen b c) = boot_cols b" "rows (con_init_screen b c) = 25" "rtop (con_init_screen b c) = 0"
  "con_bottom (con_init_screen b c) = video_num_lines (con_init_screen b c)"
  "video_size_row (con_init_screen b c) = 2 * video_num_columns (con_init_screen b c)"
  "origin (con_init_screen b c) = video_mem_start (con_init_screen b c)"
  "scr_end (con_init_screen b c) = video_mem_start (con_init_screen b c) + video_num_lines (con_init_screen b c) * video_size_row (con_init_screen b c)"
  "par (con_init_screen b c) = par c" "npar (con_init_screen b c) = npar c"
  by (simp_all add: con_init_screen_def con_init_card_def Let_def boot_cols_def unat_ucast_word)

lemma con_init_mem:
  "video_mem_end (con_init_screen b c) = cell (video_mem_start (con_init_screen b c)) (mem_cells (con_init_screen b c))"
  "4096 \<le> mem_cells (con_init_screen b c)" "mem_cells (con_init_screen b c) < 16777216"
  "unat (video_mem_start (con_init_screen b c)) < 16777216"
  by (simp_all add: con_init_screen_def con_init_card_def Let_def mem_cells_def cell_def)

lemma con_init_vmem:
  "vmem (con_init_screen b c) = put_desc (display_desc (video_type (con_init_screen b c)))
     (video_mem_start (con_init_screen b c) + video_size_row (con_init_screen b c) - 8) (vmem c)"
  by (simp add: con_init_screen_def con_init_card_def Let_def)

lemma con_init_screen_card:
  assumes "boot_ok b"
  shows "card_wf (con_init_screen b c)" "cols (con_init_screen b c) * rows (con_init_screen b c) \<le> mem_cells (con_init_screen b c)"
    "\<not> in_vmem (con_init_screen b c) x \<Longrightarrow> vmem (con_init_screen b c) x = vmem c x"
proof -
  let ?c = "con_init_screen b c"
  have c: "even (boot_cols b)" "8 \<le> boot_cols b" "boot_cols b \<le> 162" using assms by (simp_all add: boot_ok_def)
  show "card_wf ?c" using c con_init_mem [of b c] by (simp add: card_wf_def con_init_screen_simps)
  show "cols ?c * rows ?c \<le> mem_cells ?c" using c con_init_mem(2) [of b c] by (simp add: con_init_screen_simps)
  assume x: "\<not> in_vmem ?c x"
  have p: "video_mem_start ?c + video_size_row ?c - 8 = cell (video_mem_start ?c) (boot_cols b - 4)"
    unfolding row_cell(2) [OF con_init_screen_simps(5)] con_init_screen_simps(1) using c cell_sub [of 4] by simp
  have "\<forall>i < length (display_desc (video_type ?c)). x \<noteq> cell (video_mem_start ?c + video_size_row ?c - 8) i"
  proof (intro allI impI)
    fix i assume "i < length (display_desc (video_type ?c))"
    then have "i < 4" by (simp add: display_desc_def split: if_splits)
    then have "boot_cols b - 4 + i < mem_cells ?c" using c con_init_mem(2) [of b c] by linarith
    then show "x \<noteq> cell (video_mem_start ?c + video_size_row ?c - 8) i" using x unfolding p by (auto simp: in_vmem_def)
  qed
  then show "vmem ?c x = vmem c x" unfolding con_init_vmem by (rule put_desc_out)
qed

lemma con_init_step:
  assumes b: "boot_ok b" and "length (par c) = NPAR" "npar c < NPAR"
  shows "con_wf (con_init b c)" "\<not> in_vmem (con_init b c) x \<Longrightarrow> vmem (con_init b c) x = vmem c x"
proof -
  define s where "s = con_init_screen b c"
  note simps = con_init_screen_simps [of b c, folded s_def]
  note card = con_init_screen_card [OF b, of c, folded s_def]
  define c1 where "c1 = gotoxy (ucast (orig_x b)) (ucast (orig_y b)) s"
  have le: "unat (orig_x b) \<le> boot_cols b" "unat (orig_y b) < 25" using b by (simp_all add: boot_ok_def word_less_nat_alt)
  have "gotoxy (ucast (orig_x b)) (ucast (orig_y b)) s =
      s\<lparr>con_x := ucast (orig_x b), con_y := ucast (orig_y b), con_pos := origin s + ucast (orig_y b) * video_size_row s + push_bit 1 (ucast (orig_x b))\<rparr>"
    using le simps(1,2) by (simp add: gotoxy_def word_less_nat_alt word_le_nat_alt unat_ucast_word)
  moreover have "origin s + ucast (orig_y b) * video_size_row s + push_bit 1 (ucast (orig_x b)) = cell (origin s) (cols s * unat (orig_y b) + unat (orig_x b))"
    using row_cell(1) [OF simps(5), of "origin s" "ucast (orig_y b)"] by (simp only: mult.commute [of "ucast (orig_y b)"] shift_cell(1) cell_cell unat_ucast_word)
  ultimately have c1: "c1 = s\<lparr>con_x := ucast (orig_x b), con_y := ucast (orig_y b), con_pos := cell (origin s) (cols s * unat (orig_y b) + unat (orig_x b))\<rparr>"
    unfolding c1_def by simp
  have "scr_end s = cell (origin s) (cols s * rows s)" using row_cell(1) [OF simps(5), of "origin s" "video_num_lines s"] simps by (simp only: mult.commute)
  moreover have "\<exists>n. origin s = cell (video_mem_start s) n \<and> n + cols s * rows s \<le> mem_cells s"
    using simps(6) card(2) by (intro exI [of _ 0]) simp
  ultimately have wf: "con_wf c1" using card(1) assms le simps unfolding c1
    by (simp add: con_wf_def card_wf_def mem_cells_def unat_ucast_word)
  have st: "con_step c1 (con_init b c)"
    unfolding con_init_screen s_def [symmetric] c1_def [symmetric] Let_def by (intro outb_step con_step_refl wf)
  then show "con_wf (con_init b c)" by (rule con_step_wf)
  assume "\<not> in_vmem (con_init b c) x"
  then have "\<not> in_vmem c1 x" "\<not> in_vmem s x" using st by (simp_all add: con_step_def in_vmem_def mem_cells_def c1)
  then show "vmem (con_init b c) x = vmem c x" using st card(3) by (simp add: con_step_def c1)
qed

section \<open>Runs of the console\<close>

text \<open>What the kernel does with the console after \<open>con_init\<close>: \<open>con_write\<close>, the F12 key, and the end of a beep.\<close>

datatype console_event = Write u8 "u8 list" | F12 | BeepStop

fun console_do :: "(u8 list \<Rightarrow> u8 list) \<Rightarrow> console_event \<Rightarrow> console \<Rightarrow> console" where
  "console_do f (Write erase_char cs) c = con_write f erase_char cs c"
| "console_do f F12 c = F12_trigger c"
| "console_do f BeepStop c = sysbeepstop c"

lemma console_do_step: "con_wf c \<Longrightarrow> con_step c (console_do f ev c)"
proof (cases ev)
  case (Write e cs)
  assume "con_wf c"
  then show ?thesis using step_then [OF con_chars_step set_cursor_step] Write by (simp add: con_write_def)
next
  case F12
  assume "con_wf c"
  with F12 show ?thesis by (simp add: F12_trigger_def con_step_def con_wf_def card_wf_def mem_cells_def)
next
  case BeepStop
  assume "con_wf c"
  with BeepStop show ?thesis by (simp add: sysbeepstop_def step_misc)
qed

lemma console_run_step: "con_wf c \<Longrightarrow> con_step c (fold (console_do f) evs c)"
proof (induction evs arbitrary: c)
  case (Cons ev evs)
  show ?case using step_then [OF console_do_step [OF Cons.prems] Cons.IH] by simp
qed (simp add: con_step_refl)

text \<open>C20. From boot on, whatever is written to the console (any bytes, complete or broken escape sequences, with
  parameters that overflow), the cursor stays on the screen at the address \<open>pos\<close>, the screen stays inside video
  memory, and the driver writes nothing outside video memory.\<close>

theorem console_stays_in_vmem:
  assumes "boot_ok b" "length (par c) = NPAR" "npar c < NPAR"
  shows "con_wf (fold (console_do f) evs (con_init b c)) \<and>
    (\<forall>x. in_vmem (con_init b c) x \<or> vmem (fold (console_do f) evs (con_init b c)) x = vmem c x)"
proof -
  have st: "con_step (con_init b c) (fold (console_do f) evs (con_init b c))"
    by (rule console_run_step [OF con_init_step(1) [OF assms]])
  then have "vmem (fold (console_do f) evs (con_init b c)) x = vmem c x" if "\<not> in_vmem (con_init b c) x" for x
    using con_init_step(2) [OF assms that] that by (simp add: con_step_def)
  then show ?thesis using con_step_wf [OF st] by blast
qed

text \<open>A VGA adapter in text mode 3 with 80 columns.\<close>

definition vga80 :: boot_params where
  "vga80 = \<lparr>orig_x = 0, orig_y = 7, orig_video_page = 0, video_info = 0x5003, orig_ega_bx = 3\<rparr>"

definition console0 :: console where
  "console0 = \<lparr>video_type = 0, video_num_columns = 0, video_size_row = 0, video_num_lines = 0, video_page = 0,
     video_mem_start = 0, video_mem_end = 0, video_port_reg = 0, video_port_val = 0, video_erase_char = 0, origin = 0,
     scr_end = 0, con_pos = 0, con_x = 0, con_y = 0, con_top = 0, con_bottom = 0, con_state = 0, npar = 0,
     par = replicate 16 0, ques = False, con_attr = 7, F12Flag = 0, saved_x = 0, saved_y = 0, con_beepcount = 0,
     vmem = (\<lambda>_. 0), port_in = (\<lambda>_. 0), port_out = [], con_read_q = []\<rparr>"

lemma vga80_ok: "boot_ok vga80" "length (par console0) = NPAR" "npar console0 < NPAR"
  by (simp_all add: boot_ok_def boot_cols_def vga80_def console0_def NPAR_def)

lemma vga80_wf: "con_wf (con_init vga80 console0)"
  by (rule con_init_step(1) [OF vga80_ok])

theorem console_stays_in_vmem_witness:
  "con_wf (fold (console_do id) [Write 127 [0x1b, 0x5b, 0x32, 0x4a, 0x41], F12] (con_init vga80 console0)) \<and>
   (\<forall>x. in_vmem (con_init vga80 console0) x \<or>
      vmem (fold (console_do id) [Write 127 [0x1b, 0x5b, 0x32, 0x4a, 0x41], F12] (con_init vga80 console0)) x = vmem console0 x)"
  using console_stays_in_vmem [OF vga80_ok] by blast

text \<open>What scrolling means: the lines from \<open>t\<close> to \<open>b\<close> move by one line, and the one that gets free is blank.\<close>

definition lines_up :: "nat \<Rightarrow> nat \<Rightarrow> u16 \<Rightarrow> (nat \<Rightarrow> nat \<Rightarrow> u16) \<Rightarrow> nat \<Rightarrow> nat \<Rightarrow> u16" where
  "lines_up t b blank s r k = (if r = b - 1 then blank else if t \<le> r \<and> r < b - 1 then s (r + 1) k else s r k)"

definition lines_down :: "nat \<Rightarrow> nat \<Rightarrow> u16 \<Rightarrow> (nat \<Rightarrow> nat \<Rightarrow> u16) \<Rightarrow> nat \<Rightarrow> nat \<Rightarrow> u16" where
  "lines_down t b blank s r k = (if r = t then blank else if t < r \<and> r < b then s (r - 1) k else s r k)"

text \<open>C21. On every card, and whether the whole screen or a region is scrolled, \<open>scrup\<close> and \<open>scrdown\<close> show what moving
  the lines of the region by one would show: moving the start of the display on an EGA card, with its copy back to the
  start of video memory at the end, cannot be told from moving the lines.\<close>

theorem scroll_moves_lines:
  assumes "con_wf c" "r < rows c" "k < cols c"
  shows "screen (scrup c) r k = lines_up (rtop c) (rbot c) (video_erase_char c) (screen c) r k \<and>
    screen (scrdown c) r k = lines_down (rtop c) (rbot c) (video_erase_char c) (screen c) r k"
  using scrup_step(2) [OF assms] scrdown_step(2) [OF assms] by (simp only: lines_up_def lines_down_def)

lemma vga80_size: "rows (con_init vga80 console0) = 25" "cols (con_init vga80 console0) = 80"
  by (simp_all add: con_init_screen con_init_screen_simps gotoxy_def outb_def Let_def boot_cols_def vga80_def)

theorem scroll_moves_lines_witness:
  "screen (scrup (con_init vga80 console0)) 3 4 =
     lines_up (rtop (con_init vga80 console0)) (rbot (con_init vga80 console0)) (video_erase_char (con_init vga80 console0))
       (screen (con_init vga80 console0)) 3 4 \<and>
   screen (scrdown (con_init vga80 console0)) 3 4 =
     lines_down (rtop (con_init vga80 console0)) (rbot (con_init vga80 console0)) (video_erase_char (con_init vga80 console0))
       (screen (con_init vga80 console0)) 3 4"
  by (rule scroll_moves_lines [OF vga80_wf]) (simp_all add: vga80_size)

section \<open>F12 and the escape sequences of state 1\<close>

lemma sint_small: "(ch :: u8) < 128 \<Longrightarrow> sint ch = uint ch"
proof -
  assume "ch < 128"
  then have "uint ch < 128" by (simp add: word_less_def)
  moreover have "- 128 \<le> uint ch" by (rule order_trans [OF _ unsigned_greater_eq]) simp
  ultimately have "signed_take_bit 7 (uint ch) = uint ch" by (intro signed_take_bit_int_eq_self) simp_all
  then show ?thesis by (simp add: sint_uint)
qed

lemma isalpha_plain: "isalpha ch \<Longrightarrow> sint ch > 31 \<and> sint ch < 127"
proof -
  assume a: "isalpha ch"
  then have "ch < 128" by (auto simp: isalpha_def word_less_nat_alt word_le_nat_alt)
  then show ?thesis using a sint_small [of ch] by (auto simp: isalpha_def word_le_def)
qed

lemma scroll_keeps [simp]:
  "con_state (lf c) = con_state c" "F12Flag (lf c) = F12Flag c"
  by (simp_all add: lf_def scrup_def scroll_region_up_def scroll_screen_up_def set_origin_def outb_def Let_def)

lemma put_char_keeps:
  "con_state (put_char ch c) = con_state c" "F12Flag (put_char ch c) = F12Flag c"
  "con_state (tab c) = con_state c" "F12Flag (tab c) = F12Flag c"
  by (simp_all add: put_char_def tab_def wrap_line_def Let_def)

lemma plain_char_keeps:
  "ch \<noteq> 27 \<Longrightarrow> con_state (plain_char e ch c) = con_state c" "F12Flag (plain_char e ch c) = F12Flag c"
  by (simp_all add: plain_char_def put_char_keeps cr_def del_def sysbeep_def outb_def Let_def)

lemma put_char_hidden: "F12Flag c \<noteq> 0 \<Longrightarrow> isalpha a \<Longrightarrow> isalpha b \<Longrightarrow> put_char a c = put_char b c"
  by (simp add: put_char_def wrap_line_def Let_def)

lemma plain_char_hidden:
  "F12Flag c \<noteq> 0 \<Longrightarrow> isalpha a \<Longrightarrow> isalpha b \<Longrightarrow> plain_char e a c = plain_char e b c"
proof -
  have "plain_char e ch c = put_char ch c" if "isalpha ch" for ch using isalpha_plain [OF that] by (simp add: plain_char_def)
  then show "F12Flag c \<noteq> 0 \<Longrightarrow> isalpha a \<Longrightarrow> isalpha b \<Longrightarrow> ?thesis" using put_char_hidden [of c a b] by simp
qed

text \<open>Two texts that differ at most in their letters.\<close>

definition same_but_letters :: "u8 \<Rightarrow> u8 \<Rightarrow> bool" where
  "same_but_letters a b \<longleftrightarrow> a = b \<and> a \<noteq> 27 \<or> isalpha a \<and> isalpha b"

lemma con_chars_hidden:
  assumes "list_all2 same_but_letters cs ds" "con_state c = 0" "F12Flag c \<noteq> 0"
  shows "fold (con_char f e) cs c = fold (con_char f e) ds c"
  using assms
proof (induction arbitrary: c rule: list_all2_induct)
  case (Cons a cs b ds)
  have n: "a \<noteq> 27" using Cons.hyps(1) by (auto simp: same_but_letters_def isalpha_def)
  have "con_char f e a c = con_char f e b c"
    using Cons.hyps(1) Cons.prems plain_char_hidden [of c a b e] by (auto simp: same_but_letters_def con_char_def)
  moreover have "con_state (con_char f e a c) = 0" "F12Flag (con_char f e a c) \<noteq> 0"
    using Cons.prems n by (simp_all add: con_char_def plain_char_keeps)
  ultimately show ?case using Cons.IH [of "con_char f e a c"] by simp
qed simp

text \<open>C31. While F12 is on, the console does not show which letters are written: two texts without escape
  sequences that differ only in their letters lead to the same console, video memory included.\<close>

theorem F12_hides_letters:
  assumes "F12Flag c = 1" "con_state c = 0" "list_all2 same_but_letters cs ds"
  shows "con_write f e cs c = con_write f e ds c"
  using con_chars_hidden [OF assms(3,2)] assms(1) by (simp add: con_write_def)

theorem F12_hides_letters_witness:
  "con_write id 127 [0x61, 0x31, 0x0a] (F12_trigger (con_init vga80 console0)) =
   con_write id 127 [0x5a, 0x31, 0x0a] (F12_trigger (con_init vga80 console0))"
proof (rule F12_hides_letters)
  show "F12Flag (F12_trigger (con_init vga80 console0)) = 1" "con_state (F12_trigger (con_init vga80 console0)) = 0"
    by (simp_all add: F12_trigger_def con_init_screen gotoxy_def outb_def Let_def con_init_screen_def con_init_card_def console0_def)
  show "list_all2 same_but_letters [0x61, 0x31, 0x0a] [0x5a, 0x31, 0x0a]" by (simp add: same_but_letters_def isalpha_def)
qed

text \<open>The sequences \<open>ESC 7\<close> and \<open>ESC 8\<close> do not save and restore the cursor: outside columns 55 and 56 both do
  nothing, and in column 55 any unknown character after an escape saves it.\<close>

theorem esc_7_8_test_the_column:
  assumes "con_state c = 0"
  shows "(con_x c \<noteq> 55 \<and> con_x c \<noteq> 56 \<longrightarrow> con_write f e [27, 0x37] c = set_cursor c \<and> con_write f e [27, 0x38] c = set_cursor c) \<and>
    (con_x c = 55 \<longrightarrow> con_write f e [27, 0x41] c = set_cursor (save_cur c))"
proof -
  have s: "plain_char e 27 c = c\<lparr>con_state := 1\<rparr>" by (simp add: plain_char_def sint_small word_less_def)
  have c: "c\<lparr>con_state := 0\<rparr> = c" using assms by (cases c) simp
  show ?thesis
    by (simp add: con_write_def con_char_def assms s esc_char_def Let_def c)
qed

theorem esc_7_8_test_the_column_witness:
  "con_write id 127 [27, 0x37] console0 = set_cursor console0 \<and> con_write id 127 [27, 0x38] console0 = set_cursor console0"
proof -
  have "con_state console0 = 0" "con_x console0 = 0" by (simp_all add: console0_def)
  then show ?thesis using esc_7_8_test_the_column [of console0 id 127] by simp
qed

end
