(* ===== verification/Threads.thy ===== *)
theory Threads imports Kprelude begin

text \<open>
  \<open>threads.c\<close>, the user-level threads of Douglas Jones. A \<open>jmp_buf\<close> is the list of its long words, so that Part I,
  which compares three of them to find the words that hold stack addresses, and \<open>thread_launch\<close>, which moves these
  words to the new stack, are computations on lists. The structures \<open>thread\<close> lie in a store indexed by address and
  are linked through \<open>t_next\<close>; address 0 is the null pointer.

  A routine that leaves through \<open>_longjmp\<close> returns the buffer it jumps to; what \<open>_setjmp\<close> saves is an argument
  (\<open>env\<close>) of the routine, as is the address that \<open>malloc\<close> returned.
\<close>

unbundle bit_operations_syntax

section \<open>Part I: the study of the jump buffer\<close>

record probes =
  low_bound :: u32
  probe_local :: u32
  high_bound :: u32
  prior_local :: u32
  probe_env :: "u32 list"
  probe_sameAR :: "u32 list"
  probe_samePC :: "u32 list"
  ref_samePC :: bool

text \<open>\<open>ref_probe\<close> points to \<open>probe_samePC\<close> first and to \<open>probe_env\<close> after the first probe. The arguments \<open>c\<close>, \<open>ch\<close> and
  \<open>cl\<close> are the addresses of the local variables, \<open>e1\<close> and \<open>e2\<close> what the two calls of \<open>_setjmp\<close> save.\<close>

definition boundhigh :: "u32 \<Rightarrow> probes \<Rightarrow> probes" where
  "boundhigh ch p = p\<lparr>high_bound := ch\<rparr>"

definition probe :: "u32 \<Rightarrow> u32 list \<Rightarrow> u32 list \<Rightarrow> u32 \<Rightarrow> probes \<Rightarrow> probes" where
  "probe c e1 e2 ch p =
     (let p = p\<lparr>prior_local := probe_local p, probe_local := c\<rparr>;
          p = (if ref_samePC p then p\<lparr>probe_samePC := e1\<rparr> else p\<lparr>probe_env := e1\<rparr>);
          p = p\<lparr>ref_samePC := False, probe_sameAR := e2\<rparr>
      in boundhigh ch p)"

definition boundlow :: "u32 \<Rightarrow> u32 \<Rightarrow> u32 list \<Rightarrow> u32 list \<Rightarrow> u32 \<Rightarrow> probes \<Rightarrow> probes" where
  "boundlow cl c e1 e2 ch p = probe c e1 e2 ch (p\<lparr>low_bound := cl\<rparr>)"

text \<open>What the study finds: the direction of the stack, the offset of the locals, and which words of a jump buffer
  change with the frame. A word that differs although the frame is the same ends the process.\<close>

record study =
  stack_up :: bool
  local_offset :: int
  probe_record :: "bool list"

fun study_words :: "bool \<Rightarrow> u32 \<Rightarrow> u32 list \<Rightarrow> u32 list \<Rightarrow> u32 list \<Rightarrow> int \<Rightarrow> (bool list \<times> int) option" where
  "study_words up prior_diff (p # ps) (ar # ars) (pc # pcs) min_frame =
     (if p \<noteq> pc \<and> p \<noteq> ar then None
      else
        (let dep = p \<noteq> pc \<and> p - pc = prior_diff;
             min_frame = (if dep then (if up then (if min_frame > sint p then sint p else min_frame)
               else (if min_frame < sint p then sint p else min_frame)) else min_frame)
         in case study_words up prior_diff ps ars pcs min_frame of None \<Rightarrow> None | Some (rec, m) \<Rightarrow> Some (dep # rec, m)))"
| "study_words up prior_diff _ _ _ min_frame = Some ([], min_frame)"

definition studyit :: "probes \<Rightarrow> study option" where
  "studyit p =
     (let up = sint (high_bound p) > sint (low_bound p) in
      case study_words up (probe_local p - prior_local p) (probe_env p) (probe_sameAR p) (probe_samePC p) (sint (probe_local p)) of
        None \<Rightarrow> None
      | Some (rec, min_frame) \<Rightarrow> Some \<lparr>stack_up = up,
          local_offset = s32 (if up then sint (probe_local p) - min_frame else min_frame - sint (probe_local p)),
          probe_record = rec\<rparr>)"

section \<open>Part II: threads and their queues\<close>

record thread =
  t_next :: u32
  t_size :: u32
  t_proc :: u32
  t_param :: u32
  t_state :: "u32 list"

record thread_queue =
  head :: u32
  tail :: u32

record thread_semaphore =
  count :: int
  queue :: thread_queue

text \<open>\<open>go_free_it\<close> and \<open>thread_death\<close> are the two buffers that \<open>thread_manager_start\<close> sets; \<open>freed\<close> is the log of
  \<open>free\<close>, \<open>errors\<close> what goes to \<open>stderr\<close>.\<close>

record manager =
  study_of :: study
  threads :: "u32 \<Rightarrow> thread"
  mem :: "u32 \<Rightarrow> u32"
  readylist :: thread_queue
  current :: u32
  mem_to_free :: u32
  freed :: "u32 list"
  errors :: "string list"
  sems :: "u32 \<Rightarrow> thread_semaphore"

text \<open>The queues: the ready list, and the queue of the semaphore at an address.\<close>

datatype queue_name = Ready | Sem u32

fun get_queue :: "queue_name \<Rightarrow> manager \<Rightarrow> thread_queue" where
  "get_queue Ready s = readylist s"
| "get_queue (Sem a) s = queue (sems s a)"

fun set_queue :: "queue_name \<Rightarrow> thread_queue \<Rightarrow> manager \<Rightarrow> manager" where
  "set_queue Ready q s = s\<lparr>readylist := q\<rparr>"
| "set_queue (Sem a) q s = s\<lparr>sems := (sems s)(a := (sems s a)\<lparr>queue := q\<rparr>)\<rparr>"

definition thread_queue_init :: "queue_name \<Rightarrow> manager \<Rightarrow> manager" where
  "thread_queue_init n s = set_queue n \<lparr>head = 0, tail = 0\<rparr> s"

definition set_next :: "u32 \<Rightarrow> u32 \<Rightarrow> manager \<Rightarrow> manager" where
  "set_next t x s = s\<lparr>threads := (threads s)(t := (threads s t)\<lparr>t_next := x\<rparr>)\<rparr>"

definition thread_enqueue :: "u32 \<Rightarrow> queue_name \<Rightarrow> manager \<Rightarrow> manager" where
  "thread_enqueue t n s =
     (let s = set_next t 0 s; q = get_queue n s in
      if head q = 0 then set_queue n \<lparr>head = t, tail = t\<rparr> s
      else set_queue n (q\<lparr>tail := t\<rparr>) (set_next (tail q) t s))"

definition thread_dequeue :: "queue_name \<Rightarrow> manager \<Rightarrow> u32 \<times> manager" where
  "thread_dequeue n s =
     (let q = get_queue n s in
      if head q = 0 then (0, s)
      else (head q, set_queue n (q\<lparr>head := t_next (threads s (head q))\<rparr>) s))"

section \<open>Running threads\<close>

text \<open>Where control goes: back to the caller, to a jump buffer, out of \<open>thread_manager_start\<close>, or out of the process.\<close>

datatype control = Back | Jump "u32 list" | Manager_returns | Exits

text \<open>Two probes, the first with padding on the stack (\<open>fill\<close>), each with its addresses and saved buffers; \<open>None\<close> is
  the exit of \<open>studyit\<close>.\<close>

record probe_args =
  a_low :: u32
  a_local :: u32
  a_env1 :: "u32 list"
  a_env2 :: "u32 list"
  a_high :: u32

definition fill :: "probe_args \<Rightarrow> probes \<Rightarrow> probes" where
  "fill a p = boundlow (a_low a) (a_local a) (a_env1 a) (a_env2 a) (a_high a) p"

definition thread_manager_init :: "probe_args \<Rightarrow> probe_args \<Rightarrow> probes \<Rightarrow> manager \<Rightarrow> manager option" where
  "thread_manager_init a b p s =
     (case studyit (boundlow (a_low b) (a_local b) (a_env1 b) (a_env2 b) (a_high b) (fill a p)) of
        None \<Rightarrow> None
      | Some st \<Rightarrow> Some ((thread_queue_init Ready (s\<lparr>study_of := st\<rparr>))\<lparr>mem_to_free := 0, current := 0\<rparr>))"

text \<open>The code behind \<open>_setjmp(go_free_it)\<close>.\<close>

definition free_pending :: "manager \<Rightarrow> manager" where
  "free_pending s = (if mem_to_free s \<noteq> 0 then s\<lparr>freed := freed s @ [mem_to_free s], mem_to_free := 0\<rparr> else s)"

definition go_free_it :: "manager \<Rightarrow> manager \<times> control" where
  "go_free_it s = (let s = free_pending s in (s, Jump (t_state (threads s (current s)))))"

text \<open>\<open>_longjmp(thread_death, 1)\<close> with \<open>thread_error\<close> set.\<close>

definition thread_death :: "string \<Rightarrow> manager \<Rightarrow> manager \<times> control" where
  "thread_death msg s =
     (let s = s\<lparr>errors := errors s @ [msg]\<rparr> in
      (if mem_to_free s \<noteq> 0 then s\<lparr>freed := freed s @ [mem_to_free s]\<rparr> else s, Manager_returns))"

definition thread_manager_start :: "manager \<Rightarrow> manager \<times> control" where
  "thread_manager_start s =
     (let (t, s) = thread_dequeue Ready s; s = s\<lparr>current := t\<rparr> in
      if t = 0 then (s\<lparr>errors := errors s @ [''no threads'']\<rparr>, Exits) else go_free_it s)"

text \<open>\<open>_setjmp(current->state)\<close>\<close>

definition save_state :: "u32 list \<Rightarrow> manager \<Rightarrow> manager" where
  "save_state env s = s\<lparr>threads := (threads s)(current s := (threads s (current s))\<lparr>t_state := env\<rparr>)\<rparr>"

definition thread_relinquish :: "u32 list \<Rightarrow> manager \<Rightarrow> manager \<times> control" where
  "thread_relinquish env s =
     (let s = save_state env s; s = thread_enqueue (current s) Ready s;
          (t, s) = thread_dequeue Ready s; s = s\<lparr>current := t\<rparr>
      in (s, Jump (t_state (threads s t))))"

definition thread_exit :: "manager \<Rightarrow> manager \<times> control" where
  "thread_exit s =
     (let s = s\<lparr>mem_to_free := current s\<rparr>; (t, s) = thread_dequeue Ready s; s = s\<lparr>current := t\<rparr> in
      if t = 0 then thread_death ''ready list empty'' s else go_free_it s)"

definition thread_free :: "u32 \<Rightarrow> u32 list \<Rightarrow> manager \<Rightarrow> manager \<times> control" where
  "thread_free ptr env s = go_free_it (save_state env (s\<lparr>mem_to_free := ptr\<rparr>))"

section \<open>Launching\<close>

text \<open>\<open>sizeof(struct thread)\<close> with a jump buffer of \<open>n\<close> words, and the loop that copies the activation record.\<close>

definition sizeof_thread :: "nat \<Rightarrow> u32" where
  "sizeof_thread n = of_nat (16 + 4 * n)"

fun copy_longs :: "nat \<Rightarrow> u32 \<Rightarrow> u32 \<Rightarrow> (u32 \<Rightarrow> u32) \<Rightarrow> u32 \<Rightarrow> u32" where
  "copy_longs 0 dst src m = m"
| "copy_longs (Suc n) dst src m = copy_longs n (dst + 4) (src + 4) (m(dst := m src))"

definition record_longs :: "int \<Rightarrow> nat" where
  "record_longs off = (if off < 0 then 0 else nat off div 4 + 1)"

definition relocate :: "bool list \<Rightarrow> u32 \<Rightarrow> u32 list \<Rightarrow> u32 list" where
  "relocate rec diff env = map2 (\<lambda>dep w. if dep then w + diff else w) rec env"

text \<open>\<open>t\<close> is the result of \<open>malloc\<close>, \<open>local_base\<close> the address of the local variable \<open>t\<close>, \<open>env\<close> what \<open>_setjmp\<close> saves.\<close>

definition thread_launch :: "u32 \<Rightarrow> u32 \<Rightarrow> u32 list \<Rightarrow> u32 \<Rightarrow> u32 \<Rightarrow> u32 \<Rightarrow> manager \<Rightarrow> manager" where
  "thread_launch t local_base env len proc param s =
     (let st = study_of s; sz = sizeof_thread (length env); off = of_int (local_offset st);
          new_base = (if stack_up st then t + sz + off else t + sz + len - (off + 4));
          n = record_longs (local_offset st);
          m = (if stack_up st then copy_longs n (new_base - off) (local_base - off) (mem s)
               else copy_longs n new_base local_base (mem s));
          th = \<lparr>t_next = t_next (threads s t), t_size = len, t_proc = proc, t_param = param,
                t_state = relocate (probe_record st) (new_base - local_base) env\<rparr>
      in thread_enqueue t Ready (s\<lparr>mem := m, threads := (threads s)(t := th)\<rparr>))"

text \<open>The first time a launched thread runs, \<open>_setjmp\<close> returns 1: it calls its procedure and exits.\<close>

definition thread_body :: "(u32 \<Rightarrow> u32 \<Rightarrow> manager \<Rightarrow> manager) \<Rightarrow> manager \<Rightarrow> manager \<times> control" where
  "thread_body run s = thread_exit (run (t_proc (threads s (current s))) (t_param (threads s (current s))) s)"

definition thread_safety_check :: "u32 \<Rightarrow> nat \<Rightarrow> manager \<Rightarrow> manager \<times> control" where
  "thread_safety_check local_t n s =
     (let t = current s + sizeof_thread n in
      if sint local_t < sint t \<or> sint local_t > sint (t + t_size (threads s (current s)))
      then thread_death ''thread stack overflow'' s else (s, Back))"

section \<open>Semaphores\<close>

definition set_count :: "u32 \<Rightarrow> int \<Rightarrow> manager \<Rightarrow> manager" where
  "set_count a v s = s\<lparr>sems := (sems s)(a := (sems s a)\<lparr>count := v\<rparr>)\<rparr>"

definition thread_semaphore_init :: "u32 \<Rightarrow> int \<Rightarrow> manager \<Rightarrow> manager" where
  "thread_semaphore_init a v s = thread_queue_init (Sem a) (set_count a v s)"

definition thread_wait :: "u32 \<Rightarrow> u32 list \<Rightarrow> manager \<Rightarrow> manager \<times> control" where
  "thread_wait a env s =
     (if count (sems s a) > 0 then (set_count a (s32 (count (sems s a) - 1)) s, Back)
      else
        (let s = save_state env s; s = thread_enqueue (current s) (Sem a) s;
             (t, s) = thread_dequeue Ready s; s = s\<lparr>current := t\<rparr>
         in if t = 0 then thread_death ''possible deadlock'' s else (s, Jump (t_state (threads s t)))))"

definition thread_signal :: "u32 \<Rightarrow> manager \<Rightarrow> manager" where
  "thread_signal a s =
     (let (t, s) = thread_dequeue (Sem a) s in
      if t = 0 then set_count a (s32 (count (sems s a) + 1)) s else thread_enqueue t Ready s)"

end
