(* ===== verification/Threadprops.thy ===== *)
theory Threadprops imports Threads begin

text \<open>
  The queues of the thread package implement first-in first-out queues: the interface is the locale \<open>fifo_queues\<close>, and
  its interpretation \<open>tq\<close> is on \<open>thread_enqueue\<close> and \<open>thread_dequeue\<close>. From its lemmas follow round-robin scheduling,
  what the semaphores promise, and what \<open>thread_launch\<close> puts into a jump buffer.
\<close>

unbundle bit_operations_syntax

section \<open>The interface of a family of queues\<close>

text \<open>\<open>holds s f\<close> says that in state \<open>s\<close> the queue \<open>n\<close> holds the elements \<open>f n\<close>, first to last; \<open>nil\<close> is no element.\<close>

locale fifo_queues =
  fixes holds :: "'s \<Rightarrow> ('n \<Rightarrow> 't list) \<Rightarrow> bool"
    and nil :: 't
    and enq :: "'t \<Rightarrow> 'n \<Rightarrow> 's \<Rightarrow> 's"
    and deq :: "'n \<Rightarrow> 's \<Rightarrow> 't \<times> 's"
  assumes enq: "holds s f \<Longrightarrow> t \<noteq> nil \<Longrightarrow> (\<And>n. t \<notin> set (f n)) \<Longrightarrow> holds (enq t n s) (f(n := f n @ [t]))"
    and deq_empty: "holds s f \<Longrightarrow> f n = [] \<Longrightarrow> deq n s = (nil, s)"
    and deq_first: "holds s f \<Longrightarrow> f n = t # ts \<Longrightarrow> fst (deq n s) = t \<and> holds (snd (deq n s)) (f(n := ts))"
    and member: "holds s f \<Longrightarrow> f n = t # ts \<Longrightarrow> t \<noteq> nil \<and> t \<notin> set ts \<and> (\<forall>m. m \<noteq> n \<longrightarrow> t \<notin> set (f m))"
begin

lemma deq_fresh:
  assumes "holds s f" "f n = t # ts" shows "t \<noteq> nil" "t \<notin> set ((f(n := ts)) m)"
  using member [OF assms] by auto

text \<open>An element that goes to the end of a queue while the first one leaves it.\<close>

lemma yield:
  assumes "holds s f" "t \<noteq> nil" "\<And>n. t \<notin> set (f n)"
  shows "fst (deq n (enq t n s)) = hd (f n @ [t])" "holds (snd (deq n (enq t n s))) (f(n := tl (f n @ [t])))"
proof -
  have h: "holds (enq t n s) (f(n := f n @ [t]))" by (rule enq [OF assms])
  have "fst (deq n (enq t n s)) = hd (f n @ [t]) \<and> holds (snd (deq n (enq t n s))) ((f(n := f n @ [t]))(n := tl (f n @ [t])))"
    by (rule deq_first [OF h]) simp
  then show "fst (deq n (enq t n s)) = hd (f n @ [t])" "holds (snd (deq n (enq t n s))) (f(n := tl (f n @ [t])))" by simp_all
qed

text \<open>The first element of a queue moves to the end of another one.\<close>

lemma move:
  assumes "holds s f" "f n = t # ts" "m \<noteq> n"
  shows "holds (enq (fst (deq n s)) m (snd (deq n s))) (f(n := ts, m := f m @ [t]))"
proof -
  have d: "fst (deq n s) = t" "holds (snd (deq n s)) (f(n := ts))" using deq_first [OF assms(1,2)] by simp_all
  have "holds (enq t m (snd (deq n s))) ((f(n := ts))(m := (f(n := ts)) m @ [t]))"
    by (rule enq [OF d(2) deq_fresh [OF assms(1,2)]])
  then show ?thesis using assms(3) d(1) by simp
qed

lemma drain:
  assumes "holds s f" "f n = ts @ us"
  shows "holds (((\<lambda>s. snd (deq n s)) ^^ length ts) s) (f(n := us))"
  using assms
proof (induction ts arbitrary: s f)
  case Nil
  then have "f(n := us) = f" by auto
  with Nil show ?case by simp
next
  case (Cons t ts)
  have "holds (snd (deq n s)) (f(n := ts @ us))" using deq_first [OF Cons.prems(1), of n t "ts @ us"] Cons.prems(2) by simp
  then have "holds (((\<lambda>s. snd (deq n s)) ^^ length ts) (snd (deq n s))) ((f(n := ts @ us))(n := us))"
    by (rule Cons.IH) simp
  then show ?case by (simp only: list.size add_0_right add_Suc_right funpow_Suc_right o_apply fun_upd_upd)
qed

text \<open>First in, first out: after as many \<open>deq\<close> as there were elements before it, an element comes out.\<close>

lemma fifo:
  assumes "holds s f" "f n = ts @ t # us"
  shows "fst (deq n (((\<lambda>s. snd (deq n s)) ^^ length ts) s)) = t"
  using deq_first [OF drain [OF assms]] by simp

end

section \<open>The queues of the package\<close>

fun chain :: "(u32 \<Rightarrow> thread) \<Rightarrow> u32 \<Rightarrow> u32 list \<Rightarrow> bool" where
  "chain st h [] \<longleftrightarrow> h = 0"
| "chain st h (t # ts) \<longleftrightarrow> h = t \<and> t \<noteq> 0 \<and> chain st (t_next (st t)) ts"

definition queues :: "manager \<Rightarrow> (queue_name \<Rightarrow> u32 list) \<Rightarrow> bool" where
  "queues s f \<longleftrightarrow>
     (\<forall>n. chain (threads s) (head (get_queue n s)) (f n) \<and> (f n \<noteq> [] \<longrightarrow> tail (get_queue n s) = last (f n)) \<and> distinct (f n)) \<and>
     (\<forall>n m. n \<noteq> m \<longrightarrow> set (f n) \<inter> set (f m) = {})"

lemma chain_upd: "t \<notin> set ts \<Longrightarrow> chain (st(t := x)) h ts = chain st h ts"
  by (induction ts arbitrary: h) auto

lemma chain_next: "(\<And>t. t_next (st' t) = t_next (st t)) \<Longrightarrow> chain st' h ts = chain st h ts"
  by (induction ts arbitrary: h) auto

lemma chain_snoc:
  assumes "chain st h ts" "ts \<noteq> []" "distinct ts" "t \<noteq> 0" "t \<notin> set ts" "t_next (st t) = 0"
  shows "chain (st(last ts := (st (last ts))\<lparr>t_next := t\<rparr>)) h (ts @ [t])"
  using assms
proof (induction ts arbitrary: h)
  case (Cons u us)
  show ?case
  proof (cases "us = []")
    case True
    with Cons.prems show ?thesis by auto
  next
    case False
    then have "u \<noteq> last us" using Cons.prems by auto
    then show ?thesis using Cons.IH [of "t_next (st u)"] Cons.prems False by simp
  qed
qed simp

lemma chain_head: "chain st h ts \<Longrightarrow> h = 0 \<longleftrightarrow> ts = []" "chain st h (t # ts) \<Longrightarrow> h = t"
  by (cases ts; simp)+

lemma get_set_queue [simp]:
  "get_queue m (set_queue n q s) = (if m = n then q else get_queue m s)"
  "threads (set_queue n q s) = threads s"
  by (cases n; cases m; simp)+

lemma get_queue_next [simp]: "get_queue m (set_next t x s) = get_queue m s"
  by (cases m) (simp_all add: set_next_def)

lemma threads_next [simp]: "threads (set_next t x s) = (threads s)(t := (threads s t)\<lparr>t_next := x\<rparr>)"
  by (simp add: set_next_def)

lemma enqueue_queues:
  assumes q: "queues s f" and t: "t \<noteq> 0" "\<And>n. t \<notin> set (f n)"
  shows "queues (thread_enqueue t n s) (f(n := f n @ [t]))"
proof (cases "f n = []")
  case True
  then have h: "head (get_queue n s) = 0" using q chain_head(1) by (metis queues_def)
  show ?thesis using q t True unfolding queues_def thread_enqueue_def Let_def
    by (auto simp: h chain_upd)
next
  case False
  then have h: "head (get_queue n s) \<noteq> 0" using q chain_head(1) by (metis queues_def)
  let ?st = "(threads s)(t := (threads s t)\<lparr>t_next := 0\<rparr>)"
  have l: "tail (get_queue n s) = last (f n)" "last (f n) \<in> set (f n)" "last (f n) \<noteq> t"
    using q False t(2) [of n] last_in_set [OF False] by (auto simp: queues_def)
  have c: "chain (?st(last (f n) := (?st (last (f n)))\<lparr>t_next := t\<rparr>)) (head (get_queue n s)) (f n @ [t])"
    by (rule chain_snoc) (use q t False in \<open>simp_all add: queues_def chain_upd\<close>)
  have o: "chain (?st(last (f n) := x)) (head (get_queue m s)) (f m)" if "m \<noteq> n" for m x
  proof -
    have "last (f n) \<notin> set (f m)" using q that l(2) by (auto simp: queues_def)
    then show ?thesis using q t(2) by (simp add: chain_upd queues_def)
  qed
  have "threads (thread_enqueue t n s) = ?st(last (f n) := (?st (last (f n)))\<lparr>t_next := t\<rparr>)"
    using h l by (simp add: thread_enqueue_def Let_def)
  moreover have "get_queue m (thread_enqueue t n s) = (if m = n then (get_queue n s)\<lparr>tail := t\<rparr> else get_queue m s)" for m
    using h by (simp add: thread_enqueue_def Let_def)
  ultimately show ?thesis using q t c o by (auto simp: queues_def)
qed

lemma dequeue_queues:
  assumes q: "queues s f"
  shows "f n = [] \<Longrightarrow> thread_dequeue n s = (0, s)"
    "f n = t # ts \<Longrightarrow> fst (thread_dequeue n s) = t \<and> queues (snd (thread_dequeue n s)) (f(n := ts))"
proof -
  have c: "chain (threads s) (head (get_queue n s)) (f n)" using q by (simp add: queues_def)
  show "f n = [] \<Longrightarrow> thread_dequeue n s = (0, s)" using c by (simp add: thread_dequeue_def Let_def)
  assume f: "f n = t # ts"
  then have h: "head (get_queue n s) = t" "t \<noteq> 0" "chain (threads s) (t_next (threads s t)) ts" using c by simp_all
  have tl: "tail (get_queue n s) = last (t # ts)" "distinct (t # ts)" using q f by (metis queues_def list.distinct(1))+
  have d: "set ts \<inter> set (f m) = {}" if "m \<noteq> n" for m
  proof -
    have "set (f n) \<inter> set (f m) = {}" using q that by (simp add: queues_def)
    then show ?thesis using f by auto
  qed
  show "fst (thread_dequeue n s) = t \<and> queues (snd (thread_dequeue n s)) (f(n := ts))"
    using q h tl d by (auto simp: thread_dequeue_def Let_def queues_def)
qed

interpretation tq: fifo_queues queues 0 thread_enqueue thread_dequeue
proof
  show "queues s f \<Longrightarrow> t \<noteq> 0 \<Longrightarrow> (\<And>n. t \<notin> set (f n)) \<Longrightarrow> queues (thread_enqueue t n s) (f(n := f n @ [t]))" for s f t n
    by (rule enqueue_queues)
  show "queues s f \<Longrightarrow> f n = [] \<Longrightarrow> thread_dequeue n s = (0, s)" for s f n by (rule dequeue_queues(1))
  show "queues s f \<Longrightarrow> f n = t # ts \<Longrightarrow> fst (thread_dequeue n s) = t \<and> queues (snd (thread_dequeue n s)) (f(n := ts))" for s f n t ts
    by (rule dequeue_queues(2))
  show "t \<noteq> 0 \<and> t \<notin> set ts \<and> (\<forall>m. m \<noteq> n \<longrightarrow> t \<notin> set (f m))" if q: "queues s f" and f: "f n = t # ts" for s f n t ts
  proof -
    have "chain (threads s) (head (get_queue n s)) (t # ts)" "distinct (t # ts)" "\<forall>m. n \<noteq> m \<longrightarrow> set (t # ts) \<inter> set (f m) = {}"
      using q unfolding queues_def f [symmetric] by blast+
    then show ?thesis by auto
  qed
qed

section \<open>What the routines leave alone\<close>

lemma queues_frame:
  "(\<And>n. get_queue n s' = get_queue n s) \<Longrightarrow> (\<And>t. t_next (threads s' t) = t_next (threads s t)) \<Longrightarrow> queues s' f = queues s f"
  unfolding queues_def by (simp add: chain_next [of "threads s'" "threads s"])

lemma get_queue_frame [simp]:
  "get_queue n (s\<lparr>current := t\<rparr>) = get_queue n s" "get_queue n (save_state env s) = get_queue n s"
  "get_queue n (s\<lparr>mem_to_free := p\<rparr>) = get_queue n s" "get_queue n (s\<lparr>freed := l\<rparr>) = get_queue n s"
  "get_queue n (s\<lparr>errors := e\<rparr>) = get_queue n s"
  "get_queue n (s\<lparr>mem := m\<rparr>) = get_queue n s" "get_queue n (s\<lparr>threads := st\<rparr>) = get_queue n s"
  by (cases n; simp add: save_state_def)+

lemma get_queue_count [simp]: "get_queue n (set_count a v s) = get_queue n s"
  by (cases n) (simp_all add: set_count_def)

lemma next_frame [simp]:
  "t_next (threads (save_state env s) t) = t_next (threads s t)" "threads (set_count a v s) = threads s"
  by (simp_all add: save_state_def set_count_def)

lemma queues_simps [simp]:
  "queues (s\<lparr>current := t\<rparr>) f = queues s f" "queues (save_state env s) f = queues s f"
  "queues (s\<lparr>mem_to_free := p\<rparr>) f = queues s f" "queues (s\<lparr>freed := l\<rparr>) f = queues s f"
  "queues (s\<lparr>errors := e\<rparr>) f = queues s f" "queues (set_count a v s) f = queues s f"
  by ((rule queues_frame; simp); fail)+

lemma set_queue_frame [simp]:
  "current (set_queue n q s) = current s" "mem_to_free (set_queue n q s) = mem_to_free s" "freed (set_queue n q s) = freed s"
  "count (sems (set_queue n q s) a) = count (sems s a)"
  by (cases n; simp)+

lemma queue_op_frame [simp]:
  "t_state (threads (thread_enqueue t n s) u) = t_state (threads s u)" "current (thread_enqueue t n s) = current s"
  "threads (snd (thread_dequeue n s)) = threads s" "current (snd (thread_dequeue n s)) = current s"
  "count (sems (thread_enqueue t n s) a) = count (sems s a)" "count (sems (snd (thread_dequeue n s)) a) = count (sems s a)"
  by (simp_all add: thread_enqueue_def thread_dequeue_def Let_def set_next_def)

section \<open>Round robin\<close>

lemma relinquish_step:
  assumes q: "queues s f" "current s \<noteq> 0" "\<And>n. current s \<notin> set (f n)"
  shows "current (fst (thread_relinquish env s)) = hd (f Ready @ [current s])"
    "queues (fst (thread_relinquish env s)) (f(Ready := tl (f Ready @ [current s])))"
    "t_state (threads (fst (thread_relinquish env s)) u) = (if u = current s then env else t_state (threads s u))"
    "snd (thread_relinquish env s) =
      Jump (t_state (threads (fst (thread_relinquish env s)) (current (fst (thread_relinquish env s)))))"
proof -
  let ?s = "save_state env s"
  have c: "current ?s = current s" "queues ?s f" using q(1) by (simp add: save_state_def, simp)
  note y = tq.yield [OF c(2), of "current s" Ready]
  have r: "thread_relinquish env s =
      (let (t, s') = thread_dequeue Ready (thread_enqueue (current s) Ready ?s) in (s'\<lparr>current := t\<rparr>, Jump (t_state (threads s' t))))"
    unfolding thread_relinquish_def Let_def c(1) by (simp add: split_def)
  show "current (fst (thread_relinquish env s)) = hd (f Ready @ [current s])"
    "queues (fst (thread_relinquish env s)) (f(Ready := tl (f Ready @ [current s])))"
    using y q(2,3) unfolding r by (simp_all add: split_def)
  show "t_state (threads (fst (thread_relinquish env s)) u) = (if u = current s then env else t_state (threads s u))"
    "snd (thread_relinquish env s) =
      Jump (t_state (threads (fst (thread_relinquish env s)) (current (fst (thread_relinquish env s)))))"
    unfolding r by (simp_all add: split_def Let_def save_state_def)
qed

text \<open>The processor goes around: after \<open>k\<close> calls of \<open>thread_relinquish\<close> the current thread and the ready list are
  the original ones, rotated.\<close>

definition relinquishes :: "u32 list list \<Rightarrow> manager \<Rightarrow> manager" where
  "relinquishes envs s = fold (\<lambda>env s. fst (thread_relinquish env s)) envs s"

definition current_ok :: "manager \<Rightarrow> (queue_name \<Rightarrow> u32 list) \<Rightarrow> bool" where
  "current_ok s f \<longleftrightarrow> queues s f \<and> current s \<noteq> 0 \<and> (\<forall>n. current s \<notin> set (f n))"

lemma relinquish_ok:
  assumes "current_ok s f"
  shows "current_ok (fst (thread_relinquish env s)) (f(Ready := tl (f Ready @ [current s])))"
    "current (fst (thread_relinquish env s)) # tl (f Ready @ [current s]) = rotate1 (current s # f Ready)"
proof -
  have q: "queues s f" "current s \<noteq> 0" "\<And>n. current s \<notin> set (f n)" using assms by (simp_all add: current_ok_def)
  note r = relinquish_step [OF q, of env]
  show "current (fst (thread_relinquish env s)) # tl (f Ready @ [current s]) = rotate1 (current s # f Ready)"
    using r(1) by (cases "f Ready") simp_all
  show "current_ok (fst (thread_relinquish env s)) (f(Ready := tl (f Ready @ [current s])))"
  proof (cases "f Ready")
    case Nil
    then have "f(Ready := []) = f" by auto
    with Nil r q show ?thesis by (simp add: current_ok_def)
  next
    case (Cons t ts)
    have "t \<noteq> 0 \<and> t \<notin> set ts \<and> (\<forall>m. m \<noteq> Ready \<longrightarrow> t \<notin> set (f m))" by (rule tq.member [OF q(1) Cons])
    moreover have "t \<noteq> current s" using q(3) [of Ready] Cons by auto
    ultimately show ?thesis using r Cons by (simp add: current_ok_def)
  qed
qed

lemma relinquishes_rotate:
  assumes "current_ok s f"
  shows "\<exists>us. current (relinquishes envs s) # us = rotate (length envs) (current s # f Ready) \<and>
    current_ok (relinquishes envs s) (f(Ready := us))"
  using assms
proof (induction envs arbitrary: s f)
  case Nil
  then have "current (relinquishes [] s) # f Ready = rotate (length ([] :: u32 list list)) (current s # f Ready) \<and>
      current_ok (relinquishes [] s) (f(Ready := f Ready))"
    by (simp only: relinquishes_def fold_simps fun_upd_triv list.size rotate0 id_apply)
  then show ?case by (rule exI)
next
  case (Cons env envs)
  note r = relinquish_ok [OF Cons.prems, of env]
  from Cons.IH [OF r(1)] show ?case
    by (simp only: relinquishes_def fold_simps fun_upd_same r(2) fun_upd_upd list.size add_0_right add_Suc_right rotate_Suc rotate1_rotate_swap)
qed

lemma relinquishes_current:
  assumes "current_ok s f" shows "current (relinquishes envs s) = (current s # f Ready) ! (length envs mod (length (f Ready) + 1))"
proof -
  obtain us where "current (relinquishes envs s) # us = rotate (length envs) (current s # f Ready)"
    using relinquishes_rotate [OF assms] by blast
  then have "current (relinquishes envs s) = hd (rotate (length envs) (current s # f Ready))" by (metis list.sel(1))
  then show ?thesis by (simp add: hd_rotate_conv_nth)
qed

lemma relinquishes_state:
  assumes "current_ok s f" "length envs \<le> length (f Ready)" "u \<notin> set (take (length envs) (current s # f Ready))"
  shows "t_state (threads (relinquishes envs s) u) = t_state (threads s u)"
  using assms
proof (induction envs rule: rev_induct)
  case (snoc env envs)
  let ?s = "relinquishes envs s"
  obtain us where "current_ok ?s (f(Ready := us))" using relinquishes_rotate [OF snoc.prems(1)] by blast
  then have q: "queues ?s (f(Ready := us))" "current ?s \<noteq> 0" "\<And>n. current ?s \<notin> set ((f(Ready := us)) n)"
    by (simp_all add: current_ok_def)
  have c: "current ?s = (current s # f Ready) ! length envs"
    using relinquishes_current [OF snoc.prems(1)] snoc.prems(2) by simp
  have "length envs < length (current s # f Ready)" using snoc.prems(2) by simp
  from take_Suc_conv_app_nth [OF this] have t: "u \<notin> set (take (length envs) (current s # f Ready))" "u \<noteq> current ?s"
    using snoc.prems(3) unfolding c length_append_singleton by auto
  have "t_state (threads (fst (thread_relinquish env ?s)) u) = t_state (threads ?s u)"
    using relinquish_step(3) [OF q] t(2) by simp
  then show ?case using snoc t(1) by (simp add: relinquishes_def)
qed (simp add: relinquishes_def)

section \<open>Properties\<close>

text \<open>C26. The linked queues are first-in first-out queues: a thread that is put into a queue is the one that comes out
  after the threads that were there before it, and the other queues keep their threads.\<close>

theorem thread_queues_fifo:
  assumes "queues s f" "t \<noteq> 0" "\<forall>m. t \<notin> set (f m)"
  shows "queues (thread_enqueue t n s) (f(n := f n @ [t])) \<and>
    fst (thread_dequeue n (((\<lambda>s. snd (thread_dequeue n s)) ^^ length (f n)) (thread_enqueue t n s))) = t"
proof -
  have q: "queues (thread_enqueue t n s) (f(n := f n @ [t]))" by (rule tq.enq [OF assms(1,2)]) (use assms(3) in blast)
  moreover have "fst (thread_dequeue n (((\<lambda>s. snd (thread_dequeue n s)) ^^ length (f n)) (thread_enqueue t n s))) = t"
    by (rule tq.fifo [OF q]) simp
  ultimately show ?thesis ..
qed

text \<open>Three threads at 100, 200 and 300: the first one runs, the others are ready.\<close>

definition study0 :: study where
  "study0 = \<lparr>stack_up = False, local_offset = 8, probe_record = [True, False]\<rparr>"

definition manager0 :: manager where
  "manager0 = \<lparr>study_of = study0,
     threads = (\<lambda>_. \<lparr>t_next = 0, t_size = 0, t_proc = 0, t_param = 0, t_state = []\<rparr>)(200 := \<lparr>t_next = 300, t_size = 64, t_proc = 0, t_param = 0, t_state = [2, 2]\<rparr>),
     mem = (\<lambda>_. 0), readylist = \<lparr>head = 200, tail = 300\<rparr>, current = 100, mem_to_free = 0, freed = [], errors = [],
     sems = (\<lambda>_. \<lparr>count = 0, queue = \<lparr>head = 0, tail = 0\<rparr>\<rparr>)\<rparr>"

definition queues0 :: "queue_name \<Rightarrow> u32 list" where
  "queues0 n = (if n = Ready then [200, 300] else [])"

lemma manager0_ok: "queues manager0 queues0" "current_ok manager0 queues0" "queues0 Ready = [200, 300]" "queues0 (Sem a) = []"
proof -
  show r: "queues0 Ready = [200, 300]" and e: "queues0 (Sem a) = []" for a by (simp_all add: queues0_def)
  have "chain (threads manager0) (head (get_queue n manager0)) (queues0 n) \<and>
      (queues0 n \<noteq> [] \<longrightarrow> tail (get_queue n manager0) = last (queues0 n)) \<and> distinct (queues0 n)" for n
    by (cases n) (simp_all add: r e, simp_all add: manager0_def)
  moreover have "n \<noteq> m \<Longrightarrow> set (queues0 n) \<inter> set (queues0 m) = {}" for n m by (auto simp: queues0_def)
  ultimately show q: "queues manager0 queues0" by (simp add: queues_def)
  have "current manager0 = 100" by (simp add: manager0_def)
  then show "current_ok manager0 queues0" using q by (simp add: current_ok_def queues0_def)
qed

theorem thread_queues_fifo_witness:
  "queues (thread_enqueue 100 Ready manager0) (queues0(Ready := queues0 Ready @ [100])) \<and>
   fst (thread_dequeue Ready (((\<lambda>s. snd (thread_dequeue Ready s)) ^^ length (queues0 Ready)) (thread_enqueue 100 Ready manager0))) = 100"
  by (rule thread_queues_fifo [OF manager0_ok(1)]) (simp_all add: queues0_def)

text \<open>C30. Round robin: after \<open>k\<close> calls of \<open>thread_relinquish\<close> the \<open>k\<close>-th ready thread runs, so that every ready thread
  runs before any thread runs twice; and after a whole round the first thread goes on from where it gave up the
  processor, with all queues as they were.\<close>

theorem thread_round_robin:
  assumes ok: "current_ok s f"
  shows "(\<forall>envs. length envs \<le> length (f Ready) \<longrightarrow> current (relinquishes envs s) = (current s # f Ready) ! length envs) \<and>
    (\<forall>e es. length es = length (f Ready) \<longrightarrow>
      current (relinquishes (e # es) s) = current s \<and> queues (relinquishes (e # es) s) f \<and>
      snd (thread_relinquish (last (e # es)) (relinquishes (butlast (e # es)) s)) = Jump e)"
proof (intro conjI allI impI)
  show "current (relinquishes envs s) = (current s # f Ready) ! length envs" if "length envs \<le> length (f Ready)" for envs
    using relinquishes_current [OF ok] that by simp
next
  fix e and es :: "u32 list list" assume len: "length es = length (f Ready)"
  obtain us where us: "current (relinquishes (e # es) s) # us = rotate (length (e # es)) (current s # f Ready)"
    "current_ok (relinquishes (e # es) s) (f(Ready := us))" using relinquishes_rotate [OF ok] by blast
  have "rotate (length (e # es)) (current s # f Ready) = current s # f Ready"
    using rotate_id [of "length (e # es)" "current s # f Ready"] len by simp
  with us(1) have r: "current (relinquishes (e # es) s) = current s" "us = f Ready" by simp_all
  then show "current (relinquishes (e # es) s) = current s" by simp
  show "queues (relinquishes (e # es) s) f" using us(2) r(2) by (simp only: current_ok_def fun_upd_triv)
  let ?b = "butlast (e # es)" and ?l = "last (e # es)"
  have split: "relinquishes (e # es) s = fst (thread_relinquish ?l (relinquishes ?b s))"
  proof -
    have "relinquishes (b @ [l]) s = fst (thread_relinquish l (relinquishes b s))" for b l by (simp add: relinquishes_def)
    from this [of ?b ?l] show ?thesis unfolding append_butlast_last_id [OF list.distinct(2)] .
  qed
  obtain vs where "current_ok (relinquishes ?b s) (f(Ready := vs))" using relinquishes_rotate [OF ok] by blast
  then have q: "queues (relinquishes ?b s) (f(Ready := vs))" "current (relinquishes ?b s) \<noteq> 0"
    "\<And>n. current (relinquishes ?b s) \<notin> set ((f(Ready := vs)) n)" by (simp_all add: current_ok_def)
  have "t_state (threads (relinquishes (e # es) s) (current s)) = e"
  proof (cases es)
    case Nil
    have "queues s f" "current s \<noteq> 0" "\<And>n. current s \<notin> set (f n)" using ok by (simp_all add: current_ok_def)
    from relinquish_step(3) [OF this] Nil show ?thesis by (simp add: relinquishes_def)
  next
    case (Cons e' es')
    let ?s = "fst (thread_relinquish e s)"
    note k = relinquish_ok [OF ok, of e]
    have "current s \<notin> set (f Ready)" "queues s f" "current s \<noteq> 0" "\<And>n. current s \<notin> set (f n)" using ok by (simp_all add: current_ok_def)
    note c = this
    have "t_state (threads (relinquishes es ?s) (current s)) = t_state (threads ?s (current s))"
    proof (rule relinquishes_state [OF k(1)])
      show "length es \<le> length ((f(Ready := tl (f Ready @ [current s]))) Ready)" using len by simp
      have "take (length es) (f Ready @ [current s]) = f Ready" using len by simp
      then show "current s \<notin> set (take (length es) (current ?s # (f(Ready := tl (f Ready @ [current s]))) Ready))"
        using c(1) by (simp only: fun_upd_same k(2) rotate1.simps) simp
    qed
    then show ?thesis using relinquish_step(3) [OF c(2-)] by (simp add: relinquishes_def)
  qed
  then show "snd (thread_relinquish ?l (relinquishes ?b s)) = Jump e"
    using relinquish_step(4) [OF q, of ?l] r(1) unfolding split [symmetric] by simp
qed

theorem thread_round_robin_witness:
  "current (relinquishes [[7], [8]] manager0) = 300 \<and>
   snd (thread_relinquish [9] (relinquishes [[7], [8]] manager0)) = Jump [7]"
proof -
  have c: "current manager0 = 100" by (simp add: manager0_def)
  note r = thread_round_robin [OF manager0_ok(2), unfolded manager0_ok(3) c]
  show ?thesis
    using r [THEN conjunct1, THEN spec, of "[[7], [8]]"] r [THEN conjunct2, THEN spec, THEN spec, of "[[8], [9]]" "[7]"] by simp
qed

text \<open>A semaphore in use: its count is not negative, and nobody waits while it is positive.\<close>

definition sem_ok :: "u32 \<Rightarrow> manager \<Rightarrow> (queue_name \<Rightarrow> u32 list) \<Rightarrow> bool" where
  "sem_ok a s f \<longleftrightarrow> 0 \<le> count (sems s a) \<and> (0 < count (sems s a) \<longrightarrow> f (Sem a) = [])"

lemma count_simps [simp]:
  "count (sems (save_state env s) b) = count (sems s b)" "count (sems (set_count a v s) b) = (if b = a then v else count (sems s b))"
  "count (sems (s\<lparr>current := t\<rparr>) b) = count (sems s b)"
  "current (set_count a v s) = current s" "current (save_state env s) = current s"
  by (simp_all add: save_state_def set_count_def)

lemma wait_free:
  assumes "0 < count (sems s a)" "count (sems s a) \<le> 2147483647"
  shows "thread_wait a env s = (set_count a (count (sems s a) - 1) s, Back)"
  using assms by (simp add: thread_wait_def)

lemma wait_blocks:
  assumes ok: "current_ok s f" and c: "count (sems s a) = 0" and r: "f Ready = t # ts"
    and s'_def: "s' = fst (thread_wait a env s)"
  shows "current s' = t" "queues s' (f(Ready := ts, Sem a := f (Sem a) @ [current s]))" "count (sems s' a) = 0"
    "snd (thread_wait a env s) = Jump (t_state (threads s' t))" "current_ok s' (f(Ready := ts, Sem a := f (Sem a) @ [current s]))"
proof -
  have q: "queues (save_state env s) f" "current s \<noteq> 0" "\<And>n. current s \<notin> set (f n)" using ok by (simp_all add: current_ok_def)
  let ?s = "thread_enqueue (current s) (Sem a) (save_state env s)" and ?f = "f(Sem a := f (Sem a) @ [current s])"
  have e: "queues ?s ?f" by (rule tq.enq [OF q])
  have f: "?f Ready = t # ts" using r by simp
  note d = tq.deq_first [OF e f] and m = tq.member [OF e f]
  have w: "thread_wait a env s =
      (let (t, s) = thread_dequeue Ready ?s; s = s\<lparr>current := t\<rparr>
       in if t = 0 then thread_death ''possible deadlock'' s else (s, Jump (t_state (threads s t))))"
    using c by (simp add: thread_wait_def)
  have t: "fst (thread_dequeue Ready ?s) = t" "t \<noteq> 0" using d m by simp_all
  then have w': "thread_wait a env s = ((snd (thread_dequeue Ready ?s))\<lparr>current := t\<rparr>, Jump (t_state (threads (snd (thread_dequeue Ready ?s)) t)))"
    unfolding w by (simp add: split_def Let_def)
  have tw: "?f(Ready := ts) = f(Ready := ts, Sem a := f (Sem a) @ [current s])" by (auto simp: fun_eq_iff)
  show cur: "current s' = t" and qs: "queues s' (f(Ready := ts, Sem a := f (Sem a) @ [current s]))" and "count (sems s' a) = 0"
    "snd (thread_wait a env s) = Jump (t_state (threads s' t))"
    using d c unfolding s'_def w' tw by simp_all
  show "current_ok s' (f(Ready := ts, Sem a := f (Sem a) @ [current s]))"
    unfolding current_ok_def cur using qs t(2) tq.deq_fresh(2) [OF e f] unfolding tw by blast
qed

lemma wait_deadlock:
  assumes ok: "current_ok s f" and c: "count (sems s a) = 0" and r: "f Ready = []"
  shows "snd (thread_wait a env s) = Manager_returns"
proof -
  have q: "queues (save_state env s) f" "current s \<noteq> 0" "\<And>n. current s \<notin> set (f n)" using ok by (simp_all add: current_ok_def)
  have "queues (thread_enqueue (current s) (Sem a) (save_state env s)) (f(Sem a := f (Sem a) @ [current s]))" by (rule tq.enq [OF q])
  from tq.deq_empty [OF this, of Ready] r c show ?thesis by (simp add: thread_wait_def Let_def thread_death_def)
qed

lemma signal_count:
  assumes "queues s f" "f (Sem a) = []" "count (sems s a) < 2147483647" "0 \<le> count (sems s a)"
  shows "thread_signal a s = set_count a (count (sems s a) + 1) s"
  using tq.deq_empty [OF assms(1,2)] assms(3,4) by (simp add: thread_signal_def Let_def)

lemma signal_wakes:
  assumes "queues s f" "f (Sem a) = t # ts"
  shows "queues (thread_signal a s) (f(Sem a := ts, Ready := f Ready @ [t]))" "count (sems (thread_signal a s) b) = count (sems s b)"
    "current (thread_signal a s) = current s"
proof -
  have "fst (thread_dequeue (Sem a) s) = t" "t \<noteq> 0" using tq.deq_first [OF assms] tq.member [OF assms] by simp_all
  then have e: "thread_signal a s = thread_enqueue (fst (thread_dequeue (Sem a) s)) Ready (snd (thread_dequeue (Sem a) s))"
    by (simp add: thread_signal_def split_def)
  show "queues (thread_signal a s) (f(Sem a := ts, Ready := f Ready @ [t]))" unfolding e by (rule tq.move [OF assms]) simp
  show "count (sems (thread_signal a s) b) = count (sems s b)" "current (thread_signal a s) = current s" unfolding e by simp_all
qed

text \<open>A semaphore lets as many threads pass as its count says, queues the others in the order they came, and
  \<open>thread_signal\<close> makes the one that waits longest ready; the count is never negative and never positive while
  a thread waits. A thread that would wait while no other is ready ends the package.\<close>

theorem thread_semaphore_fifo:
  assumes ok: "current_ok s f" "sem_ok a s f" and c: "count (sems s a) < 2147483647"
  shows
    "(0 < count (sems s a) \<longrightarrow> thread_wait a env s = (set_count a (count (sems s a) - 1) s, Back) \<and>
       sem_ok a (fst (thread_wait a env s)) f) \<and>
     (\<forall>t ts. count (sems s a) = 0 \<and> f Ready = t # ts \<longrightarrow>
       current_ok (fst (thread_wait a env s)) (f(Ready := ts, Sem a := f (Sem a) @ [current s])) \<and>
       sem_ok a (fst (thread_wait a env s)) (f(Ready := ts, Sem a := f (Sem a) @ [current s])) \<and>
       current (fst (thread_wait a env s)) = t) \<and>
     (count (sems s a) = 0 \<and> f Ready = [] \<longrightarrow> snd (thread_wait a env s) = Manager_returns) \<and>
     (f (Sem a) = [] \<longrightarrow> thread_signal a s = set_count a (count (sems s a) + 1) s \<and> sem_ok a (thread_signal a s) f) \<and>
     (\<forall>t ts. f (Sem a) = t # ts \<longrightarrow> current_ok (thread_signal a s) (f(Sem a := ts, Ready := f Ready @ [t])) \<and>
       sem_ok a (thread_signal a s) (f(Sem a := ts, Ready := f Ready @ [t])))"
proof (intro conjI allI impI; (elim conjE)?)
  have n: "0 \<le> count (sems s a)" using ok(2) by (simp add: sem_ok_def)
  have q: "queues s f" using ok(1) by (simp add: current_ok_def)
  show w: "thread_wait a env s = (set_count a (count (sems s a) - 1) s, Back)" if "0 < count (sems s a)"
    using wait_free [OF that] c by simp
  show "sem_ok a (fst (thread_wait a env s)) f" if "0 < count (sems s a)"
    using ok(2) that w [OF that] by (simp add: sem_ok_def)
  fix t ts
  show "current_ok (fst (thread_wait a env s)) (f(Ready := ts, Sem a := f (Sem a) @ [current s]))"
    "sem_ok a (fst (thread_wait a env s)) (f(Ready := ts, Sem a := f (Sem a) @ [current s]))"
    "current (fst (thread_wait a env s)) = t" if "count (sems s a) = 0" "f Ready = t # ts"
    using wait_blocks [OF ok(1) that refl] by (simp_all add: sem_ok_def)
  show "snd (thread_wait a env s) = Manager_returns" if "count (sems s a) = 0" "f Ready = []"
    by (rule wait_deadlock [OF ok(1) that])
  show g: "thread_signal a s = set_count a (count (sems s a) + 1) s" if "f (Sem a) = []" by (rule signal_count [OF q that c n])
  show "sem_ok a (thread_signal a s) f" if "f (Sem a) = []" using g [OF that] that n by (simp add: sem_ok_def)
  show "current_ok (thread_signal a s) (f(Sem a := ts, Ready := f Ready @ [t]))"
    "sem_ok a (thread_signal a s) (f(Sem a := ts, Ready := f Ready @ [t]))" if st: "f (Sem a) = t # ts"
  proof -
    have z: "count (sems s a) = 0" using ok(2) st by (auto simp: sem_ok_def)
    have "t \<in> set (f (Sem a))" using st by simp
    then have "current s \<noteq> t" using ok(1) unfolding current_ok_def by metis
    moreover have "current s \<notin> set ts" using ok(1) st unfolding current_ok_def by (metis list.set_intros(2))
    ultimately show "current_ok (thread_signal a s) (f(Sem a := ts, Ready := f Ready @ [t]))"
      using signal_wakes [OF q st] ok(1) by (simp add: current_ok_def)
    show "sem_ok a (thread_signal a s) (f(Sem a := ts, Ready := f Ready @ [t]))"
      using signal_wakes(2) [OF q st] z by (simp add: sem_ok_def)
  qed
qed

theorem thread_semaphore_fifo_witness:
  "current (fst (thread_wait 5 [1] manager0)) = 200 \<and>
   current_ok (fst (thread_wait 5 [1] manager0)) (queues0(Ready := [300], Sem 5 := queues0 (Sem 5) @ [current manager0]))"
proof -
  have z: "count (sems manager0 5) = 0" by (simp add: manager0_def)
  then have "sem_ok 5 manager0 queues0" by (simp add: sem_ok_def)
  from thread_semaphore_fifo [OF manager0_ok(2) this, of "[1]"] z manager0_ok(3) show ?thesis by simp
qed

section \<open>Launching\<close>

lemma copy_longs_out:
  "(\<forall>i < n. x \<noteq> dst + of_nat (4 * i)) \<Longrightarrow> copy_longs n dst src m x = m x"
proof (induction n arbitrary: dst src m)
  case (Suc n)
  have "x \<noteq> dst" using Suc.prems by (auto dest: spec [of _ 0])
  moreover have "\<forall>i < n. x \<noteq> dst + 4 + of_nat (4 * i)"
  proof (intro allI impI)
    fix i assume "i < n"
    then have "x \<noteq> dst + of_nat (4 * Suc i)" using Suc.prems by blast
    then show "x \<noteq> dst + 4 + of_nat (4 * i)" by (simp add: add.assoc)
  qed
  ultimately show ?case using Suc.IH by simp
qed simp

text \<open>The address that \<open>thread_launch\<close> copies the activation record to.\<close>

definition record_base :: "study \<Rightarrow> u32 \<Rightarrow> nat \<Rightarrow> u32 \<Rightarrow> u32" where
  "record_base st t n len = (if stack_up st then t + sizeof_thread n else t + sizeof_thread n + len - (of_int (local_offset st) + 4))"

lemma launch_mem:
  "mem (thread_launch t local_base env len proc param s) =
    copy_longs (record_longs (local_offset (study_of s))) (record_base (study_of s) t (length env) len)
      (if stack_up (study_of s) then local_base - of_int (local_offset (study_of s)) else local_base) (mem s)"
proof -
  have "mem (set_queue n q s) = mem s" "mem (set_next u x s) = mem s" for n q u x s by (cases n; simp add: set_next_def)+
  then show ?thesis by (simp add: thread_launch_def thread_enqueue_def record_base_def Let_def)
qed

lemma record_base:
  assumes "0 \<le> local_offset st" "nat (local_offset st) + 4 \<le> unat len"
  shows "record_base st t n len + of_nat (4 * i) =
    of_nat (unat t + 16 + 4 * n + (if stack_up st then 0 else unat len - (nat (local_offset st) + 4)) + 4 * i)"
proof -
  have o: "of_int (local_offset st) = (of_nat (nat (local_offset st)) :: u32)" using assms(1) by (metis of_int_of_nat_eq nat_0_le)
  have "(of_nat (unat len - (nat (local_offset st) + 4)) :: u32) = len - (of_nat (nat (local_offset st)) + 4)"
    using assms(2) by (subst of_nat_diff) simp_all
  then show ?thesis by (simp add: record_base_def sizeof_thread_def o algebra_simps)
qed

lemma launch_queues:
  assumes "queues s f" "t \<noteq> 0" "\<forall>n. t \<notin> set (f n)"
  shows "queues (thread_launch t local_base env len proc param s) (f(Ready := f Ready @ [t]))"
proof -
  have st: "queues (s\<lparr>mem := m, threads := (threads s)(t := th)\<rparr>) f" if "t_next th = t_next (threads s t)" for m th
    by (rule queues_frame [THEN iffD2, OF _ _ assms(1)]) (use that in simp_all)
  show ?thesis unfolding thread_launch_def Let_def
    by (rule tq.enq [OF st assms(2)]) (use assms(3) in simp_all)
qed

text \<open>Launching a thread writes inside the block that \<open>malloc\<close> returned only, behind the structure and before its
  end; the words of the jump buffer that the study found to depend on the frame are moved by the distance of the new
  activation record to the old one, the others are not; the thread is the last of the ready list, and no
  other thread's buffer changes.\<close>

theorem thread_launch_in_block:
  fixes s t local_base env len proc param
  defines "s' \<equiv> thread_launch t local_base env len proc param s"
    and "block \<equiv> unat t + 16 + 4 * length env"
    and "off \<equiv> local_offset (study_of s)"
  assumes q: "queues s f" "t \<noteq> 0" "\<forall>n. t \<notin> set (f n)"
    and off: "0 \<le> off" "nat off + 4 \<le> unat len" "block + unat len < 4294967296"
    and rec: "length (probe_record (study_of s)) = length env"
  shows "(\<forall>x. mem s' x \<noteq> mem s x \<longrightarrow> block \<le> unat x \<and> unat x + 4 \<le> block + unat len) \<and>
    queues s' (f(Ready := f Ready @ [t])) \<and>
    (\<forall>i < length env. t_state (threads s' t) ! i =
       (if probe_record (study_of s) ! i
        then env ! i + ((if stack_up (study_of s) then of_nat block + of_int off else of_nat block + len - (of_int off + 4)) - local_base)
        else env ! i)) \<and>
    (\<forall>u. u \<noteq> t \<longrightarrow> t_state (threads s' u) = t_state (threads s u))"
proof (intro conjI allI impI)
  fix x :: u32 assume x: "mem s' x \<noteq> mem s x"
  let ?d = "if stack_up (study_of s) then 0 else unat len - (nat off + 4)"
  have "\<not> (\<forall>i < record_longs off. x \<noteq> record_base (study_of s) t (length env) len + of_nat (4 * i))"
    using x copy_longs_out unfolding s'_def off_def launch_mem by blast
  then obtain i where i: "i < record_longs off" "x = record_base (study_of s) t (length env) len + of_nat (4 * i)" by blast
  have x: "x = of_nat (block + ?d + 4 * i)"
    unfolding i(2) using record_base [of "study_of s" len t "length env" i] off(1,2) by (simp only: off_def block_def)
  have "4 * i \<le> nat off" using i(1) off(1) by (simp add: record_longs_def)
  then have b: "block + ?d + 4 * i + 4 \<le> block + unat len" using off(2) by (simp only: split: if_split) linarith
  then have "unat x = block + ?d + 4 * i" using off(3) unfolding x by (subst unat_of_nat) (simp del: of_nat_add)
  then show "block \<le> unat x" "unat x + 4 \<le> block + unat len" using b by simp_all
next
  show "queues s' (f(Ready := f Ready @ [t]))" unfolding s'_def by (rule launch_queues [OF q])
next
  fix i assume i: "i < length env"
  have b: "of_nat block = t + sizeof_thread (length env)" by (simp add: block_def sizeof_thread_def)
  show "t_state (threads s' t) ! i =
       (if probe_record (study_of s) ! i
        then env ! i + ((if stack_up (study_of s) then of_nat block + of_int off else of_nat block + len - (of_int off + 4)) - local_base)
        else env ! i)"
    using i rec by (simp add: s'_def thread_launch_def Let_def relocate_def off_def b)
next
  fix u assume "u \<noteq> t"
  then show "t_state (threads s' u) = t_state (threads s u)" by (simp add: s'_def thread_launch_def Let_def)
qed

theorem thread_launch_in_block_witness:
  "queues (thread_launch 400 5000 [5008, 9] 64 1 2 manager0) (queues0(Ready := queues0 Ready @ [400])) \<and>
   t_state (threads (thread_launch 400 5000 [5008, 9] 64 1 2 manager0) 400) ! 0 = 5008 + (424 + 64 - 12 - 5000)"
proof -
  have a: "400 \<noteq> (0 :: u32)" "\<forall>n. 400 \<notin> set (queues0 n)" by (simp_all add: queues0_def)
  have st: "study_of manager0 = study0" by (simp add: manager0_def)
  have b: "0 \<le> local_offset (study_of manager0)" "nat (local_offset (study_of manager0)) + 4 \<le> unat (64 :: u32)"
    "unat (400 :: u32) + 16 + 4 * length [5008, 9 :: u32] + unat (64 :: u32) < 4294967296"
    "length (probe_record (study_of manager0)) = length [5008, 9 :: u32]" by (simp_all add: st study0_def)
  from thread_launch_in_block [OF manager0_ok(1) a b] show ?thesis by (simp add: st study0_def)
qed

end
