(* ===== verification/Namei.thy ===== *)
theory Namei imports Kprelude begin

text \<open>
  \<open>fs/namei.c\<close> of Lab 8: path names, directories, and the system calls on them. In-core inodes and buffers are
  numbered; a directory block is a buffer of 64 entries. The inode table, the buffer cache, the bitmaps and the mount
  table are other files of the kernel, which are not in the repository: their operations are the fields of
  \<open>fs_ops\<close>, an argument of every definition, and may change the whole state.

  A pointer into a path name is the rest of the string, without its NUL: \<open>get_fs_byte\<close> of the empty rest is 0.

  \<open>i_held\<close> and \<open>b_held\<close> are ghosts: they count the inode and buffer references that the running call got and has
  not given back.
\<close>

unbundle bit_operations_syntax

section \<open>The state\<close>

record m_inode =
  i_mode :: u16
  i_uid :: u16
  i_size :: u32
  i_mtime :: u32
  i_gid :: u8
  i_nlinks :: u8
  i_zone :: "u16 list"
  i_atime :: u32
  i_ctime :: u32
  i_dev :: u16
  i_num :: u16
  i_count :: u16
  i_dirt :: bool

record dir_entry =
  de_inode :: u16
  de_name :: "u8 list"

record buffer_head =
  b_data :: "dir_entry list"
  b_dirt :: bool

record fs =
  inodes :: "nat \<Rightarrow> m_inode"
  buffers :: "nat \<Rightarrow> buffer_head"
  root :: "nat option"
  pwd :: "nat option"
  euid :: u16
  egid :: u16
  umask :: u16
  current_time :: u32
  printed :: "string list"
  i_held :: int
  b_held :: int

record fs_ops =
  op_iget :: "u16 \<Rightarrow> u16 \<Rightarrow> fs \<Rightarrow> nat option \<times> fs"
  op_iput :: "nat \<Rightarrow> fs \<Rightarrow> fs"
  op_new_inode :: "u16 \<Rightarrow> fs \<Rightarrow> nat option \<times> fs"
  op_bread :: "u16 \<Rightarrow> u16 \<Rightarrow> fs \<Rightarrow> nat option \<times> fs"
  op_brelse :: "nat \<Rightarrow> fs \<Rightarrow> fs"
  op_bmap :: "nat \<Rightarrow> nat \<Rightarrow> fs \<Rightarrow> u16 \<times> fs"
  op_create_block :: "nat \<Rightarrow> nat \<Rightarrow> fs \<Rightarrow> u16 \<times> fs"
  op_new_block :: "u16 \<Rightarrow> fs \<Rightarrow> u16 \<times> fs"
  op_free_block :: "u16 \<Rightarrow> u16 \<Rightarrow> fs \<Rightarrow> fs"
  op_truncate :: "nat \<Rightarrow> fs \<Rightarrow> fs"
  op_s_imount :: "u16 \<Rightarrow> fs \<Rightarrow> nat option"

text \<open>The calls that get or give back a reference, with the ghosts; the other calls leave the ghosts alone.\<close>

definition held :: "int \<Rightarrow> int \<Rightarrow> fs \<Rightarrow> fs \<Rightarrow> fs" where
  "held i b s s' = s'\<lparr>i_held := i_held s + i, b_held := b_held s + b\<rparr>"

definition iget :: "fs_ops \<Rightarrow> u16 \<Rightarrow> u16 \<Rightarrow> fs \<Rightarrow> nat option \<times> fs" where
  "iget E dev nr s = (case op_iget E dev nr s of (None, s') \<Rightarrow> (None, held 0 0 s s') | (Some i, s') \<Rightarrow> (Some i, held 1 0 s s'))"

definition iput :: "fs_ops \<Rightarrow> nat \<Rightarrow> fs \<Rightarrow> fs" where
  "iput E i s = held (- 1) 0 s (op_iput E i s)"

definition new_inode :: "fs_ops \<Rightarrow> u16 \<Rightarrow> fs \<Rightarrow> nat option \<times> fs" where
  "new_inode E dev s = (case op_new_inode E dev s of (None, s') \<Rightarrow> (None, held 0 0 s s') | (Some i, s') \<Rightarrow> (Some i, held 1 0 s s'))"

definition bread :: "fs_ops \<Rightarrow> u16 \<Rightarrow> u16 \<Rightarrow> fs \<Rightarrow> nat option \<times> fs" where
  "bread E dev b s = (case op_bread E dev b s of (None, s') \<Rightarrow> (None, held 0 0 s s') | (Some i, s') \<Rightarrow> (Some i, held 0 1 s s'))"

definition brelse :: "fs_ops \<Rightarrow> nat \<Rightarrow> fs \<Rightarrow> fs" where
  "brelse E b s = held 0 (- 1) s (op_brelse E b s)"

definition bmap :: "fs_ops \<Rightarrow> nat \<Rightarrow> nat \<Rightarrow> fs \<Rightarrow> u16 \<times> fs" where
  "bmap E i k s = (let (b, s') = op_bmap E i k s in (b, held 0 0 s s'))"

definition create_block :: "fs_ops \<Rightarrow> nat \<Rightarrow> nat \<Rightarrow> fs \<Rightarrow> u16 \<times> fs" where
  "create_block E i k s = (let (b, s') = op_create_block E i k s in (b, held 0 0 s s'))"

definition new_block :: "fs_ops \<Rightarrow> u16 \<Rightarrow> fs \<Rightarrow> u16 \<times> fs" where
  "new_block E dev s = (let (b, s') = op_new_block E dev s in (b, held 0 0 s s'))"

definition free_block :: "fs_ops \<Rightarrow> u16 \<Rightarrow> u16 \<Rightarrow> fs \<Rightarrow> fs" where
  "free_block E dev b s = held 0 0 s (op_free_block E dev b s)"

definition truncate :: "fs_ops \<Rightarrow> nat \<Rightarrow> fs \<Rightarrow> fs" where
  "truncate E i s = held 0 0 s (op_truncate E i s)"

text \<open>\<open>brelse\<close> of a null pointer does nothing.\<close>

definition brelse_opt :: "fs_ops \<Rightarrow> nat option \<Rightarrow> fs \<Rightarrow> fs" where
  "brelse_opt E bh s = (case bh of None \<Rightarrow> s | Some b \<Rightarrow> brelse E b s)"

definition upd_inode :: "nat \<Rightarrow> (m_inode \<Rightarrow> m_inode) \<Rightarrow> fs \<Rightarrow> fs" where
  "upd_inode i f s = s\<lparr>inodes := (inodes s)(i := f (inodes s i))\<rparr>"

definition upd_entry :: "nat \<Rightarrow> nat \<Rightarrow> (dir_entry \<Rightarrow> dir_entry) \<Rightarrow> fs \<Rightarrow> fs" where
  "upd_entry b k f s = s\<lparr>buffers := (buffers s)(b := (buffers s b)\<lparr>b_data := (b_data (buffers s b))[k := f (b_data (buffers s b) ! k)]\<rparr>)\<rparr>"

definition dirty_buffer :: "nat \<Rightarrow> fs \<Rightarrow> fs" where
  "dirty_buffer b s = s\<lparr>buffers := (buffers s)(b := (buffers s b)\<lparr>b_dirt := True\<rparr>)\<rparr>"

abbreviation entry :: "fs \<Rightarrow> nat \<Rightarrow> nat \<Rightarrow> dir_entry" where "entry s b k \<equiv> b_data (buffers s b) ! k"

definition print :: "string \<Rightarrow> fs \<Rightarrow> fs" where "print msg s = s\<lparr>printed := printed s @ [msg]\<rparr>"

definition DIR_ENTRIES_PER_BLOCK :: nat where "DIR_ENTRIES_PER_BLOCK = 64"
definition NAME_LEN :: nat where "NAME_LEN = 14"
definition ROOT_INO :: u16 where "ROOT_INO = 1"
definition MAY_EXEC :: u32 where "MAY_EXEC = 1"
definition MAY_WRITE :: u32 where "MAY_WRITE = 2"

section \<open>Modes and permissions\<close>

definition S_IFMT :: u16 where "S_IFMT = 0xf000"
definition S_ISDIR :: "u16 \<Rightarrow> bool" where "S_ISDIR m \<longleftrightarrow> m AND S_IFMT = 0x4000"
definition S_ISCHR :: "u16 \<Rightarrow> bool" where "S_ISCHR m \<longleftrightarrow> m AND S_IFMT = 0x2000"
definition S_ISBLK :: "u16 \<Rightarrow> bool" where "S_ISBLK m \<longleftrightarrow> m AND S_IFMT = 0x6000"
definition S_ISPROC :: "u16 \<Rightarrow> bool" where "S_ISPROC m \<longleftrightarrow> m AND S_IFMT = 0x3000"
definition S_ISVTX :: u16 where "S_ISVTX = 0x200"
definition I_REGULAR :: u16 where "I_REGULAR = 0x8000"
definition I_DIRECTORY :: u16 where "I_DIRECTORY = 0x4000"

definition O_ACCMODE :: u32 where "O_ACCMODE = 3"
definition O_WRONLY :: u32 where "O_WRONLY = 1"
definition O_CREAT :: u32 where "O_CREAT = 0x40"
definition O_EXCL :: u32 where "O_EXCL = 0x80"
definition O_TRUNC :: u32 where "O_TRUNC = 0x200"

text \<open>The bytes of \<open>"\004\002\006\377"\<close>, as signed characters.\<close>

definition ACC_MODE :: "u32 \<Rightarrow> u32" where
  "ACC_MODE x = [4, 2, 6, 0xffffffff] ! unat (x AND O_ACCMODE)"

definition suser :: "fs \<Rightarrow> bool" where "suser s \<longleftrightarrow> euid s = 0"

definition permission :: "nat \<Rightarrow> u32 \<Rightarrow> fs \<Rightarrow> bool" where
  "permission i msk s =
     (let inode = inodes s i; mode = (ucast (i_mode inode) :: u32) in
      if i_dev inode \<noteq> 0 \<and> i_nlinks inode = 0 then False
      else
        (let mode = (if euid s = i_uid inode then drop_bit 6 mode
                     else if egid s = ucast (i_gid inode) then drop_bit 3 mode else mode)
         in mode AND msk AND 7 = msk \<or> suser s))"

section \<open>Directories\<close>

fun get_fs_byte :: "u8 list \<Rightarrow> u8" where
  "get_fs_byte [] = 0"
| "get_fs_byte (c # cs) = c"

text \<open>A name of at least one character; \<open>repe cmpsb\<close> compares \<open>len\<close> bytes.\<close>

definition match :: "nat \<Rightarrow> u8 list \<Rightarrow> dir_entry \<Rightarrow> bool" where
  "match len name de =
     (if de_inode de = 0 \<or> len > NAME_LEN then False
      else if len < NAME_LEN \<and> de_name de ! len \<noteq> 0 then False
      else list_all (\<lambda>i. get_fs_byte (drop i name) = de_name de ! i) [0..<len])"

text \<open>The entry \<open>i\<close> that is next: entry \<open>k\<close> of \<open>bh\<close>, or, behind the end of the block, the first one of the next block.
  \<open>None\<close> when that block is missing or cannot be read.\<close>

definition find_load :: "fs_ops \<Rightarrow> nat \<Rightarrow> nat \<Rightarrow> nat option \<Rightarrow> nat \<Rightarrow> fs \<Rightarrow> nat option \<times> nat \<times> fs" where
  "find_load E dir i bh k s =
     (if k < DIR_ENTRIES_PER_BLOCK then (bh, k, s)
      else
        (let s = brelse_opt E bh s; (block, s) = bmap E dir (i div DIR_ENTRIES_PER_BLOCK) s in
         if block = 0 then (None, k, s)
         else (case bread E (i_dev (inodes s dir)) block s of (None, s) \<Rightarrow> (None, k, s) | (Some b, s) \<Rightarrow> (Some b, 0, s))))"

function find_loop :: "fs_ops \<Rightarrow> nat \<Rightarrow> u8 list \<Rightarrow> nat \<Rightarrow> nat \<Rightarrow> nat \<Rightarrow> nat option \<Rightarrow> nat \<Rightarrow> fs \<Rightarrow> (nat \<times> nat) option \<times> fs" where
  "find_loop E dir name len entries i bh k s =
     (if i < entries then
        (case find_load E dir i bh k s of
           (None, k, s) \<Rightarrow> find_loop E dir name len entries (i + DIR_ENTRIES_PER_BLOCK) None k s
         | (Some b, k, s) \<Rightarrow>
             if match len name (entry s b k) then (Some (b, k), s)
             else find_loop E dir name len entries (i + 1) (Some b) (k + 1) s)
      else (None, brelse_opt E bh s))"
  by pat_completeness auto
termination
  by (relation "measure (\<lambda>(E, dir, name, len, entries, i, bh, k, s). entries - i)") (auto simp: DIR_ENTRIES_PER_BLOCK_def)

declare find_loop.simps [simp del]

text \<open>The directory may change to the one a file system is mounted on; the number of entries does not.\<close>

definition dot_dot :: "fs_ops \<Rightarrow> nat \<Rightarrow> fs \<Rightarrow> nat \<times> nat \<times> fs" where
  "dot_dot E dir s =
     (if Some dir = root s then (dir, 1, s)
      else if i_num (inodes s dir) = ROOT_INO then
        (case op_s_imount E (i_dev (inodes s dir)) s of
           None \<Rightarrow> (dir, 2, s)
         | Some m \<Rightarrow> (m, 2, held 1 0 (iput E dir s) (upd_inode m (\<lambda>x. x\<lparr>i_count := i_count x + 1\<rparr>) (iput E dir s))))
      else (dir, 2, s))"

definition find_entry :: "fs_ops \<Rightarrow> nat \<Rightarrow> u8 list \<Rightarrow> nat \<Rightarrow> fs \<Rightarrow> nat \<times> (nat \<times> nat) option \<times> fs" where
  "find_entry E dir name namelen s =
     (let namelen = min namelen NAME_LEN; entries = unat (i_size (inodes s dir)) div 16 in
      if namelen = 0 then (dir, None, s)
      else
        (let (dir, namelen, s) =
               (if namelen = 2 \<and> get_fs_byte name = 0x2e \<and> get_fs_byte (tl name) = 0x2e then dot_dot E dir s else (dir, namelen, s));
             block = i_zone (inodes s dir) ! 0
         in if block = 0 then (dir, None, s)
            else (case bread E (i_dev (inodes s dir)) block s of
                    (None, s) \<Rightarrow> (dir, None, s)
                  | (Some b, s) \<Rightarrow> (let (r, s) = find_loop E dir name namelen entries 0 (Some b) 0 s in (dir, r, s)))))"

text \<open>The bytes that \<open>add_entry\<close> writes.\<close>

definition entry_name :: "nat \<Rightarrow> u8 list \<Rightarrow> u8 list" where
  "entry_name len name = map (\<lambda>i. if i < len then get_fs_byte (drop i name) else 0) [0..<NAME_LEN]"

definition grow_dir :: "nat \<Rightarrow> nat \<Rightarrow> nat \<Rightarrow> nat \<Rightarrow> fs \<Rightarrow> fs" where
  "grow_dir dir i b k s =
     (if of_nat (i * 16) \<ge> i_size (inodes s dir) then
        upd_inode dir (\<lambda>x. x\<lparr>i_size := of_nat ((i + 1) * 16), i_dirt := True, i_ctime := current_time s\<rparr>)
          (upd_entry b k (\<lambda>de. de\<lparr>de_inode := 0\<rparr>) s)
      else s)"

partial_function (option) add_loop ::
  "fs_ops \<Rightarrow> nat \<Rightarrow> u8 list \<Rightarrow> nat \<Rightarrow> nat \<Rightarrow> nat option \<Rightarrow> nat \<Rightarrow> fs \<Rightarrow> ((nat \<times> nat) option \<times> fs) option" where
  "add_loop E dir name len i bh k s =
     (let (r, s) =
        (if k < DIR_ENTRIES_PER_BLOCK then (Some (bh, k), s)
         else
           (let s = brelse_opt E bh s; (block, s) = create_block E dir (i div DIR_ENTRIES_PER_BLOCK) s in
            if block = 0 then (None, s)
            else (case bread E (i_dev (inodes s dir)) block s of (None, s) \<Rightarrow> (Some (None, k), s) | (Some b, s) \<Rightarrow> (Some (Some b, 0), s))))
      in case r of
        None \<Rightarrow> Some (None, s)
      | Some (None, k) \<Rightarrow> add_loop E dir name len (i + DIR_ENTRIES_PER_BLOCK) None k s
      | Some (Some b, k) \<Rightarrow>
          (let s = grow_dir dir i b k s in
           if de_inode (entry s b k) = 0 then
             Some (Some (b, k), dirty_buffer b (upd_entry b k (\<lambda>de. de\<lparr>de_name := entry_name len name\<rparr>)
               (upd_inode dir (\<lambda>x. x\<lparr>i_mtime := current_time s\<rparr>) s)))
           else add_loop E dir name len (i + 1) (Some b) (k + 1) s))"

definition add_entry :: "fs_ops \<Rightarrow> nat \<Rightarrow> u8 list \<Rightarrow> nat \<Rightarrow> fs \<Rightarrow> stop + (nat \<times> nat) option \<times> fs" where
  "add_entry E dir name namelen s =
     (let namelen = min namelen NAME_LEN; block = i_zone (inodes s dir) ! 0 in
      if namelen = 0 \<or> block = 0 then Inr (None, s)
      else (case bread E (i_dev (inodes s dir)) block s of
              (None, s) \<Rightarrow> Inr (None, s)
            | (Some b, s) \<Rightarrow> (case add_loop E dir name namelen 0 (Some b) 0 s of None \<Rightarrow> Inl Diverge | Some r \<Rightarrow> Inr r)))"

section \<open>Path names\<close>

text \<open>The component before the next slash, and what stands behind the slash: \<open>None\<close> at the end of the string.\<close>

fun split_path :: "u8 list \<Rightarrow> u8 list \<times> u8 list option" where
  "split_path [] = ([], None)"
| "split_path (c # cs) = (if c = 0x2f then ([], Some cs) else (let (n, r) = split_path cs in (c # n, r)))"

lemma split_path_less: "split_path p = (n, Some r) \<Longrightarrow> length r < length p"
  by (induction p arbitrary: n) (auto split: if_splits prod.splits)

function get_dir_loop :: "fs_ops \<Rightarrow> nat \<Rightarrow> u8 list \<Rightarrow> fs \<Rightarrow> nat option \<times> fs" where
  "get_dir_loop E inode thisname s =
     (if \<not> S_ISDIR (i_mode (inodes s inode)) \<or> \<not> permission inode MAY_EXEC s then (None, iput E inode s)
      else
        (case split_path thisname of
           (n, None) \<Rightarrow> (Some inode, s)
         | (n, Some pathname) \<Rightarrow>
             (case find_entry E inode thisname (length n) s of
                (inode, None, s) \<Rightarrow> (None, iput E inode s)
              | (inode, Some (b, k), s) \<Rightarrow>
                  (let inr = de_inode (entry s b k); idev = i_dev (inodes s inode); s = iput E inode (brelse E b s) in
                   case iget E idev inr s of (None, s) \<Rightarrow> (None, s) | (Some inode, s) \<Rightarrow> get_dir_loop E inode pathname s))))"
  by pat_completeness auto
termination
  by (relation "measure (\<lambda>(E, i, p, s). length p)") (auto dest!: split_path_less [OF sym])

declare get_dir_loop.simps [simp del]

text \<open>A reference to an inode the kernel holds already.\<close>

definition idup :: "nat \<Rightarrow> fs \<Rightarrow> fs" where
  "idup i s = held 1 0 s (upd_inode i (\<lambda>x. x\<lparr>i_count := i_count x + 1\<rparr>) s)"

definition get_dir :: "fs_ops \<Rightarrow> u8 list \<Rightarrow> fs \<Rightarrow> stop + nat option \<times> fs" where
  "get_dir E pathname s =
     (case root s of
        None \<Rightarrow> Inl (Panic ''No root inode'')
      | Some r \<Rightarrow>
          if i_count (inodes s r) = 0 then Inl (Panic ''No root inode'')
          else
            (case pwd s of
               None \<Rightarrow> Inl (Panic ''No cwd inode'')
             | Some w \<Rightarrow>
                 if i_count (inodes s w) = 0 then Inl (Panic ''No cwd inode'')
                 else if get_fs_byte pathname = 0x2f then Inr (get_dir_loop E r (tl pathname) (idup r s))
                 else if get_fs_byte pathname \<noteq> 0 then Inr (get_dir_loop E w pathname (idup w s))
                 else Inr (None, s)))"

text \<open>What stands behind the last slash.\<close>

fun basename :: "u8 list \<Rightarrow> u8 list \<Rightarrow> u8 list" where
  "basename b [] = b"
| "basename b (c # cs) = basename (if c = 0x2f then cs else b) cs"

text \<open>The directory, the length of the name, and the name.\<close>

definition dir_namei :: "fs_ops \<Rightarrow> u8 list \<Rightarrow> fs \<Rightarrow> stop + (nat \<times> nat \<times> u8 list) option \<times> fs" where
  "dir_namei E pathname s =
     sbind (get_dir E pathname s) (\<lambda>(dir, s). case dir of
        None \<Rightarrow> Inr (None, s)
      | Some d \<Rightarrow> (let b = basename pathname pathname in Inr (Some (d, length b, b), s)))"

definition namei :: "fs_ops \<Rightarrow> u8 list \<Rightarrow> fs \<Rightarrow> stop + nat option \<times> fs" where
  "namei E pathname s =
     sbind (dir_namei E pathname s) (\<lambda>(r, s). case r of
        None \<Rightarrow> Inr (None, s)
      | Some (dir, namelen, name) \<Rightarrow>
          if namelen = 0 then Inr (Some dir, s)
          else
            (case find_entry E dir name namelen s of
               (dir, None, s) \<Rightarrow> Inr (None, iput E dir s)
             | (dir, Some (b, k), s) \<Rightarrow>
                 (let inr = de_inode (entry s b k); dev = i_dev (inodes s dir); s = iput E dir (brelse E b s) in
                  case iget E dev inr s of
                    (None, s) \<Rightarrow> Inr (None, s)
                  | (Some i, s) \<Rightarrow> Inr (Some i, upd_inode i (\<lambda>x. x\<lparr>i_atime := current_time s, i_dirt := True\<rparr>) s))))"

section \<open>System calls\<close>

type_synonym result = "stop + (errno + int) \<times> fs"

text \<open>What \<open>open_namei\<close>, \<open>sys_mknod\<close>, \<open>sys_mkdir\<close> and \<open>sys_link\<close> do with a new name: the entry gets the number of the
  inode.\<close>

definition set_entry :: "fs_ops \<Rightarrow> nat \<Rightarrow> nat \<Rightarrow> u16 \<Rightarrow> fs \<Rightarrow> fs" where
  "set_entry E b k nr s = dirty_buffer b (upd_entry b k (\<lambda>de. de\<lparr>de_inode := nr\<rparr>) s)"

definition open_create :: "fs_ops \<Rightarrow> u32 \<Rightarrow> u16 \<Rightarrow> nat \<Rightarrow> u8 list \<Rightarrow> nat \<Rightarrow> fs \<Rightarrow> stop + (errno + nat) \<times> fs" where
  "open_create E flag mode dir name namelen s =
     (if flag AND O_CREAT = 0 then Inr (Inl ENOENT, iput E dir s)
      else if \<not> permission dir MAY_WRITE s then Inr (Inl EACCES, iput E dir s)
      else
        (case new_inode E (i_dev (inodes s dir)) s of
           (None, s) \<Rightarrow> Inr (Inl ENOSPC, iput E dir s)
         | (Some i, s) \<Rightarrow>
             sbind (add_entry E dir name namelen (upd_inode i (\<lambda>x. x\<lparr>i_uid := euid s, i_mode := mode, i_dirt := True\<rparr>) s))
               (\<lambda>(r, s). case r of
                  None \<Rightarrow> Inr (Inl ENOSPC, iput E dir (iput E i (upd_inode i (\<lambda>x. x\<lparr>i_nlinks := i_nlinks x - 1\<rparr>) s)))
                | Some (b, k) \<Rightarrow> Inr (Inr i, iput E dir (brelse E b (set_entry E b k (i_num (inodes s i)) s))))))"

definition open_existing :: "fs_ops \<Rightarrow> u32 \<Rightarrow> nat \<Rightarrow> nat \<Rightarrow> nat \<Rightarrow> fs \<Rightarrow> (errno + nat) \<times> fs" where
  "open_existing E flag dir b k s =
     (let inr = de_inode (entry s b k); dev = i_dev (inodes s dir); s = iput E dir (brelse E b s) in
      if flag AND O_EXCL \<noteq> 0 then (Inl EEXIST, s)
      else
        (case iget E dev inr s of
           (None, s) \<Rightarrow> (Inl EACCES, s)
         | (Some i, s) \<Rightarrow>
             if S_ISDIR (i_mode (inodes s i)) \<and> flag AND O_ACCMODE \<noteq> 0 \<or> \<not> permission i (ACC_MODE flag) s
             then (Inl EPERM, iput E i s)
             else
               (let s = upd_inode i (\<lambda>x. x\<lparr>i_atime := current_time s\<rparr>) s
                in (Inr i, if flag AND O_TRUNC \<noteq> 0 then truncate E i s else s))))"

definition open_namei :: "fs_ops \<Rightarrow> u8 list \<Rightarrow> u32 \<Rightarrow> u16 \<Rightarrow> fs \<Rightarrow> stop + (errno + nat) \<times> fs" where
  "open_namei E pathname flag mode s =
     (let flag = (if flag AND O_TRUNC \<noteq> 0 \<and> flag AND O_ACCMODE = 0 then flag OR O_WRONLY else flag);
          mode = mode AND (0x1ff AND NOT (umask s)) OR I_REGULAR
      in sbind (dir_namei E pathname s) (\<lambda>(r, s). case r of
           None \<Rightarrow> Inr (Inl ENOENT, s)
         | Some (dir, namelen, name) \<Rightarrow>
             if namelen = 0 then
               (if flag AND (O_ACCMODE OR O_CREAT OR O_TRUNC) = 0 then Inr (Inr dir, s) else Inr (Inl EISDIR, iput E dir s))
             else
               (case find_entry E dir name namelen s of
                  (dir, None, s) \<Rightarrow> open_create E flag mode dir name namelen s
                | (dir, Some (b, k), s) \<Rightarrow> Inr (open_existing E flag dir b k s))))"

text \<open>The beginning that \<open>sys_mknod\<close>, \<open>sys_mkdir\<close>, \<open>sys_rmdir\<close> and \<open>sys_unlink\<close> share: the directory they change, and
  the entry in it. \<open>found\<close> and \<open>missing\<close> are what follows \<open>find_entry\<close>.\<close>

definition with_entry :: "fs_ops \<Rightarrow> u8 list \<Rightarrow> (nat \<Rightarrow> nat \<Rightarrow> nat \<Rightarrow> fs \<Rightarrow> result) \<Rightarrow> (nat \<Rightarrow> u8 list \<Rightarrow> nat \<Rightarrow> fs \<Rightarrow> result) \<Rightarrow> fs \<Rightarrow> result" where
  "with_entry E pathname found missing s =
     sbind (dir_namei E pathname s) (\<lambda>(r, s). case r of
       None \<Rightarrow> Inr (Inl ENOENT, s)
     | Some (dir, namelen, name) \<Rightarrow>
         if namelen = 0 then Inr (Inl ENOENT, iput E dir s)
         else if \<not> permission dir MAY_WRITE s then Inr (Inl EPERM, iput E dir s)
         else
           (case find_entry E dir name namelen s of
              (dir, None, s) \<Rightarrow> missing dir name namelen s
            | (dir, Some (b, k), s) \<Rightarrow> found dir b k s))"

definition entry_exists :: "fs_ops \<Rightarrow> nat \<Rightarrow> nat \<Rightarrow> nat \<Rightarrow> fs \<Rightarrow> result" where
  "entry_exists E dir b k s = Inr (Inl EEXIST, iput E dir (brelse E b s))"

definition no_entry :: "fs_ops \<Rightarrow> nat \<Rightarrow> u8 list \<Rightarrow> nat \<Rightarrow> fs \<Rightarrow> result" where
  "no_entry E dir name namelen s = Inr (Inl ENOENT, iput E dir s)"

definition mknod_new :: "fs_ops \<Rightarrow> u16 \<Rightarrow> u16 \<Rightarrow> nat \<Rightarrow> u8 list \<Rightarrow> nat \<Rightarrow> fs \<Rightarrow> result" where
  "mknod_new E mode dev dir name namelen s =
     (case new_inode E (i_dev (inodes s dir)) s of
        (None, s) \<Rightarrow> Inr (Inl ENOSPC, iput E dir s)
      | (Some i, s) \<Rightarrow>
          (let s = upd_inode i (\<lambda>x. x\<lparr>i_mode := mode\<rparr>) s;
               s = (if S_ISBLK mode \<or> S_ISCHR mode \<or> S_ISPROC mode then upd_inode i (\<lambda>x. x\<lparr>i_zone := (i_zone x)[0 := dev]\<rparr>) s else s);
               s = upd_inode i (\<lambda>x. x\<lparr>i_mtime := current_time s, i_atime := current_time s, i_dirt := True\<rparr>) s
           in sbind (add_entry E dir name namelen s) (\<lambda>(r, s). case r of
                None \<Rightarrow> Inr (Inl ENOSPC, iput E i (upd_inode i (\<lambda>x. x\<lparr>i_nlinks := 0\<rparr>) (iput E dir s)))
              | Some (b, k) \<Rightarrow> Inr (Inr 0, brelse E b (iput E i (iput E dir (set_entry E b k (i_num (inodes s i)) s)))))))"

definition sys_mknod :: "fs_ops \<Rightarrow> u8 list \<Rightarrow> u16 \<Rightarrow> u16 \<Rightarrow> fs \<Rightarrow> result" where
  "sys_mknod E filename mode dev s =
     (if \<not> suser s then Inr (Inl EPERM, s)
      else with_entry E filename (entry_exists E) (mknod_new E mode dev) s)"

text \<open>\<open>strcpy\<close> of \<open>"."\<close> and \<open>".."\<close>: the bytes behind the NUL stay.\<close>

definition copy_name :: "u8 list \<Rightarrow> dir_entry \<Rightarrow> dir_entry" where
  "copy_name n de = de\<lparr>de_name := n @ 0 # drop (length n + 1) (de_name de)\<rparr>"

definition mkdir_block :: "nat \<Rightarrow> u16 \<Rightarrow> u16 \<Rightarrow> fs \<Rightarrow> fs" where
  "mkdir_block b inr dir_nr s =
     upd_entry b 1 (\<lambda>de. copy_name [0x2e, 0x2e] (de\<lparr>de_inode := dir_nr\<rparr>)) (upd_entry b 0 (\<lambda>de. copy_name [0x2e] (de\<lparr>de_inode := inr\<rparr>)) s)"

definition mkdir_add :: "fs_ops \<Rightarrow> u16 \<Rightarrow> nat \<Rightarrow> u8 list \<Rightarrow> nat \<Rightarrow> nat \<Rightarrow> nat \<Rightarrow> fs \<Rightarrow> result" where
  "mkdir_add E mode dir name namelen i db s =
     (let s = mkdir_block db (i_num (inodes s i)) (i_num (inodes s dir)) s;
          s = brelse E db (dirty_buffer db (upd_inode i (\<lambda>x. x\<lparr>i_nlinks := 2\<rparr>) s));
          s = upd_inode i (\<lambda>x. x\<lparr>i_mode := I_DIRECTORY OR (mode AND 0x1ff AND NOT (umask s)), i_dirt := True\<rparr>) s
      in sbind (add_entry E dir name namelen s) (\<lambda>(r, s). case r of
           None \<Rightarrow>
             (let s = iput E dir s; s = free_block E (i_dev (inodes s i)) (i_zone (inodes s i) ! 0) s
              in Inr (Inl ENOSPC, iput E i (upd_inode i (\<lambda>x. x\<lparr>i_nlinks := 0\<rparr>) s)))
         | Some (b, k) \<Rightarrow>
             (let s = set_entry E b k (i_num (inodes s i)) s;
                  s = upd_inode dir (\<lambda>x. x\<lparr>i_nlinks := i_nlinks x + 1, i_dirt := True\<rparr>) s
              in Inr (Inr 0, brelse E b (iput E i (iput E dir s))))))"

definition mkdir_new :: "fs_ops \<Rightarrow> u16 \<Rightarrow> nat \<Rightarrow> u8 list \<Rightarrow> nat \<Rightarrow> fs \<Rightarrow> result" where
  "mkdir_new E mode dir name namelen s =
     (case new_inode E (i_dev (inodes s dir)) s of
        (None, s) \<Rightarrow> Inr (Inl ENOSPC, iput E dir s)
      | (Some i, s) \<Rightarrow>
          (let s = upd_inode i (\<lambda>x. x\<lparr>i_size := 32, i_dirt := True, i_mtime := current_time s, i_atime := current_time s\<rparr>) s;
               (block, s) = new_block E (i_dev (inodes s i)) s;
               s = upd_inode i (\<lambda>x. x\<lparr>i_zone := (i_zone x)[0 := block]\<rparr>) s
           in if block = 0 then
                Inr (Inl ENOSPC, iput E i (upd_inode i (\<lambda>x. x\<lparr>i_nlinks := i_nlinks x - 1\<rparr>) (iput E dir s)))
              else
                (let s = upd_inode i (\<lambda>x. x\<lparr>i_dirt := True\<rparr>) s in
                 case bread E (i_dev (inodes s i)) (i_zone (inodes s i) ! 0) s of
                   (None, s) \<Rightarrow>
                     (let s = iput E dir s; s = free_block E (i_dev (inodes s i)) (i_zone (inodes s i) ! 0) s
                      in Inr (Inl ERROR, iput E i (upd_inode i (\<lambda>x. x\<lparr>i_nlinks := i_nlinks x - 1\<rparr>) s)))
                 | (Some db, s) \<Rightarrow> mkdir_add E mode dir name namelen i db s)))"

definition sys_mkdir :: "fs_ops \<Rightarrow> u8 list \<Rightarrow> u16 \<Rightarrow> fs \<Rightarrow> result" where
  "sys_mkdir E pathname mode s =
     (if \<not> suser s then Inr (Inl EPERM, s) else with_entry E pathname (entry_exists E) (mkdir_new E mode) s)"

text \<open>The loop of \<open>empty_dir\<close>; unlike \<open>find_entry\<close> it does not forget the buffer it has released when the next block
  is missing.\<close>

function empty_loop :: "fs_ops \<Rightarrow> nat \<Rightarrow> nat \<Rightarrow> nat \<Rightarrow> nat \<Rightarrow> nat \<Rightarrow> fs \<Rightarrow> bool \<times> fs" where
  "empty_loop E i len nr b k s =
     (if nr < len then
        (if k \<ge> DIR_ENTRIES_PER_BLOCK then
           (let s = brelse E b s; (block, s) = bmap E i (nr div DIR_ENTRIES_PER_BLOCK) s in
            if block = 0 then empty_loop E i len (nr + DIR_ENTRIES_PER_BLOCK) b k s
            else
              (case bread E (i_dev (inodes s i)) block s of
                 (None, s) \<Rightarrow> (False, s)
               | (Some b, s) \<Rightarrow>
                   if de_inode (entry s b 0) \<noteq> 0 then (False, brelse E b s)
                   else empty_loop E i len (nr + 1) b 1 s))
         else if de_inode (entry s b k) \<noteq> 0 then (False, brelse E b s)
         else empty_loop E i len (nr + 1) b (k + 1) s)
      else (True, brelse E b s))"
  by pat_completeness auto
termination
  by (relation "measure (\<lambda>(E, i, len, nr, b, k, s). len - nr)") (auto simp: DIR_ENTRIES_PER_BLOCK_def)

declare empty_loop.simps [simp del]

definition bad_directory :: "fs \<Rightarrow> bool \<times> fs" where
  "bad_directory s = (False, print ''warning - bad directory on dev'' s)"

definition empty_dir :: "fs_ops \<Rightarrow> nat \<Rightarrow> fs \<Rightarrow> bool \<times> fs" where
  "empty_dir E i s =
     (let len = unat (i_size (inodes s i)) div 16 in
      if len < 2 \<or> i_zone (inodes s i) ! 0 = 0 then bad_directory s
      else
        (case bread E (i_dev (inodes s i)) (i_zone (inodes s i) ! 0) s of
           (None, s) \<Rightarrow> bad_directory s
         | (Some b, s) \<Rightarrow>
             if de_inode (entry s b 0) \<noteq> i_num (inodes s i) \<or> de_inode (entry s b 1) = 0 \<or>
                c_str (de_name (entry s b 0)) \<noteq> [0x2e] \<or> c_str (de_name (entry s b 1)) \<noteq> [0x2e, 0x2e]
             then bad_directory s
             else empty_loop E i len 2 b 2 s))"

definition rmdir_found :: "fs_ops \<Rightarrow> nat \<Rightarrow> nat \<Rightarrow> nat \<Rightarrow> fs \<Rightarrow> result" where
  "rmdir_found E dir b k s =
     (case iget E (i_dev (inodes s dir)) (de_inode (entry s b k)) s of
        (None, s) \<Rightarrow> Inr (Inl EPERM, brelse E b (iput E dir s))
      | (Some i, s) \<Rightarrow>
          if i_mode (inodes s dir) AND S_ISVTX \<noteq> 0 \<and> euid s \<noteq> 0 \<and> i_uid (inodes s i) \<noteq> euid s
          then Inr (Inl EPERM, brelse E b (iput E i (iput E dir s)))
          else if i_dev (inodes s i) \<noteq> i_dev (inodes s dir) \<or> i_count (inodes s i) > 1
          then Inr (Inl EPERM, brelse E b (iput E i (iput E dir s)))
          else if i = dir then Inr (Inl EPERM, brelse E b (iput E dir (iput E i s)))
          else if \<not> S_ISDIR (i_mode (inodes s i)) then Inr (Inl ENOTDIR, brelse E b (iput E dir (iput E i s)))
          else
            (let (e, s) = empty_dir E i s in
             if \<not> e then Inr (Inl ENOTEMPTY, brelse E b (iput E dir (iput E i s)))
             else
               (let s = (if i_nlinks (inodes s i) \<noteq> 2 then print ''empty directory has nlink!=2'' s else s);
                    s = brelse E b (set_entry E b k 0 s);
                    s = upd_inode i (\<lambda>x. x\<lparr>i_nlinks := 0, i_dirt := True\<rparr>) s;
                    s = upd_inode dir (\<lambda>x. x\<lparr>i_nlinks := i_nlinks x - 1, i_ctime := current_time s, i_mtime := current_time s, i_dirt := True\<rparr>) s
                in Inr (Inr 0, iput E i (iput E dir s)))))"

definition sys_rmdir :: "fs_ops \<Rightarrow> u8 list \<Rightarrow> fs \<Rightarrow> result" where
  "sys_rmdir E name s = (if \<not> suser s then Inr (Inl EPERM, s) else with_entry E name (rmdir_found E) (no_entry E) s)"

definition unlink_found :: "fs_ops \<Rightarrow> nat \<Rightarrow> nat \<Rightarrow> nat \<Rightarrow> fs \<Rightarrow> result" where
  "unlink_found E dir b k s =
     (case iget E (i_dev (inodes s dir)) (de_inode (entry s b k)) s of
        (None, s) \<Rightarrow> Inr (Inl ENOENT, brelse E b (iput E dir s))
      | (Some i, s) \<Rightarrow>
          if i_mode (inodes s dir) AND S_ISVTX \<noteq> 0 \<and> \<not> suser s \<and> euid s \<noteq> i_uid (inodes s i) \<and> euid s \<noteq> i_uid (inodes s dir)
          then Inr (Inl EPERM, brelse E b (iput E i (iput E dir s)))
          else if S_ISDIR (i_mode (inodes s i)) then Inr (Inl EPERM, brelse E b (iput E dir (iput E i s)))
          else
            (let s = (if i_nlinks (inodes s i) = 0 then
                        upd_inode i (\<lambda>x. x\<lparr>i_nlinks := 1\<rparr>) (print ''Deleting nonexistent file'' s) else s);
                 s = brelse E b (set_entry E b k 0 s);
                 s = upd_inode i (\<lambda>x. x\<lparr>i_nlinks := i_nlinks x - 1, i_dirt := True, i_ctime := current_time s\<rparr>) s
             in Inr (Inr 0, iput E dir (iput E i s))))"

definition sys_unlink :: "fs_ops \<Rightarrow> u8 list \<Rightarrow> fs \<Rightarrow> result" where
  "sys_unlink E name s = with_entry E name (unlink_found E) (no_entry E) s"

definition link_new :: "fs_ops \<Rightarrow> nat \<Rightarrow> nat \<Rightarrow> nat \<Rightarrow> u8 list \<Rightarrow> fs \<Rightarrow> result" where
  "link_new E old dir namelen name s =
     (if namelen = 0 then Inr (Inl EPERM, iput E dir (iput E old s))
      else if i_dev (inodes s dir) \<noteq> i_dev (inodes s old) then Inr (Inl EXDEV, iput E old (iput E dir s))
      else if \<not> permission dir MAY_WRITE s then Inr (Inl EACCES, iput E old (iput E dir s))
      else
        (case find_entry E dir name namelen s of
           (dir, Some (b, k), s) \<Rightarrow> Inr (Inl EEXIST, iput E old (iput E dir (brelse E b s)))
         | (dir, None, s) \<Rightarrow>
             sbind (add_entry E dir name namelen s) (\<lambda>(r, s). case r of
               None \<Rightarrow> Inr (Inl ENOSPC, iput E old (iput E dir s))
             | Some (b, k) \<Rightarrow>
                 (let s = iput E dir (brelse E b (set_entry E b k (i_num (inodes s old)) s));
                      s = upd_inode old (\<lambda>x. x\<lparr>i_nlinks := i_nlinks x + 1, i_ctime := current_time s, i_dirt := True\<rparr>) s
                  in Inr (Inr 0, iput E old s)))))"

definition sys_link :: "fs_ops \<Rightarrow> u8 list \<Rightarrow> u8 list \<Rightarrow> fs \<Rightarrow> result" where
  "sys_link E oldname newname s =
     sbind (namei E oldname s) (\<lambda>(r, s). case r of
       None \<Rightarrow> Inr (Inl ENOENT, s)
     | Some old \<Rightarrow>
         if S_ISDIR (i_mode (inodes s old)) then Inr (Inl EPERM, iput E old s)
         else sbind (dir_namei E newname s) (\<lambda>(r, s). case r of
                None \<Rightarrow> Inr (Inl EACCES, iput E old s)
              | Some (dir, namelen, name) \<Rightarrow> link_new E old dir namelen name s))"

end
