(* ===== verification/Nameiprops.thy ===== *)
theory Nameiprops imports Namei begin

text \<open>
  Properties of \<open>namei.c\<close>: no call loses or gives back too often a reference to an inode or a buffer, whatever the
  inode table and the buffer cache do; looking up a name is a search in the list of entries; an added name is found.
\<close>

unbundle bit_operations_syntax

section \<open>References\<close>

text \<open>\<open>gains s s' i b\<close>: from \<open>s\<close> to \<open>s'\<close> the call gained \<open>i\<close> inode references and \<open>b\<close> buffer references.\<close>

definition gains :: "fs \<Rightarrow> fs \<Rightarrow> int \<Rightarrow> int \<Rightarrow> bool" where
  "gains s s' i b \<longleftrightarrow> i_held s' = i_held s + i \<and> b_held s' = b_held s + b"

definition got :: "'a option \<Rightarrow> int" where "got r = (if r = None then 0 else 1)"

lemma got_simps [simp]: "got None = 0" "got (Some x) = 1" by (simp_all add: got_def)

lemma got_pair [simp]: "\<forall>x y. a \<noteq> Some (x, y) \<Longrightarrow> got a = 0" by (cases a) auto

lemma held_simps [simp]: "i_held (held i b s s') = i_held s + i" "b_held (held i b s s') = b_held s + b"
  by (simp_all add: held_def)

lemma ghost_simps [simp]:
  "i_held (iput E i s) = i_held s - 1" "b_held (iput E i s) = b_held s"
  "i_held (brelse E b s) = i_held s" "b_held (brelse E b s) = b_held s - 1"
  "i_held (brelse_opt E bh s) = i_held s" "b_held (brelse_opt E bh s) = b_held s - got bh"
  "i_held (upd_inode i f s) = i_held s" "b_held (upd_inode i f s) = b_held s"
  "i_held (upd_entry b k g s) = i_held s" "b_held (upd_entry b k g s) = b_held s"
  "i_held (dirty_buffer b s) = i_held s" "b_held (dirty_buffer b s) = b_held s"
  "i_held (print m s) = i_held s" "b_held (print m s) = b_held s"
  "i_held (truncate E i s) = i_held s" "b_held (truncate E i s) = b_held s"
  "i_held (free_block E d n s) = i_held s" "b_held (free_block E d n s) = b_held s"
  "i_held (set_entry E b k nr s) = i_held s" "b_held (set_entry E b k nr s) = b_held s"
  "i_held (grow_dir i m0 b k s) = i_held s" "b_held (grow_dir i m0 b k s) = b_held s"
  "i_held (idup i s) = i_held s + 1" "b_held (idup i s) = b_held s"
  by (simp_all add: iput_def brelse_def brelse_opt_def upd_inode_def upd_entry_def dirty_buffer_def print_def truncate_def
      free_block_def set_entry_def grow_dir_def idup_def split: option.splits)

lemma gains_ops:
  "iget E d n s = (r, s') \<Longrightarrow> gains s s' (got r) 0" "new_inode E d s = (r, s') \<Longrightarrow> gains s s' (got r) 0"
  "bread E d n s = (r, s') \<Longrightarrow> gains s s' 0 (got r)" "bmap E i k s = (m, s') \<Longrightarrow> gains s s' 0 0"
  "create_block E i k s = (m, s') \<Longrightarrow> gains s s' 0 0" "new_block E d s = (m, s') \<Longrightarrow> gains s s' 0 0"
  by (auto simp: iget_def new_inode_def bread_def bmap_def create_block_def new_block_def gains_def Let_def
      split: prod.splits option.splits)

lemma find_load_gains: "find_load E dir i bh k s = (r, k', s') \<Longrightarrow> gains s s' 0 (got r - got bh)"
  by (auto simp: find_load_def Let_def gains_def split: prod.splits option.splits if_splits dest!: gains_ops(3,4))

lemma find_loop_gains: "find_loop E dir name len entries i bh k s = (r, s') \<Longrightarrow> gains s s' 0 (got r - got bh)"
proof (induction E dir name len entries i bh k s rule: find_loop.induct)
  case (1 E dir name len entries i bh k s)
  obtain l k' t where l: "find_load E dir i bh k s = (l, k', t)" by (metis surj_pair)
  have g: "gains s t 0 (got l - got bh)" using find_load_gains [OF l] .
  show ?case
  proof (cases "i < entries")
    case True
    note lt = True
    show ?thesis
    proof (cases l)
      case None
      then have "find_loop E dir name len entries (i + DIR_ENTRIES_PER_BLOCK) None k' t = (r, s')"
        using "1.prems" True l by (simp add: find_loop.simps [of E dir name len entries i])
      from "1.IH"(1) [OF True l [symmetric] None refl this] show ?thesis using g None by (simp add: gains_def)
    next
      case (Some b)
      show ?thesis
      proof (cases "match len name (entry t b k')")
        case True
        then show ?thesis using "1.prems" lt l Some g by (auto simp: find_loop.simps [of E dir name len entries i] gains_def)
      next
        case False
        then have "find_loop E dir name len entries (i + 1) (Some b) (k' + 1) t = (r, s')"
          using "1.prems" lt l Some by (simp add: find_loop.simps [of E dir name len entries i])
        from "1.IH"(2) [OF lt l [symmetric] Some refl False this] show ?thesis using g Some by (simp add: gains_def)
      qed
    qed
  next
    case False
    then show ?thesis using "1.prems" by (auto simp: find_loop.simps [of E dir name len entries i] gains_def)
  qed
qed

lemma dot_dot_gains: "dot_dot E dir s = (d, n, s') \<Longrightarrow> gains s s' 0 0"
  by (auto simp: dot_dot_def gains_def split: if_splits option.splits)

lemma find_entry_gains:
  assumes "find_entry E dir name len s = (d, r, s')" shows "gains s s' 0 (got r)"
proof (cases "min len NAME_LEN = 0")
  case True
  then show ?thesis using assms by (simp add: find_entry_def gains_def)
next
  case False
  define q where "q = (if min len NAME_LEN = 2 \<and> get_fs_byte name = 0x2e \<and> get_fs_byte (tl name) = 0x2e
    then dot_dot E dir s else (dir, min len NAME_LEN, s))"
  obtain d' n' t where q: "q = (d', n', t)" by (metis surj_pair)
  have g: "gains s t 0 0" using q dot_dot_gains unfolding q_def by (auto simp: gains_def split: if_splits)
  show ?thesis using assms False g
    unfolding find_entry_def Let_def q_def [symmetric] q
    by (auto simp: gains_def split: if_splits option.splits prod.splits dest!: gains_ops(3) find_loop_gains)
qed

lemma add_load_gains:
  assumes "(if k < DIR_ENTRIES_PER_BLOCK then (Some (bh, k), s)
         else
           (let s = brelse_opt E bh s; (block, s) = create_block E dir (i div DIR_ENTRIES_PER_BLOCK) s in
            if block = 0 then (None, s)
            else (case bread E (i_dev (inodes s dir)) block s of (None, s) \<Rightarrow> (Some (None, k), s) | (Some b, s) \<Rightarrow> (Some (Some b, 0), s)))) = (r, t)"
  shows "gains s t 0 ((case r of None \<Rightarrow> 0 | Some (b, k) \<Rightarrow> got b) - got bh)"
  using assms by (auto simp: Let_def gains_def split: prod.splits option.splits if_splits dest!: gains_ops(3,5))

lemma add_loop_gains:
  assumes "add_loop E dir name len i bh k s = Some rs" shows "gains s (snd rs) 0 (got (fst rs) - got bh)"
proof (rule add_loop.raw_induct [OF _ assms, where P = "\<lambda>E dir name len i bh k s rs. gains s (snd rs) 0 (got (fst rs) - got bh)"],
    goal_cases)
  case (1 f E dir name len i bh k s rs)
  define L where "L = (if k < DIR_ENTRIES_PER_BLOCK then (Some (bh, k), s)
         else
           (let s = brelse_opt E bh s; (block, s) = create_block E dir (i div DIR_ENTRIES_PER_BLOCK) s in
            if block = 0 then (None, s)
            else (case bread E (i_dev (inodes s dir)) block s of (None, s) \<Rightarrow> (Some (None, k), s) | (Some b, s) \<Rightarrow> (Some (Some b, 0), s))))"
  obtain r t where L: "L = (r, t)" by (cases L)
  note g = add_load_gains [OF L [unfolded L_def]]
  have e: "(case r of
        None \<Rightarrow> Some (None, t)
      | Some (None, k) \<Rightarrow> f E dir name len (i + DIR_ENTRIES_PER_BLOCK) None k t
      | Some (Some b, k) \<Rightarrow>
          (let s = grow_dir dir i b k t in
           if de_inode (entry s b k) = 0 then
             Some (Some (b, k), dirty_buffer b (upd_entry b k (\<lambda>de. de\<lparr>de_name := entry_name len name\<rparr>)
               (upd_inode dir (\<lambda>x. x\<lparr>i_mtime := current_time s\<rparr>) s)))
           else f E dir name len (i + 1) (Some b) (k + 1) s)) = Some rs"
    using 1(2) unfolding L_def [symmetric] L by simp
  show ?case
  proof (cases r)
    case None
    with e g show ?thesis by (auto simp: gains_def)
  next
    case (Some bk)
    obtain bo k' where bk: "bk = (bo, k')" by (cases bk)
    show ?thesis
    proof (cases bo)
      case None
      then have "f E dir name len (i + DIR_ENTRIES_PER_BLOCK) None k' t = Some rs" using e Some bk by simp
      from 1(1) [OF this] show ?thesis using g Some bk None by (simp add: gains_def)
    next
      case (Some b)
      note b = \<open>r = Some bk\<close> bk Some
      show ?thesis
      proof (cases "de_inode (entry (grow_dir dir i b k' t) b k') = 0")
        case True
        with e g b show ?thesis by (auto simp: gains_def Let_def)
      next
        case False
        then have "f E dir name len (i + 1) (Some b) (k' + 1) (grow_dir dir i b k' t) = Some rs" using e b by (simp add: Let_def)
        from 1(1) [OF this] show ?thesis using g b by (simp add: gains_def)
      qed
    qed
  qed
qed

lemma add_entry_gains: "add_entry E dir name len s = Inr (r, s') \<Longrightarrow> gains s s' 0 (got r)"
  by (auto simp: add_entry_def Let_def gains_def split: if_splits option.splits prod.splits dest!: gains_ops(3) add_loop_gains)

lemma get_dir_loop_gains: "get_dir_loop E i p s = (r, s') \<Longrightarrow> gains s s' (got r - 1) 0"
proof (induction E i p s rule: get_dir_loop.induct)
  case (1 E i p s)
  show ?case
  proof (cases "\<not> S_ISDIR (i_mode (inodes s i)) \<or> \<not> permission i MAY_EXEC s")
    case True
    then show ?thesis using "1.prems" by (auto simp: get_dir_loop.simps [of E i p s] gains_def)
  next
    case False
    obtain n rest where sp: "split_path p = (n, rest)" by (cases "split_path p")
    show ?thesis
    proof (cases rest)
      case None
      then show ?thesis using "1.prems" False sp by (auto simp: get_dir_loop.simps [of E i p s] gains_def)
    next
      case (Some q)
      obtain d bk t where f: "find_entry E i p (length n) s = (d, bk, t)" by (metis surj_pair)
      have g: "gains s t 0 (got bk)" by (rule find_entry_gains [OF f])
      show ?thesis
      proof (cases bk)
        case None
        then show ?thesis using "1.prems" False sp Some f g by (auto simp: get_dir_loop.simps [of E i p s] gains_def)
      next
        case bk: (Some x)
        obtain b k where x: "x = (b, k)" by (cases x)
        define u where "u = iput E d (brelse E b t)"
        obtain j v where j: "iget E (i_dev (inodes t d)) (de_inode (entry t b k)) u = (j, v)" by (metis surj_pair)
        have gj: "gains u v (got j) 0" using gains_ops(1) [OF j] .
        show ?thesis
        proof (cases j)
          case None
          then show ?thesis using "1.prems" False sp Some f g bk x j gj
            by (auto simp: get_dir_loop.simps [of E i p s] gains_def Let_def u_def)
        next
          case jj: (Some y)
          then have l: "get_dir_loop E y q v = (r, s')" using "1.prems" False sp Some f bk x j
            by (auto simp: get_dir_loop.simps [of E i p s] Let_def u_def)
          have "gains v s' (got r - 1) 0"
            by (rule "1.IH" [OF False sp [symmetric] Some f [symmetric] refl bk x [symmetric] refl refl u_def j [symmetric] jj l])
          then show ?thesis using g gj bk jj by (simp add: gains_def u_def)
        qed
      qed
    qed
  qed
qed

lemma get_dir_gains: "get_dir E p s = Inr (r, s') \<Longrightarrow> gains s s' (got r) 0"
  by (auto simp: get_dir_def gains_def split: option.splits if_splits dest!: get_dir_loop_gains)

lemma dir_namei_gains: "dir_namei E p s = Inr (r, s') \<Longrightarrow> gains s s' (got r) 0"
  by (auto simp: dir_namei_def sbind_Inr_iff gains_def Let_def split: option.splits prod.splits dest!: get_dir_gains)

lemma namei_gains:
  assumes "namei E p s = Inr (r, s')" shows "gains s s' (got r) 0"
proof -
  obtain q t where q: "dir_namei E p s = Inr (q, t)" and n: "(case q of None \<Rightarrow> Inr (None, t)
      | Some (dir, namelen, name) \<Rightarrow>
          if namelen = 0 then Inr (Some dir, t)
          else
            (case find_entry E dir name namelen t of
               (dir, None, s) \<Rightarrow> Inr (None, iput E dir s)
             | (dir, Some (b, k), s) \<Rightarrow>
                 (let inr = de_inode (entry s b k); dev = i_dev (inodes s dir); s = iput E dir (brelse E b s) in
                  case iget E dev inr s of
                    (None, s) \<Rightarrow> Inr (None, s)
                  | (Some i, s) \<Rightarrow> Inr (Some i, upd_inode i (\<lambda>x. x\<lparr>i_atime := current_time s, i_dirt := True\<rparr>) s)))) = (Inr (r, s') :: stop + nat option \<times> fs)"
    using assms unfolding namei_def sbind_Inr_iff by auto
  show ?thesis
  proof (cases q)
    case None
    then show ?thesis using n dir_namei_gains [OF q] by simp
  next
    case (Some x)
    obtain dir len name where x: "x = (dir, len, name)" by (cases x)
    show ?thesis
    proof (cases "len = 0")
      case True
      then show ?thesis using n Some x dir_namei_gains [OF q] by auto
    next
      case False
      obtain d bk u where f: "find_entry E dir name len t = (d, bk, u)" by (metis surj_pair)
      show ?thesis using n Some x False f dir_namei_gains [OF q] find_entry_gains [OF f]
        by (cases bk) (auto simp: gains_def Let_def split: prod.splits option.splits dest!: gains_ops(1))
    qed
  qed
qed

definition got_sum :: "errno + 'a \<Rightarrow> int" where "got_sum r = (case r of Inl _ \<Rightarrow> 0 | Inr _ \<Rightarrow> 1)"

lemma got_sum_simps [simp]: "got_sum (Inl e) = 0" "got_sum (Inr x) = 1" by (simp_all add: got_sum_def)

lemma open_create_gains: "open_create E flag mode dir name len s = Inr (r, s') \<Longrightarrow> gains s s' (got_sum r - 1) 0"
  by (auto simp: open_create_def sbind_Inr_iff gains_def Let_def split: option.splits prod.splits if_splits
      dest!: add_entry_gains gains_ops(2))

lemma open_existing_gains: "open_existing E flag dir b k s = (r, s') \<Longrightarrow> gains s s' (got_sum r - 1) (- 1)"
  by (auto simp: open_existing_def gains_def Let_def split: option.splits prod.splits if_splits dest!: gains_ops(1))

lemma open_namei_gains:
  assumes "open_namei E p flag0 mode0 s = Inr (r, s')" shows "gains s s' (got_sum r) 0"
proof -
  define flag where "flag = (if flag0 AND O_TRUNC \<noteq> 0 \<and> flag0 AND O_ACCMODE = 0 then flag0 OR O_WRONLY else flag0)"
  define mode where "mode = (mode0 AND (0x1ff AND NOT (umask s)) OR I_REGULAR)"
  obtain q t where q: "dir_namei E p s = Inr (q, t)" and n: "(case q of
           None \<Rightarrow> Inr (Inl ENOENT, t)
         | Some (dir, namelen, name) \<Rightarrow>
             if namelen = 0 then
               (if flag AND (O_ACCMODE OR O_CREAT OR O_TRUNC) = 0 then Inr (Inr dir, t) else Inr (Inl EISDIR, iput E dir t))
             else
               (case find_entry E dir name namelen t of
                  (dir, None, s) \<Rightarrow> open_create E flag mode dir name namelen s
                | (dir, Some (b, k), s) \<Rightarrow> Inr (open_existing E flag dir b k s))) = Inr (r, s')"
    using assms unfolding open_namei_def flag_def [symmetric] mode_def [symmetric] Let_def sbind_Inr_iff by auto
  note g = dir_namei_gains [OF q]
  show ?thesis
  proof (cases q)
    case None
    with n g show ?thesis by (auto simp: gains_def)
  next
    case (Some x)
    obtain dir len name where x: "q = Some (dir, len, name)" using Some by (cases x) auto
    obtain d bk u where e: "find_entry E dir name len t = (d, bk, u)" by (metis surj_pair)
    show ?thesis using n g x e find_entry_gains [OF e]
      by (cases bk) (auto simp: gains_def split: if_splits dest!: open_create_gains open_existing_gains)
  qed
qed

lemma with_entry_gains:
  assumes w: "with_entry E p found missing s = Inr (r, s')"
    and f: "\<And>dir b k t r t'. found dir b k t = Inr (r, t') \<Longrightarrow> gains t t' (- 1) (- 1)"
    and m: "\<And>dir name len t r t'. missing dir name len t = Inr (r, t') \<Longrightarrow> gains t t' (- 1) 0"
  shows "gains s s' 0 0"
proof -
  from w obtain q t where q: "dir_namei E p s = Inr (q, t)" and n: "(case q of
       None \<Rightarrow> Inr (Inl ENOENT, t)
     | Some (dir, namelen, name) \<Rightarrow>
         if namelen = 0 then Inr (Inl ENOENT, iput E dir t)
         else if \<not> permission dir MAY_WRITE t then Inr (Inl EPERM, iput E dir t)
         else
           (case find_entry E dir name namelen t of
              (dir, None, s) \<Rightarrow> missing dir name namelen s
            | (dir, Some (b, k), s) \<Rightarrow> found dir b k s)) = Inr (r, s')"
    unfolding with_entry_def sbind_Inr_iff by auto
  note g = dir_namei_gains [OF q]
  show ?thesis
  proof (cases q)
    case None
    with n g show ?thesis by (auto simp: gains_def)
  next
    case (Some x)
    obtain dir len name where x: "q = Some (dir, len, name)" using Some by (cases x) auto
    obtain d bk u where e: "find_entry E dir name len t = (d, bk, u)" by (metis surj_pair)
    show ?thesis using n g x e find_entry_gains [OF e]
      by (cases bk) (auto simp: gains_def split: if_splits dest!: f m)
  qed
qed

lemma entry_exists_gains: "entry_exists E dir b k s = Inr (r, s') \<Longrightarrow> gains s s' (- 1) (- 1)"
  "no_entry E dir name len s = Inr (r, s') \<Longrightarrow> gains s s' (- 1) 0"
  by (auto simp: entry_exists_def no_entry_def gains_def)

lemma mknod_new_gains: "mknod_new E mode dev dir name len s = Inr (r, s') \<Longrightarrow> gains s s' (- 1) 0"
  by (auto simp: mknod_new_def sbind_Inr_iff gains_def Let_def split: option.splits prod.splits if_splits
      dest!: add_entry_gains gains_ops(2))

lemma mkdir_add_gains: "mkdir_add E mode dir name len i db s = Inr (r, s') \<Longrightarrow> gains s s' (- 2) (- 1)"
  by (auto simp: mkdir_add_def mkdir_block_def sbind_Inr_iff gains_def Let_def split: option.splits prod.splits if_splits
      dest!: add_entry_gains)

lemma mkdir_new_gains: "mkdir_new E mode dir name len s = Inr (r, s') \<Longrightarrow> gains s s' (- 1) 0"
  by (auto simp: mkdir_new_def sbind_Inr_iff gains_def Let_def split: option.splits prod.splits if_splits
      dest!: mkdir_add_gains gains_ops(2,3,6))

lemma unlink_found_gains: "unlink_found E dir b k s = Inr (r, s') \<Longrightarrow> gains s s' (- 1) (- 1)"
  by (auto simp: unlink_found_def gains_def Let_def split: option.splits prod.splits if_splits dest!: gains_ops(1))

lemma link_new_gains: "link_new E old dir len name s = Inr (r, s') \<Longrightarrow> gains s s' (- 2) 0"
  by (auto simp: link_new_def sbind_Inr_iff gains_def Let_def split: option.splits prod.splits if_splits
      dest!: add_entry_gains find_entry_gains)

lemma sys_link_gains:
  assumes "sys_link E old new s = Inr (r, s')" shows "gains s s' 0 0"
proof -
  obtain q t where q: "namei E old s = Inr (q, t)" and n: "(case q of None \<Rightarrow> Inr (Inl ENOENT, t)
     | Some old \<Rightarrow>
         if S_ISDIR (i_mode (inodes t old)) then Inr (Inl EPERM, iput E old t)
         else sbind (dir_namei E new t) (\<lambda>(r, s). case r of
                None \<Rightarrow> Inr (Inl EACCES, iput E old s)
              | Some (dir, namelen, name) \<Rightarrow> link_new E old dir namelen name s)) = Inr (r, s')"
    using assms unfolding sys_link_def sbind_Inr_iff by auto
  have g: "gains s t (got q) 0" by (rule namei_gains [OF q])
  show ?thesis
  proof (cases q)
    case None
    then show ?thesis using n g by (auto simp: gains_def)
  next
    case (Some i)
    show ?thesis
    proof (cases "S_ISDIR (i_mode (inodes t i))")
      case True
      then show ?thesis using n g Some by (auto simp: gains_def)
    next
      case False
      then obtain d u where d: "dir_namei E new t = Inr (d, u)" and n: "(case d of
                None \<Rightarrow> Inr (Inl EACCES, iput E i u)
              | Some (dir, namelen, name) \<Rightarrow> link_new E i dir namelen name u) = Inr (r, s')"
        using n Some by (auto simp: sbind_Inr_iff)
      then show ?thesis using g Some dir_namei_gains [OF d]
        by (cases d) (auto simp: gains_def dest!: link_new_gains)
    qed
  qed
qed

lemma sys_gains:
  "sys_mknod E p mode dev s = Inr (r, s') \<Longrightarrow> gains s s' 0 0"
  "sys_mkdir E p mode s = Inr (r, s') \<Longrightarrow> gains s s' 0 0"
  "sys_unlink E p s = Inr (r, s') \<Longrightarrow> gains s s' 0 0"
proof -
  have z: "gains s s 0 0" by (simp add: gains_def)
  show "sys_mknod E p mode dev s = Inr (r, s') \<Longrightarrow> gains s s' 0 0"
    using with_entry_gains [of E p _ _ s r s', OF _ entry_exists_gains(1) mknod_new_gains] z
    by (auto simp: sys_mknod_def split: if_splits)
  show "sys_mkdir E p mode s = Inr (r, s') \<Longrightarrow> gains s s' 0 0"
    using with_entry_gains [of E p _ _ s r s', OF _ entry_exists_gains(1) mkdir_new_gains] z
    by (auto simp: sys_mkdir_def split: if_splits)
  show "sys_unlink E p s = Inr (r, s') \<Longrightarrow> gains s s' 0 0"
    using with_entry_gains [of E p _ _ s r s', OF _ unlink_found_gains entry_exists_gains(2)]
    by (auto simp: sys_unlink_def)
qed

section \<open>Looking up a name\<close>

text \<open>A disk that is read without errors and without anybody else changing it: block \<open>k\<close> of the directory is \<open>zone k\<close>
  (0 when there is none), and block \<open>b\<close> is in buffer \<open>buf b\<close>.\<close>

definition quiet :: "fs_ops \<Rightarrow> nat \<Rightarrow> (nat \<Rightarrow> u16) \<Rightarrow> (u16 \<Rightarrow> nat) \<Rightarrow> bool" where
  "quiet E dir zone buf \<longleftrightarrow>
     (\<forall>k t. op_bmap E dir k t = (zone k, t)) \<and> (\<forall>k t. op_create_block E dir k t = (zone k, t)) \<and>
     (\<forall>d b t. op_bread E d b t = (Some (buf b), t)) \<and> (\<forall>b t. op_brelse E b t = t)"

text \<open>The place of entry \<open>i\<close>, and the entry.\<close>

definition place :: "(nat \<Rightarrow> u16) \<Rightarrow> (u16 \<Rightarrow> nat) \<Rightarrow> nat \<Rightarrow> nat \<times> nat" where
  "place zone buf i = (buf (zone (i div 64)), i mod 64)"

definition entry_at :: "(nat \<Rightarrow> u16) \<Rightarrow> (u16 \<Rightarrow> nat) \<Rightarrow> fs \<Rightarrow> nat \<Rightarrow> dir_entry" where
  "entry_at zone buf s i = entry s (buf (zone (i div 64))) (i mod 64)"

text \<open>The first entry with the name, among the first \<open>n\<close>.\<close>

definition lookup_name :: "(nat \<Rightarrow> u16) \<Rightarrow> (u16 \<Rightarrow> nat) \<Rightarrow> nat \<Rightarrow> u8 list \<Rightarrow> nat \<Rightarrow> fs \<Rightarrow> nat option" where
  "lookup_name zone buf n name len s =
     List.find (\<lambda>i. zone (i div 64) \<noteq> 0 \<and> match len name (entry_at zone buf s i)) [0..<n]"

abbreviation bset :: "fs \<Rightarrow> int \<Rightarrow> fs" where "bset s c \<equiv> s\<lparr>b_held := c\<rparr>"

lemma quiet_ops:
  assumes "quiet E dir zone buf"
  shows "bmap E dir k (bset s c) = (zone k, bset s c)" "create_block E dir k (bset s c) = (zone k, bset s c)"
    "bread E d b (bset s c) = (Some (buf b), bset s (c + 1))" "brelse E b' (bset s c) = bset s (c - 1)"
  using assms by (simp_all add: quiet_def bmap_def create_block_def bread_def brelse_def held_def)

text \<open>Where the loops stand before entry \<open>i\<close>: inside a block, behind its end, or behind a block that is missing.\<close>

definition cursor :: "(nat \<Rightarrow> u16) \<Rightarrow> (u16 \<Rightarrow> nat) \<Rightarrow> nat \<Rightarrow> nat option \<Rightarrow> nat \<Rightarrow> bool" where
  "cursor zone buf i bh k \<longleftrightarrow>
     (\<exists>q. i = 64 * q + k \<and> k \<le> 64 \<and> zone q \<noteq> 0 \<and> bh = Some (buf (zone q))) \<or> (bh = None \<and> k = 64 \<and> i mod 64 = 0)"

lemma cursor_load:
  assumes c: "cursor zone buf i bh k"
  shows "k < 64 \<Longrightarrow> bh = Some (fst (place zone buf i)) \<and> k = i mod 64 \<and> zone (i div 64) \<noteq> 0"
    "\<not> k < 64 \<Longrightarrow> k = 64 \<and> i mod 64 = 0"
    "\<not> k < 64 \<Longrightarrow> cursor zone buf (i + 64) None k"
    "zone (i div 64) \<noteq> 0 \<Longrightarrow> cursor zone buf (i + 1) (Some (fst (place zone buf i))) (i mod 64 + 1)"
proof -
  show "k < 64 \<Longrightarrow> bh = Some (fst (place zone buf i)) \<and> k = i mod 64 \<and> zone (i div 64) \<noteq> 0"
    using c by (auto simp: cursor_def place_def)
  show k: "\<not> k < 64 \<Longrightarrow> k = 64 \<and> i mod 64 = 0" using c by (auto simp: cursor_def)
  then show "\<not> k < 64 \<Longrightarrow> cursor zone buf (i + 64) None k" by (simp add: cursor_def)
  have "i + 1 = 64 * (i div 64) + (i mod 64 + 1)" "i mod 64 + 1 \<le> 64" by (simp_all add: Suc_le_eq)
  then show "zone (i div 64) \<noteq> 0 \<Longrightarrow> cursor zone buf (i + 1) (Some (fst (place zone buf i))) (i mod 64 + 1)"
    unfolding cursor_def place_def fst_conv by blast
qed

lemma find_load_quiet:
  assumes q: "quiet E dir zone buf" and c: "cursor zone buf i bh k"
  shows "find_load E dir i bh k (bset s b) =
    (if zone (i div 64) = 0 then (None, 64, bset s (b - got bh))
     else (Some (fst (place zone buf i)), i mod 64, bset s (b + 1 - got bh)))"
proof (cases "k < 64")
  case True
  then show ?thesis using cursor_load(1) [OF c True] by (simp add: find_load_def DIR_ENTRIES_PER_BLOCK_def)
next
  case False
  have "brelse_opt E bh (bset s b) = bset s (b - got bh)" by (cases bh) (simp_all add: brelse_opt_def quiet_ops [OF q])
  then show ?thesis using False cursor_load(2) [OF c False]
    by (simp add: find_load_def DIR_ENTRIES_PER_BLOCK_def Let_def quiet_ops [OF q] place_def algebra_simps)
qed

lemma find_upt_step: "i < n \<Longrightarrow> List.find P [i..<n] = (if P i then Some i else List.find P [i + 1..<n])"
  by (simp add: upt_conv_Cons)

lemma find_upt_skip: "(\<And>j. i \<le> j \<Longrightarrow> j < m \<Longrightarrow> \<not> P j) \<Longrightarrow> i \<le> m \<Longrightarrow> List.find P [i..<n] = List.find P [m..<n]"
proof (induction "m - i" arbitrary: i)
  case (Suc d)
  show ?case
  proof (cases "i < n")
    case True
    have "\<not> P i" using Suc.prems Suc.hyps(2) by simp
    moreover have "List.find P [i + 1..<n] = List.find P [m..<n]" by (rule Suc.hyps(1)) (use Suc.prems Suc.hyps(2) in auto)
    ultimately show ?thesis using find_upt_step [OF True, of P] by simp
  qed (use Suc.prems in simp)
qed simp

lemma entry_at_bset [simp]: "entry_at zone buf (bset s c) i = entry_at zone buf s i" by (simp add: entry_at_def)

lemma find_loop_quiet:
  assumes q: "quiet E dir zone buf"
  shows "cursor zone buf i bh k \<Longrightarrow>
    find_loop E dir name len n i bh k (bset s b) =
      (let r = List.find (\<lambda>i. zone (i div 64) \<noteq> 0 \<and> match len name (entry_at zone buf s i)) [i..<n]
       in (map_option (place zone buf) r, bset s (b + got r - got bh)))"
proof (induction "n - i" arbitrary: i bh k b rule: less_induct)
  case less
  let ?P = "\<lambda>i. zone (i div 64) \<noteq> 0 \<and> match len name (entry_at zone buf s i)"
  show ?case
  proof (cases "i < n")
    case False
    have "brelse_opt E bh (bset s b) = bset s (b - got bh)" by (cases bh) (simp_all add: brelse_opt_def quiet_ops [OF q])
    with False show ?thesis by (simp add: find_loop.simps [of E dir name len n i])
  next
    case True
    have l: "find_load E dir i bh k (bset s b) =
      (if zone (i div 64) = 0 then (None, 64, bset s (b - got bh))
       else (Some (fst (place zone buf i)), i mod 64, bset s (b + 1 - got bh)))"
      by (rule find_load_quiet [OF q less.prems])
    show ?thesis
    proof (cases "zone (i div 64) = 0")
      case z: True
      have nk: "\<not> k < 64" using cursor_load(1) [OF less.prems] z by blast
      have "\<not> ?P j" if "i \<le> j" "j < i + 64" for j
      proof -
        have "64 * (i div 64) = i" using cursor_load(2) [OF less.prems nk] by auto
        then have "j div 64 = i div 64" using that by (intro div_nat_eqI) simp_all
        with z show ?thesis by simp
      qed
      then have e: "List.find ?P [i..<n] = List.find ?P [i + 64..<n]" by (rule find_upt_skip [OF _ le_add1])
      have "find_loop E dir name len n i bh k (bset s b) = find_loop E dir name len n (i + 64) None 64 (bset s (b - got bh))"
        using True z l by (simp add: find_loop.simps [of E dir name len n i] DIR_ENTRIES_PER_BLOCK_def)
      also have "\<dots> = (let r = List.find ?P [i + 64..<n] in (map_option (place zone buf) r, bset s (b - got bh + got r - got (None :: nat option))))"
        by (rule less.hyps) (use True cursor_load(2,3) [OF less.prems nk] in simp_all)
      finally show ?thesis unfolding e by (simp add: Let_def algebra_simps)
    next
      case nz: False
      have ent: "entry (bset s c) (fst (place zone buf i)) (i mod 64) = entry_at zone buf s i" for c by (simp add: place_def entry_at_def)
      show ?thesis
      proof (cases "match len name (entry_at zone buf s i)")
        case m: True
        have "place zone buf i = (fst (place zone buf i), i mod 64)" by (simp add: place_def)
        then show ?thesis using True nz l m find_upt_step [OF True, of ?P] ent
          by (simp add: find_loop.simps [of E dir name len n i] Let_def)
      next
        case nm: False
        have "find_loop E dir name len n i bh k (bset s b) =
            find_loop E dir name len n (i + 1) (Some (fst (place zone buf i))) (i mod 64 + 1) (bset s (b + 1 - got bh))"
          using True nz l nm ent by (simp add: find_loop.simps [of E dir name len n i])
        also have "\<dots> = (let r = List.find ?P [i + 1..<n] in (map_option (place zone buf) r, bset s (b + 1 - got bh + got r - got (Some (fst (place zone buf i))))))"
          by (rule less.hyps) (use True cursor_load(4) [OF less.prems nz] in simp_all)
        finally show ?thesis using find_upt_step [OF True, of ?P] nm by (simp add: Let_def algebra_simps)
      qed
    qed
  qed
qed

lemma cursor_0: "zone 0 \<noteq> 0 \<Longrightarrow> cursor zone buf 0 (Some (buf (zone 0))) 0"
  unfolding cursor_def by (intro disjI1 exI [of _ 0]) simp

definition dot_dot_name :: "nat \<Rightarrow> u8 list \<Rightarrow> bool" where
  "dot_dot_name len name \<longleftrightarrow> min len NAME_LEN = 2 \<and> get_fs_byte name = 0x2e \<and> get_fs_byte (tl name) = 0x2e"

lemma find_entry_quiet:
  assumes q: "quiet E dir zone buf" and z: "i_zone (inodes s dir) ! 0 = zone 0" "zone 0 \<noteq> 0"
    and n: "0 < len" "\<not> dot_dot_name len name"
  shows "find_entry E dir name len s =
    (let r = lookup_name zone buf (unat (i_size (inodes s dir)) div 16) name (min len NAME_LEN) s
     in (dir, map_option (place zone buf) r, bset s (b_held s + got r)))"
proof -
  have s: "bset s (b_held s) = s" by simp
  have qb: "bread E d b s = (Some (buf b), bset s (b_held s + 1))" for d b using quiet_ops(3) [OF q, where s = s and c = "b_held s"] s by simp
  have "min len NAME_LEN \<noteq> 0" using n(1) by (simp add: NAME_LEN_def)
  then show ?thesis using n z
    by (simp add: find_entry_def dot_dot_name_def [symmetric] Let_def qb lookup_name_def
        find_loop_quiet [OF q cursor_0 [of zone, OF z(2)]])
qed

section \<open>Adding a name\<close>

text \<open>What \<open>add_entry\<close> leaves: entry \<open>i\<close> has the name, and the directory is longer when the entry was behind its end.\<close>

definition added :: "nat \<Rightarrow> (nat \<times> nat) \<Rightarrow> nat \<Rightarrow> u8 list \<Rightarrow> nat \<Rightarrow> fs \<Rightarrow> fs" where
  "added dir p i name len s =
     (let s = grow_dir dir i (fst p) (snd p) s in
      dirty_buffer (fst p) (upd_entry (fst p) (snd p) (\<lambda>de. de\<lparr>de_name := entry_name len name\<rparr>)
        (upd_inode dir (\<lambda>x. x\<lparr>i_mtime := current_time s\<rparr>) s)))"

lemma grow_dir_bset: "grow_dir dir i b k (bset s c) = bset (grow_dir dir i b k s) c"
  "added dir p i name len (bset s c) = bset (added dir p i name len s) c"
  by (simp_all add: grow_dir_def upd_inode_def upd_entry_def added_def dirty_buffer_def Let_def)

lemma add_load_quiet:
  assumes q: "quiet E dir zone buf" and c: "cursor zone buf i bh k" and z: "zone (i div 64) \<noteq> 0"
  shows "(if k < DIR_ENTRIES_PER_BLOCK then (Some (bh, k), bset s b)
         else
           (let s = brelse_opt E bh (bset s b); (block, s) = create_block E dir (i div DIR_ENTRIES_PER_BLOCK) s in
            if block = 0 then (None, s)
            else (case bread E (i_dev (inodes s dir)) block s of (None, s) \<Rightarrow> (Some (None, k), s) | (Some b, s) \<Rightarrow> (Some (Some b, 0), s))))
     = (Some (Some (fst (place zone buf i)), i mod 64), bset s (b + 1 - got bh))"
proof (cases "k < 64")
  case True
  then show ?thesis using cursor_load(1) [OF c True] by (simp add: DIR_ENTRIES_PER_BLOCK_def)
next
  case False
  have "brelse_opt E bh (bset s b) = bset s (b - got bh)" by (cases bh) (simp_all add: brelse_opt_def quiet_ops [OF q])
  then show ?thesis using False cursor_load(2) [OF c False] z
    by (simp add: DIR_ENTRIES_PER_BLOCK_def Let_def quiet_ops [OF q] place_def algebra_simps)
qed

lemma add_loop_step:
  assumes q: "quiet E dir zone buf" and c: "cursor zone buf i bh k" and z: "zone (i div 64) \<noteq> 0"
  shows "add_loop E dir name len i bh k (bset s b) =
    (let p = place zone buf i; t = grow_dir dir i (fst p) (snd p) s in
     if de_inode (entry t (fst p) (snd p)) = 0 then Some (Some p, bset (added dir p i name len s) (b + 1 - got bh))
     else add_loop E dir name len (i + 1) (Some (fst p)) (i mod 64 + 1) (bset t (b + 1 - got bh)))"
proof -
  have "snd (place zone buf i) = i mod 64" by (simp add: place_def)
  then show ?thesis
    by (subst add_loop.simps)
      (simp add: add_load_quiet [OF q c z, where s = s and b = b] grow_dir_bset Let_def added_def upd_inode_def upd_entry_def dirty_buffer_def
        prod.expand flip: prod.collapse)
qed

text \<open>All blocks of the directory are there, up to the one of entry \<open>n\<close>, the first behind its end.\<close>

definition dir_ok :: "nat \<Rightarrow> (nat \<Rightarrow> u16) \<Rightarrow> (u16 \<Rightarrow> nat) \<Rightarrow> nat \<Rightarrow> fs \<Rightarrow> bool" where
  "dir_ok dir zone buf n s \<longleftrightarrow>
     i_zone (inodes s dir) ! 0 = zone 0 \<and> i_size (inodes s dir) = of_nat (16 * n) \<and> 16 * n + 16 < 4294967296 \<and>
     (\<forall>k \<le> n div 64. zone k \<noteq> 0 \<and> length (b_data (buffers s (buf (zone k)))) = 64) \<and>
     inj_on (\<lambda>k. buf (zone k)) {0..n div 64}"

lemma dir_ok_zone: "dir_ok dir zone buf n s \<Longrightarrow> i \<le> n \<Longrightarrow> zone (i div 64) \<noteq> 0"
  by (simp add: dir_ok_def div_le_mono)

lemma grow_not: "dir_ok dir zone buf n s \<Longrightarrow> i < n \<Longrightarrow> grow_dir dir i b k s = s"
  by (simp add: grow_dir_def dir_ok_def word_le_nat_alt unat_of_nat del: of_nat_mult)

lemma add_loop_quiet:
  assumes q: "quiet E dir zone buf" and d: "dir_ok dir zone buf n s" and m: "m \<le> n"
    and free: "m = n \<or> de_inode (entry_at zone buf s m) = 0"
  shows "cursor zone buf i bh k \<Longrightarrow> i \<le> m \<Longrightarrow> (\<forall>j. i \<le> j \<and> j < m \<longrightarrow> de_inode (entry_at zone buf s j) \<noteq> 0) \<Longrightarrow>
    add_loop E dir name len i bh k (bset s b) = Some (Some (place zone buf m), bset (added dir (place zone buf m) m name len s) (b + 1 - got bh))"
proof (induction "m - i" arbitrary: i bh k b)
  case 0
  then have i: "i = m" by simp
  let ?p = "place zone buf m" and ?t = "grow_dir dir m (fst (place zone buf m)) (snd (place zone buf m)) s"
  have "de_inode (entry ?t (fst ?p) (snd ?p)) = 0"
  proof (cases "m = n")
    case True
    have "length (b_data (buffers s (fst ?p))) = 64" using d m by (simp add: dir_ok_def place_def div_le_mono)
    moreover have "snd ?p < 64" by (simp add: place_def)
    ultimately show ?thesis using True d by (simp add: mult.commute grow_dir_def dir_ok_def upd_inode_def upd_entry_def)
  next
    case False
    then have "grow_dir dir m b k s = s" for b k using grow_not [OF d] m by simp
    then show ?thesis using free False by (simp add: entry_at_def place_def)
  qed
  then show ?case using add_loop_step [OF q "0.prems"(1) dir_ok_zone [OF d], where name = name and len = len and s = s and b = b] i m by (simp add: Let_def)
next
  case (Suc x)
  have i: "i < m" "i < n" using Suc.hyps(2) m by simp_all
  have g: "grow_dir dir i b k s = s" for b k using grow_not [OF d i(2)] .
  have nz: "de_inode (entry s (fst (place zone buf i)) (snd (place zone buf i))) \<noteq> 0"
    using Suc.prems(3) i by (auto simp: entry_at_def place_def)
  have z: "zone (i div 64) \<noteq> 0" using dir_ok_zone [OF d] i by simp
  have "add_loop E dir name len i bh k (bset s b) =
      add_loop E dir name len (i + 1) (Some (fst (place zone buf i))) (i mod 64 + 1) (bset s (b + 1 - got bh))"
    using add_loop_step [OF q Suc.prems(1) z, where name = name and len = len and s = s and b = b] nz by (simp add: Let_def g)
  also have "\<dots> = Some (Some (place zone buf m), bset (added dir (place zone buf m) m name len s)
      (b + 1 - got bh + 1 - got (Some (fst (place zone buf i)))))"
    by (rule Suc.hyps(1)) (use Suc.hyps(2) Suc.prems cursor_load(4) [OF Suc.prems(1) z] i in auto)
  finally show ?case by simp
qed

lemma place_inj:
  assumes "dir_ok dir zone buf n s" "i \<le> n" "j \<le> n" "place zone buf i = place zone buf j" shows "i = j"
proof -
  have "i div 64 \<in> {0..n div 64}" "j div 64 \<in> {0..n div 64}" using assms(2,3) by (simp_all add: div_le_mono)
  then have "i div 64 = j div 64" using assms(1,4) inj_onD [of "\<lambda>k. buf (zone k)"] unfolding dir_ok_def place_def by blast
  moreover have "i mod 64 = j mod 64" using assms(4) by (simp add: place_def)
  ultimately show "i = j" by (metis div_mult_mod_eq)
qed

text \<open>The directory after the name is added and the entry is given an inode number.\<close>

definition named :: "fs_ops \<Rightarrow> nat \<Rightarrow> (nat \<times> nat) \<Rightarrow> nat \<Rightarrow> u8 list \<Rightarrow> nat \<Rightarrow> u16 \<Rightarrow> fs \<Rightarrow> fs" where
  "named E dir p m name len nr s = set_entry E (fst p) (snd p) nr (added dir p m name len s)"

lemma named_inode:
  "i_zone (inodes (named E dir p m name len nr s) dir) = i_zone (inodes s dir)"
  "i_size (inodes (named E dir p m name len nr s) dir) =
     (if of_nat (m * 16) \<ge> i_size (inodes s dir) then of_nat ((m + 1) * 16) else i_size (inodes s dir))"
  by (simp_all add: named_def added_def set_entry_def upd_entry_def dirty_buffer_def upd_inode_def grow_dir_def Let_def)

lemma upd_entry_at:
  "entry (upd_entry b k f s) b' k' = (if b' = b \<and> k' = k \<and> k < length (b_data (buffers s b)) then f (entry s b k) else entry s b' k')"
  "length (b_data (buffers (upd_entry b k f s) b')) = length (b_data (buffers s b'))"
proof -
  have "xs[k := v] ! k' = (if k' = k \<and> k < length xs then v else xs ! k')" for xs and v :: dir_entry
    by (cases "k < length xs") (auto simp: nth_list_update list_update_beyond)
  then show "entry (upd_entry b k f s) b' k' = (if b' = b \<and> k' = k \<and> k < length (b_data (buffers s b)) then f (entry s b k) else entry s b' k')"
    by (simp add: upd_entry_def)
qed (simp add: upd_entry_def)

lemma other_entry:
  "b_data (buffers (upd_inode i g s) b) = b_data (buffers s b)" "b_data (buffers (dirty_buffer c s) b) = b_data (buffers s b)"
  by (simp_all add: upd_inode_def dirty_buffer_def)

lemma grow_dir_at:
  "entry (grow_dir dir i b k s) b' k' = (if b' = b \<and> k' = k \<and> k < length (b_data (buffers s b)) \<and> of_nat (i * 16) \<ge> i_size (inodes s dir)
     then (entry s b k)\<lparr>de_inode := 0\<rparr> else entry s b' k')"
  "length (b_data (buffers (grow_dir dir i b k s) b')) = length (b_data (buffers s b'))"
  unfolding grow_dir_def by (simp_all add: other_entry upd_entry_at)

lemma named_entry:
  assumes "snd p < length (b_data (buffers s (fst p)))"
  shows "entry (named E dir p m name len nr s) (fst p) (snd p) = \<lparr>de_inode = nr, de_name = entry_name len name\<rparr>"
    "(b, k) \<noteq> p \<Longrightarrow> entry (named E dir p m name len nr s) b k = entry s b k"
proof -
  obtain b0 k0 where p: "p = (b0, k0)" by (cases p)
  let ?g = "grow_dir dir m b0 k0 s"
  have e: "entry (named E dir p m name len nr s) b' k' =
      (if b' = b0 \<and> k' = k0 then (entry ?g b0 k0)\<lparr>de_name := entry_name len name\<rparr>\<lparr>de_inode := nr\<rparr> else entry s b' k')" for b' k'
    using assms p unfolding named_def added_def set_entry_def Let_def
    by (simp only: p fst_conv snd_conv other_entry upd_entry_at grow_dir_at) auto
  show "entry (named E dir p m name len nr s) (fst p) (snd p) = \<lparr>de_inode = nr, de_name = entry_name len name\<rparr>"
    using e [of b0 k0] by (cases "entry ?g b0 k0") (simp add: p)
  show "(b, k) \<noteq> p \<Longrightarrow> entry (named E dir p m name len nr s) b k = entry s b k" using e [of b k] by (auto simp: p)
qed

lemma entry_name_match:
  assumes "0 < len" "len \<le> NAME_LEN" "nr \<noteq> 0" shows "match len name \<lparr>de_inode = nr, de_name = entry_name len name\<rparr>"
  using assms by (cases "len = NAME_LEN") (simp_all add: match_def entry_name_def list_all_length)

lemma find_upt_first:
  "List.find P [0..<n] = Some m \<longleftrightarrow> m < n \<and> P m \<and> (\<forall>j < m. \<not> P j)"
  unfolding find_Some_iff by (auto simp: nth_append)

lemma named_lookup:
  assumes d: "dir_ok dir zone buf n s" and m: "m \<le> n" and l: "0 < len" "len \<le> NAME_LEN" and nr: "nr \<noteq> 0"
    and none: "lookup_name zone buf n name len s = None"
  shows "lookup_name zone buf (if m = n then n + 1 else n) name len (named E dir (place zone buf m) m name len nr s) = Some m"
proof -
  let ?s = "named E dir (place zone buf m) m name len nr s"
  have len: "snd (place zone buf m) < length (b_data (buffers s (fst (place zone buf m))))"
    using d m by (simp add: place_def dir_ok_def div_le_mono)
  have "entry_at zone buf ?s m = \<lparr>de_inode = nr, de_name = entry_name len name\<rparr>"
    using named_entry(1) [OF len, of E dir m name len nr] by (simp add: entry_at_def place_def)
  then have mm: "match len name (entry_at zone buf ?s m)" using entry_name_match [OF l nr] by simp
  have "\<not> match len name (entry_at zone buf ?s j)" if "j < m" for j
  proof -
    have "j < n" "place zone buf j \<noteq> place zone buf m" using that m place_inj [OF d, of j m] by auto
    then have "entry_at zone buf ?s j = entry_at zone buf s j"
      using named_entry(2) [OF len, of "fst (place zone buf j)" "snd (place zone buf j)"] by (simp add: entry_at_def place_def)
    moreover have "\<not> match len name (entry_at zone buf s j)"
      using none \<open>j < n\<close> dir_ok_zone [OF d, of j] unfolding lookup_name_def find_None_iff by auto
    ultimately show ?thesis by simp
  qed
  then show ?thesis using mm dir_ok_zone [OF d m] m unfolding lookup_name_def find_upt_first by auto
qed

lemma first_free:
  obtains m where "m \<le> n" "m = n \<or> de_inode (entry_at zone buf s m) = 0" "\<forall>j < m. de_inode (entry_at zone buf s j) \<noteq> 0"
proof -
  define m where "m = (LEAST i. i = n \<or> de_inode (entry_at zone buf s i) = 0)"
  have "m = n \<or> de_inode (entry_at zone buf s m) = 0" unfolding m_def by (rule LeastI_ex) blast
  moreover have "m \<le> n" unfolding m_def by (rule Least_le) simp
  moreover have "\<forall>j < m. de_inode (entry_at zone buf s j) \<noteq> 0" unfolding m_def by (auto dest: not_less_Least)
  ultimately show ?thesis using that by blast
qed

lemma add_entry_quiet:
  assumes q: "quiet E dir zone buf" and d: "dir_ok dir zone buf n s" and l: "0 < len"
  obtains m where "m \<le> n" "m = n \<or> de_inode (entry_at zone buf s m) = 0"
    "add_entry E dir name len s = Inr (Some (place zone buf m), bset (added dir (place zone buf m) m name (min len NAME_LEN) s) (b_held s + 1))"
proof -
  obtain m where m: "m \<le> n" "m = n \<or> de_inode (entry_at zone buf s m) = 0" "\<forall>j < m. de_inode (entry_at zone buf s j) \<noteq> 0"
    by (rule first_free)
  have z: "zone 0 \<noteq> 0" "i_zone (inodes s dir) ! 0 = zone 0" using d by (simp_all add: dir_ok_def)
  have s: "bset s (b_held s) = s" by simp
  have qb: "bread E d b s = (Some (buf b), bset s (b_held s + 1))" for d b
    using quiet_ops(3) [OF q, where s = s and c = "b_held s"] s by simp
  have "add_loop E dir name (min len NAME_LEN) 0 (Some (buf (zone 0))) 0 (bset s (b_held s + 1)) =
      Some (Some (place zone buf m), bset (added dir (place zone buf m) m name (min len NAME_LEN) s) (b_held s + 1 + 1 - got (Some (buf (zone 0)))))"
    by (rule add_loop_quiet [OF q d m(1,2) cursor_0 [of zone, OF z(1)]]) (use m(3) in simp_all)
  moreover have "min len NAME_LEN \<noteq> 0" using l by (simp add: NAME_LEN_def)
  ultimately have "add_entry E dir name len s = Inr (Some (place zone buf m), bset (added dir (place zone buf m) m name (min len NAME_LEN) s) (b_held s + 1))"
    using z by (simp add: add_entry_def Let_def qb)
  with m(1,2) that show ?thesis by blast
qed

section \<open>A small disk\<close>

text \<open>Inode 1 is a directory with \<open>"."\<close> and \<open>".."\<close> in block 5; the call that looks for a free inode gets number 7.\<close>

definition ops0 :: fs_ops where
  "ops0 = \<lparr>op_iget = (\<lambda>d n s. (Some (unat n), s)), op_iput = (\<lambda>i s. s), op_new_inode = (\<lambda>d s. (Some 7, s)),
     op_bread = (\<lambda>d b s. (Some (unat b), s)), op_brelse = (\<lambda>b s. s), op_bmap = (\<lambda>i k s. (if k = 0 then 5 else 0, s)),
     op_create_block = (\<lambda>i k s. (if k = 0 then 5 else 0, s)), op_new_block = (\<lambda>d s. (0, s)), op_free_block = (\<lambda>d b s. s),
     op_truncate = (\<lambda>i s. s), op_s_imount = (\<lambda>d s. None)\<rparr>"

definition inode0 :: m_inode where
  "inode0 = \<lparr>i_mode = 0x41ff, i_uid = 0, i_size = 32, i_mtime = 0, i_gid = 0, i_nlinks = 2, i_zone = [5, 0, 0, 0, 0, 0, 0, 0, 0],
     i_atime = 0, i_ctime = 0, i_dev = 1, i_num = 1, i_count = 1, i_dirt = False\<rparr>"

definition entries0 :: "dir_entry list" where
  "entries0 = [\<lparr>de_inode = 1, de_name = 0x2e # replicate 13 0\<rparr>, \<lparr>de_inode = 1, de_name = 0x2e # 0x2e # replicate 12 0\<rparr>] @
     replicate 62 \<lparr>de_inode = 0, de_name = replicate 14 0\<rparr>"

definition fs0 :: fs where
  "fs0 = \<lparr>inodes = (\<lambda>_. inode0), buffers = (\<lambda>_. \<lparr>b_data = entries0, b_dirt = False\<rparr>), root = Some 1, pwd = Some 1, euid = 0,
     egid = 0, umask = 0, current_time = 0, printed = [], i_held = 0, b_held = 0\<rparr>"

definition zone0 :: "nat \<Rightarrow> u16" where "zone0 k = (if k = 0 then 5 else 0)"

lemma quiet0: "quiet ops0 1 zone0 unat" by (simp add: quiet_def ops0_def zone0_def)

lemma entries0_simps: "length entries0 = 64" "entries0 ! 0 = \<lparr>de_inode = 1, de_name = 0x2e # replicate 13 0\<rparr>"
  "entries0 ! 1 = \<lparr>de_inode = 1, de_name = 0x2e # 0x2e # replicate 12 0\<rparr>"
  "2 \<le> k \<Longrightarrow> k < 64 \<Longrightarrow> de_inode (entries0 ! k) = 0"
  by (simp_all add: entries0_def nth_append)

lemma dir_ok0: "dir_ok 1 zone0 unat 2 fs0"
  by (simp add: dir_ok_def fs0_def inode0_def zone0_def entries0_simps)

lemma fs0_lookup: "fst (snd (find_entry ops0 1 [0x61] 1 fs0)) = None" "\<not> dot_dot_name 1 [0x61]"
  by code_simp+

section \<open>Properties\<close>



text \<open>Looking up a name other than \<open>".."\<close> is a search for the first entry with this name in the list of the
  directory's entries, blocks that are missing left out; it returns the entry's place, with its buffer held.\<close>

theorem find_entry_first:
  assumes q: "quiet E dir zone buf" and z: "i_zone (inodes s dir) ! 0 = zone 0" "zone 0 \<noteq> 0"
    and n: "0 < len" "\<not> dot_dot_name len name"
  shows "case find_entry E dir name len s of
      (d, None, t) \<Rightarrow> d = dir \<and> t = s \<and>
        (\<forall>i < unat (i_size (inodes s dir)) div 16. zone (i div 64) = 0 \<or> \<not> match (min len NAME_LEN) name (entry_at zone buf s i))
    | (d, Some p, t) \<Rightarrow> d = dir \<and> t = s\<lparr>b_held := b_held s + 1\<rparr> \<and>
        (\<exists>i < unat (i_size (inodes s dir)) div 16. p = place zone buf i \<and>
           zone (i div 64) \<noteq> 0 \<and> match (min len NAME_LEN) name (entry_at zone buf s i) \<and>
           (\<forall>j < i. zone (j div 64) = 0 \<or> \<not> match (min len NAME_LEN) name (entry_at zone buf s j)))"
proof (cases "lookup_name zone buf (unat (i_size (inodes s dir)) div 16) name (min len NAME_LEN) s")
  case None
  then have "find_entry E dir name len s = (dir, None, s)" using find_entry_quiet [OF assms] by (simp add: Let_def)
  then show ?thesis using None unfolding lookup_name_def find_None_iff by auto
next
  case (Some i)
  then have "find_entry E dir name len s = (dir, Some (place zone buf i), s\<lparr>b_held := b_held s + 1\<rparr>)"
    using find_entry_quiet [OF assms] by (simp add: Let_def)
  then show ?thesis using Some unfolding lookup_name_def find_upt_first by auto
qed

theorem find_entry_first_witness:
  "case find_entry ops0 1 [0x61] 1 fs0 of
      (d, None, t) \<Rightarrow> d = 1 \<and> t = fs0 \<and>
        (\<forall>i < unat (i_size (inodes fs0 1)) div 16. zone0 (i div 64) = 0 \<or> \<not> match (min 1 NAME_LEN) [0x61] (entry_at zone0 unat fs0 i))
    | (d, Some p, t) \<Rightarrow> d = 1 \<and> t = fs0\<lparr>b_held := b_held fs0 + 1\<rparr> \<and>
        (\<exists>i < unat (i_size (inodes fs0 1)) div 16. p = place zone0 unat i \<and>
           zone0 (i div 64) \<noteq> 0 \<and> match (min 1 NAME_LEN) [0x61] (entry_at zone0 unat fs0 i) \<and>
           (\<forall>j < i. zone0 (j div 64) = 0 \<or> \<not> match (min 1 NAME_LEN) [0x61] (entry_at zone0 unat fs0 j)))"
  by (rule find_entry_first [OF quiet0 _ _ _ fs0_lookup(2)]) (simp_all add: fs0_def inode0_def zone0_def)


lemma open0: "\<exists>t. open_namei ops0 [0x2e] 0 0 fs0 = Inr (Inr 1, t)"
proof -
  have "(case open_namei ops0 [0x2e] 0 0 fs0 of Inr (Inr i, t) \<Rightarrow> i = 1 | _ \<Rightarrow> False)" by code_simp
  then show ?thesis by (auto split: sum.splits prod.splits)
qed


section \<open>empty_dir\<close>

lemma empty_loop_free:
  assumes "\<forall>j. k \<le> j \<and> j < 64 \<longrightarrow> de_inode (entry s b j) = 0" "k \<le> 64" "nr + (64 - k) \<le> len"
  shows "empty_loop E i len nr b k s = empty_loop E i len (nr + (64 - k)) b 64 s"
  using assms
proof (induction "64 - k" arbitrary: k nr)
  case (Suc x)
  have k: "k < 64" "nr < len" using Suc.hyps(2) Suc.prems by simp_all
  have "de_inode (entry s b k) = 0" using Suc.prems(1) k(1) by simp
  then have "empty_loop E i len nr b k s = empty_loop E i len (nr + 1) b (k + 1) s"
    using k by (simp add: empty_loop.simps [of E i len nr] DIR_ENTRIES_PER_BLOCK_def)
  also have "\<dots> = empty_loop E i len (nr + 1 + (64 - (k + 1))) b 64 s"
    by (rule Suc.hyps(1)) (use Suc.hyps(2) Suc.prems k in auto)
  also have "nr + 1 + (64 - (k + 1)) = nr + (64 - k)" using k(1) by simp
  finally show ?case .
qed simp

text \<open>\<open>empty_dir\<close>, which \<open>rmdir\<close> uses, is not balanced: it keeps the buffer of a directory whose first entry is not the
  directory itself, and when a block of the directory is missing it releases the buffer before that block twice.\<close>

theorem empty_dir_unbalanced:
  assumes q: "quiet E i zone buf" and z: "i_zone (inodes s i) ! 0 = zone 0" "zone 0 \<noteq> 0"
    and n: "2 \<le> unat (i_size (inodes s i)) div 16"
  shows "(de_inode (entry_at zone buf s 0) \<noteq> i_num (inodes s i) \<longrightarrow>
      fst (empty_dir E i s) = False \<and> b_held (snd (empty_dir E i s)) = b_held s + 1) \<and>
    (de_inode (entry_at zone buf s 0) = i_num (inodes s i) \<and> c_str (de_name (entry_at zone buf s 0)) = [0x2e] \<and>
     de_inode (entry_at zone buf s 1) \<noteq> 0 \<and> c_str (de_name (entry_at zone buf s 1)) = [0x2e, 0x2e] \<and>
     (\<forall>j. 2 \<le> j \<and> j < 64 \<longrightarrow> de_inode (entry_at zone buf s j) = 0) \<and>
     64 < unat (i_size (inodes s i)) div 16 \<and> unat (i_size (inodes s i)) div 16 \<le> 128 \<and> zone 1 = 0 \<longrightarrow>
      fst (empty_dir E i s) = True \<and> b_held (snd (empty_dir E i s)) = b_held s - 1)"
proof -
  let ?n = "unat (i_size (inodes s i)) div 16" and ?b = "buf (zone 0)"
  have s: "bset s (b_held s) = s" by simp
  have qb: "bread E d b s = (Some (buf b), bset s (b_held s + 1))" for d b
    using quiet_ops(3) [OF q, where s = s and c = "b_held s"] s by simp
  have at: "entry s ?b j = entry_at zone buf s j" if "j < 64" for j using that by (simp add: entry_at_def)
  have e: "empty_dir E i s = (if de_inode (entry_at zone buf s 0) \<noteq> i_num (inodes s i) \<or> de_inode (entry_at zone buf s 1) = 0 \<or>
      c_str (de_name (entry_at zone buf s 0)) \<noteq> [0x2e] \<or> c_str (de_name (entry_at zone buf s 1)) \<noteq> [0x2e, 0x2e]
    then bad_directory (bset s (b_held s + 1)) else empty_loop E i ?n 2 ?b 2 (bset s (b_held s + 1)))"
    using n z at [of 0] at [of 1] by (simp add: empty_dir_def Let_def qb)
  have l: "empty_loop E i ?n 2 ?b 2 (bset s c) = (True, bset s (c - 2))"
    if "\<forall>j. 2 \<le> j \<and> j < 64 \<longrightarrow> de_inode (entry_at zone buf s j) = 0" "64 < ?n" "?n \<le> 128" "zone 1 = 0" for c
  proof -
    have "empty_loop E i ?n 2 ?b 2 (bset s c) = empty_loop E i ?n (2 + (64 - 2)) ?b 64 (bset s c)"
      by (rule empty_loop_free) (use that at in simp_all)
    also have "\<dots> = empty_loop E i ?n 128 ?b 64 (bset s (c - 1))"
      using that by (subst empty_loop.simps) (simp add: DIR_ENTRIES_PER_BLOCK_def quiet_ops [OF q])
    also have "\<dots> = (True, bset s (c - 2))" using that(3) by (subst empty_loop.simps) (simp add: quiet_ops [OF q])
    finally show ?thesis .
  qed
  show ?thesis using l [of "b_held s + 1"] by (auto simp: e bad_directory_def print_def)
qed

theorem empty_dir_unbalanced_witness:
  "fst (empty_dir ops0 1 (upd_inode 1 (\<lambda>x. x\<lparr>i_num := 2\<rparr>) fs0)) = False \<and>
   b_held (snd (empty_dir ops0 1 (upd_inode 1 (\<lambda>x. x\<lparr>i_num := 2\<rparr>) fs0))) = 1"
proof -
  let ?s = "upd_inode 1 (\<lambda>x. x\<lparr>i_num := 2\<rparr>) fs0"
  have a: "i_zone (inodes ?s 1) ! 0 = zone0 0" "zone0 0 \<noteq> 0" "2 \<le> unat (i_size (inodes ?s 1)) div 16"
    by (simp_all add: upd_inode_def fs0_def inode0_def zone0_def)
  have "de_inode (entry_at zone0 unat ?s 0) \<noteq> i_num (inodes ?s 1)" "b_held ?s = 0"
    by (simp_all add: upd_inode_def fs0_def entry_at_def zone0_def entries0_simps)
  then show ?thesis using empty_dir_unbalanced [OF quiet0 a] by simp
qed

end
