(* ===== verification/Prodcons.thy ===== *)
theory Prodcons imports Kprelude begin

text \<open>
  \<open>pc.c\<close> of Lab 5: a producer and four consumers that share a ring buffer in a file, with three semaphores. Each
  system call is a step of one process, and the steps of the processes interleave in any order. The file offset is
  shared, since the processes inherit the open file. A file of 4-byte items is a function from item numbers; the
  counters stay below 513, so that \<open>nat\<close> stands for the unsigned numbers.

  Every \<open>lseek\<close>, \<open>read\<close> and \<open>write\<close> may fail; the process then prints a message and exits where it stands.
\<close>

definition CHILD_NUMBER :: nat where "CHILD_NUMBER = 4"
definition BUFFER_SIZE :: nat where "BUFFER_SIZE = 10"
definition DATA_SIZE :: nat where "DATA_SIZE = 4"
definition MAX_DATA_NUMBER :: nat where "MAX_DATA_NUMBER = 512"

section \<open>The state\<close>

datatype ploc = P_test | P_empty | P_mutex | P_seek | P_write | P_print | P_post_mutex | P_post_full | P_done

datatype cloc = C_test | C_full | C_mutex | C_seek0 | C_read0 | C_check | C_seek1 | C_read1 | C_print | C_seek2 | C_write
  | C_last | C_wake | C_post_mutex | C_post_empty | C_exit

record producer =
  p_loc :: ploc
  p_failed :: bool
  p_data :: nat
  p_pos :: nat

record consumer =
  c_loc :: cloc
  c_failed :: bool
  c_pos :: nat
  c_data :: nat
  c_i :: nat
  c_j :: nat

datatype message = Produced nat nat | Consumed nat nat nat | Finished nat

record pc =
  bufferMutex :: nat
  empty :: nat
  full :: nat
  items :: "nat \<Rightarrow> nat"
  offset :: nat
  prod :: producer
  cons :: "consumer list"
  printed :: "message list"

text \<open>\<open>lseek\<close>, and reading and writing one item at the offset.\<close>

definition seek :: "nat \<Rightarrow> pc \<Rightarrow> pc" where "seek n s = s\<lparr>offset := n\<rparr>"
definition item_at :: "pc \<Rightarrow> nat" where "item_at s = items s (offset s div DATA_SIZE)"
definition move_on :: "pc \<Rightarrow> pc" where "move_on s = s\<lparr>offset := offset s + DATA_SIZE\<rparr>"
definition write_item :: "nat \<Rightarrow> pc \<Rightarrow> pc" where
  "write_item v s = move_on (s\<lparr>items := (items s)(offset s div DATA_SIZE := v)\<rparr>)"

definition say :: "message \<Rightarrow> pc \<Rightarrow> pc" where "say m s = s\<lparr>printed := printed s @ [m]\<rparr>"

section \<open>The producer\<close>

definition p_goto :: "ploc \<Rightarrow> pc \<Rightarrow> pc" where "p_goto l s = s\<lparr>prod := (prod s)\<lparr>p_loc := l\<rparr>\<rparr>"

definition prod_step :: "pc \<Rightarrow> pc option" where
  "prod_step s =
     (if p_failed (prod s) then None
      else case p_loc (prod s) of
        P_test \<Rightarrow> Some (p_goto (if p_data (prod s) < MAX_DATA_NUMBER then P_empty else P_done) s)
      | P_empty \<Rightarrow> if empty s = 0 then None else Some (p_goto P_mutex (s\<lparr>empty := empty s - 1\<rparr>))
      | P_mutex \<Rightarrow> if bufferMutex s = 0 then None else Some (p_goto P_seek (s\<lparr>bufferMutex := bufferMutex s - 1\<rparr>))
      | P_seek \<Rightarrow> Some (p_goto P_write (seek (p_pos (prod s) mod BUFFER_SIZE * DATA_SIZE) s))
      | P_write \<Rightarrow> Some (p_goto P_print (write_item (p_data (prod s)) s))
      | P_print \<Rightarrow> Some (p_goto P_post_mutex (say (Produced (p_data (prod s)) (p_pos (prod s))) s\<lparr>prod := (prod s)\<lparr>p_pos := p_pos (prod s) + 1\<rparr>\<rparr>))
      | P_post_mutex \<Rightarrow> Some (p_goto P_post_full (s\<lparr>bufferMutex := bufferMutex s + 1\<rparr>))
      | P_post_full \<Rightarrow> Some (p_goto P_test (s\<lparr>full := full s + 1, prod := (prod s)\<lparr>p_data := p_data (prod s) + 1\<rparr>\<rparr>))
      | P_done \<Rightarrow> None)"

definition p_may_fail :: "ploc \<Rightarrow> bool" where "p_may_fail l \<longleftrightarrow> l = P_seek \<or> l = P_write"

section \<open>A consumer\<close>

definition c_upd :: "nat \<Rightarrow> (consumer \<Rightarrow> consumer) \<Rightarrow> pc \<Rightarrow> pc" where
  "c_upd i f s = s\<lparr>cons := (cons s)[i := f (cons s ! i)]\<rparr>"

definition c_goto :: "cloc \<Rightarrow> consumer \<Rightarrow> consumer" where "c_goto l c = c\<lparr>c_loc := l\<rparr>"

definition cons_step :: "nat \<Rightarrow> pc \<Rightarrow> pc option" where
  "cons_step i s =
     (let c = cons s ! i in
      if c_failed c then None
      else case c_loc c of
        C_test \<Rightarrow> Some (c_upd i (c_goto (if c_i c < MAX_DATA_NUMBER then C_full else C_exit)) s)
      | C_full \<Rightarrow> if full s = 0 then None else Some (c_upd i (c_goto C_mutex) (s\<lparr>full := full s - 1\<rparr>))
      | C_mutex \<Rightarrow> if bufferMutex s = 0 then None else Some (c_upd i (c_goto C_seek0) (s\<lparr>bufferMutex := bufferMutex s - 1\<rparr>))
      | C_seek0 \<Rightarrow> Some (c_upd i (c_goto C_read0) (seek (BUFFER_SIZE * DATA_SIZE) s))
      | C_read0 \<Rightarrow> Some (c_upd i (\<lambda>c. c_goto C_check (c\<lparr>c_pos := item_at s\<rparr>)) (move_on s))
      | C_check \<Rightarrow>
          if c_pos c \<ge> MAX_DATA_NUMBER then Some (c_upd i (c_goto C_exit) (say (Finished i) (s\<lparr>bufferMutex := bufferMutex s + 1\<rparr>)))
          else Some (c_upd i (c_goto C_seek1) s)
      | C_seek1 \<Rightarrow> Some (c_upd i (c_goto C_read1) (seek (c_pos c mod BUFFER_SIZE * DATA_SIZE) s))
      | C_read1 \<Rightarrow> Some (c_upd i (\<lambda>c. c_goto C_print (c\<lparr>c_data := item_at s\<rparr>)) (move_on s))
      | C_print \<Rightarrow> Some (c_upd i (\<lambda>c. c_goto C_seek2 (c\<lparr>c_pos := c_pos c + 1\<rparr>)) (say (Consumed i (c_data c) (c_pos c)) s))
      | C_seek2 \<Rightarrow> Some (c_upd i (c_goto C_write) (seek (BUFFER_SIZE * DATA_SIZE) s))
      | C_write \<Rightarrow> Some (c_upd i (c_goto C_last) (write_item (c_pos c) s))
      | C_last \<Rightarrow> Some (c_upd i (\<lambda>c. if c_pos c \<ge> MAX_DATA_NUMBER then c_goto C_wake (c\<lparr>c_j := 0\<rparr>) else c_goto C_post_mutex c) s)
      | C_wake \<Rightarrow>
          if c_j c < CHILD_NUMBER - 1 then Some (c_upd i (\<lambda>c. c\<lparr>c_j := c_j c + 1\<rparr>) (s\<lparr>full := full s + 1\<rparr>))
          else Some (c_upd i (c_goto C_exit) (say (Finished i) (s\<lparr>bufferMutex := bufferMutex s + 1\<rparr>)))
      | C_post_mutex \<Rightarrow> Some (c_upd i (c_goto C_post_empty) (s\<lparr>bufferMutex := bufferMutex s + 1\<rparr>))
      | C_post_empty \<Rightarrow> Some (c_upd i (\<lambda>c. c_goto C_test (c\<lparr>c_i := c_i c + 1\<rparr>)) (s\<lparr>empty := empty s + 1\<rparr>))
      | C_exit \<Rightarrow> None)"

definition c_may_fail :: "cloc \<Rightarrow> bool" where
  "c_may_fail l \<longleftrightarrow> l = C_seek0 \<or> l = C_read0 \<or> l = C_seek1 \<or> l = C_read1 \<or> l = C_seek2 \<or> l = C_write"

section \<open>All processes\<close>

inductive pc_step :: "pc \<Rightarrow> pc \<Rightarrow> bool" where
  producer: "prod_step s = Some t \<Longrightarrow> pc_step s t"
| consumer: "i < length (cons s) \<Longrightarrow> cons_step i s = Some t \<Longrightarrow> pc_step s t"
| producer_fails: "\<not> p_failed (prod s) \<Longrightarrow> p_may_fail (p_loc (prod s)) \<Longrightarrow> pc_step s (s\<lparr>prod := (prod s)\<lparr>p_failed := True\<rparr>\<rparr>)"
| consumer_fails: "i < length (cons s) \<Longrightarrow> \<not> c_failed (cons s ! i) \<Longrightarrow> c_may_fail (c_loc (cons s ! i)) \<Longrightarrow> pc_step s (c_upd i (\<lambda>c. c\<lparr>c_failed := True\<rparr>) s)"

inductive pc_runs :: "pc \<Rightarrow> pc \<Rightarrow> bool" where
  runs_refl: "pc_runs s s"
| runs_step: "pc_runs s t \<Longrightarrow> pc_step t u \<Longrightarrow> pc_runs s u"

section \<open>Beginning and end\<close>

text \<open>The kernel's named semaphores. \<open>sem_open\<close> of an existing name gives the semaphore with the value it has.\<close>

type_synonym sems = "string \<Rightarrow> nat option"

definition sem_open_wrapper :: "string \<Rightarrow> nat \<Rightarrow> sems \<Rightarrow> nat \<times> sems" where
  "sem_open_wrapper name v ks = (case ks name of Some x \<Rightarrow> (x, ks) | None \<Rightarrow> (v, ks(name \<mapsto> v)))"

text \<open>\<open>prelude\<close>: \<open>ok n\<close> says whether its \<open>n\<close>-th call succeeds. The buffer file may exist, with any content.\<close>

definition prelude :: "(nat \<Rightarrow> bool) \<Rightarrow> (nat \<Rightarrow> nat) \<Rightarrow> sems \<Rightarrow> pc option \<times> sems" where
  "prelude ok file ks =
     (if \<not> ok 0 then (None, ks) else let (m, ks) = sem_open_wrapper ''bufferMutex'' 1 ks in
      if \<not> ok 1 then (None, ks) else let (e, ks) = sem_open_wrapper ''empty'' BUFFER_SIZE ks in
      if \<not> ok 2 then (None, ks) else let (f, ks) = sem_open_wrapper ''full'' 0 ks in
      if \<not> ok 3 \<or> \<not> ok 4 \<or> \<not> ok 5 \<or> \<not> ok 6 \<or> \<not> ok 7 then (None, ks)
      else
        (let s = \<lparr>bufferMutex = m, empty = e, full = f, items = file, offset = 0,
                  prod = \<lparr>p_loc = P_test, p_failed = False, p_data = 0, p_pos = 0\<rparr>, cons = [], printed = []\<rparr>
         in (Some (write_item 0 (seek (BUFFER_SIZE * DATA_SIZE) s)), ks)))"

text \<open>After the prelude the parent forks the consumers and goes on as the producer. A \<open>fork\<close> that fails gives -1, which
  the parent takes for a child: there is one consumer less. \<open>ok (8 + i)\<close> says whether the \<open>i\<close>-th \<open>fork\<close> succeeds.\<close>

definition new_consumer :: consumer where
  "new_consumer = \<lparr>c_loc = C_test, c_failed = False, c_pos = 0, c_data = 0, c_i = 0, c_j = 0\<rparr>"

definition main_start :: "(nat \<Rightarrow> bool) \<Rightarrow> (nat \<Rightarrow> nat) \<Rightarrow> sems \<Rightarrow> pc option \<times> sems" where
  "main_start ok file ks =
     (case prelude ok file ks of
        (None, ks) \<Rightarrow> (None, ks)
      | (Some s, ks) \<Rightarrow> (Some (s\<lparr>cons := map (\<lambda>i. new_consumer) (filter (\<lambda>i. ok (8 + i)) [0..<CHILD_NUMBER])\<rparr>), ks))"

text \<open>\<open>main_cleanup\<close> waits for the children and removes the names.\<close>

definition main_cleanup :: "pc \<Rightarrow> sems \<Rightarrow> sems option" where
  "main_cleanup s ks =
     (if p_loc (prod s) = P_done \<and> list_all (\<lambda>c. c_loc c = C_exit \<or> c_failed c) (cons s)
      then Some (ks(''bufferMutex'' := None, ''empty'' := None, ''full'' := None)) else None)"

end
