(* ===== verification/Prodconsprops.thy ===== *)
theory Prodconsprops imports Prodcons begin

text \<open>
  The invariant of the producer and the consumers under every interleaving, failures included, and what follows: the
  items are consumed in order and exactly once, the ring buffer never overflows, and nobody waits for ever unless a
  process has failed.
\<close>

section \<open>Counting\<close>

text \<open>Who holds the mutex, who took an item that is still in the buffer, who has given its place back in the file but
  not to \<open>empty\<close>; and, at the end, who still needs to be woken, and how often the last consumer will post.\<close>

fun c_crit :: "cloc \<Rightarrow> nat" where
  "c_crit C_test = 0" | "c_crit C_full = 0" | "c_crit C_mutex = 0" | "c_crit C_post_empty = 0" | "c_crit C_exit = 0" | "c_crit _ = 1"

fun taking :: "cloc \<Rightarrow> nat" where
  "taking C_mutex = 1" | "taking C_seek0 = 1" | "taking C_read0 = 1" | "taking C_check = 1" | "taking C_seek1 = 1"
| "taking C_read1 = 1" | "taking C_print = 1" | "taking C_seek2 = 1" | "taking C_write = 1" | "taking _ = 0"

fun given :: "cloc \<Rightarrow> nat" where
  "given C_last = 1" | "given C_post_mutex = 1" | "given C_post_empty = 1" | "given _ = 0"

fun shown :: "cloc \<Rightarrow> nat" where "shown C_seek2 = 1" | "shown C_write = 1" | "shown _ = 0"

fun waiting :: "cloc \<Rightarrow> nat" where
  "waiting C_test = 1" | "waiting C_full = 1" | "waiting C_post_mutex = 1" | "waiting C_post_empty = 1" | "waiting _ = 0"

definition left :: "consumer \<Rightarrow> nat" where
  "left c = (if c_loc c = C_last then 3 else if c_loc c = C_wake then 3 - c_j c else 0)"

fun p_crit :: "ploc \<Rightarrow> nat" where
  "p_crit P_seek = 1" | "p_crit P_write = 1" | "p_crit P_print = 1" | "p_crit P_post_mutex = 1" | "p_crit _ = 0"

fun p_before :: "ploc \<Rightarrow> nat" where
  "p_before P_mutex = 1" | "p_before P_seek = 1" | "p_before P_write = 1" | "p_before _ = 0"

fun p_after :: "ploc \<Rightarrow> nat" where
  "p_after P_print = 1" | "p_after P_post_mutex = 1" | "p_after P_post_full = 1" | "p_after _ = 0"

fun p_moved :: "ploc \<Rightarrow> nat" where "p_moved P_post_mutex = 1" | "p_moved P_post_full = 1" | "p_moved _ = 0"

definition total :: "(consumer \<Rightarrow> nat) \<Rightarrow> pc \<Rightarrow> nat" where "total f s = sum_list (map f (cons s))"

lemma sum_list_update: "i < length xs \<Longrightarrow> sum_list (xs[i := v]) + xs ! i = sum_list xs + (v :: nat)"
  by (induction xs arbitrary: i) (auto simp: nth_Cons split: nat.splits)

lemma total_upd: "i < length (cons s) \<Longrightarrow> total f (c_upd i g s) + f (cons s ! i) = total f s + f (g (cons s ! i))"
  using sum_list_update [of i "map f (cons s)" "f (g (cons s ! i))"] by (simp add: total_def c_upd_def map_update)

lemma total_cong: "cons s' = cons s \<Longrightarrow> total f s' = total f s" by (simp add: total_def)

lemma total_ge: "i < length (cons s) \<Longrightarrow> f (cons s ! i) \<le> total f s"
  unfolding total_def using member_le_sum_list [of "f (cons s ! i)" "map f (cons s)"] by simp

section \<open>The invariant\<close>

definition stored :: "pc \<Rightarrow> nat" where "stored s = items s BUFFER_SIZE"
definition written :: "pc \<Rightarrow> nat" where "written s = p_data (prod s) + p_after (p_loc (prod s))"

definition prod_ok :: "pc \<Rightarrow> bool" where
  "prod_ok s \<longleftrightarrow>
     (let p = prod s in
      p_data p \<le> MAX_DATA_NUMBER \<and> (p_loc p = P_done \<longrightarrow> p_data p = MAX_DATA_NUMBER) \<and>
      (p_loc p \<noteq> P_test \<and> p_loc p \<noteq> P_done \<longrightarrow> p_data p < MAX_DATA_NUMBER) \<and>
      p_pos p = p_data p + p_moved (p_loc p) \<and>
      (p_loc p = P_write \<longrightarrow> offset s = p_pos p mod BUFFER_SIZE * DATA_SIZE))"

fun loc_ok :: "nat \<Rightarrow> nat \<Rightarrow> cloc \<Rightarrow> consumer \<Rightarrow> bool" where
  "loc_ok pos off C_read0 c \<longleftrightarrow> off = BUFFER_SIZE * DATA_SIZE"
| "loc_ok pos off C_check c \<longleftrightarrow> c_pos c = pos"
| "loc_ok pos off C_seek1 c \<longleftrightarrow> c_pos c = pos \<and> pos < MAX_DATA_NUMBER"
| "loc_ok pos off C_read1 c \<longleftrightarrow> c_pos c = pos \<and> pos < MAX_DATA_NUMBER \<and> off = pos mod BUFFER_SIZE * DATA_SIZE"
| "loc_ok pos off C_print c \<longleftrightarrow> c_pos c = pos \<and> pos < MAX_DATA_NUMBER \<and> c_data c = pos"
| "loc_ok pos off C_seek2 c \<longleftrightarrow> c_pos c = pos + 1 \<and> pos < MAX_DATA_NUMBER"
| "loc_ok pos off C_write c \<longleftrightarrow> c_pos c = pos + 1 \<and> pos < MAX_DATA_NUMBER \<and> off = BUFFER_SIZE * DATA_SIZE"
| "loc_ok pos off C_last c \<longleftrightarrow> c_pos c = pos"
| "loc_ok pos off C_wake c \<longleftrightarrow> pos = MAX_DATA_NUMBER \<and> c_j c \<le> 3"
| "loc_ok pos off C_post_mutex c \<longleftrightarrow> pos < MAX_DATA_NUMBER \<or> pos = MAX_DATA_NUMBER"
| "loc_ok pos off C_exit c \<longleftrightarrow> pos = MAX_DATA_NUMBER"
| "loc_ok pos off _ c \<longleftrightarrow> True"

definition locs_ok :: "pc \<Rightarrow> bool" where
  "locs_ok s \<longleftrightarrow> (\<forall>i < length (cons s). loc_ok (stored s) (offset s) (c_loc (cons s ! i)) (cons s ! i))"

definition mutex_ok :: "pc \<Rightarrow> bool" where
  "mutex_ok s \<longleftrightarrow> bufferMutex s + p_crit (p_loc (prod s)) + total (\<lambda>c. c_crit (c_loc c)) s = 1"

definition buffer_ok :: "pc \<Rightarrow> bool" where
  "buffer_ok s \<longleftrightarrow> stored s \<le> written s \<and> written s \<le> stored s + BUFFER_SIZE \<and>
     (\<forall>k. stored s \<le> k \<and> k < written s \<longrightarrow> items s (k mod BUFFER_SIZE) = k)"

text \<open>The semaphores while items are left, and the wake-up calls when none is.\<close>

definition sems_ok :: "pc \<Rightarrow> bool" where
  "sems_ok s \<longleftrightarrow>
     (stored s < MAX_DATA_NUMBER \<longrightarrow>
        full s + total (\<lambda>c. taking (c_loc c)) s + p_after (p_loc (prod s)) + stored s = written s \<and>
        empty s + p_before (p_loc (prod s)) + total (\<lambda>c. given (c_loc c)) s + written s = BUFFER_SIZE + stored s \<and>
        total c_i s + total (\<lambda>c. given (c_loc c)) s = stored s) \<and>
     (stored s = MAX_DATA_NUMBER \<longrightarrow> total (\<lambda>c. waiting (c_loc c)) s \<le> full s + total left s)"

definition consumed :: "pc \<Rightarrow> (nat \<times> nat) list" where
  "consumed s = concat (map (\<lambda>m. case m of Consumed i d p \<Rightarrow> [(d, p)] | _ \<Rightarrow> []) (printed s))"

definition log_ok :: "pc \<Rightarrow> bool" where
  "log_ok s \<longleftrightarrow> consumed s = map (\<lambda>k. (k, k)) [0..<stored s + total (\<lambda>c. shown (c_loc c)) s]"

definition pc_inv :: "pc \<Rightarrow> bool" where
  "pc_inv s \<longleftrightarrow> length (cons s) \<le> CHILD_NUMBER \<and> prod_ok s \<and> locs_ok s \<and> mutex_ok s \<and> buffer_ok s \<and> sems_ok s \<and> log_ok s"

lemma sizes: "BUFFER_SIZE = 10" "DATA_SIZE = 4" "MAX_DATA_NUMBER = 512" "CHILD_NUMBER = 4"
  by (simp_all add: BUFFER_SIZE_def DATA_SIZE_def MAX_DATA_NUMBER_def CHILD_NUMBER_def)

section \<open>The critical section\<close>

lemma sum_list_two: "i < length xs \<Longrightarrow> j < length xs \<Longrightarrow> i \<noteq> j \<Longrightarrow> xs ! i + xs ! j \<le> sum_list (xs :: nat list)"
proof -
  assume ij: "i < length xs" "j < length xs" "i \<noteq> j"
  have "xs[i := 0] ! j \<le> sum_list (xs[i := 0])" using ij by (intro member_le_sum_list) (simp_all add: set_conv_nth, metis length_list_update nth_list_update_neq)
  then show ?thesis using sum_list_update [OF ij(1), of 0] ij by simp
qed

lemma critical_alone:
  assumes m: "mutex_ok s" and i: "i < length (cons s)" "c_crit (c_loc (cons s ! i)) = 1"
  shows "bufferMutex s = 0" "p_crit (p_loc (prod s)) = 0" "j < length (cons s) \<Longrightarrow> j \<noteq> i \<Longrightarrow> c_crit (c_loc (cons s ! j)) = 0"
proof -
  have "1 \<le> total (\<lambda>c. c_crit (c_loc c)) s" using total_ge [OF i(1), of "\<lambda>c. c_crit (c_loc c)"] i(2) by simp
  then show "bufferMutex s = 0" "p_crit (p_loc (prod s)) = 0" using m by (simp_all add: mutex_ok_def)
  assume j: "j < length (cons s)" "j \<noteq> i"
  have "c_crit (c_loc (cons s ! i)) + c_crit (c_loc (cons s ! j)) \<le> total (\<lambda>c. c_crit (c_loc c)) s"
    using sum_list_two [of i "map (\<lambda>c. c_crit (c_loc c)) (cons s)" j] i(1) j by (simp add: total_def)
  then show "c_crit (c_loc (cons s ! j)) = 0" using m i(2) by (simp add: mutex_ok_def)
qed

lemma loc_ok_free: "c_crit (c_loc c) = 0 \<Longrightarrow> c_loc c \<noteq> C_exit \<Longrightarrow> loc_ok pos off (c_loc c) c"
  by (cases "c_loc c") simp_all

text \<open>How one consumer's step changes the locations.\<close>

lemma locs_upd:
  assumes l: "locs_ok s" and c: "cons s' = cons s" and i: "i < length (cons s)"
    and new: "loc_ok (stored s') (offset s') (c_loc (g (cons s ! i))) (g (cons s ! i))"
    and other: "\<And>j. j < length (cons s) \<Longrightarrow> j \<noteq> i \<Longrightarrow> loc_ok (stored s') (offset s') (c_loc (cons s ! j)) (cons s ! j)"
  shows "locs_ok (c_upd i g s')"
  using c i new other unfolding locs_ok_def c_upd_def by (auto simp: nth_list_update stored_def)

lemma others_ok:
  assumes m: "mutex_ok s" "locs_ok s" and i: "i < length (cons s)" "c_crit (c_loc (cons s ! i)) = 1"
    and pos: "stored s = MAX_DATA_NUMBER \<Longrightarrow> pos = MAX_DATA_NUMBER" and j: "j < length (cons s)" "j \<noteq> i"
  shows "loc_ok pos off (c_loc (cons s ! j)) (cons s ! j)"
proof (cases "c_loc (cons s ! j) = C_exit")
  case True
  then show ?thesis using m(2) j(1) pos by (force simp: locs_ok_def)
next
  case False
  then show ?thesis using critical_alone(3) [OF m(1) i j] by (intro loc_ok_free)
qed

section \<open>Consumer steps keep the invariant\<close>

lemma upd_simps [simp]:
  "prod (c_upd i g s) = prod s" "items (c_upd i g s) = items s" "offset (c_upd i g s) = offset s" "full (c_upd i g s) = full s"
  "empty (c_upd i g s) = empty s" "bufferMutex (c_upd i g s) = bufferMutex s" "printed (c_upd i g s) = printed s"
  "length (cons (c_upd i g s)) = length (cons s)" "stored (c_upd i g s) = stored s" "written (c_upd i g s) = written s"
  "consumed (c_upd i g s) = consumed s"
  by (simp_all add: c_upd_def stored_def written_def consumed_def)

text \<open>A step of consumer \<open>i\<close> that leaves the items alone, and moves the offset in the critical section only.\<close>

lemma consumer_keeps:
  assumes inv: "pc_inv s" and i: "i < length (cons s)"
    and same: "cons s' = cons s" "prod s' = prod s" "items s' = items s" and off: "offset s' = offset s \<or> c_crit (c_loc (cons s ! i)) = 1"
    and c: "c = cons s ! i" and c': "c' = g c"
    and mutex: "bufferMutex s' + c_crit (c_loc c') = bufferMutex s + c_crit (c_loc c)"
    and new: "loc_ok (stored s) (offset s') (c_loc c') c'"
    and sems: "stored s < MAX_DATA_NUMBER \<Longrightarrow> full s' + taking (c_loc c') = full s + taking (c_loc c) \<and>
      empty s' + given (c_loc c') = empty s + given (c_loc c) \<and> c_i c' + given (c_loc c') = c_i c + given (c_loc c)"
    and last: "stored s = MAX_DATA_NUMBER \<Longrightarrow> waiting (c_loc c') + full s + left c \<le> waiting (c_loc c) + full s' + left c'"
    and log: "log_ok (c_upd i g s')"
  shows "pc_inv (c_upd i g s')"
proof -
  let ?t = "c_upd i g s'"
  have n: "length (cons s) \<le> CHILD_NUMBER" and po: "prod_ok s" and lo: "locs_ok s" and mo: "mutex_ok s" and bo: "buffer_ok s" and so: "sems_ok s"
    using inv by (simp_all add: pc_inv_def)
  have st: "stored s' = stored s" "written s' = written s" using same by (simp_all add: stored_def written_def)
  have T: "total f ?t + f c = total f s + f c'" for f
    using total_upd [of i s' f g] i total_cong [OF same(1), of f] by (simp add: same c c')
  have "prod_ok ?t"
  proof (cases "offset s' = offset s")
    case True
    then show ?thesis using po by (simp add: prod_ok_def same)
  next
    case False
    then have "p_crit (p_loc (prod s)) = 0" using off critical_alone(2) [OF mo i] by blast
    then have "p_loc (prod s) \<noteq> P_write" by auto
    then show ?thesis using po by (simp add: prod_ok_def same)
  qed
  moreover have "locs_ok ?t"
  proof (rule locs_upd [OF lo same(1) i])
    show "loc_ok (stored s') (offset s') (c_loc (g (cons s ! i))) (g (cons s ! i))" using new by (simp add: st c c')
    fix j assume j: "j < length (cons s)" "j \<noteq> i"
    show "loc_ok (stored s') (offset s') (c_loc (cons s ! j)) (cons s ! j)"
    proof (cases "offset s' = offset s")
      case True
      then show ?thesis using lo j by (simp add: locs_ok_def st)
    next
      case False
      then show ?thesis using off others_ok [OF mo lo i _ _ j] by (simp add: st)
    qed
  qed
  moreover have "mutex_ok ?t" using mo mutex T [of "\<lambda>c. c_crit (c_loc c)"] by (simp add: mutex_ok_def same)
  moreover have "buffer_ok ?t" using bo by (simp add: buffer_ok_def st same)
  moreover have "sems_ok ?t"
    using so sems last T [of "\<lambda>c. taking (c_loc c)"] T [of "\<lambda>c. given (c_loc c)"] T [of c_i] T [of "\<lambda>c. waiting (c_loc c)"] T [of left]
    unfolding sems_ok_def by (simp add: st same) linarith
  ultimately show ?thesis using n log by (simp add: pc_inv_def same)
qed

lemma log_same:
  assumes "log_ok s" "i < length (cons s)" "cons s' = cons s" "items s' = items s" "consumed s' = consumed s"
    "shown (c_loc (g (cons s ! i))) = shown (c_loc (cons s ! i))"
  shows "log_ok (c_upd i g s')"
proof -
  have "total (\<lambda>c. shown (c_loc c)) (c_upd i g s') = total (\<lambda>c. shown (c_loc c)) s"
    using total_upd [of i s' "\<lambda>c. shown (c_loc c)" g] total_cong [OF assms(3), of "\<lambda>c. shown (c_loc c)"] assms(2,3,6) by simp
  then show ?thesis using assms(1,4,5) by (simp add: log_ok_def stored_def)
qed

lemma stored_le: "pc_inv s \<Longrightarrow> stored s \<le> MAX_DATA_NUMBER"
proof -
  assume inv: "pc_inv s"
  have "written s \<le> MAX_DATA_NUMBER"
  proof (cases "p_after (p_loc (prod s)) = 0")
    case True
    then show ?thesis using inv by (simp add: pc_inv_def prod_ok_def Let_def written_def)
  next
    case False
    then have "p_after (p_loc (prod s)) = 1" "p_loc (prod s) \<noteq> P_test \<and> p_loc (prod s) \<noteq> P_done" by (cases "p_loc (prod s)"; simp)+
    then show ?thesis using inv by (auto simp: pc_inv_def prod_ok_def Let_def written_def)
  qed
  then show ?thesis using inv by (simp add: pc_inv_def buffer_ok_def)
qed

lemma shown_alone:
  assumes m: "mutex_ok s" and i: "i < length (cons s)" "c_crit (c_loc (cons s ! i)) = 1"
  shows "total (\<lambda>c. shown (c_loc c)) s = shown (c_loc (cons s ! i))"
proof -
  let ?s = "c_upd i (c_goto C_test) s"
  have "total (\<lambda>c. shown (c_loc c)) ?s \<le> total (\<lambda>c. c_crit (c_loc c)) ?s"
  proof -
    have le: "shown l \<le> c_crit l" for l by (cases l) simp_all
    show ?thesis unfolding total_def by (rule sum_list_mono) (rule le)
  qed
  moreover have "total (\<lambda>c. c_crit (c_loc c)) s \<le> 1" using m by (simp add: mutex_ok_def)
  ultimately show ?thesis
    using total_upd [OF i(1), of "\<lambda>c. c_crit (c_loc c)" "c_goto C_test"] total_upd [OF i(1), of "\<lambda>c. shown (c_loc c)" "c_goto C_test"] i(2)
    by (simp add: c_goto_def)
qed

lemma total_le: "(\<And>c. f c \<le> 1) \<Longrightarrow> total f s \<le> length (cons s)"
  unfolding total_def using sum_list_mono [of "cons s" f "\<lambda>_. 1"] by (simp add: sum_list_triv)

lemma goto_simps [simp]: "c_loc (c_goto l c) = l" "c_pos (c_goto l c) = c_pos c" "c_data (c_goto l c) = c_data c" "c_i (c_goto l c) = c_i c"
  "c_j (c_goto l c) = c_j c"
  by (simp_all add: c_goto_def)

lemma consumed_simps [simp]:
  "consumed (say (Consumed i d p) s) = consumed s @ [(d, p)]" "consumed (say (Finished i) s) = consumed s"
  "consumed (say (Produced d p) s) = consumed s" "consumed (seek n s) = consumed s" "consumed (move_on s) = consumed s"
  "consumed (s\<lparr>bufferMutex := n\<rparr>) = consumed s" "consumed (s\<lparr>full := n\<rparr>) = consumed s" "consumed (s\<lparr>empty := n\<rparr>) = consumed s"
  "consumed (s\<lparr>items := f\<rparr>) = consumed s" "consumed (s\<lparr>prod := pr\<rparr>) = consumed s"
  by (simp_all add: consumed_def say_def seek_def move_on_def)

lemma say_simps [simp]:
  "cons (say m s) = cons s" "prod (say m s) = prod s" "items (say m s) = items s" "offset (say m s) = offset s" "full (say m s) = full s"
  "empty (say m s) = empty s" "bufferMutex (say m s) = bufferMutex s"
  "cons (seek n s) = cons s" "prod (seek n s) = prod s" "items (seek n s) = items s" "offset (seek n s) = n" "full (seek n s) = full s"
  "empty (seek n s) = empty s" "bufferMutex (seek n s) = bufferMutex s"
  "cons (move_on s) = cons s" "prod (move_on s) = prod s" "items (move_on s) = items s" "offset (move_on s) = offset s + DATA_SIZE"
  "full (move_on s) = full s" "empty (move_on s) = empty s" "bufferMutex (move_on s) = bufferMutex s"
  by (simp_all add: say_def seek_def move_on_def)

text \<open>What a consumer at a given place knows.\<close>

lemma at_consumer:
  assumes inv: "pc_inv s" and i: "i < length (cons s)"
  shows "loc_ok (stored s) (offset s) (c_loc (cons s ! i)) (cons s ! i)"
    "stored s < MAX_DATA_NUMBER \<Longrightarrow> c_i (cons s ! i) \<le> stored s"
    "stored s < MAX_DATA_NUMBER \<Longrightarrow> taking (c_loc (cons s ! i)) = 1 \<Longrightarrow> stored s < written s"
proof -
  show "loc_ok (stored s) (offset s) (c_loc (cons s ! i)) (cons s ! i)" using inv i by (simp add: pc_inv_def locs_ok_def)
  show "stored s < MAX_DATA_NUMBER \<Longrightarrow> c_i (cons s ! i) \<le> stored s"
    using inv total_ge [OF i, of c_i] by (simp add: pc_inv_def sems_ok_def)
  show "stored s < MAX_DATA_NUMBER \<Longrightarrow> taking (c_loc (cons s ! i)) = 1 \<Longrightarrow> stored s < written s"
    using inv total_ge [OF i, of "\<lambda>c. taking (c_loc c)"] by (simp add: pc_inv_def sems_ok_def)
qed

lemma write_step_inv:
  assumes inv: "pc_inv s" and i: "i < length (cons s)" and l: "c_loc (cons s ! i) = C_write"
  shows "pc_inv (c_upd i (c_goto C_last) (write_item (c_pos (cons s ! i)) s))"
proof -
  let ?c = "cons s ! i" and ?t = "c_upd i (c_goto C_last) (write_item (c_pos (cons s ! i)) s)"
  have a: "c_pos ?c = stored s + 1" "stored s < MAX_DATA_NUMBER" "offset s = 40"
    using at_consumer(1) [OF inv i] l by (simp_all add: sizes)
  have w: "stored s < written s" using at_consumer(3) [OF inv i a(2)] l by simp
  have cr: "c_crit (c_loc ?c) = 1" using l by simp
  have parts: "length (cons s) \<le> CHILD_NUMBER" "prod_ok s" "locs_ok s" "mutex_ok s" "buffer_ok s" "sems_ok s" "log_ok s"
    using inv by (simp_all add: pc_inv_def)
  let ?w = "write_item (c_pos ?c) s"
  have ws: "cons ?w = cons s" "prod ?w = prod s" "items ?w = (items s)(10 := stored s + 1)" "full ?w = full s" "empty ?w = empty s"
    "bufferMutex ?w = bufferMutex s" "consumed ?w = consumed s"
    using a by (simp_all add: write_item_def sizes)
  have st: "stored ?w = stored s + 1" "written ?w = written s" using ws by (simp_all add: stored_def written_def sizes)
  have T: "total f ?t + f ?c = total f s + f (c_goto C_last ?c)" for f
    using total_upd [of i ?w f "c_goto C_last"] total_cong [OF ws(1), of f] i by (simp add: ws)
  have np: "p_loc (prod s) \<noteq> P_write" using critical_alone(2) [OF parts(4) i cr] by auto
  have "prod_ok ?t" using parts(2) np by (simp add: prod_ok_def ws)
  moreover have "locs_ok ?t"
  proof (rule locs_upd [OF parts(3) ws(1) i])
    show "loc_ok (stored ?w) (offset ?w) (c_loc (c_goto C_last ?c)) (c_goto C_last ?c)" unfolding st(1) using a by simp
    show "loc_ok (stored ?w) (offset ?w) (c_loc (cons s ! j)) (cons s ! j)" if "j < length (cons s)" "j \<noteq> i" for j
      by (rule others_ok [OF parts(4,3) i cr _ that]) (use a in simp)
  qed
  moreover have "mutex_ok ?t" using parts(4) T [of "\<lambda>c. c_crit (c_loc c)"] l by (simp add: mutex_ok_def ws)
  moreover have "buffer_ok ?t"
  proof -
    have "k mod 10 \<noteq> 10" for k :: nat using mod_less_divisor [of 10 k] by linarith
    then show ?thesis using parts(5) w by (simp add: buffer_ok_def st ws sizes)
  qed
  moreover have "sems_ok ?t"
  proof -
    have f: "waiting l \<le> 1" for l by (cases l) simp_all
    have "total (\<lambda>c. waiting (c_loc c)) (c_upd i (c_goto C_test) s) \<le> 4"
      using total_le [of "\<lambda>c. waiting (c_loc c)" "c_upd i (c_goto C_test) s"] f parts(1) by (simp add: sizes)
    then have "total (\<lambda>c. waiting (c_loc c)) s \<le> 3" using total_upd [OF i, of "\<lambda>c. waiting (c_loc c)" "c_goto C_test"] l by simp
    moreover have "3 \<le> total left ?t" using T [of left] l by (simp add: left_def)
    ultimately show ?thesis
      using parts(6) a(2) l T [of "\<lambda>c. taking (c_loc c)"] T [of "\<lambda>c. given (c_loc c)"] T [of c_i] T [of "\<lambda>c. waiting (c_loc c)"]
      unfolding sems_ok_def by (simp add: st ws)
  qed
  moreover have "log_ok ?t"
  proof -
    have "stored s + total (\<lambda>c. shown (c_loc c)) s = stored ?t + total (\<lambda>c. shown (c_loc c)) ?t"
      using T [of "\<lambda>c. shown (c_loc c)"] l st(1) by simp
    then show ?thesis using parts(7) unfolding log_ok_def by (simp only: upd_simps ws)
  qed
  ultimately show ?thesis using parts(1) by (simp add: pc_inv_def ws)
qed

lemma cons_step_inv:
  assumes inv: "pc_inv s" and i: "i < length (cons s)" and step: "cons_step i s = Some t"
  shows "pc_inv t"
proof -
  let ?c = "cons s ! i"
  have log: "log_ok s" and mo: "mutex_ok s" and bo: "buffer_ok s" using inv by (simp_all add: pc_inv_def)
  have le: "stored s \<le> MAX_DATA_NUMBER" by (rule stored_le [OF inv])
  have st: "\<not> c_failed ?c" using step by (auto simp: cons_step_def Let_def)
  note k = consumer_keeps [OF inv i _ _ _ _ refl refl]
  note at = at_consumer [OF inv i]
  show ?thesis
  proof (cases "c_loc ?c")
    case C_test
    then have t: "t = c_upd i (c_goto (if c_i ?c < MAX_DATA_NUMBER then C_full else C_exit)) s"
      using step st by (simp add: cons_step_def Let_def)
    have "\<not> c_i ?c < MAX_DATA_NUMBER \<Longrightarrow> stored s = MAX_DATA_NUMBER" using at(2) le by linarith
    then show ?thesis unfolding t by (intro k log_same [OF log i]) (use C_test in \<open>auto simp: left_def\<close>)
  next
    case C_full
    then have t: "t = c_upd i (c_goto C_mutex) (s\<lparr>full := full s - 1\<rparr>)" and f: "0 < full s"
      using step st by (auto simp: cons_step_def Let_def split: if_splits)
    show ?thesis unfolding t by (intro k log_same [OF log i]) (use C_full f in \<open>auto simp: left_def\<close>)
  next
    case C_mutex
    then have t: "t = c_upd i (c_goto C_seek0) (s\<lparr>bufferMutex := bufferMutex s - 1\<rparr>)" and f: "0 < bufferMutex s"
      using step st by (auto simp: cons_step_def Let_def split: if_splits)
    show ?thesis unfolding t by (intro k log_same [OF log i]) (use C_mutex f in \<open>auto simp: left_def\<close>)
  next
    case C_seek0
    then have t: "t = c_upd i (c_goto C_read0) (seek (BUFFER_SIZE * DATA_SIZE) s)"
      using step st by (simp add: cons_step_def Let_def)
    show ?thesis unfolding t by (intro k log_same [OF log i]) (use C_seek0 in \<open>auto simp: left_def\<close>)
  next
    case C_read0
    then have t: "t = c_upd i (\<lambda>c. c_goto C_check (c\<lparr>c_pos := item_at s\<rparr>)) (move_on s)"
      using step st by (simp add: cons_step_def Let_def)
    have "item_at s = stored s" using at(1) C_read0 by (simp add: item_at_def stored_def sizes)
    then show ?thesis unfolding t by (intro k log_same [OF log i]) (use C_read0 in \<open>auto simp: left_def\<close>)
  next
    case C_check
    have p: "c_pos ?c = stored s" using at(1) C_check by simp
    show ?thesis
    proof (cases "c_pos ?c \<ge> MAX_DATA_NUMBER")
      case True
      then have t: "t = c_upd i (c_goto C_exit) (say (Finished i) (s\<lparr>bufferMutex := bufferMutex s + 1\<rparr>))"
        using step st C_check by (simp add: cons_step_def Let_def)
      show ?thesis unfolding t by (intro k log_same [OF log i]) (use C_check True p le in \<open>auto simp: left_def\<close>)
    next
      case False
      then have t: "t = c_upd i (c_goto C_seek1) s" using step st C_check by (simp add: cons_step_def Let_def)
      show ?thesis unfolding t by (intro k log_same [OF log i]) (use C_check False p in \<open>auto simp: left_def\<close>)
    qed
  next
    case C_seek1
    then have t: "t = c_upd i (c_goto C_read1) (seek (c_pos ?c mod BUFFER_SIZE * DATA_SIZE) s)"
      using step st by (simp add: cons_step_def Let_def)
    show ?thesis unfolding t by (intro k log_same [OF log i]) (use C_seek1 at(1) in \<open>auto simp: left_def\<close>)
  next
    case C_read1
    then have t: "t = c_upd i (\<lambda>c. c_goto C_print (c\<lparr>c_data := item_at s\<rparr>)) (move_on s)"
      using step st by (simp add: cons_step_def Let_def)
    have a: "c_pos ?c = stored s" "stored s < MAX_DATA_NUMBER" "offset s = stored s mod BUFFER_SIZE * DATA_SIZE" using at(1) C_read1 by simp_all
    then have "stored s < written s" using at(3) C_read1 by simp
    then have "items s (stored s mod BUFFER_SIZE) = stored s" using bo by (simp add: buffer_ok_def)
    then have "item_at s = stored s" using a(3) by (simp add: item_at_def sizes)
    then show ?thesis unfolding t by (intro k log_same [OF log i]) (use C_read1 a in \<open>auto simp: left_def\<close>)
  next
    case C_print
    then have t: "t = c_upd i (\<lambda>c. c_goto C_seek2 (c\<lparr>c_pos := c_pos c + 1\<rparr>)) (say (Consumed i (c_data ?c) (c_pos ?c)) s)"
      using step st by (simp add: cons_step_def Let_def)
    have a: "c_pos ?c = stored s" "stored s < MAX_DATA_NUMBER" "c_data ?c = stored s" using at(1) C_print by simp_all
    let ?s = "say (Consumed i (c_data ?c) (c_pos ?c)) s" and ?g = "\<lambda>c. c_goto C_seek2 (c\<lparr>c_pos := c_pos c + 1\<rparr>)"
    have z: "total (\<lambda>c. shown (c_loc c)) s = 0" using shown_alone [OF mo i] C_print by simp
    then have "total (\<lambda>c. shown (c_loc c)) (c_upd i ?g ?s) = 1"
      using total_upd [of i ?s "\<lambda>c. shown (c_loc c)" ?g] total_cong [of ?s s "\<lambda>c. shown (c_loc c)"] i C_print by simp
    then have "log_ok (c_upd i ?g ?s)" using log z a by (simp add: log_ok_def stored_def)
    then show ?thesis unfolding t by (intro k) (use C_print a in \<open>auto simp: left_def\<close>)
  next
    case C_seek2
    then have t: "t = c_upd i (c_goto C_write) (seek (BUFFER_SIZE * DATA_SIZE) s)" using step st by (simp add: cons_step_def Let_def)
    show ?thesis unfolding t by (intro k log_same [OF log i]) (use C_seek2 at(1) in \<open>auto simp: left_def\<close>)
  next
    case C_write
    then have t: "t = c_upd i (c_goto C_last) (write_item (c_pos ?c) s)" using step st by (simp add: cons_step_def Let_def)
    show ?thesis unfolding t by (rule write_step_inv [OF inv i C_write])
  next
    case C_last
    have p: "c_pos ?c = stored s" using at(1) C_last by simp
    have t: "t = c_upd i (\<lambda>c. if c_pos c \<ge> MAX_DATA_NUMBER then c_goto C_wake (c\<lparr>c_j := 0\<rparr>) else c_goto C_post_mutex c) s"
      using step st C_last by (simp add: cons_step_def Let_def)
    show ?thesis unfolding t by (intro k log_same [OF log i]) (use C_last p le in \<open>auto simp: left_def\<close>)
  next
    case C_wake
    have p: "stored s = MAX_DATA_NUMBER" "c_j ?c \<le> 3" using at(1) C_wake by simp_all
    show ?thesis
    proof (cases "c_j ?c < CHILD_NUMBER - 1")
      case True
      then have t: "t = c_upd i (\<lambda>c. c\<lparr>c_j := c_j c + 1\<rparr>) (s\<lparr>full := full s + 1\<rparr>)" using step st C_wake by (simp add: cons_step_def Let_def)
      show ?thesis unfolding t by (intro k log_same [OF log i]) (use C_wake True p in \<open>auto simp: left_def sizes\<close>)
    next
      case False
      then have t: "t = c_upd i (c_goto C_exit) (say (Finished i) (s\<lparr>bufferMutex := bufferMutex s + 1\<rparr>))"
        using step st C_wake by (simp add: cons_step_def Let_def)
      show ?thesis unfolding t by (intro k log_same [OF log i]) (use C_wake False p in \<open>auto simp: left_def sizes\<close>)
    qed
  next
    case C_post_mutex
    then have t: "t = c_upd i (c_goto C_post_empty) (s\<lparr>bufferMutex := bufferMutex s + 1\<rparr>)" using step st by (simp add: cons_step_def Let_def)
    show ?thesis unfolding t by (intro k log_same [OF log i]) (use C_post_mutex in \<open>auto simp: left_def\<close>)
  next
    case C_post_empty
    then have t: "t = c_upd i (\<lambda>c. c_goto C_test (c\<lparr>c_i := c_i c + 1\<rparr>)) (s\<lparr>empty := empty s + 1\<rparr>)" using step st by (simp add: cons_step_def Let_def)
    show ?thesis unfolding t by (intro k log_same [OF log i]) (use C_post_empty in \<open>auto simp: left_def\<close>)
  next
    case C_exit
    then show ?thesis using step st by (simp add: cons_step_def Let_def)
  qed
qed

section \<open>Producer steps keep the invariant\<close>

lemma producer_alone:
  assumes m: "mutex_ok s" and p: "p_crit (p_loc (prod s)) = 1" and j: "j < length (cons s)"
  shows "c_crit (c_loc (cons s ! j)) = 0"
  using m p total_ge [OF j, of "\<lambda>c. c_crit (c_loc c)"] by (simp add: mutex_ok_def)

text \<open>A step of the producer that leaves the items alone.\<close>

lemma producer_keeps:
  assumes inv: "pc_inv s"
    and same: "cons t = cons s" "items t = items s" "consumed t = consumed s" and off: "offset t = offset s \<or> p_crit (p_loc (prod s)) = 1"
    and po: "prod_ok t"
    and mutex: "bufferMutex t + p_crit (p_loc (prod t)) = bufferMutex s + p_crit (p_loc (prod s))"
    and w: "written t = written s"
    and sems: "full t + p_after (p_loc (prod t)) = full s + p_after (p_loc (prod s))"
      "empty t + p_before (p_loc (prod t)) = empty s + p_before (p_loc (prod s))" "full s \<le> full t"
  shows "pc_inv t"
proof -
  have parts: "length (cons s) \<le> CHILD_NUMBER" "locs_ok s" "mutex_ok s" "buffer_ok s" "sems_ok s" "log_ok s"
    using inv by (simp_all add: pc_inv_def)
  have st: "stored t = stored s" using same by (simp add: stored_def)
  have T: "total f t = total f s" for f by (rule total_cong [OF same(1)])
  have "locs_ok t"
  proof (cases "offset t = offset s")
    case True
    then show ?thesis using parts(2) by (simp add: locs_ok_def st same)
  next
    case False
    then have "p_crit (p_loc (prod s)) = 1" using off by blast
    note al = producer_alone [OF parts(3) this]
    show ?thesis unfolding locs_ok_def st same(1)
    proof (intro allI impI)
      fix i assume i: "i < length (cons s)"
      show "loc_ok (stored s) (offset t) (c_loc (cons s ! i)) (cons s ! i)"
      proof (cases "c_loc (cons s ! i) = C_exit")
        case True
        have "loc_ok (stored s) (offset s) (c_loc (cons s ! i)) (cons s ! i)" using parts(2) i by (simp add: locs_ok_def)
        then show ?thesis using True by simp
      qed (use al [OF i] loc_ok_free in blast)
    qed
  qed
  moreover have "mutex_ok t" using parts(3) mutex by (simp add: mutex_ok_def T)
  moreover have "buffer_ok t" using parts(4) by (simp add: buffer_ok_def st w same)
  moreover have "sems_ok t" using parts(5) sems unfolding sems_ok_def by (simp add: st T w) linarith
  moreover have "log_ok t" using parts(6) by (simp add: log_ok_def st T same)
  ultimately show ?thesis using parts(1) po by (simp add: pc_inv_def same)
qed

lemma ring_distinct: "k < (w :: nat) \<Longrightarrow> w < k + n \<Longrightarrow> k mod n \<noteq> w mod n"
proof
  assume a: "k < w" "w < k + n" "k mod n = w mod n"
  then have "n dvd w - k" using mod_eq_dvd_iff_nat [of k w n] by simp
  moreover have "0 < w - k" "w - k < n" using a by simp_all
  ultimately show False using nat_dvd_not_less by blast
qed

lemma producer_write_inv:
  assumes inv: "pc_inv s" and l: "p_loc (prod s) = P_write"
  shows "pc_inv (p_goto P_print (write_item (p_data (prod s)) s))"
proof -
  let ?t = "p_goto P_print (write_item (p_data (prod s)) s)"
  have parts: "length (cons s) \<le> CHILD_NUMBER" "prod_ok s" "locs_ok s" "mutex_ok s" "buffer_ok s" "sems_ok s" "log_ok s"
    using inv by (simp_all add: pc_inv_def)
  define d where "d = p_data (prod s)"
  have p: "p_pos (prod s) = d" "d < 512" "offset s = d mod 10 * 4" "written s = d"
    using parts(2) l by (simp_all add: prod_ok_def Let_def sizes written_def d_def)
  have ts: "cons ?t = cons s" "items ?t = (items s)(d mod 10 := d)" "full ?t = full s" "empty ?t = empty s"
    "bufferMutex ?t = bufferMutex s" "consumed ?t = consumed s" "p_loc (prod ?t) = P_print" "p_data (prod ?t) = d" "p_pos (prod ?t) = d"
    using p by (simp_all add: p_goto_def write_item_def sizes d_def)
  have st: "stored ?t = stored s" "written ?t = d + 1"
  proof -
    have "d mod 10 \<noteq> 10" using mod_less_divisor [of 10 d] by linarith
    then show "stored ?t = stored s" by (simp add: stored_def ts sizes)
    show "written ?t = d + 1" by (simp add: written_def ts)
  qed
  have T: "total f ?t = total f s" for f by (rule total_cong [OF ts(1)])
  have sd: "stored s \<le> d" using parts(5) p by (simp add: buffer_ok_def)
  then have lt: "stored s < MAX_DATA_NUMBER" using p by (simp add: sizes)
  have room: "d < stored s + 10" using parts(6) lt l p by (simp add: sems_ok_def sizes)
  have "prod_ok ?t" using p by (simp add: prod_ok_def Let_def ts sizes)
  moreover have "locs_ok ?t" unfolding locs_ok_def st ts(1)
  proof (intro allI impI)
    fix i assume i: "i < length (cons s)"
    have "c_crit (c_loc (cons s ! i)) = 0" by (rule producer_alone [OF parts(4) _ i]) (simp add: l)
    moreover have "c_loc (cons s ! i) \<noteq> C_exit"
    proof
      assume "c_loc (cons s ! i) = C_exit"
      moreover have "loc_ok (stored s) (offset s) (c_loc (cons s ! i)) (cons s ! i)" using parts(3) i by (simp add: locs_ok_def)
      ultimately show False using lt by simp
    qed
    ultimately show "loc_ok (stored s) (offset ?t) (c_loc (cons s ! i)) (cons s ! i)" by (rule loc_ok_free)
  qed
  moreover have "mutex_ok ?t" using parts(4) l by (simp add: mutex_ok_def T ts)
  moreover have "buffer_ok ?t"
  proof -
    have "items ?t (k mod 10) = k" if k: "stored s \<le> k" "k < d + 1" for k
    proof (cases "k = d")
      case False
      then have "k mod 10 \<noteq> d mod 10" using k room by (intro ring_distinct) simp_all
      moreover have "items s (k mod 10) = k" using parts(5) p k False by (simp add: buffer_ok_def sizes)
      ultimately show ?thesis by (simp add: ts)
    qed (simp add: ts)
    then show ?thesis using sd room by (simp add: buffer_ok_def st sizes)
  qed
  moreover have "sems_ok ?t" using parts(6) l p unfolding sems_ok_def by (simp add: st T ts)
  moreover have "log_ok ?t" using parts(7) by (simp add: log_ok_def st T ts)
  ultimately show ?thesis using parts(1) by (simp add: pc_inv_def ts)
qed

lemma p_goto_simps [simp]:
  "cons (p_goto l s) = cons s" "items (p_goto l s) = items s" "offset (p_goto l s) = offset s" "full (p_goto l s) = full s"
  "empty (p_goto l s) = empty s" "bufferMutex (p_goto l s) = bufferMutex s" "consumed (p_goto l s) = consumed s"
  "p_loc (prod (p_goto l s)) = l" "p_data (prod (p_goto l s)) = p_data (prod s)" "p_pos (prod (p_goto l s)) = p_pos (prod s)"
  by (simp_all add: p_goto_def consumed_def)

lemma prod_step_inv:
  assumes inv: "pc_inv s" and step: "prod_step s = Some t"
  shows "pc_inv t"
proof -
  have nf: "\<not> p_failed (prod s)" using step by (auto simp: prod_step_def)
  have po: "prod_ok s" using inv by (simp add: pc_inv_def)
  note k = producer_keeps [OF inv]
  show ?thesis
  proof (cases "p_loc (prod s)")
    case P_write
    then have "t = p_goto P_print (write_item (p_data (prod s)) s)" using step nf by (simp add: prod_step_def)
    then show ?thesis using producer_write_inv [OF inv P_write] by simp
  next
    case P_test
    then have t: "t = p_goto (if p_data (prod s) < MAX_DATA_NUMBER then P_empty else P_done) s" using step nf by (simp add: prod_step_def)
    show ?thesis unfolding t by (rule k) (use P_test po in \<open>auto simp: prod_ok_def Let_def written_def\<close>)
  next
    case P_empty
    then have t: "t = p_goto P_mutex (s\<lparr>empty := empty s - 1\<rparr>)" and e: "0 < empty s" using step nf by (auto simp: prod_step_def split: if_splits)
    show ?thesis unfolding t by (rule k) (use P_empty po e in \<open>auto simp: prod_ok_def Let_def written_def\<close>)
  next
    case P_mutex
    then have t: "t = p_goto P_seek (s\<lparr>bufferMutex := bufferMutex s - 1\<rparr>)" and e: "0 < bufferMutex s" using step nf by (auto simp: prod_step_def split: if_splits)
    show ?thesis unfolding t by (rule k) (use P_mutex po e in \<open>auto simp: prod_ok_def Let_def written_def\<close>)
  next
    case P_seek
    then have t: "t = p_goto P_write (seek (p_pos (prod s) mod BUFFER_SIZE * DATA_SIZE) s)" using step nf by (simp add: prod_step_def)
    show ?thesis unfolding t by (rule k) (use P_seek po in \<open>auto simp: prod_ok_def Let_def written_def\<close>)
  next
    case P_print
    then have t: "t = p_goto P_post_mutex (say (Produced (p_data (prod s)) (p_pos (prod s))) s\<lparr>prod := (prod s)\<lparr>p_pos := p_pos (prod s) + 1\<rparr>\<rparr>)"
      using step nf by (simp add: prod_step_def)
    show ?thesis unfolding t by (rule k) (use P_print po in \<open>auto simp: prod_ok_def Let_def written_def\<close>)
  next
    case P_post_mutex
    then have t: "t = p_goto P_post_full (s\<lparr>bufferMutex := bufferMutex s + 1\<rparr>)" using step nf by (simp add: prod_step_def)
    show ?thesis unfolding t by (rule k) (use P_post_mutex po in \<open>auto simp: prod_ok_def Let_def written_def\<close>)
  next
    case P_post_full
    then have t: "t = p_goto P_test (s\<lparr>full := full s + 1, prod := (prod s)\<lparr>p_data := p_data (prod s) + 1\<rparr>\<rparr>)" using step nf by (simp add: prod_step_def)
    show ?thesis unfolding t by (rule k) (use P_post_full po in \<open>auto simp: prod_ok_def Let_def written_def\<close>)
  next
    case P_done
    then show ?thesis using step nf by (simp add: prod_step_def)
  qed
qed

section \<open>Every run\<close>

lemma fail_inv:
  assumes inv: "pc_inv s"
  shows "pc_inv (s\<lparr>prod := (prod s)\<lparr>p_failed := True\<rparr>\<rparr>)" "i < length (cons s) \<Longrightarrow> pc_inv (c_upd i (\<lambda>c. c\<lparr>c_failed := True\<rparr>) s)"
proof -
  show "pc_inv (s\<lparr>prod := (prod s)\<lparr>p_failed := True\<rparr>\<rparr>)"
    by (rule producer_keeps [OF inv]) (use inv in \<open>auto simp: pc_inv_def prod_ok_def Let_def written_def\<close>)
  assume i: "i < length (cons s)"
  have ok: "loc_ok pos off l (c\<lparr>c_failed := True\<rparr>) = loc_ok pos off l c" for pos off l c by (cases l) simp_all
  show "pc_inv (c_upd i (\<lambda>c. c\<lparr>c_failed := True\<rparr>) s)"
    by (intro consumer_keeps [OF inv i _ _ _ _ HOL.refl HOL.refl] log_same [OF _ i])
      (use inv at_consumer(1) [OF inv i] in \<open>auto simp: pc_inv_def ok left_def\<close>)
qed

lemma pc_step_inv: "pc_step s t \<Longrightarrow> pc_inv s \<Longrightarrow> pc_inv t"
  by (cases rule: pc_step.cases) (auto intro: prod_step_inv cons_step_inv fail_inv)

lemma pc_runs_inv: "pc_runs s t \<Longrightarrow> pc_inv s \<Longrightarrow> pc_inv t"
  by (induction rule: pc_runs.induct) (auto intro: pc_step_inv)

text \<open>The start: each of the three semaphores either does not exist or has the value it is opened with.\<close>

definition sems_fresh :: "sems \<Rightarrow> bool" where
  "sems_fresh ks \<longleftrightarrow> ks ''bufferMutex'' \<in> {None, Some 1} \<and> ks ''empty'' \<in> {None, Some BUFFER_SIZE} \<and> ks ''full'' \<in> {None, Some 0}"

lemma start_state:
  assumes "sems_fresh ks" "main_start ok file ks = (Some s, ks')"
  shows "s = (write_item 0 (seek (BUFFER_SIZE * DATA_SIZE) \<lparr>bufferMutex = 1, empty = BUFFER_SIZE, full = 0, items = file, offset = 0,
                  prod = \<lparr>p_loc = P_test, p_failed = False, p_data = 0, p_pos = 0\<rparr>, cons = [], printed = []\<rparr>))
      \<lparr>cons := map (\<lambda>i. new_consumer) (filter (\<lambda>i. ok (8 + i)) [0..<CHILD_NUMBER])\<rparr>"
  using assms by (auto simp: sems_fresh_def main_start_def prelude_def sem_open_wrapper_def Let_def split: if_splits prod.splits option.splits)

lemma start_inv:
  assumes "sems_fresh ks" "main_start ok file ks = (Some s, ks')"
  shows "pc_inv s"
proof -
  have n: "length (filter (\<lambda>i. ok (8 + i)) [0..<CHILD_NUMBER]) \<le> CHILD_NUMBER"
    using length_filter_le [of "\<lambda>i. ok (8 + i)" "[0..<CHILD_NUMBER]"] by simp
  show ?thesis unfolding start_state [OF assms]
    by (simp add: pc_inv_def prod_ok_def locs_ok_def mutex_ok_def buffer_ok_def sems_ok_def log_ok_def stored_def written_def total_def
        new_consumer_def write_item_def seek_def move_on_def sizes consumed_def comp_def) (use n in \<open>simp add: sizes\<close>)
qed

section \<open>Progress\<close>

text \<open>How far a process is.\<close>

fun p_index :: "ploc \<Rightarrow> nat" where
  "p_index P_test = 0" | "p_index P_empty = 1" | "p_index P_mutex = 2" | "p_index P_seek = 3" | "p_index P_write = 4"
| "p_index P_print = 5" | "p_index P_post_mutex = 6" | "p_index P_post_full = 7" | "p_index P_done = 8"

fun c_index :: "cloc \<Rightarrow> nat" where
  "c_index C_test = 0" | "c_index C_full = 1" | "c_index C_mutex = 2" | "c_index C_seek0 = 3" | "c_index C_read0 = 4"
| "c_index C_check = 5" | "c_index C_seek1 = 6" | "c_index C_read1 = 7" | "c_index C_print = 8" | "c_index C_seek2 = 9"
| "c_index C_write = 10" | "c_index C_last = 11" | "c_index C_wake = 12" | "c_index C_post_mutex = 13" | "c_index C_post_empty = 14"
| "c_index C_exit = 20"

definition p_rank :: "producer \<Rightarrow> nat" where
  "p_rank p = 10 * p_data p + p_index (p_loc p) + (if p_failed p then 1 else 0)"

definition c_rank :: "consumer \<Rightarrow> nat" where
  "c_rank c = 30 * c_i c + c_index (c_loc c) + (if c_loc c = C_wake then c_j c else 0) + (if c_failed c then 1 else 0)"

definition rank :: "pc \<Rightarrow> nat" where "rank s = p_rank (prod s) + total c_rank s"

definition counts_ok :: "pc \<Rightarrow> bool" where
  "counts_ok s \<longleftrightarrow> (\<forall>i < length (cons s). let c = cons s ! i in
     c_i c \<le> MAX_DATA_NUMBER \<and> (c_loc c \<noteq> C_test \<and> c_loc c \<noteq> C_exit \<longrightarrow> c_i c < MAX_DATA_NUMBER) \<and> (c_loc c = C_wake \<longrightarrow> c_j c \<le> 3))"

definition count_ok :: "consumer \<Rightarrow> bool" where
  "count_ok c \<longleftrightarrow> c_i c \<le> MAX_DATA_NUMBER \<and> (c_loc c \<noteq> C_test \<and> c_loc c \<noteq> C_exit \<longrightarrow> c_i c < MAX_DATA_NUMBER) \<and>
     (c_loc c = C_wake \<longrightarrow> c_j c \<le> 3)"

lemma counts_ok_all: "counts_ok s \<longleftrightarrow> (\<forall>i < length (cons s). count_ok (cons s ! i))"
  by (simp add: counts_ok_def count_ok_def Let_def)

text \<open>A consumer's step changes one consumer, which gets further.\<close>

lemma cons_step_one:
  assumes i: "i < length (cons s)" and step: "cons_step i s = Some t" and ok: "count_ok (cons s ! i)"
  shows "prod t = prod s \<and> cons t = (cons s)[i := cons t ! i] \<and> c_rank (cons s ! i) < c_rank (cons t ! i) \<and> count_ok (cons t ! i)"
proof -
  have st: "\<not> c_failed (cons s ! i)" using step by (auto simp: cons_step_def Let_def)
  show ?thesis
    by (cases "c_loc (cons s ! i)";
      insert i step ok st; clarsimp simp: cons_step_def Let_def c_upd_def c_rank_def count_ok_def write_item_def c_goto_def say_def seek_def move_on_def sizes
        split: if_splits)
qed

lemma cons_step_rank:
  assumes ok: "counts_ok s" and i: "i < length (cons s)" and step: "cons_step i s = Some t"
  shows "counts_ok t \<and> rank s < rank t"
proof -
  have g: "prod t = prod s" "cons t = (cons s)[i := cons t ! i]" "c_rank (cons s ! i) < c_rank (cons t ! i)" "count_ok (cons t ! i)"
    using cons_step_one [OF i step] ok i by (simp_all add: counts_ok_all)
  have "total c_rank t + c_rank (cons s ! i) = total c_rank s + c_rank (cons t ! i)"
    using sum_list_update [of i "map c_rank (cons s)" "c_rank (cons t ! i)"] i
    by (subst total_def) (subst g(2), simp add: map_update total_def)
  then have "rank s < rank t" using g(3) by (simp add: rank_def g(1))
  moreover have "count_ok (cons t ! j)" if "j < length (cons t)" for j
  proof (cases "j = i")
    case False
    have "length (cons t) = length (cons s)" using g(2) by (metis length_list_update)
    moreover have "cons t ! j = cons s ! j" using g(2) False by (metis nth_list_update_neq)
    ultimately show ?thesis using ok that by (simp add: counts_ok_all)
  qed (use g(4) in simp)
  ultimately show ?thesis by (simp add: counts_ok_all)
qed

lemma prod_step_rank:
  assumes ok: "counts_ok s" and step: "prod_step s = Some t"
  shows "counts_ok t \<and> rank s < rank t"
proof -
  have st: "\<not> p_failed (prod s)" using step by (auto simp: prod_step_def)
  have "cons t = cons s \<and> p_rank (prod s) < p_rank (prod t)"
    using step st by (cases "p_loc (prod s)") (auto simp: prod_step_def p_rank_def p_goto_def write_item_def split: if_splits)
  then show ?thesis using ok total_cong [of t s c_rank] by (simp add: rank_def counts_ok_def)
qed

lemma pc_step_rank:
  assumes "pc_step s t" and ok: "counts_ok s" shows "counts_ok t \<and> rank s < rank t"
  using assms(1)
proof cases
  case producer
  then show ?thesis using prod_step_rank [OF ok] by blast
next
  case (consumer i)
  then show ?thesis using cons_step_rank [OF ok] by blast
next
  case producer_fails
  then show ?thesis using ok total_cong [of t s c_rank] by (simp add: rank_def counts_ok_def p_rank_def)
next
  case (consumer_fails i)
  have "count_ok (c\<lparr>c_failed := True\<rparr>) = count_ok c" for c by (simp add: count_ok_def)
  then have "counts_ok t" using ok consumer_fails unfolding counts_ok_all by (simp add: c_upd_def nth_list_update)
  moreover have "rank s < rank t"
    using total_upd [OF consumer_fails(2), of c_rank "\<lambda>c. c\<lparr>c_failed := True\<rparr>"] consumer_fails
    by (auto simp: rank_def c_rank_def c_may_fail_def)
  ultimately show ?thesis by simp
qed

lemma rank_bound:
  assumes inv: "pc_inv s" and ok: "counts_ok s" shows "rank s \<le> 67000"
proof -
  have pd: "p_data (prod s) \<le> 512" using inv by (simp add: pc_inv_def prod_ok_def Let_def sizes)
  have "p_index l \<le> 8" for l by (cases l) simp_all
  from this [of "p_loc (prod s)"] have p: "p_rank (prod s) \<le> 5129" using pd by (simp add: p_rank_def)
  have ci: "c_index l \<le> 20" for l by (cases l) simp_all
  have "c_rank c \<le> 15384" if x: "c \<in> set (cons s)" for c
  proof -
    obtain i where i: "i < length (cons s)" "c = cons s ! i" using x by (auto simp: in_set_conv_nth)
    then have "count_ok c" using ok by (simp add: counts_ok_all)
    then have "c_i c \<le> 512" "c_loc c = C_wake \<longrightarrow> c_j c \<le> 3" by (simp_all add: count_ok_def sizes)
    then show ?thesis using ci [of "c_loc c"] by (cases "c_loc c = C_wake") (auto simp: c_rank_def)
  qed
  then have "total c_rank s \<le> sum_list (map (\<lambda>_. 15384) (cons s))" unfolding total_def by (rule sum_list_mono)
  then have "total c_rank s \<le> 15384 * length (cons s)" by (simp add: sum_list_triv mult.commute)
  then have "total c_rank s \<le> 61536" using inv by (simp add: pc_inv_def sizes)
  with p show ?thesis by (simp add: rank_def)
qed

lemma steps_inv: "(pc_step ^^ n) s t \<Longrightarrow> pc_inv s \<Longrightarrow> counts_ok s \<Longrightarrow> pc_inv t \<and> counts_ok t \<and> rank s + n \<le> rank t"
proof (induction n arbitrary: t)
  case (Suc n)
  obtain u where u: "(pc_step ^^ n) s u" "pc_step u t" using Suc.prems(1) by (auto elim: relpowp_Suc_E)
  have "pc_inv u \<and> counts_ok u \<and> rank s + n \<le> rank u" by (rule Suc.IH [OF u(1) Suc.prems(2,3)])
  then show ?case using pc_step_inv [OF u(2)] pc_step_rank [OF u(2)] by auto
qed simp

lemma total_zero: "(\<And>i. i < length (cons s) \<Longrightarrow> f (cons s ! i) = 0) \<Longrightarrow> total f s = 0"
  unfolding total_def by (simp add: sum_list_eq_0_iff) (metis in_set_conv_nth)

text \<open>A state in which nobody can go on although nobody has failed is the end.\<close>

lemma stuck_end:
  assumes inv: "pc_inv s" and nf: "\<not> p_failed (prod s)" "\<forall>i < length (cons s). \<not> c_failed (cons s ! i)"
    and some: "cons s \<noteq> []" and stuck: "prod_step s = None" "\<forall>i < length (cons s). cons_step i s = None"
  shows "p_loc (prod s) = P_done \<and> (\<forall>i < length (cons s). c_loc (cons s ! i) = C_exit) \<and>
    consumed s = map (\<lambda>k. (k, k)) [0..<MAX_DATA_NUMBER]"
proof -
  have parts: "length (cons s) \<le> CHILD_NUMBER" "prod_ok s" "locs_ok s" "mutex_ok s" "buffer_ok s" "sems_ok s" "log_ok s"
    using inv by (simp_all add: pc_inv_def)
  have c: "c_loc (cons s ! i) = C_full \<and> full s = 0 \<or> c_loc (cons s ! i) = C_mutex \<and> bufferMutex s = 0 \<or> c_loc (cons s ! i) = C_exit"
    if i: "i < length (cons s)" for i
  proof -
    have "cons_step i s = None" "\<not> c_failed (cons s ! i)" using i stuck(2) nf(2) by blast+
    then show ?thesis by (cases "c_loc (cons s ! i)") (simp_all add: cons_step_def Let_def split: if_splits)
  qed
  have p: "p_loc (prod s) = P_empty \<and> empty s = 0 \<or> p_loc (prod s) = P_mutex \<and> bufferMutex s = 0 \<or> p_loc (prod s) = P_done"
    using stuck(1) nf(1) by (cases "p_loc (prod s)") (auto simp: prod_step_def split: if_splits)
  have "p_crit (p_loc (prod s)) = 0" using p by auto
  moreover have "total (\<lambda>c. c_crit (c_loc c)) s = 0" by (rule total_zero) (use c in force)
  ultimately have m: "bufferMutex s = 1" using parts(4) by (simp add: mutex_ok_def)
  have c: "c_loc (cons s ! i) = C_full \<and> full s = 0 \<or> c_loc (cons s ! i) = C_exit" if "i < length (cons s)" for i
    using c [OF that] m by simp
  have p: "p_loc (prod s) = P_empty \<and> empty s = 0 \<or> p_loc (prod s) = P_done" using p m by simp
  have z: "total (\<lambda>c. taking (c_loc c)) s = 0" "total (\<lambda>c. given (c_loc c)) s = 0" "total left s = 0" "total (\<lambda>c. shown (c_loc c)) s = 0"
    by (rule total_zero; use c in \<open>force simp: left_def\<close>)+
  have w: "written s = p_data (prod s)" using p by (auto simp: written_def)
  have po: "p_loc (prod s) = P_done \<Longrightarrow> p_data (prod s) = MAX_DATA_NUMBER" "p_loc (prod s) = P_empty \<Longrightarrow> p_data (prod s) < MAX_DATA_NUMBER"
    using parts(2) by (simp_all add: prod_ok_def Let_def)
  have st: "stored s = MAX_DATA_NUMBER"
  proof (rule ccontr)
    assume "stored s \<noteq> MAX_DATA_NUMBER"
    then have lt: "stored s < MAX_DATA_NUMBER" using stored_le [OF inv] by simp
    have 0: "0 < length (cons s)" using some by simp
    have "c_loc (cons s ! 0) \<noteq> C_exit"
    proof
      assume "c_loc (cons s ! 0) = C_exit"
      then show False using at_consumer(1) [OF inv 0] lt by simp
    qed
    then have "full s = 0" using c [OF 0] by simp
    then have "written s = stored s" "empty s = 10" using parts(6) lt z p unfolding sems_ok_def by (auto simp: sizes)
    then show False using p po w lt by auto
  qed
  have ex: "c_loc (cons s ! i) = C_exit" if i: "i < length (cons s)" for i
  proof (rule ccontr)
    assume "c_loc (cons s ! i) \<noteq> C_exit"
    then have f: "c_loc (cons s ! i) = C_full" "full s = 0" using c [OF i] by simp_all
    then have "1 \<le> total (\<lambda>c. waiting (c_loc c)) s" using total_ge [OF i, of "\<lambda>c. waiting (c_loc c)"] by simp
    then show False using parts(6) st z f(2) by (simp add: sems_ok_def)
  qed
  have "MAX_DATA_NUMBER \<le> p_data (prod s)" using parts(5) st w by (simp add: buffer_ok_def)
  then have "p_loc (prod s) = P_done" using p po(2) by auto
  then show ?thesis using ex parts(7) st z by (simp add: log_ok_def)
qed

lemma start_counts: "main_start ok file ks = (Some s, ks') \<Longrightarrow> counts_ok s"
proof -
  assume "main_start ok file ks = (Some s, ks')"
  then obtain s0 where "s = s0\<lparr>cons := map (\<lambda>i. new_consumer) (filter (\<lambda>i. ok (8 + i)) [0..<CHILD_NUMBER])\<rparr>" by (auto simp: main_start_def split: prod.splits option.splits)
  then show ?thesis by (simp add: counts_ok_all count_ok_def new_consumer_def)
qed


text \<open>A start where every call succeeds, and a run that follows a list of processes: \<open>None\<close> is the producer.\<close>

definition pc0 :: pc where
  "pc0 = the (fst (main_start (\<lambda>_. True) (\<lambda>_. 0) (\<lambda>_. None)))"

fun follow :: "nat option list \<Rightarrow> pc \<Rightarrow> pc option" where
  "follow [] s = Some s"
| "follow (w # ws) s =
     (case (case w of None \<Rightarrow> prod_step s | Some i \<Rightarrow> if i < length (cons s) then cons_step i s else None) of
        None \<Rightarrow> None | Some s \<Rightarrow> follow ws s)"

lemma follow_runs: "follow ws s = Some t \<Longrightarrow> (pc_step ^^ length ws) s t"
proof (induction ws arbitrary: s)
  case (Cons w ws)
  then obtain u where "follow ws u = Some t" "pc_step s u"
    by (cases w) (auto split: option.splits if_splits intro: producer consumer)
  then have "(pc_step ^^ Suc (length ws)) s t" using Cons.IH [of u] by (blast intro: relpowp_Suc_I2)
  then show ?case by simp
qed simp

lemma runs_steps: "(pc_step ^^ n) s t \<Longrightarrow> pc_runs s t"
proof (induction n arbitrary: t)
  case (Suc n)
  then obtain u where "(pc_step ^^ n) s u" "pc_step u t" by (auto elim: relpowp_Suc_E)
  with Suc.IH show ?case by (blast intro: runs_step)
qed (simp add: runs_refl)

lemma pc0: "main_start (\<lambda>_. True) (\<lambda>_. 0) (\<lambda>_. None) = (Some pc0, snd (main_start (\<lambda>_. True) (\<lambda>_. 0) (\<lambda>_. None)))"
  by (simp add: pc0_def main_start_def prelude_def sem_open_wrapper_def)

lemma fresh0: "sems_fresh (\<lambda>_. None)" by (simp add: sems_fresh_def)

text \<open>The producer writes the first item and consumer 2 takes it.\<close>

definition first_item :: "nat option list" where
  "first_item = replicate 8 None @ replicate 10 (Some 2)"

lemma follow_first_item: "map_option consumed (follow first_item pc0) = Some [(0, 0)]"
  by code_simp


section \<open>Runs without failures\<close>

definition no_failure :: "pc \<Rightarrow> bool" where
  "no_failure s \<longleftrightarrow> \<not> p_failed (prod s) \<and> (\<forall>i < length (cons s). \<not> c_failed (cons s ! i))"

definition stuck :: "pc \<Rightarrow> bool" where
  "stuck s \<longleftrightarrow> prod_step s = None \<and> (\<forall>i < length (cons s). cons_step i s = None)"

lemma prod_step_same: "prod_step s = Some t \<Longrightarrow> cons t = cons s \<and> p_failed (prod t) = p_failed (prod s)"
  by (cases "p_loc (prod s)") (auto simp: prod_step_def p_goto_def seek_def write_item_def move_on_def say_def split: if_splits)

lemma cons_step_same:
  assumes "cons_step i s = Some t" "i < length (cons s)"
  shows "prod t = prod s \<and> length (cons t) = length (cons s) \<and> (\<forall>j < length (cons s). c_failed (cons t ! j) = c_failed (cons s ! j))"
  by (cases "c_loc (cons s ! i)"; insert assms;
      clarsimp simp: cons_step_def Let_def c_upd_def c_goto_def seek_def write_item_def move_on_def say_def nth_list_update split: if_splits)

lemma pc_step_length: "pc_step s t \<Longrightarrow> length (cons t) = length (cons s)"
  by (cases rule: pc_step.cases) (auto dest: prod_step_same cons_step_same)

lemma steps_length: "(pc_step ^^ n) s t \<Longrightarrow> length (cons t) = length (cons s)"
  by (induction n arbitrary: t) (auto dest: pc_step_length elim: relpowp_Suc_E)

text \<open>A run without failures goes on until it is stuck: there is no endless run.\<close>

lemma run_to_the_end:
  assumes "pc_inv s" "counts_ok s" "no_failure s"
  shows "\<exists>n t. (pc_step ^^ n) s t \<and> no_failure t \<and> stuck t"
  using assms
proof (induction "67000 - rank s" arbitrary: s rule: less_induct)
  case less
  show ?case
  proof (cases "stuck s")
    case True
    then show ?thesis using less.prems(3) by (intro exI [of _ 0]) auto
  next
    case False
    then consider t where "prod_step s = Some t" | i t where "i < length (cons s)" "cons_step i s = Some t"
      by (auto simp: stuck_def)
    then obtain t where t: "pc_step s t" "no_failure t"
    proof cases
      case (1 t)
      then show thesis using less.prems(3) prod_step_same [OF 1] by (intro that [OF producer [OF 1]]) (simp add: no_failure_def)
    next
      case (2 i t)
      then show thesis using less.prems(3) cons_step_same [OF 2(2,1)] by (intro that [OF consumer [OF 2]]) (simp add: no_failure_def)
    qed
    have k: "pc_inv t" "counts_ok t" "rank s < rank t"
      using pc_step_inv [OF t(1) less.prems(1)] pc_step_rank [OF t(1) less.prems(2)] by simp_all
    then have "67000 - rank t < 67000 - rank s" using rank_bound [OF k(1,2)] by simp
    from less.hyps [OF this k(1,2) t(2)] obtain n u where "(pc_step ^^ n) t u" "no_failure u" "stuck u" by blast
    moreover from t(1) this(1) have "(pc_step ^^ Suc n) s u" by (rule relpowp_Suc_I2)
    ultimately show ?thesis by blast
  qed
qed



section \<open>The next run\<close>

text \<open>A run whose \<open>bufferMutex\<close> is 0 at the start: nobody gets past it.\<close>

definition early :: "consumer \<Rightarrow> bool" where "early c \<longleftrightarrow> c_i c = 0 \<and> c_loc c \<in> {C_test, C_full, C_mutex}"

definition before_mutex :: "pc \<Rightarrow> bool" where
  "before_mutex s \<longleftrightarrow> bufferMutex s = 0 \<and> printed s = [] \<and> p_data (prod s) = 0 \<and> p_loc (prod s) \<in> {P_test, P_empty, P_mutex} \<and>
     (\<forall>i < length (cons s). early (cons s ! i))"

lemma before_mutex_step:
  assumes "pc_step s t" "before_mutex s" shows "before_mutex t"
  using assms(1)
proof cases
  case producer
  then show ?thesis using assms(2) by (auto simp: before_mutex_def prod_step_def p_goto_def sizes split: if_splits)
next
  case (consumer i)
  have e: "early (cons s ! i)" using assms(2) consumer(1) by (simp add: before_mutex_def)
  have z: "bufferMutex s = 0" using assms(2) by (simp add: before_mutex_def)
  have "\<exists>l \<in> {C_test, C_full, C_mutex}. prod t = prod s \<and> bufferMutex t = bufferMutex s \<and> printed t = printed s \<and>
    cons t = (cons s)[i := c_goto l (cons s ! i)]"
    using consumer(2) e z by (cases "c_loc (cons s ! i)") (auto simp: early_def cons_step_def Let_def c_upd_def sizes split: if_splits)
  then obtain l where l: "l \<in> {C_test, C_full, C_mutex}" "prod t = prod s" "bufferMutex t = bufferMutex s" "printed t = printed s"
    "cons t = (cons s)[i := c_goto l (cons s ! i)]" by blast
  then have "early (c_goto l (cons s ! i))" using e by (simp add: early_def c_goto_def)
  then have "early (cons t ! j)" if "j < length (cons t)" for j
    using that assms(2) l(5) by (cases "j = i") (simp_all add: before_mutex_def)
  then show ?thesis using assms(2) l by (simp add: before_mutex_def)
next
  case producer_fails
  then show ?thesis using assms(2) by (auto simp: before_mutex_def p_may_fail_def)
next
  case (consumer_fails i)
  then have "early (cons s ! i)" using assms(2) by (simp add: before_mutex_def)
  then show ?thesis using consumer_fails by (auto simp: early_def c_may_fail_def)
qed

lemma before_mutex_runs: "pc_runs s t \<Longrightarrow> before_mutex s \<Longrightarrow> before_mutex t"
  by (induction rule: pc_runs.induct) (auto intro: before_mutex_step)

text \<open>C32. What a failed run does to the next one. When the producer's \<open>write\<close> fails, it returns without
  \<open>sem_unlink\<close> while it holds \<open>bufferMutex\<close>. The next run finds the semaphore with the value 0, and then, whatever
  happens, none of its processes gets past \<open>sem_wait(bufferMutex)\<close>: nothing is produced, nothing is consumed and nobody
  finishes.\<close>

theorem failed_run_blocks_next:
  assumes "sems_fresh ks" "main_start ok file ks = (Some s, ks')"
  shows "\<exists>t. pc_runs s t \<and> p_failed (prod t) \<and> main_cleanup t ks' = None \<and>
    (\<forall>ok2 file2 ks2 s2 ks2' t2. ks2 ''bufferMutex'' = Some (bufferMutex t) \<longrightarrow> main_start ok2 file2 ks2 = (Some s2, ks2') \<longrightarrow>
       pc_runs s2 t2 \<longrightarrow> printed t2 = [] \<and> p_loc (prod t2) \<in> {P_test, P_empty, P_mutex} \<and>
         (\<forall>i < length (cons t2). c_loc (cons t2 ! i) \<in> {C_test, C_full, C_mutex}) \<and> main_cleanup t2 ks2' = None)"
proof -
  have s: "bufferMutex s = 1" "empty s = 10" "prod s = \<lparr>p_loc = P_test, p_failed = False, p_data = 0, p_pos = 0\<rparr>"
    unfolding start_state [OF assms] by (simp_all add: sizes write_item_def seek_def move_on_def)
  have "\<exists>u. follow (replicate 4 None) s = Some u \<and> bufferMutex u = 0 \<and> p_loc (prod u) = P_write \<and> \<not> p_failed (prod u)"
  proof -
    have f: "replicate 4 x = [x, x, x, x]" for x :: "nat option" by (simp add: eval_nat_numeral)
    show ?thesis by (simp add: f prod_step_def p_goto_def seek_def s sizes)
  qed
  then obtain u where u: "pc_runs s u" "bufferMutex u = 0" "p_loc (prod u) = P_write" "\<not> p_failed (prod u)"
    using runs_steps [OF follow_runs] by blast
  define t where "t = u\<lparr>prod := (prod u)\<lparr>p_failed := True\<rparr>\<rparr>"
  have "pc_runs s t" unfolding t_def by (rule runs_step [OF u(1) producer_fails]) (simp_all add: u p_may_fail_def)
  moreover have "before_mutex s2" if "ks2 ''bufferMutex'' = Some 0" "main_start ok2 file2 ks2 = (Some s2, ks2')" for ok2 file2 ks2 s2 ks2'
    using that by (auto simp: before_mutex_def main_start_def prelude_def sem_open_wrapper_def Let_def
      write_item_def seek_def move_on_def new_consumer_def early_def split: if_splits prod.splits option.splits)
  then have b: "before_mutex t2" if "ks2 ''bufferMutex'' = Some 0" "main_start ok2 file2 ks2 = (Some s2, ks2')" "pc_runs s2 t2"
    for ok2 file2 ks2 s2 ks2' t2 using that before_mutex_runs by blast
  have "main_cleanup t2 k2 = None" if "before_mutex t2" for t2 k2 using that by (auto simp: before_mutex_def main_cleanup_def)
  moreover have "bufferMutex t = 0" "p_failed (prod t)" "main_cleanup t ks' = None" by (simp_all add: t_def u main_cleanup_def)
  ultimately show ?thesis using b unfolding before_mutex_def early_def by (intro exI [of _ t]) auto
qed

theorem failed_run_blocks_next_witness:
  "\<exists>t. pc_runs pc0 t \<and> p_failed (prod t) \<and> main_cleanup t (snd (main_start (\<lambda>_. True) (\<lambda>_. 0) (\<lambda>_. None))) = None"
  using failed_run_blocks_next [OF fresh0 pc0] by blast

end
