(* ===== verification/Kstack.thy ===== *)
theory Kstack imports Forkprops begin

text \<open>
  Lab 4: switching tasks on the kernel stack. \<open>machine\<close> is the kernel of the other theories (\<open>kk\<close>) with the
  registers of the processor and the longs of the kernel stacks. The assembler routines of
  \<open>kernelstack_utilities.s\<close> and the entry of a system call (\<open>system_call.s\<close>) are functions on it, one
  instruction after the other; \<open>copy_process\<close> and \<open>schedule\<close> are those of Lab 4's \<open>fork.c\<close> and \<open>sched.c\<close>.

  \<open>km\<close> holds the longs at addresses that are multiples of 4. Of a task's page it is used for the stack, for the
  field \<open>kernelstack\<close>, which the assembler reaches by its offset, and for \<open>esp0\<close> in the only segment \<open>init_tss\<close>.
\<close>

unbundle bit_operations_syntax

section \<open>The layout of the structures\<close>

text \<open>A field: its name, the size and the alignment of one element, and the number of elements.\<close>

type_synonym cfield = "string \<times> nat \<times> nat \<times> nat"

definition align_up :: "nat \<Rightarrow> nat \<Rightarrow> nat" where
  "align_up a n = (n + a - 1) div a * a"

fun offsets :: "nat \<Rightarrow> cfield list \<Rightarrow> (string \<times> nat) list" where
  "offsets n [] = []"
| "offsets n ((f, sz, al, cnt) # fs) = (f, align_up al n) # offsets (align_up al n + sz * cnt) fs"

fun end_offset :: "nat \<Rightarrow> cfield list \<Rightarrow> nat" where
  "end_offset n [] = n"
| "end_offset n ((f, sz, al, cnt) # fs) = end_offset (align_up al n + sz * cnt) fs"

definition sizeof :: "cfield list \<Rightarrow> nat" where
  "sizeof fs = align_up 4 (end_offset 0 fs)"

abbreviation clong :: "string \<Rightarrow> cfield" where "clong f \<equiv> (f, 4, 4, 1)"
abbreviation cshort :: "string \<Rightarrow> cfield" where "cshort f \<equiv> (f, 2, 2, 1)"

definition i387_layout :: "cfield list" where
  "i387_layout = [clong ''cwd'', clong ''swd'', clong ''twd'', clong ''fip'', clong ''fcs'', clong ''foo'', clong ''fos'',
     (''st_space'', 4, 4, 20)]"

definition tss_layout :: "cfield list" where
  "tss_layout = [clong ''back_link'', clong ''esp0'', clong ''ss0'', clong ''esp1'', clong ''ss1'', clong ''esp2'',
     clong ''ss2'', clong ''cr3'', clong ''eip'', clong ''eflags'', clong ''eax'', clong ''ecx'', clong ''edx'', clong ''ebx'',
     clong ''esp'', clong ''ebp'', clong ''esi'', clong ''edi'', clong ''es'', clong ''cs'', clong ''ss'', clong ''ds'',
     clong ''fs'', clong ''gs'', clong ''ldt'', clong ''trace_bitmap'', (''i387'', sizeof i387_layout, 4, 1)]"

text \<open>A \<open>struct sigaction\<close> has 16 bytes, a descriptor 8.\<close>

definition task_layout :: "cfield list" where
  "task_layout = [clong ''state'', clong ''counter'', clong ''priority'', clong ''signal'', (''sigaction'', 16, 4, 32),
     clong ''blocked'', clong ''kernelstack'', clong ''exit_code'', clong ''start_code'', clong ''end_code'', clong ''end_data'',
     clong ''brk'', clong ''start_stack'', clong ''pid'', clong ''father'', clong ''pgrp'', clong ''session'', clong ''leader'',
     cshort ''uid'', cshort ''euid'', cshort ''suid'', cshort ''gid'', cshort ''egid'', cshort ''sgid'', clong ''alarm'',
     clong ''utime'', clong ''stime'', clong ''cutime'', clong ''cstime'', clong ''start_time'', cshort ''used_math'',
     clong ''tty'', cshort ''umask'', clong ''pwd'', clong ''root'', clong ''executable'', clong ''close_on_exec'',
     (''filp'', 4, 4, NR_OPEN), (''ldt'', 8, 4, 3), (''tss'', sizeof tss_layout, 4, 1)]"

text \<open>The offsets the assembler uses (\<open>kernelstack_utilities.s\<close>, \<open>system_call.s\<close>).\<close>

definition KERNEL_STACK :: u32 where "KERNEL_STACK = 33 * 16 + 4"
definition ESP0 :: u32 where "ESP0 = 4"

section \<open>The processor\<close>

record machine =
  kk :: kern
  km :: "u32 \<Rightarrow> u32"
  init_tss :: u32
  g_eax :: u32
  g_ebx :: u32
  g_ecx :: u32
  g_edx :: u32
  g_esi :: u32
  g_edi :: u32
  g_ebp :: u32
  g_esp :: u32
  g_eip :: u32
  g_eflags :: u32
  g_cs :: u16
  g_ds :: u16
  g_es :: u16
  g_fs :: u16
  g_gs :: u16
  g_ss :: u16
  g_ldtr :: u16

definition pushl :: "u32 \<Rightarrow> machine \<Rightarrow> machine" where
  "pushl v m = m\<lparr>km := (km m)(g_esp m - 4 := v), g_esp := g_esp m - 4\<rparr>"

abbreviation push_seg :: "u16 \<Rightarrow> machine \<Rightarrow> machine" where "push_seg v \<equiv> pushl (ucast v)"

definition popl :: "machine \<Rightarrow> u32 \<times> machine" where
  "popl m = (km m (g_esp m), m\<lparr>g_esp := g_esp m + 4\<rparr>)"

definition ret :: "machine \<Rightarrow> machine" where
  "ret m = (let (v, m) = popl m in m\<lparr>g_eip := v\<rparr>)"

text \<open>\<open>iret\<close>: a selector with another privilege level than the kernel's (0) means that the stack changes, too.\<close>

definition iret :: "machine \<Rightarrow> machine" where
  "iret m =
     (let (i, m) = popl m; (c, m) = popl m; (f, m) = popl m; m = m\<lparr>g_eip := i, g_cs := ucast c, g_eflags := f\<rparr> in
      if c AND 3 = 0 then m
      else let (e, m) = popl m; (s, m) = popl m in m\<lparr>g_esp := e, g_ss := ucast s\<rparr>)"

section \<open>Entering the kernel\<close>

text \<open>\<open>int $0x80\<close> in user mode: the processor takes the kernel stack from the task state segment.\<close>

definition int_0x80 :: "machine \<Rightarrow> machine" where
  "int_0x80 u =
     (let m = u\<lparr>g_esp := km u (init_tss u + ESP0), g_ss := 0x10\<rparr>;
          m = push_seg (g_ss u) m; m = pushl (g_esp u) m; m = pushl (g_eflags u) m;
          m = push_seg (g_cs u) m; m = pushl (g_eip u) m
      in m\<lparr>g_cs := 8\<rparr>)"

text \<open>\<open>system_call\<close> up to the call of the routine; \<open>r\<close> is the address it returns to.\<close>

definition system_call :: "u32 \<Rightarrow> machine \<Rightarrow> machine" where
  "system_call r m =
     (let m = push_seg (g_ds m) m; m = push_seg (g_es m) m; m = push_seg (g_fs m) m;
          m = pushl (g_edx m) m; m = pushl (g_ecx m) m; m = pushl (g_ebx m) m;
          m = m\<lparr>g_edx := 0x10\<rparr>; m = m\<lparr>g_ds := 0x10\<rparr>; m = m\<lparr>g_es := 0x10\<rparr>; m = m\<lparr>g_edx := 0x17\<rparr>; m = m\<lparr>g_fs := 0x17\<rparr>
      in pushl r m)"

text \<open>\<open>sys_fork\<close> behind the call of \<open>find_empty_process\<close>, which found the slot \<open>nr\<close> and left \<open>k\<close>; like any C function it may
  leave anything in \<open>ecx\<close> and \<open>edx\<close>.\<close>

definition sys_fork :: "nat \<Rightarrow> kern \<Rightarrow> u32 \<Rightarrow> u32 \<Rightarrow> u32 \<Rightarrow> machine \<Rightarrow> machine" where
  "sys_fork nr k c d r m =
     (let m = m\<lparr>kk := k, g_eax := of_nat nr, g_ecx := c, g_edx := d\<rparr>;
          m = push_seg (g_gs m) m; m = pushl (g_esi m) m; m = pushl (g_edi m) m; m = pushl (g_ebp m) m; m = pushl (g_eax m) m
      in pushl r m)"

text \<open>The arguments of \<open>copy_process\<close>, behind the return address.\<close>

definition arg :: "machine \<Rightarrow> nat \<Rightarrow> u32" where
  "arg m i = km m (g_esp m + 4 * of_nat (Suc i))"

definition stack_args :: "machine \<Rightarrow> nat \<times> stack_regs" where
  "stack_args m = (unat (arg m 0),
     \<lparr>r_ebp = arg m 1, r_edi = arg m 2, r_esi = arg m 3, r_gs = arg m 4, r_ebx = arg m 6, r_ecx = arg m 7, r_edx = arg m 8,
      r_fs = arg m 9, r_es = arg m 10, r_ds = arg m 11, r_eip = arg m 12, r_cs = arg m 13, r_eflags = arg m 14,
      r_esp = arg m 15, r_ss = arg m 16\<rparr>)"

section \<open>copy_process\<close>

fun put_down :: "u32 list \<Rightarrow> u32 \<Rightarrow> (u32 \<Rightarrow> u32) \<Rightarrow> u32 \<times> (u32 \<Rightarrow> u32)" where
  "put_down [] krnstack h = (krnstack, h)"
| "put_down (v # vs) krnstack h = put_down vs (krnstack - 4) (h(krnstack - 4 := v))"

definition child_words :: "u32 \<Rightarrow> stack_regs \<Rightarrow> u32 list" where
  "child_words first_return r =
     [r_ss r AND 0xffff, r_esp r, r_eflags r, r_cs r AND 0xffff, r_eip r,
      r_ds r AND 0xffff, r_es r AND 0xffff, r_fs r AND 0xffff, r_gs r AND 0xffff, r_esi r, r_edi r, r_edx r,
      first_return, r_ebp r, r_ecx r, r_ebx r, 0]"

text \<open>The new page is clear (\<open>get_free_page\<close>), \<open>*p = *current\<close> copies the structure, then the stack is filled.\<close>

definition copy_struct :: "u32 \<Rightarrow> u32 \<Rightarrow> (u32 \<Rightarrow> u32) \<Rightarrow> u32 \<Rightarrow> u32" where
  "copy_struct p c h x =
     (if page_base x = p then if unat (x - p) < sizeof task_layout then h (c + (x - p)) else 0 else h x)"

definition child_stack :: "u32 \<Rightarrow> stack_regs \<Rightarrow> u32 \<Rightarrow> u32 \<Rightarrow> (u32 \<Rightarrow> u32) \<Rightarrow> u32 \<Rightarrow> u32" where
  "child_stack first_return r p c h =
     (let (krnstack, h) = put_down (child_words first_return r) (4096 + p) (copy_struct p c h)
      in h(p + KERNEL_STACK := krnstack))"

definition copy_process4 ::
  "(u32 \<Rightarrow> desc_struct) \<Rightarrow> (u32 \<Rightarrow> desc_struct) \<Rightarrow> u32 \<Rightarrow> machine \<Rightarrow> kstop + (errno + int) \<times> machine" where
  "copy_process4 tss_desc ldt_desc first_return m =
     (let (nr, r) = stack_args m; k = kk m; (p, s) = get_free_page (kmm k); k = k\<lparr>kmm := s\<rparr> in
      if p = 0 then Inr (Inl EAGAIN, m\<lparr>kk := k\<rparr>)
      else let c = child_task nr p r k;
               k = k\<lparr>task := (task k)(nr := p), ts := (ts k)(p := c)\<rparr>;
               m = m\<lparr>km := child_stack first_return r p (current k) (km m)\<rparr>;
               k = (if last_task_used_math k = current k
                    then upd_ts p (\<lambda>t. t\<lparr>tss := (tss t)\<lparr>i387 := fpu k\<rparr>\<rparr>) (k\<lparr>ts_flag := False\<rparr>) else k)
      in sbind (copy_mem nr p k) (\<lambda>(e, k).
           case e of
             Inl _ \<Rightarrow> let k = k\<lparr>task := (task k)(nr := 0)\<rparr> in
               sbind (lift_mm (free_page p) k) (\<lambda>k. Inr (Inl EAGAIN, m\<lparr>kk := k\<rparr>))
           | Inr _ \<Rightarrow>
               let k = count_files (filp (ts k p)) k;
                   k = count_inode (pwd (cur k)) k;
                   k = count_inode (root (cur k)) k;
                   k = count_inode (executable (cur k)) k;
                   k = k\<lparr>gdt := (gdt k)(2 * nr + FIRST_TSS_ENTRY := tss_desc p, 2 * nr + FIRST_LDT_ENTRY := ldt_desc p)\<rparr>;
                   k = upd_ts p (\<lambda>t. t\<lparr>state := TASK_RUNNING\<rparr>) k
               in Inr (Inr (last_pid k), m\<lparr>kk := k\<rparr>)))"

section \<open>Switching\<close>

definition first_return_from_kernel :: "machine \<Rightarrow> machine" where
  "first_return_from_kernel m =
     (let (v, m) = popl m; m = m\<lparr>g_edx := v\<rparr>; (v, m) = popl m; m = m\<lparr>g_edi := v\<rparr>; (v, m) = popl m; m = m\<lparr>g_esi := v\<rparr>;
          (v, m) = popl m; m = m\<lparr>g_gs := ucast v\<rparr>; (v, m) = popl m; m = m\<lparr>g_fs := ucast v\<rparr>;
          (v, m) = popl m; m = m\<lparr>g_es := ucast v\<rparr>; (v, m) = popl m; m = m\<lparr>g_ds := ucast v\<rparr>
      in iret m)"

text \<open>The middle of \<open>switch_to\<close>: from \<open>movl %ebx,%eax\<close> to \<open>clts\<close>.\<close>

definition switch_stacks :: "machine \<Rightarrow> machine" where
  "switch_stacks m =
     (let m = m\<lparr>g_eax := g_ebx m\<rparr>;
          c = current (kk m); m = m\<lparr>kk := (kk m)\<lparr>current := g_eax m\<rparr>, g_eax := c\<rparr>;
          m = m\<lparr>g_ecx := init_tss m\<rparr>;
          m = m\<lparr>g_ebx := g_ebx m + 4096\<rparr>;
          m = m\<lparr>km := (km m)(g_ecx m + ESP0 := g_ebx m)\<rparr>;
          m = m\<lparr>km := (km m)(g_eax m + KERNEL_STACK := g_esp m)\<rparr>;
          m = m\<lparr>g_ebx := km m (g_ebp m + 8)\<rparr>;
          m = m\<lparr>g_esp := km m (g_ebx m + KERNEL_STACK)\<rparr>;
          m = m\<lparr>g_ecx := km m (g_ebp m + 12)\<rparr>;
          m = m\<lparr>g_ldtr := ucast (g_ecx m)\<rparr>;
          m = m\<lparr>g_ecx := 0x17\<rparr>;
          m = m\<lparr>g_fs := ucast (g_ecx m)\<rparr>
      in if g_eax m = last_task_used_math (kk m) then m\<lparr>kk := (kk m)\<lparr>ts_flag := False\<rparr>\<rparr> else m)"

definition switch_to4 :: "machine \<Rightarrow> machine" where
  "switch_to4 m =
     (let m = pushl (g_ebp m) m;
          m = m\<lparr>g_ebp := g_esp m\<rparr>;
          m = pushl (g_ecx m) m; m = pushl (g_ebx m) m; m = pushl (g_eax m) m;
          m = m\<lparr>g_ebx := km m (g_ebp m + 8)\<rparr>;
          m = (if g_ebx m = current (kk m) then m else switch_stacks m);
          (v, m) = popl m; m = m\<lparr>g_eax := v\<rparr>; (v, m) = popl m; m = m\<lparr>g_ebx := v\<rparr>;
          (v, m) = popl m; m = m\<lparr>g_ecx := v\<rparr>; (v, m) = popl m; m = m\<lparr>g_ebp := v\<rparr>
      in ret m)"

text \<open>The call in C: the arguments from the right, then the return address.\<close>

definition call_switch_to :: "u32 \<Rightarrow> u32 \<Rightarrow> u32 \<Rightarrow> machine \<Rightarrow> machine" where
  "call_switch_to r pnext sel m = switch_to4 (pushl r (pushl pnext (pushl sel m)))"

section \<open>schedule\<close>

definition check_task4 :: "u32 \<Rightarrow> kern \<Rightarrow> kern" where
  "check_task4 p k =
     (let k = (if alarm (ts k p) \<noteq> 0 \<and> alarm (ts k p) < jiffies k
               then upd_ts p (\<lambda>t. t\<lparr>signal := signal t OR S_bit SIGALRM, alarm := 0\<rparr>) k else k)
      in if signal (ts k p) AND NOT (BLOCKABLE AND blocked (ts k p)) \<noteq> 0 \<and> state (ts k p) = TASK_INTERRUPTIBLE
         then upd_ts p (\<lambda>t. t\<lparr>state := TASK_RUNNING\<rparr>) k else k)"

fun pick_scan4 :: "nat \<Rightarrow> int \<Rightarrow> nat \<Rightarrow> u32 \<Rightarrow> kern \<Rightarrow> int \<times> nat \<times> u32" where
  "pick_scan4 0 c next_nr pnext k = (c, next_nr, pnext)"
| "pick_scan4 (Suc n) c next_nr pnext k =
     (if task k (Suc n) = 0 then pick_scan4 n c next_nr pnext k
      else let t = ts k (task k (Suc n)) in
        if state t = TASK_RUNNING \<and> counter t > c then pick_scan4 n (counter t) (Suc n) (task k (Suc n)) k
        else pick_scan4 n c next_nr pnext k)"

text \<open>The loop does not reset \<open>pnext\<close> when it starts again.\<close>

partial_function (option) sched_loop4 :: "u32 \<Rightarrow> kern \<Rightarrow> (nat \<times> u32 \<times> kern) option" where
  "sched_loop4 pnext k =
     (let r = pick_scan4 (NR_TASKS - 1) (- 1) 0 pnext k in
      if fst r \<noteq> 0 then Some (fst (snd r), snd (snd r), k) else sched_loop4 (snd (snd r)) (recharge k))"

text \<open>\<open>schedule\<close> up to the return of \<open>switch_to\<close>, by then perhaps in another task; \<open>r\<close> is the address it returns to.\<close>

definition schedule4 :: "u32 \<Rightarrow> machine \<Rightarrow> machine option" where
  "schedule4 r m =
     (case sched_loop4 (init_task (kk m)) (for_slots (NR_TASKS - 1) check_task4 (kk m)) of
        None \<Rightarrow> None
      | Some (next_nr, pnext, k) \<Rightarrow> Some (call_switch_to r pnext (LDT_sel next_nr) (m\<lparr>kk := k\<rparr>)))"

end
