(* ===== verification/Kstackprops.thy ===== *)
theory Kstackprops imports Kstack begin

text \<open>
  What the kernel-stack switch promises. \<open>slot t n\<close> is the long at offset \<open>n\<close> of the page of task \<open>t\<close>; \<open>context_at\<close> reads
  the context that a switch left on the stack of a task.
\<close>

unbundle bit_operations_syntax

section \<open>Slots of a page\<close>

definition slot :: "u32 \<Rightarrow> nat \<Rightarrow> u32" where "slot t n = t + of_nat n"

lemma unat_of_small [simp]: "n < 4096 \<Longrightarrow> unat (of_nat n :: u32) = n"
  by (simp add: unat_of_nat)

lemma unat_slot: "page_base t = t \<Longrightarrow> n < 4096 \<Longrightarrow> unat (slot t n) = unat t + n"
  by (simp add: slot_def unat_aligned_add)

lemma page_base_slot [simp]: "page_base t = t \<Longrightarrow> n < 4096 \<Longrightarrow> page_base (slot t n) = t"
  by (simp add: slot_def)

lemma slot_inj [simp]:
  assumes "page_base t = t" "page_base u = u" "n < 4096" "m < 4096"
  shows "slot t n = slot u m \<longleftrightarrow> t = u \<and> n = m"
proof
  assume e: "slot t n = slot u m"
  then have "page_base (slot t n) = page_base (slot u m)" by simp
  then have "t = u" using assms by simp
  moreover have "unat t + n = unat u + m" using e unat_slot assms by metis
  ultimately show "t = u \<and> n = m" by simp
qed simp

lemma slot_add: "slot t n + 4 = slot t (n + 4)" "slot t n + 8 = slot t (n + 8)" "slot t n + 12 = slot t (n + 12)"
  "slot t n + 16 = slot t (n + 16)" "slot t n + 20 = slot t (n + 20)"
  by (simp_all add: slot_def)

lemma slot_sub: "slot t (n + 4) - 4 = slot t n"
  by (simp add: slot_def)

lemma slot_consts: "t + KERNEL_STACK = slot t 532" "4096 + t = slot t 4096" "t + 4096 = slot t 4096"
  by (simp_all add: slot_def KERNEL_STACK_def)

section \<open>The layout of the structures\<close>


section \<open>One switch\<close>

record kcontext =
  c_eax :: u32
  c_ebx :: u32
  c_ecx :: u32
  c_ebp :: u32
  c_eip :: u32
  c_esp :: u32

definition context_at :: "(u32 \<Rightarrow> u32) \<Rightarrow> u32 \<Rightarrow> kcontext" where
  "context_at h t = (let sp = h (t + KERNEL_STACK) in
     \<lparr>c_eax = h sp, c_ebx = h (sp + 4), c_ecx = h (sp + 8), c_ebp = h (sp + 12), c_eip = h (sp + 16), c_esp = sp + 20\<rparr>)"

definition context_of :: "machine \<Rightarrow> kcontext" where
  "context_of m = \<lparr>c_eax = g_eax m, c_ebx = g_ebx m, c_ecx = g_ecx m, c_ebp = g_ebp m, c_eip = g_eip m, c_esp = g_esp m\<rparr>"

text \<open>The context that a routine called with the stack pointer at its return address goes back to.\<close>

definition caller_context :: "machine \<Rightarrow> kcontext" where
  "caller_context m = (context_of m)\<lparr>c_eip := km m (g_esp m), c_esp := g_esp m + 4\<rparr>"

text \<open>The stack of the current task has room for the call, above the structure; the segment whose \<open>esp0\<close> is set is that of
  \<open>init_task\<close>.\<close>

definition can_switch :: "machine \<Rightarrow> bool" where
  "can_switch m \<longleftrightarrow> page_base (current (kk m)) = current (kk m) \<and> page_base (init_task (kk m)) = init_task (kk m) \<and>
     init_tss m = slot (init_task (kk m)) 748 \<and>
     (\<exists>n. 976 \<le> n \<and> n + 12 \<le> 4096 \<and> g_esp m = slot (current (kk m)) n)"

definition switched :: "machine \<Rightarrow> u32 \<Rightarrow> u16 \<Rightarrow> machine \<Rightarrow> bool" where
  "switched m p sel m' \<longleftrightarrow>
     kk m' = (kk m)\<lparr>current := p, ts_flag := ts_flag (kk m) \<and> last_task_used_math (kk m) \<noteq> current (kk m)\<rparr> \<and>
     init_tss m' = init_tss m \<and> g_ldtr m' = sel \<and> g_fs m' = 0x17 \<and>
     g_edx m' = g_edx m \<and> g_esi m' = g_esi m \<and> g_edi m' = g_edi m \<and> g_gs m' = g_gs m \<and> g_ds m' = g_ds m \<and> g_es m' = g_es m \<and>
     g_cs m' = g_cs m \<and> g_ss m' = g_ss m \<and> g_eflags m' = g_eflags m"

lemma pushl_simps [simp]:
  "km (pushl v m) = (km m)(g_esp m - 4 := v)" "g_esp (pushl v m) = g_esp m - 4" "kk (pushl v m) = kk m"
  "init_tss (pushl v m) = init_tss m" "g_eax (pushl v m) = g_eax m" "g_ebx (pushl v m) = g_ebx m" "g_ecx (pushl v m) = g_ecx m"
  "g_edx (pushl v m) = g_edx m" "g_esi (pushl v m) = g_esi m" "g_edi (pushl v m) = g_edi m" "g_ebp (pushl v m) = g_ebp m"
  "g_eip (pushl v m) = g_eip m" "g_eflags (pushl v m) = g_eflags m" "g_cs (pushl v m) = g_cs m" "g_ds (pushl v m) = g_ds m"
  "g_es (pushl v m) = g_es m" "g_fs (pushl v m) = g_fs m" "g_gs (pushl v m) = g_gs m" "g_ss (pushl v m) = g_ss m"
  "g_ldtr (pushl v m) = g_ldtr m"
  by (simp_all add: pushl_def)

text \<open>The three parts of \<open>switch_to\<close>.\<close>

definition switch_entry :: "machine \<Rightarrow> machine" where
  "switch_entry m =
     (let m = pushl (g_ebp m) m; m = m\<lparr>g_ebp := g_esp m\<rparr>; m = pushl (g_ecx m) m; m = pushl (g_ebx m) m; m = pushl (g_eax m) m
      in m\<lparr>g_ebx := km m (g_ebp m + 8)\<rparr>)"

definition switch_leave :: "machine \<Rightarrow> machine" where
  "switch_leave m =
     (let (v, m) = popl m; m = m\<lparr>g_eax := v\<rparr>; (v, m) = popl m; m = m\<lparr>g_ebx := v\<rparr>;
          (v, m) = popl m; m = m\<lparr>g_ecx := v\<rparr>; (v, m) = popl m; m = m\<lparr>g_ebp := v\<rparr> in ret m)"

lemma switch_parts:
  "switch_to4 m = switch_leave (if g_ebx (switch_entry m) = current (kk (switch_entry m)) then switch_entry m
     else switch_stacks (switch_entry m))"
  by (simp add: switch_to4_def switch_entry_def switch_leave_def Let_def)

lemma leave_context:
  "context_of (switch_leave m) = \<lparr>c_eax = km m (g_esp m), c_ebx = km m (g_esp m + 4), c_ecx = km m (g_esp m + 8),
     c_ebp = km m (g_esp m + 12), c_eip = km m (g_esp m + 16), c_esp = g_esp m + 20\<rparr>"
  by (simp add: context_of_def switch_leave_def popl_def ret_def Let_def add.commute)

lemma leave_frame:
  "kk (switch_leave m) = kk m" "km (switch_leave m) = km m" "init_tss (switch_leave m) = init_tss m"
  "g_edx (switch_leave m) = g_edx m" "g_esi (switch_leave m) = g_esi m" "g_edi (switch_leave m) = g_edi m"
  "g_eflags (switch_leave m) = g_eflags m" "g_cs (switch_leave m) = g_cs m" "g_ds (switch_leave m) = g_ds m"
  "g_es (switch_leave m) = g_es m" "g_fs (switch_leave m) = g_fs m" "g_gs (switch_leave m) = g_gs m"
  "g_ss (switch_leave m) = g_ss m" "g_ldtr (switch_leave m) = g_ldtr m"
  by (simp_all add: switch_leave_def popl_def ret_def Let_def)

lemma entry_frame:
  "kk (switch_entry m) = kk m" "init_tss (switch_entry m) = init_tss m"
  "g_edx (switch_entry m) = g_edx m" "g_esi (switch_entry m) = g_esi m" "g_edi (switch_entry m) = g_edi m"
  "g_eflags (switch_entry m) = g_eflags m" "g_cs (switch_entry m) = g_cs m" "g_ds (switch_entry m) = g_ds m"
  "g_es (switch_entry m) = g_es m" "g_fs (switch_entry m) = g_fs m" "g_gs (switch_entry m) = g_gs m"
  "g_ss (switch_entry m) = g_ss m" "g_ldtr (switch_entry m) = g_ldtr m"
  by (simp_all add: switch_entry_def Let_def)

lemma entry_regs:
  "g_esp (switch_entry m) = g_esp m - 16" "g_ebp (switch_entry m) = g_esp m - 4"
  "km (switch_entry m) = (km m)(g_esp m - 4 := g_ebp m, g_esp m - 8 := g_ecx m, g_esp m - 12 := g_ebx m, g_esp m - 16 := g_eax m)"
  "g_ebx (switch_entry m) = km (switch_entry m) (g_esp m + 4)"
  by (simp_all add: switch_entry_def Let_def add.commute)

lemma stacks_frame:
  "kk (switch_stacks m) = (kk m)\<lparr>current := g_ebx m, ts_flag := ts_flag (kk m) \<and> last_task_used_math (kk m) \<noteq> current (kk m)\<rparr>"
  "init_tss (switch_stacks m) = init_tss m"
  "g_edx (switch_stacks m) = g_edx m" "g_esi (switch_stacks m) = g_esi m" "g_edi (switch_stacks m) = g_edi m"
  "g_eflags (switch_stacks m) = g_eflags m" "g_cs (switch_stacks m) = g_cs m" "g_ds (switch_stacks m) = g_ds m"
  "g_es (switch_stacks m) = g_es m" "g_fs (switch_stacks m) = 0x17" "g_gs (switch_stacks m) = g_gs m"
  "g_ss (switch_stacks m) = g_ss m"
  by (cases m; cases "kk m"; simp add: switch_stacks_def Let_def cong: let_weak_cong)+

lemma stacks_regs:
  "km (switch_stacks m) = (km m)(init_tss m + ESP0 := g_ebx m + 4096, current (kk m) + KERNEL_STACK := g_esp m)"
  "g_esp (switch_stacks m) = km (switch_stacks m) (km (switch_stacks m) (g_ebp m + 8) + KERNEL_STACK)"
  "g_ldtr (switch_stacks m) = ucast (km (switch_stacks m) (g_ebp m + 12))"
  by (cases m; simp add: switch_stacks_def Let_def cong: let_weak_cong)+

text \<open>The addresses a switch uses are slots of pages, so that none of them meets another.\<close>

lemma can_switch_addresses:
  assumes "can_switch m"
  obtains n t where "t = current (kk m)" "page_base t = t" "960 \<le> n" "n + 28 \<le> 4096" "g_esp m = slot t (n + 16)"
    "g_esp m - 16 = slot t n" "g_esp m - 12 = slot t (n + 4)" "g_esp m - 8 = slot t (n + 8)" "g_esp m - 4 = slot t (n + 12)"
    "g_esp m + 4 = slot t (n + 20)" "g_esp m + 8 = slot t (n + 24)"
    "page_base (init_task (kk m)) = init_task (kk m)" "init_tss m + ESP0 = slot (init_task (kk m)) 752"
    "t + KERNEL_STACK = slot t 532"
proof -
  from assms obtain n where n: "page_base (current (kk m)) = current (kk m)" "page_base (init_task (kk m)) = init_task (kk m)"
    "init_tss m = slot (init_task (kk m)) 748" "976 \<le> n" "n + 12 \<le> 4096" "g_esp m = slot (current (kk m)) n"
    unfolding can_switch_def by blast
  define o' where "o' = n - 16"
  have o: "n = o' + 16" using n(4) by (simp add: o'_def)
  have "init_tss m + ESP0 = slot (init_task (kk m)) 752" using n(3) by (simp add: ESP0_def slot_def)
  with n o show thesis
    by (intro that [of "current (kk m)" o']) (simp_all add: slot_def KERNEL_STACK_def)
qed

text \<open>The saved stack pointer of a task that does not run points into its stack.\<close>

definition stack_ok :: "(u32 \<Rightarrow> u32) \<Rightarrow> u32 \<Rightarrow> bool" where
  "stack_ok h t \<longleftrightarrow> page_base t = t \<and> (\<exists>n. 960 \<le> n \<and> n + 20 \<le> 4096 \<and> h (t + KERNEL_STACK) = slot t n)"

lemma stack_ok_slots:
  assumes "stack_ok h t"
  obtains n where "page_base t = t" "960 \<le> n" "n + 20 \<le> 4096" "h (slot t 532) = slot t n"
    "context_at h t = \<lparr>c_eax = h (slot t n), c_ebx = h (slot t (n + 4)), c_ecx = h (slot t (n + 8)),
       c_ebp = h (slot t (n + 12)), c_eip = h (slot t (n + 16)), c_esp = slot t (n + 20)\<rparr>"
proof -
  from assms obtain n where n: "page_base t = t" "960 \<le> n" "n + 20 \<le> 4096" "h (slot t 532) = slot t n"
    unfolding stack_ok_def slot_consts by blast
  then show thesis
    by (intro that [of n]) (simp_all only: context_at_def slot_consts n(4) Let_def slot_add)
qed

text \<open>The context of a task only depends on its own page, above the structure and at \<open>kernelstack\<close>.\<close>

lemma context_cong:
  assumes "stack_ok h t" "h' (slot t 532) = h (slot t 532)" "\<And>n. 960 \<le> n \<Longrightarrow> n < 4096 \<Longrightarrow> h' (slot t n) = h (slot t n)"
  shows "stack_ok h' t \<and> context_at h' t = context_at h t"
proof -
  from assms(1) obtain n where n: "page_base t = t" "960 \<le> n" "n + 20 \<le> 4096" "h (slot t 532) = slot t n"
    "context_at h t = \<lparr>c_eax = h (slot t n), c_ebx = h (slot t (n + 4)), c_ecx = h (slot t (n + 8)),
       c_ebp = h (slot t (n + 12)), c_eip = h (slot t (n + 16)), c_esp = slot t (n + 20)\<rparr>" by (rule stack_ok_slots)
  have h: "h' (slot t 532) = slot t n" using assms(2) n(4) by simp
  then have "stack_ok h' t" unfolding stack_ok_def slot_consts using n by blast
  moreover have "h' (slot t (n + i)) = h (slot t (n + i))" if "i < 20" for i using n that by (intro assms(3)) auto
  from this [of 0] this [of 4] this [of 8] this [of 12] this [of 16]
  have "context_at h' t = context_at h t"
    unfolding n(5) by (simp add: context_at_def slot_consts h slot_add)
  ultimately show ?thesis ..
qed

definition switch_memory :: "machine \<Rightarrow> u32 \<Rightarrow> u32 \<Rightarrow> u32" where
  "switch_memory m p = (km m)(g_esp m - 4 := g_ebp m, g_esp m - 8 := g_ecx m, g_esp m - 12 := g_ebx m, g_esp m - 16 := g_eax m,
     init_tss m + ESP0 := p + 4096, current (kk m) + KERNEL_STACK := g_esp m - 16)"

lemma switch_to4_result:
  assumes m: "can_switch m" and p: "km m (g_esp m + 4) = p" "p \<noteq> current (kk m)"
  shows "km (switch_to4 m) = switch_memory m p" "context_of (switch_to4 m) = context_at (switch_memory m p) p"
    "switched m p (ucast (km m (g_esp m + 8))) (switch_to4 m)"
proof -
  from m obtain n t where n: "t = current (kk m)" "page_base t = t" "960 \<le> n" "n + 28 \<le> 4096" "g_esp m = slot t (n + 16)"
    "g_esp m - 16 = slot t n" "g_esp m - 12 = slot t (n + 4)" "g_esp m - 8 = slot t (n + 8)" "g_esp m - 4 = slot t (n + 12)"
    "g_esp m + 4 = slot t (n + 20)" "g_esp m + 8 = slot t (n + 24)"
    "page_base (init_task (kk m)) = init_task (kk m)" "init_tss m + ESP0 = slot (init_task (kk m)) 752"
    "t + KERNEL_STACK = slot t 532" by (rule can_switch_addresses)
  define e where "e = switch_entry m"
  define f where "f = switch_stacks e"
  have ke: "km e (slot t (n + 20)) = p" "km e (slot t (n + 24)) = km m (g_esp m + 8)"
    unfolding e_def entry_regs(3) n(6-9) using n(2-4) p(1) n(10,11) by simp_all
  have be: "g_ebx e = p" using ke(1) unfolding e_def entry_regs(4) n(10) .
  have kf: "km f = switch_memory m p"
    unfolding f_def stacks_regs(1) be unfolding e_def entry_regs entry_frame switch_memory_def ..
  have kf1: "km f (slot t (n + 20)) = p" "km f (slot t (n + 24)) = km m (g_esp m + 8)"
    unfolding f_def stacks_regs(1) using n(2-4,12) ke unfolding e_def entry_frame n(13) n(1) [symmetric] n(14) by simp_all
  have eb: "g_ebp e + 8 = slot t (n + 20)" "g_ebp e + 12 = slot t (n + 24)"
    unfolding e_def entry_regs n(9) by (simp_all add: slot_def)
  have sp: "g_esp f = km f (p + KERNEL_STACK)" "g_ldtr f = ucast (km m (g_esp m + 8))"
    using stacks_regs(2,3) [of e] unfolding f_def [symmetric] eb kf1 by simp_all
  have s: "switch_to4 m = switch_leave f"
    using p(2) be unfolding switch_parts f_def e_def by (simp add: entry_frame)
  show "km (switch_to4 m) = switch_memory m p" unfolding s leave_frame kf ..
  show "context_of (switch_to4 m) = context_at (switch_memory m p) p"
    unfolding s leave_context sp kf context_at_def Let_def ..
  show "switched m p (ucast (km m (g_esp m + 8))) (switch_to4 m)"
    unfolding switched_def s leave_frame sp unfolding f_def stacks_frame be unfolding e_def entry_frame by simp
qed

lemma switch_memory_contexts:
  assumes m: "can_switch m"
  shows "stack_ok (switch_memory m p) (current (kk m))" "context_at (switch_memory m p) (current (kk m)) = caller_context m"
    "stack_ok (km m) u \<Longrightarrow> u \<noteq> current (kk m) \<Longrightarrow>
       stack_ok (switch_memory m p) u \<and> context_at (switch_memory m p) u = context_at (km m) u"
proof -
  from m obtain n t where n: "t = current (kk m)" "page_base t = t" "960 \<le> n" "n + 28 \<le> 4096" "g_esp m = slot t (n + 16)"
    "g_esp m - 16 = slot t n" "g_esp m - 12 = slot t (n + 4)" "g_esp m - 8 = slot t (n + 8)" "g_esp m - 4 = slot t (n + 12)"
    "g_esp m + 4 = slot t (n + 20)" "g_esp m + 8 = slot t (n + 24)"
    "page_base (init_task (kk m)) = init_task (kk m)" "init_tss m + ESP0 = slot (init_task (kk m)) 752"
    "t + KERNEL_STACK = slot t 532" by (rule can_switch_addresses)
  have h: "switch_memory m p = (km m)(slot t (n + 12) := g_ebp m, slot t (n + 8) := g_ecx m, slot t (n + 4) := g_ebx m,
      slot t n := g_eax m, slot (init_task (kk m)) 752 := p + 4096, slot t 532 := slot t n)"
    unfolding switch_memory_def n(6-9,13) n(1) [symmetric] n(14) ..
  have own: "switch_memory m p (slot t 532) = slot t n" unfolding h by simp
  show "stack_ok (switch_memory m p) (current (kk m))"
    unfolding stack_ok_def n(1) [symmetric] slot_consts own using n(2-4) by auto
  have e4: "g_esp m + 4 = slot t (n + 20)" by (rule n(10))
  show "context_at (switch_memory m p) (current (kk m)) = caller_context m"
    unfolding n(1) [symmetric] context_at_def slot_consts own Let_def slot_add caller_context_def context_of_def e4
    unfolding h n(5) using n(2-4,12) by simp
  show "stack_ok (switch_memory m p) u \<and> context_at (switch_memory m p) u = context_at (km m) u"
    if "stack_ok (km m) u" "u \<noteq> current (kk m)"
  proof (rule context_cong [OF that(1)])
    have u: "page_base u = u" using that(1) by (simp add: stack_ok_def)
    show "switch_memory m p (slot u 532) = km m (slot u 532)"
      unfolding h using that(2) n(1-4,12) u by simp
    show "switch_memory m p (slot u i) = km m (slot u i)" if "960 \<le> i" "i < 4096" for i
      unfolding h using \<open>u \<noteq> current (kk m)\<close> that n(1-4,12) u by simp
  qed
qed

section \<open>While other tasks run\<close>

text \<open>What happens while task \<open>t\<close> does not run: the code of other tasks, which does anything but write into the page of \<open>t\<close>,
  and switches between other tasks.\<close>

definition other_work :: "u32 \<Rightarrow> machine \<Rightarrow> machine \<Rightarrow> bool" where
  "other_work t m n \<longleftrightarrow> current (kk n) = current (kk m) \<and> (\<forall>x. page_base x = t \<longrightarrow> km n x = km m x)"

inductive others_run :: "u32 \<Rightarrow> machine \<Rightarrow> machine \<Rightarrow> bool" for t m where
  others_start: "current (kk m) \<noteq> t \<Longrightarrow> others_run t m m"
| others_work: "others_run t m n \<Longrightarrow> other_work t n n' \<Longrightarrow> others_run t m n'"
| others_switch: "others_run t m n \<Longrightarrow> can_switch n \<Longrightarrow> km n (g_esp n + 4) = p \<Longrightarrow> p \<noteq> t \<Longrightarrow> p \<noteq> current (kk n) \<Longrightarrow>
    others_run t m (switch_to4 n)"

lemma others_run_current: "others_run t m n \<Longrightarrow> current (kk n) \<noteq> t"
proof (induction rule: others_run.induct)
  case (others_switch n p)
  then show ?case using switch_to4_result(3) [of n p] by (simp add: switched_def)
qed (simp_all add: other_work_def)

lemma switch_memory_page:
  assumes m: "can_switch n" and t: "page_base t = t" "t \<noteq> current (kk n)" and i: "i = 532 \<or> 960 \<le> i" "i < 4096"
  shows "switch_memory n p (slot t i) = km n (slot t i)"
proof -
  obtain j u where j: "u = current (kk n)" "page_base u = u" "960 \<le> j" "j + 28 \<le> 4096" "g_esp n = slot u (j + 16)"
    "g_esp n - 16 = slot u j" "g_esp n - 12 = slot u (j + 4)" "g_esp n - 8 = slot u (j + 8)" "g_esp n - 4 = slot u (j + 12)"
    "g_esp n + 4 = slot u (j + 20)" "g_esp n + 8 = slot u (j + 24)"
    "page_base (init_task (kk n)) = init_task (kk n)" "init_tss n + ESP0 = slot (init_task (kk n)) 752"
    "u + KERNEL_STACK = slot u 532" by (rule can_switch_addresses [OF m])
  have "u \<noteq> t" using t(2) j(1) by simp
  moreover have "slot (init_task (kk n)) 752 \<noteq> slot t i" using i t(1) j(12) by auto
  ultimately show ?thesis
    unfolding switch_memory_def j(6-9,13) j(1) [symmetric] j(14) using t(1) i(2) j(2-4) by auto
qed

lemma others_run_page:
  "others_run t m n \<Longrightarrow> page_base t = t \<Longrightarrow> i = 532 \<or> 960 \<le> i \<Longrightarrow> i < 4096 \<Longrightarrow> km n (slot t i) = km m (slot t i)"
proof (induction rule: others_run.induct)
  case (others_work n n')
  then show ?case by (simp add: other_work_def)
next
  case (others_switch n p)
  show ?case unfolding switch_to4_result(1) [OF others_switch.hyps(2,3,5)]
    using switch_memory_page [OF others_switch.hyps(2) others_switch.prems(1)] others_run_current [OF others_switch.hyps(1)]
      others_switch by simp
qed simp

lemma others_run_context:
  assumes "others_run t m n" "stack_ok (km m) t"
  shows "stack_ok (km n) t \<and> context_at (km n) t = context_at (km m) t"
proof -
  have t: "page_base t = t" using assms(2) by (simp add: stack_ok_def)
  show ?thesis by (rule context_cong [OF assms(2)]) (use others_run_page [OF assms(1) t] in auto)
qed

text \<open>A switch to a task whose context is saved.\<close>

lemma switch_loads:
  assumes "can_switch n" "km n (g_esp n + 4) = t" "t \<noteq> current (kk n)" "stack_ok (km n) t"
  shows "context_of (switch_to4 n) = context_at (km n) t" "km (switch_to4 n) (init_tss n + ESP0) = t + 4096"
    "i = 532 \<or> 960 \<le> i \<Longrightarrow> i < 4096 \<Longrightarrow> km (switch_to4 n) (slot t i) = km n (slot t i)"
proof -
  note r = switch_to4_result [OF assms(1-3)]
  obtain j u where j: "u = current (kk n)" "page_base u = u" "960 \<le> j" "j + 28 \<le> 4096" "g_esp n = slot u (j + 16)"
    "g_esp n - 16 = slot u j" "g_esp n - 12 = slot u (j + 4)" "g_esp n - 8 = slot u (j + 8)" "g_esp n - 4 = slot u (j + 12)"
    "g_esp n + 4 = slot u (j + 20)" "g_esp n + 8 = slot u (j + 24)"
    "page_base (init_task (kk n)) = init_task (kk n)" "init_tss n + ESP0 = slot (init_task (kk n)) 752"
    "u + KERNEL_STACK = slot u 532" by (rule can_switch_addresses [OF assms(1)])
  show "context_of (switch_to4 n) = context_at (km n) t"
    using r(2) switch_memory_contexts(3) [OF assms(1,4,3), of t] by simp
  show "km (switch_to4 n) (init_tss n + ESP0) = t + 4096"
    unfolding r(1) switch_memory_def j(13) j(1) [symmetric] j(14) using j(2,12) by simp
  show "km (switch_to4 n) (slot t i) = km n (slot t i)" if "i = 532 \<or> 960 \<le> i" "i < 4096"
    unfolding r(1) using that assms(3,4) by (intro switch_memory_page [OF assms(1)]) (auto simp: stack_ok_def)
qed

section \<open>Switched out and back\<close>

text \<open>C10. A task that is switched out comes back to its own caller: whatever the other tasks do meanwhile, when one of them
  switches to it, \<open>switch_to\<close> returns to the address, with the stack pointer and with the registers \<open>eax\<close>, \<open>ebx\<close>, \<open>ecx\<close>
  and \<open>ebp\<close>, of the call in which the task gave up the processor; it is the current task again, the next entry from
  user mode will use its kernel stack from the top, and its descriptor table is loaded.\<close>

theorem switched_task_resumes:
  assumes "can_switch m" "km m (g_esp m + 4) \<noteq> current (kk m)" "others_run (current (kk m)) (switch_to4 m) n"
    and "can_switch n" "km n (g_esp n + 4) = current (kk m)"
  shows "context_of (switch_to4 n) = caller_context m \<and> current (kk (switch_to4 n)) = current (kk m) \<and>
    km (switch_to4 n) (init_tss n + ESP0) = current (kk m) + 4096 \<and> g_ldtr (switch_to4 n) = ucast (km n (g_esp n + 8))"
proof -
  let ?t = "current (kk m)"
  note r = switch_to4_result [OF assms(1) refl assms(2)]
  have "stack_ok (km (switch_to4 m)) ?t" "context_at (km (switch_to4 m)) ?t = caller_context m"
    unfolding r(1) by (rule switch_memory_contexts [OF assms(1)])+
  with others_run_context [OF assms(3)] have o: "stack_ok (km n) ?t" "context_at (km n) ?t = caller_context m" by simp_all
  have ne: "?t \<noteq> current (kk n)" using others_run_current [OF assms(3)] by simp
  have "switched n ?t (ucast (km n (g_esp n + 8))) (switch_to4 n)" by (rule switch_to4_result(3) [OF assms(4,5) ne])
  with switch_loads(1,2) [OF assms(4,5) ne o(1)] o(2) show ?thesis by (simp add: switched_def)
qed

text \<open>Two tasks of a small kernel: the second one has called \<open>switch_to\<close> and the first one waits on its stack.\<close>

definition machine1 :: machine where
  "machine1 = \<lparr>kk = kern1, km = (\<lambda>_. 0)(0x201ff0 := 0xaaaa, 0x201ff4 := 0x200000, 0x201ff8 := 0x38, 0x200214 := 0x200fa0),
     init_tss = 0x12ec, g_eax = 1, g_ebx = 2, g_ecx = 3, g_edx = 4, g_esi = 5, g_edi = 6, g_ebp = 0x201ffc, g_esp = 0x201ff0,
     g_eip = 0, g_eflags = 0x202, g_cs = 8, g_ds = 0x10, g_es = 0x10, g_fs = 0x17, g_gs = 0x17, g_ss = 0x10, g_ldtr = 0x48\<rparr>"

text \<open>The first task calls \<open>switch_to\<close> in its turn.\<close>

definition machine2 :: machine where
  "machine2 = (switch_to4 machine1)\<lparr>g_esp := 0x200fa0, g_esi := 50,
     km := (km (switch_to4 machine1))(0x200fa0 := 0xbbbb, 0x200fa4 := 0x201000, 0x200fa8 := 0x48)\<rparr>"

lemma page_base_numerals: "page_base 0x201000 = 0x201000" "page_base 0x200000 = 0x200000" "page_base 0x1000 = 0x1000"
  "page_base 0x200fa0 = 0x200000" "page_base 0x200fa4 = 0x200000" "page_base 0x200fa8 = 0x200000"
  by (simp_all add: word_unat_eq_iff unat_page_base)

lemma machine1_switch:
  "can_switch machine1" "km machine1 (g_esp machine1 + 4) = 0x200000" "current (kk machine1) = 0x201000"
  "switched machine1 0x200000 0x38 (switch_to4 machine1)"
proof -
  show c: "can_switch machine1"
    unfolding can_switch_def by (auto simp: machine1_def slot_def page_base_numerals kern1_def intro!: exI [of _ 4080])
  show k: "km machine1 (g_esp machine1 + 4) = 0x200000" "current (kk machine1) = 0x201000"
    by (simp_all add: machine1_def)
  show "switched machine1 0x200000 0x38 (switch_to4 machine1)"
    using switch_to4_result(3) [OF c k(1)] by (simp add: machine1_def)
qed

lemma machine2_switch:
  "can_switch machine2" "km machine2 (g_esp machine2 + 4) = 0x201000" "others_run 0x201000 (switch_to4 machine1) machine2"
proof -
  have s: "current (kk (switch_to4 machine1)) = 0x200000" "init_task (kk (switch_to4 machine1)) = 0x1000"
    "init_tss (switch_to4 machine1) = 0x12ec"
    using machine1_switch(4) by (simp_all add: switched_def) (simp_all add: machine1_def kern1_def)
  show "can_switch machine2"
    unfolding can_switch_def
    by (auto simp: machine2_def slot_def page_base_numerals s intro!: exI [of _ 4000])
  show "km machine2 (g_esp machine2 + 4) = 0x201000" by (simp add: machine2_def)
  show "others_run 0x201000 (switch_to4 machine1) machine2"
    by (rule others_run.others_work [OF others_run.others_start])
      (auto simp: s machine2_def other_work_def page_base_numerals)
qed

theorem switched_task_resumes_witness:
  "\<exists>n. others_run 0x201000 (switch_to4 machine1) n \<and> context_of (switch_to4 n) =
     \<lparr>c_eax = 1, c_ebx = 2, c_ecx = 3, c_ebp = 0x201ffc, c_eip = 0xaaaa, c_esp = 0x201ff4\<rparr>"
proof -
  have "context_of (switch_to4 machine2) = caller_context machine1"
    using switched_task_resumes [of machine1 machine2] machine1_switch machine2_switch by simp
  then show ?thesis
    using machine2_switch by (intro exI [of _ machine2]) (simp add: caller_context_def context_of_def machine1_def)
qed

text \<open>What the switch does not bring back: \<open>esi\<close>, \<open>edi\<close> and \<open>gs\<close> are not saved, so the task returns from the call with
  those of the task that gave it the processor, although C callers rely on \<open>esi\<close> and \<open>edi\<close> being kept and the user's
  \<open>gs\<close> is saved nowhere else.\<close>

theorem switch_loses_registers:
  assumes "can_switch m" "km m (g_esp m + 4) \<noteq> current (kk m)" "others_run (current (kk m)) (switch_to4 m) n"
    and "can_switch n" "km n (g_esp n + 4) = current (kk m)"
  shows "current (kk (switch_to4 n)) = current (kk m) \<and> g_esi (switch_to4 n) = g_esi n \<and> g_edi (switch_to4 n) = g_edi n \<and>
    g_gs (switch_to4 n) = g_gs n \<and> (g_esi n \<noteq> g_esi m \<longrightarrow> g_esi (switch_to4 n) \<noteq> g_esi m)"
  using switch_to4_result(3) [OF assms(4,5)] others_run_current [OF assms(3)] by (auto simp: switched_def)

theorem switch_loses_registers_witness:
  "g_esi machine1 = 5 \<and> g_esi (switch_to4 machine2) = 50"
  using switch_loses_registers [of machine1 machine2] machine1_switch machine2_switch
  by (simp add: machine2_def) (simp add: machine1_def)

section \<open>The coprocessor\<close>

text \<open>The coprocessor is not protected any more: without the processor's own task switch nothing sets \<open>TS\<close>, and
  \<open>switch_to\<close> clears it when the task that it leaves used the coprocessor last. So the next task finds \<open>TS\<close> clear and
  works on the coprocessor registers of the other one, where the switch of the other labs makes it trap.\<close>

theorem switch_shares_coprocessor:
  assumes "can_switch m" "p = km m (g_esp m + 4)" "p \<noteq> current (kk m)"
    and "last_task_used_math (kk m) = current (kk m) \<or> \<not> ts_flag (kk m)" "task (kk m) i = p" "last_task_used_math (kk m) \<noteq> p"
  shows "current (kk (switch_to4 m)) = p \<and> \<not> ts_flag (kk (switch_to4 m)) \<and> fpu (kk (switch_to4 m)) = fpu (kk m) \<and>
    ts_flag (switch_to i (kk m))"
  using switch_to4_result(3) [OF assms(1) refl] assms by (auto simp: switched_def switch_to_def)

theorem switch_shares_coprocessor_witness:
  "current (kk (switch_to4 machine1)) = 0x200000 \<and> \<not> ts_flag (kk (switch_to4 machine1)) \<and> ts_flag (switch_to 1 (kk machine1))"
proof -
  have "\<not> ts_flag (kk machine1)" "task (kk machine1) 1 = 0x200000" "last_task_used_math (kk machine1) = 0"
    by (simp_all add: machine1_def kern1_def)
  then show ?thesis
    using switch_shares_coprocessor [where m = machine1 and p = "0x200000" and i = 1] machine1_switch by simp
qed

section \<open>schedule\<close>

lemma pick_scan4:
  "pick_scan n c nx k = (c', nx') \<Longrightarrow> task k4 = task k \<Longrightarrow> ts k4 = ts k \<Longrightarrow>
   pick_scan4 n c nx pn k4 = (c', nx', if c' = c then pn else task k nx')"
proof (induction n arbitrary: c nx pn)
  case (Suc n)
  show ?case
  proof (cases "runnable k (Suc n) \<and> slice k (Suc n) > c")
    case True
    then have r: "pick_scan n (slice k (Suc n)) (Suc n) k = (c', nx')" using Suc.prems by (simp add: runnable_def)
    have "slice k (Suc n) \<le> c'" "c' = slice k (Suc n) \<longrightarrow> nx' = Suc n" using pick_scan_props [OF r] by auto
    with True Suc.IH [OF r Suc.prems(2,3), of "task k (Suc n)"] Suc.prems show ?thesis by (auto simp: runnable_def)
  next
    case False
    then have r: "pick_scan n c nx k = (c', nx')" using Suc.prems by (auto simp: runnable_def Let_def split: if_splits)
    from False Suc.IH [OF r Suc.prems(2,3), of pn] Suc.prems show ?thesis by (auto simp: runnable_def Let_def)
  qed
qed simp

lemma sched_loop4_sim:
  assumes k: "sched_wf k" "task k4 = task k" "ts k4 = ts k"
  shows "\<exists>n k2 k5. sched_loop k = Some (n, k2) \<and> sched_loop4 (task k 0) k4 = Some (n, task k n, k5) \<and>
    task k2 = task k \<and> task k5 = task k \<and> ts k5 = ts k2"
proof -
  obtain c n where r: "pick_scan 63 (- 1) 0 k = (c, n)" by force
  have p: "\<forall>i \<in> {1..63}. runnable k i \<longrightarrow> slice k i \<le> c" "c = - 1 \<and> n = 0 \<or> n \<in> {1..63} \<and> runnable k n \<and> slice k n = c \<and> - 1 < c"
    using pick_scan_props [OF r] by auto
  have r4: "pick_scan4 63 (- 1) 0 (task k 0) k4 = (c, n, task k n)"
    using pick_scan4 [OF r k(2,3)] p(2) by auto
  show ?thesis
  proof (cases "c = 0")
    case False
    then show ?thesis
      using r r4 k by (subst sched_loop.simps, subst sched_loop4.simps) (simp add: Let_def)
  next
    case True
    define k' where "k' = recharge k"
    define k4' where "k4' = recharge k4"
    have d: "tasks_distinct k" "tasks_distinct k4" using k by (simp_all add: sched_wf_def tasks_distinct_def)
    have e: "task k4' = task k'" "ts k4' = ts k'" "task k' = task k"
      unfolding k'_def k4'_def by (auto simp: recharge_ts [OF d(1)] recharge_ts [OF d(2)] k in_slots_def)
    obtain c' n' where r': "pick_scan 63 (- 1) 0 k' = (c', n')" by force
    have p': "\<forall>i \<in> {1..63}. runnable k' i \<longrightarrow> slice k' i \<le> c'" using pick_scan_props [OF r'] by simp
    have "n \<in> {1..63}" "runnable k n" using p(2) True by auto
    then have "0 < c'" using slice_recharge [OF k(1)] runnable_recharge [OF k(1)] p' k'_def by force
    moreover have "pick_scan4 63 (- 1) 0 (task k n) k4' = (c', n', if c' = - 1 then task k n else task k' n')"
      by (rule pick_scan4 [OF r' e(1,2)])
    ultimately have "sched_loop k' = Some (n', k')" "sched_loop4 (task k n) k4' = Some (n', task k n', k4')"
      using r' by (subst sched_loop.simps sched_loop4.simps, simp add: Let_def e(3))+
    moreover have "sched_loop k = sched_loop k'" "sched_loop4 (task k 0) k4 = sched_loop4 (task k n) k4'"
      using r r4 True by (subst (1) sched_loop.simps sched_loop4.simps, simp add: Let_def k'_def k4'_def)+
    ultimately show ?thesis using e by simp
  qed
qed

lemma check_task4_simps [simp]: "task (check_task4 p k) = task k" "jiffies (check_task4 p k) = jiffies k"
  "init_task (check_task4 p k) = init_task k"
  "ts (check_task4 p k) q = (if q = p then after_check (jiffies k) (ts k p) else ts k q)"
  by (simp_all add: check_task4_def Let_def after_check_def after_alarm_def signalled_def)

text \<open>C11. Lab 4's \<open>schedule\<close> decides like Lab 3's: the task it hands to \<open>switch_to\<close> is the one the other goes to, with the
  descriptor table of the same slot, although \<open>pnext\<close> is not reset with \<open>next\<close> when the loop starts again; and it changes
  the tasks in the same way.\<close>

theorem schedule4_equiv:
  assumes "sched_wf (kk m)" "task (kk m) 0 = init_task (kk m)"
  shows "\<exists>n k k4. schedule (kk m) = Some k \<and> current k = task (kk m) n \<and> ts k4 = ts k \<and> task k4 = task (kk m) \<and>
    schedule4 r m = Some (call_switch_to r (task (kk m) n) (LDT_sel n) (m\<lparr>kk := k4\<rparr>))"
proof -
  let ?c = "check_signals (kk m)" and ?c4 = "for_slots (NR_TASKS - 1) check_task4 (kk m)"
  have d: "tasks_distinct (kk m)" using assms(1) by (simp add: sched_wf_def)
  have t: "task ?c4 = task (kk m)" by (simp add: for_slots_frame)
  have "ts ?c4 q = ts ?c q" for q
    unfolding check_signals_ts [OF d] by (subst for_slots_ts [where j = jiffies and g = after_check]) (simp_all add: d)
  then have e: "ts ?c4 = ts ?c" by blast
  obtain n k2 k5 where s: "sched_loop ?c = Some (n, k2)" "sched_loop4 (task (kk m) 0) ?c4 = Some (n, task (kk m) n, k5)"
    "task k2 = task (kk m)" "task k5 = task (kk m)" "ts k5 = ts k2"
    using sched_loop4_sim [OF sched_wf_check_signals [OF assms(1)], of ?c4] e t by auto
  have "current (switch_to n k') = task k' n" for k' by (simp add: switch_to_def)
  then have "\<exists>k. schedule (kk m) = Some k \<and> current k = task (kk m) n \<and> ts k = ts k2"
    unfolding schedule_def using s(1,3) by (auto simp: Let_def)
  moreover have "schedule4 r m = Some (call_switch_to r (task (kk m) n) (LDT_sel n) (m\<lparr>kk := k5\<rparr>))"
    unfolding schedule4_def using s(2) assms(2) by simp
  ultimately show ?thesis using s(4,5) by metis
qed

theorem schedule4_equiv_witness:
  "\<exists>n k k4. schedule kern1 = Some k \<and> current k = task kern1 n \<and>
    schedule4 7 machine1 = Some (call_switch_to 7 (task kern1 n) (LDT_sel n) (machine1\<lparr>kk := k4\<rparr>))"
proof -
  have k: "kk machine1 = kern1" by (simp add: machine1_def)
  have i: "task kern1 0 = init_task kern1" by (simp add: kern1_def)
  show ?thesis using schedule4_equiv [where m = machine1 and r = 7] sched_wf_kern1 i unfolding k by blast
qed

section \<open>fork\<close>

lemma slot_add_numeral: "slot t n + numeral i = slot t (n + numeral i)"
  by (simp add: slot_def)

lemma slot_minus_4: "4 \<le> n \<Longrightarrow> slot t n - 4 = slot t (n - 4)"
  by (simp add: slot_def of_nat_diff)

text \<open>The registers of user mode.\<close>

definition user_regs :: "machine \<Rightarrow> u32 list \<times> u16 list" where
  "user_regs m = ([g_eax m, g_ebx m, g_ecx m, g_edx m, g_esi m, g_edi m, g_ebp m, g_esp m, g_eip m, g_eflags m],
     [g_cs m, g_ds m, g_es m, g_fs m, g_gs m, g_ss m])"

definition regs_of :: "machine \<Rightarrow> stack_regs" where
  "regs_of u = \<lparr>r_ebp = g_ebp u, r_edi = g_edi u, r_esi = g_esi u, r_gs = ucast (g_gs u), r_ebx = g_ebx u, r_ecx = g_ecx u,
     r_edx = g_edx u, r_fs = ucast (g_fs u), r_es = ucast (g_es u), r_ds = ucast (g_ds u), r_eip = g_eip u,
     r_cs = ucast (g_cs u), r_eflags = g_eflags u, r_esp = g_esp u, r_ss = ucast (g_ss u)\<rparr>"

lemma fork_stack:
  assumes "page_base t = t" "km u (init_tss u + ESP0) = slot t 4096" "nr < 64"
    and "m = sys_fork nr k c d r2 (system_call r1 (int_0x80 u))"
  shows "stack_args m = (nr, regs_of u)" "kk m = k" "init_tss m = init_tss u" "page_base x \<noteq> t \<Longrightarrow> km m x = km u x"
proof -
  define s where "s = slot t"
  have n: "s n + numeral i = s (n + numeral i)" for n i unfolding s_def by (rule slot_add_numeral)
  have n4: "s n - 4 = s (n - 4)" if "4 \<le> n" for n unfolding s_def using that by (rule slot_minus_4)
  have i: "s a = s b \<longleftrightarrow> a = b" if "a < 4096" "b < 4096" for a b unfolding s_def using that assms(1) by simp
  have o: "x \<noteq> s a" if "a < 4096" "page_base x \<noteq> t" for a x unfolding s_def using that assms(1) by auto
  have e: "km u (init_tss u + ESP0) = s 4096" using assms(2) by (simp add: s_def)
  have m: "g_esp m = s 4024" "kk m = k" "init_tss m = init_tss u"
    "km m = (km u)(s 4092 := ucast (g_ss u), s 4088 := g_esp u, s 4084 := g_eflags u, s 4080 := ucast (g_cs u), s 4076 := g_eip u,
      s 4072 := ucast (g_ds u), s 4068 := ucast (g_es u), s 4064 := ucast (g_fs u), s 4060 := g_edx u, s 4056 := g_ecx u,
      s 4052 := g_ebx u, s 4048 := r1, s 4044 := ucast (g_gs u), s 4040 := g_esi u, s 4036 := g_edi u, s 4032 := g_ebp u,
      s 4028 := of_nat nr, s 4024 := r2)"
    unfolding assms(4) sys_fork_def system_call_def int_0x80_def
    using e by (cases u; simp add: pushl_def Let_def n4 cong: let_weak_cong)+
  show "kk m = k" "init_tss m = init_tss u" by fact+
  show "stack_args m = (nr, regs_of u)"
    using assms(3) by (simp add: stack_args_def arg_def m n i regs_of_def)
  show "km m x = km u x" if "page_base x \<noteq> t" using o [OF _ that] by (simp add: m)
qed

lemma ucast_mask [simp]: "(ucast (x :: u16) :: u32) AND 0xffff = ucast x"
proof -
  have "(0xffff :: u32) = mask 16" by (simp add: mask_eq_exp_minus_1)
  then have "(ucast x :: u32) AND 0xffff = take_bit 16 (ucast x)" by (simp only: take_bit_eq_mask)
  also have "\<dots> = ucast x" by (rule bit_eqI) (auto simp: bit_simps dest: bit_imp_le_length)
  finally show ?thesis .
qed

lemma ucast_ucast16 [simp]: "(ucast (ucast (x :: u16) :: u32) :: u16) = x"
  by (simp add: bit_eq_iff bit_simps)

text \<open>What \<open>copy_process\<close> leaves on the page of the child.\<close>

lemma child_stack_words:
  assumes "page_base p = p" and h: "h = child_stack fr (regs_of u) p c h0"
  shows "h (slot p 532) = slot p 4028"
    "map (\<lambda>i. h (slot p i)) [4028, 4032, 4036, 4040, 4044] = [0, g_ebx u, g_ecx u, g_ebp u, fr]"
    "map (\<lambda>i. h (slot p i)) [4048, 4052, 4056, 4060, 4064, 4068, 4072] =
       [g_edx u, g_edi u, g_esi u, ucast (g_gs u), ucast (g_fs u), ucast (g_es u), ucast (g_ds u)]"
    "map (\<lambda>i. h (slot p i)) [4076, 4080, 4084, 4088, 4092] = [g_eip u, ucast (g_cs u), g_eflags u, g_esp u, ucast (g_ss u)]"
proof -
  define s where "s = slot p"
  have n4: "s n - 4 = s (n - 4)" if "4 \<le> n" for n unfolding s_def using that by (rule slot_minus_4)
  have i: "s a = s b \<longleftrightarrow> a = b" if "a < 4096" "b < 4096" for a b unfolding s_def using that assms(1) by simp
  have h': "h = (copy_struct p c h0)(s 4092 := ucast (g_ss u), s 4088 := g_esp u, s 4084 := g_eflags u, s 4080 := ucast (g_cs u),
      s 4076 := g_eip u, s 4072 := ucast (g_ds u), s 4068 := ucast (g_es u), s 4064 := ucast (g_fs u), s 4060 := ucast (g_gs u),
      s 4056 := g_esi u, s 4052 := g_edi u, s 4048 := g_edx u, s 4044 := fr, s 4040 := g_ebp u, s 4036 := g_ecx u,
      s 4032 := g_ebx u, s 4028 := 0, s 532 := s 4028)"
    unfolding h child_stack_def child_words_def slot_consts s_def [symmetric] regs_of_def by (simp add: n4)
  show "h (slot p 532) = slot p 4028"
    "map (\<lambda>i. h (slot p i)) [4028, 4032, 4036, 4040, 4044] = [0, g_ebx u, g_ecx u, g_ebp u, fr]"
    "map (\<lambda>i. h (slot p i)) [4048, 4052, 4056, 4060, 4064, 4068, 4072] =
       [g_edx u, g_edi u, g_esi u, ucast (g_gs u), ucast (g_fs u), ucast (g_es u), ucast (g_ds u)]"
    "map (\<lambda>i. h (slot p i)) [4076, 4080, 4084, 4088, 4092] = [g_eip u, ucast (g_cs u), g_eflags u, g_esp u, ucast (g_ss u)]"
    unfolding s_def [symmetric] by (simp_all add: h' i)
qed

lemma popl_let: "(let (v, m) = popl m in f v m) = f (km m (g_esp m)) (m\<lparr>g_esp := g_esp m + 4\<rparr>)"
  by (simp add: popl_def)

text \<open>\<open>first_return_from_kernel\<close> with its twelve longs on the stack.\<close>

lemma first_return_regs:
  assumes e: "g_esp m = slot p 4048" and w: "map (\<lambda>i. km m (slot p i)) [4048, 4052, 4056, 4060, 4064, 4068, 4072] = [a, b, c, d, f, g, h]"
    "map (\<lambda>i. km m (slot p i)) [4076, 4080, 4084, 4088, 4092] = [i, j, k, l, n]" "j AND 3 \<noteq> 0"
  shows "user_regs (first_return_from_kernel m) =
      ([g_eax m, g_ebx m, g_ecx m, a, c, b, g_ebp m, l, i, k], [ucast j, ucast h, ucast g, ucast f, ucast d, ucast n])"
    "kk (first_return_from_kernel m) = kk m" "km (first_return_from_kernel m) = km m"
proof -
  define s where "s = slot p"
  have n4: "s n + numeral i = s (n + numeral i)" "numeral i + s n = s (n + numeral i)" for n i
    unfolding s_def by (simp_all add: slot_def)
  note w' = w [folded s_def, simplified]
  note e' = e [folded s_def]
  have r: "first_return_from_kernel m = m\<lparr>g_edx := a, g_esi := c, g_edi := b, g_esp := l, g_eip := i, g_eflags := k,
     g_cs := ucast j, g_ds := ucast h, g_es := ucast g, g_fs := ucast f, g_gs := ucast d, g_ss := ucast n\<rparr>"
    using w' e' unfolding first_return_from_kernel_def iret_def
    by (cases m) (simp add: popl_def Let_def n4 cong: let_weak_cong)
  show "user_regs (first_return_from_kernel m) =
      ([g_eax m, g_ebx m, g_ecx m, a, c, b, g_ebp m, l, i, k], [ucast j, ucast h, ucast g, ucast f, ucast d, ucast n])"
    "kk (first_return_from_kernel m) = kk m" "km (first_return_from_kernel m) = km m"
    by (simp_all add: r user_regs_def)
qed

text \<open>The end of \<open>copy_process\<close> when the memory was copied.\<close>

definition fork_end4 :: "(u32 \<Rightarrow> desc_struct) \<Rightarrow> (u32 \<Rightarrow> desc_struct) \<Rightarrow> nat \<Rightarrow> u32 \<Rightarrow> kern \<Rightarrow> kern" where
  "fork_end4 tss_desc ldt_desc nr p k =
     (let k = count_files (filp (ts k p)) k;
          k = count_inode (pwd (cur k)) k; k = count_inode (root (cur k)) k; k = count_inode (executable (cur k)) k;
          k = k\<lparr>gdt := (gdt k)(2 * nr + FIRST_TSS_ENTRY := tss_desc p, 2 * nr + FIRST_LDT_ENTRY := ldt_desc p)\<rparr>
      in upd_ts p (\<lambda>t. t\<lparr>state := TASK_RUNNING\<rparr>) k)"

lemma fork_end4_simps [simp]: "task (fork_end4 td ld nr p k) = task k" "current (fork_end4 td ld nr p k) = current k"
  unfolding fork_end4_def Let_def by simp_all

lemma copy_process4_alt:
  assumes "stack_args m = (nr, r)" "get_free_page (kmm (kk m)) = (p, s)"
  shows "copy_process4 td ld fr m =
     (if p = 0 then Inr (Inl EAGAIN, m\<lparr>kk := (kk m)\<lparr>kmm := s\<rparr>\<rparr>)
      else sbind (copy_mem nr p (fork_start nr p r ((kk m)\<lparr>kmm := s\<rparr>))) (\<lambda>(e, k).
           case e of
             Inl _ \<Rightarrow> sbind (lift_mm (free_page p) (k\<lparr>task := (task k)(nr := 0)\<rparr>))
               (\<lambda>k. Inr (Inl EAGAIN, m\<lparr>km := child_stack fr r p (current (kk m)) (km m), kk := k\<rparr>))
           | Inr _ \<Rightarrow> Inr (Inr (last_pid (fork_end4 td ld nr p k)),
               m\<lparr>km := child_stack fr r p (current (kk m)) (km m), kk := fork_end4 td ld nr p k\<rparr>)))"
  unfolding copy_process4_def assms fork_start_def fork_end4_def Let_def
  by (simp cong: if_cong sum.case_cong prod.case_cong)

lemma copy_process4_ok:
  assumes "stack_args m = (nr, r)" "copy_process4 td ld fr m = Inr (Inr v, m')"
  obtains p where "page_free (kmm (kk m)) p" "p \<noteq> 0" "task (kk m') nr = p" "page_base p = p"
    "current (kk m') = current (kk m)" "km m' = child_stack fr r p (current (kk m)) (km m)" "init_tss m' = init_tss m"
proof -
  obtain p s where ps: "get_free_page (kmm (kk m)) = (p, s)" by force
  define k1 where "k1 = (kk m)\<lparr>kmm := s\<rparr>"
  have k1: "current k1 = current (kk m)" by (simp add: k1_def)
  note alt = copy_process4_alt [OF assms(1) ps, folded k1_def]
  have nz: "p \<noteq> 0" using assms(2) unfolding alt by auto
  with assms(2) obtain e k2 where cm: "copy_mem nr p (fork_start nr p r k1) = Inr (e, k2)"
    unfolding alt by (auto simp: sbind_Inr_iff)
  with assms(2) nz have m': "m' = m\<lparr>km := child_stack fr r p (current (kk m)) (km m), kk := fork_end4 td ld nr p k2\<rparr>"
    unfolding alt by (cases e) (auto simp: sbind_Inr_iff)
  obtain s' where k2: "k2 = (upd_ts p (child_based nr) (fork_start nr p r k1))\<lparr>kmm := s'\<rparr>"
    using copy_mem_cases [OF cm] by blast
  have "page_free (kmm (kk m)) p \<and> page_base p = p"
    using ps nz by (cases rule: get_free_page_cases [of "kmm (kk m)"]) (auto simp: page_free_def)
  then show thesis
    by (intro that [of p]) (use nz in \<open>simp_all add: m' k2 k1_def\<close>)
qed

text \<open>C9. The child of a \<open>fork\<close> returns to user mode like its parent. Whatever happens between the fork and the switch
  to the child, when some task switches to it, \<open>switch_to\<close> "returns" to \<open>first_return_from_kernel\<close>, and that leaves
  the kernel with every register, segment register, the flags, the instruction and the stack pointer as they were in
  the parent at \<open>int $0x80\<close>, but 0 in \<open>eax\<close>.\<close>

theorem fork_child_returns:
  assumes u: "page_base (current (kk u)) = current (kk u)" "km u (init_tss u + ESP0) = current (kk u) + 4096"
      "(ucast (g_cs u) :: u32) AND 3 \<noteq> 0"
    and k: "nr < 64" "current k = current (kk u)" "\<not> page_free (kmm k) (current k)"
    and f: "copy_process4 td ld fr (sys_fork nr k c d r2 (system_call r1 (int_0x80 u))) = Inr (Inr v, m)" "p = task (kk m) nr"
    and n: "others_run p m n" "can_switch n" "km n (g_esp n + 4) = p"
  shows "p \<noteq> 0 \<and> p \<noteq> current (kk u) \<and> g_eip (switch_to4 n) = fr \<and> current (kk (first_return_from_kernel (switch_to4 n))) = p \<and>
    user_regs (first_return_from_kernel (switch_to4 n)) = user_regs (u\<lparr>g_eax := 0\<rparr>) \<and>
    km (first_return_from_kernel (switch_to4 n)) (init_tss n + ESP0) = p + 4096"
proof -
  define m0 where "m0 = sys_fork nr k c d r2 (system_call r1 (int_0x80 u))"
  have m0: "stack_args m0 = (nr, regs_of u)" "kk m0 = k"
    by (rule fork_stack [OF u(1) _ k(1) m0_def], simp add: u(2) slot_def)+
  obtain q where q: "page_free (kmm k) q" "q \<noteq> 0" "task (kk m) nr = q" "page_base q = q" "current (kk m) = current k"
    "km m = child_stack fr (regs_of u) q (current k) (km m0)"
    using copy_process4_ok [OF m0(1) f(1) [folded m0_def]] unfolding m0(2) by metis
  have p: "p = q" using q(3) f(2) by simp
  note w = child_stack_words [OF q(4,6), folded p]
  have pc: "p \<noteq> current k" using q(1) k(3) p by auto
  have ok: "stack_ok (km m) p" unfolding stack_ok_def slot_consts w(1) using q(4) p by (auto intro!: exI [of _ 4028])
  have c: "context_at (km m) p = \<lparr>c_eax = 0, c_ebx = g_ebx u, c_ecx = g_ecx u, c_ebp = g_ebp u, c_eip = fr, c_esp = slot p 4048\<rparr>"
    using w(2) unfolding context_at_def slot_consts w(1) Let_def by (simp add: slot_add)
  note o = others_run_context [OF n(1) ok]
  have pn: "p \<noteq> current (kk n)" using others_run_current [OF n(1)] by simp
  note l = switch_loads [OF n(2,3) pn conjunct1 [OF o]]
  note s = switch_to4_result(3) [OF n(2,3) pn]
  define m1 where "m1 = switch_to4 n"
  have cx: "context_of m1 = \<lparr>c_eax = 0, c_ebx = g_ebx u, c_ecx = g_ecx u, c_ebp = g_ebp u, c_eip = fr, c_esp = slot p 4048\<rparr>"
    using l(1) o c by (simp add: m1_def)
  have h: "km m1 (slot p i) = km m (slot p i)" if "960 \<le> i" "i < 4096" for i
    using l(3) [of i] others_run_page [OF n(1) _ _ that(2)] that q(4) p by (simp add: m1_def)
  have r: "user_regs (first_return_from_kernel m1) = user_regs (u\<lparr>g_eax := 0\<rparr>)"
    "kk (first_return_from_kernel m1) = kk m1" "km (first_return_from_kernel m1) = km m1"
  proof -
    have e: "g_esp m1 = slot p 4048" using cx by (simp add: context_of_def)
    have w2: "map (\<lambda>i. km m1 (slot p i)) [4048, 4052, 4056, 4060, 4064, 4068, 4072] =
       [g_edx u, g_edi u, g_esi u, ucast (g_gs u), ucast (g_fs u), ucast (g_es u), ucast (g_ds u)]"
      using w(3) by (simp add: h)
    have w3: "map (\<lambda>i. km m1 (slot p i)) [4076, 4080, 4084, 4088, 4092] =
       [g_eip u, ucast (g_cs u), g_eflags u, g_esp u, ucast (g_ss u)]" using w(4) by (simp add: h)
    note x = first_return_regs [OF e w2 w3 u(3)]
    show "user_regs (first_return_from_kernel m1) = user_regs (u\<lparr>g_eax := 0\<rparr>)"
      unfolding x using cx by (simp add: user_regs_def context_of_def)
    show "kk (first_return_from_kernel m1) = kk m1" "km (first_return_from_kernel m1) = km m1" by (rule x)+
  qed
  have "current (kk m1) = p" using s by (simp add: switched_def m1_def)
  moreover have "g_eip m1 = fr" using cx by (simp add: context_of_def)
  ultimately show ?thesis
    using q(2) p pc k(2) l(2) r unfolding m1_def by simp
qed

lemma kern1_current_used: "\<not> page_free (kmm kern1) 0x201000"
proof
  assume "page_free (kmm kern1) 0x201000"
  then obtain i where i: "i < 3840" "page_addr i = 0x201000" "mem_map mm_start i = 0"
    by (auto simp: page_free_def kmm_kern1)
  then have "unat (page_addr i) = 2101248" by simp
  moreover have "i < 100" using i(3) by (auto simp: mm_start_def USED_def split: if_splits)
  ultimately show False by (simp add: unat_page_addr [OF i(1)] del: i(2))
qed

text \<open>The second task in user mode; its kernel stack ends at \<open>0x202000\<close>.\<close>

definition machine3 :: machine where
  "machine3 = machine1\<lparr>km := (\<lambda>_. 0)(0x12f0 := 0x202000), g_eax := 2, g_esp := 0x3fff000, g_eip := 0x1000, g_cs := 0xf,
     g_ds := 0x17, g_es := 0x17, g_ss := 0x17\<rparr>"

theorem fork_child_returns_witness:
  "\<exists>m n p. copy_process4 (\<lambda>_. \<lparr>da = 0, db = 0\<rparr>) (\<lambda>_. \<lparr>da = 0, db = 0\<rparr>) 0xc000
       (sys_fork 3 kern1 0 0 0 (system_call 0 (int_0x80 machine3))) = Inr (Inr 2, m) \<and> others_run p m n \<and>
     g_eip (switch_to4 n) = 0xc000 \<and>
     user_regs (first_return_from_kernel (switch_to4 n)) =
       ([0, 2, 3, 4, 5, 6, 0x201ffc, 0x3fff000, 0x1000, 0x202], [0xf, 0x17, 0x17, 0x17, 0x17, 0x17])"
proof -
  let ?d = "\<lambda>_. \<lparr>da = 0, db = 0\<rparr>"
  define m0 where "m0 = sys_fork 3 kern1 0 0 0 (system_call 0 (int_0x80 machine3))"
  have u: "page_base (current (kk machine3)) = current (kk machine3)" "current (kk machine3) = 0x201000"
    "km machine3 (init_tss machine3 + ESP0) = current (kk machine3) + 4096" "(ucast (g_cs machine3) :: u32) AND 3 \<noteq> 0"
    by (simp_all add: machine3_def machine1_def page_base_numerals ESP0_def)
  have t: "km machine3 (init_tss machine3 + ESP0) = slot (current (kk machine3)) 4096" using u(3) by (simp add: slot_def)
  have m0: "stack_args m0 = (3, regs_of machine3)" "kk m0 = kern1"
    using fork_stack [OF u(1) t _ m0_def] by simp_all
  define k1 where "k1 = fork_start 3 (page_addr 99) (regs_of machine3) (kern1\<lparr>kmm := snd (get_free_page mm_start)\<rparr>)"
  have cp: "(0x201000 :: u32) \<noteq> page_addr 99" by (simp add: word_unat_eq_iff unat_page_addr)
  have "kmm k1 = snd (get_free_page mm_start)" "cur k1 = some_task 2 TASK_RUNNING 0"
    unfolding k1_def using cp by simp_all
  then obtain k2 where k2: "copy_mem 3 (page_addr 99) k1 = Inr (Inr 0, k2)"
    using copy_mem_kern1 [of k1] by (auto simp: some_task_def)
  have "get_free_page (kmm (kk m0)) = (page_addr 99, snd (get_free_page mm_start))"
    by (simp add: m0 kmm_kern1 get_free_page_start)
  note alt = copy_process4_alt [OF m0(1) this, of ?d ?d "0xc000", unfolded m0(2), folded k1_def, unfolded k2]
  have "page_addr 99 \<noteq> 0" by (simp add: word_unat_eq_iff unat_page_addr)
  moreover have "last_pid k2 = 2"
    using copy_mem_cases [OF k2] by (auto simp: k1_def kern1_def)
  moreover have "last_pid (fork_end4 td ld nr p k) = last_pid k" for td ld nr p k
    unfolding fork_end4_def Let_def by simp
  ultimately obtain m where m: "copy_process4 ?d ?d 0xc000 m0 = Inr (Inr 2, m)"
    unfolding alt by simp
  obtain p where p: "page_free (kmm kern1) p" "task (kk m) 3 = p" "current (kk m) = 0x201000"
    using copy_process4_ok [OF m0(1) m] by (auto simp: m0(2))
  have pc: "p \<noteq> 0x201000" using p(1) kern1_current_used by auto
  define n where "n = machine1\<lparr>km := (km m)(0x201ff4 := p)\<rparr>"
  have n: "can_switch n" "km n (g_esp n + 4) = p"
    using machine1_switch(1) by (simp_all add: n_def can_switch_def) (simp add: machine1_def)
  have "page_base (0x201ff4 :: u32) = 0x201000" by (simp add: word_unat_eq_iff unat_page_base)
  then have o: "others_run p m n"
    by (intro others_run.others_work [OF others_run.others_start])
      (use pc p(3) machine1_switch(3) in \<open>auto simp: other_work_def n_def\<close>)
  have ck: "current kern1 = current (kk machine3)" "\<not> page_free (kmm kern1) (current kern1)"
    using u(2) kern1_current_used by simp_all
  have "g_eip (switch_to4 n) = 0xc000 \<and> user_regs (first_return_from_kernel (switch_to4 n)) = user_regs (machine3\<lparr>g_eax := 0\<rparr>)"
    using fork_child_returns [OF u(1,3,4) _ ck m [unfolded m0_def] p(2) [symmetric] o n] by simp
  then show ?thesis
    using m o unfolding m0_def by (intro exI [of _ m] exI [of _ n] exI [of _ p]) (simp add: user_regs_def machine3_def machine1_def)
qed

end
