(* ===== verification/Procfs.thy ===== *)
theory Procfs imports Fork Namei begin

text \<open>
  Lab 8's \<open>/proc\<close>: \<open>fs/proc_dev.c\<close>, the two files made from the task table and the super block, and
  \<open>fs/read_write.c\<close>, the system calls through which they are read. Kernel data is a memory of bytes (\<open>kmem\<close>) in
  which the two buffers stand at fixed addresses, so that a write or a read beyond a buffer is what it is in the
  kernel; \<open>umem\<close> is the memory of the process that runs. The drivers and the file system behind the other kinds of
  files are not in the repository: they are the fields of \<open>rw_ops\<close>, an argument of the system calls.
\<close>

unbundle bit_operations_syntax

section \<open>The state\<close>

record open_file =
  f_mode :: u16
  f_inode :: u32
  f_pos :: int

record pipe_inode = m_inode +
  i_pipe :: bool

record super_block =
  s_ninodes :: nat
  s_nzones :: nat
  s_imap :: "nat \<Rightarrow> u8 list"
  s_zmap :: "nat \<Rightarrow> u8 list"

record procfs =
  vk :: kern
  files :: "u32 \<Rightarrow> open_file"
  vnodes :: "u32 \<Rightarrow> pipe_inode"
  root_super :: "super_block option"
  kmem :: "u32 \<Rightarrow> u8"
  umem :: "u32 \<Rightarrow> u8"
  psinfoBuf :: u32
  hdinfoBuf :: u32
  psinfoPid :: int
  hdinfoPid :: int
  printk_log :: "string list"

definition PSINFO :: int where "PSINFO = 0"
definition HDINFO :: int where "HDINFO = 1"

section \<open>sprintf\<close>

text \<open>What the formats \<open>%ld\<close> and \<open>%d\<close> print, in ASCII.\<close>

fun show_nat :: "nat \<Rightarrow> u8 list" where
  "show_nat n = (if n < 10 then [of_nat (48 + n)] else show_nat (n div 10) @ [of_nat (48 + n mod 10)])"

declare show_nat.simps [simp del]

definition show_int :: "int \<Rightarrow> u8 list" where
  "show_int i = (if i < 0 then 45 # show_nat (nat (- i)) else show_nat (nat i))"

definition ascii :: "string \<Rightarrow> u8 list" where
  "ascii = map of_char"

text \<open>Writing a text and its NUL at an address; the result is the length of the text.\<close>

fun put_bytes :: "u32 \<Rightarrow> u8 list \<Rightarrow> (u32 \<Rightarrow> u8) \<Rightarrow> u32 \<Rightarrow> u8" where
  "put_bytes a [] h = h"
| "put_bytes a (x # xs) h = put_bytes (a + 1) xs (h(a := x))"

definition sprintf :: "u32 \<Rightarrow> u8 list \<Rightarrow> procfs \<Rightarrow> nat \<times> procfs" where
  "sprintf a txt s = (length txt, s\<lparr>kmem := put_bytes a (txt @ [0]) (kmem s)\<rparr>)"

section \<open>proc_dev.c\<close>

definition state_number :: "task_state \<Rightarrow> int" where
  "state_number st = (case st of TASK_RUNNING \<Rightarrow> 0 | TASK_INTERRUPTIBLE \<Rightarrow> 1 | TASK_UNINTERRUPTIBLE \<Rightarrow> 2
     | TASK_ZOMBIE \<Rightarrow> 3 | TASK_STOPPED \<Rightarrow> 4)"

definition psinfo_header :: "u8 list" where
  "psinfo_header = ascii ''pid'' @ 9 # ascii ''state'' @ 9 # ascii ''father'' @ 9 # ascii ''counter'' @ 9 # ascii ''start_time'' @ [10]"

definition psinfo_line :: "task_struct \<Rightarrow> u8 list" where
  "psinfo_line t = show_int (pid t) @ 9 # show_int (state_number (state t)) @ 9 # show_int (father t) @ 9 #
     show_int (counter t) @ 9 # show_int (start_time t) @ [10]"

text \<open>The loop from slot \<open>i\<close> on, \<open>n\<close> slots.\<close>

fun psinfo_loop :: "nat \<Rightarrow> nat \<Rightarrow> nat \<Rightarrow> procfs \<Rightarrow> nat \<times> procfs" where
  "psinfo_loop 0 i w s = (w, s)"
| "psinfo_loop (Suc n) i w s =
     (if task (vk s) i = 0 then psinfo_loop n (Suc i) w s
      else let (l, s) = sprintf (psinfoBuf s + of_nat w) (psinfo_line (ts (vk s) (task (vk s) i))) s
           in psinfo_loop n (Suc i) (w + l) s)"

definition refresh_psinfo :: "procfs \<Rightarrow> nat \<times> procfs" where
  "refresh_psinfo s =
     (let (w, s) = sprintf (psinfoBuf s) psinfo_header s; (w, s) = psinfo_loop (NR_TASKS - 1) 1 w s
      in (w, s\<lparr>kmem := (kmem s)(psinfoBuf s + of_nat w := 0)\<rparr>))"

text \<open>\<open>set_bit\<close> reads a bit, in spite of its name.\<close>

definition set_bit :: "nat \<Rightarrow> u8 list \<Rightarrow> bool" where
  "set_bit nr data = bit (data ! (nr div 8)) (nr mod 8)"

text \<open>The loops \<open>for (i = n - 1; i >= 0; --i) if (!set_bit(i & 8191, map[i >> 13]->b_data)) free++\<close>.\<close>

fun count_free :: "nat \<Rightarrow> (nat \<Rightarrow> u8 list) \<Rightarrow> nat \<Rightarrow> nat" where
  "count_free 0 m free = free"
| "count_free (Suc i) m free = count_free i m (if \<not> set_bit (i mod 8192) (m (i div 8192)) then free + 1 else free)"

definition hdinfo_text :: "nat \<Rightarrow> nat \<Rightarrow> nat \<Rightarrow> nat \<Rightarrow> u8 list" where
  "hdinfo_text fb nz fi ni = ascii ''Free blocks: '' @ show_nat fb @ ascii ''/'' @ show_nat nz @ 10 # ascii ''Free inodes: '' @
     show_nat fi @ ascii ''/'' @ show_nat ni @ [10]"

definition refresh_hdinfo :: "procfs \<Rightarrow> nat \<times> procfs" where
  "refresh_hdinfo s =
     (let (w, s) = (case root_super s of
        None \<Rightarrow> (0, s)
      | Some p \<Rightarrow>
          let freeBlocks = count_free (s_nzones p) (s_zmap p) 0;
              freeInodes = count_free (s_ninodes p + 1) (s_imap p) 0
          in sprintf (hdinfoBuf s) (hdinfo_text freeBlocks (s_nzones p) freeInodes (s_ninodes p)) s)
      in (w, s\<lparr>kmem := (kmem s)(hdinfoBuf s + of_nat w := 0)\<rparr>))"

text \<open>The loop of \<open>proc_read\<close> on the buffer at \<open>base\<close>: the bytes read, the position, whether it met the NUL.\<close>

fun proc_loop :: "nat \<Rightarrow> u32 \<Rightarrow> int \<Rightarrow> u32 \<Rightarrow> nat \<Rightarrow> procfs \<Rightarrow> nat \<times> int \<times> bool \<times> procfs" where
  "proc_loop 0 base pos buf rd s = (rd, pos, False, s)"
| "proc_loop (Suc n) base pos buf rd s =
     (let c = kmem s (base + word_of_int pos) in
      if c \<noteq> 0 then proc_loop n base (s32 (pos + 1)) buf (rd + 1) (s\<lparr>umem := (umem s)(buf + of_nat rd := c)\<rparr>)
      else (rd, pos, True, s))"

definition set_pos :: "u32 \<Rightarrow> int \<Rightarrow> procfs \<Rightarrow> procfs" where
  "set_pos f pos s = s\<lparr>files := (files s)(f := (files s f)\<lparr>f_pos := pos\<rparr>)\<rparr>"

text \<open>\<open>f\<close> is the open file whose position \<open>pos\<close> points to.\<close>

definition proc_read :: "int \<Rightarrow> u32 \<Rightarrow> u32 \<Rightarrow> int \<Rightarrow> procfs \<Rightarrow> (errno + int) \<times> procfs" where
  "proc_read dev f buf count s =
     (if dev = PSINFO then
        if psinfoPid s \<noteq> - 1 \<and> pid (cur (vk s)) \<noteq> psinfoPid s then (Inl EINVAL, s)
        else let s = (if f_pos (files s f) = 0 then snd (refresh_psinfo s) else s);
                 (rd, pos, stop, s) = proc_loop (nat count) (psinfoBuf s) (f_pos (files s f)) buf 0 s;
                 s = set_pos f pos s;
                 s = (if stop then s\<lparr>psinfoPid := - 1\<rparr> else s)
             in (Inr (int rd), s)
      else if dev = HDINFO then
        if hdinfoPid s \<noteq> - 1 \<and> pid (cur (vk s)) \<noteq> hdinfoPid s then (Inl EINVAL, s)
        else let s = (if f_pos (files s f) = 0 then snd (refresh_hdinfo s) else s);
                 (rd, pos, stop, s) = proc_loop (nat count) (hdinfoBuf s) (f_pos (files s f)) buf 0 s;
                 s = set_pos f pos s;
                 s = (if stop then s\<lparr>hdinfoPid := - 1\<rparr> else s)
             in (Inr (int rd), s)
      else (Inr 0, s))"

section \<open>read_write.c\<close>

type_synonym io = "u32 \<Rightarrow> int \<Rightarrow> u32 \<Rightarrow> procfs \<Rightarrow> (errno + int) \<times> procfs"

text \<open>The other drivers: device, buffer, count and open file; and which major numbers can be positioned.\<close>

record rw_ops =
  is_seekable :: "nat \<Rightarrow> bool"
  rw_char :: "bool \<Rightarrow> u16 \<Rightarrow> io"
  block_read :: "u16 \<Rightarrow> io"
  block_write :: "u16 \<Rightarrow> io"
  read_pipe :: io
  write_pipe :: io
  file_read :: io
  file_write :: io

definition MAJOR :: "u16 \<Rightarrow> nat" where "MAJOR dev = unat dev div 256"

definition S_ISREG :: "u16 \<Rightarrow> bool" where "S_ISREG m \<longleftrightarrow> m AND S_IFMT = 0x8000"

text \<open>The open file of a descriptor; 0 stands for NULL.\<close>

definition fd_file :: "nat \<Rightarrow> procfs \<Rightarrow> u32" where
  "fd_file fd s = (if fd \<ge> NR_OPEN then 0 else filp (cur (vk s)) ! fd)"

abbreviation the_node :: "u32 \<Rightarrow> procfs \<Rightarrow> pipe_inode" where "the_node f s \<equiv> vnodes s (f_inode (files s f))"

definition sys_lseek :: "rw_ops \<Rightarrow> nat \<Rightarrow> int \<Rightarrow> int \<Rightarrow> procfs \<Rightarrow> (errno + int) \<times> procfs" where
  "sys_lseek E fd off origin s =
     (let f = fd_file fd s in
      if f = 0 \<or> f_inode (files s f) = 0 \<or> \<not> is_seekable E (MAJOR (i_dev (the_node f s))) then (Inl EBADF, s)
      else if i_pipe (the_node f s) then (Inl ESPIPE, s)
      else if origin = 0 then (if off < 0 then (Inl EINVAL, s) else (Inr off, set_pos f off s))
      else if origin = 1 then
        (let p = s32 (f_pos (files s f) + off) in if p < 0 then (Inl EINVAL, s) else (Inr p, set_pos f p s))
      else if origin = 2 then
        (let p = s32 (uint (i_size (the_node f s)) + off) in if p < 0 then (Inl EINVAL, s) else (Inr p, set_pos f p s))
      else (Inl EINVAL, s))"

definition printk :: "string \<Rightarrow> procfs \<Rightarrow> procfs" where "printk m s = s\<lparr>printk_log := printk_log s @ [m]\<rparr>"

definition zone0 :: "u32 \<Rightarrow> procfs \<Rightarrow> u16" where "zone0 f s = i_zone (the_node f s) ! 0"

definition sys_read :: "rw_ops \<Rightarrow> nat \<Rightarrow> u32 \<Rightarrow> int \<Rightarrow> procfs \<Rightarrow> kstop + (errno + int) \<times> procfs" where
  "sys_read E fd buf count s =
     (let f = fd_file fd s in
      if fd \<ge> NR_OPEN \<or> count < 0 \<or> f = 0 then Inr (Inl EINVAL, s)
      else if count = 0 then Inr (Inr 0, s)
      else sbind (verify_area buf count (vk s)) (\<lambda>k.
        let s = s\<lparr>vk := k\<rparr>; n = the_node f s; mode = i_mode n in
        Inr (if i_pipe n then (if f_mode (files s f) AND 1 \<noteq> 0 then read_pipe E buf count f s else (Inl EIO, s))
             else if S_ISCHR mode then rw_char E False (zone0 f s) buf count f s
             else if S_ISBLK mode then block_read E (zone0 f s) buf count f s
             else if S_ISPROC mode then proc_read (uint (zone0 f s)) f buf count s
             else if S_ISDIR mode \<or> S_ISREG mode then
               let count = (if (word_of_int (count + f_pos (files s f)) :: u32) > i_size n
                            then s32 (uint (i_size n) - f_pos (files s f)) else count)
               in if count \<le> 0 then (Inr 0, s) else file_read E buf count f s
             else (Inl EINVAL, printk ''(Read)inode->i_mode'' s))))"

definition sys_write :: "rw_ops \<Rightarrow> nat \<Rightarrow> u32 \<Rightarrow> int \<Rightarrow> procfs \<Rightarrow> (errno + int) \<times> procfs" where
  "sys_write E fd buf count s =
     (let f = fd_file fd s in
      if fd \<ge> NR_OPEN \<or> count < 0 \<or> f = 0 then (Inl EINVAL, s)
      else if count = 0 then (Inr 0, s)
      else let n = the_node f s; mode = i_mode n in
        if i_pipe n then (if f_mode (files s f) AND 2 \<noteq> 0 then write_pipe E buf count f s else (Inl EIO, s))
        else if S_ISCHR mode then rw_char E True (zone0 f s) buf count f s
        else if S_ISBLK mode then block_write E (zone0 f s) buf count f s
        else if S_ISREG mode then file_write E buf count f s
        else (Inl EINVAL, printk ''(Write)inode->i_mode'' s))"

end
