(* ===== verification/Procprops.thy ===== *)
theory Procprops imports Procfs Forkprops begin

text \<open>
  What \<open>/proc\<close> shows, to whom, and where its buffers end; and what \<open>lseek\<close>, \<open>read\<close> and \<open>write\<close> do to a position.
\<close>

unbundle bit_operations_syntax

section \<open>Writing bytes\<close>

lemma put_bytes_append: "put_bytes a (xs @ ys) h = put_bytes (a + of_nat (length xs)) ys (put_bytes a xs h)"
proof (induction xs arbitrary: a h)
  case (Cons x xs)
  show ?case by (simp only: append_Cons put_bytes.simps Cons.IH length_Cons of_nat_Suc add.assoc)
qed simp

lemma unat_pred: "(d :: u32) \<noteq> 0 \<Longrightarrow> unat (d - 1) = unat d - 1"
  by (simp add: unat_minus_one)

lemma put_bytes_at:
  "length xs \<le> 4294967296 \<Longrightarrow> put_bytes a xs h x = (if unat (x - a) < length xs then xs ! unat (x - a) else h x)"
proof (induction xs arbitrary: a h)
  case (Cons y ys)
  then have ih: "put_bytes a ys h x = (if unat (x - a) < length ys then ys ! unat (x - a) else h x)" for a h by simp
  define d where "d = x - a"
  have d1: "x - (a + 1) = d - 1" by (simp add: d_def)
  have e: "put_bytes a (y # ys) h x = (if unat (d - 1) < length ys then ys ! unat (d - 1) else if x = a then y else h x)"
    by (simp only: put_bytes.simps ih d1 fun_upd_apply)
  show ?case
  proof (cases "d = 0")
    case True
    have "unat (- 1 :: u32) = 4294967295" by (simp add: unsigned_minus_1_eq_mask mask_eq_exp_minus_1)
    with e True Cons.prems show ?thesis unfolding d_def [symmetric] by (simp add: d_def)
  next
    case False
    then have "0 < unat d" "x \<noteq> a" by (auto simp: unat_gt_0 d_def)
    with e unat_pred [OF False] show ?thesis unfolding d_def [symmetric] by (cases "unat d") auto
  qed
qed simp

lemma put_bytes_nth:
  "length xs \<le> 4294967296 \<Longrightarrow> i < length xs \<Longrightarrow> put_bytes a xs h (a + of_nat i) = xs ! i"
  by (simp add: put_bytes_at unat_of_nat)

lemma put_bytes_nul: "(put_bytes a (zs @ [0]) h)(a + of_nat (length zs) := 0) = put_bytes a (zs @ [0]) h"
  by (simp add: put_bytes_append)

lemma put_bytes_restart: "xs \<noteq> [] \<Longrightarrow> put_bytes a xs (h(a := y)) = put_bytes a xs h"
  by (cases xs) simp_all

section \<open>Decimal numbers\<close>

definition digit :: "u8 \<Rightarrow> bool" where "digit c \<longleftrightarrow> 48 \<le> unat c \<and> unat c \<le> 57"

definition parse_nat :: "u8 list \<Rightarrow> nat" where
  "parse_nat cs = foldl (\<lambda>a c. a * 10 + (unat c - 48)) 0 cs"

definition parse_int :: "u8 list \<Rightarrow> int" where
  "parse_int cs = (case cs of [] \<Rightarrow> 0 | c # cs' \<Rightarrow> if c = 45 then - int (parse_nat cs') else int (parse_nat cs))"

lemma unat_digit: "d < 10 \<Longrightarrow> unat (of_nat (48 + d) :: u8) = 48 + d"
  unfolding unat_of_nat by simp

lemma show_nat_digits: "show_nat n \<noteq> [] \<and> (\<forall>c \<in> set (show_nat n). digit c)"
proof (induction n rule: show_nat.induct)
  case (1 n)
  have "digit (of_nat (48 + n mod 10))" "n < 10 \<Longrightarrow> digit (of_nat (48 + n))"
    using unat_digit [of "n mod 10"] unat_digit [of n] by (simp_all add: digit_def)
  with 1 show ?case by (subst (1 2) show_nat.simps) auto
qed

lemma parse_show_nat: "parse_nat (show_nat n) = n"
proof (induction n rule: show_nat.induct)
  case (1 n)
  show ?case
  proof (cases "n < 10")
    case True
    then show ?thesis using unat_digit [of n] by (simp add: show_nat.simps [of n] parse_nat_def)
  next
    case False
    then have "parse_nat (show_nat n) = parse_nat (show_nat (n div 10)) * 10 + (unat (of_nat (48 + n mod 10) :: u8) - 48)"
      by (simp add: show_nat.simps [of n] parse_nat_def)
    also have "\<dots> = n div 10 * 10 + n mod 10" using 1 False unat_digit [of "n mod 10"] by simp
    finally show ?thesis by simp
  qed
qed

lemma digit_no_minus: "digit c \<Longrightarrow> c \<noteq> 45 \<and> c \<noteq> 9 \<and> c \<noteq> 10 \<and> c \<noteq> 0"
  by (auto simp: digit_def)

lemma parse_show_int: "parse_int (show_int i) = i"
proof (cases "i < 0")
  case True
  then show ?thesis by (simp add: show_int_def parse_int_def parse_show_nat)
next
  case False
  obtain c cs where c: "show_nat (nat i) = c # cs" using show_nat_digits [of "nat i"] by (cases "show_nat (nat i)") auto
  then have "c \<noteq> 45" using show_nat_digits [of "nat i"] digit_no_minus by auto
  with c False parse_show_nat [of "nat i"] show ?thesis by (simp add: show_int_def parse_int_def)
qed

lemma show_int_chars: "c \<in> set (show_int i) \<Longrightarrow> c \<noteq> 0 \<and> c \<noteq> 9 \<and> c \<noteq> 10"
  using show_nat_digits digit_no_minus by (auto simp: show_int_def split: if_splits)

lemma show_int_nonempty: "show_int i \<noteq> []"
  using show_nat_digits by (simp add: show_int_def)

lemma show_nat_length_less: "n < 10 ^ Suc k \<Longrightarrow> length (show_nat n) \<le> Suc k"
proof (induction k arbitrary: n)
  case 0
  then show ?case by (simp add: show_nat.simps [of n])
next
  case (Suc k)
  then have "n div 10 < 10 ^ Suc k" by (simp add: less_mult_imp_div_less)
  from Suc.IH [OF this] show ?case by (subst show_nat.simps) simp
qed

lemma show_nat_length_ge: "10 ^ k \<le> n \<Longrightarrow> Suc k \<le> length (show_nat n)"
proof (induction k arbitrary: n)
  case 0
  then show ?case using show_nat_digits [of n] by (cases "show_nat n") simp_all
next
  case (Suc k)
  have "(1 :: nat) \<le> 10 ^ k" by simp
  moreover have "10 * 10 ^ k \<le> n" using Suc.prems by simp
  ultimately have "10 \<le> n" by linarith
  with Suc.prems have "10 ^ k \<le> n div 10" "\<not> n < 10" by (auto simp: less_eq_div_iff_mult_less_eq mult.commute)
  with Suc.IH [of "n div 10"] show ?case by (subst show_nat.simps) simp
qed

lemma show_int_length:
  "- 2147483648 \<le> i \<Longrightarrow> i \<le> 2147483647 \<Longrightarrow> length (show_int i) \<le> 11"
  "int (10 ^ k) \<le> i \<Longrightarrow> Suc k \<le> length (show_int i)"
proof -
  assume i: "- 2147483648 \<le> i" "i \<le> 2147483647"
  then have "nat i < 10 ^ Suc 9" "nat (- i) < 10 ^ Suc 9" by simp_all
  then show "length (show_int i) \<le> 11" using show_nat_length_less [of "nat i" 9] show_nat_length_less [of "nat (- i)" 9]
    by (simp add: show_int_def)
next
  assume k: "int (10 ^ k) \<le> i"
  have "0 \<le> int (10 ^ k)" by simp
  with k have "\<not> i < 0" "10 ^ k \<le> nat i" by linarith+
  then show "Suc k \<le> length (show_int i)" using show_nat_length_ge [of k "nat i"] by (simp add: show_int_def)
qed

section \<open>The text of psinfo\<close>

definition slots_used :: "kern \<Rightarrow> nat list" where
  "slots_used k = filter (\<lambda>i. task k i \<noteq> 0) [1..<NR_TASKS]"

definition psinfo_text :: "kern \<Rightarrow> u8 list" where
  "psinfo_text k = psinfo_header @ concat (map (\<lambda>i. psinfo_line (ts k (task k i))) (slots_used k))"

lemma ascii_words: "ascii ''pid'' = [112, 105, 100]" "ascii ''state'' = [115, 116, 97, 116, 101]"
  "ascii ''father'' = [102, 97, 116, 104, 101, 114]" "ascii ''counter'' = [99, 111, 117, 110, 116, 101, 114]"
  "ascii ''start_time'' = [115, 116, 97, 114, 116, 95, 116, 105, 109, 101]"
  by (simp_all add: ascii_def of_char_def)

lemma psinfo_header_bytes: "psinfo_header =
    [112, 105, 100, 9, 115, 116, 97, 116, 101, 9, 102, 97, 116, 104, 101, 114, 9, 99, 111, 117, 110, 116, 101, 114, 9,
     115, 116, 97, 114, 116, 95, 116, 105, 109, 101, 10]"
  by (simp add: psinfo_header_def ascii_words)

lemma psinfo_no_nul: "0 \<notin> set (psinfo_text k)"
proof -
  have "0 \<notin> set (psinfo_line t)" for t using show_int_chars by (fastforce simp: psinfo_line_def)
  then show ?thesis by (auto simp: psinfo_text_def psinfo_header_bytes)
qed

text \<open>The loop appends the lines, each over the NUL of the one before.\<close>

lemma put_line: "h = put_bytes a (zs @ [0]) h0 \<Longrightarrow> w = length zs \<Longrightarrow>
    put_bytes (a + of_nat w) (line @ [0]) h = put_bytes a ((zs @ line) @ [0]) h0"
  by (simp add: put_bytes_append [of a zs] put_bytes_restart)

lemma psinfo_loop_text:
  assumes "psinfo_loop n i w s = (w', s')" "kmem s = put_bytes (psinfoBuf s) (zs @ [0]) h" "w = length zs"
    and "new = concat (map (\<lambda>i. psinfo_line (ts (vk s) (task (vk s) i))) (filter (\<lambda>i. task (vk s) i \<noteq> 0) [i..<i + n]))"
  shows "w' = length (zs @ new) \<and> s' = s\<lparr>kmem := put_bytes (psinfoBuf s) ((zs @ new) @ [0]) h\<rparr>"
  using assms
proof (induction n arbitrary: i w s zs new)
  case 0
  then show ?case by simp
next
  case (Suc n)
  have u: "[i..<i + Suc n] = i # [Suc i..<Suc i + n]" by (simp add: upt_rec)
  show ?case
  proof (cases "task (vk s) i = 0")
    case True
    with Suc.prems(1) have "psinfo_loop n (Suc i) w s = (w', s')" by simp
    from Suc.IH [OF this Suc.prems(2,3) refl] show ?thesis using True unfolding Suc.prems(4) u by simp
  next
    case False
    define line where "line = psinfo_line (ts (vk s) (task (vk s) i))"
    define s1 where "s1 = s\<lparr>kmem := put_bytes (psinfoBuf s) ((zs @ line) @ [0]) h\<rparr>"
    have "sprintf (psinfoBuf s + of_nat w) line s = (length line, s1)"
      unfolding sprintf_def put_line [OF Suc.prems(2,3)] s1_def ..
    with Suc.prems(1) False have l: "psinfo_loop n (Suc i) (w + length line) s1 = (w', s')" by (simp add: line_def)
    have s1: "kmem s1 = put_bytes (psinfoBuf s1) ((zs @ line) @ [0]) h" "w + length line = length (zs @ line)" "vk s1 = vk s"
      using Suc.prems(3) by (simp_all add: s1_def)
    from Suc.IH [OF l s1(1,2) refl] show ?thesis
      using False unfolding Suc.prems(4) u s1(3) by (simp add: line_def s1_def)
  qed
qed

lemma refresh_psinfo_text:
  "refresh_psinfo s = (length (psinfo_text (vk s)), s\<lparr>kmem := put_bytes (psinfoBuf s) (psinfo_text (vk s) @ [0]) (kmem s)\<rparr>)"
proof -
  define s1 where "s1 = s\<lparr>kmem := put_bytes (psinfoBuf s) (psinfo_header @ [0]) (kmem s)\<rparr>"
  obtain w s' where l: "psinfo_loop (NR_TASKS - 1) 1 (length psinfo_header) s1 = (w, s')" by force
  have "kmem s1 = put_bytes (psinfoBuf s1) (psinfo_header @ [0]) (kmem s)" by (simp add: s1_def)
  from psinfo_loop_text [OF l this refl refl]
  have "w = length (psinfo_text (vk s)) \<and> s' = s\<lparr>kmem := put_bytes (psinfoBuf s) (psinfo_text (vk s) @ [0]) (kmem s)\<rparr>"
    by (simp add: psinfo_text_def slots_used_def s1_def)
  then show ?thesis
    using l by (simp add: refresh_psinfo_def sprintf_def s1_def put_bytes_nul)
qed

section \<open>Reading\<close>

lemma cstr_at_put:
  assumes "0 \<notin> set zs" "length zs < 4294967296"
  shows "cstr_at (put_bytes a (zs @ [0]) h) a zs"
proof -
  have "put_bytes a (zs @ [0]) h (a + of_nat i) = (zs @ [0]) ! i" if "i \<le> length zs" for i
    using assms(2) that by (intro put_bytes_nth) simp_all
  then show ?thesis using assms(1) by (auto simp: cstr_at_def nth_append in_set_conv_nth)
qed

lemma proc_loop_text:
  assumes "cstr_at (kmem s) base zs" "p \<le> length zs" "length zs \<le> 2147483647"
  shows "proc_loop n base (int p) buf rd s =
    (rd + min n (length zs - p), int (p + min n (length zs - p)), length zs - p < n,
     s\<lparr>umem := put_bytes (buf + of_nat rd) (take n (drop p zs)) (umem s)\<rparr>)"
  using assms(1,2)
proof (induction n arbitrary: p rd s)
  case 0
  then show ?case by simp
next
  case (Suc n)
  show ?case
  proof (cases "p = length zs")
    case True
    then show ?thesis using Suc.prems by (simp add: cstr_at_def)
  next
    case False
    with Suc.prems have p: "p < length zs" by simp
    then have c: "kmem s (base + of_nat p) = zs ! p" "zs ! p \<noteq> 0" using Suc.prems(1) by (auto simp: cstr_at_def)
    have s1: "s32 (int p + 1) = int (Suc p)" using p assms(3) by simp
    have d: "drop p zs = zs ! p # drop (Suc p) zs" using p by (simp add: Cons_nth_drop_Suc)
    define s' where "s' = s\<lparr>umem := (umem s)(buf + of_nat rd := zs ! p)\<rparr>"
    have "cstr_at (kmem s') base zs" using Suc.prems(1) by (simp add: s'_def)
    from Suc.IH [OF this, of "Suc p" "Suc rd"] p
    have "proc_loop n base (int (Suc p)) buf (Suc rd) s' =
       (Suc rd + min n (length zs - Suc p), int (Suc p + min n (length zs - Suc p)), length zs - Suc p < n,
        s'\<lparr>umem := put_bytes (buf + of_nat (Suc rd)) (take n (drop (Suc p) zs)) (umem s')\<rparr>)" by simp
    moreover have "proc_loop (Suc n) base (int p) buf rd s = proc_loop n base (int (Suc p)) buf (Suc rd) s'"
      using c s1 by (simp add: s'_def)
    ultimately show ?thesis using p by (auto simp: s'_def d ac_simps)
  qed
qed

text \<open>The bytes that a read of \<open>/proc/psinfo\<close> through the open file \<open>f\<close> delivers.\<close>

definition psinfo_read :: "u32 \<Rightarrow> u32 \<Rightarrow> nat \<Rightarrow> procfs \<Rightarrow> u8 list \<times> procfs" where
  "psinfo_read f buf n s =
     (case proc_read PSINFO f buf (int n) s of
        (Inl e, s) \<Rightarrow> ([], s)
      | (Inr r, s) \<Rightarrow> (map (\<lambda>i. umem s (buf + of_nat i)) [0..<nat r], s))"

text \<open>What a read shows: the buffer, made anew at position 0, from the position on.\<close>

definition psinfo_buffer :: "u32 \<Rightarrow> procfs \<Rightarrow> procfs" where
  "psinfo_buffer f s = (if f_pos (files s f) = 0 then snd (refresh_psinfo s) else s)"

lemma put_bytes_read:
  assumes "length xs \<le> 4294967296" shows "map (\<lambda>i. put_bytes a xs h (a + of_nat i)) [0..<length xs] = xs"
  by (rule nth_equalityI) (simp_all add: put_bytes_nth [OF assms])

lemma psinfo_read_text:
  assumes "psinfoPid s = - 1" "f_pos (files s f) = int p" "cstr_at (kmem (psinfo_buffer f s)) (psinfoBuf s) zs"
    and "p \<le> length zs" "length zs \<le> 2147483647"
  shows "\<exists>s'. psinfo_read f buf n s = (take n (drop p zs), s') \<and> f_pos (files s' f) = int (p + min n (length zs - p)) \<and>
    kmem s' = kmem (psinfo_buffer f s) \<and> psinfoPid s' = - 1 \<and> psinfoBuf s' = psinfoBuf s \<and> vk s' = vk s \<and>
    (\<forall>g. g \<noteq> f \<longrightarrow> files s' g = files s g)"
proof -
  let ?s = "psinfo_buffer f s"
  have b: "files ?s = files s" "psinfoBuf ?s = psinfoBuf s" "psinfoPid ?s = - 1" "vk ?s = vk s"
    using assms(1) by (simp_all add: psinfo_buffer_def refresh_psinfo_text)
  let ?r = "min n (length zs - p)"
  have l: "proc_loop n (psinfoBuf s) (int p) buf 0 ?s =
     (?r, int (p + ?r), length zs - p < n, ?s\<lparr>umem := put_bytes buf (take n (drop p zs)) (umem ?s)\<rparr>)"
    using proc_loop_text [OF assms(3-5), of n buf 0] by simp
  have len: "length (take n (drop p zs)) = ?r" by simp
  have "map (\<lambda>i. put_bytes buf (take n (drop p zs)) (umem ?s) (buf + of_nat i)) [0..<?r] = take n (drop p zs)"
    using put_bytes_read [of "take n (drop p zs)"] assms(5) unfolding len by simp
  moreover have "proc_read PSINFO f buf (int n) s = (Inr (int ?r),
     (set_pos f (int (p + ?r)) (?s\<lparr>umem := put_bytes buf (take n (drop p zs)) (umem ?s)\<rparr>))\<lparr>psinfoPid := - 1\<rparr>)"
    using l b assms(1,2) unfolding proc_read_def psinfo_buffer_def [symmetric]
    by (auto simp: PSINFO_def set_pos_def Let_def simp del: of_nat_add)
  ultimately show ?thesis
    using b by (intro exI) (auto simp: psinfo_read_def set_pos_def)
qed

section \<open>Parsing psinfo\<close>

fun chunks :: "u8 \<Rightarrow> u8 list \<Rightarrow> u8 list list" where
  "chunks c [] = [[]]"
| "chunks c (x # xs) = (if x = c then [] # chunks c xs else (x # hd (chunks c xs)) # tl (chunks c xs))"

lemma chunks_nonempty: "chunks c xs \<noteq> []"
  by (induction xs) auto

lemma chunks_append: "c \<notin> set xs \<Longrightarrow> chunks c (xs @ c # ys) = xs # chunks c ys"
  by (induction xs) auto

lemma chunks_single: "c \<notin> set xs \<Longrightarrow> chunks c xs = [xs]"
  by (induction xs) auto

definition parse_psinfo :: "u8 list \<Rightarrow> int list list" where
  "parse_psinfo zs = map (\<lambda>l. map parse_int (chunks 9 l)) (butlast (tl (chunks 10 zs)))"

definition psinfo_fields :: "task_struct \<Rightarrow> int list" where
  "psinfo_fields t = [pid t, state_number (state t), father t, counter t, start_time t]"

lemma parse_psinfo_text: "parse_psinfo (psinfo_text k) = map (\<lambda>i. psinfo_fields (ts k (task k i))) (slots_used k)"
proof -
  define body where "body = (\<lambda>t :: task_struct. show_int (pid t) @ 9 # show_int (state_number (state t)) @ 9 # show_int (father t) @ 9 #
     show_int (counter t) @ 9 # show_int (start_time t))"
  have n: "10 \<notin> set (body t)" for t using show_int_chars by (fastforce simp: body_def)
  have l: "psinfo_line t = body t @ [10]" for t by (simp add: psinfo_line_def body_def)
  have c: "chunks 10 (concat (map (\<lambda>i. psinfo_line (g i)) is)) = map (\<lambda>i. body (g i)) is @ [[]]" for g and "is" :: "nat list"
    by (induction "is") (simp_all add: l chunks_append [OF n])
  have h: "psinfo_header = butlast psinfo_header @ [10]" "10 \<notin> set (butlast psinfo_header)"
    by (simp_all add: psinfo_header_bytes)
  have "psinfo_text k = butlast psinfo_header @ 10 # concat (map (\<lambda>i. psinfo_line (ts k (task k i))) (slots_used k))"
    unfolding psinfo_text_def by (subst h(1)) simp
  then have "butlast (tl (chunks 10 (psinfo_text k))) = map (\<lambda>i. body (ts k (task k i))) (slots_used k)"
    by (simp add: chunks_append [OF h(2)] c)
  moreover have "map parse_int (chunks 9 (body t)) = psinfo_fields t" for t
  proof -
    have 9: "9 \<notin> set (show_int i)" for i using show_int_chars by auto
    show ?thesis unfolding body_def psinfo_fields_def by (simp add: chunks_append [OF 9] chunks_single [OF 9] parse_show_int)
  qed
  ultimately show ?thesis by (simp add: parse_psinfo_def)
qed

section \<open>A reader among other processes\<close>

text \<open>What the other processes do between two reads: anything that leaves the buffer, its lock and this open file alone.\<close>

definition spares :: "u32 \<Rightarrow> procfs \<Rightarrow> procfs \<Rightarrow> bool" where
  "spares f s s' \<longleftrightarrow> kmem s' = kmem s \<and> psinfoBuf s' = psinfoBuf s \<and> psinfoPid s' = psinfoPid s \<and> files s' f = files s f"

text \<open>Reads of the given numbers of bytes one after the other, each followed by what the others do.\<close>

fun psinfo_reads :: "u32 \<Rightarrow> u32 \<Rightarrow> (nat \<times> (procfs \<Rightarrow> procfs)) list \<Rightarrow> procfs \<Rightarrow> u8 list" where
  "psinfo_reads f buf [] s = []"
| "psinfo_reads f buf ((n, g) # rs) s = (let (xs, s) = psinfo_read f buf n s in xs @ psinfo_reads f buf rs (g s))"

lemma psinfo_reads_on:
  assumes "\<forall>(n, g) \<in> set rs. \<forall>s. spares f s (g s)" "psinfoPid s = - 1" "f_pos (files s f) = int p" "0 < p"
    and "cstr_at (kmem s) (psinfoBuf s) zs" "p \<le> length zs" "length zs \<le> 2147483647"
  shows "psinfo_reads f buf rs s = take (sum_list (map fst rs)) (drop p zs)"
  using assms
proof (induction rs arbitrary: s p)
  case (Cons r rs)
  obtain n g where r: "r = (n, g)" by force
  have b: "psinfo_buffer f s = s" using Cons.prems(3,4) by (simp add: psinfo_buffer_def)
  obtain s' where s': "psinfo_read f buf n s = (take n (drop p zs), s')" "f_pos (files s' f) = int (p + min n (length zs - p))"
    "kmem s' = kmem s" "psinfoPid s' = - 1" "psinfoBuf s' = psinfoBuf s"
    using psinfo_read_text [of s f p zs buf n] Cons.prems unfolding b by blast
  have g: "spares f s' (g s')" using Cons.prems(1) r by simp
  have "psinfo_reads f buf rs (g s') = take (sum_list (map fst rs)) (drop (p + min n (length zs - p)) zs)"
    using g s' Cons.prems by (intro Cons.IH) (simp_all add: spares_def r)
  also have "\<dots> = take (sum_list (map fst rs)) (drop n (drop p zs))"
    by (cases "n \<le> length zs - p") (simp_all add: add.commute)
  finally show ?case by (simp add: r s'(1) take_add)
qed simp


text \<open>How long the text can be.\<close>

definition fields_ok :: "task_struct \<Rightarrow> bool" where
  "fields_ok t \<longleftrightarrow> (\<forall>i \<in> set (psinfo_fields t). - 2147483648 \<le> i \<and> i \<le> 2147483647)"

lemma state_number_length: "length (show_int (state_number st)) = 1"
  by (cases st) (simp_all add: state_number_def show_int_def show_nat.simps)

lemma psinfo_line_length:
  "fields_ok t \<Longrightarrow> length (psinfo_line t) \<le> 50"
  "10 \<le> pid t \<Longrightarrow> 10 \<le> father t \<Longrightarrow> 10 \<le> counter t \<Longrightarrow> 1000 \<le> start_time t \<Longrightarrow> 16 \<le> length (psinfo_line t)"
proof -
  assume "fields_ok t"
  then have "length (show_int (pid t)) \<le> 11" "length (show_int (father t)) \<le> 11" "length (show_int (counter t)) \<le> 11"
    "length (show_int (start_time t)) \<le> 11"
    by (auto simp: fields_ok_def psinfo_fields_def intro!: show_int_length(1))
  then show "length (psinfo_line t) \<le> 50" by (simp add: psinfo_line_def state_number_length)
next
  assume "10 \<le> pid t" "10 \<le> father t" "10 \<le> counter t" "1000 \<le> start_time t"
  then have "Suc 1 \<le> length (show_int (pid t))" "Suc 1 \<le> length (show_int (father t))" "Suc 1 \<le> length (show_int (counter t))"
    "Suc 3 \<le> length (show_int (start_time t))"
    by (intro show_int_length(2); simp)+
  then show "16 \<le> length (psinfo_line t)" by (simp add: psinfo_line_def state_number_length)
qed

lemma length_concat_le: "\<forall>x \<in> set xs. length (f x) \<le> n \<Longrightarrow> length (concat (map f xs)) \<le> n * length xs"
  by (induction xs) auto

lemma length_concat_ge: "\<forall>x \<in> set xs. n \<le> length (f x) \<Longrightarrow> n * length xs \<le> length (concat (map f xs))"
  by (induction xs) auto

lemma psinfo_text_length:
  "\<forall>i \<in> set (slots_used k). fields_ok (ts k (task k i)) \<Longrightarrow> length (psinfo_text k) \<le> 36 + 50 * length (slots_used k)"
  using length_concat_le [of "slots_used k" "\<lambda>i. psinfo_line (ts k (task k i))" 50] psinfo_line_length(1)
  by (simp add: psinfo_text_def psinfo_header_bytes)

lemma slots_used_length: "length (slots_used k) \<le> 63"
  using length_filter_le [of "\<lambda>i. task k i \<noteq> 0" "[1..<64]"] by (simp add: slots_used_def)

text \<open>C36. Where \<open>psinfoBuf\<close> ends: with at most 19 tasks besides task 0, no byte outside the 1024 of the buffer changes;
  but nothing checks the length, and a full task table of tasks with numbers, fathers and slices of two digits that were
  started ten seconds after the system overwrites what stands behind the buffer.\<close>

theorem psinfo_buffer_bounds:
  assumes "\<forall>i \<in> set (slots_used (vk s)). fields_ok (ts (vk s) (task (vk s) i))"
  shows "(length (slots_used (vk s)) \<le> 19 \<longrightarrow>
      (\<forall>x. 1024 \<le> unat (x - psinfoBuf s) \<longrightarrow> kmem (snd (refresh_psinfo s)) x = kmem s x)) \<and>
    ((\<forall>i \<in> {1..63}. task (vk s) i \<noteq> 0 \<and> (let t = ts (vk s) (task (vk s) i) in
        10 \<le> pid t \<and> 10 \<le> father t \<and> 10 \<le> counter t \<and> 1000 \<le> start_time t)) \<longrightarrow>
      kmem (snd (refresh_psinfo s)) (psinfoBuf s + 1024) = psinfo_text (vk s) ! 1024 \<and>
      kmem (snd (refresh_psinfo s)) (psinfoBuf s + 1024) \<noteq> 0)"
proof -
  let ?z = "psinfo_text (vk s)"
  have l: "length ?z \<le> 36 + 50 * length (slots_used (vk s))" by (rule psinfo_text_length [OF assms])
  then have l2: "length ?z \<le> 3186" using slots_used_length [of "vk s"] by linarith
  have k: "kmem (snd (refresh_psinfo s)) x =
      (if unat (x - psinfoBuf s) \<le> length ?z then (?z @ [0]) ! unat (x - psinfoBuf s) else kmem s x)" for x
    using put_bytes_at [of "?z @ [0]" "psinfoBuf s" "kmem s" x] l2 by (simp add: refresh_psinfo_text less_Suc_eq_le)
  have "kmem (snd (refresh_psinfo s)) x = kmem s x" if "length (slots_used (vk s)) \<le> 19" "1024 \<le> unat (x - psinfoBuf s)" for x
    using l that unfolding k by simp
  moreover have "kmem (snd (refresh_psinfo s)) (psinfoBuf s + 1024) = ?z ! 1024 \<and> kmem (snd (refresh_psinfo s)) (psinfoBuf s + 1024) \<noteq> 0"
    if full: "\<forall>i \<in> {1..63}. task (vk s) i \<noteq> 0 \<and> (let t = ts (vk s) (task (vk s) i) in
        10 \<le> pid t \<and> 10 \<le> father t \<and> 10 \<le> counter t \<and> 1000 \<le> start_time t)"
  proof -
    have u: "slots_used (vk s) = [1..<64]" using full by (auto simp: slots_used_def filter_id_conv)
    have "\<forall>i \<in> set [1..<64]. 16 \<le> length (psinfo_line (ts (vk s) (task (vk s) i)))"
      using full by (auto simp: Let_def intro!: psinfo_line_length(2))
    from length_concat_ge [OF this] have "16 * 63 \<le> length (concat (map (\<lambda>i. psinfo_line (ts (vk s) (task (vk s) i))) [1..<64]))"
      by (simp only: length_upt)
    then have n: "1024 < length ?z" by (simp only: psinfo_text_def u psinfo_header_bytes length_append) simp
    then have "?z ! 1024 \<in> set ?z" by simp
    then have "?z ! 1024 \<noteq> 0" using psinfo_no_nul [of "vk s"] by metis
    then show ?thesis unfolding k using n by (simp add: nth_append)
  qed
  ultimately show ?thesis by blast
qed

text \<open>The lock that should keep a second reader away is never taken (nothing but -1 is ever stored in \<open>psinfoPid\<close>): when
  another process starts to read between two reads of the first one, the buffer is made anew and the first reader gets
  the beginning of the old table and goes on at the same position in the new one.\<close>

theorem psinfo_torn_read:
  assumes "psinfoPid s = - 1" "f_pos (files s f) = 0" "f_pos (files s g) = 0" "f \<noteq> g" "0 < n"
    and "n \<le> length (psinfo_text (vk s))" "length (psinfo_text (vk s)) \<le> 2147483647"
    and "n \<le> length (psinfo_text k)" "length (psinfo_text k) \<le> 2147483647"
  shows "\<exists>s1 s2 s3. psinfo_read f buf n s = (take n (psinfo_text (vk s)), s1) \<and>
    psinfo_read g buf' m (s1\<lparr>vk := k\<rparr>) = (take m (psinfo_text k), s2) \<and> psinfoPid s2 = - 1 \<and>
    psinfo_read f buf j s2 = (take j (drop n (psinfo_text k)), s3)"
proof -
  have c: "cstr_at (kmem (psinfo_buffer f s)) (psinfoBuf s) (psinfo_text (vk s))"
    if "f_pos (files s f) = 0" "length (psinfo_text (vk s)) \<le> 2147483647" for f s
    using cstr_at_put [OF psinfo_no_nul] that by (simp add: psinfo_buffer_def refresh_psinfo_text)
  obtain s1 where s1: "psinfo_read f buf n s = (take n (psinfo_text (vk s)), s1)" "f_pos (files s1 f) = int n" "psinfoPid s1 = - 1"
    "files s1 g = files s g" "psinfoBuf s1 = psinfoBuf s"
    using psinfo_read_text [of s f 0 "psinfo_text (vk s)" buf n] c [OF assms(2,7)] assms by auto
  let ?s = "s1\<lparr>vk := k\<rparr>"
  have cg: "cstr_at (kmem (psinfo_buffer g ?s)) (psinfoBuf ?s) (psinfo_text k)"
    using c [of ?s g] s1(4) assms(3,9) by simp
  obtain s2 where s2: "psinfo_read g buf' m ?s = (take m (psinfo_text k), s2)" "kmem s2 = kmem (psinfo_buffer g ?s)" "psinfoPid s2 = - 1"
    "files s2 f = files s1 f" "psinfoBuf s2 = psinfoBuf s1"
    using psinfo_read_text [of ?s g 0 "psinfo_text k" buf' m] cg s1(3,4) assms(3,4,9) by auto
  have "psinfo_buffer f s2 = s2" using s2(4) s1(2) assms(5) by (simp add: psinfo_buffer_def)
  then have "\<exists>s3. psinfo_read f buf j s2 = (take j (drop n (psinfo_text k)), s3)"
    using psinfo_read_text [of s2 f n "psinfo_text k" buf j] s2 s1(2) cg assms(8,9) by auto
  with s1(1) s2(1,3) show ?thesis by blast
qed

section \<open>Positions and kinds of files\<close>

lemma mode_kinds:
  "S_ISPROC m \<Longrightarrow> \<not> S_ISCHR m \<and> \<not> S_ISBLK m \<and> \<not> S_ISDIR m \<and> \<not> S_ISREG m"
  "S_ISREG m \<Longrightarrow> \<not> S_ISCHR m \<and> \<not> S_ISBLK m \<and> \<not> S_ISDIR m \<and> \<not> S_ISPROC m"
  by (auto simp: S_ISPROC_def S_ISCHR_def S_ISBLK_def S_ISDIR_def S_ISREG_def)

text \<open>\<open>lseek\<close> moves to the position it returns, which is never negative, for the three origins, and changes nothing
  when it fails: without a file or for a device that cannot be positioned, for a pipe, for an unknown origin, and when
  the position would be negative.\<close>

theorem lseek_positions:
  assumes "f = fd_file fd s" "f_pos (files s f) = p" "0 \<le> p" "p \<le> 2147483647" "- 2147483648 \<le> off" "off \<le> 2147483647"
    and "sys_lseek E fd off origin s = (r, s')"
  shows "(case r of
       Inl e \<Rightarrow> s' = s \<and> (e = EBADF \<or> e = ESPIPE \<or> e = EINVAL)
     | Inr v \<Rightarrow> 0 \<le> v \<and> v \<le> 2147483647 \<and> f \<noteq> 0 \<and> s' = set_pos f v s \<and>
         (origin = 0 \<and> v = off \<or> origin = 1 \<and> v = p + off \<or> origin = 2 \<and> v = s32 (uint (i_size (the_node f s)) + off)))"
proof -
  have "s32 (p + off) = p + off" if "0 \<le> s32 (p + off)"
  proof (cases "p + off \<le> 2147483647")
    case True
    then show ?thesis using assms by simp
  next
    case False
    then have "s32 (p + off) = p + off - 4294967296" using assms(4-6)
      unfolding s32_def by (subst mod_pos_geq) (simp_all add: mod_pos_pos_trivial)
    with that False assms(4,6) show ?thesis by simp
  qed
  then show ?thesis
    using assms s32_range [of "p + off"] s32_range [of "uint (i_size (the_node f s)) + off"]
    by (auto simp: sys_lseek_def Let_def split: if_splits)
qed

lemma proc_loop_nonzero:
  assumes "\<forall>i < n. kmem s (base + of_nat (p + i)) \<noteq> 0" "p + n \<le> 2147483647"
  shows "proc_loop n base (int p) buf rd s =
    (rd + n, int (p + n), False, s\<lparr>umem := put_bytes (buf + of_nat rd) (map (\<lambda>i. kmem s (base + of_nat (p + i))) [0..<n]) (umem s)\<rparr>)"
  using assms
proof (induction n arbitrary: p rd s)
  case (Suc n)
  have c: "kmem s (base + of_nat p) \<noteq> 0" using Suc.prems(1) by (auto dest: spec [of _ 0])
  have s1: "s32 (int p + 1) = int (Suc p)" using Suc.prems(2) by simp
  define s' where "s' = s\<lparr>umem := (umem s)(buf + of_nat rd := kmem s (base + of_nat p))\<rparr>"
  have nz: "\<forall>i < n. kmem s' (base + of_nat (Suc p + i)) \<noteq> 0"
  proof (intro allI impI)
    fix i assume "i < n"
    with Suc.prems(1) have "kmem s (base + of_nat (p + Suc i)) \<noteq> 0" by blast
    then show "kmem s' (base + of_nat (Suc p + i)) \<noteq> 0" by (simp add: s'_def)
  qed
  have "Suc p + n \<le> 2147483647" using Suc.prems(2) by simp
  from Suc.IH [OF nz this, of "Suc rd"]
  have "proc_loop n base (int (Suc p)) buf (Suc rd) s' = (Suc rd + n, int (Suc p + n), False,
     s'\<lparr>umem := put_bytes (buf + of_nat (Suc rd)) (map (\<lambda>i. kmem s' (base + of_nat (Suc p + i))) [0..<n]) (umem s')\<rparr>)" .
  moreover have "proc_loop (Suc n) base (int p) buf rd s = proc_loop n base (int (Suc p)) buf (Suc rd) s'"
    using c s1 by (simp add: s'_def)
  moreover have "map (\<lambda>i. kmem s (base + of_nat (p + i))) [0..<Suc n] =
      kmem s (base + of_nat p) # map (\<lambda>i. kmem s' (base + of_nat (Suc p + i))) [0..<n]"
    by (simp add: s'_def upt_conv_Cons map_Suc_upt [symmetric] ac_simps del: upt_Suc map_Suc_upt)
  ultimately show ?case by (simp only: put_bytes.simps) (simp add: s'_def ac_simps)
qed simp

text \<open>The position is not checked against the buffer: after an \<open>lseek\<close> beyond its 1024 bytes, a read of
  \<open>/proc/psinfo\<close> delivers whatever bytes of the kernel stand there, up to the next zero.\<close>

theorem psinfo_reads_kernel_memory:
  assumes "f = fd_file fd s" "fd < NR_OPEN" "f \<noteq> 0" "f_inode (files s f) \<noteq> 0" "is_seekable E (MAJOR (i_dev (the_node f s)))"
    and "\<not> i_pipe (the_node f s)" "S_ISPROC (i_mode (the_node f s))" "zone0 f s = 0" "psinfoPid s = - 1"
    and "1024 \<le> off" "0 < n" "off + n \<le> 2147483647" "\<forall>i < n. kmem s (psinfoBuf s + of_nat (off + i)) \<noteq> 0"
    and "verify_area buf (int n) (vk s) = Inr k"
  shows "\<exists>s1 s2. sys_lseek E fd (int off) 0 s = (Inr (int off), s1) \<and> sys_read E fd buf (int n) s1 = Inr (Inr (int n), s2) \<and>
    (\<forall>i < n. umem s2 (buf + of_nat i) = kmem s (psinfoBuf s + of_nat (off + i)))"
proof -
  define s1 where "s1 = set_pos f (int off) s"
  have l: "sys_lseek E fd (int off) 0 s = (Inr (int off), s1)"
    using assms(1,3-6) by (simp add: sys_lseek_def s1_def)
  define s1' where "s1' = s1\<lparr>vk := k\<rparr>"
  have f1: "fd_file fd s1 = f" "f_pos (files s1' f) = int off" "kmem s1' = kmem s" "psinfoBuf s1' = psinfoBuf s"
    "psinfoPid s1' = - 1" "zone0 f s1' = 0" "the_node f s1' = the_node f s" "vk s1 = vk s" "the_node f s1 = the_node f s"
    using assms(1,8,9) by (simp_all add: fd_file_def s1_def s1'_def set_pos_def zone0_def)
  define bs where "bs = map (\<lambda>i. kmem s (psinfoBuf s + of_nat (off + i))) [0..<n]"
  have pl: "proc_loop n (psinfoBuf s) (int off) buf 0 s1' = (n, int (off + n), False, s1'\<lparr>umem := put_bytes buf bs (umem s1')\<rparr>)"
    using proc_loop_nonzero [of n s1' "psinfoBuf s" off buf 0] assms(12,13) f1(3) by (simp add: bs_def)
  define s2 where "s2 = set_pos f (int (off + n)) (s1'\<lparr>umem := put_bytes buf bs (umem s1')\<rparr>)"
  have "proc_read 0 f buf (int n) s1' = (Inr (int n), s2)"
    using pl f1 assms(10) by (simp add: proc_read_def PSINFO_def s2_def Let_def)
  then have r: "sys_read E fd buf (int n) s1 = Inr (Inr (int n), s2)"
    using assms(2,3,6,7,11,14) f1 mode_kinds(1) [OF assms(7)] by (simp add: sys_read_def s1'_def [symmetric] Let_def)
  have "umem s2 (buf + of_nat i) = kmem s (psinfoBuf s + of_nat (off + i))" if "i < n" for i
  proof -
    have "umem s2 = put_bytes buf bs (umem s1')" by (simp add: s2_def set_pos_def)
    then show ?thesis using put_bytes_nth [of bs i buf "umem s1'"] that assms(12) by (simp add: bs_def)
  qed
  with l r show ?thesis by blast
qed

text \<open>A read of a regular file asks the file system for no byte beyond the end of the file: it returns 0 at or behind the
  end, and otherwise reads the smaller one of what was asked for and what is left.\<close>

theorem read_stays_in_file:
  assumes "f = fd_file fd s" "fd < NR_OPEN" "f \<noteq> 0" "\<not> i_pipe (the_node f s)" "S_ISREG (i_mode (the_node f s))"
    and "0 < n" "n \<le> 2147483647" "0 \<le> f_pos (files s f)" "f_pos (files s f) \<le> 2147483647" "verify_area buf n (vk s) = Inr k"
  shows "sys_read E fd buf n s = Inr (if uint (i_size (the_node f s)) \<le> f_pos (files s f) then (Inr 0, s\<lparr>vk := k\<rparr>)
    else file_read E buf (min n (uint (i_size (the_node f s)) - f_pos (files s f))) f (s\<lparr>vk := k\<rparr>))"
proof -
  define z where "z = i_size (the_node f s)"
  define p where "p = f_pos (files s f)"
  have "uint (word_of_int (n + p) :: u32) = n + p"
    using assms(6-9) unfolding p_def [symmetric] by (subst uint_word_of_int) simp
  then have g: "(word_of_int (n + p) :: u32) > z \<longleftrightarrow> uint z < n + p" by (simp add: word_less_def)
  have z: "0 \<le> uint z" "uint z < 4294967296" using uint_range_size [of z] by (simp_all add: word_size)
  have "s32 (uint z - p) = uint z - p" if "uint z < n + p"
    using that z assms(7-9) unfolding p_def [symmetric] by (intro s32_id) linarith+
  then have c: "(if uint z < n + p then s32 (uint z - p) else n) = (if uint z < n + p then uint z - p else n)" by simp
  have nk: "\<not> S_ISCHR (i_mode (the_node f s))" "\<not> S_ISBLK (i_mode (the_node f s))" "\<not> S_ISPROC (i_mode (the_node f s))"
    using mode_kinds(2) [OF assms(5)] by blast+
  have ff: "fd_file fd s = f" "\<not> NR_OPEN \<le> fd" "\<not> n < 0" "n \<noteq> 0" using assms(1,2,6) by simp_all
  have "sys_read E fd buf n s = Inr (let c = (if (word_of_int (n + p) :: u32) > z then s32 (uint z - p) else n)
      in if c \<le> 0 then (Inr 0, s\<lparr>vk := k\<rparr>) else file_read E buf c f (s\<lparr>vk := k\<rparr>))"
    unfolding sys_read_def Let_def ff(1) using ff(2-4) assms(3-5,10) nk by (simp add: z_def p_def)
  then show ?thesis
    unfolding g c z_def [symmetric] p_def [symmetric] Let_def using assms(6) by (auto simp: min_def)
qed

section \<open>hdinfo\<close>

lemma count_free_card: "count_free n m c = c + card {i. i < n \<and> \<not> set_bit (i mod 8192) (m (i div 8192))}"
proof (induction n arbitrary: c)
  case (Suc n)
  let ?P = "\<lambda>i. \<not> set_bit (i mod 8192) (m (i div 8192))"
  have "{i. i < Suc n \<and> ?P i} = (if ?P n then insert n {i. i < n \<and> ?P i} else {i. i < n \<and> ?P i})"
    by (auto simp: less_Suc_eq)
  with Suc show ?case by simp
qed simp

lemma hdinfo_no_nul: "0 \<notin> set (hdinfo_text a b c d)"
proof -
  have n: "0 \<notin> set (show_nat i)" for i using show_nat_digits [of i] digit_no_minus by auto
  have "0 \<notin> set (ascii ''Free blocks: '')" "0 \<notin> set (ascii ''Free inodes: '')" "0 \<notin> set (ascii ''/'')"
    by (simp_all add: ascii_def of_char_def)
  then show ?thesis by (simp add: hdinfo_text_def n)
qed

text \<open>\<open>/proc/hdinfo\<close> says how many bits of the two bitmaps of the root file system are clear: those of the zones, and of
  the inodes 0 to \<open>s_ninodes\<close>; without a root file system the text is empty.\<close>

theorem hdinfo_counts:
  assumes "\<forall>p. root_super s = Some p \<longrightarrow> s_nzones p < 65536 \<and> s_ninodes p < 65536"
  shows "\<exists>zs. cstr_at (kmem (snd (refresh_hdinfo s))) (hdinfoBuf s) zs \<and> fst (refresh_hdinfo s) = length zs \<and>
    zs = (case root_super s of None \<Rightarrow> []
      | Some p \<Rightarrow> hdinfo_text (card {i. i < s_nzones p \<and> \<not> set_bit (i mod 8192) (s_zmap p (i div 8192))}) (s_nzones p)
          (card {i. i \<le> s_ninodes p \<and> \<not> set_bit (i mod 8192) (s_imap p (i div 8192))}) (s_ninodes p))"
proof (cases "root_super s")
  case None
  then show ?thesis by (simp add: refresh_hdinfo_def cstr_at_def)
next
  case (Some p)
  let ?fb = "card {i. i < s_nzones p \<and> \<not> set_bit (i mod 8192) (s_zmap p (i div 8192))}"
  let ?fi = "card {i. i \<le> s_ninodes p \<and> \<not> set_bit (i mod 8192) (s_imap p (i div 8192))}"
  let ?z = "hdinfo_text ?fb (s_nzones p) ?fi (s_ninodes p)"
  have "?fb \<le> card {i. i < s_nzones p}" "?fi \<le> card {i. i \<le> s_ninodes p}" by (intro card_mono; auto)+
  then have b: "?fb < 65536" "?fi < 10 ^ Suc 9" "s_nzones p < 65536" "s_ninodes p < 65536" using assms Some by auto
  have "length (show_nat i) \<le> 10" if "i < 10 ^ Suc 9" for i using show_nat_length_less [OF that] by simp
  from this [of ?fb] this [of ?fi] this [of "s_nzones p"] this [of "s_ninodes p"] b
  have len: "length ?z < 4294967296" by (simp add: hdinfo_text_def ascii_def)
  have "refresh_hdinfo s = (length ?z, s\<lparr>kmem := put_bytes (hdinfoBuf s) (?z @ [0]) (kmem s)\<rparr>)"
    using Some by (simp add: refresh_hdinfo_def sprintf_def count_free_card less_Suc_eq_le put_bytes_nul Let_def)
  then show ?thesis using cstr_at_put [OF hdinfo_no_nul len, of "hdinfoBuf s" "kmem s"] Some by simp
qed

section \<open>A small system\<close>

text \<open>The kernel of two tasks; files 5 and 6 are \<open>/proc/psinfo\<close> (inode 1), open as descriptor 3 of the running task; a zone
  bitmap of which the first two bits are set and an inode bitmap of which the first one is.\<close>

definition procfs1 :: procfs where
  "procfs1 = \<lparr>vk = upd_ts 0x201000 (\<lambda>t. t\<lparr>filp := (filp t)[3 := 5, 4 := 7]\<rparr>) kern1, files = (\<lambda>_. \<lparr>f_mode = 1, f_inode = 1, f_pos = 0\<rparr>)
     (7 := \<lparr>f_mode = 1, f_inode = 2, f_pos = 990\<rparr>),
     vnodes = (\<lambda>_. \<lparr>i_mode = 0x3124, i_uid = 0, i_size = 0, i_mtime = 0, i_gid = 0, i_nlinks = 1, i_zone = replicate 9 0,
       i_atime = 0, i_ctime = 0, i_dev = 0x301, i_num = 9, i_count = 1, i_dirt = False, i_pipe = False\<rparr>)
     (2 := \<lparr>i_mode = 0x81b6, i_uid = 0, i_size = 1000, i_mtime = 0, i_gid = 0, i_nlinks = 1, i_zone = replicate 9 0,
       i_atime = 0, i_ctime = 0, i_dev = 0x301, i_num = 9, i_count = 1, i_dirt = False, i_pipe = False\<rparr>),
     root_super = Some \<lparr>s_ninodes = 7, s_nzones = 16, s_imap = (\<lambda>_. [1]), s_zmap = (\<lambda>_. [3, 0])\<rparr>,
     kmem = (\<lambda>x. if x = 0x10500 then 77 else 1), umem = (\<lambda>_. 0), psinfoBuf = 0x10000, hdinfoBuf = 0x10400,
     psinfoPid = - 1, hdinfoPid = - 1, printk_log = []\<rparr>"

definition rw_ops1 :: rw_ops where
  "rw_ops1 = \<lparr>is_seekable = (\<lambda>m. 1 \<le> m \<and> m \<le> 3), rw_char = (\<lambda>_ _ _ n _ s. (Inr n, s)), block_read = (\<lambda>_ _ n _ s. (Inr n, s)),
     block_write = (\<lambda>_ _ n _ s. (Inr n, s)), read_pipe = (\<lambda>_ n _ s. (Inr n, s)), write_pipe = (\<lambda>_ n _ s. (Inr n, s)),
     file_read = (\<lambda>_ n _ s. (Inr n, s)), file_write = (\<lambda>_ n _ s. (Inr n, s))\<rparr>"

lemma slots_kern1: "task k = task kern1 \<Longrightarrow> slots_used k = [1, 2]"
  by (simp add: slots_used_def upt_rec)

lemma procfs1_simps:
  "task (vk procfs1) = task kern1" "files procfs1 5 = \<lparr>f_mode = 1, f_inode = 1, f_pos = 0\<rparr>"
  "files procfs1 6 = \<lparr>f_mode = 1, f_inode = 1, f_pos = 0\<rparr>" "psinfoPid procfs1 = - 1"
  "psinfo_fields (ts (vk procfs1) 0x200000) = [1, 1, 1, 0, 0]" "psinfo_fields (ts (vk procfs1) 0x201000) = [2, 0, 1, 0, 0]"
  by (simp_all add: procfs1_def kern1_def some_task_def INIT_TASK_def psinfo_fields_def state_number_def)

lemma procfs1_text: "36 \<le> length (psinfo_text k)" "length (psinfo_text (vk procfs1)) \<le> 136"
proof -
  have "\<forall>i \<in> set (slots_used (vk procfs1)). fields_ok (ts (vk procfs1) (task (vk procfs1) i))"
    using procfs1_simps by (simp add: slots_kern1 fields_ok_def)
  from psinfo_text_length [OF this] show "length (psinfo_text (vk procfs1)) \<le> 136"
    by (simp add: slots_kern1 procfs1_simps)
  show "36 \<le> length (psinfo_text k)" by (simp add: psinfo_text_def psinfo_header_bytes)
qed


theorem psinfo_buffer_bounds_witness:
  "kmem (snd (refresh_psinfo procfs1)) 0x10400 = 1"
proof -
  have "\<forall>i \<in> set (slots_used (vk procfs1)). fields_ok (ts (vk procfs1) (task (vk procfs1) i))"
    using procfs1_simps by (simp add: slots_kern1 fields_ok_def)
  note conjunct1 [OF psinfo_buffer_bounds [OF this]]
  moreover have "length (slots_used (vk procfs1)) \<le> 19" by (simp add: slots_kern1 procfs1_simps)
  moreover have "psinfoBuf procfs1 = 0x10000" "kmem procfs1 0x10400 = 1" by (simp_all add: procfs1_def)
  ultimately show ?thesis by simp
qed

theorem psinfo_torn_read_witness:
  "\<exists>s1 s2 s3. psinfo_read 5 0x100 30 procfs1 = (take 30 (psinfo_text (vk procfs1)), s1) \<and>
     psinfo_read 6 0x900 1 (s1\<lparr>vk := kern1\<lparr>task := \<lambda>_. 0\<rparr>\<rparr>) = (take 1 (psinfo_text (kern1\<lparr>task := \<lambda>_. 0\<rparr>)), s2) \<and>
     psinfo_read 5 0x100 1000 s2 = (take 1000 (drop 30 (psinfo_text (kern1\<lparr>task := \<lambda>_. 0\<rparr>))), s3)"
proof -
  have "length (psinfo_text (kern1\<lparr>task := \<lambda>_. 0\<rparr>)) = 36"
    by (simp add: psinfo_text_def psinfo_header_bytes slots_used_def)
  with psinfo_torn_read [of procfs1 5 6 30 "kern1\<lparr>task := \<lambda>_. 0\<rparr>" "0x100" "0x900" 1 1000] procfs1_text procfs1_simps
  have "\<exists>s1 s2 s3. psinfo_read 5 0x100 30 procfs1 = (take 30 (psinfo_text (vk procfs1)), s1) \<and>
     psinfo_read 6 0x900 1 (s1\<lparr>vk := kern1\<lparr>task := \<lambda>_. 0\<rparr>\<rparr>) = (take 1 (psinfo_text (kern1\<lparr>task := \<lambda>_. 0\<rparr>)), s2) \<and>
     psinfoPid s2 = - 1 \<and> psinfo_read 5 0x100 1000 s2 = (take 1000 (drop 30 (psinfo_text (kern1\<lparr>task := \<lambda>_. 0\<rparr>))), s3)"
    by (simp add: order_trans [OF _ procfs1_text(1)])
  then show ?thesis by blast
qed

text \<open>Nothing is mapped read-only here, so that \<open>verify_area\<close> has nothing to do.\<close>

lemma verify_area_procfs1: "verify_area a n (vk procfs1) = Inr (vk procfs1)"
proof -
  have w: "write_verify b mm_start = Inr mm_start" for b by (simp add: write_verify_def mm_start_def)
  have m: "kmm (vk procfs1) = mm_start" by (simp add: procfs1_def kmm_kern1)
  have "verify_loop n b mm_start = Inr mm_start" for n b
    by (induction n b mm_start rule: verify_loop.induct) (subst verify_loop.simps, simp add: w)
  then show ?thesis by (simp add: verify_area_def lift_mm_def m Let_def)
qed

theorem psinfo_reads_kernel_memory_witness:
  "\<exists>s1 s2. sys_lseek rw_ops1 3 0x500 0 procfs1 = (Inr 0x500, s1) \<and> sys_read rw_ops1 3 0x100 4 s1 = Inr (Inr 4, s2) \<and>
     umem s2 0x100 = 77 \<and> umem s2 0x101 = 1"
proof -
  have f: "fd_file 3 procfs1 = 5" "is_seekable rw_ops1 (MAJOR (i_dev (the_node 5 procfs1)))" "\<not> i_pipe (the_node 5 procfs1)"
    "S_ISPROC (i_mode (the_node 5 procfs1))" "zone0 5 procfs1 = 0" "f_inode (files procfs1 5) \<noteq> 0"
    by (simp_all add: fd_file_def NR_OPEN_def procfs1_def some_task_def INIT_TASK_def rw_ops1_def MAJOR_def S_ISPROC_def
      S_IFMT_def zone0_def)
  have k: "\<forall>i < 4. kmem procfs1 (psinfoBuf procfs1 + of_nat (0x500 + i)) \<noteq> 0" "kmem procfs1 0x10500 = 77" "kmem procfs1 0x10501 = 1"
    "psinfoBuf procfs1 = 0x10000"
    by (simp_all add: procfs1_def)
  obtain s1 s2 where r: "sys_lseek rw_ops1 3 (int 0x500) 0 procfs1 = (Inr (int 0x500), s1)"
    "sys_read rw_ops1 3 0x100 (int 4) s1 = Inr (Inr (int 4), s2)"
    "\<forall>i < 4. umem s2 (0x100 + of_nat i) = kmem procfs1 (psinfoBuf procfs1 + of_nat (0x500 + i))"
    using psinfo_reads_kernel_memory [OF f(1) [symmetric] _ _ f(6,2-5) procfs1_simps(4) _ _ _ k(1) verify_area_procfs1 [of "0x100"]]
    by (auto simp: NR_OPEN_def)
  from spec [OF r(3), of 0] spec [OF r(3), of 1] have "umem s2 0x100 = 77" "umem s2 0x101 = 1" using k by simp_all
  with r(1,2) show ?thesis by simp
qed

theorem read_stays_in_file_witness:
  "sys_read rw_ops1 4 0x100 100 procfs1 = Inr (Inr 10, procfs1)"
proof -
  have f: "fd_file 4 procfs1 = 7" "\<not> i_pipe (the_node 7 procfs1)" "S_ISREG (i_mode (the_node 7 procfs1))"
    "f_pos (files procfs1 7) = 990" "i_size (the_node 7 procfs1) = 1000"
    by (simp_all add: fd_file_def NR_OPEN_def procfs1_def some_task_def INIT_TASK_def S_ISREG_def S_IFMT_def)
  from read_stays_in_file [OF f(1) [symmetric] _ _ f(2,3) _ _ _ _ verify_area_procfs1, of 100 rw_ops1]
  show ?thesis by (simp add: f(4,5) NR_OPEN_def) (simp add: rw_ops1_def)
qed

theorem lseek_positions_witness:
  "sys_lseek rw_ops1 4 (- 40) 2 procfs1 = (Inr 960, set_pos 7 960 procfs1)"
proof -
  have f: "fd_file 4 procfs1 = 7" "f_pos (files procfs1 7) = 990" "i_size (the_node 7 procfs1) = 1000"
    by (simp_all add: fd_file_def NR_OPEN_def procfs1_def some_task_def INIT_TASK_def)
  obtain r s' where r: "sys_lseek rw_ops1 4 (- 40) 2 procfs1 = (r, s')" by force
  have "is_seekable rw_ops1 (MAJOR (i_dev (the_node 7 procfs1)))" "\<not> i_pipe (the_node 7 procfs1)" "f_inode (files procfs1 7) \<noteq> 0"
    by (simp_all add: procfs1_def rw_ops1_def MAJOR_def)
  then have "\<exists>v. r = Inr v" using r unfolding sys_lseek_def f(1) by (auto simp: f(3) s32_def)
  with lseek_positions [OF f(1) [symmetric] f(2) _ _ _ _ r] r show ?thesis by (auto simp: f)
qed

theorem hdinfo_counts_witness:
  "cstr_at (kmem (snd (refresh_hdinfo procfs1))) 0x10400 (hdinfo_text 14 16 7 7)"
proof -
  have z: "{i. i < 16 \<and> \<not> set_bit (i mod 8192) [3, 0]} = {2..<16}"
  proof -
    have "set_bit i [3, 0] = (i < 2)" if "i < 16" for i
    proof -
      have 3: "(3 :: u8) = mask 2" by (simp add: mask_eq_exp_minus_1)
      have "i div 8 = 0 \<and> i mod 8 = i \<or> i div 8 = 1 \<and> \<not> i < 2" using that by (cases "i < 8") auto
      then show ?thesis unfolding set_bit_def 3 by (auto simp: bit_simps)
    qed
    then show ?thesis by auto
  qed
  have i: "{i. i \<le> 7 \<and> \<not> set_bit (i mod 8192) [1]} = {1..7}"
    by (auto simp: set_bit_def bit_1_iff)
  show ?thesis
    using hdinfo_counts [of procfs1] by (simp add: procfs1_def z i)
qed

end
