(* ===== verification/Debugpaging.thy ===== *)
theory Debugpaging imports Addrspace Task begin

text \<open>
  \<open>kernel/debug.c\<close> of Lab 6.Ext: the system call that prints the paging structures of a process, and the \<open>fprintk\<close> of that
  lab's \<open>printk.c\<close>. The lines are kept as data, with the descriptor they were printed to; \<open>sys_open\<close> and
  \<open>sys_close\<close> are arguments.
\<close>

unbundle bit_operations_syntax

section \<open>Output\<close>

datatype dline =
    DProcess int nat u32
  | DTableTitle
  | DTable u32 u32
  | DTableHead u32
  | DPageTitle
  | DPage nat u32
  | DLinear u32
  | DIndexTitle
  | DIndices u32 u32 u32
  | DAddressTitle
  | DAddresses u32 u32 u32
  | DSeparator
  | DOpenFailed

record dbg =
  dk :: kern
  out :: "(int \<times> dline) list"

text \<open>\<open>fprintk(fd, ...)\<close>: descriptors below 3 go through \<open>sys_write\<close>, the others to the file in \<open>current->filp\<close>; without an
  open file nothing is printed. \<open>printk\<close> prints on the console, here descriptor -1.\<close>

definition fprintk6 :: "int \<Rightarrow> dline \<Rightarrow> dbg \<Rightarrow> dbg" where
  "fprintk6 fd l s =
     (if fd < 3 then
        (if 0 \<le> fd \<and> filp (cur (dk s)) ! nat fd \<noteq> 0 then s\<lparr>out := out s @ [(fd, l)]\<rparr> else s)
      else if filp (cur (dk s)) ! nat fd = 0 then s
      else s\<lparr>out := out s @ [(fd, l)]\<rparr>)"

definition printk6 :: "dline \<Rightarrow> dbg \<Rightarrow> dbg" where "printk6 l s = s\<lparr>out := out s @ [(- 1, l)]\<rparr>"

section \<open>sys_debug_paging\<close>

definition MAX_MEM :: nat where "MAX_MEM = 0x4000000"
definition PAGE_DIR_MEM :: nat where "PAGE_DIR_MEM = 0x400000"
definition PAGE_FRAME_SIZE :: nat where "PAGE_FRAME_SIZE = 0x20"

text \<open>The task with the number \<open>p\<close> in the highest slot from \<open>n\<close> down to 1.\<close>

fun task_number :: "nat \<Rightarrow> int \<Rightarrow> kern \<Rightarrow> nat option" where
  "task_number 0 p k = None"
| "task_number (Suc n) p k =
     (if task k (Suc n) \<noteq> 0 \<and> pid (ts k (task k (Suc n))) = p then Some (Suc n) else task_number n p k)"

text \<open>The element \<open>i\<close> of an array of longs.\<close>

definition long_at :: "dbg \<Rightarrow> u32 \<Rightarrow> u32 \<Rightarrow> u32" where
  "long_at s a i = mem (kmm (dk s)) (a + push_bit 2 i)"

text \<open>The first loop: the directory entries from \<open>d + i\<close> on; the result is the array \<open>pageTablesAddress\<close>.\<close>

fun find_tables :: "int \<Rightarrow> u32 \<Rightarrow> nat \<Rightarrow> nat \<Rightarrow> dbg \<Rightarrow> u32 list \<times> dbg" where
  "find_tables fd d 0 i s = ([], s)"
| "find_tables fd d (Suc n) i s =
     (let e = long_at s 0 (d + of_nat i) in
      if e AND 1 \<noteq> 0 then
        (let t = e AND 0xfffff000; s = fprintk6 fd (DTable (d + of_nat i) t) s; (rest, s) = find_tables fd d n (Suc i) s in (t # rest, s))
      else (let (rest, s) = find_tables fd d n (Suc i) s in (0 # rest, s)))"

text \<open>The entries of one table.\<close>

fun print_pages :: "int \<Rightarrow> u32 \<Rightarrow> nat \<Rightarrow> nat \<Rightarrow> dbg \<Rightarrow> dbg" where
  "print_pages fd t 0 j s = s"
| "print_pages fd t (Suc n) j s =
     (let e = long_at s t (of_nat j)
      in print_pages fd t n (Suc j) (if e AND 1 \<noteq> 0 then fprintk6 fd (DPage j (e AND 0xfffff000)) s else s))"

fun print_tables :: "int \<Rightarrow> u32 list \<Rightarrow> dbg \<Rightarrow> dbg" where
  "print_tables fd [] s = s"
| "print_tables fd (t # tab) s =
     print_tables fd tab
       (if t \<noteq> 0 then print_pages fd t (4096 div PAGE_FRAME_SIZE) 0 (fprintk6 fd DPageTitle (fprintk6 fd (DTableHead t) s)) else s)"

definition print_all :: "int \<Rightarrow> u32 \<Rightarrow> dbg \<Rightarrow> dbg" where
  "print_all fd base s =
     (let d = drop_bit 22 base;
          s = fprintk6 fd DTableTitle s;
          (tabs, s) = find_tables fd d (MAX_MEM div PAGE_DIR_MEM) 0 s;
          s = print_tables fd tabs s
      in fprintk6 fd DSeparator s)"

text \<open>The walk for one address: \<open>None\<close> when it returns before the end.\<close>

definition print_address :: "int \<Rightarrow> u32 \<Rightarrow> dbg \<Rightarrow> bool \<times> dbg" where
  "print_address fd lin s =
     (let s = fprintk6 fd (DLinear lin) s;
          pageDirectoryIndex = drop_bit 22 lin; pageTableIndex = drop_bit 12 (lin AND 0x3ff000); physicalOffset = lin AND 0xfff;
          s = fprintk6 fd DIndexTitle s;
          s = fprintk6 fd (DIndices pageDirectoryIndex pageTableIndex physicalOffset) s;
          e = long_at s 0 pageDirectoryIndex in
      if e AND 1 = 0 then (False, s)
      else let pageTableAddress = e AND 0xfffff000; e = long_at s pageTableAddress pageTableIndex in
        if e AND 1 = 0 then (False, s)
        else let physicalPageAddress = e AND 0xfffff000;
                 s = fprintk6 fd DAddressTitle s;
                 s = fprintk6 fd (DAddresses pageTableAddress physicalPageAddress (physicalPageAddress + physicalOffset)) s
             in (True, fprintk6 fd DSeparator s))"

definition sys_debug_paging ::
  "(kern \<Rightarrow> int \<times> kern) \<Rightarrow> (int \<Rightarrow> kern \<Rightarrow> kern) \<Rightarrow> int \<Rightarrow> u32 \<Rightarrow> bool \<Rightarrow> dbg \<Rightarrow> (errno + int) \<times> dbg" where
  "sys_debug_paging sys_open sys_close p address logPath s =
     (case task_number (NR_TASKS - 1) p (dk s) of
        None \<Rightarrow> (Inl EINVAL, s)
      | Some n \<Rightarrow>
          let base = 0x4000000 * of_nat n;
              (fd, s) = (if logPath then (let (fd, k) = sys_open (dk s) in (fd, s\<lparr>dk := k\<rparr>)) else (1, s))
          in if logPath \<and> fd = - 1 then (Inl EINVAL, printk6 DOpenFailed s)
             else let s = fprintk6 fd (DProcess p n base) s;
                      (ok, s) = (if address = 0 then (True, print_all fd base s) else print_address fd (base + address) s)
                  in if \<not> ok then (Inl EINVAL, s)
                     else (Inr 0, if logPath then s\<lparr>dk := sys_close fd (dk s)\<rparr> else s))"

end
