(* ===== verification/Debugprops.thy ===== *)
theory Debugprops imports Debugpaging Forkprops begin

text \<open>
  What \<open>debug_paging\<close> prints, against the translation of addresses of \<open>Paging\<close> and \<open>Addrspace\<close>.
\<close>

unbundle bit_operations_syntax

section \<open>The lines printed\<close>

text \<open>Whether a descriptor prints anything, and the lines that a list of \<open>fprintk\<close>s adds.\<close>

definition visible :: "int \<Rightarrow> kern \<Rightarrow> bool" where
  "visible fd k \<longleftrightarrow> (0 \<le> fd \<and> filp (cur k) ! nat fd \<noteq> 0)"

definition lines :: "int \<Rightarrow> dline list \<Rightarrow> dbg \<Rightarrow> dbg" where
  "lines fd ls s = s\<lparr>out := out s @ (if visible fd (dk s) then map (Pair fd) ls else [])\<rparr>"

lemma lines_simps [simp]: "dk (lines fd ls s) = dk s" "lines fd [] s = s" "lines fd ls' (lines fd ls s) = lines fd (ls @ ls') s"
  by (simp_all add: lines_def)

lemma fprintk6_lines: "fprintk6 fd l s = lines fd [l] s"
  by (cases s) (auto simp: fprintk6_def lines_def visible_def)

lemma long_at_lines [simp]: "long_at (lines fd ls s) a i = long_at s a i"
  by (simp add: long_at_def)

lemma long_at_dir: "long_at s 0 (of_nat d) = pde (kmm (dk s)) d"
  by (simp add: long_at_def pde_def dslot_def push_bit_eq_mult mult.commute)

lemma long_at_table: "long_at s t (of_nat j) = mem (kmm (dk s)) (pslot t j)"
  by (simp add: long_at_def pslot_def push_bit_eq_mult mult.commute)

definition tab :: "mm \<Rightarrow> nat \<Rightarrow> u32" where
  "tab m d = (if pde m d AND 1 \<noteq> 0 then page_base (pde m d) else 0)"

lemma find_tables_lines:
  "find_tables fd (of_nat d) n i s = (map (\<lambda>i. tab (kmm (dk s)) (d + i)) [i..<i + n],
     lines fd (concat (map (\<lambda>i. if pde (kmm (dk s)) (d + i) AND 1 \<noteq> 0 then [DTable (of_nat (d + i)) (tab (kmm (dk s)) (d + i))] else [])
       [i..<i + n])) s)"
proof (induction n arbitrary: i s)
  case (Suc n)
  have u: "[i..<i + Suc n] = i # [Suc i..<Suc i + n]" by (simp add: upt_rec)
  have e: "long_at s 0 (of_nat d + of_nat i) = pde (kmm (dk s)) (d + i)" using long_at_dir [of s "d + i"] by simp
  show ?case unfolding find_tables.simps u e Let_def
    by (simp add: Suc.IH fprintk6_lines tab_def page_base_def del: upt_Suc cong: if_cong)
qed simp

text \<open>The entries printed for one table.\<close>

definition page_lines :: "mm \<Rightarrow> u32 \<Rightarrow> nat \<Rightarrow> nat \<Rightarrow> dline list" where
  "page_lines m t j n = map (\<lambda>j. DPage j (page_base (mem m (pslot t j)))) (filter (\<lambda>j. mem m (pslot t j) AND 1 \<noteq> 0) [j..<j + n])"

lemma print_pages_lines: "print_pages fd t n j s = lines fd (page_lines (kmm (dk s)) t j n) s"
proof (induction n arbitrary: j s)
  case (Suc n)
  have u: "[j..<Suc (j + n)] = j # [Suc j..<Suc (j + n)]" by (simp add: upt_rec)
  show ?case unfolding print_pages.simps Let_def long_at_table
    by (simp add: Suc.IH fprintk6_lines page_lines_def u page_base_def del: upt_Suc)
qed (simp add: page_lines_def)

lemma print_tables_lines:
  "print_tables fd tabs s = lines fd (concat (map (\<lambda>t. if t \<noteq> 0 then DTableHead t # DPageTitle # page_lines (kmm (dk s)) t 0 128 else []) tabs)) s"
  by (induction tabs arbitrary: s) (simp_all add: fprintk6_lines print_pages_lines PAGE_FRAME_SIZE_def cong: if_cong)

lemma base_dir: "n < 64 \<Longrightarrow> drop_bit 22 (0x4000000 * of_nat n :: u32) = of_nat (16 * n)"
proof -
  assume n: "n < 64"
  then have "unat (0x4000000 * of_nat n :: u32) = 0x4000000 * n" by (simp add: unat_word_ariths unat_of_nat)
  then have "unat (drop_bit 22 (0x4000000 * of_nat n :: u32)) = 16 * n" by (simp add: unat_drop_bit)
  moreover have "unat (of_nat (16 * n) :: u32) = 16 * n" using n by (simp add: unat_of_nat del: of_nat_mult)
  ultimately show ?thesis by (simp add: word_unat_eq_iff del: of_nat_mult)
qed

lemma task_number_slot:
  "task_number m p k = Some n \<Longrightarrow> 0 < n \<and> n \<le> m \<and> task k n \<noteq> 0 \<and> pid (ts k (task k n)) = p"
  by (induction m) (auto split: if_splits)

text \<open>The walk for one address.\<close>

lemma print_address_lines:
  "print_address fd l s =
     (let m = kmm (dk s); i = [DLinear l, DIndexTitle, DIndices (drop_bit 22 l) (drop_bit 12 (l AND 0x3ff000)) (l AND 0xfff)] in
      case translate m l of
        None \<Rightarrow> (False, lines fd i s)
      | Some f \<Rightarrow> (True, lines fd (i @ [DAddressTitle, DAddresses (page_base (mem m (pde_addr l))) (page_base f) f, DSeparator]) s))"
proof -
  have d: "long_at s 0 (drop_bit 22 l) = mem (kmm (dk s)) (pde_addr l)"
    by (simp add: long_at_def pde_addr_def)
  have i: "drop_bit 12 (l AND 0x3ff000) = drop_bit 12 l AND 0x3ff"
  proof -
    have "(0x3ff000 :: u32) = push_bit 12 (mask 10)" "(0x3ff :: u32) = mask 10"
      by (simp_all add: mask_eq_exp_minus_1 push_bit_eq_mult)
    then show ?thesis by (simp only:) (rule bit_eqI, auto simp: bit_simps)
  qed
  have t: "long_at s (mem (kmm (dk s)) (pde_addr l) AND 0xfffff000) (drop_bit 12 l AND 0x3ff) =
      mem (kmm (dk s)) (pte_addr (kmm (dk s)) l)"
    by (simp add: long_at_def pte_addr_def)
  have pb: "page_base ((x AND 0xfffff000) + (l AND 0xfff)) = x AND 0xfffff000" for x
    using page_base_offset [of x l] by (simp add: page_base_def)
  show ?thesis
    unfolding print_address_def Let_def fprintk6_lines long_at_lines d t [folded i] lines_simps translate_def
    by (simp add: pb) (simp add: page_base_def)
qed

section \<open>Properties\<close>


text \<open>Without an address, \<open>debug_paging\<close> prints only entries that are there, but not all of them: a line with index \<open>j\<close> and
  page \<open>a\<close> appears exactly when some table of the task maps \<open>a\<close> with its entry \<open>j\<close> and \<open>j\<close> is below 128, while a table has
  1024 entries.\<close>

theorem debug_lists_128_entries:
  assumes "task_number (NR_TASKS - 1) p (dk s) = Some n" "filp (cur (dk s)) ! 1 \<noteq> 0" "pt_wf (kmm (dk s))" "out s = []"
  shows "\<exists>s'. sys_debug_paging op cl p 0 False s = (Inr 0, s') \<and> dk s' = dk s \<and>
    (\<forall>j a. (1, DPage j a) \<in> set (out s') \<longleftrightarrow> j < 128 \<and> (\<exists>i < 16. page_at (kmm (dk s)) (16 * n + i) j = Some a))"
proof -
  let ?m = "kmm (dk s)"
  have v: "visible 1 (dk s)" using assms(2) by (simp add: visible_def)
  have n: "n < 64" using task_number_slot [OF assms(1)] by simp
  have d: "drop_bit 22 (0x4000000 * of_nat n :: u32) = of_nat (16 * n)" by (rule base_dir [OF n])
  define head where "head = [DProcess p n (0x4000000 * of_nat n), DTableTitle] @
    concat (map (\<lambda>i. if pde ?m (16 * n + i) AND 1 \<noteq> 0 then [DTable (of_nat (16 * n + i)) (tab ?m (16 * n + i))] else []) [0..<16])"
  define pages where "pages = concat (map (\<lambda>t. if t \<noteq> 0 then DTableHead t # DPageTitle # page_lines ?m t 0 128 else [])
    (map (\<lambda>i. tab ?m (16 * n + i)) [0..<16]))"
  have "sys_debug_paging op cl p 0 False s = (Inr 0, lines 1 (head @ pages @ [DSeparator]) s)"
    unfolding sys_debug_paging_def assms(1) head_def pages_def
    by (simp add: Let_def print_all_def d fprintk6_lines find_tables_lines print_tables_lines MAX_MEM_def PAGE_DIR_MEM_def
      del: of_nat_mult upt_Suc cong: if_cong)
  moreover have "(1, DPage j a) \<in> set (out (lines 1 (head @ pages @ [DSeparator]) s)) \<longleftrightarrow>
      j < 128 \<and> (\<exists>i < 16. page_at ?m (16 * n + i) j = Some a)" for j a
  proof -
    have "(1, DPage j a) \<in> set (out (lines 1 (head @ pages @ [DSeparator]) s)) \<longleftrightarrow> DPage j a \<in> set pages"
      using v assms(4) by (auto simp: lines_def head_def split: if_splits)
    also have "\<dots> \<longleftrightarrow> (\<exists>i < 16. tab ?m (16 * n + i) \<noteq> 0 \<and> DPage j a \<in> set (page_lines ?m (tab ?m (16 * n + i)) 0 128))"
      by (auto simp: pages_def split: if_splits)
    also have "\<dots> \<longleftrightarrow> j < 128 \<and> (\<exists>i < 16. page_at ?m (16 * n + i) j = Some a)"
    proof -
      have "tab ?m e \<noteq> 0 \<and> DPage j a \<in> set (page_lines ?m (tab ?m e) 0 128) \<longleftrightarrow> j < 128 \<and> page_at ?m e j = Some a"
        if "e < 1024" for e
      proof -
        obtain l where l: "dix l = e" using lin_exists [of e 0] \<open>e < 1024\<close> by auto
        have "pde ?m e AND 1 \<noteq> 0 \<Longrightarrow> page_base (pde ?m e) \<noteq> 0"
          using assms(3) l unfolding pt_wf_def by (metis pde_addr_dslot pde_def)
        then show ?thesis by (auto simp: tab_def page_lines_def page_at_def pte_def)
      qed
      then have "i < 16 \<Longrightarrow> (tab ?m (16 * n + i) \<noteq> 0 \<and> DPage j a \<in> set (page_lines ?m (tab ?m (16 * n + i)) 0 128)) \<longleftrightarrow>
          (j < 128 \<and> page_at ?m (16 * n + i) j = Some a)" for i using n by simp
      then show ?thesis by blast
    qed
    finally show ?thesis .
  qed
  ultimately show ?thesis by (intro exI conjI allI) (assumption, simp, assumption)
qed

text \<open>An error of \<open>sys_open\<close> is not noticed, because in the kernel it is a negative error number and not -1: the call then
  returns 0, as if it had printed everything, and prints nothing.\<close>

theorem debug_open_error_unnoticed:
  assumes "task_number (NR_TASKS - 1) p (dk s) = Some n" "op (dk s) = (- errno_code e, k)" "e \<noteq> EPERM"
  shows "\<exists>s'. sys_debug_paging op cl p 0 True s = (Inr 0, s') \<and> out s' = out s"
proof -
  have e: "errno_code e \<noteq> 1" "0 < errno_code e" using assms(3) errno_code_inj [of e EPERM] errno_code_pos by auto
  then have v: "\<not> visible (- errno_code e) k" by (simp add: visible_def)
  have o: "out (lines (- errno_code e) ls (s\<lparr>dk := k\<rparr>)) = out s" for ls using v by (simp add: lines_def)
  have n: "n < 64" using task_number_slot [OF assms(1)] by simp
  have d: "drop_bit 22 (0x4000000 * of_nat n :: u32) = of_nat (16 * n)" by (rule base_dir [OF n])
  show ?thesis
    using e unfolding sys_debug_paging_def assms(1)
    by (simp add: Let_def assms(2) print_all_def d fprintk6_lines find_tables_lines o print_tables_lines del: of_nat_mult upt_Suc)
qed

section \<open>A small system\<close>

text \<open>Task 2 of the small kernel has one page; its descriptor 1 is open.\<close>

definition dbg1 :: dbg where
  "dbg1 = \<lparr>dk = (upd_ts 0x201000 (\<lambda>t. t\<lparr>filp := (filp t)[1 := 5]\<rparr>) kern1)\<lparr>kmm := mm_one\<rparr>, out = []\<rparr>"

lemma dbg1_facts: "kmm (dk dbg1) = mm_one" "task_number (NR_TASKS - 1) 2 (dk dbg1) = Some 2" "filp (cur (dk dbg1)) ! 1 = 5" "out dbg1 = []"
proof -
  show "kmm (dk dbg1) = mm_one" "filp (cur (dk dbg1)) ! 1 = 5" "out dbg1 = []"
    by (simp_all add: dbg1_def some_task_def INIT_TASK_def NR_OPEN_def)
  have t: "task (dk dbg1) 2 = 0x201000" "pid (ts (dk dbg1) 0x201000) = 2" "\<And>i. 2 < i \<Longrightarrow> task (dk dbg1) i = 0"
    by (simp_all add: dbg1_def some_task_def)
  have "task_number (n + Suc 1) 2 (dk dbg1) = Some 2" for n
  proof (induction n)
    case 0
    show ?case unfolding add_0 task_number.simps using t by (simp add: numeral_2_eq_2 [symmetric])
  next
    case (Suc n)
    then show ?case using t(3) [of "Suc n + Suc 1"] by simp
  qed
  from this [of 61] show "task_number (NR_TASKS - 1) 2 (dk dbg1) = Some 2" by simp
qed


theorem debug_lists_128_entries_witness:
  "\<exists>s'. sys_debug_paging (\<lambda>k. (3, k)) (\<lambda>_ k. k) 2 0 False dbg1 = (Inr 0, s') \<and> (1, DPage 1 (page_addr 500)) \<in> set (out s')"
proof -
  have w: "pt_wf (kmm (dk dbg1))" using mm_one_facts(1) by (simp add: dbg1_facts vm_wf_def)
  have d: "dix 0x8001234 = 16 * 2 + 0" "tix 0x8001234 = 1" by (simp_all add: dix_def tix_def)
  have "page_at mm_one (16 * 2 + 0) 1 = Some (page_addr 500)"
    using mm_one_facts(2) unfolding translate_page_at d by auto
  then have "\<exists>i < 16. page_at (kmm (dk dbg1)) (16 * 2 + i) 1 = Some (page_addr 500)"
    unfolding dbg1_facts(1) by (intro exI [of _ 0]) simp
  moreover obtain s' where "sys_debug_paging (\<lambda>k. (3, k)) (\<lambda>_ k. k) 2 0 False dbg1 = (Inr 0, s')"
    "\<forall>j a. (1, DPage j a) \<in> set (out s') \<longleftrightarrow> j < 128 \<and> (\<exists>i < 16. page_at (kmm (dk dbg1)) (16 * 2 + i) j = Some a)"
    using debug_lists_128_entries [OF dbg1_facts(2) _ w dbg1_facts(4), of "\<lambda>k. (3, k)" "\<lambda>_ k. k"]
    by (auto simp: dbg1_facts(3) [simplified])
  ultimately show ?thesis by (intro exI [of _ s']) simp
qed

theorem debug_open_error_unnoticed_witness:
  "\<exists>s'. sys_debug_paging (\<lambda>k. (- 2, k)) (\<lambda>_ k. k) 2 0 True dbg1 = (Inr 0, s') \<and> out s' = []"
  using debug_open_error_unnoticed [OF dbg1_facts(2), of "\<lambda>k. (- 2, k)" ENOENT] by (simp add: dbg1_facts(4))

end
