(* ===== verification/Shmprog.thy ===== *)
theory Shmprog imports Shm Fault begin

text \<open>
  \<open>producer.c\<close> and \<open>consumer.c\<close> of Lab 6: two programs that pass 512 numbers through a ring of ten longs in the page
  they share, under three named semaphores. The memory is the kernel's (\<open>mm\<close>): a program gets its page from \<open>sys_shmget\<close>
  and \<open>sys_shmat\<close>, and reads and writes it through its page tables. Each system call and each access is a step of one
  process, and the steps of the two interleave in any order.

  The counters stay below 513, so that \<open>nat\<close> stands for the unsigned numbers. \<open>sem_open\<close> and the calls that redirect
  the output may fail; the process then prints a message and returns from \<open>main\<close>.
\<close>

unbundle bit_operations_syntax

definition BUFFERSIZE :: nat where "BUFFERSIZE = 10"
definition MAXDATA :: nat where "MAXDATA = 512"
definition KEY :: u32 where "KEY = 8"

section \<open>User memory\<close>

text \<open>A long at a linear address, through the page tables; \<open>None\<close> is a page fault. \<open>put_page\<close> maps pages writable.\<close>

definition read_long :: "mm \<Rightarrow> u32 \<Rightarrow> u32 option" where
  "read_long m a = map_option (mem m) (translate m a)"

definition write_long :: "mm \<Rightarrow> u32 \<Rightarrow> u32 \<Rightarrow> mm option" where
  "write_long m a v = map_option (\<lambda>f. store f v m) (translate m a)"

text \<open>\<open>p[i]\<close> for the array of longs at the linear address \<open>a\<close>.\<close>

definition read_at :: "mm \<Rightarrow> u32 \<Rightarrow> nat \<Rightarrow> u32 option" where "read_at m a i = read_long m (a + 4 * of_nat i)"
definition write_at :: "mm \<Rightarrow> u32 \<Rightarrow> nat \<Rightarrow> u32 \<Rightarrow> mm option" where "write_at m a i v = write_long m (a + 4 * of_nat i) v"

section \<open>The state\<close>

datatype sploc = L_mutex | L_empty | L_full | L_log | L_shmget | L_shmat | L_test | L_wait | L_lock | L_copy | L_print
  | L_last | L_unlock | L_post | L_unlink_mutex | L_unlink_empty | L_unlink_full | L_done | L_exit

record shmproc =
  sp_loc :: sploc
  sp_failed :: bool
  sp_base :: u32
  sp_brk :: u32
  sp_shmid :: int
  sp_p :: u32
  sp_pos :: nat
  sp_item :: nat
  sp_data :: u32

datatype spmessage = SProduced nat nat | SConsumed u32 nat | SDone bool

text \<open>\<open>ssems\<close> are the kernel's named semaphores; a handle is known by its name.\<close>

record shmpc =
  smm :: mm
  ssems :: "string \<Rightarrow> nat option"
  sprod :: shmproc
  scons :: shmproc
  slog :: "spmessage list"

definition sp_goto :: "sploc \<Rightarrow> shmproc \<Rightarrow> shmproc" where "sp_goto l p = p\<lparr>sp_loc := l\<rparr>"
definition sp_say :: "spmessage \<Rightarrow> shmpc \<Rightarrow> shmpc" where "sp_say m s = s\<lparr>slog := slog s @ [m]\<rparr>"

definition sp_open :: "string \<Rightarrow> nat \<Rightarrow> shmpc \<Rightarrow> shmpc" where
  "sp_open nm v s = (if ssems s nm = None then s\<lparr>ssems := (ssems s)(nm \<mapsto> v)\<rparr> else s)"

text \<open>\<open>None\<close>: the process waits; a name that is gone is a handle that must not be used any more.\<close>

definition sp_wait :: "string \<Rightarrow> shmpc \<Rightarrow> shmpc option" where
  "sp_wait nm s = (case ssems s nm of Some (Suc v) \<Rightarrow> Some (s\<lparr>ssems := (ssems s)(nm \<mapsto> v)\<rparr>) | _ \<Rightarrow> None)"

definition sp_post :: "string \<Rightarrow> shmpc \<Rightarrow> shmpc option" where
  "sp_post nm s = (case ssems s nm of Some v \<Rightarrow> Some (s\<lparr>ssems := (ssems s)(nm \<mapsto> v + 1)\<rparr>) | None \<Rightarrow> None)"

definition sp_unlink :: "string \<Rightarrow> shmpc \<Rightarrow> shmpc" where "sp_unlink nm s = s\<lparr>ssems := (ssems s)(nm := None)\<rparr>"

section \<open>What both programs do first\<close>

definition sp_setup :: "shmproc \<Rightarrow> shmpc \<Rightarrow> (shmproc \<times> shmpc) option" where
  "sp_setup p s =
     (case sp_loc p of
        L_mutex \<Rightarrow> Some (sp_goto L_empty p, sp_open ''bufferMutex'' 1 s)
      | L_empty \<Rightarrow> Some (sp_goto L_full p, sp_open ''empty'' BUFFERSIZE s)
      | L_full \<Rightarrow> Some (sp_goto L_log p, sp_open ''full'' 0 s)
      | L_log \<Rightarrow> Some (sp_goto L_shmget p, s)
      | L_shmget \<Rightarrow>
          (case sys_shmget KEY (of_nat (4 * BUFFERSIZE)) (smm s) of
             (Inl e, m) \<Rightarrow> Some (p\<lparr>sp_failed := True\<rparr>, s\<lparr>smm := m\<rparr>)
           | (Inr i, m) \<Rightarrow> Some (sp_goto L_shmat (p\<lparr>sp_shmid := i\<rparr>), s\<lparr>smm := m\<rparr>))
      | L_shmat \<Rightarrow>
          (case sys_shmat (sp_shmid p) (sp_base p) (sp_brk p) (smm s) of
             (Inl e, b, m) \<Rightarrow> Some (p\<lparr>sp_failed := True\<rparr>, s\<lparr>smm := m\<rparr>)
           | (Inr a, b, m) \<Rightarrow> Some (sp_goto L_test (p\<lparr>sp_p := a, sp_brk := b\<rparr>), s\<lparr>smm := m\<rparr>))
      | _ \<Rightarrow> None)"

definition sp_may_fail :: "sploc \<Rightarrow> bool" where
  "sp_may_fail l \<longleftrightarrow> l = L_mutex \<or> l = L_empty \<or> l = L_full \<or> l = L_log"

section \<open>The loops\<close>

definition then_goto :: "sploc \<Rightarrow> shmproc \<Rightarrow> shmpc option \<Rightarrow> (shmproc \<times> shmpc) option" where
  "then_goto l p r = map_option (\<lambda>s. (sp_goto l p, s)) r"

definition shm_producer :: "shmproc \<Rightarrow> shmpc \<Rightarrow> (shmproc \<times> shmpc) option" where
  "shm_producer p s =
     (case sp_loc p of
        L_test \<Rightarrow> Some (sp_goto (if sp_item p < MAXDATA then L_wait else L_done) p, s)
      | L_wait \<Rightarrow> then_goto L_lock p (sp_wait ''empty'' s)
      | L_lock \<Rightarrow> then_goto L_copy p (sp_wait ''bufferMutex'' s)
      | L_copy \<Rightarrow>
          (case write_at (smm s) (sp_base p + sp_p p) (sp_pos p mod BUFFERSIZE) (of_nat (sp_item p)) of
             None \<Rightarrow> None
           | Some m \<Rightarrow> Some (sp_goto L_print p, s\<lparr>smm := m\<rparr>))
      | L_print \<Rightarrow> Some (sp_goto L_unlock (p\<lparr>sp_pos := sp_pos p + 1\<rparr>), sp_say (SProduced (sp_item p) (sp_pos p)) s)
      | L_unlock \<Rightarrow> then_goto L_post p (sp_post ''bufferMutex'' s)
      | L_post \<Rightarrow> then_goto L_test (p\<lparr>sp_item := sp_item p + 1\<rparr>) (sp_post ''full'' s)
      | L_done \<Rightarrow> Some (sp_goto L_exit p, sp_say (SDone True) s)
      | _ \<Rightarrow> sp_setup p s)"

definition shm_consumer :: "shmproc \<Rightarrow> shmpc \<Rightarrow> (shmproc \<times> shmpc) option" where
  "shm_consumer p s =
     (case sp_loc p of
        L_test \<Rightarrow> Some (sp_goto (if sp_item p < MAXDATA then L_wait else L_unlink_mutex) p, s)
      | L_wait \<Rightarrow> then_goto L_lock p (sp_wait ''full'' s)
      | L_lock \<Rightarrow> then_goto L_copy p (sp_wait ''bufferMutex'' s)
      | L_copy \<Rightarrow>
          (case read_at (smm s) (sp_base p + sp_p p) (sp_pos p mod BUFFERSIZE) of
             None \<Rightarrow> None
           | Some v \<Rightarrow> Some (sp_goto L_print (p\<lparr>sp_data := v\<rparr>), s))
      | L_print \<Rightarrow> Some (sp_goto L_last (p\<lparr>sp_pos := sp_pos p + 1\<rparr>), sp_say (SConsumed (sp_data p) (sp_pos p)) s)
      | L_last \<Rightarrow> Some (sp_goto (if sp_pos p \<ge> MAXDATA then L_unlink_mutex else L_unlock) p, s)
      | L_unlock \<Rightarrow> then_goto L_post p (sp_post ''bufferMutex'' s)
      | L_post \<Rightarrow> then_goto L_test (p\<lparr>sp_item := sp_item p + 1\<rparr>) (sp_post ''empty'' s)
      | L_unlink_mutex \<Rightarrow> Some (sp_goto L_unlink_empty p, sp_unlink ''bufferMutex'' s)
      | L_unlink_empty \<Rightarrow> Some (sp_goto L_unlink_full p, sp_unlink ''empty'' s)
      | L_unlink_full \<Rightarrow> Some (sp_goto L_done p, sp_unlink ''full'' s)
      | L_done \<Rightarrow> Some (sp_goto L_exit p, sp_say (SDone False) s)
      | _ \<Rightarrow> sp_setup p s)"

section \<open>Both processes\<close>

inductive shm_step :: "shmpc \<Rightarrow> shmpc \<Rightarrow> bool" where
  producer: "\<not> sp_failed (sprod s) \<Longrightarrow> shm_producer (sprod s) s = Some (p, t) \<Longrightarrow> shm_step s (t\<lparr>sprod := p\<rparr>)"
| consumer: "\<not> sp_failed (scons s) \<Longrightarrow> shm_consumer (scons s) s = Some (p, t) \<Longrightarrow> shm_step s (t\<lparr>scons := p\<rparr>)"
| producer_fails: "\<not> sp_failed (sprod s) \<Longrightarrow> sp_may_fail (sp_loc (sprod s)) \<Longrightarrow> shm_step s (s\<lparr>sprod := (sprod s)\<lparr>sp_failed := True\<rparr>\<rparr>)"
| consumer_fails: "\<not> sp_failed (scons s) \<Longrightarrow> sp_may_fail (sp_loc (scons s)) \<Longrightarrow> shm_step s (s\<lparr>scons := (scons s)\<lparr>sp_failed := True\<rparr>\<rparr>)"

inductive shm_runs :: "shmpc \<Rightarrow> shmpc \<Rightarrow> bool" where
  Runs_refl: "shm_runs s s"
| Runs_step: "shm_runs s t \<Longrightarrow> shm_step t u \<Longrightarrow> shm_runs s u"

text \<open>The programs begin with the segment base and the break their processes have, and no semaphore is open.\<close>

definition new_shmproc :: "u32 \<Rightarrow> u32 \<Rightarrow> shmproc" where
  "new_shmproc b e = \<lparr>sp_loc = L_mutex, sp_failed = False, sp_base = b, sp_brk = e, sp_shmid = - 1, sp_p = 0, sp_pos = 0,
     sp_item = 0, sp_data = 0\<rparr>"

definition shm_start :: "mm \<Rightarrow> u32 \<Rightarrow> u32 \<Rightarrow> u32 \<Rightarrow> u32 \<Rightarrow> shmpc" where
  "shm_start m pbase pb cbase cb =
     \<lparr>smm = m, ssems = (\<lambda>_. None), sprod = new_shmproc pbase pb, scons = new_shmproc cbase cb, slog = []\<rparr>"

end
