(* ===== verification/Shmprops.thy ===== *)
theory Shmprops imports Shmprog begin

text \<open>
  What the producer and the consumer of Lab 6 promise. The array in the shared page is an instance of the locale
  \<open>shared_array\<close>, whose lemmas carry the ring buffer; the rest is the invariant of the two programs.
\<close>

unbundle bit_operations_syntax

section \<open>A shared array\<close>

text \<open>An array of \<open>n\<close> elements that is seen through several views.\<close>

locale shared_array =
  fixes view :: "'m \<Rightarrow> 'a \<Rightarrow> bool" and rd :: "'m \<Rightarrow> 'a \<Rightarrow> nat \<Rightarrow> 'v option"
    and wr :: "'m \<Rightarrow> 'a \<Rightarrow> nat \<Rightarrow> 'v \<Rightarrow> 'm option" and n :: nat
  assumes wr_some: "view m a \<Longrightarrow> i < n \<Longrightarrow> \<exists>m'. wr m a i v = Some m'"
    and wr_view: "view m a \<Longrightarrow> view m b \<Longrightarrow> i < n \<Longrightarrow> wr m a i v = Some m' \<Longrightarrow> view m' b"
    and rd_some: "view m a \<Longrightarrow> i < n \<Longrightarrow> \<exists>v. rd m a i = Some v"
    and rd_wr: "view m a \<Longrightarrow> view m b \<Longrightarrow> i < n \<Longrightarrow> j < n \<Longrightarrow> wr m a i v = Some m' \<Longrightarrow>
      rd m' b j = (if j = i then Some v else rd m b j)"
    and rd_shared: "view m a \<Longrightarrow> view m b \<Longrightarrow> i < n \<Longrightarrow> rd m a i = rd m b i"
begin

text \<open>The elements \<open>lo\<close> to \<open>hi - 1\<close> of the sequence \<open>f\<close> stand in the ring.\<close>

definition ring :: "(nat \<Rightarrow> 'v) \<Rightarrow> 'm \<Rightarrow> 'a \<Rightarrow> nat \<Rightarrow> nat \<Rightarrow> bool" where
  "ring f m a lo hi \<longleftrightarrow> (\<forall>k. lo \<le> k \<and> k < hi \<longrightarrow> rd m a (k mod n) = Some (f k))"

lemma ring_empty: "ring f m a lo lo" by (auto simp: ring_def)

lemma ring_mono: "ring f m a lo hi \<Longrightarrow> lo \<le> lo' \<Longrightarrow> ring f m a lo' hi" by (simp add: ring_def)

lemma ring_read: "ring f m a lo hi \<Longrightarrow> lo \<le> k \<Longrightarrow> k < hi \<Longrightarrow> rd m a (k mod n) = Some (f k)" by (simp add: ring_def)

lemma ring_shared:
  assumes "ring f m a lo hi" "view m a" "view m b" "0 < n" shows "ring f m b lo hi"
  using assms rd_shared [OF assms(2,3)] by (simp add: ring_def)

lemma ring_slots: "lo \<le> k \<Longrightarrow> k < hi \<Longrightarrow> hi < lo + n \<Longrightarrow> k mod n \<noteq> hi mod n"
proof
  assume *: "lo \<le> k" "k < hi" "hi < lo + n" "k mod n = hi mod n"
  then have "n dvd hi - k" by (metis less_imp_le_nat mod_eq_dvd_iff_nat)
  with * show False using dvd_imp_le [of n "hi - k"] by auto
qed

lemma ring_write:
  assumes "ring f m a lo hi" "view m a" "view m b" "hi < lo + n" "lo \<le> hi" "wr m b (hi mod n) (f hi) = Some m'"
  shows "ring f m' a lo (Suc hi)"
  unfolding ring_def
proof (intro allI impI)
  fix k assume k: "lo \<le> k \<and> k < Suc hi"
  have n: "0 < n" using assms(4,5) by simp
  have "rd m' a (k mod n) = (if k mod n = hi mod n then Some (f hi) else rd m a (k mod n))"
    using rd_wr [OF assms(3,2) _ _ assms(6)] n by simp
  then show "rd m' a (k mod n) = Some (f k)"
    using k assms(1) ring_slots [of lo k hi] assms(4) by (cases "k = hi") (auto simp: ring_def)
qed

end

section \<open>The array in the shared page\<close>

text \<open>The page of the key, and the views: linear addresses with the offset \<open>off\<close> in their page, from which the array fits
  into the page, that are mapped to the shared page.\<close>

definition shm_page :: "mm \<Rightarrow> u32" where "shm_page m = physicalAddress (sharedPages m 8)"

definition no_table :: "u32 \<Rightarrow> mm \<Rightarrow> bool" where
  "no_table g m \<longleftrightarrow> (\<forall>l. mem m (pde_addr l) AND 1 \<noteq> 0 \<longrightarrow> page_base (mem m (pde_addr l)) \<noteq> g)"

definition page_ok :: "mm \<Rightarrow> bool" where
  "page_ok m \<longleftrightarrow> pt_wf m \<and> no_table (shm_page m) m \<and> page_base (shm_page m) = shm_page m \<and> shm_page m \<noteq> 0"

definition shm_view :: "u32 \<Rightarrow> mm \<Rightarrow> u32 \<Rightarrow> bool" where
  "shm_view off m a \<longleftrightarrow> page_ok m \<and> a AND 0xfff = off \<and> unat off + 40 \<le> 4096 \<and>
     (\<forall>l. drop_bit 12 l = drop_bit 12 a \<longrightarrow> translate m l = Some (shm_page m + (l AND 0xfff)))"

lemma slot_in_page:
  assumes "unat ((a :: u32) AND 0xfff) + 40 \<le> 4096" "i < 10"
  shows "drop_bit 12 (a + 4 * of_nat i) = drop_bit 12 a" "(a + 4 * of_nat i) AND 0xfff = (a AND 0xfff) + 4 * of_nat i"
proof -
  have u: "unat (4 * of_nat i :: u32) = 4 * i" using assms(2) by (simp add: unat_word_ariths unat_of_nat)
  have f: "unat (a AND 0xfff) = unat a mod 4096" by (simp add: unat_fff)
  obtain q r where qr: "unat a = 4096 * q + r" "r < 4096" by (metis mod_less_divisor mult_div_mod_eq zero_less_numeral)
  then have r: "unat a mod 4096 = r" "r + 40 \<le> 4096" using assms(1) f by simp_all
  have "unat a < 4294967296" using unsigned_less [of a, where 'a = nat] by simp
  then have "q < 1048576" using qr by simp
  then have "unat (a + 4 * of_nat i) = 4096 * q + (r + 4 * i)" using qr r assms(2) by (simp add: unat_word_ariths(1) u)
  moreover have "r + 4 * i < 4096" using r assms(2) by simp
  ultimately have ua: "unat (a + 4 * of_nat i) div 4096 = unat a div 4096"
    "unat (a + 4 * of_nat i) mod 4096 = unat a mod 4096 + 4 * i" using qr r by simp_all
  show "drop_bit 12 (a + 4 * of_nat i) = drop_bit 12 a" using ua by (simp add: word_unat_eq_iff unat_drop_bit)
  have "unat ((a AND 0xfff) + 4 * of_nat i) = unat a mod 4096 + 4 * i"
    using assms f u by (simp add: unat_word_ariths unat_fff)
  then show "(a + 4 * of_nat i) AND 0xfff = (a AND 0xfff) + 4 * of_nat i"
    using ua by (simp add: word_unat_eq_iff unat_fff)
qed

lemma view_slot:
  assumes "shm_view off m a" "i < 10"
  shows "translate m (a + 4 * of_nat i) = Some (shm_page m + (off + 4 * of_nat i))"
  using assms slot_in_page [of a i] by (auto simp: shm_view_def)

lemma off_slot_base:
  assumes "unat (off :: u32) + 40 \<le> 4096" "i < 10" "page_base p = p" shows "page_base (p + (off + 4 * of_nat i)) = p"
proof -
  have "unat (off + 4 * of_nat i) < 4096" using assms by (simp add: unat_word_ariths unat_of_nat)
  then show ?thesis by (intro page_base_add) (use assms(3) in simp_all)
qed

lemma store_in_page:
  assumes "page_ok m" "page_base f = shm_page m" "m' = store f v m"
  shows "page_ok m'" "translate m' l = translate m l" "shm_page m' = shm_page m"
proof -
  have pde: "mem m' (pde_addr l) = mem m (pde_addr l)" for l
    using assms page_base_pde_addr [of l] by (auto simp: page_ok_def)
  have fr: "page_free m' p = page_free m p" for p by (simp add: page_free_def assms(3))
  show pg: "shm_page m' = shm_page m" by (simp add: shm_page_def assms(3))
  show "page_ok m'" using assms(1) unfolding page_ok_def pt_wf_def no_table_def pde fr pg .
  show "translate m' l = translate m l"
  proof (rule translate_cong [OF pde])
    assume "mem m (pde_addr l) AND 1 \<noteq> 0"
    then have "page_base (mem m (pde_addr l)) \<noteq> shm_page m" using assms(1) by (simp add: page_ok_def no_table_def)
    moreover have "page_base (pte_addr m l) = page_base (mem m (pde_addr l))" by (simp add: pte_addr_alt)
    ultimately have "pte_addr m l \<noteq> f" using assms(2) by metis
    then show "mem m' (pte_addr m l) = mem m (pte_addr m l)" by (simp add: assms(3))
  qed
qed

lemma view_write:
  assumes "shm_view off m a" "shm_view off m b" "i < 10" "write_at m a i v = Some m'"
  shows "shm_view off m' b" "m' = store (shm_page m + (off + 4 * of_nat i)) v m"
proof -
  show e: "m' = store (shm_page m + (off + 4 * of_nat i)) v m"
    using assms(4) view_slot [OF assms(1,3)] by (simp add: write_at_def write_long_def)
  have "page_base (shm_page m + (off + 4 * of_nat i)) = shm_page m"
    using assms(1,3) by (intro off_slot_base) (simp_all add: shm_view_def page_ok_def)
  note s = store_in_page [OF _ this e]
  show "shm_view off m' b" using assms(2) s by (simp add: shm_view_def)
qed

lemma shm_slot_inj: "i < 10 \<Longrightarrow> j < 10 \<Longrightarrow> p + (off + 4 * of_nat i) = p + (off + 4 * of_nat j :: u32) \<longleftrightarrow> i = j"
proof -
  assume "i < 10" "j < 10"
  then have "(4 * of_nat i :: u32) = 4 * of_nat j \<longleftrightarrow> i = j"
    by (simp add: word_unat_eq_iff unat_word_ariths unat_of_nat)
  then show ?thesis by simp
qed

interpretation shm_ring: shared_array "shm_view off" read_at write_at BUFFERSIZE
proof
  fix m a b i j v m'
  assume a: "shm_view off m a" and i: "i < BUFFERSIZE"
  show "\<exists>m'. write_at m a i v = Some m'" "\<exists>v. read_at m a i = Some v"
    using view_slot [OF a] i by (simp_all add: BUFFERSIZE_def write_at_def write_long_def read_at_def read_long_def)
  assume b: "shm_view off m b"
  show "read_at m a i = read_at m b i"
    using view_slot [OF a] view_slot [OF b] i by (simp add: BUFFERSIZE_def read_at_def read_long_def)
  assume w: "write_at m a i v = Some m'"
  show b': "shm_view off m' b" using view_write(1) [OF a b _ w] i by (simp add: BUFFERSIZE_def)
  assume j: "j < BUFFERSIZE"
  have i10: "i < 10" "j < 10" using i j by (simp_all add: BUFFERSIZE_def)
  have e: "m' = store (shm_page m + (off + 4 * of_nat i)) v m" using view_write(2) [OF a b i10(1) w] .
  have "shm_page m' = shm_page m" by (simp add: shm_page_def e)
  then show "read_at m' b j = (if j = i then Some v else read_at m b j)"
    using view_slot [OF b i10(2)] view_slot [OF b' i10(2)] shm_slot_inj [OF i10, of "shm_page m" off]
    by (auto simp: read_at_def read_long_def e)
qed


section \<open>Counting\<close>

text \<open>Where a process has taken a token that its counter does not show yet, holds the mutex, has advanced its position,
  has shm_written its item, and where the consumer ends.\<close>

fun sp_held :: "sploc \<Rightarrow> nat" where
  "sp_held L_lock = 1" | "sp_held L_copy = 1" | "sp_held L_print = 1"
| "sp_held L_unlock = 1" | "sp_held L_post = 1" | "sp_held _ = 0"

fun sp_crit :: "sploc \<Rightarrow> nat" where
  "sp_crit L_copy = 1" | "sp_crit L_print = 1" | "sp_crit L_unlock = 1"
| "sp_crit _ = 0"

fun sp_moved :: "sploc \<Rightarrow> nat" where
  "sp_moved L_unlock = 1" | "sp_moved L_post = 1" | "sp_moved _ = 0"

fun sp_wrote :: "sploc \<Rightarrow> nat" where
  "sp_wrote L_print = 1" | "sp_wrote L_unlock = 1" | "sp_wrote L_post = 1"
| "sp_wrote _ = 0"

fun sc_end :: "sploc \<Rightarrow> bool" where
  "sc_end L_unlink_mutex = True" | "sc_end L_unlink_empty = True"
| "sc_end L_unlink_full = True" | "sc_end L_done = True" | "sc_end L_exit = True" | "sc_end _ = False"

fun sc_held :: "sploc \<Rightarrow> nat" where
  "sc_held L_lock = 1" | "sc_held L_copy = 1" | "sc_held L_print = 1"
| "sc_held L_last = 1" | "sc_held L_unlock = 1" | "sc_held L_post = 1" | "sc_held L_unlink_mutex = 1"
| "sc_held L_unlink_empty = 1" | "sc_held L_unlink_full = 1" | "sc_held L_done = 1" | "sc_held L_exit = 1" | "sc_held _ = 0"

fun sc_crit :: "sploc \<Rightarrow> nat" where
  "sc_crit L_copy = 1" | "sc_crit L_print = 1" | "sc_crit L_last = 1"
| "sc_crit L_unlock = 1" | "sc_crit L_unlink_mutex = 1" | "sc_crit L_unlink_empty = 1" | "sc_crit L_unlink_full = 1"
| "sc_crit L_done = 1" | "sc_crit L_exit = 1" | "sc_crit _ = 0"

fun sc_moved :: "sploc \<Rightarrow> nat" where
  "sc_moved L_last = 1" | "sc_moved L_unlock = 1" | "sc_moved L_post = 1"
| "sc_moved L_unlink_mutex = 1" | "sc_moved L_unlink_empty = 1" | "sc_moved L_unlink_full = 1" | "sc_moved L_done = 1"
| "sc_moved L_exit = 1" | "sc_moved _ = 0"

fun in_setup :: "sploc \<Rightarrow> bool" where
  "in_setup L_mutex = True" | "in_setup L_empty = True"
| "in_setup L_full = True" | "in_setup L_log = True" | "in_setup L_shmget = True" | "in_setup L_shmat = True"
| "in_setup _ = False"

definition prod_counts :: "shmproc \<Rightarrow> bool" where
  "prod_counts p \<longleftrightarrow> sp_pos p = sp_item p + sp_moved (sp_loc p) \<and> sp_item p \<le> 512 \<and>
     (in_setup (sp_loc p) \<longrightarrow> sp_item p = 0) \<and>
     (sp_loc p = L_wait \<or> sp_held (sp_loc p) = 1 \<longrightarrow> sp_item p < 512) \<and> (sp_loc p \<in> {L_done, L_exit} \<longrightarrow> sp_item p = 512) \<and>
     sp_loc p \<notin> {L_last, L_unlink_mutex, L_unlink_empty, L_unlink_full}"

definition cons_counts :: "shmproc \<Rightarrow> bool" where
  "cons_counts p \<longleftrightarrow> sp_pos p = sp_item p + sc_moved (sp_loc p) \<and> sp_item p < 512 \<and>
     (in_setup (sp_loc p) \<longrightarrow> sp_item p = 0) \<and> (sc_end (sp_loc p) \<longrightarrow> sp_item p = 511) \<and>
     (sp_loc p \<in> {L_unlock, L_post} \<longrightarrow> sp_item p < 511)"

definition empty_ok :: "shmproc \<Rightarrow> shmproc \<Rightarrow> nat option \<Rightarrow> bool" where
  "empty_ok p c e \<longleftrightarrow>
     (case e of Some v \<Rightarrow> v + sp_item p + sp_held (sp_loc p) = 10 + sp_item c
      | None \<Rightarrow> (sp_loc p \<in> {L_mutex, L_empty} \<and> sp_loc c \<in> {L_mutex, L_empty}) \<or> sp_loc c \<in> {L_unlink_full, L_done, L_exit})"

definition full_ok :: "shmproc \<Rightarrow> shmproc \<Rightarrow> nat option \<Rightarrow> bool" where
  "full_ok p c f \<longleftrightarrow>
     (case f of Some v \<Rightarrow> v + sp_item c + sc_held (sp_loc c) = sp_item p
      | None \<Rightarrow> (sp_loc p \<in> {L_mutex, L_empty, L_full} \<and> sp_loc c \<in> {L_mutex, L_empty, L_full}) \<or> sp_loc c \<in> {L_done, L_exit})"

definition bmutex_ok :: "shmproc \<Rightarrow> shmproc \<Rightarrow> nat option \<Rightarrow> bool" where
  "bmutex_ok p c m \<longleftrightarrow>
     (case m of Some v \<Rightarrow> v + sp_crit (sp_loc p) + sc_crit (sp_loc c) = 1
      | None \<Rightarrow> (sp_loc p = L_mutex \<and> sp_loc c = L_mutex) \<or> sp_loc c \<in> {L_unlink_empty, L_unlink_full, L_done, L_exit})"

definition shm_counts :: "shmpc \<Rightarrow> bool" where
  "shm_counts s \<longleftrightarrow> prod_counts (sprod s) \<and> cons_counts (scons s) \<and> empty_ok (sprod s) (scons s) (ssems s ''empty'') \<and>
     full_ok (sprod s) (scons s) (ssems s ''full'') \<and> bmutex_ok (sprod s) (scons s) (ssems s ''bufferMutex'') \<and>
     (sc_end (sp_loc (scons s)) \<longrightarrow> sp_item (sprod s) = 512)"

text \<open>The steps, case by case.\<close>

lemmas step_defs = then_goto_def sp_goto_def sp_say_def MAXDATA_def BUFFERSIZE_def

lemma sp_wait_SomeE:
  assumes "sp_wait nm s = Some t"
  obtains v where "ssems s nm = Some (Suc v)" "t = s\<lparr>ssems := (ssems s)(nm \<mapsto> v)\<rparr>"
  using assms by (auto simp: sp_wait_def split: option.splits nat.splits)

lemma sp_post_SomeE:
  assumes "sp_post nm s = Some t"
  obtains v where "ssems s nm = Some v" "t = s\<lparr>ssems := (ssems s)(nm \<mapsto> v + 1)\<rparr>"
  using assms by (auto simp: sp_post_def split: option.splits)

lemma sp_setup_cases:
  assumes "sp_setup p s = Some (p', t)"
  obtains "sp_loc p = L_mutex" "p' = p\<lparr>sp_loc := L_empty\<rparr>" "t = sp_open ''bufferMutex'' 1 s"
  | "sp_loc p = L_empty" "p' = p\<lparr>sp_loc := L_full\<rparr>" "t = sp_open ''empty'' 10 s"
  | "sp_loc p = L_full" "p' = p\<lparr>sp_loc := L_log\<rparr>" "t = sp_open ''full'' 0 s"
  | "sp_loc p = L_log" "p' = p\<lparr>sp_loc := L_shmget\<rparr>" "t = s"
  | e m where "sp_loc p = L_shmget" "sys_shmget KEY 40 (smm s) = (Inl e, m)" "p' = p\<lparr>sp_failed := True\<rparr>" "t = s\<lparr>smm := m\<rparr>"
  | i m where "sp_loc p = L_shmget" "sys_shmget KEY 40 (smm s) = (Inr i, m)" "p' = p\<lparr>sp_shmid := i, sp_loc := L_shmat\<rparr>" "t = s\<lparr>smm := m\<rparr>"
  | e b m where "sp_loc p = L_shmat" "sys_shmat (sp_shmid p) (sp_base p) (sp_brk p) (smm s) = (Inl e, b, m)"
      "p' = p\<lparr>sp_failed := True\<rparr>" "t = s\<lparr>smm := m\<rparr>"
  | a b m where "sp_loc p = L_shmat" "sys_shmat (sp_shmid p) (sp_base p) (sp_brk p) (smm s) = (Inr a, b, m)"
      "p' = p\<lparr>sp_p := a, sp_brk := b, sp_loc := L_test\<rparr>" "t = s\<lparr>smm := m\<rparr>"
proof (cases "sp_loc p")
  case L_shmget
  obtain r m where "sys_shmget KEY 40 (smm s) = (r, m)" by force
  with L_shmget assms that(5,6) show thesis by (cases r) (simp_all add: sp_setup_def step_defs)
next
  case L_shmat
  obtain r b m where "sys_shmat (sp_shmid p) (sp_base p) (sp_brk p) (smm s) = (r, b, m)" by (metis prod_cases3)
  with L_shmat assms that(7,8) show thesis by (cases r) (simp_all add: sp_setup_def step_defs)
next
  case L_mutex
  with assms show thesis by (intro that(1)) (simp_all add: sp_setup_def step_defs)
next
  case L_empty
  with assms show thesis by (intro that(2)) (simp_all add: sp_setup_def step_defs)
next
  case L_full
  with assms show thesis by (intro that(3)) (simp_all add: sp_setup_def step_defs)
next
  case L_log
  with assms show thesis by (intro that(4)) (simp_all add: sp_setup_def step_defs)
qed (use assms in \<open>simp_all add: sp_setup_def\<close>)

lemma shm_producer_cases:
  assumes "shm_producer p s = Some (p', t)"
  obtains (Setup) "in_setup (sp_loc p)" "sp_setup p s = Some (p', t)"
  | (Test) "sp_loc p = L_test" "p' = p\<lparr>sp_loc := (if sp_item p < 512 then L_wait else L_done)\<rparr>" "t = s"
  | (Wait) v where "sp_loc p = L_wait" "ssems s ''empty'' = Some (Suc v)" "p' = p\<lparr>sp_loc := L_lock\<rparr>" "t = s\<lparr>ssems := (ssems s)(''empty'' \<mapsto> v)\<rparr>"
  | (Lock) v where "sp_loc p = L_lock" "ssems s ''bufferMutex'' = Some (Suc v)" "p' = p\<lparr>sp_loc := L_copy\<rparr>" "t = s\<lparr>ssems := (ssems s)(''bufferMutex'' \<mapsto> v)\<rparr>"
  | (Copy) m where "sp_loc p = L_copy" "write_at (smm s) (sp_base p + sp_p p) (sp_pos p mod 10) (of_nat (sp_item p)) = Some m"
      "p' = p\<lparr>sp_loc := L_print\<rparr>" "t = s\<lparr>smm := m\<rparr>"
  | (Print) "sp_loc p = L_print" "p' = p\<lparr>sp_pos := sp_pos p + 1, sp_loc := L_unlock\<rparr>" "t = s\<lparr>slog := slog s @ [SProduced (sp_item p) (sp_pos p)]\<rparr>"
  | (Unlock) v where "sp_loc p = L_unlock" "ssems s ''bufferMutex'' = Some v" "p' = p\<lparr>sp_loc := L_post\<rparr>" "t = s\<lparr>ssems := (ssems s)(''bufferMutex'' \<mapsto> v + 1)\<rparr>"
  | (Post) v where "sp_loc p = L_post" "ssems s ''full'' = Some v" "p' = p\<lparr>sp_item := sp_item p + 1, sp_loc := L_test\<rparr>" "t = s\<lparr>ssems := (ssems s)(''full'' \<mapsto> v + 1)\<rparr>"
  | (Done) "sp_loc p = L_done" "p' = p\<lparr>sp_loc := L_exit\<rparr>" "t = s\<lparr>slog := slog s @ [SDone True]\<rparr>"
proof (cases "in_setup (sp_loc p)")
  case True
  show thesis by (rule Setup [OF True]) (use True assms in \<open>cases "sp_loc p"; simp add: shm_producer_def\<close>)
next
  case False
  note st = assms [unfolded shm_producer_def]
  show thesis
  proof (cases "sp_loc p")
    case L_test
    with st show thesis by (intro Test) (simp_all add: step_defs)
  next
    case L_wait
    with st obtain u where "sp_wait ''empty'' s = Some u" "p' = p\<lparr>sp_loc := L_lock\<rparr>" "t = u" by (auto simp: step_defs)
    with L_wait show thesis by (elim sp_wait_SomeE) (rule Wait; simp)
  next
    case L_lock
    with st obtain u where "sp_wait ''bufferMutex'' s = Some u" "p' = p\<lparr>sp_loc := L_copy\<rparr>" "t = u" by (auto simp: step_defs)
    with L_lock show thesis by (elim sp_wait_SomeE) (rule Lock; simp)
  next
    case L_copy
    with st show thesis by (auto simp: step_defs split: option.splits intro: Copy)
  next
    case L_print
    with st show thesis by (intro Print) (simp_all add: step_defs)
  next
    case L_unlock
    with st obtain u where "sp_post ''bufferMutex'' s = Some u" "p' = p\<lparr>sp_loc := L_post\<rparr>" "t = u" by (auto simp: step_defs)
    with L_unlock show thesis by (elim sp_post_SomeE) (rule Unlock; simp)
  next
    case L_post
    with st obtain u where "sp_post ''full'' s = Some u" "p' = p\<lparr>sp_item := sp_item p + 1, sp_loc := L_test\<rparr>" "t = u" by (auto simp: step_defs)
    with L_post show thesis by (elim sp_post_SomeE) (rule Post; simp)
  next
    case L_done
    with st show thesis by (intro Done) (simp_all add: step_defs)
  qed (use st False in \<open>simp_all add: sp_setup_def\<close>)
qed


lemma shm_consumer_cases:
  assumes "shm_consumer p s = Some (p', t)"
  obtains (Setup) "in_setup (sp_loc p)" "sp_setup p s = Some (p', t)"
  | (Test) "sp_loc p = L_test" "p' = p\<lparr>sp_loc := (if sp_item p < 512 then L_wait else L_unlink_mutex)\<rparr>" "t = s"
  | (Wait) v where "sp_loc p = L_wait" "ssems s ''full'' = Some (Suc v)" "p' = p\<lparr>sp_loc := L_lock\<rparr>" "t = s\<lparr>ssems := (ssems s)(''full'' \<mapsto> v)\<rparr>"
  | (Lock) v where "sp_loc p = L_lock" "ssems s ''bufferMutex'' = Some (Suc v)" "p' = p\<lparr>sp_loc := L_copy\<rparr>" "t = s\<lparr>ssems := (ssems s)(''bufferMutex'' \<mapsto> v)\<rparr>"
  | (Copy) v where "sp_loc p = L_copy" "read_at (smm s) (sp_base p + sp_p p) (sp_pos p mod 10) = Some v"
      "p' = p\<lparr>sp_data := v, sp_loc := L_print\<rparr>" "t = s"
  | (Print) "sp_loc p = L_print" "p' = p\<lparr>sp_pos := sp_pos p + 1, sp_loc := L_last\<rparr>" "t = s\<lparr>slog := slog s @ [SConsumed (sp_data p) (sp_pos p)]\<rparr>"
  | (Last) "sp_loc p = L_last" "p' = p\<lparr>sp_loc := (if sp_pos p \<ge> 512 then L_unlink_mutex else L_unlock)\<rparr>" "t = s"
  | (Unlock) v where "sp_loc p = L_unlock" "ssems s ''bufferMutex'' = Some v" "p' = p\<lparr>sp_loc := L_post\<rparr>" "t = s\<lparr>ssems := (ssems s)(''bufferMutex'' \<mapsto> v + 1)\<rparr>"
  | (Post) v where "sp_loc p = L_post" "ssems s ''empty'' = Some v" "p' = p\<lparr>sp_item := sp_item p + 1, sp_loc := L_test\<rparr>" "t = s\<lparr>ssems := (ssems s)(''empty'' \<mapsto> v + 1)\<rparr>"
  | (Unlink_mutex) "sp_loc p = L_unlink_mutex" "p' = p\<lparr>sp_loc := L_unlink_empty\<rparr>" "t = s\<lparr>ssems := (ssems s)(''bufferMutex'' := None)\<rparr>"
  | (Unlink_empty) "sp_loc p = L_unlink_empty" "p' = p\<lparr>sp_loc := L_unlink_full\<rparr>" "t = s\<lparr>ssems := (ssems s)(''empty'' := None)\<rparr>"
  | (Unlink_full) "sp_loc p = L_unlink_full" "p' = p\<lparr>sp_loc := L_done\<rparr>" "t = s\<lparr>ssems := (ssems s)(''full'' := None)\<rparr>"
  | (Done) "sp_loc p = L_done" "p' = p\<lparr>sp_loc := L_exit\<rparr>" "t = s\<lparr>slog := slog s @ [SDone False]\<rparr>"
proof (cases "in_setup (sp_loc p)")
  case True
  show thesis by (rule Setup [OF True]) (use True assms in \<open>cases "sp_loc p"; simp add: shm_consumer_def\<close>)
next
  case False
  note st = assms [unfolded shm_consumer_def]
  show thesis
  proof (cases "sp_loc p")
    case L_test
    with st show thesis by (intro Test) (simp_all add: step_defs)
  next
    case L_wait
    with st obtain u where "sp_wait ''full'' s = Some u" "p' = p\<lparr>sp_loc := L_lock\<rparr>" "t = u" by (auto simp: step_defs)
    with L_wait show thesis by (elim sp_wait_SomeE) (rule Wait; simp)
  next
    case L_lock
    with st obtain u where "sp_wait ''bufferMutex'' s = Some u" "p' = p\<lparr>sp_loc := L_copy\<rparr>" "t = u" by (auto simp: step_defs)
    with L_lock show thesis by (elim sp_wait_SomeE) (rule Lock; simp)
  next
    case L_copy
    with st show thesis by (auto simp: step_defs split: option.splits intro: Copy)
  next
    case L_print
    with st show thesis by (intro Print) (simp_all add: step_defs)
  next
    case L_last
    with st show thesis by (intro Last) (simp_all add: step_defs)
  next
    case L_unlock
    with st obtain u where "sp_post ''bufferMutex'' s = Some u" "p' = p\<lparr>sp_loc := L_post\<rparr>" "t = u" by (auto simp: step_defs)
    with L_unlock show thesis by (elim sp_post_SomeE) (rule Unlock; simp)
  next
    case L_post
    with st obtain u where "sp_post ''empty'' s = Some u" "p' = p\<lparr>sp_item := sp_item p + 1, sp_loc := L_test\<rparr>" "t = u" by (auto simp: step_defs)
    with L_post show thesis by (elim sp_post_SomeE) (rule Post; simp)
  next
    case L_unlink_mutex
    with st show thesis by (intro Unlink_mutex) (simp_all add: step_defs sp_unlink_def)
  next
    case L_unlink_empty
    with st show thesis by (intro Unlink_empty) (simp_all add: step_defs sp_unlink_def)
  next
    case L_unlink_full
    with st show thesis by (intro Unlink_full) (simp_all add: step_defs sp_unlink_def)
  next
    case L_done
    with st show thesis by (intro Done) (simp_all add: step_defs)
  qed (use st False in \<open>simp_all add: sp_setup_def\<close>)
qed

lemma producer_prod_counts: "prod_counts p \<Longrightarrow> shm_producer p s = Some (p', t) \<Longrightarrow> prod_counts p'"
  by (erule shm_producer_cases; (erule sp_setup_cases)?) (auto simp: prod_counts_def)

lemma consumer_cons_counts: "cons_counts p \<Longrightarrow> shm_consumer p s = Some (p', t) \<Longrightarrow> cons_counts p'"
  by (erule shm_consumer_cases; (erule sp_setup_cases)?) (auto simp: cons_counts_def)


lemma sp_open_simps [simp]: "smm (sp_open nm v s) = smm s" "sprod (sp_open nm v s) = sprod s" "scons (sp_open nm v s) = scons s"
  "slog (sp_open nm v s) = slog s" "ssems (sp_open nm v s) = (if ssems s nm = None then (ssems s)(nm \<mapsto> v) else ssems s)"
  by (simp_all add: sp_open_def)

lemma sp_setup_sems:
  assumes "sp_setup p s = Some (p', t)"
  shows "ssems t = (case sp_loc p of
      L_mutex \<Rightarrow> if ssems s ''bufferMutex'' = None then (ssems s)(''bufferMutex'' \<mapsto> 1) else ssems s
    | L_empty \<Rightarrow> if ssems s ''empty'' = None then (ssems s)(''empty'' \<mapsto> 10) else ssems s
    | L_full \<Rightarrow> if ssems s ''full'' = None then (ssems s)(''full'' \<mapsto> 0) else ssems s
    | _ \<Rightarrow> ssems s)" "sp_item p' = sp_item p" "sp_pos p' = sp_pos p" "sp_failed p \<Longrightarrow> sp_failed p'" "slog t = slog s"
    "sprod t = sprod s" "scons t = scons s" "sp_base p' = sp_base p"
    "sp_loc p' = (case sp_loc p of L_mutex \<Rightarrow> L_empty | L_empty \<Rightarrow> L_full | L_full \<Rightarrow> L_log | L_log \<Rightarrow> L_shmget
      | L_shmget \<Rightarrow> if sp_failed p' \<and> \<not> sp_failed p then L_shmget else sp_loc p' | l \<Rightarrow> sp_loc p')"
    "sp_loc p \<in> {L_shmget, L_shmat} \<Longrightarrow> sp_loc p' \<in> {L_shmget, L_shmat, L_test}"
  using assms by (cases rule: sp_setup_cases; simp)+

lemma producer_empty:
  assumes "empty_ok p c (ssems s ''empty'')" "shm_producer p s = Some (p', t)" "in_setup (sp_loc c) \<longrightarrow> sp_item c = 0"
    "in_setup (sp_loc p) \<longrightarrow> sp_item p = 0" "sc_end (sp_loc c) \<longrightarrow> sp_item p = 512"
    "sp_loc p = L_wait \<or> sp_held (sp_loc p) = 1 \<longrightarrow> sp_item p < 512"
  shows "empty_ok p' c (ssems t ''empty'')"
  using assms(2)
proof (cases rule: shm_producer_cases)
  case Setup
  from Setup(2) show ?thesis
    by (cases rule: sp_setup_cases) (use assms in \<open>auto simp: empty_ok_def split: option.splits\<close>)
qed (use assms in \<open>auto simp: empty_ok_def split: option.splits\<close>)

lemma producer_full:
  assumes "full_ok p c (ssems s ''full'')" "shm_producer p s = Some (p', t)" "in_setup (sp_loc c) \<longrightarrow> sp_item c = 0"
    "in_setup (sp_loc p) \<longrightarrow> sp_item p = 0" "sc_end (sp_loc c) \<longrightarrow> sp_item p = 512"
    "sp_loc p = L_wait \<or> sp_held (sp_loc p) = 1 \<longrightarrow> sp_item p < 512"
  shows "full_ok p' c (ssems t ''full'')"
  using assms(2)
proof (cases rule: shm_producer_cases)
  case Setup
  from Setup(2) show ?thesis
    by (cases rule: sp_setup_cases) (use assms in \<open>auto simp: full_ok_def split: option.splits\<close>)
qed (use assms in \<open>auto simp: full_ok_def split: option.splits\<close>)

lemma producer_mutex:
  assumes "bmutex_ok p c (ssems s ''bufferMutex'')" "shm_producer p s = Some (p', t)" "in_setup (sp_loc c) \<longrightarrow> sp_item c = 0"
    "in_setup (sp_loc p) \<longrightarrow> sp_item p = 0" "sc_end (sp_loc c) \<longrightarrow> sp_item p = 512"
    "sp_loc p = L_wait \<or> sp_held (sp_loc p) = 1 \<longrightarrow> sp_item p < 512"
  shows "bmutex_ok p' c (ssems t ''bufferMutex'')"
  using assms(2)
proof (cases rule: shm_producer_cases)
  case Setup
  from Setup(2) show ?thesis
    by (cases rule: sp_setup_cases) (use assms in \<open>auto simp: bmutex_ok_def split: option.splits\<close>)
qed (use assms in \<open>auto simp: bmutex_ok_def split: option.splits\<close>)

lemma consumer_empty:
  assumes "empty_ok p c (ssems s ''empty'')" "shm_consumer c s = Some (c', t)" "in_setup (sp_loc c) \<longrightarrow> sp_item c = 0"
    "in_setup (sp_loc p) \<longrightarrow> sp_item p = 0" "prod_counts p" "cons_counts c"
  shows "empty_ok p c' (ssems t ''empty'')"
  using assms(2)
proof (cases rule: shm_consumer_cases)
  case Setup
  from Setup(2) show ?thesis
    by (cases rule: sp_setup_cases) (use assms(1-4) in \<open>auto simp: empty_ok_def split: option.splits\<close>)
qed (use assms(1-4,6) in \<open>auto simp: empty_ok_def cons_counts_def split: option.splits\<close>)

lemma consumer_full:
  assumes "full_ok p c (ssems s ''full'')" "shm_consumer c s = Some (c', t)" "in_setup (sp_loc c) \<longrightarrow> sp_item c = 0"
    "in_setup (sp_loc p) \<longrightarrow> sp_item p = 0" "prod_counts p" "cons_counts c"
  shows "full_ok p c' (ssems t ''full'')"
  using assms(2)
proof (cases rule: shm_consumer_cases)
  case Setup
  from Setup(2) show ?thesis
    by (cases rule: sp_setup_cases) (use assms(1-4) in \<open>auto simp: full_ok_def split: option.splits\<close>)
qed (use assms(1-4,6) in \<open>auto simp: full_ok_def cons_counts_def split: option.splits\<close>)

lemma consumer_mutex:
  assumes "bmutex_ok p c (ssems s ''bufferMutex'')" "shm_consumer c s = Some (c', t)" "in_setup (sp_loc c) \<longrightarrow> sp_item c = 0"
    "in_setup (sp_loc p) \<longrightarrow> sp_item p = 0" "prod_counts p" "cons_counts c"
  shows "bmutex_ok p c' (ssems t ''bufferMutex'')"
  using assms(2)
proof (cases rule: shm_consumer_cases)
  case Setup
  from Setup(2) show ?thesis
    by (cases rule: sp_setup_cases) (use assms(1-4) in \<open>auto simp: bmutex_ok_def split: option.splits\<close>)
qed (use assms(1-4,6) in \<open>auto simp: bmutex_ok_def cons_counts_def split: option.splits\<close>)

lemma step_frame:
  "shm_producer p s = Some (p', t) \<Longrightarrow> scons t = scons s" "shm_consumer p s = Some (p', t) \<Longrightarrow> sprod t = sprod s"
  by (erule shm_producer_cases shm_consumer_cases; (erule sp_setup_cases)?; simp)+

lemma producer_fin:
  assumes "shm_producer p s = Some (p', t)" "sc_end l \<longrightarrow> sp_item p = 512" "prod_counts p"
  shows "sc_end l \<longrightarrow> sp_item p' = 512"
  using assms(1) by (rule shm_producer_cases; (erule sp_setup_cases)?) (use assms(2,3) in \<open>auto simp: prod_counts_def\<close>)

lemma consumer_fin:
  assumes "shm_consumer c s = Some (c', t)" "sc_end (sp_loc c) \<longrightarrow> sp_item p = 512" "full_ok p c (ssems s ''full'')" "prod_counts p" "cons_counts c"
  shows "sc_end (sp_loc c') \<longrightarrow> sp_item p = 512"
  using assms(1)
proof (cases rule: shm_consumer_cases)
  case Setup
  from Setup(2) show ?thesis by (cases rule: sp_setup_cases) (use assms(2) Setup(1) in auto)
next
  case Last
  with assms(3-5) show ?thesis by (auto simp: full_ok_def prod_counts_def cons_counts_def split: option.splits)
qed (use assms(2,5) in \<open>auto simp: cons_counts_def\<close>)

lemma step_counts:
  assumes "shm_step s t" "shm_counts s" shows "shm_counts t"
  using assms(1)
proof cases
  case (producer p u)
  have c: "prod_counts (sprod s)" "cons_counts (scons s)" "sc_end (sp_loc (scons s)) \<longrightarrow> sp_item (sprod s) = 512"
    using assms(2) by (simp_all add: shm_counts_def)
  have h: "in_setup (sp_loc (scons s)) \<longrightarrow> sp_item (scons s) = 0" "in_setup (sp_loc (sprod s)) \<longrightarrow> sp_item (sprod s) = 0"
    "sp_loc (sprod s) = L_wait \<or> sp_held (sp_loc (sprod s)) = 1 \<longrightarrow> sp_item (sprod s) < 512"
    using c by (simp_all add: prod_counts_def cons_counts_def)
  show ?thesis
    using producer_prod_counts [OF c(1) producer(3)] producer_empty [OF _ producer(3) h(1,2) c(3) h(3)]
      producer_full [OF _ producer(3) h(1,2) c(3) h(3)] producer_mutex [OF _ producer(3) h(1,2) c(3) h(3)]
      producer_fin [OF producer(3) c(3,1)] step_frame(1) [OF producer(3)] assms(2)
    unfolding producer(1) by (simp add: shm_counts_def)
next
  case (consumer p u)
  have c: "prod_counts (sprod s)" "cons_counts (scons s)" "sc_end (sp_loc (scons s)) \<longrightarrow> sp_item (sprod s) = 512"
    "full_ok (sprod s) (scons s) (ssems s ''full'')"
    using assms(2) by (simp_all add: shm_counts_def)
  have h: "in_setup (sp_loc (scons s)) \<longrightarrow> sp_item (scons s) = 0" "in_setup (sp_loc (sprod s)) \<longrightarrow> sp_item (sprod s) = 0"
    using c by (simp_all add: prod_counts_def cons_counts_def)
  show ?thesis
    using consumer_cons_counts [OF c(2) consumer(3)] consumer_empty [OF _ consumer(3) h c(1,2)]
      consumer_full [OF _ consumer(3) h c(1,2)] consumer_mutex [OF _ consumer(3) h c(1,2)]
      consumer_fin [OF consumer(3) c(3,4,1,2)] step_frame(2) [OF consumer(3)] assms(2)
    unfolding consumer(1) by (simp add: shm_counts_def)
qed (use assms(2) in \<open>simp_all add: shm_counts_def prod_counts_def cons_counts_def empty_ok_def full_ok_def bmutex_ok_def split: option.splits\<close>)

section \<open>The page\<close>

lemma put_page_page_ok:
  assumes m: "page_ok m" "shm_wf m" "shm_used m 8" and put: "put_page (shm_page m) a m = (r, m')" "r \<noteq> 0"
  shows "page_ok m'" "shm_page m' = shm_page m" "\<And>x. page_base x = shm_page m \<Longrightarrow> mem m' x = mem m x"
    "translate m' l = (if drop_bit 12 l = drop_bit 12 a then Some (shm_page m + (l AND 0xfff)) else translate m l)"
proof -
  have pg: "page_base (shm_page m) = shm_page m" "shm_page m \<noteq> 0" "pt_wf m" "no_table (shm_page m) m" using m(1) by (simp_all add: page_ok_def)
  note w = put_page_wf [OF pg(3,1,2) put]
  have nf: "\<not> page_free m (shm_page m)" using shared_page_not_free [OF m(2,3)] by (simp add: shm_page_def)
  show sp: "shm_page m' = shm_page m" using w(5) by (simp add: shm_page_def)
  have *: "no_table (shm_page m) m' \<and> (\<forall>x. page_base x = shm_page m \<longrightarrow> mem m' x = mem m x)"
  proof (cases "mem m (pde_addr a) AND 1 \<noteq> 0")
    case True
    let ?f = "page_base (mem m (pde_addr a))"
    have f: "?f \<noteq> shm_page m" "?f \<noteq> 0" using True pg(4) pt_wf_frame [OF pg(3) True] by (simp_all add: no_table_def)
    have "m' = store (?f + pte_slot a) (shm_page m OR 7) m" using True put by (auto simp: put_page_alt)
    moreover have "page_base (?f + pte_slot a) = ?f" by simp
    ultimately show ?thesis using f pg(4) pt_addr_neq(2) [of ?f] by (auto simp: no_table_def)
  next
    case False
    then have np: "mem m (pde_addr a) AND 1 = 0" by simp
    show ?thesis
    proof (cases rule: get_free_page_cases [of m])
      case 1
      with put np show ?thesis by (simp add: put_page_alt)
    next
      case (2 i)
      have i: "page_base (page_addr i) = page_addr i" "page_addr i \<noteq> 0" "page_addr i \<noteq> shm_page m"
        using 2(1,2) nf by (auto simp: page_free_def)
      have m': "mem m' = ((clear_page (page_addr i) (mem m))(pde_addr a := page_addr i OR 7))(page_addr i + pte_slot a := shm_page m OR 7)"
        using put np 2(4) i(2) by (auto simp: put_page_alt)
      have s: "page_base (page_addr i + pte_slot a) = page_addr i" using i(1) by simp
      have "page_base (mem m' (pde_addr l)) \<noteq> shm_page m" if "mem m' (pde_addr l) AND 1 \<noteq> 0" for l
        using that pg(4) i pt_addr_neq(2) [OF i(1,2), of l a] by (auto simp: m' no_table_def page_or_7 split: if_splits)
      moreover have "mem m' x = mem m x" if "page_base x = shm_page m" for x
        using that i s pg(2) page_base_pde_addr [of a] by (auto simp: m')
      ultimately show ?thesis by (simp add: no_table_def)
    qed
  qed
  then show "page_ok m'" using w(2) pg sp by (simp add: page_ok_def)
  show "\<And>x. page_base x = shm_page m \<Longrightarrow> mem m' x = mem m x" using * by simp
  show "translate m' l = (if drop_bit 12 l = drop_bit 12 a then Some (shm_page m + (l AND 0xfff)) else translate m l)" by (rule w(3))
qed

text \<open>The kernel's memory when \<open>n\<close> processes hold the key.\<close>

definition pages_ok :: "mm \<Rightarrow> nat \<Rightarrow> bool" where
  "pages_ok m n \<longleftrightarrow> pt_wf m \<and> shm_wf m \<and> unat (sp_count (sharedPages m 8)) = n \<and> (0 < n \<longrightarrow> page_ok m)"

lemma pages_ok_used: "pages_ok m n \<Longrightarrow> 0 < n \<Longrightarrow> shm_used m 8"
  by (auto simp: pages_ok_def shm_used_def MAX_SHARED_PAGES_NUM_def)

lemma get_free_page_fails: "get_free_page m = (0, u) \<Longrightarrow> u = m"
  by (cases rule: get_free_page_cases [of m]) auto

lemma shmget_fails: "sys_shmget k z m = (Inl e, m') \<Longrightarrow> m' = m"
  by (erule sys_shmget_cases) (auto dest: get_free_page_fails)

lemma shmat_fails:
  assumes "sys_shmat i b e m = (Inl x, e', m')" "shm_wf m" shows "m' = m"
proof -
  let ?k = "unat (word_of_int i :: u32)" 
  have z: "put_page p a m = (0, u) \<Longrightarrow> p \<noteq> 0 \<Longrightarrow> u = m" for p a u
    by (cases rule: get_free_page_cases [of m]) (auto simp: put_page_alt split: if_splits)
  show ?thesis
  proof (cases "?k \<ge> MAX_SHARED_PAGES_NUM \<or> sp_count (sharedPages m ?k) = 0 \<or> physicalAddress (sharedPages m ?k) = 0")
    case False
    obtain r u where "put_page (physicalAddress (sharedPages m ?k)) (b + e) m = (r, u)" by force
    with False assms(1) z show ?thesis by (auto simp: sys_shmat_def Let_def split: if_splits)
  qed (use assms(1) in \<open>simp add: sys_shmat_def Let_def\<close>)
qed

lemma shmget_pages:
  assumes "sys_shmget KEY 40 m = (Inr i, m')" "pages_ok m n" "n < 10"
  shows "i = 8" "pages_ok m' (Suc n)" "0 < n \<Longrightarrow> mem m' = mem m \<and> shm_page m' = shm_page m"
proof -
  let ?e = "sharedPages m 8"
  have k: "unat KEY = 8" by (simp add: KEY_def)
  have w: "pt_wf m" "shm_wf m" "unat (sp_count ?e) = n" "0 < n \<Longrightarrow> page_ok m" using assms(2) by (simp_all add: pages_ok_def)
  have c: "sp_count ?e \<noteq> - 1" 
  proof
    assume "sp_count ?e = - 1"
    then have "n = unat (- 1 :: u32)" using w(3) by simp
    also have "\<dots> = 4294967295" by (simp add: unat_word_ariths word_unat_eq_iff unsigned_minus_1_eq_mask mask_eq_exp_minus_1)
    finally show False using assms(3) by simp
  qed
  have c1: "unat (sp_count ?e + 1) = Suc n" using w(3) assms(3) by (simp add: unat_word_ariths)
  have wf': "shm_wf m'" by (rule shm_wf_sys_shmget [OF w(2) assms(1)]) (simp add: k c)
  have *: "i = 8 \<and> pages_ok m' (Suc n) \<and> (0 < n \<longrightarrow> mem m' = mem m \<and> shm_page m' = shm_page m)"
    using assms(1)
  proof (cases rule: sys_shmget_cases)
    case (3 e)
    have m': "m' = m\<lparr>sharedPages := (sharedPages m)(8 := ?e\<lparr>sp_count := sp_count ?e + 1\<rparr>)\<rparr>" using 3 by (simp add: k)
    have n: "0 < n" using 3(5) w(3) by (auto simp: k 3(3) unat_gt_0)
    have "mem m' = mem m" "shm_page m' = shm_page m" "page_free m' = page_free m"
      by (auto simp: m' shm_page_def page_free_def fun_eq_iff)
    with w n wf' c1 3(6) show ?thesis by (simp add: pages_ok_def page_ok_def pt_wf_def no_table_def k) (simp add: m')
  next
    case (5 e p u)
    obtain j where j: "j < 3840" "mem_map m j = 0" "p = page_addr j"
      "u = m\<lparr>mem_map := (mem_map m)(j := 1), mem := clear_page (page_addr j) (mem m)\<rparr>"
      by (cases rule: get_free_page_cases [of m]) (use 5(5,6) in auto)
    have m': "m' = u\<lparr>sharedPages := (sharedPages m)(8 := ?e\<lparr>physicalAddress := page_addr j, sp_count := sp_count ?e + 1\<rparr>)\<rparr>"
      using 5(3,8) j by (simp add: k)
    have n: "n = 0"
    proof (rule ccontr)
      assume "n \<noteq> 0"
      then have "sp_count ?e \<noteq> 0" "physicalAddress ?e \<noteq> 0" using w(3,4) by (auto simp: page_ok_def shm_page_def)
      with 5(3,4) show False by (simp add: k)
    qed
    have pde: "mem m' (pde_addr l) = mem m (pde_addr l)" for l using j by (simp add: m')
    have fr: "page_free m (page_addr j)" using j by (auto simp: page_free_def)
    have pt: "pt_wf m'" by (rule pt_wf_cong [OF w(1) pde]) (use j in \<open>auto simp: m' page_free_def split: if_splits\<close>)
    have "no_table (page_addr j) m'" using pt_wf_frame [OF w(1)] fr unfolding no_table_def pde by metis
    moreover have "shm_page m' = page_addr j" by (simp add: m' shm_page_def)
    ultimately show ?thesis using pt wf' n c1 j(1) 5(7) by (simp add: pages_ok_def page_ok_def k) (simp add: m')
  qed (use assms(1) in \<open>auto simp: k\<close>)
  then show "i = 8" "pages_ok m' (Suc n)" "0 < n \<Longrightarrow> mem m' = mem m \<and> shm_page m' = shm_page m" by simp_all
qed

section \<open>The memory of the two processes\<close>

fun has_key :: "sploc \<Rightarrow> nat" where
  "has_key L_mutex = 0" | "has_key L_empty = 0" | "has_key L_full = 0" | "has_key L_log = 0" | "has_key L_shmget = 0" | "has_key _ = 1"

text \<open>A process and the linear address \<open>a\<close> of its array.\<close>

definition placed :: "u32 \<Rightarrow> u32 \<Rightarrow> mm \<Rightarrow> shmproc \<Rightarrow> bool" where
  "placed off a m p \<longleftrightarrow> (sp_loc p = L_shmat \<longrightarrow> sp_shmid p = 8) \<and>
     (if in_setup (sp_loc p) then sp_base p + sp_brk p = a else sp_base p + sp_p p = a \<and> shm_view off m a)"

text \<open>What \<open>sp_setup\<close> of one process does to the memory of the other.\<close>

definition kept_view :: "u32 \<Rightarrow> u32 \<Rightarrow> mm \<Rightarrow> mm \<Rightarrow> bool" where
  "kept_view off a m m' \<longleftrightarrow> (shm_view off m a \<longrightarrow> shm_view off m' a \<and> (\<forall>i < 10. read_at m' a i = read_at m a i))"

lemma view_cong:
  assumes "shm_view off m a" "page_ok m'" "shm_page m' = shm_page m" "\<And>l. drop_bit 12 l = drop_bit 12 a \<Longrightarrow> translate m' l = translate m l"
    "\<And>x. page_base x = shm_page m \<Longrightarrow> mem m' x = mem m x"
  shows "kept_view off a m m'"
proof -
  have v: "shm_view off m' a" using assms by (simp add: shm_view_def)
  have "read_at m' a i = read_at m a i" if "i < 10" for i
  proof -
    have "page_base (shm_page m + (off + 4 * of_nat i)) = shm_page m"
      using assms(1) that by (intro off_slot_base) (simp_all add: shm_view_def page_ok_def)
    then show ?thesis using view_slot [OF assms(1) that] view_slot [OF v that] assms(3,5) by (simp add: read_at_def read_long_def)
  qed
  with v show ?thesis by (simp add: kept_view_def)
qed

lemma kept_view_refl [simp]: "kept_view off a m m" by (simp add: kept_view_def)

lemma shmat_view:
  assumes "sys_shmat 8 b e m = (Inr x, e', m')" "pages_ok m (Suc n)"
  shows "x = e" "pages_ok m' (Suc n)" "unat ((b + e) AND 0xfff) + 40 \<le> 4096 \<Longrightarrow> shm_view ((b + e) AND 0xfff) m' (b + e)"
    "drop_bit 12 c \<noteq> drop_bit 12 (b + e) \<Longrightarrow> kept_view off c m m'"
proof -
  have w: "page_ok m" "shm_wf m" "shm_used m 8" using assms(2) pages_ok_used by (auto simp: pages_ok_def)
  obtain k j where k: "k = unat (word_of_int 8 :: u32)" "j < 3840" "physicalAddress (sharedPages m k) = page_addr j"
    "put_page (page_addr j) (b + e) m = (page_addr j, m')" "x = e"
    using sys_shmat_ok [OF assms(1) w(2)] by metis
  then show "x = e" by simp
  have pp: "put_page (shm_page m) (b + e) m = (shm_page m, m')" "shm_page m \<noteq> 0" using k w(1) by (simp_all add: shm_page_def)
  note q = put_page_page_ok [OF w pp]
  have sh: "shm_wf m'" "sharedPages m' = sharedPages m" using shm_wf_put_page [OF w(2) pp(1)] by simp_all
  show "pages_ok m' (Suc n)" using assms(2) q(1) sh by (simp add: pages_ok_def page_ok_def)
  show "shm_view ((b + e) AND 0xfff) m' (b + e)" if "unat ((b + e) AND 0xfff) + 40 \<le> 4096" using q that by (simp add: shm_view_def)
  show "kept_view off c m m'" if "drop_bit 12 c \<noteq> drop_bit 12 (b + e)"
  proof (cases "shm_view off m c")
    case True
    show ?thesis by (rule view_cong [OF True q(1,2)]) (use q(3,4) that in auto)
  qed (simp add: kept_view_def)
qed

lemma setup_memory:
  assumes "sp_setup p s = Some (p', t)" "in_setup (sp_loc p)" "pages_ok (smm s) (has_key (sp_loc p) + n)" "n \<le> 1"
    "placed off a (smm s) p" "a AND 0xfff = off" "unat off + 40 \<le> 4096"
  shows "pages_ok (smm t) (has_key (sp_loc p') + n) \<and> placed off a (smm t) p' \<and>
    (\<forall>b. 0 < n \<longrightarrow> drop_bit 12 b \<noteq> drop_bit 12 a \<longrightarrow> kept_view off b (smm s) (smm t))"
  using assms(1)
proof (cases rule: sp_setup_cases)
  case (5 e m)
  with assms shmget_fails [OF 5(2)] show ?thesis by (simp add: placed_def)
next
  case (6 i m)
  have g: "pages_ok (smm s) n" "n < 10" using assms(3,4) 6(1) by simp_all
  note h = shmget_pages [OF 6(2) g]
  have "kept_view off b (smm s) m" if "0 < n" for b
    unfolding kept_view_def
  proof
    assume v: "shm_view off (smm s) b"
    have "translate m l = translate (smm s) l" for l by (rule translate_cong) (use h(3) that in simp_all)
    then show "shm_view off m b \<and> (\<forall>i<10. read_at m b i = read_at (smm s) b i)"
      using v view_cong [OF v _ _ _, of m] h(2,3) that by (auto simp: pages_ok_def kept_view_def)
  qed
  with h assms 6 show ?thesis by (auto simp: placed_def)
next
  case (7 e b m)
  have "shm_wf (smm s)" using assms(3) by (simp add: pages_ok_def)
  with assms 7 shmat_fails [OF 7(2)] show ?thesis by (simp add: placed_def)
next
  case (8 b e m)
  have id: "sp_shmid p = 8" "sp_base p + sp_brk p = a" using assms(2,5) 8(1) by (simp_all add: placed_def)
  have "pages_ok (smm s) (Suc n)" using assms(3) 8(1) by simp
  note v = shmat_view [OF 8(2) [unfolded id(1)] this]
  show ?thesis using 8 id v(1-3) v(4) [unfolded id(2)] assms(6,7) by (simp add: placed_def)
qed (use assms in \<open>simp_all add: placed_def\<close>)

section \<open>The invariant\<close>

fun shm_produced :: "spmessage list \<Rightarrow> (nat \<times> nat) list" where
  "shm_produced [] = []"
| "shm_produced (SProduced i k # l) = (i, k) # shm_produced l"
| "shm_produced (_ # l) = shm_produced l"

fun shm_consumed :: "spmessage list \<Rightarrow> (u32 \<times> nat) list" where
  "shm_consumed [] = []"
| "shm_consumed (SConsumed d k # l) = (d, k) # shm_consumed l"
| "shm_consumed (_ # l) = shm_consumed l"

lemma produced_append [simp]: "shm_produced (a @ b) = shm_produced a @ shm_produced b"
  by (induction a rule: shm_produced.induct) auto

lemma consumed_append [simp]: "shm_consumed (a @ b) = shm_consumed a @ shm_consumed b"
  by (induction a rule: shm_consumed.induct) auto

definition shm_written :: "shmpc \<Rightarrow> nat" where "shm_written s = sp_item (sprod s) + sp_wrote (sp_loc (sprod s))"

text \<open>\<open>vp\<close> and \<open>vc\<close> are the linear addresses of the array in the two processes.\<close>

definition shm_memory :: "u32 \<Rightarrow> u32 \<Rightarrow> u32 \<Rightarrow> shmpc \<Rightarrow> bool" where
  "shm_memory off vp vc s \<longleftrightarrow>
     pages_ok (smm s) (has_key (sp_loc (sprod s)) + has_key (sp_loc (scons s))) \<and>
     placed off vp (smm s) (sprod s) \<and> placed off vc (smm s) (scons s) \<and>
     (\<forall>a. shm_view off (smm s) a \<longrightarrow> shm_ring.ring of_nat (smm s) a (sp_item (scons s)) (shm_written s)) \<and>
     (sp_loc (scons s) = L_print \<longrightarrow> sp_data (scons s) = of_nat (sp_item (scons s)))"

definition shm_logged :: "shmpc \<Rightarrow> bool" where
  "shm_logged s \<longleftrightarrow> shm_produced (slog s) = map (\<lambda>k. (k, k)) [0..<sp_pos (sprod s)] \<and>
     shm_consumed (slog s) = map (\<lambda>k. (of_nat k, k)) [0..<sp_pos (scons s)]"

definition apart :: "u32 \<Rightarrow> u32 \<Rightarrow> u32 \<Rightarrow> bool" where
  "apart off vp vc \<longleftrightarrow> vp AND 0xfff = off \<and> vc AND 0xfff = off \<and> unat off + 40 \<le> 4096 \<and> drop_bit 12 vp \<noteq> drop_bit 12 vc"

lemma has_key_le: "has_key l \<le> 1" by (cases l) simp_all
lemma has_key_pos: "\<not> in_setup l \<Longrightarrow> has_key l = 1" by (cases l) simp_all

lemma in_setup_zero: "shm_counts s \<Longrightarrow> in_setup (sp_loc (sprod s)) \<Longrightarrow> shm_written s = 0"
  by (cases "sp_loc (sprod s)") (auto simp: shm_counts_def prod_counts_def shm_written_def)

text \<open>While the consumer waits at the buffer, at least one item is there; while the producer does, at least one place is free.\<close>

lemma counts_item:
  assumes "shm_counts s" "sp_loc (scons s) = L_copy" shows "sp_item (scons s) < sp_item (sprod s)" "sp_pos (scons s) = sp_item (scons s)"
  using assms by (auto simp: shm_counts_def full_ok_def cons_counts_def split: option.splits)

lemma counts_place:
  assumes "shm_counts s" "sp_loc (sprod s) = L_copy"
  shows "sp_item (sprod s) < sp_item (scons s) + 10" "sp_item (scons s) \<le> sp_item (sprod s)" "sp_pos (sprod s) = sp_item (sprod s)"
proof -
  have i: "sp_item (sprod s) < 512" "sp_pos (sprod s) = sp_item (sprod s)" using assms by (simp_all add: shm_counts_def prod_counts_def)
  then have c: "\<not> sc_end (sp_loc (scons s))" using assms by (auto simp: shm_counts_def)
  show "sp_item (sprod s) < sp_item (scons s) + 10" using assms c by (auto simp: shm_counts_def empty_ok_def split: option.splits)
  show "sp_item (scons s) \<le> sp_item (sprod s)" using assms c by (auto simp: shm_counts_def full_ok_def split: option.splits)
  show "sp_pos (sprod s) = sp_item (sprod s)" by (rule i(2))
qed

lemma placed_view: "placed off a m p \<Longrightarrow> \<not> in_setup (sp_loc p) \<Longrightarrow> shm_view off m a \<and> sp_base p + sp_p p = a"
  by (simp add: placed_def)

lemma producer_memory:
  assumes "shm_producer (sprod s) s = Some (p, t)" "shm_counts s" "shm_memory off vp vc s" "apart off vp vc"
  shows "shm_memory off vp vc (t\<lparr>sprod := p\<rparr>)"
  using assms(1)
proof (cases rule: shm_producer_cases)
  case Setup
  note m = assms(3) [unfolded shm_memory_def]
  have pg: "pages_ok (smm s) (has_key (sp_loc (sprod s)) + has_key (sp_loc (scons s)))" "placed off vp (smm s) (sprod s)" using m by simp_all
  have a: "vp AND 0xfff = off" "unat off + 40 \<le> 4096" using assms(4) by (simp_all add: apart_def)
  note st = setup_memory [OF Setup(2,1) pg(1) has_key_le pg(2) a]
  have c: "scons t = scons s" by (rule step_frame(1) [OF assms(1)])
  have z: "sp_item (sprod s) = 0" using assms(2) Setup(1) by (simp add: shm_counts_def prod_counts_def)
  have i: "sp_item p = 0" "sp_wrote (sp_loc p) = 0" using Setup(2) z by (cases rule: sp_setup_cases; simp)+
  have "placed off vc (smm t) (scons s)"
  proof (cases "in_setup (sp_loc (scons s))")
    case False
    have "shm_view off (smm s) vc" using m placed_view False by blast
    moreover have "kept_view off vc (smm s) (smm t)" using st assms(4) has_key_pos [OF False] by (auto simp: apart_def)
    ultimately show ?thesis using m False by (simp add: kept_view_def placed_def)
  qed (use m in \<open>auto simp: placed_def\<close>)
  moreover have "shm_ring.ring of_nat (smm t) x (sp_item (scons s)) 0" for x by (simp add: shm_ring.ring_def)
  moreover have "pages_ok (smm t) (has_key (sp_loc p) + has_key (sp_loc (scons s)))" "placed off vp (smm t) p" using st by simp_all
  moreover have "sp_loc (scons s) = L_print \<longrightarrow> sp_data (scons s) = of_nat (sp_item (scons s))" using m by simp
  ultimately show ?thesis using c i by (simp add: shm_memory_def shm_written_def)
next
  case (Copy m)
  note mm = assms(3) [unfolded shm_memory_def]
  note pl = counts_place [OF assms(2) Copy(1)]
  have v: "shm_view off (smm s) vp" "sp_base (sprod s) + sp_p (sprod s) = vp" using mm placed_view [of off vp "smm s" "sprod s"] Copy(1) by simp_all
  have wr: "write_at (smm s) vp (sp_item (sprod s) mod BUFFERSIZE) (of_nat (sp_item (sprod s))) = Some m"
    using Copy(2) v(2) pl(3) by (simp add: BUFFERSIZE_def)
  have b: "sp_item (sprod s) mod BUFFERSIZE < BUFFERSIZE" "0 < BUFFERSIZE" by (simp_all add: BUFFERSIZE_def)
  have keep: "shm_view off (smm s) x \<Longrightarrow> shm_view off m x" for x by (rule shm_ring.wr_view [OF v(1) _ b(1) wr])
  have w: "shm_written s = sp_item (sprod s)" using Copy(1) by (simp add: shm_written_def)
  have "shm_ring.ring of_nat (smm s) vp (sp_item (scons s)) (sp_item (sprod s))" using mm v(1) w by simp
  then have r: "shm_ring.ring of_nat m vp (sp_item (scons s)) (Suc (sp_item (sprod s)))"
    using pl(1,2) wr by (intro shm_ring.ring_write [OF _ v(1) v(1)]) (simp_all add: BUFFERSIZE_def)
  have ring: "shm_ring.ring of_nat m x (sp_item (scons s)) (Suc (sp_item (sprod s)))" if "shm_view off m x" for x
    by (rule shm_ring.ring_shared [OF r keep [OF v(1)] that b(2)])
  have "m = store (shm_page (smm s) + (off + 4 * of_nat (sp_item (sprod s) mod 10))) (of_nat (sp_item (sprod s))) (smm s)"
    using view_write(2) [OF v(1) v(1) _ wr] by (simp add: BUFFERSIZE_def)
  then have "sharedPages m = sharedPages (smm s)" "shm_wf m = shm_wf (smm s)" by simp_all
  moreover have "page_ok m" using keep [OF v(1)] by (simp add: shm_view_def)
  ultimately have "pages_ok m (has_key (sp_loc (sprod s)) + has_key (sp_loc (scons s)))"
    using mm by (simp add: pages_ok_def page_ok_def)
  moreover have "placed off vp m (sprod s\<lparr>sp_loc := L_print\<rparr>)" using v keep by (simp add: placed_def)
  moreover have "placed off vc m (scons s)" using mm keep by (simp add: placed_def)
  moreover have "sp_loc (scons s) = L_print \<longrightarrow> sp_data (scons s) = of_nat (sp_item (scons s))" using mm by simp
  ultimately show ?thesis using Copy(1,3,4) ring by (simp add: shm_memory_def shm_written_def)
qed (use assms(3) in \<open>auto simp: shm_memory_def placed_def shm_written_def\<close>)

lemma consumer_memory:
  assumes "shm_consumer (scons s) s = Some (p, t)" "shm_counts s" "shm_memory off vp vc s" "apart off vp vc"
  shows "shm_memory off vp vc (t\<lparr>scons := p\<rparr>)"
  using assms(1)
proof (cases rule: shm_consumer_cases)
  case Setup
  note m = assms(3) [unfolded shm_memory_def]
  have pg: "pages_ok (smm s) (has_key (sp_loc (scons s)) + has_key (sp_loc (sprod s)))" "placed off vc (smm s) (scons s)"
    using m by (simp_all add: add.commute)
  have a: "vc AND 0xfff = off" "unat off + 40 \<le> 4096" using assms(4) by (simp_all add: apart_def)
  note st = setup_memory [OF Setup(2,1) pg(1) has_key_le pg(2) a]
  have c: "sprod t = sprod s" by (rule step_frame(2) [OF assms(1)])
  have i: "sp_item p = sp_item (scons s)" "sp_loc p \<noteq> L_print" using Setup(2) by (cases rule: sp_setup_cases; simp)+
  have pr: "placed off vp (smm t) (sprod s) \<and> (\<forall>x. shm_view off (smm t) x \<longrightarrow> shm_ring.ring of_nat (smm t) x (sp_item (scons s)) (shm_written s))"
  proof (cases "in_setup (sp_loc (sprod s))")
    case False
    have v: "shm_view off (smm s) vp" using m placed_view False by blast
    moreover have k: "kept_view off vp (smm s) (smm t)" using st assms(4) has_key_pos [OF False] by (auto simp: apart_def)
    ultimately have v': "shm_view off (smm t) vp" "\<And>i. i < 10 \<Longrightarrow> read_at (smm t) vp i = read_at (smm s) vp i" by (simp_all add: kept_view_def)
    have "shm_ring.ring of_nat (smm s) vp (sp_item (scons s)) (shm_written s)" using m v by simp
    then have "shm_ring.ring of_nat (smm t) vp (sp_item (scons s)) (shm_written s)" 
      using v'(2) unfolding shm_ring.ring_def by (simp add: BUFFERSIZE_def)
    then have "shm_ring.ring of_nat (smm t) x (sp_item (scons s)) (shm_written s)" if "shm_view off (smm t) x" for x
      by (rule shm_ring.ring_shared [OF _ v'(1) that]) (simp add: BUFFERSIZE_def)
    moreover have "placed off vp (smm t) (sprod s)" using m False v' by (simp add: placed_def)
    ultimately show ?thesis by simp
  qed (use m in_setup_zero [OF assms(2)] in \<open>auto simp: placed_def shm_ring.ring_def\<close>)
  have "pages_ok (smm t) (has_key (sp_loc (sprod s)) + has_key (sp_loc p))" "placed off vc (smm t) p" using st by (simp_all add: add.commute)
  then show ?thesis using c i pr by (simp add: shm_memory_def shm_written_def)
next
  case (Copy d)
  note m = assms(3) [unfolded shm_memory_def]
  note it = counts_item [OF assms(2) Copy(1)]
  have v: "shm_view off (smm s) vc" "sp_base (scons s) + sp_p (scons s) = vc" using m placed_view [of off vc "smm s" "scons s"] Copy(1) by simp_all
  have "shm_ring.ring of_nat (smm s) vc (sp_item (scons s)) (shm_written s)" using m v(1) by simp
  then have "read_at (smm s) vc (sp_item (scons s) mod BUFFERSIZE) = Some (of_nat (sp_item (scons s)))"
    by (rule shm_ring.ring_read) (use it in \<open>simp_all add: shm_written_def\<close>)
  then have "d = of_nat (sp_item (scons s))" using Copy(2) v(2) it(2) by (simp add: BUFFERSIZE_def)
  then show ?thesis using Copy(1,3,4) m by (simp add: shm_memory_def placed_def shm_written_def)
next
  case (Post v)
  show ?thesis using assms(3) Post by (auto simp: shm_memory_def placed_def shm_written_def intro: shm_ring.ring_mono)
qed (use assms(3) in \<open>auto simp: shm_memory_def placed_def shm_written_def\<close>)

lemma step_memory:
  assumes "shm_step s t" "shm_counts s" "shm_memory off vp vc s" "apart off vp vc" shows "shm_memory off vp vc t"
  using assms(1)
proof cases
  case (producer p u)
  with producer_memory [OF _ assms(2-4)] show ?thesis by simp
next
  case (consumer p u)
  with consumer_memory [OF _ assms(2-4)] show ?thesis by simp
qed (use assms(3) in \<open>simp_all add: shm_memory_def placed_def shm_written_def\<close>)

lemma step_logged:
  assumes "shm_step s t" "shm_counts s" "shm_memory off vp vc s" "shm_logged s" shows "shm_logged t"
  using assms(1)
proof cases
  case (producer p u)
  have c: "sp_loc (sprod s) = L_print \<longrightarrow> sp_pos (sprod s) = sp_item (sprod s)" using assms(2) by (auto simp: shm_counts_def prod_counts_def)
  show ?thesis unfolding producer(1) using producer(3)
  proof (cases rule: shm_producer_cases)
    case Setup
    from Setup(2) show "shm_logged (u\<lparr>sprod := p\<rparr>)" using assms(4) by (cases rule: sp_setup_cases) (simp_all add: shm_logged_def)
  qed (use assms(4) c in \<open>simp_all add: shm_logged_def\<close>)
next
  case (consumer p u)
  have c: "sp_loc (scons s) = L_print \<longrightarrow> sp_data (scons s) = of_nat (sp_pos (scons s))"
    using assms(2,3) by (auto simp: shm_counts_def cons_counts_def shm_memory_def)
  show ?thesis unfolding consumer(1) using consumer(3)
  proof (cases rule: shm_consumer_cases)
    case Setup
    from Setup(2) show "shm_logged (u\<lparr>scons := p\<rparr>)" using assms(4) by (cases rule: sp_setup_cases) (simp_all add: shm_logged_def)
  qed (use assms(4) c in \<open>simp_all add: shm_logged_def\<close>)
qed (use assms(4) in \<open>simp_all add: shm_logged_def\<close>)

section \<open>Progress\<close>

fun sp_rank :: "sploc \<Rightarrow> nat" where
  "sp_rank L_mutex = 19" | "sp_rank L_empty = 18" | "sp_rank L_full = 17" | "sp_rank L_log = 16" | "sp_rank L_shmget = 15"
| "sp_rank L_shmat = 14" | "sp_rank L_test = 13" | "sp_rank L_wait = 12" | "sp_rank L_lock = 11" | "sp_rank L_copy = 10"
| "sp_rank L_print = 9" | "sp_rank L_last = 8" | "sp_rank L_unlock = 7" | "sp_rank L_post = 6" | "sp_rank L_unlink_mutex = 4"
| "sp_rank L_unlink_empty = 3" | "sp_rank L_unlink_full = 2" | "sp_rank L_done = 1" | "sp_rank L_exit = 0"

text \<open>How many steps a process has left, at most.\<close>

definition sp_left :: "shmproc \<Rightarrow> nat" where
  "sp_left p = 8 * (512 - sp_item p) + sp_rank (sp_loc p) + (if sp_failed p then 0 else 1)"

lemma setup_left: "sp_setup p s = Some (p', t) \<Longrightarrow> \<not> sp_failed p \<Longrightarrow> sp_left p' < sp_left p"
  by (erule sp_setup_cases) (simp_all add: sp_left_def)

lemma producer_left:
  assumes "shm_producer p s = Some (p', t)" "\<not> sp_failed p" "prod_counts p" shows "sp_left p' < sp_left p"
  using assms(1)
proof (cases rule: shm_producer_cases)
  case (Post v)
  have "sp_item p < 512" using assms(3) Post(1) by (simp add: prod_counts_def)
  then show ?thesis using Post assms(2) by (simp add: sp_left_def)
qed (use assms(2) setup_left in \<open>auto simp: sp_left_def\<close>)

lemma consumer_left:
  assumes "shm_consumer p s = Some (p', t)" "\<not> sp_failed p" "cons_counts p" shows "sp_left p' < sp_left p"
  using assms(1)
proof (cases rule: shm_consumer_cases)
  case (Post v)
  have "sp_item p < 512" using assms(3) by (simp add: cons_counts_def)
  then show ?thesis using Post assms(2) by (simp add: sp_left_def)
qed (use assms(2) setup_left in \<open>auto simp: sp_left_def\<close>)

lemma step_left:
  assumes "shm_step s t" "shm_counts s"
  shows "sp_left (sprod t) + sp_left (scons t) < sp_left (sprod s) + sp_left (scons s)"
  using assms(1)
proof cases
  case (producer p u)
  then show ?thesis using producer_left [OF producer(3,2)] step_frame(1) [OF producer(3)] assms(2) by (simp add: shm_counts_def)
next
  case (consumer p u)
  then show ?thesis using consumer_left [OF consumer(3,2)] step_frame(2) [OF consumer(3)] assms(2) by (simp add: shm_counts_def)
qed (simp_all add: sp_left_def)

lemma setup_enabled: "in_setup (sp_loc p) \<Longrightarrow> \<exists>x. sp_setup p s = Some x"
  by (cases "sp_loc p") (simp_all add: sp_setup_def split: prod.splits sum.splits)

lemma sp_wait_iff: "(\<exists>t. sp_wait nm s = Some t) \<longleftrightarrow> ssems s nm \<noteq> None \<and> ssems s nm \<noteq> Some 0"
  by (auto simp: sp_wait_def split: option.splits nat.splits)

lemma sp_post_iff: "(\<exists>t. sp_post nm s = Some t) \<longleftrightarrow> ssems s nm \<noteq> None"
  by (auto simp: sp_post_def split: option.splits)

text \<open>Where a process that cannot move stands.\<close>

lemma producer_stuck:
  assumes "shm_producer (sprod s) s = None" "shm_counts s" "shm_memory off vp vc s"
  shows "sp_loc (sprod s) = L_exit \<or> (sp_loc (sprod s) = L_wait \<and> ssems s ''empty'' = Some 0) \<or>
    (sp_loc (sprod s) = L_lock \<and> ssems s ''bufferMutex'' = Some 0)"
proof (cases "sp_loc (sprod s)")
  case L_wait
  then have "ssems s ''empty'' = None \<or> ssems s ''empty'' = Some 0" using assms(1) sp_wait_iff [of "''empty''" s]
    by (auto simp: shm_producer_def then_goto_def)
  moreover have "ssems s ''empty'' \<noteq> None" using L_wait assms(2) by (cases "ssems s ''empty''") (auto simp: shm_counts_def empty_ok_def prod_counts_def)
  ultimately show ?thesis using L_wait by simp
next
  case L_lock
  then have "ssems s ''bufferMutex'' = None \<or> ssems s ''bufferMutex'' = Some 0" using assms(1) sp_wait_iff [of "''bufferMutex''" s]
    by (auto simp: shm_producer_def then_goto_def)
  moreover have "ssems s ''bufferMutex'' \<noteq> None" using L_lock assms(2) by (cases "ssems s ''bufferMutex''") (auto simp: shm_counts_def bmutex_ok_def prod_counts_def)
  ultimately show ?thesis using L_lock by simp
next
  case L_copy
  then have "shm_view off (smm s) vp" "sp_base (sprod s) + sp_p (sprod s) = vp" using assms(3) by (simp_all add: shm_memory_def placed_def)
  then obtain m where "write_at (smm s) (sp_base (sprod s) + sp_p (sprod s)) (sp_pos (sprod s) mod BUFFERSIZE) (of_nat (sp_item (sprod s))) = Some m"
    using shm_ring.wr_some [of off "smm s" vp "sp_pos (sprod s) mod BUFFERSIZE"] by (auto simp: BUFFERSIZE_def)
  with L_copy assms(1) show ?thesis by (simp add: shm_producer_def)
next
  case L_unlock
  have "ssems s ''bufferMutex'' \<noteq> None" using L_unlock assms(2) by (cases "ssems s ''bufferMutex''") (auto simp: shm_counts_def bmutex_ok_def prod_counts_def)
  with L_unlock assms(1) sp_post_iff [of "''bufferMutex''" s] show ?thesis by (auto simp: shm_producer_def then_goto_def)
next
  case L_post
  have "ssems s ''full'' \<noteq> None" using L_post assms(2) by (cases "ssems s ''full''") (auto simp: shm_counts_def full_ok_def prod_counts_def)
  with L_post assms(1) sp_post_iff [of "''full''" s] show ?thesis by (auto simp: shm_producer_def then_goto_def)
qed (use assms(1,2) setup_enabled [of "sprod s" s] in \<open>simp_all add: shm_producer_def shm_counts_def prod_counts_def\<close>)

lemma consumer_stuck:
  assumes "shm_consumer (scons s) s = None" "shm_counts s" "shm_memory off vp vc s"
  shows "sp_loc (scons s) = L_exit \<or> (sp_loc (scons s) = L_wait \<and> ssems s ''full'' = Some 0) \<or>
    (sp_loc (scons s) = L_lock \<and> ssems s ''bufferMutex'' = Some 0)"
proof (cases "sp_loc (scons s)")
  case L_wait
  then have "ssems s ''full'' = None \<or> ssems s ''full'' = Some 0" using assms(1) sp_wait_iff [of "''full''" s]
    by (auto simp: shm_consumer_def then_goto_def)
  moreover have "ssems s ''full'' \<noteq> None" using L_wait assms(2) by (cases "ssems s ''full''") (auto simp: shm_counts_def full_ok_def)
  ultimately show ?thesis using L_wait by simp
next
  case L_lock
  then have "ssems s ''bufferMutex'' = None \<or> ssems s ''bufferMutex'' = Some 0" using assms(1) sp_wait_iff [of "''bufferMutex''" s]
    by (auto simp: shm_consumer_def then_goto_def)
  moreover have "ssems s ''bufferMutex'' \<noteq> None" using L_lock assms(2) by (cases "ssems s ''bufferMutex''") (auto simp: shm_counts_def bmutex_ok_def)
  ultimately show ?thesis using L_lock by simp
next
  case L_copy
  then have "shm_view off (smm s) vc" "sp_base (scons s) + sp_p (scons s) = vc" using assms(3) by (simp_all add: shm_memory_def placed_def)
  then obtain d where "read_at (smm s) (sp_base (scons s) + sp_p (scons s)) (sp_pos (scons s) mod BUFFERSIZE) = Some d"
    using shm_ring.rd_some [of off "smm s" vc "sp_pos (scons s) mod BUFFERSIZE"] by (auto simp: BUFFERSIZE_def)
  with L_copy assms(1) show ?thesis by (simp add: shm_consumer_def)
next
  case L_unlock
  have "ssems s ''bufferMutex'' \<noteq> None" using L_unlock assms(2) by (cases "ssems s ''bufferMutex''") (auto simp: shm_counts_def bmutex_ok_def)
  with L_unlock assms(1) sp_post_iff [of "''bufferMutex''" s] show ?thesis by (auto simp: shm_consumer_def then_goto_def)
next
  case L_post
  have "ssems s ''empty'' \<noteq> None" using L_post assms(2) by (cases "ssems s ''empty''") (auto simp: shm_counts_def empty_ok_def)
  with L_post assms(1) sp_post_iff [of "''empty''" s] show ?thesis by (auto simp: shm_consumer_def then_goto_def)
qed (use assms(1) setup_enabled [of "scons s" s] in \<open>simp_all add: shm_consumer_def\<close>)

lemma shm_stuck_end:
  assumes "\<And>t. \<not> shm_step s t" "shm_counts s" "shm_memory off vp vc s" "\<not> sp_failed (sprod s)" "\<not> sp_failed (scons s)"
  shows "sp_loc (sprod s) = L_exit \<and> sp_loc (scons s) = L_exit"
proof -
  have "shm_producer (sprod s) s = None" "shm_consumer (scons s) s = None"
    using assms(1) shm_step.producer [OF assms(4)] shm_step.consumer [OF assms(5)] by (metis not_Some_eq surj_pair)+
  note st = producer_stuck [OF this(1) assms(2,3)] consumer_stuck [OF this(2) assms(2,3)]
  have c: "prod_counts (sprod s)" "cons_counts (scons s)" "empty_ok (sprod s) (scons s) (ssems s ''empty'')"
    "full_ok (sprod s) (scons s) (ssems s ''full'')" "bmutex_ok (sprod s) (scons s) (ssems s ''bufferMutex'')"
    "sc_end (sp_loc (scons s)) \<longrightarrow> sp_item (sprod s) = 512" using assms(2) by (simp_all add: shm_counts_def)
  from st(1) show ?thesis
  proof (elim disjE conjE)
    assume *: "sp_loc (sprod s) = L_exit"
    from st(2) show ?thesis
    proof (elim disjE conjE)
      assume "sp_loc (scons s) = L_wait" "ssems s ''full'' = Some 0"
      with c(1,2,4) * show ?thesis by (simp add: full_ok_def prod_counts_def cons_counts_def)
    next
      assume "sp_loc (scons s) = L_lock" "ssems s ''bufferMutex'' = Some 0"
      with c(5) * show ?thesis by (simp add: bmutex_ok_def)
    qed (use * in simp)
  next
    assume *: "sp_loc (sprod s) = L_wait" "ssems s ''empty'' = Some 0"
    from st(2) show ?thesis
    proof (elim disjE conjE)
      assume "sp_loc (scons s) = L_wait" "ssems s ''full'' = Some 0"
      with c(3,4) * show ?thesis by (simp add: full_ok_def empty_ok_def)
    next
      assume "sp_loc (scons s) = L_lock" "ssems s ''bufferMutex'' = Some 0"
      with c(5) * show ?thesis by (simp add: bmutex_ok_def)
    next
      assume "sp_loc (scons s) = L_exit"
      with c(1,6) * show ?thesis by (simp add: prod_counts_def)
    qed
  next
    assume *: "sp_loc (sprod s) = L_lock" "ssems s ''bufferMutex'' = Some 0"
    from st(2) show ?thesis
    proof (elim disjE conjE)
      assume "sp_loc (scons s) = L_exit"
      with c(1,6) * show ?thesis by (simp add: prod_counts_def)
    qed (use c(5) * in \<open>simp_all add: bmutex_ok_def\<close>)
  qed
qed

section \<open>Properties\<close>

definition shm_inv :: "u32 \<Rightarrow> u32 \<Rightarrow> u32 \<Rightarrow> shmpc \<Rightarrow> bool" where
  "shm_inv off vp vc s \<longleftrightarrow> shm_counts s \<and> shm_memory off vp vc s \<and> shm_logged s"

lemma shm_start_inv:
  assumes "pt_wf m" "shm_wf m" "sp_count (sharedPages m 8) = 0"
  shows "shm_inv off (pbase + pb) (cbase + cb) (shm_start m pbase pb cbase cb)"
  using assms by (simp add: shm_inv_def shm_start_def new_shmproc_def shm_counts_def prod_counts_def cons_counts_def empty_ok_def full_ok_def
      bmutex_ok_def shm_memory_def pages_ok_def placed_def shm_written_def shm_ring.ring_def shm_logged_def)

lemma shm_step_inv: "shm_step s t \<Longrightarrow> shm_inv off vp vc s \<Longrightarrow> apart off vp vc \<Longrightarrow> shm_inv off vp vc t"
  unfolding shm_inv_def using step_counts step_memory step_logged by metis

lemma shm_runs_inv: "shm_runs s t \<Longrightarrow> shm_inv off vp vc s \<Longrightarrow> apart off vp vc \<Longrightarrow> shm_inv off vp vc t"
  by (induction rule: shm_runs.induct) (use shm_step_inv in blast)+

lemma shm_steps_inv: "(shm_step ^^ n) s t \<Longrightarrow> shm_inv off vp vc s \<Longrightarrow> apart off vp vc \<Longrightarrow>
    shm_inv off vp vc t \<and> sp_left (sprod t) + sp_left (scons t) + n \<le> sp_left (sprod s) + sp_left (scons s)"
proof (induction n arbitrary: t)
  case (Suc n)
  from Suc.prems(1) obtain u where u: "(shm_step ^^ n) s u" "shm_step u t" by auto
  from Suc.IH [OF u(1) Suc.prems(2,3)] have i: "shm_inv off vp vc u"
    "sp_left (sprod u) + sp_left (scons u) + n \<le> sp_left (sprod s) + sp_left (scons s)" by simp_all
  have "sp_left (sprod t) + sp_left (scons t) < sp_left (sprod u) + sp_left (scons u)"
    using step_left [OF u(2)] i(1) by (simp add: shm_inv_def)
  with i shm_step_inv [OF u(2) i(1) Suc.prems(3)] show ?case by simp
qed simp

lemma counts_order:
  assumes "shm_counts s" shows "sp_pos (scons s) \<le> sp_pos (sprod s) \<and> sp_pos (sprod s) \<le> sp_pos (scons s) + 10 \<and> sp_pos (sprod s) \<le> 512"
proof -
  have c: "sp_pos (sprod s) = sp_item (sprod s) + sp_moved (sp_loc (sprod s))" "sp_pos (scons s) = sp_item (scons s) + sc_moved (sp_loc (scons s))"
    "sp_item (sprod s) \<le> 512" "sp_item (scons s) < 512" "sp_held (sp_loc (sprod s)) = 1 \<longrightarrow> sp_item (sprod s) < 512"
    "in_setup (sp_loc (sprod s)) \<longrightarrow> sp_item (sprod s) = 0" "in_setup (sp_loc (scons s)) \<longrightarrow> sp_item (scons s) = 0"
    "sc_end (sp_loc (scons s)) \<longrightarrow> sp_item (sprod s) = 512 \<and> sp_item (scons s) = 511"
    "empty_ok (sprod s) (scons s) (ssems s ''empty'')" "full_ok (sprod s) (scons s) (ssems s ''full'')"
    using assms by (auto simp: shm_counts_def prod_counts_def cons_counts_def)
  have m: "sp_moved l \<le> sp_held l" "sc_moved l \<le> sc_held l" "sc_end l \<Longrightarrow> sc_moved l = 1" "in_setup l \<Longrightarrow> sp_moved l = 0 \<and> sc_moved l = 0"
    "sp_held l \<le> 1" for l by (cases l; simp)+
  have full: "sp_item (scons s) + sc_held (sp_loc (scons s)) \<le> sp_item (sprod s) \<or> in_setup (sp_loc (scons s)) \<or> sc_end (sp_loc (scons s))"
    using c(10) by (cases "ssems s ''full''") (auto simp: full_ok_def)
  have empty: "sp_item (sprod s) + sp_held (sp_loc (sprod s)) \<le> 10 + sp_item (scons s) \<or> in_setup (sp_loc (sprod s)) \<or> sc_end (sp_loc (scons s))"
    using c(9) by (cases "ssems s ''empty''") (auto simp: empty_ok_def)
  have "sp_pos (sprod s) \<le> 512" using c(1,3,5) m(1,5) [of "sp_loc (sprod s)"] by auto
  moreover have "sp_pos (scons s) \<le> sp_pos (sprod s)" using full c(1,2,7,8) m(2-4) [of "sp_loc (scons s)"] by auto
  moreover have "sp_pos (sprod s) \<le> sp_pos (scons s) + 10"
    using empty c(1,2,6,8) m(1,4,5) [of "sp_loc (sprod s)"] m(3) [of "sp_loc (scons s)"] calculation(1) by auto
  ultimately show ?thesis by simp
qed



section \<open>Different offsets\<close>

lemma views_differ:
  assumes "shm_view o1 m a" "shm_view o2 m b" "i < 10" "j < 10" "write_at m a i v = Some m'"
  shows "read_at m' b j = (if o2 + 4 * of_nat j = o1 + 4 * of_nat i then Some v else read_at m b j)"
proof -
  have m': "m' = store (shm_page m + (o1 + 4 * of_nat i)) v m" using view_write [OF assms(1,1,3,5)] by simp
  have "page_base (shm_page m + (o1 + 4 * of_nat i)) = shm_page m"
    using assms(1,3) by (intro off_slot_base) (simp_all add: shm_view_def page_ok_def)
  note s = store_in_page [OF _ this m']
  have b: "shm_view o2 m' b" using assms(2) s by (simp add: shm_view_def)
  show ?thesis using view_slot [OF b assms(4)] view_slot [OF assms(2,4)] s(3) assms(2)
    by (auto simp: read_at_def read_long_def m' shm_view_def)
qed


section \<open>Witnesses\<close>

lemma shm_wf_start8: "shm_wf mm_start" "sp_count (sharedPages mm_start 8) = 0"
  by (simp_all add: shm_wf_def shm_used_def mm_start_def)

definition shm_start1 :: shmpc where "shm_start1 = shm_start mm_start 0x4000000 0x3000 0x8000000 0x5000"

lemma apart1: "apart 0 (0x4000000 + 0x3000) (0x8000000 + 0x5000)" by (simp add: apart_def)

lemma start1_step: "\<exists>t. shm_step shm_start1 t"
proof -
  have "\<not> sp_failed (sprod shm_start1)" "sp_loc (sprod shm_start1) = L_mutex" by (simp_all add: shm_start1_def shm_start_def new_shmproc_def)
  moreover from this(2) obtain x where "shm_producer (sprod shm_start1) shm_start1 = Some x" by (simp add: shm_producer_def sp_setup_def)
  ultimately show ?thesis by (cases x) (blast intro: shm_step.producer)
qed



text \<open>The memory after both processes called \<open>shmget\<close>.\<close>

definition mm_key8 :: mm where "mm_key8 = snd (sys_shmget KEY 40 (snd (sys_shmget KEY 40 mm_start)))"

lemma mm_key8_facts: "pages_ok mm_key8 2" "mem_map mm_key8 0 = 0" "mem_map mm_key8 1 = 0"
proof -
  have k: "unat KEY = 8" by (simp add: KEY_def)
  define m1 where "m1 = (snd (get_free_page mm_start))\<lparr>sharedPages := (sharedPages mm_start)
    (8 := (sharedPages mm_start 8)\<lparr>physicalAddress := page_addr 99, sp_count := sp_count (sharedPages mm_start 8) + 1\<rparr>)\<rparr>"
  have m1: "sys_shmget KEY 40 mm_start = (Inr 8, m1)" "mem_map m1 = (mem_map mm_start)(99 := 1)"
    "sp_count (sharedPages m1 8) = 1" "physicalAddress (sharedPages m1 8) \<noteq> 0"
    by (simp_all add: m1_def sys_shmget_def PAGE_SIZE_def MAX_SHARED_PAGES_NUM_def get_free_page_start KEY_def shm_wf_start8(2))
  obtain m2 where m2: "sys_shmget KEY 40 m1 = (Inr 8, m2)" "mem_map m2 = mem_map m1"
    using m1(3,4) by (simp add: sys_shmget_def PAGE_SIZE_def MAX_SHARED_PAGES_NUM_def Let_def KEY_def)
  have e: "mm_key8 = m2" using m1(1) m2(1) by (simp add: mm_key8_def)
  have "pages_ok mm_start 0" using pt_wf_start shm_wf_start8 by (simp add: pages_ok_def)
  from shmget_pages(2) [OF m2(1) shmget_pages(2) [OF m1(1) this]] show "pages_ok mm_key8 2" by (simp add: e numeral_2_eq_2)
  show "mem_map mm_key8 0 = 0" "mem_map mm_key8 1 = 0" using m1(2) m2(2) by (simp_all add: e mm_start_def)
qed

lemma shmat8_succeeds:
  assumes "pages_ok m 2" "mem_map m 0 = 0"
  obtains t where "sys_shmat 8 b e m = (Inr e, e + 4096, t)" "mem_map m 1 = 0 \<longrightarrow> mem_map t 0 = 0"
proof -
  have u: "shm_used m 8" "physicalAddress (sharedPages m 8) \<noteq> 0" using assms(1) pages_ok_used [OF assms(1)]
    by (auto simp: pages_ok_def page_ok_def shm_page_def)
  obtain t where "put_page (physicalAddress (sharedPages m 8)) (b + e) m = (physicalAddress (sharedPages m 8), t)" "mem_map m 1 = 0 \<longrightarrow> mem_map t 0 = 0"
    by (rule put_page_succeeds [OF assms(2)])
  with u show thesis by (intro that [of t]) (simp_all add: sys_shmat_def shm_used_def MAX_SHARED_PAGES_NUM_def Let_def PAGE_SIZE_def)
qed


end
