(* ===== verification/Syscalls.thy ===== *)
theory Syscalls imports Kprelude begin

text \<open>
  The interface of the system calls: the numbers of \<open>unistd.h\<close>, the table of \<open>sys.h\<close>, the bound and the call through the
  table of \<open>system_call.s\<close>, and the \<open>_syscall\<close> macros that the programs of the labs use. Each of Labs 2, 5, 6 and 6.Ext adds its
  calls to all three files. A kernel routine is known by its name; what it does is the argument \<open>call\<close>, from its name, the
  registers \<open>ebx\<close>, \<open>ecx\<close> and \<open>edx\<close>, and the state; \<open>None\<close> is a routine that does not return.

  What \<open>system_call\<close> does after the routine (\<open>schedule\<close> when the time slice is over, signals) is not part of this theory.
\<close>

section \<open>Numbers and table\<close>

definition base_numbers :: "(string \<times> nat) list" where
  "base_numbers =
    [(''setup'', 0), (''exit'', 1), (''fork'', 2), (''read'', 3), (''write'', 4), (''open'', 5), (''close'', 6),
     (''waitpid'', 7), (''creat'', 8), (''link'', 9), (''unlink'', 10), (''execve'', 11), (''chdir'', 12),
     (''time'', 13), (''mknod'', 14), (''chmod'', 15), (''chown'', 16), (''break'', 17), (''stat'', 18),
     (''lseek'', 19), (''getpid'', 20), (''mount'', 21), (''umount'', 22), (''setuid'', 23), (''getuid'', 24),
     (''stime'', 25), (''ptrace'', 26), (''alarm'', 27), (''fstat'', 28), (''pause'', 29), (''utime'', 30),
     (''stty'', 31), (''gtty'', 32), (''access'', 33), (''nice'', 34), (''ftime'', 35), (''sync'', 36),
     (''kill'', 37), (''rename'', 38), (''mkdir'', 39), (''rmdir'', 40), (''dup'', 41), (''pipe'', 42),
     (''times'', 43), (''prof'', 44), (''brk'', 45), (''setgid'', 46), (''getgid'', 47), (''signal'', 48),
     (''geteuid'', 49), (''getegid'', 50), (''acct'', 51), (''phys'', 52), (''lock'', 53), (''ioctl'', 54),
     (''fcntl'', 55), (''mpx'', 56), (''setpgid'', 57), (''ulimit'', 58), (''uname'', 59), (''umask'', 60),
     (''chroot'', 61), (''ustat'', 62), (''dup2'', 63), (''getppid'', 64), (''getpgrp'', 65), (''setsid'', 66),
     (''sigaction'', 67), (''sgetmask'', 68), (''ssetmask'', 69), (''setreuid'', 70), (''setregid'', 71)]"

definition base_table :: "string list" where
  "base_table =
    [''sys_setup'', ''sys_exit'', ''sys_fork'', ''sys_read'', ''sys_write'', ''sys_open'', ''sys_close'',
     ''sys_waitpid'', ''sys_creat'', ''sys_link'', ''sys_unlink'', ''sys_execve'', ''sys_chdir'', ''sys_time'',
     ''sys_mknod'', ''sys_chmod'', ''sys_chown'', ''sys_break'', ''sys_stat'', ''sys_lseek'', ''sys_getpid'',
     ''sys_mount'', ''sys_umount'', ''sys_setuid'', ''sys_getuid'', ''sys_stime'', ''sys_ptrace'', ''sys_alarm'',
     ''sys_fstat'', ''sys_pause'', ''sys_utime'', ''sys_stty'', ''sys_gtty'', ''sys_access'', ''sys_nice'',
     ''sys_ftime'', ''sys_sync'', ''sys_kill'', ''sys_rename'', ''sys_mkdir'', ''sys_rmdir'', ''sys_dup'',
     ''sys_pipe'', ''sys_times'', ''sys_prof'', ''sys_brk'', ''sys_setgid'', ''sys_getgid'', ''sys_signal'',
     ''sys_geteuid'', ''sys_getegid'', ''sys_acct'', ''sys_phys'', ''sys_lock'', ''sys_ioctl'', ''sys_fcntl'',
     ''sys_mpx'', ''sys_setpgid'', ''sys_ulimit'', ''sys_uname'', ''sys_umask'', ''sys_chroot'', ''sys_ustat'',
     ''sys_dup2'', ''sys_getppid'', ''sys_getpgrp'', ''sys_setsid'', ''sys_sigaction'', ''sys_sgetmask'',
     ''sys_ssetmask'', ''sys_setreuid'', ''sys_setregid'']"

text \<open>Labs 2, 5, 6 and 6.Ext.\<close>

definition numbers2 :: "(string \<times> nat) list" where
  "numbers2 = base_numbers @ [(''iam'', 72), (''whoami'', 73)]"

definition table2 :: "string list" where
  "table2 = base_table @ [''sys_iam'', ''sys_whoami'']"

definition nr_system_calls2 :: nat where "nr_system_calls2 = 74"

definition numbers5 :: "(string \<times> nat) list" where
  "numbers5 = base_numbers @ [(''sem_open'', 72), (''sem_wait'', 73), (''sem_post'', 74), (''sem_unlink'', 75)]"

definition table5 :: "string list" where
  "table5 = base_table @ [''sys_sem_open'', ''sys_sem_wait'', ''sys_sem_post'', ''sys_sem_unlink'']"

definition nr_system_calls5 :: nat where "nr_system_calls5 = 76"

definition numbers6 :: "(string \<times> nat) list" where
  "numbers6 = base_numbers @ [(''sem_open'', 72), (''sem_wait'', 73), (''sem_post'', 74), (''sem_unlink'', 75), (''shmget'', 76),
     (''shmat'', 77)]"

definition table6 :: "string list" where
  "table6 = base_table @ [''sys_sem_open'', ''sys_sem_wait'', ''sys_sem_post'', ''sys_sem_unlink'', ''sys_shmget'', ''sys_shmat'']"

definition nr_system_calls6 :: nat where "nr_system_calls6 = 78"

definition numbers6e :: "(string \<times> nat) list" where
  "numbers6e = base_numbers @ [(''sem_open'', 72), (''sem_wait'', 73), (''sem_post'', 74), (''sem_unlink'', 75), (''shmget'', 76),
     (''shmat'', 77), (''debug_paging'', 78)]"

definition table6e :: "string list" where
  "table6e = base_table @ [''sys_sem_open'', ''sys_sem_wait'', ''sys_sem_post'', ''sys_sem_unlink'', ''sys_shmget'', ''sys_shmat'',
     ''sys_debug_paging'']"

definition nr_system_calls6e :: nat where "nr_system_calls6e = 79"


section \<open>The call\<close>

type_synonym 's kcalls = "string \<Rightarrow> u32 \<Rightarrow> u32 \<Rightarrow> u32 \<Rightarrow> 's \<Rightarrow> (u32 \<times> 's) option"

text \<open>\<open>system_call\<close>: the number in \<open>eax\<close> is compared without sign; \<open>bad_sys_call\<close> leaves -1.\<close>

definition int80 :: "string list \<Rightarrow> nat \<Rightarrow> 's kcalls \<Rightarrow> u32 \<Rightarrow> u32 \<Rightarrow> u32 \<Rightarrow> u32 \<Rightarrow> 's \<Rightarrow> (u32 \<times> 's) option" where
  "int80 tab nr call eax ebx ecx edx s =
     (if eax > of_nat (nr - 1) then Some (- 1, s) else call (tab ! unat eax) ebx ecx edx s)"

text \<open>The end of the macros: a result that is not negative is returned, otherwise \<open>errno\<close> is set.\<close>

definition syscall_result :: "u32 \<Rightarrow> int \<Rightarrow> int \<times> int" where
  "syscall_result res errno = (if 0 \<le> sint res then (sint res, errno) else (- 1, s32 (- sint res)))"

text \<open>The function that \<open>_syscall3\<close> defines for a name; the state is the kernel's and \<open>errno\<close>. A name without a number does not
  compile.\<close>

definition syscall3 :: "(string \<times> nat) list \<Rightarrow> string list \<Rightarrow> nat \<Rightarrow> 's kcalls \<Rightarrow> string \<Rightarrow> u32 \<Rightarrow> u32 \<Rightarrow> u32 \<Rightarrow> 's \<times> int \<Rightarrow> (int \<times> 's \<times> int) option" where
  "syscall3 nums tab nr call name a b c st =
     (case map_of nums name of
        None \<Rightarrow> None
      | Some i \<Rightarrow>
          (case int80 tab nr call (of_nat i) a b c (fst st) of
             None \<Rightarrow> None
           | Some (res, s) \<Rightarrow> (let (r, e) = syscall_result res (snd st) in Some (r, s, e))))"

text \<open>The other macros leave registers as they are: \<open>b\<close>, \<open>c\<close> and \<open>d\<close> are what the caller has in them.\<close>

definition syscall2 :: "(string \<times> nat) list \<Rightarrow> string list \<Rightarrow> nat \<Rightarrow> 's kcalls \<Rightarrow> u32 \<Rightarrow> string \<Rightarrow> u32 \<Rightarrow> u32 \<Rightarrow> 's \<times> int \<Rightarrow> (int \<times> 's \<times> int) option" where
  "syscall2 nums tab nr call d name a b st = syscall3 nums tab nr call name a b d st"

definition syscall1 :: "(string \<times> nat) list \<Rightarrow> string list \<Rightarrow> nat \<Rightarrow> 's kcalls \<Rightarrow> u32 \<Rightarrow> u32 \<Rightarrow> string \<Rightarrow> u32 \<Rightarrow> 's \<times> int \<Rightarrow> (int \<times> 's \<times> int) option" where
  "syscall1 nums tab nr call c d name a st = syscall3 nums tab nr call name a c d st"

definition syscall0 :: "(string \<times> nat) list \<Rightarrow> string list \<Rightarrow> nat \<Rightarrow> 's kcalls \<Rightarrow> u32 \<Rightarrow> u32 \<Rightarrow> u32 \<Rightarrow> string \<Rightarrow> 's \<times> int \<Rightarrow> (int \<times> 's \<times> int) option" where
  "syscall0 nums tab nr call b c d name st = syscall3 nums tab nr call name b c d st"

section \<open>A consistent interface\<close>

text \<open>The three files agree: every number is below the bound, its entry of the table is the routine of that name, and every entry
  has a number.\<close>

locale syscall_interface =
  fixes nums :: "(string \<times> nat) list" and tab :: "string list" and nr :: nat
  assumes names: "distinct (map fst nums)"
    and entries: "(n, i) \<in> set nums \<Longrightarrow> i < nr \<and> tab ! i = ''sys_'' @ n"
    and complete: "map snd nums = [0..<nr]"
    and len: "length tab = nr" "0 < nr" "nr < 1000"
begin

lemma dispatch:
  assumes "map_of nums n = Some i"
  shows "int80 tab nr call (of_nat i) a b c s = call (''sys_'' @ n) a b c s"
proof -
  have "(n, i) \<in> set nums" using assms by (rule map_of_SomeD)
  then have i: "i < nr" "tab ! i = ''sys_'' @ n" using entries by auto
  moreover have "unat (of_nat i :: u32) = i" "unat (of_nat (nr - 1) :: u32) = nr - 1" using i(1) len by (simp_all add: unat_of_nat del: of_nat_diff)
  ultimately show ?thesis by (auto simp: int80_def word_less_nat_alt)
qed

lemma bad_number:
  assumes "nr \<le> unat eax" shows "int80 tab nr call eax a b c s = Some (- 1, s)"
proof -
  have "unat (of_nat (nr - 1) :: u32) = nr - 1" using len by (simp add: unat_of_nat del: of_nat_diff)
  moreover have "nr - 1 < unat eax" using assms len by simp
  ultimately show ?thesis by (simp add: int80_def word_less_nat_alt)
qed

lemma number_of: "i < nr \<Longrightarrow> \<exists>n. map_of nums n = Some i"
proof -
  assume "i < nr"
  then have "i \<in> set (map snd nums)" by (simp add: complete)
  then obtain n where "(n, i) \<in> set nums" by auto
  then show ?thesis using names by (auto intro: map_of_is_SomeI)
qed

lemma stub:
  assumes "map_of nums n = Some i" "call (''sys_'' @ n) a b c s = Some (res, s')"
  shows "syscall3 nums tab nr call n a b c (s, e) = Some (fst (syscall_result res e), s', snd (syscall_result res e))"
  using assms(2) by (simp add: syscall3_def assms(1) dispatch [OF assms(1)] case_prod_beta)

end

text \<open>The conditions as a test that can be run.\<close>

definition interface_ok :: "(string \<times> nat) list \<Rightarrow> string list \<Rightarrow> nat \<Rightarrow> bool" where
  "interface_ok nums tab nr \<longleftrightarrow> distinct (map fst nums) \<and> list_all (\<lambda>(n, i). i < nr \<and> tab ! i = ''sys_'' @ n) nums \<and>
     map snd nums = [0..<nr] \<and> length tab = nr \<and> 0 < nr \<and> nr < 1000"

lemma interface_okD: "interface_ok nums tab nr \<Longrightarrow> syscall_interface nums tab nr"
  by unfold_locales (auto simp: interface_ok_def list_all_iff)

lemma interfaces_ok: "interface_ok numbers2 table2 nr_system_calls2" "interface_ok numbers5 table5 nr_system_calls5"
  "interface_ok numbers6 table6 nr_system_calls6" "interface_ok numbers6e table6e nr_system_calls6e"
  by code_simp+

interpretation lab2: syscall_interface numbers2 table2 nr_system_calls2 by (rule interface_okD) (rule interfaces_ok)
interpretation lab5: syscall_interface numbers5 table5 nr_system_calls5 by (rule interface_okD) (rule interfaces_ok)
interpretation lab6: syscall_interface numbers6 table6 nr_system_calls6 by (rule interface_okD) (rule interfaces_ok)
interpretation lab6e: syscall_interface numbers6e table6e nr_system_calls6e by (rule interface_okD) (rule interfaces_ok)

text \<open>The interfaces of the four labs.\<close>

definition interfaces :: "((string \<times> nat) list \<times> string list \<times> nat) list" where
  "interfaces = [(numbers2, table2, nr_system_calls2), (numbers5, table5, nr_system_calls5), (numbers6, table6, nr_system_calls6),
     (numbers6e, table6e, nr_system_calls6e)]"

lemma interfaces_locale: "(nums, tab, nr) \<in> set interfaces \<Longrightarrow> syscall_interface nums tab nr"
  unfolding interfaces_def using lab2.syscall_interface_axioms lab5.syscall_interface_axioms lab6.syscall_interface_axioms
    lab6e.syscall_interface_axioms by auto

section \<open>Properties\<close>

text \<open>C13. In each of the Labs 2, 5, 6 and 6.Ext the three files agree: \<open>int 0x80\<close> with the number that \<open>unistd.h\<close> gives a
  name runs the kernel routine of that name with the three registers, every entry of the table has a name, and a number
  behind the table runs nothing.\<close>

theorem syscall_dispatch:
  assumes "(nums, tab, nr) \<in> set interfaces"
  shows "(\<forall>n i. map_of nums n = Some i \<longrightarrow> int80 tab nr call (of_nat i) a b c s = call (''sys_'' @ n) a b c s) \<and>
    (\<forall>i < nr. \<exists>n. map_of nums n = Some i) \<and> (\<forall>x. nr \<le> unat x \<longrightarrow> int80 tab nr call x a b c s = Some (- 1, s))"
  using syscall_interface.dispatch [OF interfaces_locale [OF assms]] syscall_interface.number_of [OF interfaces_locale [OF assms]]
    syscall_interface.bad_number [OF interfaces_locale [OF assms]] by (intro conjI allI impI)

theorem syscall_dispatch_witness:
  "int80 table6e 79 (\<lambda>n a b c s. if n = ''sys_shmget'' then Some (a + b, ()) else None) 76 8 40 0 () = Some (48, ())"
proof -
  have i: "(numbers6e, table6e, 79) \<in> set interfaces" by (simp add: interfaces_def nr_system_calls6e_def)
  have "map_of numbers6e ''shmget'' = Some 76" by code_simp
  with syscall_dispatch [OF i, of "\<lambda>n a b c s. if n = ''sys_shmget'' then Some (a + b, ()) else None" 8 40 0 "()"] show ?thesis by force
qed

lemma syscall_value:
  assumes "(nums, tab, nr) \<in> set interfaces" "map_of nums n = Some i"
    and "call (''sys_'' @ n) a b c s = Some (word_of_int (ret_code r), s')" "\<And>v. r = Inr v \<Longrightarrow> 0 \<le> v \<and> v < 2147483648"
  shows "syscall3 nums tab nr call n a b c (s, e) = Some (case r of Inl x \<Rightarrow> (- 1, s', errno_code x) | Inr v \<Rightarrow> (v, s', e))"
proof -
  have s: "sint (word_of_int v :: u32) = v" if "- 2147483648 \<le> v" "v < 2147483648" for v
    using that by (simp add: signed_of_int signed_take_bit_int_eq_self)
  have e: "0 < errno_code x" "errno_code x < 100" "s32 (errno_code x) = errno_code x" for x by (cases x; simp)+
  have "sint (word_of_int (ret_code r) :: u32) = ret_code r"
    using assms(4) e [of "case r of Inl x \<Rightarrow> x | Inr _ \<Rightarrow> EPERM"] by (intro s) (cases r; simp)+
  then have "syscall_result (word_of_int (ret_code r)) e = (case r of Inl x \<Rightarrow> (- 1, errno_code x) | Inr v \<Rightarrow> (v, e))"
    using assms(4) e by (cases r) (simp_all add: syscall_result_def not_le)
  then show ?thesis using syscall_interface.stub [OF interfaces_locale [OF assms(1)] assms(2), of call a b c s "word_of_int (ret_code r)" s' e] assms(3)
    by (cases r) simp_all
qed

text \<open>Results come back as the kernel routine means them: for a routine that returns a value below 2 GB the library function
  returns it and leaves \<open>errno\<close> alone; for one that returns \<open>-ERRNO\<close> it returns -1 with that number in \<open>errno\<close>; and an
  unknown call is reported as \<open>EPERM\<close>.\<close>

theorem syscall_results:
  assumes "(nums, tab, nr) \<in> set interfaces" "map_of nums n = Some i"
    and "call (''sys_'' @ n) a b c s = Some (word_of_int (ret_code r), s')" "\<And>v. r = Inr v \<Longrightarrow> 0 \<le> v \<and> v < 2147483648"
  shows "syscall3 nums tab nr call n a b c (s, e) =
      Some (case r of Inl x \<Rightarrow> (- 1, s', errno_code x) | Inr v \<Rightarrow> (v, s', e)) \<and>
    syscall_result (- 1) e = (- 1, errno_code EPERM)"
  using syscall_value [where call = call, OF assms] by (simp add: syscall_result_def)

theorem syscall_results_witness:
  "syscall3 numbers6 table6 78 (\<lambda>n a b c s. Some (word_of_int (- 22), s)) ''shmget'' 8 5000 0 ((), 0) = Some (- 1, (), 22)"
proof -
  have i: "(numbers6, table6, 78) \<in> set interfaces" by (simp add: interfaces_def nr_system_calls6_def)
  have "map_of numbers6 ''shmget'' = Some 76" by code_simp
  from syscall_results [OF i this, of "\<lambda>n a b c s. Some (word_of_int (- 22), s)" 8 5000 0 "()" "Inl EINVAL" "()" 0] show ?thesis by simp
qed

end
