(* ===== verification/Labtwo.thy ===== *)
theory Labtwo imports Syscalls Who begin

text \<open>
  The user programs of Lab 2: \<open>iam.c\<close>, \<open>whoami.c\<close> and the test \<open>testlab2.c\<close>, on the system calls of \<open>Who\<close> through the interface of
  \<open>Syscalls\<close>. \<open>lab2\<close> is the kernel's name and the memory of the running program. A C string of the program is its address with the
  characters that stand there. What the test prints is the value \<open>verdict\<close>.
\<close>

record lab2 =
  nameInKernel :: "u8 list"
  um :: "u32 \<Rightarrow> u8"

text \<open>The kernel routines; those of other files are the argument \<open>other\<close>.\<close>

definition lab2_calls :: "lab2 kcalls \<Rightarrow> lab2 kcalls" where
  "lab2_calls other n b c d s =
     (if n = ''sys_iam'' then
        (let (r, nk) = sys_iam (um s) b (nameInKernel s) in Some (word_of_int (ret_code r), s\<lparr>nameInKernel := nk\<rparr>))
      else if n = ''sys_whoami'' then
        (case sys_whoami b c (nameInKernel s) (um s) of
           None \<Rightarrow> None
         | Some (r, m) \<Rightarrow> Some (word_of_int (ret_code r), s\<lparr>um := m\<rparr>))
      else other n b c d s)"

definition lib_iam :: "lab2 kcalls \<Rightarrow> u32 \<Rightarrow> u32 \<Rightarrow> u32 \<Rightarrow> lab2 \<times> int \<Rightarrow> (int \<times> lab2 \<times> int) option" where
  "lib_iam other c d name = syscall1 numbers2 table2 nr_system_calls2 (lab2_calls other) c d ''iam'' name"

definition lib_whoami :: "lab2 kcalls \<Rightarrow> u32 \<Rightarrow> u32 \<Rightarrow> u32 \<Rightarrow> lab2 \<times> int \<Rightarrow> (int \<times> lab2 \<times> int) option" where
  "lib_whoami other d name sz = syscall2 numbers2 table2 nr_system_calls2 (lab2_calls other) d ''whoami'' name sz"

section \<open>iam and whoami\<close>

definition main_iam :: "lab2 kcalls \<Rightarrow> u32 \<Rightarrow> u32 \<Rightarrow> u32 \<Rightarrow> lab2 \<times> int \<Rightarrow> (lab2 \<times> int) option" where
  "main_iam other c d argv1 st = map_option snd (lib_iam other c d argv1 st)"

text \<open>\<open>char name[24] = {0}\<close> on the stack.\<close>

definition zeros :: "u32 \<Rightarrow> nat \<Rightarrow> (u32 \<Rightarrow> u8) \<Rightarrow> u32 \<Rightarrow> u8" where
  "zeros a n m = (\<lambda>x. if unat (x - a) < n then 0 else m x)"

text \<open>\<open>printf("%s\n", name)\<close> prints the string that stands at \<open>name\<close>; \<open>None\<close> when no NUL follows within the array.\<close>

definition string_in :: "(u32 \<Rightarrow> u8) \<Rightarrow> u32 \<Rightarrow> nat \<Rightarrow> u8 list option" where
  "string_in m a n = (let l = map (\<lambda>i. m (a + of_nat i)) [0..<n] in if 0 \<in> set l then Some (takeWhile (\<lambda>c. c \<noteq> 0) l) else None)"

definition main_whoami :: "lab2 kcalls \<Rightarrow> u32 \<Rightarrow> u32 \<Rightarrow> lab2 \<times> int \<Rightarrow> (u8 list option \<times> lab2 \<times> int) option" where
  "main_whoami other d name st =
     (case lib_whoami other d name 24 ((fst st)\<lparr>um := zeros name 24 (um (fst st))\<rparr>, snd st) of
        None \<Rightarrow> None
      | Some (r, s, e) \<Rightarrow> Some (string_in (um s) name 24, s, e))"

section \<open>testlab2.c\<close>

record test_case =
  t_name :: "u8 list"
  t_score :: int
  t_rval1 :: int
  t_size :: u32
  t_rval2 :: int

definition chars :: "string \<Rightarrow> u8 list" where "chars = map of_char"

definition MAX_NAME_LEN :: int where "MAX_NAME_LEN = 23"
definition NAMEBUF_SIZE :: u32 where "NAMEBUF_SIZE = 23 + 1"

definition TEST_CASE :: "test_case list" where
  "TEST_CASE =
    [\<lparr>t_name = chars ''x'', t_score = 10, t_rval1 = 1, t_size = NAMEBUF_SIZE, t_rval2 = 1\<rparr>,
     \<lparr>t_name = chars ''sunner'', t_score = 10, t_rval1 = 6, t_size = NAMEBUF_SIZE, t_rval2 = 6\<rparr>,
     \<lparr>t_name = chars ''Twenty-three characters'', t_score = 5, t_rval1 = 23, t_size = NAMEBUF_SIZE, t_rval2 = 23\<rparr>,
     \<lparr>t_name = chars ''123456789009876543211234'', t_score = 5, t_rval1 = - 1, t_size = 0, t_rval2 = - 1\<rparr>,
     \<lparr>t_name = chars ''abcdefghijklmnopqrstuvwxyz'', t_score = 5, t_rval1 = - 1, t_size = 0, t_rval2 = - 1\<rparr>,
     \<lparr>t_name = chars ''Linus Torvalds'', t_score = 5, t_rval1 = 14, t_size = NAMEBUF_SIZE, t_rval2 = 14\<rparr>,
     \<lparr>t_name = chars '''', t_score = 5, t_rval1 = 0, t_size = NAMEBUF_SIZE, t_rval2 = 0\<rparr>,
     \<lparr>t_name = chars ''whoami(0xbalabala, 10)'', t_score = 5, t_rval1 = 22, t_size = 10, t_rval2 = - 1\<rparr>]"

datatype verdict = Pass | Iam_errno int | Iam_value int | Whoami_string | Whoami_errno int | Whoami_value int

text \<open>\<open>strcmp(gotname, name) == 0\<close>, where \<open>name\<close> is the constant \<open>cs\<close>.\<close>

fun same_string :: "(u32 \<Rightarrow> u8) \<Rightarrow> u32 \<Rightarrow> u8 list \<Rightarrow> bool" where
  "same_string m a [] \<longleftrightarrow> m a = 0"
| "same_string m a (c # cs) \<longleftrightarrow> m a = c \<and> same_string m (a + 1) cs"

text \<open>\<open>test\<close> for a case whose string stands at \<open>addr\<close>, with the result \<open>got\<close> of \<open>malloc(len+1)\<close>: the score, what it prints, and
  the state. \<open>None\<close>: \<open>exit(-1)\<close> after a failed \<open>malloc\<close>, or a call that does not return.\<close>

definition test :: "lab2 kcalls \<Rightarrow> u32 \<Rightarrow> u32 \<Rightarrow> u32 \<Rightarrow> u32 \<Rightarrow> test_case \<Rightarrow> lab2 \<times> int \<Rightarrow> (int \<times> verdict \<times> lab2 \<times> int) option" where
  "test other c d addr got t st =
     (case lib_iam other c d addr st of
        None \<Rightarrow> None
      | Some (rval, s, errno) \<Rightarrow>
          if rval \<noteq> t_rval1 t then Some (0, Iam_value rval, s, errno)
          else if rval = - 1 \<and> errno = errno_code EINVAL then Some (t_score t, Pass, s, errno)
          else if rval = - 1 then Some (0, Iam_errno errno, s, errno)
          else if got = 0 then None
          else
            (case lib_whoami other d got (t_size t) (s\<lparr>um := zeros got (length (t_name t) + 1) (um s)\<rparr>, errno) of
               None \<Rightarrow> None
             | Some (rval, s, errno) \<Rightarrow>
                 if rval = t_rval2 t then
                   if rval = - 1 then Some (t_score t, Pass, s, errno)
                   else if same_string (um s) got (t_name t) then Some (t_score t, Pass, s, errno)
                   else Some (0, Whoami_string, s, errno)
                 else if rval = - 1 then Some (0, Whoami_errno errno, s, errno)
                 else Some (0, Whoami_value rval, s, errno)))"

text \<open>\<open>main\<close>: the cases in order; \<open>addr\<close> and \<open>got\<close> give the addresses for the case at a position. The result is the printed total.\<close>

fun run_tests :: "lab2 kcalls \<Rightarrow> u32 \<Rightarrow> u32 \<Rightarrow> (nat \<Rightarrow> u32) \<Rightarrow> (nat \<Rightarrow> u32) \<Rightarrow> nat \<Rightarrow> test_case list \<Rightarrow> int \<Rightarrow> lab2 \<times> int
    \<Rightarrow> (int \<times> verdict list \<times> lab2 \<times> int) option" where
  "run_tests other c d addr got i [] tot st = Some (tot, [], st)"
| "run_tests other c d addr got i (t # ts) tot st =
     (case test other c d (addr i) (got i) t st of
        None \<Rightarrow> None
      | Some (score, v, st) \<Rightarrow>
          (case run_tests other c d addr got (Suc i) ts (tot + score) st of
             None \<Rightarrow> None
           | Some (r, vs, st) \<Rightarrow> Some (r, v # vs, st)))"

definition main_testlab2 :: "lab2 kcalls \<Rightarrow> u32 \<Rightarrow> u32 \<Rightarrow> (nat \<Rightarrow> u32) \<Rightarrow> (nat \<Rightarrow> u32) \<Rightarrow> lab2 \<times> int \<Rightarrow> (int \<times> verdict list \<times> lab2 \<times> int) option" where
  "main_testlab2 other c d addr got st = run_tests other c d addr got 0 TEST_CASE 0 st"

section \<open>The library functions\<close>

lemma lab2_numbers: "map_of numbers2 ''iam'' = Some 72" "map_of numbers2 ''whoami'' = Some 73" by code_simp+

lemma lib_result:
  assumes "map_of numbers2 n = Some i" "lab2_calls other (''sys_'' @ n) a b c s = Some (word_of_int (ret_code r), s')"
    "\<And>v. r = Inr v \<Longrightarrow> 0 \<le> v \<and> v < 2147483648"
  shows "syscall3 numbers2 table2 nr_system_calls2 (lab2_calls other) n a b c (s, e) =
    Some (case r of Inl x \<Rightarrow> (- 1, s', errno_code x) | Inr v \<Rightarrow> (v, s', e))"
proof -
  have "(numbers2, table2, nr_system_calls2) \<in> set interfaces" by (simp add: interfaces_def)
  from syscall_value [where call = "lab2_calls other", OF this assms] show ?thesis .
qed

lemma lib_iam_ok:
  assumes "cstr_at (um s) a n" "length n \<le> 23" "who_wf (nameInKernel s)"
  shows "lib_iam other c d a (s, e) = Some (int (length n), s\<lparr>nameInKernel := n @ replicate (24 - length n) 0\<rparr>, e)"
proof -
  have "sys_iam (um s) a (nameInKernel s) = (Inr (int (length n)), n @ replicate (24 - length n) 0)"
    using sys_iam_short [OF assms(1)] assms(2,3) by (simp add: MAX_NAME_LENGTH_def who_wf_def)
  then have "lab2_calls other (''sys_'' @ ''iam'') a c d s =
      Some (word_of_int (ret_code (Inr (int (length n)))), s\<lparr>nameInKernel := n @ replicate (24 - length n) 0\<rparr>)"
    by (simp add: lab2_calls_def)
  from lib_result [OF lab2_numbers(1) this] assms(2) show ?thesis by (simp add: lib_iam_def syscall1_def)
qed

lemma lib_iam_long:
  assumes "cstr_at (um s) a n" "24 \<le> length n" shows "lib_iam other c d a (s, e) = Some (- 1, s, 22)"
proof -
  have "sys_iam (um s) a (nameInKernel s) = (Inl EINVAL, nameInKernel s)"
    using assms by (intro sys_iam_long) (simp add: MAX_NAME_LENGTH_def cstr_at_nz)
  then have "lab2_calls other (''sys_'' @ ''iam'') a c d s = Some (word_of_int (ret_code (Inl EINVAL)), s)"
    by (simp add: lab2_calls_def)
  from lib_result [OF lab2_numbers(1) this] show ?thesis by (simp add: lib_iam_def syscall1_def)
qed

lemma name_length:
  assumes "who_wf nk" shows "length (c_str nk) < 24"
proof -
  have "takeWhile (\<lambda>c. c \<noteq> 0) nk \<noteq> nk" using assms by (auto simp: who_wf_def takeWhile_eq_all_conv)
  moreover have "takeWhile (\<lambda>c. c \<noteq> 0) nk = take (length (takeWhile (\<lambda>c. c \<noteq> 0) nk)) nk" by (rule takeWhile_eq_take)
  ultimately have "length (takeWhile (\<lambda>c. c \<noteq> 0) nk) < length nk" using length_takeWhile_le [of "\<lambda>c. c \<noteq> 0" nk]
    by (metis nat_less_le take_all_iff order_refl)
  then show ?thesis using assms by (simp add: who_wf_def MAX_NAME_LENGTH_def c_str_def)
qed

lemma lib_whoami_run:
  assumes "who_wf (nameInKernel s)" "n = c_str (nameInKernel s)"
  shows "lib_whoami other d buf sz (s, e) =
    Some (if unat sz \<le> length n then (- 1, s, 22) else (int (length n), s\<lparr>um := put_name (nameInKernel s) buf (length n + 1) 0 (um s)\<rparr>, e))"
proof -
  let ?r = "if unat sz \<le> length n then (Inl EINVAL, um s) else (Inr (int (length n)), put_name (nameInKernel s) buf (length n + 1) 0 (um s))"
  have "length n < 24" using name_length assms by simp
  moreover have "sys_whoami buf sz (nameInKernel s) (um s) = Some ?r"
    using assms by (simp add: sys_whoami_def c_strlen_def c_str_def who_wf_def Let_def)
  then have "lab2_calls other (''sys_'' @ ''whoami'') buf sz d s = Some (word_of_int (ret_code (fst ?r)), s\<lparr>um := snd ?r\<rparr>)"
    by (simp add: lab2_calls_def)
  ultimately show ?thesis using lib_result [OF lab2_numbers(2), of other buf sz d s "fst ?r" "s\<lparr>um := snd ?r\<rparr>" e]
    by (auto simp: lib_whoami_def syscall2_def split: if_splits)
qed

lemma whoami_bytes:
  assumes "who_wf nk" "n = c_str nk"
  shows "cstr_at (put_name nk buf (length n + 1) 0 m) buf n" "\<not> (\<exists>k \<le> length n. x = buf + of_nat k) \<Longrightarrow> put_name nk buf (length n + 1) 0 m x = m x"
proof -
  have l: "length n < length nk" "length nk = 24"
    using name_length [OF assms(1)] assms by (simp_all add: who_wf_def MAX_NAME_LENGTH_def)
  have z: "nk ! length n = 0" unfolding assms(2) c_str_def using l assms(2) nth_length_takeWhile [of "\<lambda>c. c \<noteq> 0" nk] by (simp add: c_str_def)
  have nz: "k < length n \<Longrightarrow> nk ! k = n ! k \<and> n ! k \<noteq> 0" for k
    using assms(2) takeWhile_nth [of k "\<lambda>c. c \<noteq> 0" nk] nth_mem [of k n] set_takeWhileD [of "n ! k" "\<lambda>c. c \<noteq> 0" nk] by (auto simp: c_str_def)
  have b: "put_name nk buf (length n + 1) 0 m (buf + of_nat k) = nk ! k" if "k \<le> length n" for k
    using that l by (intro put_name_nth) simp_all
  show "cstr_at (put_name nk buf (length n + 1) 0 m) buf n"
    unfolding cstr_at_def using b nz z by (auto simp del: of_nat_Suc)
  show "put_name nk buf (length n + 1) 0 m x = m x" if "\<not> (\<exists>k \<le> length n. x = buf + of_nat k)"
    using that by (intro put_name_frame) (auto simp: less_Suc_eq_le)
qed

section \<open>testlab2.sh\<close>

lemma string_in_cstr: "cstr_at m a n \<Longrightarrow> length n < k \<Longrightarrow> string_in m a k = Some n"
proof -
  assume c: "cstr_at m a n" and l: "length n < k"
  let ?l = "map (\<lambda>i. m (a + of_nat i)) [0..<k]"
  have e: "?l = n @ 0 # map (\<lambda>i. m (a + of_nat i)) [Suc (length n)..<k]"
  proof (rule nth_equalityI)
    show "length ?l = length (n @ 0 # map (\<lambda>i. m (a + of_nat i)) [Suc (length n)..<k])" using l by simp
    fix i assume "i < length ?l"
    then show "?l ! i = (n @ 0 # map (\<lambda>i. m (a + of_nat i)) [Suc (length n)..<k]) ! i"
      using c l by (cases "i < length n"; cases "i = length n") (auto simp: cstr_at_def nth_append nth_Cons' simp del: of_nat_Suc upt_Suc)
  qed
  have "takeWhile (\<lambda>c. c \<noteq> 0) n = n" using cstr_at_no_nul [OF c] by (auto simp: takeWhile_eq_all_conv)
  then show "string_in m a k = Some n" unfolding string_in_def Let_def e by (simp add: takeWhile_append2 cstr_at_no_nul [OF c])
qed

text \<open>C24. What \<open>testlab2.sh\<close> relies on: after \<open>./iam "s"\<close>, whatever the kernel's name was, \<open>./whoami\<close> in a new process prints \<open>s\<close> if it
  has at most 23 characters, and still prints the name that was there before if it is longer; through the libraries, the table and
  the kernel routines.\<close>

theorem iam_then_whoami:
  assumes "who_wf nk" "cstr_at m1 argv1 s"
  shows "\<exists>k e. main_iam other c d argv1 (\<lparr>nameInKernel = nk, um = m1\<rparr>, e1) = Some (k, e) \<and>
    (\<forall>m2 buf. \<exists>k' e'. main_whoami other d buf (k\<lparr>um := m2\<rparr>, e2) = Some (Some (if length s \<le> 23 then s else c_str nk), k', e'))"
proof -
  define nk' where "nk' = (if length s \<le> 23 then s @ replicate (24 - length s) 0 else nk)"
  have wf: "who_wf nk'" using assms by (simp add: nk'_def who_wf_def MAX_NAME_LENGTH_def)
  have n: "c_str nk' = (if length s \<le> 23 then s else c_str nk)"
    using cstr_at_no_nul [OF assms(2)] c_str_pad by (auto simp: nk'_def)
  obtain e where iam: "main_iam other c d argv1 (\<lparr>nameInKernel = nk, um = m1\<rparr>, e1) = Some (\<lparr>nameInKernel = nk', um = m1\<rparr>, e)"
  proof (cases "length s \<le> 23")
    case True
    show thesis by (rule that) (use True assms lib_iam_ok [of "\<lparr>nameInKernel = nk, um = m1\<rparr>" argv1 s other c d e1] in \<open>simp add: main_iam_def nk'_def\<close>)
  next
    case False
    show thesis by (rule that) (use False assms lib_iam_long [of "\<lparr>nameInKernel = nk, um = m1\<rparr>" argv1 s other c d e1] in \<open>simp add: main_iam_def nk'_def\<close>)
  qed
  have "\<exists>k' e'. main_whoami other d buf (\<lparr>nameInKernel = nk', um = m1\<rparr>\<lparr>um := m2\<rparr>, e2) = Some (Some (c_str nk'), k', e')" for m2 buf
  proof -
    have l: "length (c_str nk') < 24" by (rule name_length [OF wf])
    show ?thesis
      using lib_whoami_run [of "\<lparr>nameInKernel = nk', um = zeros buf 24 m2\<rparr>" "c_str nk'" other d buf 24 e2] wf l
        string_in_cstr [OF whoami_bytes(1) [OF wf refl] l]
      by (simp add: main_whoami_def)
  qed
  with iam show ?thesis unfolding n by blast
qed

section \<open>testlab2.c\<close>

definition good_case :: "test_case \<Rightarrow> bool" where
  "good_case t \<longleftrightarrow> (let n = length (t_name t) in
     (n \<le> 23 \<and> t_rval1 t = int n \<and> t_rval2 t = (if unat (t_size t) \<le> n then - 1 else int n)) \<or> (24 \<le> n \<and> t_rval1 t = - 1))"

lemma same_string_cstr: "cstr_at m a n \<Longrightarrow> same_string m a n"
proof (induction n arbitrary: a)
  case (Cons c n)
  have "cstr_at m (a + 1) n" unfolding cstr_at_def
  proof (intro conjI allI impI)
    fix i assume "i < length n"
    then show "m (a + 1 + of_nat i) = n ! i" "n ! i \<noteq> 0" using Cons.prems by (auto simp: cstr_at_def add.assoc dest!: spec [of _ "Suc i"])
  next
    show "m (a + 1 + of_nat (length n)) = 0" using Cons.prems by (simp add: cstr_at_def add.assoc)
  qed
  with Cons show ?case by (auto simp: cstr_at_def dest: spec [of _ 0])
qed (simp add: cstr_at_def)

lemma test_passes:
  assumes "good_case t" "who_wf (nameInKernel s)" "cstr_at (um s) addr (t_name t)" "got \<noteq> 0"
  shows "\<exists>s' e'. test other c d addr got t (s, e) = Some (t_score t, Pass, s', e') \<and> who_wf (nameInKernel s') \<and>
    (\<forall>x. (\<forall>k \<le> length (t_name t). x \<noteq> got + of_nat k) \<longrightarrow> um s' x = um s x)"
proof (cases "length (t_name t) \<le> 23")
  case False
  then show ?thesis using assms lib_iam_long [OF assms(3), of other c d e] by (simp add: test_def good_case_def)
next
  case True
  let ?n = "t_name t" and ?nk = "t_name t @ replicate (24 - length (t_name t)) 0"
  let ?s = "s\<lparr>nameInKernel := ?nk, um := zeros got (length ?n + 1) (um s)\<rparr>"
  have g: "t_rval1 t = int (length ?n)" "t_rval2 t = (if unat (t_size t) \<le> length ?n then - 1 else int (length ?n))"
    using assms(1) True by (simp_all add: good_case_def Let_def)
  have wf: "who_wf ?nk" using True by (simp add: who_wf_def MAX_NAME_LENGTH_def)
  have n: "?n = c_str ?nk" using cstr_at_no_nul [OF assms(3)] c_str_pad True by simp
  note iam = lib_iam_ok [OF assms(3) True assms(2), of other c d e]
  note who = lib_whoami_run [of ?s ?n other d got "t_size t" e, simplified, OF wf n]
  have z: "zeros got (length ?n + 1) (um s) x = um s x" if "\<forall>k \<le> length ?n. x \<noteq> got + of_nat k" for x
  proof -
    have "x = got + of_nat (unat (x - got))" by simp
    with that have "\<not> unat (x - got) \<le> length ?n" by metis
    then show ?thesis by (simp add: zeros_def)
  qed
  show ?thesis
  proof (cases "unat (t_size t) \<le> length ?n")
    case True
    then show ?thesis using iam who g assms(4) wf z by (simp add: test_def)
  next
    case False
    note b = whoami_bytes [OF wf n, where buf = got and m = "zeros got (length ?n + 1) (um s)"]
    show ?thesis using iam who g assms(4) wf z False same_string_cstr [OF b(1)] b(2) by (simp add: test_def)
  qed
qed

text \<open>The strings of the cases are constants of the program, and a buffer from \<open>malloc\<close> overlaps none of them.\<close>

definition laid_out :: "(u32 \<Rightarrow> u8) \<Rightarrow> (nat \<Rightarrow> u32) \<Rightarrow> (nat \<Rightarrow> u32) \<Rightarrow> nat \<Rightarrow> test_case list \<Rightarrow> bool" where
  "laid_out m addr got i ts \<longleftrightarrow>
     (\<forall>j < length ts. cstr_at m (addr (i + j)) (t_name (ts ! j)) \<and> got (i + j) \<noteq> 0 \<and>
        (\<forall>j' < length ts. \<forall>k \<le> length (t_name (ts ! j)). \<forall>k' \<le> length (t_name (ts ! j')).
           got (i + j) + of_nat k \<noteq> addr (i + j') + of_nat k'))"

lemma laid_out_Cons:
  assumes "laid_out m addr got i (t # ts)" "\<And>x. (\<And>k. k \<le> length (t_name t) \<Longrightarrow> x \<noteq> got i + of_nat k) \<Longrightarrow> m' x = m x"
  shows "cstr_at m (addr i) (t_name t)" "got i \<noteq> 0" "laid_out m' addr got (Suc i) ts"
proof -
  show "cstr_at m (addr i) (t_name t)" "got i \<noteq> 0" using assms(1) by (auto simp: laid_out_def dest: spec [of _ 0])
  show "laid_out m' addr got (Suc i) ts"
    unfolding laid_out_def
  proof (intro allI impI conjI)
    fix j assume j: "j < length ts"
    then have o: "cstr_at m (addr (i + Suc j)) (t_name ((t # ts) ! Suc j))" "got (i + Suc j) \<noteq> 0"
      "\<And>k k'. k \<le> length (t_name ((t # ts) ! 0)) \<Longrightarrow> k' \<le> length (t_name ((t # ts) ! Suc j)) \<Longrightarrow> got (i + 0) + of_nat k \<noteq> addr (i + Suc j) + of_nat k'"
      using assms(1) unfolding laid_out_def by (metis Suc_less_eq length_Cons zero_less_Suc)+
    have "m' (addr (Suc i + j) + of_nat k) = m (addr (Suc i + j) + of_nat k)" if "k \<le> length (t_name (ts ! j))" for k
      using o(3) [of _ k] that by (intro assms(2)) (simp, metis add_0_right)
    then show "cstr_at m' (addr (Suc i + j)) (t_name (ts ! j))" using o(1) by (simp add: cstr_at_def)
    show "got (Suc i + j) \<noteq> 0" using o(2) by simp
    fix j' k k' assume "j' < length ts" "k \<le> length (t_name (ts ! j))" "k' \<le> length (t_name (ts ! j'))"
    then have "got (i + Suc j) + of_nat k \<noteq> addr (i + Suc j') + of_nat k'"
      using assms(1) j unfolding laid_out_def by (metis Suc_less_eq length_Cons nth_Cons_Suc)
    then show "got (Suc i + j) + of_nat k \<noteq> addr (Suc i + j') + of_nat k'" by simp
  qed
qed

lemma tests_pass:
  assumes "\<forall>t \<in> set ts. good_case t" "who_wf (nameInKernel s)" "laid_out (um s) addr got i ts"
  shows "\<exists>s' e'. run_tests other c d addr got i ts tot (s, e) = Some (tot + sum_list (map t_score ts), replicate (length ts) Pass, s', e')"
  using assms
proof (induction ts arbitrary: i tot s e)
  case (Cons t ts)
  note l = laid_out_Cons [OF Cons.prems(3)]
  have "cstr_at (um s) (addr i) (t_name t)" "got i \<noteq> 0" using l(1,2) by blast+
  then obtain s1 e1 where t: "test other c d (addr i) (got i) t (s, e) = Some (t_score t, Pass, s1, e1)" "who_wf (nameInKernel s1)"
    "\<forall>x. (\<forall>k \<le> length (t_name t). x \<noteq> got i + of_nat k) \<longrightarrow> um s1 x = um s x"
    using test_passes [of t s "addr i" "got i" other c d e] Cons.prems by auto
  have "laid_out (um s1) addr got (Suc i) ts" using l(3) [of "um s1"] t(3) by blast
  then show ?case using Cons.IH [of s1 "Suc i" "tot + t_score t" e1] Cons.prems(1) t by (auto simp: algebra_simps)
qed simp

lemma TEST_CASE_good: "\<forall>t \<in> set TEST_CASE. good_case t" "sum_list (map t_score TEST_CASE) = 50" "length TEST_CASE = 8"
  by (simp_all add: TEST_CASE_def good_case_def chars_def NAMEBUF_SIZE_def)

text \<open>\<open>testlab2.c\<close> on the kernel of Lab 2: whatever the kernel's name is before, every one of the eight cases prints PASS, and the total
  is all 50 points: the empty name, names of 1, 6, 14 and 23 characters, two that are too long, and a buffer that is too small.\<close>

theorem testlab2_passes:
  assumes "who_wf (nameInKernel s)" "laid_out (um s) addr got 0 TEST_CASE"
  shows "\<exists>s' e'. main_testlab2 other c d addr got (s, e) = Some (50, replicate 8 Pass, s', e')"
  using tests_pass [OF TEST_CASE_good(1) assms, of other c d 0 e] by (simp add: main_testlab2_def TEST_CASE_good(2,3))

section \<open>Witnesses\<close>

definition case_addr :: "nat \<Rightarrow> u32" where "case_addr i = of_nat (4096 * i)"
definition case_got :: "nat \<Rightarrow> u32" where "case_got i = of_nat (4096 * i + 2048)"
definition case_mem :: "u32 \<Rightarrow> u8" where
  "case_mem x = (let n = t_name (TEST_CASE ! (unat x div 4096)); k = unat x mod 4096 in if unat x div 4096 < 8 \<and> k < length n then n ! k else 0)"

lemma TEST_CASE_short: "\<forall>t \<in> set TEST_CASE. length (t_name t) \<le> 26 \<and> 0 \<notin> set (t_name t)"
  by (simp add: TEST_CASE_def chars_def)

lemma case_laid_out: "laid_out case_mem case_addr case_got 0 TEST_CASE"
proof -
  have s: "length (t_name (TEST_CASE ! i)) \<le> 26" "0 \<notin> set (t_name (TEST_CASE ! i))" if "i < 8" for i
    using that TEST_CASE_short TEST_CASE_good(3) nth_mem by metis+
  have u: "unat (case_addr i + of_nat k) = 4096 * i + k" "unat (case_got i + of_nat k) = 4096 * i + (2048 + k)" if "i < 8" "k \<le> 26" for i k
    using that by (simp_all add: case_addr_def case_got_def unat_word_ariths unat_of_nat)
  have m: "case_mem (case_addr i + of_nat k) = (if k < length (t_name (TEST_CASE ! i)) then t_name (TEST_CASE ! i) ! k else 0)" if "i < 8" "k \<le> 26" for i k
    using that u(1) [OF that] by (simp add: case_mem_def)
  show ?thesis unfolding laid_out_def TEST_CASE_good(3)
  proof (intro allI impI conjI)
    fix j :: nat assume j: "j < 8"
    show "cstr_at case_mem (case_addr (0 + j)) (t_name (TEST_CASE ! j))"
      unfolding cstr_at_def using s [OF j] m [OF j] by (auto simp: in_set_conv_nth)
    show "case_got (0 + j) \<noteq> 0" using u(2) [OF j, of 0] by auto
    fix j' k k' :: nat assume j': "j' < 8" "k \<le> length (t_name (TEST_CASE ! j))" "k' \<le> length (t_name (TEST_CASE ! j'))"
    have k: "k \<le> 26" "k' \<le> 26" using j' s(1) [OF j] s(1) [OF j'(1)] by simp_all
    have "(4096 * j + (2048 + k)) mod 4096 \<noteq> (4096 * j' + k') mod 4096" using k by simp
    then show "case_got (0 + j) + of_nat k \<noteq> case_addr (0 + j') + of_nat k'" using u(2) [OF j k(1)] u(1) [OF j'(1) k(2)] by (metis add_0)
  qed
qed

theorem testlab2_passes_witness:
  "\<exists>s' e'. main_testlab2 (\<lambda>_ _ _ _ _. None) 0 0 case_addr case_got (\<lparr>nameInKernel = who_init, um = case_mem\<rparr>, 0) = Some (50, replicate 8 Pass, s', e')"
  by (rule testlab2_passes) (simp_all add: who_wf_init case_laid_out)

theorem iam_then_whoami_witness:
  "\<exists>k e k' e'. main_iam (\<lambda>_ _ _ _ _. None) 0 0 5 (\<lparr>nameInKernel = who_init, um = (\<lambda>a. if a = 5 then 120 else 0)\<rparr>, 0) = Some (k, e) \<and>
     main_whoami (\<lambda>_ _ _ _ _. None) 0 900 (k\<lparr>um := \<lambda>_. 7\<rparr>, 0) = Some (Some [120], k', e')"
proof -
  have "cstr_at (\<lambda>a. if a = 5 then 120 else 0) 5 [120]" by (simp add: cstr_at_def)
  from iam_then_whoami [OF who_wf_init this, of "\<lambda>_ _ _ _ _. None" 0 0 0 0]
  obtain k e where "main_iam (\<lambda>_ _ _ _ _. None) 0 0 5 (\<lparr>nameInKernel = who_init, um = (\<lambda>a. if a = 5 then 120 else 0)\<rparr>, 0) = Some (k, e)"
    "\<forall>m2 buf. \<exists>k' e'. main_whoami (\<lambda>_ _ _ _ _. None) 0 buf (k\<lparr>um := m2\<rparr>, 0) = Some (Some [120], k', e')" by auto
  then show ?thesis by blast
qed

end
