(* ===== verification/Boot.thy ===== *)
theory Boot imports Paging begin

text \<open>
  \<open>init/main.c\<close> of Lab 8, what \<open>main\<close> decides before the first process runs: how the memory is divided between buffers
  and pages, what \<open>mem_init\<close> is told, and the time of day from the clock chip. \<open>rd_init\<close> and \<open>kernel_mktime\<close> are files
  that are not in the repository: the size of the RAM disk and \<open>kernel_mktime\<close> are arguments.
\<close>

unbundle bit_operations_syntax

section \<open>Memory\<close>

text \<open>\<open>memory_end\<close>, \<open>buffer_memory_end\<close> and \<open>main_memory_start\<close> for \<open>EXT_MEM_K\<close> kilobytes of extended memory; \<open>rd\<close> is the
  length that \<open>rd_init\<close> returns for a start, 0 without \<open>RAMDISK\<close>.\<close>

definition boot_layout :: "(u32 \<Rightarrow> u32) \<Rightarrow> u16 \<Rightarrow> u32 \<times> u32 \<times> u32" where
  "boot_layout rd EXT_MEM_K =
     (let memory_end = push_bit 20 1 + push_bit 10 (ucast EXT_MEM_K);
          memory_end = memory_end AND 0xfffff000;
          memory_end = (if sint memory_end > 16 * 1024 * 1024 then 16 * 1024 * 1024 else memory_end);
          buffer_memory_end =
            (if sint memory_end > 12 * 1024 * 1024 then 4 * 1024 * 1024
             else if sint memory_end > 6 * 1024 * 1024 then 2 * 1024 * 1024
             else 1 * 1024 * 1024);
          main_memory_start = buffer_memory_end;
          main_memory_start = main_memory_start + rd main_memory_start
      in (memory_end, buffer_memory_end, main_memory_start))"

text \<open>\<open>main\<close> up to \<open>mem_init\<close>, and the number that \<open>init\<close> prints as free memory.\<close>

definition boot_mem :: "(u32 \<Rightarrow> u32) \<Rightarrow> u16 \<Rightarrow> mm \<Rightarrow> mm" where
  "boot_mem rd k s = (let (memory_end, buffer_memory_end, main_memory_start) = boot_layout rd k in mem_init main_memory_start memory_end s)"

definition free_mem_printed :: "(u32 \<Rightarrow> u32) \<Rightarrow> u16 \<Rightarrow> int" where
  "free_mem_printed rd k = (let (memory_end, buffer_memory_end, main_memory_start) = boot_layout rd k in sint (memory_end - main_memory_start))"

section \<open>The time of day\<close>

record tm =
  tm_sec :: int
  tm_min :: int
  tm_hour :: int
  tm_mday :: int
  tm_mon :: int
  tm_year :: int

definition BCD_TO_BIN :: "int \<Rightarrow> int" where "BCD_TO_BIN val = (val AND 15) + drop_bit 4 val * 10"

text \<open>The loop of \<open>time_init\<close>: \<open>cmos n a\<close> is what the \<open>n\<close>-th reading of the clock chip gives when it reads the register \<open>a\<close>.
  \<open>None\<close>: the loop does not end.\<close>

partial_function (option) read_clock :: "(nat \<Rightarrow> nat \<Rightarrow> u8) \<Rightarrow> nat \<Rightarrow> (nat \<times> tm) option" where
  "read_clock cmos n =
     (let time = \<lparr>tm_sec = uint (cmos n 0), tm_min = uint (cmos (n + 1) 2), tm_hour = uint (cmos (n + 2) 4), tm_mday = uint (cmos (n + 3) 7),
                  tm_mon = uint (cmos (n + 4) 8), tm_year = uint (cmos (n + 5) 9)\<rparr>
      in if tm_sec time \<noteq> uint (cmos (n + 6) 0) then read_clock cmos (n + 7) else Some (n + 7, time))"

text \<open>The value of \<open>startup_time\<close>.\<close>

definition time_init :: "(tm \<Rightarrow> int) \<Rightarrow> (nat \<Rightarrow> nat \<Rightarrow> u8) \<Rightarrow> nat \<Rightarrow> int option" where
  "time_init kernel_mktime cmos n =
     (case read_clock cmos n of
        None \<Rightarrow> None
      | Some (n, time) \<Rightarrow>
          let time = time\<lparr>tm_sec := BCD_TO_BIN (tm_sec time)\<rparr>; time = time\<lparr>tm_min := BCD_TO_BIN (tm_min time)\<rparr>;
              time = time\<lparr>tm_hour := BCD_TO_BIN (tm_hour time)\<rparr>; time = time\<lparr>tm_mday := BCD_TO_BIN (tm_mday time)\<rparr>;
              time = time\<lparr>tm_mon := BCD_TO_BIN (tm_mon time)\<rparr>; time = time\<lparr>tm_year := BCD_TO_BIN (tm_year time)\<rparr>;
              time = time\<lparr>tm_mon := tm_mon time - 1\<rparr>
          in Some (kernel_mktime time))"

section \<open>The division of the memory\<close>

lemma mem_init_loop_nth: "mem_init_loop n i m j = (if i \<le> j \<and> j < i + n then 0 else m j)"
  by (induction n arbitrary: i m) auto

lemma sint_below:
  assumes "unat (x :: u32) = n" "n < 2147483648" shows "sint x = int n"
proof -
  have "signed_take_bit 31 (int n) = int n" using assms(2) by (intro signed_take_bit_int_eq_self) simp_all
  moreover have "uint x = int n" using assms(1) by (simp flip: assms(1))
  ultimately show ?thesis by (simp add: sint_uint)
qed

lemma pages_between:
  assumes "unat (x :: u32) < 2147483648" shows "nat (sint (signed_drop_bit 12 x)) = unat x div 4096"
  by (simp add: sint_signed_drop_bit_eq sint_below [OF refl assms] drop_bit_eq_div nat_div_distrib)

text \<open>What the memory map is after \<open>mem_init\<close>.\<close>

lemma mem_init_free:
  assumes "page_base a = a" "page_base b = b" "LOW_MEM \<le> a" "a \<le> b" "unat b \<le> 16777216" "i < 3840"
  shows "mem_map (mem_init a b s) i = 0 \<longleftrightarrow> unat a \<le> unat (page_addr i) \<and> unat (page_addr i) < unat b"
proof -
  obtain p q where pq: "unat a = 4096 * p" "unat b = 4096 * q" using assms(1,2) aligned_mult by metis
  have ab: "p \<le> q" "q \<le> 4096" "256 \<le> p" using assms(3-5) pq by (simp_all add: word_le_nat_alt LOW_MEM_def)
  have d: "unat (b - a) = 4096 * (q - p)" using assms(4) pq by (simp add: unat_sub word_le_nat_alt diff_mult_distrib2)
  have n: "nat (sint (signed_drop_bit 12 (b - a))) = q - p" using pages_between [of "b - a"] d ab by simp
  have m: "MAP_NR a = p - 256"
    using assms(3) pq ab by (simp add: MAP_NR_def unat_drop_bit unat_sub LOW_MEM_def)
  have u: "USED \<noteq> 0" by (simp add: USED_def)
  show ?thesis
    using assms(6) ab u by (auto simp: mem_init_def n m mem_init_loop_nth unat_page_addr pq)
qed

text \<open>\<open>memory_end\<close> in numbers.\<close>

definition end_of_memory :: "nat \<Rightarrow> nat" where "end_of_memory k = min 16777216 ((1048576 + 1024 * k) div 4096 * 4096)"

lemma boot_layout_numbers:
  assumes "boot_layout rd k = (me, be, ms)"
  shows "unat me = end_of_memory (unat k)"
    "be = (if end_of_memory (unat k) > 12582912 then 0x400000 else if end_of_memory (unat k) > 6291456 then 0x200000 else 0x100000)"
    "ms = be + rd be" "page_base me = me" "page_base be = be"
proof -
  have k: "unat k < 65536" using unsigned_less [of k, where 'a = nat] by simp
  let ?x = "push_bit 20 1 + push_bit 10 (ucast k) :: u32"
  have "unat (ucast k :: u32) = unat k" using k by (simp add: unsigned_ucast_eq take_bit_nat_eq_self)
  then have "unat ?x = 1048576 + 1024 * unat k" using k by (simp add: push_bit_eq_mult unat_word_ariths)
  then have x: "unat (?x AND 0xfffff000) = (1048576 + 1024 * unat k) div 4096 * 4096" by (simp only: unat_page)
  have le: "(1048576 + 1024 * unat k) div 4096 * 4096 \<le> 1048576 + 1024 * unat k" by simp
  have s: "sint (?x AND 0xfffff000) = int ((1048576 + 1024 * unat k) div 4096 * 4096)"
    using sint_below [OF x] le k by simp
  define m where "m = (if sint (?x AND 0xfffff000) > 16 * 1024 * 1024 then 16 * 1024 * 1024 else ?x AND 0xfffff000)"
  have um: "unat m = end_of_memory (unat k)" unfolding m_def s using x by (auto simp: end_of_memory_def min_def)
  then have sm: "sint m = int (end_of_memory (unat k))" using sint_below [OF um] by (simp add: end_of_memory_def)
  have r: "me = m" "be = (if sint m > 12 * 1024 * 1024 then 4 * 1024 * 1024 else if sint m > 6 * 1024 * 1024 then 2 * 1024 * 1024 else 1 * 1024 * 1024)"
    "ms = be + rd be"
    using assms unfolding boot_layout_def Let_def m_def [symmetric] by auto
  show "unat me = end_of_memory (unat k)" using r(1) um by simp
  show be: "be = (if end_of_memory (unat k) > 12582912 then 0x400000 else if end_of_memory (unat k) > 6291456 then 0x200000 else 0x100000)"
    using r(2) sm by simp
  show "ms = be + rd be" by (rule r(3))
  show "page_base me = me" using r(1) m_def by (simp add: page_base_def)
  show "page_base be = be" by (simp add: be page_base_def)
qed

section \<open>The clock\<close>

text \<open>The chip: a two-digit number in BCD, and the register of each field.\<close>

definition bcd :: "int \<Rightarrow> u8" where "bcd v = word_of_int (16 * (v div 10) + v mod 10)"

definition clock_shows :: "(nat \<Rightarrow> nat \<Rightarrow> u8) \<Rightarrow> (nat \<Rightarrow> tm) \<Rightarrow> bool" where
  "clock_shows cmos now \<longleftrightarrow>
     (\<forall>n. cmos n 0 = bcd (tm_sec (now n)) \<and> cmos n 2 = bcd (tm_min (now n)) \<and> cmos n 4 = bcd (tm_hour (now n)) \<and>
          cmos n 7 = bcd (tm_mday (now n)) \<and> cmos n 8 = bcd (tm_mon (now n)) \<and> cmos n 9 = bcd (tm_year (now n)) \<and>
          (\<forall>v \<in> {tm_sec (now n), tm_min (now n), tm_hour (now n), tm_mday (now n), tm_mon (now n), tm_year (now n)}. 0 \<le> v \<and> v < 100))"

lemma BCD_roundtrip:
  assumes "0 \<le> v" "v < 100" shows "BCD_TO_BIN (uint (bcd v)) = v"
proof -
  let ?x = "16 * (v div 10) + v mod 10"
  have r: "0 \<le> ?x" "?x < 256" using assms by presburger+
  have "uint (word_of_int y :: u8) = y" if "0 \<le> y" "y < 256" for y using that by (simp add: uint_word_of_int)
  from this [OF r] have u: "uint (bcd v) = ?x" by (simp only: bcd_def)
  have "y AND 15 = take_bit 4 y" for y :: int by (simp add: take_bit_eq_mask mask_eq_exp_minus_1)
  then have "?x AND 15 = ?x mod 16" by (simp add: take_bit_eq_mod)
  moreover have "(16 * a + b) mod 16 = b" "(16 * a + b) div 16 = a" if "0 \<le> b" "b < 16" for a b :: int using that by simp_all
  then have "?x mod 16 = v mod 10" "?x div 16 = v div 10" by simp_all
  ultimately show ?thesis by (simp add: BCD_TO_BIN_def u drop_bit_eq_div)
qed

lemma bcd_inj: "0 \<le> v \<Longrightarrow> v < 100 \<Longrightarrow> 0 \<le> w \<Longrightarrow> w < 100 \<Longrightarrow> uint (bcd v) = uint (bcd w) \<longleftrightarrow> v = w"
  using BCD_roundtrip by metis

lemma read_clock_again:
  "(\<And>j. j < k \<Longrightarrow> uint (cmos (n + 7 * j) 0) \<noteq> uint (cmos (n + 7 * j + 6) 0)) \<Longrightarrow> read_clock cmos n = read_clock cmos (n + 7 * k)"
proof (induction k)
  case (Suc k)
  have "uint (cmos (n + 7 * k) 0) \<noteq> uint (cmos (n + 7 * k + 6) 0)" using Suc.prems [of k] by simp
  then have "read_clock cmos (n + 7 * k) = read_clock cmos (n + 7 * k + 7)" by (subst read_clock.simps) simp
  with Suc show ?case by (simp add: add.commute add.left_commute)
qed simp

section \<open>Properties\<close>

text \<open>C5. \<open>main\<close> without a RAM disk, for every amount of extended memory: the memory ends at the last whole page, at 16 MB at most;
  the buffers end at 4 MB when it ends above 12 MB, else at 2 MB when it ends above 6 MB, else at 1 MB, and never behind its end; the pages of the allocator are exactly those between the two; and the number that \<open>init\<close>
  prints as free memory is 4096 times the free pages that \<open>calc_mem\<close> counts.\<close>

theorem boot_memory:
  assumes "boot_layout (\<lambda>_. 0) k = (me, be, ms)"
  shows "ms = be \<and>
    unat be = (if unat me > 12 * 1048576 then 4 * 1048576 else if unat me > 6 * 1048576 then 2 * 1048576 else 1048576) \<and>
    unat be \<le> unat me \<and> unat me = end_of_memory (unat k) \<and> unat me \<le> 16777216 \<and>
    HIGH_MEMORY (boot_mem (\<lambda>_. 0) k s) = me \<and>
    (\<forall>i < 3840. mem_map (boot_mem (\<lambda>_. 0) k s) i = 0 \<longleftrightarrow> unat be \<le> unat (page_addr i) \<and> unat (page_addr i) < unat me) \<and>
    free_mem_printed (\<lambda>_. 0) k = 4096 * int (fst (calc_mem (boot_mem (\<lambda>_. 0) k s)))"
proof -
  note b = boot_layout_numbers [OF assms]
  have e: "1048576 \<le> end_of_memory (unat k)" "end_of_memory (unat k) \<le> 16777216" by (simp_all add: end_of_memory_def)
  have be: "ms = be" "unat be \<le> unat me" "1048576 \<le> unat be" using b e by (auto split: if_splits)
  have m: "boot_mem (\<lambda>_. 0) k s = mem_init be me s" using assms be(1) by (simp add: boot_mem_def)
  have free: "mem_map (mem_init be me s) i = 0 \<longleftrightarrow> unat be \<le> unat (page_addr i) \<and> unat (page_addr i) < unat me" if "i < 3840" for i
    using be e b(1,4,5) that by (intro mem_init_free) (simp_all add: word_le_nat_alt LOW_MEM_def)
  obtain p q where pq: "unat be = 4096 * p" "unat me = 4096 * q" using b(4,5) aligned_mult by metis
  have r: "256 \<le> p" "p \<le> q" "q \<le> 4096" using be e b(1) pq by simp_all
  have "{i. i < 3840 \<and> mem_map (mem_init be me s) i = 0} = {p - 256..<q - 256}"
  proof (rule set_eqI)
    fix i
    obtain p' q' where o: "p = 256 + p'" "q = 256 + q'" using r le_Suc_ex by (metis order_trans)
    then have "(i < 3840 \<and> 4096 * p \<le> 4096 * i + 1048576 \<and> 4096 * i + 1048576 < 4096 * q) = (p - 256 \<le> i \<and> i < q - 256)"
      using r by auto
    then show "i \<in> {i. i < 3840 \<and> mem_map (mem_init be me s) i = 0} \<longleftrightarrow> i \<in> {p - 256..<q - 256}"
      using free [of i] r pq by (cases "i < 3840") (simp_all add: unat_page_addr)
  qed
  then have c: "fst (calc_mem (mem_init be me s)) = q - p"
    using r by (simp add: calc_mem_def length_filter_conv_card cong: conj_cong)
  have "unat (me - be) = 4096 * (q - p)" using be(2) pq by (simp add: unat_sub word_le_nat_alt diff_mult_distrib2)
  then have "sint (me - be) = int (4096 * (q - p))" using r by (intro sint_below) simp_all
  then have "free_mem_printed (\<lambda>_. 0) k = 4096 * int (q - p)" using assms be(1) by (simp add: free_mem_printed_def)
  moreover have "unat be = (if unat me > 12 * 1048576 then 4 * 1048576 else if unat me > 6 * 1048576 then 2 * 1048576 else 1048576)"
    using b(1,2) by simp
  ultimately show ?thesis using be b(1) e free m c by (simp add: mem_init_def)
qed

text \<open>C28. \<open>time_init\<close> gives the kernel the time the clock chip shows at one instant, in binary and with the months counted from 0, although it reads
  the chip field by field: it starts again when the second has changed meanwhile, and it comes to an end as soon as seven
  readings in a row fall into one second. The hypotheses are about the chip: fields in BCD, and registers that only change
  when the second does, within the few microseconds of seven readings.\<close>

theorem time_init_one_instant:
  assumes "clock_shows cmos now" "\<And>m. tm_sec (now m) = tm_sec (now (m + 6)) \<Longrightarrow> \<forall>i \<le> 6. now (m + i) = now m"
    and "tm_sec (now (n + 7 * j)) = tm_sec (now (n + 7 * j + 6))"
  shows "\<exists>k \<le> j. time_init kernel_mktime cmos n = Some (kernel_mktime ((now (n + 7 * k))\<lparr>tm_mon := tm_mon (now (n + 7 * k)) - 1\<rparr>))"
proof -
  define P where "P k \<longleftrightarrow> tm_sec (now (n + 7 * k)) = tm_sec (now (n + 7 * k + 6))" for k
  define k where "k = (LEAST k. P k)"
  have "P j" using assms(3) by (simp add: P_def)
  then have k: "P k" "k \<le> j" "\<And>i. i < k \<Longrightarrow> \<not> P i" unfolding k_def by (rule LeastI, rule Least_le) (rule not_less_Least)
  note c = assms(1) [unfolded clock_shows_def, rule_format]
  have s: "uint (cmos m 0) = uint (cmos m' 0) \<longleftrightarrow> tm_sec (now m) = tm_sec (now m')" for m m'
    using c [of m] c [of m'] by (simp add: bcd_inj)
  have again: "read_clock cmos n = read_clock cmos (n + 7 * k)" by (rule read_clock_again) (use k(3) s in \<open>simp add: P_def\<close>)
  let ?m = "n + 7 * k"
  have "now (?m + i) = now ?m" if "i \<le> 6" for i using assms(2) [of ?m] k(1) that by (simp add: P_def)
  from this [of 1] this [of 2] this [of 3] this [of 4] this [of 5] have
    "read_clock cmos ?m = Some (?m + 7, \<lparr>tm_sec = uint (bcd (tm_sec (now ?m))), tm_min = uint (bcd (tm_min (now ?m))), tm_hour = uint (bcd (tm_hour (now ?m))),
       tm_mday = uint (bcd (tm_mday (now ?m))), tm_mon = uint (bcd (tm_mon (now ?m))), tm_year = uint (bcd (tm_year (now ?m)))\<rparr>)"
    using c s [of ?m "?m + 6"] k(1) by (subst read_clock.simps) (simp add: P_def Let_def)
  then have "time_init kernel_mktime cmos n = Some (kernel_mktime ((now ?m)\<lparr>tm_mon := tm_mon (now ?m) - 1\<rparr>))"
    using c [of ?m] again by (cases "now ?m") (simp add: time_init_def BCD_roundtrip)
  with k(2) show ?thesis by blast
qed

theorem boot_memory_witness:
  "boot_layout (\<lambda>_. 0) 0x3c00 = (0x1000000, 0x400000, 0x400000) \<and> unat (0x1000000 :: u32) = end_of_memory 0x3c00 \<and>
   mem_map (boot_mem (\<lambda>_. 0) 0x3c00 mm_start) 768 = 0"
proof -
  have b: "boot_layout (\<lambda>_. 0) 0x3c00 = (0x1000000, 0x400000, 0x400000)" by (simp add: boot_layout_def)
  from boot_memory [OF b, of mm_start] b show ?thesis by (simp add: unat_page_addr)
qed

theorem time_init_one_instant_witness:
  "\<exists>k \<le> (0 :: nat). time_init tm_mon (\<lambda>n r. if r = 8 then bcd 12 else bcd 30) 5 = Some (12 - 1)"
proof -
  let ?t = "\<lparr>tm_sec = 30, tm_min = 30, tm_hour = 30, tm_mday = 30, tm_mon = 12, tm_year = 30\<rparr>"
  have "clock_shows (\<lambda>n r. if r = 8 then bcd 12 else bcd 30) (\<lambda>_. ?t)" by (simp add: clock_shows_def)
  from time_init_one_instant [OF this, where n = 5 and j = 0 and kernel_mktime = tm_mon] show ?thesis by auto
qed

end
