(* ===== verification/Build.thy ===== *)
theory Build imports Kprelude begin

text \<open>
  \<open>tools/build.c\<close> of Lab 1: the program that puts the boot sector, the setup program and the system together to the image of a
  disk. The files are lists of bytes (\<open>None\<close>: \<open>open\<close> fails), standard output takes \<open>room\<close> bytes, and a run ends with the bytes
  written, and a message if it called \<open>die\<close>. A \<open>long\<close> has 4 bytes, the lowest first. \<open>stat\<close> gives the number of a device.
\<close>

definition MINIX_HEADER :: nat where "MINIX_HEADER = 32"
definition SYS_SIZE :: nat where "SYS_SIZE = 0x3000"
definition DEFAULT_MAJOR_ROOT :: u8 where "DEFAULT_MAJOR_ROOT = 3"
definition DEFAULT_MINOR_ROOT :: u8 where "DEFAULT_MINOR_ROOT = 1"
definition SETUP_SECTS :: nat where "SETUP_SECTS = 4"
definition BUF :: nat where "BUF = 1024"

text \<open>The messages of \<open>die\<close>; the name is that of the file.\<close>

datatype die =
    Usage | Couldnt_stat | Bad_major | Unable_to_open string | Unable_to_read_header string | Non_Minix_header string
  | Illegal_data string | Illegal_bss string | Illegal_symbols string | Boot_not_512 | No_boot_flag | Write_failed
  | Setup_too_big | System_too_big

type_synonym image = "u8 list"

section \<open>Files\<close>

text \<open>\<open>write(1, ...)\<close>, and \<open>die\<close> when not everything was written.\<close>

definition write1 :: "nat \<Rightarrow> u8 list \<Rightarrow> image \<Rightarrow> (die \<times> image) + image" where
  "write1 room bs out =
     (if length out + length bs \<le> room then Inr (out @ bs) else Inl (Write_failed, out @ take (room - length out) bs))"

definition long_of :: "u8 list \<Rightarrow> nat \<Rightarrow> nat" where
  "long_of b i = unat (b ! (4 * i)) + 256 * unat (b ! (4 * i + 1)) + 65536 * unat (b ! (4 * i + 2)) + 16777216 * unat (b ! (4 * i + 3))"

text \<open>The header of \<open>boot\<close> and \<open>setup\<close>.\<close>

definition check_header :: "string \<Rightarrow> u8 list \<Rightarrow> die option" where
  "check_header name file =
     (let buf = take MINIX_HEADER file in
      if length buf \<noteq> MINIX_HEADER then Some (Unable_to_read_header name)
      else if long_of buf 0 \<noteq> 0x04100301 then Some (Non_Minix_header name)
      else if long_of buf 1 \<noteq> MINIX_HEADER then Some (Non_Minix_header name)
      else if long_of buf 3 \<noteq> 0 then Some (Illegal_data name)
      else if long_of buf 4 \<noteq> 0 then Some (Illegal_bss name)
      else if long_of buf 5 \<noteq> 0 then Some (Non_Minix_header name)
      else if long_of buf 7 \<noteq> 0 then Some (Illegal_symbols name)
      else None)"

text \<open>The loop that copies the rest of a file through \<open>buf\<close>; \<open>i\<close> counts the bytes.\<close>

function copy_file :: "nat \<Rightarrow> u8 list \<Rightarrow> nat \<Rightarrow> image \<Rightarrow> (die \<times> image) + (nat \<times> image)" where
  "copy_file room rest i out =
     (if rest = [] then Inr (i, out)
      else sbind (write1 room (take BUF rest) out) (copy_file room (drop BUF rest) (i + length (take BUF rest))))"
  by pat_completeness auto
termination by (relation "measure (\<lambda>(room, rest, i, out). length rest)") (auto simp: BUF_def)

declare copy_file.simps [simp del]

text \<open>The loop that fills setup up to four sectors.\<close>

function pad_setup :: "nat \<Rightarrow> nat \<Rightarrow> image \<Rightarrow> (die \<times> image) + image" where
  "pad_setup room i out =
     (if i < SETUP_SECTS * 512
      then (let c = SETUP_SECTS * 512 - i; c = (if c > BUF then BUF else c)
            in sbind (write1 room (replicate c 0) out) (pad_setup room (i + c)))
      else Inr out)"
  by pat_completeness auto
termination by (relation "measure (\<lambda>(room, i, out). SETUP_SECTS * 512 - i)") (auto simp: BUF_def Let_def)

declare pad_setup.simps [simp del]

section \<open>main\<close>

text \<open>The root device, as \<open>char\<close>s.\<close>

definition root_device :: "(string \<Rightarrow> u32 option) \<Rightarrow> string option \<Rightarrow> die + (u8 \<times> u8)" where
  "root_device stat arg =
     (case (case arg of
          None \<Rightarrow> Inr (DEFAULT_MAJOR_ROOT, DEFAULT_MINOR_ROOT)
        | Some d \<Rightarrow>
            if d = ''FLOPPY'' then Inr (0, 0)
            else (case stat d of None \<Rightarrow> Inl Couldnt_stat | Some rdev \<Rightarrow> Inr (ucast (drop_bit 8 rdev), ucast rdev))) of
        Inl e \<Rightarrow> Inl e
      | Inr (major_root, minor_root) \<Rightarrow>
          if major_root \<noteq> 2 \<and> major_root \<noteq> 3 \<and> major_root \<noteq> 0 then Inl Bad_major else Inr (major_root, minor_root))"

definition build_boot :: "nat \<Rightarrow> u8 \<times> u8 \<Rightarrow> u8 list option \<Rightarrow> (die \<times> image) + image" where
  "build_boot room dev boot =
     (case boot of
        None \<Rightarrow> Inl (Unable_to_open ''boot'', [])
      | Some file \<Rightarrow>
          (case check_header ''boot'' file of
             Some e \<Rightarrow> Inl (e, [])
           | None \<Rightarrow>
               let buf = take BUF (drop MINIX_HEADER file) in
               if length buf \<noteq> 512 then Inl (Boot_not_512, [])
               else if buf ! 510 \<noteq> 0x55 \<or> buf ! 511 \<noteq> 0xaa then Inl (No_boot_flag, [])
               else write1 room (buf[508 := snd dev, 509 := fst dev]) []))"

definition build_setup :: "nat \<Rightarrow> u8 list option \<Rightarrow> image \<Rightarrow> (die \<times> image) + image" where
  "build_setup room setup out =
     (case setup of
        None \<Rightarrow> Inl (Unable_to_open ''setup'', out)
      | Some file \<Rightarrow>
          (case check_header ''setup'' file of
             Some e \<Rightarrow> Inl (e, out)
           | None \<Rightarrow>
               sbind (copy_file room (drop MINIX_HEADER file) 0 out)
                 (\<lambda>(i, out). if i > SETUP_SECTS * 512 then Inl (Setup_too_big, out) else pad_setup room i out)))"

text \<open>\<open>system\<close> is \<open>None\<close> for the argument \<open>none\<close>, otherwise the result of opening it.\<close>

definition build_system :: "nat \<Rightarrow> u8 list option option \<Rightarrow> image \<Rightarrow> (die \<times> image) + image" where
  "build_system room system out =
     (case system of
        None \<Rightarrow> Inr out
      | Some None \<Rightarrow> Inl (Unable_to_open ''system'', out)
      | Some (Some file) \<Rightarrow>
          sbind (copy_file room file 0 out) (\<lambda>(i, out). if i > SYS_SIZE * 16 then Inl (System_too_big, out) else Inr out))"

text \<open>\<open>main\<close> for the arguments behind the name of the program; \<open>files\<close> opens a file.\<close>

definition build :: "(string \<Rightarrow> u32 option) \<Rightarrow> (string \<Rightarrow> u8 list option) \<Rightarrow> nat \<Rightarrow> string list \<Rightarrow> (die \<times> image) + image" where
  "build stat files room argv =
     (if length argv \<noteq> 3 \<and> length argv \<noteq> 4 then Inl (Usage, [])
      else case root_device stat (if length argv = 4 then Some (argv ! 3) else None) of
        Inl e \<Rightarrow> Inl (e, [])
      | Inr dev \<Rightarrow>
          sbind (build_boot room dev (files (argv ! 0)))
            (\<lambda>out. sbind (build_setup room (files (argv ! 1)) out)
              (build_system room (if argv ! 2 = ''none'' then None else Some (files (argv ! 2))))))"

section \<open>What the loops write\<close>

lemma write1_append:
  "length out \<le> room \<Longrightarrow> sbind (write1 room as out) (write1 room bs) = write1 room (as @ bs) out"
  by (auto simp: write1_def)

text \<open>Copying by pieces of 1024 bytes writes what one \<open>write\<close> of the rest would, also when it fails.\<close>

lemma copy_file_writes:
  "length out \<le> room \<Longrightarrow> copy_file room rest i out = sbind (write1 room rest out) (\<lambda>out. Inr (i + length rest, out))"
proof (induction room rest i out rule: copy_file.induct)
  case (1 room rest i out)
  show ?case
  proof (cases "rest = []")
    case True
    with 1 show ?thesis by (simp add: copy_file.simps [of room "[]"] write1_def)
  next
    case False
    let ?a = "take BUF rest" and ?b = "drop BUF rest"
    show ?thesis
    proof (cases "length out + length ?a \<le> room")
      case True
      then have w: "write1 room ?a out = Inr (out @ ?a)" by (simp add: write1_def)
      have "copy_file room rest i out = copy_file room ?b (i + length ?a) (out @ ?a)"
        using False w by (simp add: copy_file.simps [of room rest])
      also have "\<dots> = sbind (write1 room ?b (out @ ?a)) (\<lambda>out. Inr (i + length ?a + length ?b, out))"
        using 1 False True by simp
      also have "write1 room ?b (out @ ?a) = write1 room rest out"
        using write1_append [OF "1.prems", of ?a ?b] w by simp
      also have "i + length ?a + length ?b = i + length rest" by simp
      finally show ?thesis .
    next
      case w: False
      then have "write1 room rest out = Inl (Write_failed, out @ take (room - length out) rest)"
        "write1 room ?a out = Inl (Write_failed, out @ take (room - length out) rest)"
        by (auto simp: write1_def min_def split: if_splits)
      with False show ?thesis by (simp add: copy_file.simps [of room rest])
    qed
  qed
qed

lemma pad_setup_writes:
  "length out \<le> room \<Longrightarrow> pad_setup room i out = write1 room (replicate (2048 - i) 0) out"
proof (induction room i out rule: pad_setup.induct)
  case (1 room i out)
  show ?case
  proof (cases "i < 2048")
    case False
    with 1 show ?thesis by (simp add: pad_setup.simps [of room i] SETUP_SECTS_def write1_def)
  next
    case True
    define c where "c = (if 2048 - i > 1024 then 1024 else 2048 - i)"
    have step: "pad_setup room i out = sbind (write1 room (replicate c 0) out) (pad_setup room (i + c))"
      using True by (simp add: pad_setup.simps [of room i] SETUP_SECTS_def BUF_def Let_def c_def)
    have r: "replicate (2048 - i) (0 :: u8) = replicate c 0 @ replicate (2048 - (i + c)) 0"
      using True by (simp add: c_def flip: replicate_add)
    show ?thesis
    proof (cases "length out + c \<le> room")
      case w: True
      have "pad_setup room (i + c) (out @ replicate c 0) = write1 room (replicate (2048 - (i + c)) 0) (out @ replicate c 0)"
        by (rule "1.IH" [of "2048 - i"]) (use True w in \<open>simp_all add: SETUP_SECTS_def BUF_def c_def\<close>)
      moreover have "write1 room (replicate c 0) out = Inr (out @ replicate c 0)" using w by (simp add: write1_def)
      ultimately show ?thesis unfolding step r write1_append [OF "1.prems", symmetric] by simp
    next
      case w: False
      then have "write1 room (replicate c 0) out = Inl (Write_failed, out @ take (room - length out) (replicate c 0))"
        by (simp add: write1_def)
      then show ?thesis unfolding step r write1_append [OF "1.prems", symmetric] by simp
    qed
  qed
qed

section \<open>The image\<close>

text \<open>The layout the boot sector relies on: one sector with the root device and the boot flag, four sectors of setup, the system.\<close>

definition disk_image :: "u8 \<times> u8 \<Rightarrow> u8 list \<Rightarrow> u8 list \<Rightarrow> u8 list \<Rightarrow> u8 list" where
  "disk_image dev boot setup system =
     take 508 boot @ [snd dev, fst dev, 0x55, 0xaa] @ setup @ replicate (2048 - length setup) 0 @ system"

lemma boot_block_bytes:
  assumes "length buf = 512" "buf ! 510 = 0x55" "buf ! 511 = 0xaa"
  shows "(buf :: u8 list)[508 := b, 509 := a] = take 508 buf @ [b, a, 0x55, 0xaa]"
proof (rule nth_equalityI)
  fix i assume "i < length (buf[508 := b, 509 := a])"
  then have "i < 508 \<or> i = 508 \<or> i = 509 \<or> i = 510 \<or> i = 511" using assms(1) by (simp, arith)
  then show "buf[508 := b, 509 := a] ! i = (take 508 buf @ [b, a, 0x55, 0xaa]) ! i"
    using assms by (elim disjE) (simp_all add: nth_append)
qed (simp add: assms(1))

lemma build_boot_Inr:
  "build_boot room dev boot = Inr out \<longleftrightarrow>
     (\<exists>file. boot = Some file \<and> check_header ''boot'' file = None \<and> length file = 544 \<and> file ! 542 = 0x55 \<and> file ! 543 = 0xaa \<and> 512 \<le> room \<and>
       out = take 508 (drop 32 file) @ [snd dev, fst dev, 0x55, 0xaa])"
proof (cases boot)
  case (Some f)
  have len: "min (length f - MINIX_HEADER) BUF = 512 \<longleftrightarrow> length f = 544" by (auto simp: BUF_def MINIX_HEADER_def min_def)
  show ?thesis
  proof (cases "length f = 544")
    case True
    let ?buf = "drop 32 f"
    have t: "take BUF (drop MINIX_HEADER f) = ?buf" "length ?buf = 512" "?buf ! 510 = f ! 542" "?buf ! 511 = f ! 543"
      using True by (simp_all add: BUF_def MINIX_HEADER_def)
    have b: "?buf[508 := snd dev, 509 := fst dev] = take 508 ?buf @ [snd dev, fst dev, 0x55, 0xaa]"
      if "f ! 542 = 0x55" "f ! 543 = 0xaa"
      using that t by (intro boot_block_bytes) simp_all
    show ?thesis
      unfolding build_boot_def Some option.case Let_def t(1) using True t(2-4) b
      by (auto simp: write1_def split: option.split)
  qed (simp add: Some build_boot_def len Let_def split: option.split)
qed (simp add: build_boot_def)

lemma build_setup_Inr:
  assumes "length out \<le> room"
  shows "build_setup room setup out = Inr out' \<longleftrightarrow>
     (\<exists>file. setup = Some file \<and> check_header ''setup'' file = None \<and> length (drop 32 file) \<le> 2048 \<and> length out + 2048 \<le> room \<and>
       out' = out @ drop 32 file @ replicate (2048 - length (drop 32 file)) 0)"
proof (cases "setup")
  case (Some f)
  show ?thesis
  proof (cases "check_header ''setup'' f")
    case None
    let ?f = "drop 32 f"
    show ?thesis
      using assms None
      by (auto simp: Some build_setup_def copy_file_writes pad_setup_writes write1_def SETUP_SECTS_def MINIX_HEADER_def)
  qed (simp add: Some build_setup_def)
qed (simp add: build_setup_def)

lemma build_system_Inr:
  assumes "length out \<le> room"
  shows "build_system room system out = Inr out' \<longleftrightarrow>
     (\<exists>file. (case system of None \<Rightarrow> file = [] | Some f \<Rightarrow> f = Some file \<and> length file \<le> 196608) \<and> length out + length file \<le> room \<and> out' = out @ file)"
  using assms by (auto simp: build_system_def copy_file_writes write1_def SYS_SIZE_def split: option.split)

section \<open>Properties\<close>

text \<open>C25. \<open>build\<close> succeeds exactly when it is called with three or four names, the root device is allowed, \<open>boot\<close> and \<open>setup\<close> have a
  Minix header, the boot sector has 512 bytes with the flag, setup at most four sectors, the system (unless it is \<open>none\<close>) at most
  192 KB, and the output takes the whole image; and then it has written the sector with the root device in bytes 508 and 509, setup filled up with
  zeros to four sectors, and the system, nothing else.\<close>

theorem build_image:
  "build stat files room argv = Inr out \<longleftrightarrow>
     (\<exists>dev boot setup system.
        (length argv = 3 \<or> length argv = 4) \<and> root_device stat (if length argv = 4 then Some (argv ! 3) else None) = Inr dev \<and>
        files (argv ! 0) = Some boot \<and> check_header ''boot'' boot = None \<and> length boot = 544 \<and> boot ! 542 = 0x55 \<and> boot ! 543 = 0xaa \<and>
        files (argv ! 1) = Some setup \<and> check_header ''setup'' setup = None \<and> length (drop 32 setup) \<le> 2048 \<and>
        (if argv ! 2 = ''none'' then system = [] else files (argv ! 2) = Some system \<and> length system \<le> 196608) \<and>
        out = disk_image dev (drop 32 boot) (drop 32 setup) system \<and> length out \<le> room)"
  (is "?l \<longleftrightarrow> ?r")
proof
  let ?dev = "root_device stat (if length argv = 4 then Some (argv ! 3) else None)"
  let ?sys = "if argv ! 2 = ''none'' then None else Some (files (argv ! 2))"
  {
    assume ?l
    then obtain dev o1 o2 where b: "length argv = 3 \<or> length argv = 4" "?dev = Inr dev" "build_boot room dev (files (argv ! 0)) = Inr o1"
      "build_setup room (files (argv ! 1)) o1 = Inr o2" "build_system room ?sys o2 = Inr out"
      by (auto simp: build_def sbind_Inr_iff split: sum.splits if_splits)
    from b(3) have l1: "length o1 \<le> room" by (auto simp: build_boot_Inr)
    from b(4) have l2: "length o2 \<le> room" by (auto simp: build_setup_Inr [OF l1])
    show ?r using b by (auto simp: build_boot_Inr build_setup_Inr [OF l1] build_system_Inr [OF l2] disk_image_def split: if_splits)
  next
    assume ?r
    then obtain dev bf sf sys where r: "length argv = 3 \<or> length argv = 4" "?dev = Inr dev"
      "files (argv ! 0) = Some bf" "check_header ''boot'' bf = None" "length bf = 544" "bf ! 542 = 0x55" "bf ! 543 = 0xaa"
      "files (argv ! 1) = Some sf" "check_header ''setup'' sf = None" "length (drop 32 sf) \<le> 2048"
      "if argv ! 2 = ''none'' then sys = [] else files (argv ! 2) = Some sys \<and> length sys \<le> 196608"
      "out = disk_image dev (drop 32 bf) (drop 32 sf) sys" "length out \<le> room" by blast
    let ?o1 = "take 508 (drop 32 bf) @ [snd dev, fst dev, 0x55, 0xaa]"
    let ?o2 = "?o1 @ drop 32 sf @ replicate (2048 - length (drop 32 sf)) 0"
    have out: "out = ?o2 @ sys" "length ?o1 = 512" "length ?o2 = 2560" using r by (simp_all add: disk_image_def)
    then have l: "length ?o1 \<le> room" "length ?o2 \<le> room" "512 + 2048 \<le> room" "length ?o2 + length sys \<le> room"
      using r(13) by simp_all
    have "build_boot room dev (files (argv ! 0)) = Inr ?o1" using r l by (simp add: build_boot_Inr)
    moreover have "build_setup room (files (argv ! 1)) ?o1 = Inr ?o2" using r l out(2) by (simp add: build_setup_Inr [OF l(1)])
    moreover have "build_system room ?sys ?o2 = Inr out"
      unfolding build_system_Inr [OF l(2)] using r(11) l(4) out(1) by auto
    ultimately show ?l using r(1,2) by (auto simp: build_def)
  }
qed

text \<open>An image without a system: a boot sector of zeros, a setup of three bytes.\<close>

definition minix_header :: "u8 list" where "minix_header = [0x01, 0x03, 0x10, 0x04, 32, 0, 0, 0] @ replicate 24 0"

definition disk_files :: "string \<Rightarrow> u8 list option" where
  "disk_files name =
     (if name = ''bootsect'' then Some (minix_header @ replicate 510 0 @ [0x55, 0xaa])
      else if name = ''setup'' then Some (minix_header @ [1, 2, 3]) else None)"

theorem build_image_witness:
  "build (\<lambda>_. None) disk_files 4096 [''bootsect'', ''setup'', ''none''] = Inr (disk_image (3, 1) (replicate 510 0 @ [0x55, 0xaa]) [1, 2, 3] [])"
proof -
  let ?b = "minix_header @ replicate 510 0 @ [0x55, 0xaa] :: u8 list" and ?s = "minix_header @ [1, 2, 3] :: u8 list"
  have h: "check_header name (minix_header @ f) = None" for name f
  proof -
    have "take MINIX_HEADER (minix_header @ f) = minix_header" by (simp add: minix_header_def MINIX_HEADER_def)
    moreover have "long_of minix_header 0 = 0x04100301" "long_of minix_header 1 = 32" "long_of minix_header 3 = 0"
      "long_of minix_header 4 = 0" "long_of minix_header 5 = 0" "long_of minix_header 7 = 0" "length minix_header = 32"
      by (simp_all add: minix_header_def long_of_def nth_append nth_Cons')
    ultimately show ?thesis by (simp add: check_header_def MINIX_HEADER_def Let_def)
  qed
  have d: "root_device (\<lambda>_. None) None = Inr (3, 1)" by (simp add: root_device_def DEFAULT_MAJOR_ROOT_def DEFAULT_MINOR_ROOT_def)
  have l: "length minix_header = 32" by (simp add: minix_header_def)
  have b: "length ?b = 544" "?b ! 542 = 0x55" "?b ! 543 = 0xaa" "drop 32 ?b = replicate 510 0 @ [0x55, 0xaa]" "drop 32 ?s = [1, 2, 3]"
    using l by (simp_all add: nth_append)
  show ?thesis
    by (rule build_image [THEN iffD2], intro exI [of _ "(3, 1)"] exI [of _ ?b] exI [of _ ?s] exI [of _ "[]"])
      (use h d b in \<open>simp add: disk_files_def disk_image_def\<close>)
qed

end
