(* ===== verification/Statlog.thy ===== *)
theory Statlog imports Task begin

text \<open>
  \<open>stat_log.py\<close> of Lab 3, the program that reads the process log which \<open>fprintk(3, ...)\<close> of the kernel writes: it checks every
  line against what is known of the process, and computes times from the states. A line is the triple of its fields (the kernel's
  format always has three), an exception that ends the reading is a value of \<open>log_error\<close> with the number of the line. The averages and the printing are left out.
\<close>

definition P_NULL :: int where "P_NULL = 0"
definition P_NEW :: int where "P_NEW = 1"
definition P_READY :: int where "P_READY = 2"
definition P_RUNNING :: int where "P_RUNNING = 4"
definition P_WAITING :: int where "P_WAITING = 8"
definition P_EXIT :: int where "P_EXIT = 16"

lemmas P_defs = P_NULL_def P_NEW_def P_READY_def P_RUNNING_def P_WAITING_def P_EXIT_def

datatype log_error =
  DuplicateNew int | UnknownState char | BadTime int | TaskHasExited int | RepeatState int | SameLine | NoNew int char

section \<open>Processes\<close>

text \<open>The classes \<open>process\<close> and \<open>process_pool\<close>. An object of the pool is the first with its number.\<close>

record process =
  p_pid :: int
  p_states :: "(int \<times> int) list"

type_synonym process_pool = "process list"

definition get_process :: "process_pool \<Rightarrow> int \<Rightarrow> process option" where "get_process pool n = find (\<lambda>p. p_pid p = n) pool"

fun put_process :: "process_pool \<Rightarrow> process \<Rightarrow> process_pool" where
  "put_process [] q = []"
| "put_process (p # pool) q = (if p_pid p = p_pid q then q # pool else p # put_process pool q)"

definition new_process :: "int \<Rightarrow> int \<Rightarrow> process_pool \<Rightarrow> log_error + process_pool" where
  "new_process n time pool =
     (case get_process pool n of
        Some p \<Rightarrow> if n \<noteq> 0 then Inl (DuplicateNew n) else Inr (put_process pool (p\<lparr>p_states := [(P_NEW, time)]\<rparr>))
      | None \<Rightarrow> Inr (pool @ [\<lparr>p_pid = n, p_states = [(P_NEW, time)]\<rparr>]))"

definition change_state :: "int \<Rightarrow> int \<Rightarrow> process \<Rightarrow> log_error + process" where
  "change_state st time p =
     (let (last_state, last_time) = last (p_states p) in
      if st = P_NEW then Inl (DuplicateNew (p_pid p))
      else if time < last_time then Inl (BadTime time)
      else if last_state = P_EXIT then Inl (TaskHasExited st)
      else if last_state = st \<and> p_pid p \<noteq> 0 then Inl (RepeatState (p_pid p))
      else Inr (p\<lparr>p_states := p_states p @ [(st, time)]\<rparr>))"

section \<open>Reading the log\<close>

definition upper :: "char \<Rightarrow> char" where
  "upper c = (if 97 \<le> (of_char c :: nat) \<and> (of_char c :: nat) \<le> 122 then char_of (of_char c - 32 :: nat) else c)"

definition state_named :: "char \<Rightarrow> int" where
  "state_named s =
     (if s = CHR ''J'' then P_READY else if s = CHR ''R'' then P_RUNNING
      else if s = CHR ''W'' then P_WAITING else if s = CHR ''E'' then P_EXIT else P_NULL)"

text \<open>The variables of the loop: \<open>processes\<close>, \<open>prev_time\<close> and \<open>prev_line\<close>.\<close>

type_synonym log_state = "process_pool \<times> int \<times> log_line option"

definition read_line :: "log_line \<Rightarrow> log_state \<Rightarrow> log_error + log_state" where
  "read_line l s =
     (let (pool, prev_time, prev_line) = s; (n, c, time) = l in
      if prev_line = Some l then Inl SameLine
      else if time < prev_time then Inl (BadTime time)
      else let p = get_process pool n; s = upper c in
      if s = CHR ''N'' then sbind (new_process n time pool) (\<lambda>pool. Inr (pool, time, Some l))
      else if state_named s = P_NULL then Inl (UnknownState s)
      else case p of
        None \<Rightarrow> Inl (NoNew n s)
      | Some p \<Rightarrow> sbind (change_state (state_named s) time p) (\<lambda>p. Inr (put_process pool p, time, Some l)))"

fun read_log :: "nat \<Rightarrow> log_line list \<Rightarrow> log_state \<Rightarrow> (nat \<times> log_error) + log_state" where
  "read_log lineno [] s = Inr s"
| "read_log lineno (l # ls) s =
     (case read_line l s of Inl e \<Rightarrow> Inl (lineno + 1, e) | Inr s \<Rightarrow> read_log (lineno + 1) ls s)"

text \<open>Process 0 is there from the start, and runs.\<close>

definition log_start :: log_state where
  "log_start = ([\<lparr>p_pid = 0, p_states = [(P_NEW, 40), (P_RUNNING, 40)]\<rparr>], 0, None)"

definition stat_log :: "log_line list \<Rightarrow> (nat \<times> log_error) + process_pool" where
  "stat_log ls = (case read_log 0 ls log_start of Inl e \<Rightarrow> Inl e | Inr (pool, t, l) \<Rightarrow> Inr pool)"

section \<open>Times\<close>

definition turnaround_time :: "process \<Rightarrow> int" where
  "turnaround_time p = snd (last (p_states p)) - snd (hd (p_states p))"

text \<open>The loop of \<open>state_last_time\<close>; \<open>None\<close> is a failed assertion.\<close>

fun last_time_loop :: "int \<Rightarrow> (int \<times> int) list \<Rightarrow> int \<Rightarrow> int \<Rightarrow> int option" where
  "last_time_loop st [] time state_begin = Some time"
| "last_time_loop st ((s, t) # l) time state_begin =
     (if s = st then last_time_loop st l time t
      else if state_begin \<noteq> 0 then (if state_begin \<le> t then last_time_loop st l (time + (t - state_begin)) 0 else None)
      else last_time_loop st l time state_begin)"

definition state_last_time :: "int \<Rightarrow> process \<Rightarrow> int option" where "state_last_time st p = last_time_loop st (p_states p) 0 0"

definition waiting_time :: "process \<Rightarrow> int option" where "waiting_time = state_last_time P_READY"
definition cpu_time :: "process \<Rightarrow> int option" where "cpu_time = state_last_time P_RUNNING"
definition io_time :: "process \<Rightarrow> int option" where "io_time = state_last_time P_WAITING"

section \<open>What is known of a process\<close>

text \<open>The last state in the pool with its time. A line changes it for one process.\<close>

definition last_of :: "process_pool \<Rightarrow> int \<Rightarrow> (int \<times> int) option" where
  "last_of pool n = map_option (\<lambda>p. last (p_states p)) (get_process pool n)"

lemma get_process_simps [simp]:
  "get_process [] n = None" "get_process (p # pool) n = (if p_pid p = n then Some p else get_process pool n)"
  by (simp_all add: get_process_def)

lemma get_process_pid: "get_process pool n = Some p \<Longrightarrow> p_pid p = n"
  by (induction pool) (auto split: if_splits)

lemma get_process_append: "get_process (pool @ pool') n = (case get_process pool n of None \<Rightarrow> get_process pool' n | Some p \<Rightarrow> Some p)"
  by (induction pool) auto

lemma get_put_process:
  "get_process (put_process pool q) n = (if n = p_pid q \<and> get_process pool n \<noteq> None then Some q else get_process pool n)"
  by (induction pool) auto

lemma upper_simps [simp]:
  "upper CHR ''N'' = CHR ''N''" "upper CHR ''J'' = CHR ''J''" "upper CHR ''R'' = CHR ''R''" "upper CHR ''W'' = CHR ''W''"
  "upper CHR ''E'' = CHR ''E''"
  by (simp_all add: upper_def)

definition log_char :: "char \<Rightarrow> bool" where "log_char c \<longleftrightarrow> c \<in> {CHR ''J'', CHR ''R'', CHR ''W'', CHR ''E''}"

lemma log_char_simps [simp]:
  "log_char CHR ''J''" "log_char CHR ''R''" "log_char CHR ''W''" "log_char CHR ''E''" "\<not> log_char CHR ''N''"
  "state_named CHR ''J'' = P_READY" "state_named CHR ''R'' = P_RUNNING" "state_named CHR ''W'' = P_WAITING"
  "state_named CHR ''E'' = P_EXIT"
  by (simp_all add: log_char_def state_named_def)

lemma log_char_state: "log_char c \<Longrightarrow> upper c = c \<and> c \<noteq> CHR ''N'' \<and> state_named c \<noteq> P_NULL \<and> state_named c \<noteq> P_NEW"
  by (auto simp: log_char_def P_defs)

lemma read_line_change:
  assumes "log_char c" "last_of pool n = Some (st, t0)" "t0 \<le> time" "pt \<le> time" "st \<noteq> P_EXIT" "st \<noteq> state_named c \<or> n = 0"
    and "prev \<noteq> Some (n, c, time)"
  obtains pool' where "read_line (n, c, time) (pool, pt, prev) = Inr (pool', time, Some (n, c, time))"
    "last_of pool' = (last_of pool)(n := Some (state_named c, time))"
proof -
  obtain p where p: "get_process pool n = Some p" "last (p_states p) = (st, t0)" using assms(2) by (auto simp: last_of_def)
  let ?p = "p\<lparr>p_states := p_states p @ [(state_named c, time)]\<rparr>"
  have n: "p_pid p = n" using get_process_pid [OF p(1)] .
  have c: "change_state (state_named c) time p = Inr ?p"
    using assms log_char_state [OF assms(1)] p(2) n by (auto simp: change_state_def)
  have "last_of (put_process pool ?p) = (last_of pool)(n := Some (state_named c, time))"
    using p(1) n by (auto simp: last_of_def get_put_process fun_eq_iff)
  with c show thesis
    using assms log_char_state [OF assms(1)] p(1) by (intro that [of "put_process pool ?p"]) (auto simp: read_line_def)
qed

lemma read_line_repeat:
  assumes "log_char c" "last_of pool n = Some (state_named c, t0)" "n \<noteq> 0" "t0 \<le> time" "pt \<le> time" "c \<noteq> CHR ''E''"
  shows "read_line (n, c, time) (pool, pt, prev) = Inl (if prev = Some (n, c, time) then SameLine else RepeatState n)"
proof -
  obtain p where p: "get_process pool n = Some p" "last (p_states p) = (state_named c, t0)" using assms(2) by (auto simp: last_of_def)
  have n: "p_pid p = n" using get_process_pid [OF p(1)] .
  have "state_named c \<noteq> P_EXIT" using assms(1,6) by (auto simp: log_char_def P_defs)
  then have "change_state (state_named c) time p = Inl (RepeatState n)"
    using assms log_char_state [OF assms(1)] p(2) n by (auto simp: change_state_def)
  then show ?thesis using assms log_char_state [OF assms(1)] p(1) by (auto simp: read_line_def)
qed

lemma read_line_new:
  assumes "last_of pool n = None" "pt \<le> time" "prev \<noteq> Some (n, CHR ''N'', time)"
  obtains pool' where "read_line (n, CHR ''N'', time) (pool, pt, prev) = Inr (pool', time, Some (n, CHR ''N'', time))"
    "last_of pool' = (last_of pool)(n := Some (P_NEW, time))"
proof -
  have g: "get_process pool n = None" using assms(1) by (simp add: last_of_def)
  let ?p = "pool @ [\<lparr>p_pid = n, p_states = [(P_NEW, time)]\<rparr>]"
  have "last_of ?p = (last_of pool)(n := Some (P_NEW, time))"
    using g by (auto simp: last_of_def get_process_append fun_eq_iff split: option.split)
  with g show thesis using assms by (intro that [of ?p]) (auto simp: read_line_def new_process_def)
qed

lemma read_log_append:
  "read_log i (ls @ ls') s = (case read_log i ls s of Inl e \<Rightarrow> Inl e | Inr s \<Rightarrow> read_log (i + length ls) ls' s)"
  by (induction ls arbitrary: i s) (auto split: sum.split)

section \<open>The history of a process\<close>

text \<open>What may follow after the state \<open>s\<close> entered at time \<open>t\<close>, and how long the process was in state \<open>st\<close>.\<close>

definition follows :: "int \<times> int \<Rightarrow> int \<times> int \<Rightarrow> bool" where
  "follows a b \<longleftrightarrow> fst a \<noteq> P_EXIT \<and> fst b \<noteq> fst a \<and> fst b \<in> {P_READY, P_RUNNING, P_WAITING, P_EXIT} \<and> snd a \<le> snd b"

fun history :: "int \<times> int \<Rightarrow> (int \<times> int) list \<Rightarrow> bool" where
  "history a [] = True"
| "history a (b # l) = (follows a b \<and> history b l)"

fun spent :: "int \<Rightarrow> int \<times> int \<Rightarrow> (int \<times> int) list \<Rightarrow> int" where
  "spent st a [] = 0"
| "spent st a (b # l) = (if fst a = st then snd b - snd a else 0) + spent st b l"

lemma history_append: "history a (l @ [b]) \<longleftrightarrow> history a l \<and> follows (last (a # l)) b"
  by (induction l arbitrary: a) auto

lemma last_time_loop_spent:
  "history a l \<Longrightarrow> 0 < snd a \<Longrightarrow> last_time_loop st l time (if fst a = st then snd a else 0) = Some (time + spent st a l)"
proof (induction l arbitrary: a time)
  case (Cons b l)
  then have f: "fst b \<noteq> fst a" "snd a \<le> snd b" "0 < snd b" "history b l" by (auto simp: follows_def)
  obtain s t where b: "b = (s, t)" by (cases b)
  from Cons.IH [OF f(4,3), of time] Cons.IH [OF f(4,3), of "time + (t - snd a)"] f Cons.prems(2) show ?case by (auto simp: b)
qed simp

lemma spent_all:
  "history a l \<Longrightarrow> fst a \<in> {P_NEW, P_READY, P_RUNNING, P_WAITING, P_EXIT} \<Longrightarrow>
     snd (last (a # l)) - snd a = spent P_NEW a l + spent P_READY a l + spent P_RUNNING a l + spent P_WAITING a l"
proof (induction l arbitrary: a)
  case (Cons b l)
  then have "fst b \<in> {P_NEW, P_READY, P_RUNNING, P_WAITING, P_EXIT}" "fst a \<noteq> P_EXIT" by (auto simp: follows_def)
  with Cons.IH [of b] Cons.prems show ?case by (auto simp: P_defs)
qed simp

lemma spent_new: "history a l \<Longrightarrow> fst a \<noteq> P_NEW \<Longrightarrow> spent P_NEW a l = 0"
  by (induction l arbitrary: a) (auto simp: follows_def P_defs)

definition process_ok :: "process \<Rightarrow> bool" where
  "process_ok p \<longleftrightarrow> (\<exists>t l. p_states p = (P_NEW, t) # l \<and> history (P_NEW, t) l)"

lemma change_state_ok:
  assumes "change_state st time p = Inr p'" "process_ok p" "p_pid p \<noteq> 0" "st \<in> {P_READY, P_RUNNING, P_WAITING, P_EXIT}"
  shows "process_ok p'" "p_pid p' = p_pid p"
proof -
  obtain s t where l: "last (p_states p) = (s, t)" by (cases "last (p_states p)")
  have c: "p' = p\<lparr>p_states := p_states p @ [(st, time)]\<rparr>" "t \<le> time" "s \<noteq> P_EXIT" "s \<noteq> st"
    using assms(1,3) by (auto simp: change_state_def l split: if_splits)
  then show "p_pid p' = p_pid p" by simp
  show "process_ok p'" using assms(2,4) l c by (auto simp: process_ok_def history_append follows_def)
qed

lemma set_put_process: "set (put_process pool q) \<subseteq> insert q (set pool)"
  by (induction pool) auto

lemma state_named_cases: "state_named c = P_NULL \<or> state_named c \<in> {P_READY, P_RUNNING, P_WAITING, P_EXIT}"
  by (simp add: state_named_def)

lemma get_process_in: "get_process pool n = Some p \<Longrightarrow> p \<in> set pool"
  by (induction pool) (auto split: if_splits)

lemma read_line_ok:
  assumes "read_line l (pool, t, prev) = Inr (pool', t', prev')" "\<forall>p \<in> set pool. p_pid p \<noteq> 0 \<longrightarrow> process_ok p"
  shows "\<forall>p \<in> set pool'. p_pid p \<noteq> 0 \<longrightarrow> process_ok p"
proof -
  obtain n c time where l: "l = (n, c, time)" by (cases l)
  show ?thesis
  proof (cases "upper c = CHR ''N''")
    case True
    then have "new_process n time pool = Inr pool'"
      using assms(1) by (auto simp: read_line_def l sbind_Inr_iff split: if_splits)
    then have "set pool' \<subseteq> insert \<lparr>p_pid = n, p_states = [(P_NEW, time)]\<rparr> (set pool) \<or> n = 0 \<and> (\<exists>q. p_pid q = 0 \<and> set pool' \<subseteq> insert q (set pool))"
      using set_put_process get_process_pid by (fastforce simp: new_process_def split: option.splits if_splits)
    moreover have "process_ok \<lparr>p_pid = n, p_states = [(P_NEW, time)]\<rparr>" by (simp add: process_ok_def)
    ultimately show ?thesis using assms(2) by blast
  next
    case False
    then obtain p p' where p: "get_process pool n = Some p" "change_state (state_named (upper c)) time p = Inr p'" "pool' = put_process pool p'"
      "state_named (upper c) \<noteq> P_NULL"
      using assms(1) by (auto simp: read_line_def l sbind_Inr_iff Let_def split: if_splits option.splits)
    have "p_pid p' \<noteq> 0 \<Longrightarrow> process_ok p'"
    proof -
      assume n: "p_pid p' \<noteq> 0"
      have "p_pid p' = p_pid p" using p(2) by (auto simp: change_state_def split: prod.splits if_splits)
      moreover have "p \<in> set pool" by (rule get_process_in [OF p(1)])
      ultimately show "process_ok p'"
        using change_state_ok(1) [OF p(2)] state_named_cases [of "upper c"] p(4) assms(2) n by auto
    qed
    with set_put_process [of pool p'] assms(2) p(3) show ?thesis by auto
  qed
qed

lemma read_log_ok:
  "read_log i ls (pool, t, prev) = Inr (pool', t', prev') \<Longrightarrow> \<forall>p \<in> set pool. p_pid p \<noteq> 0 \<longrightarrow> process_ok p \<Longrightarrow>
     \<forall>p \<in> set pool'. p_pid p \<noteq> 0 \<longrightarrow> process_ok p"
proof (induction ls arbitrary: i pool t prev)
  case (Cons l ls)
  then obtain pool1 t1 prev1 where 1: "read_line l (pool, t, prev) = Inr (pool1, t1, prev1)"
    "read_log (i + 1) ls (pool1, t1, prev1) = Inr (pool', t', prev')" by (auto split: sum.splits)
  from Cons.IH [OF 1(2) read_line_ok [OF 1(1) Cons.prems(2)]] show ?case .
qed simp

section \<open>Properties\<close>


definition log7 :: "log_line list" where
  "log7 = [(7, CHR ''N'', 50), (7, CHR ''J'', 55), (7, CHR ''R'', 60), (7, CHR ''W'', 65), (7, CHR ''J'', 75), (7, CHR ''R'', 78), (7, CHR ''E'', 80)]"

definition process7 :: process where
  "process7 = \<lparr>p_pid = 7, p_states = [(P_NEW, 50), (P_READY, 55), (P_RUNNING, 60), (P_WAITING, 65), (P_READY, 75), (P_RUNNING, 78), (P_EXIT, 80)]\<rparr>"


end
