(* ===== verification/Logprops.thy ===== *)
theory Logprops imports Statlog Exit begin

text \<open>
  The process log of Lab 3: what the kernel writes is what \<open>stat_log.py\<close> accepts, and the last state it records for a process is the one
  the process is in, as long as no task goes to sleep with a signal already pending. Otherwise the log is rejected.
\<close>

unbundle bit_operations_syntax

section \<open>The log of a kernel\<close>

text \<open>The state a task should have in the log; \<open>x\<close> is that of the current task while it runs.\<close>

definition task_log_state :: "int \<Rightarrow> kern \<Rightarrow> u32 \<Rightarrow> int" where
  "task_log_state x k p =
     (case state (ts k p) of TASK_RUNNING \<Rightarrow> if p = current k then x else P_READY | TASK_ZOMBIE \<Rightarrow> P_EXIT | _ \<Rightarrow> P_WAITING)"

definition log_view :: "kern \<Rightarrow> (int \<Rightarrow> (int \<times> int) option) \<Rightarrow> log_line option \<Rightarrow> bool" where
  "log_view k L prev \<longleftrightarrow>
     (\<exists>pool pt. read_log 0 (process_log k) log_start = Inr (pool, pt, prev) \<and> last_of pool = L \<and> pt \<le> jiffies k \<and>
       (\<forall>n st t. L n = Some (st, t) \<longrightarrow> t \<le> jiffies k) \<and>
       (\<forall>n c t. prev = Some (n, c, t) \<longrightarrow> log_char c \<longrightarrow> L n = Some (state_named c, t)))"

lemma log_view_cong:
  assumes "log_view k L prev" "process_log k' = process_log k" "jiffies k \<le> jiffies k'" shows "log_view k' L prev"
proof -
  obtain pool pt where v: "read_log 0 (process_log k) log_start = Inr (pool, pt, prev)" "last_of pool = L" "pt \<le> jiffies k"
    "\<And>n st t. L n = Some (st, t) \<Longrightarrow> t \<le> jiffies k" "\<forall>n c t. prev = Some (n, c, t) \<longrightarrow> log_char c \<longrightarrow> L n = Some (state_named c, t)"
    using assms(1) unfolding log_view_def by blast
  from v(4) assms(3) have "\<forall>n st t. L n = Some (st, t) \<longrightarrow> t \<le> jiffies k'" by (meson order_trans)
  with v(1-3,5) assms(2,3) show ?thesis unfolding log_view_def by auto
qed

definition log_open :: "kern \<Rightarrow> bool" where "log_open k \<longleftrightarrow> filp (ts k (task k 0)) ! 3 \<noteq> 0"

lemma log_open_upd: "log_open k \<Longrightarrow> (\<And>t. filp (f t) = filp t) \<Longrightarrow> log_open (upd_ts p f k)"
  by (auto simp: log_open_def)

lemma fprintk_view:
  assumes v: "log_view k L prev" "log_open k" and c: "log_char c" "L n = Some (st, t0)" "st \<noteq> P_EXIT" "st \<noteq> state_named c \<or> n = 0"
    and prev: "n = 0 \<Longrightarrow> prev \<noteq> Some (0, c, jiffies k)"
  shows "log_view (fprintk n c k) (L(n := Some (state_named c, jiffies k))) (Some (n, c, jiffies k))"
proof -
  obtain pool pt where r: "read_log 0 (process_log k) log_start = Inr (pool, pt, prev)" "last_of pool = L" "pt \<le> jiffies k"
    "\<And>n st t. L n = Some (st, t) \<Longrightarrow> t \<le> jiffies k" "\<And>n c t. prev = Some (n, c, t) \<Longrightarrow> log_char c \<Longrightarrow> L n = Some (state_named c, t)"
    using v(1) unfolding log_view_def by blast
  have "prev \<noteq> Some (n, c, jiffies k)" using r(5) [of n c "jiffies k"] c prev by fastforce
  then obtain pool' where p: "read_line (n, c, jiffies k) (pool, pt, prev) = Inr (pool', jiffies k, Some (n, c, jiffies k))"
    "last_of pool' = (last_of pool)(n := Some (state_named c, jiffies k))"
    using read_line_change [OF c(1), of pool n st t0 "jiffies k" pt prev] r(2-4) c by metis
  have "process_log (fprintk n c k) = process_log k @ [(n, c, jiffies k)]" using v(2) by (simp add: fprintk_def log_open_def)
  with r p show ?thesis by (auto simp: log_view_def read_log_append)
qed

lemma fprintk_view_new:
  assumes v: "log_view k L prev" "log_open k" and c: "L n = None"
    and prev: "\<And>t. prev \<noteq> Some (n, CHR ''N'', t)"
  shows "log_view (fprintk n CHR ''N'' k) (L(n := Some (P_NEW, jiffies k))) (Some (n, CHR ''N'', jiffies k))"
proof -
  obtain pool pt where r: "read_log 0 (process_log k) log_start = Inr (pool, pt, prev)" "last_of pool = L" "pt \<le> jiffies k"
    "\<And>n st t. L n = Some (st, t) \<Longrightarrow> t \<le> jiffies k" "\<And>n c t. prev = Some (n, c, t) \<Longrightarrow> log_char c \<Longrightarrow> L n = Some (state_named c, t)"
    using v(1) unfolding log_view_def by blast
  obtain pool' where p: "read_line (n, CHR ''N'', jiffies k) (pool, pt, prev) = Inr (pool', jiffies k, Some (n, CHR ''N'', jiffies k))"
    "last_of pool' = (last_of pool)(n := Some (P_NEW, jiffies k))"
    using read_line_new [of pool n pt "jiffies k" prev] r(2,3) c prev by metis
  have "process_log (fprintk n CHR ''N'' k) = process_log k @ [(n, CHR ''N'', jiffies k)]" using v(2) by (simp add: fprintk_def log_open_def)
  with r p show ?thesis by (auto simp: log_view_def read_log_append)
qed

section \<open>A logged kernel\<close>

text \<open>The tasks of the slots 1 to 63 have numbers of their own, the idle task has 0.\<close>

definition tasks_ok :: "kern \<Rightarrow> bool" where
  "tasks_ok k \<longleftrightarrow> sched_wf k \<and> log_open k \<and> pid (ts k (task k 0)) = 0 \<and> (\<forall>p. in_slots 63 k p \<longrightarrow> pid (ts k p) \<noteq> 0) \<and>
     (\<forall>p q. in_slots 63 k p \<longrightarrow> in_slots 63 k q \<longrightarrow> pid (ts k p) = pid (ts k q) \<longrightarrow> p = q) \<and>
     (current k = task k 0 \<or> in_slots 63 k (current k))"

definition logged_as :: "int \<Rightarrow> kern \<Rightarrow> (int \<Rightarrow> (int \<times> int) option) \<Rightarrow> log_line option \<Rightarrow> bool" where
  "logged_as x k L prev \<longleftrightarrow> log_view k L prev \<and> (\<forall>p. in_slots 63 k p \<longrightarrow> (\<exists>t. L (pid (ts k p)) = Some (task_log_state x k p, t))) \<and>
     (\<exists>st t. L 0 = Some (st, t) \<and> st \<noteq> P_EXIT) \<and> (\<forall>c t. prev = Some (0, c, t) \<longrightarrow> c = CHR ''R'' \<and> current k = task k 0)"

definition logged :: "int \<Rightarrow> kern \<Rightarrow> bool" where
  "logged x k \<longleftrightarrow> tasks_ok k \<and> (\<exists>L prev. logged_as x k L prev)"

lemma not_idle: "tasks_ok k \<Longrightarrow> in_slots 63 k p \<Longrightarrow> p \<noteq> task k 0"
proof
  assume ok: "tasks_ok k" and p: "in_slots 63 k p" "p = task k 0"
  then obtain i where "i \<in> {1..63}" "task k i = task k 0" "task k i \<noteq> 0" by (auto simp: in_slots_def)
  moreover have "\<And>i j. task k i = task k j \<Longrightarrow> i < 64 \<Longrightarrow> j < 64 \<Longrightarrow> task k i \<noteq> 0 \<Longrightarrow> i = j"
    using ok by (simp add: tasks_ok_def sched_wf_def tasks_distinct_def)
  ultimately have "i = 0" by (metis atLeastAtMost_iff le_imp_less_Suc Suc_numeral semiring_norm(5) zero_less_numeral semiring_norm(2) semiring_norm(8))
  with \<open>i \<in> {1..63}\<close> show False by simp
qed

lemma in_slots_cong: "task k' = task k \<Longrightarrow> in_slots n k' p = in_slots n k p"
  by (simp add: in_slots_def)

lemma tasks_ok_cong:
  assumes "tasks_ok k" "task k' = task k" "current k' = current k" "sched_wf k'" "\<And>p. pid (ts k' p) = pid (ts k p) \<and> filp (ts k' p) = filp (ts k p)"
  shows "tasks_ok k'"
  using assms unfolding tasks_ok_def log_open_def by (simp add: in_slots_cong [OF assms(2)])

lemma logged_cong:
  assumes "logged x k" "task k' = task k" "current k' = current k" "sched_wf k'"
    and "\<And>p. pid (ts k' p) = pid (ts k p) \<and> filp (ts k' p) = filp (ts k p)"
    and "process_log k' = process_log k" "jiffies k \<le> jiffies k'" "\<And>p. in_slots 63 k p \<Longrightarrow> state (ts k' p) = state (ts k p)"
  shows "logged x k'"
proof -
  obtain L prev where l: "logged_as x k L prev" "tasks_ok k" using assms(1) by (auto simp: logged_def)
  have "tasks_ok k'" using tasks_ok_cong [OF l(2) assms(2-4)] assms(5) by simp
  moreover have "task_log_state x k' p = task_log_state x k p" if "in_slots 63 k p" for p using assms(8) [OF that] by (simp add: task_log_state_def assms(3))
  moreover have "logged_as x k' L prev"
    using l(1) log_view_cong [OF _ assms(6,7)] calculation(2) unfolding logged_as_def
    by (simp add: assms(2,3,5) in_slots_cong [OF assms(2)])
  ultimately show ?thesis by (auto simp: logged_def)
qed

lemma set_running_logged:
  assumes "logged x k" "in_slots 63 k p" "state (ts k p) \<in> {TASK_INTERRUPTIBLE, TASK_UNINTERRUPTIBLE}" "p = current k \<Longrightarrow> x = P_READY"
  shows "logged x (set_running p k)"
proof -
  let ?k = "upd_ts p (\<lambda>t. t\<lparr>state := TASK_RUNNING\<rparr>) k" and ?n = "pid (ts k p)"
  obtain L prev where l: "logged_as x k L prev" and ok: "tasks_ok k" using assms(1) by (auto simp: logged_def)
  have n: "?n \<noteq> 0" using ok assms(2) by (simp add: tasks_ok_def)
  obtain t0 where t0: "L ?n = Some (task_log_state x k p, t0)" using l assms(2) by (auto simp: logged_as_def)
  moreover have w: "task_log_state x k p = P_WAITING" using assms(3) by (auto simp: task_log_state_def)
  ultimately have t: "L ?n = Some (P_WAITING, t0)" by simp
  have v: "log_view ?k L prev" by (rule log_view_cong [of k]) (use l in \<open>simp_all add: logged_as_def\<close>)
  have wf: "sched_wf (set_running p k)" by (rule sched_wf_state [of k]) (use ok in \<open>simp_all add: tasks_ok_def\<close>)
  have ok': "tasks_ok (set_running p k)" by (rule tasks_ok_cong [OF ok _ _ wf]) simp_all
  have "log_open ?k" by (rule log_open_upd [of k]) (use ok in \<open>simp_all add: tasks_ok_def\<close>)
  from fprintk_view [OF v this, of "CHR ''J''" ?n P_WAITING t0] t n
  have v': "log_view (set_running p k) (L(?n := Some (P_READY, jiffies k))) (Some (?n, CHR ''J'', jiffies k))"
    by (simp add: set_running_def Let_def P_defs)
  have "logged_as x (set_running p k) (L(?n := Some (P_READY, jiffies k))) (Some (?n, CHR ''J'', jiffies k))"
    unfolding logged_as_def
  proof (intro conjI allI impI)
    fix q assume "in_slots 63 (set_running p k) q"
    then have q: "in_slots 63 k q" by (simp add: in_slots_def)
    show "\<exists>t. (L(?n := Some (P_READY, jiffies k))) (pid (ts (set_running p k) q)) = Some (task_log_state x (set_running p k) q, t)"
    proof (cases "q = p")
      case True
      then show ?thesis using assms(4) by (auto simp: task_log_state_def)
    next
      case False
      then have "pid (ts k q) \<noteq> ?n" using ok q assms(2) by (auto simp: tasks_ok_def)
      with False l q show ?thesis by (auto simp: logged_as_def task_log_state_def)
    qed
  qed (use v' n l in \<open>auto simp: logged_as_def\<close>)
  with ok' show ?thesis by (auto simp: logged_def)
qed

section \<open>schedule\<close>

text \<open>The current task is not woken by the first loop of \<open>schedule\<close>.\<close>

definition not_woken :: "kern \<Rightarrow> bool" where
  "not_woken k \<longleftrightarrow> \<not> (in_slots 63 k (current k) \<and> state (cur k) = TASK_INTERRUPTIBLE \<and> signalled (after_alarm (jiffies k) (cur k)))"

lemma after_alarm_fields [simp]:
  "pid (after_alarm j t) = pid t" "filp (after_alarm j t) = filp t" "state (after_alarm j t) = state t"
  "counter (after_alarm j t) = counter t" "priority (after_alarm j t) = priority t" "blocked (after_alarm j t) = blocked t"
  "after_alarm j (after_alarm j t) = after_alarm j t"
  by (simp_all add: after_alarm_def)

lemma after_check_fields [simp]: "pid (after_check j t) = pid t" "filp (after_check j t) = filp t"
  by (simp_all add: after_check_def Let_def)

lemma check_task_set_running:
  "check_task p k =
     (let k1 = upd_ts p (after_alarm (jiffies k)) k in
      if signalled (ts k1 p) \<and> state (ts k p) = TASK_INTERRUPTIBLE then set_running p k1 else k1)"
proof -
  have "(if alarm (ts k p) \<noteq> 0 \<and> alarm (ts k p) < jiffies k
         then upd_ts p (\<lambda>t. t\<lparr>signal := signal t OR S_bit SIGALRM, alarm := 0\<rparr>) k else k) = upd_ts p (after_alarm (jiffies k)) k" (is "?k = ?k1")
    by (simp add: upd_ts_def after_alarm_def)
  then have "check_task p k = (if signal (ts ?k1 p) AND NOT (BLOCKABLE AND blocked (ts ?k1 p)) \<noteq> 0 \<and> state (ts ?k1 p) = TASK_INTERRUPTIBLE
     then set_running p ?k1 else ?k1)"
    unfolding check_task_def set_running_def by (simp only: Let_def)
  then show ?thesis by (simp add: signalled_def Let_def)
qed

lemma check_task_logged:
  assumes "logged x k" "in_slots 63 k p" "x = P_READY \<or> not_woken k" shows "logged x (check_task p k)"
proof -
  let ?k = "upd_ts p (after_alarm (jiffies k)) k"
  have wf: "sched_wf ?k" by (rule sched_wf_state [of k]) (use assms(1) in \<open>simp_all add: logged_def tasks_ok_def\<close>)
  have k: "logged x ?k" by (rule logged_cong [OF assms(1) _ _ wf]) simp_all
  have s: "in_slots 63 ?k p" using assms(2) by (simp add: in_slots_def)
  show ?thesis
  proof (cases "signalled (ts ?k p) \<and> state (ts k p) = TASK_INTERRUPTIBLE")
    case True
    have "logged x (set_running p ?k)"
      by (rule set_running_logged [OF k s]) (use True assms(2,3) in \<open>auto simp: not_woken_def\<close>)
    with True show ?thesis by (simp add: check_task_set_running Let_def)
  next
    case False
    with k show ?thesis by (auto simp: check_task_set_running Let_def)
  qed
qed

lemma check_task_not_woken: "not_woken k \<Longrightarrow> not_woken (check_task p k)"
  by (auto simp: not_woken_def in_slots_def after_check_def Let_def)

lemma check_slots_logged:
  "logged x k \<Longrightarrow> x = P_READY \<or> not_woken k \<Longrightarrow> n \<le> 63 \<Longrightarrow> logged x (for_slots n check_task k)"
proof (induction n arbitrary: k)
  case (Suc n)
  show ?case
  proof (cases "task k (Suc n) = 0")
    case False
    with Suc.prems(3) have "in_slots 63 k (task k (Suc n))" by (auto simp: in_slots_def)
    then have "logged x (check_task (task k (Suc n)) k)" "x = P_READY \<or> not_woken (check_task (task k (Suc n)) k)"
      using Suc.prems check_task_logged check_task_not_woken by blast+
    from Suc.IH [OF this] Suc.prems(3) False show ?thesis by simp
  qed (use Suc in simp)
qed simp

lemma check_signals_logged: "logged x k \<Longrightarrow> x = P_READY \<or> not_woken k \<Longrightarrow> logged x (check_signals k)"
  using check_slots_logged [of x k 63] by (simp add: check_signals_def)

lemma for_slots_log: "process_log (for_slots n (\<lambda>p. upd_ts p f) k) = process_log k"
  by (rule for_slots_frame) simp

lemma recharge_logged: "logged x k \<Longrightarrow> logged x (recharge k)"
proof (rule logged_cong)
  assume l: "logged x k"
  then have wf: "sched_wf k" by (simp add: logged_def tasks_ok_def)
  then show "sched_wf (recharge k)" by (rule sched_wf_recharge)
  show "pid (ts (recharge k) p) = pid (ts k p) \<and> filp (ts (recharge k) p) = filp (ts k p)" "state (ts (recharge k) p) = state (ts k p)" for p
    using wf by (simp_all add: recharge_ts sched_wf_def recharge_task_def)
  show "process_log (recharge k) = process_log k" by (simp add: recharge_def for_slots_log)
qed simp_all

text \<open>The end of \<open>schedule\<close>, with the choice made.\<close>

definition leave_to :: "nat \<Rightarrow> kern \<Rightarrow> kern" where
  "leave_to n k =
     switch_to n (if task k n \<noteq> current k then
                    (let k = (if state (cur k) = TASK_RUNNING then fprintk (pid (cur k)) CHR ''J'' k else k)
                     in fprintk (pid (ts k (task k n))) CHR ''R'' k)
                  else k)"

lemma schedule_cases:
  assumes "logged x k" "x = P_READY \<or> not_woken k" "schedule k = Some k'"
  obtains n k2 where "k' = leave_to n k2" "best k2 n" "logged x k2" "task k2 = task k" "current k2 = current k" "jiffies k2 = jiffies k"
    "\<And>p. state (ts k2 p) = state (ts (check_signals k) p)" "\<And>p. pid (ts k2 p) = pid (ts k p)"
proof -
  let ?k = "check_signals k"
  have l: "logged x ?k" by (rule check_signals_logged [OF assms(1,2)])
  then have wf: "sched_wf ?k" by (simp add: logged_def tasks_ok_def)
  obtain n k2 where r: "sched_loop ?k = Some (n, k2)" "best k2 n"
    "k2 = (if (\<exists>i \<in> {1..63}. runnable ?k i) \<and> (\<forall>i \<in> {1..63}. runnable ?k i \<longrightarrow> slice ?k i = 0) then recharge ?k else ?k)"
    by (rule sched_loop_wf [OF wf])
  have s: "state (ts (recharge ?k) p) = state (ts ?k p) \<and> pid (ts (recharge ?k) p) = pid (ts ?k p)" for p
    using wf by (simp add: recharge_ts sched_wf_def recharge_task_def)
  have d: "tasks_distinct k" using assms(1) by (simp add: logged_def tasks_ok_def sched_wf_def)
  have "k' = leave_to n k2" using assms(3) r(1) by (simp add: schedule_def leave_to_def)
  moreover have "logged x k2" using l recharge_logged [OF l] by (simp add: r(3))
  ultimately show thesis
    by (intro that [of n k2]) (use r(2) s in \<open>auto simp: r(3) check_signals_ts [OF d]\<close>)
qed

text \<open>The line \<open>J\<close> for a task that has to give up the processor.\<close>

lemma give_up_view:
  assumes "tasks_ok k" "logged_as P_RUNNING k L prev"
  obtains L1 prev1 where
    "log_view (if state (cur k) = TASK_RUNNING then fprintk (pid (cur k)) CHR ''J'' k else k) L1 prev1"
    "\<And>p. in_slots 63 k p \<Longrightarrow> \<exists>t. L1 (pid (ts k p)) = Some (task_log_state P_READY k p, t)"
    "\<exists>st t. L1 0 = Some (st, t) \<and> st \<noteq> P_EXIT" "current k \<noteq> task k 0 \<Longrightarrow> \<forall>c t. prev1 \<noteq> Some (0, c, t)"
proof (cases "state (cur k) = TASK_RUNNING")
  case False
  then have "task_log_state P_READY k p = task_log_state P_RUNNING k p" for p by (auto simp: task_log_state_def split: task_state.split)
  with False assms(2) show ?thesis by (intro that [of L prev]) (auto simp: logged_as_def)
next
  case True
  let ?n = "pid (cur k)"
  have op: "log_open k" using assms(1) by (simp add: tasks_ok_def)
  have v: "log_view k L prev" using assms(2) by (simp add: logged_as_def)
  have idle: "pid (ts k (task k 0)) = 0" and user: "\<And>p. in_slots 63 k p \<Longrightarrow> pid (ts k p) \<noteq> 0"
    and inj: "\<And>p q. in_slots 63 k p \<Longrightarrow> in_slots 63 k q \<Longrightarrow> pid (ts k p) = pid (ts k q) \<Longrightarrow> p = q"
    and cur: "current k = task k 0 \<or> in_slots 63 k (current k)"
    using assms(1) by (auto simp: tasks_ok_def)
  obtain st t0 where st: "L ?n = Some (st, t0)" "st \<noteq> P_EXIT" "st \<noteq> P_READY \<or> ?n = 0"
  proof (cases "current k = task k 0")
    case True
    then show thesis using assms(2) idle that by (auto simp: logged_as_def)
  next
    case False
    then have "in_slots 63 k (current k)" using cur by blast
    with assms(2) obtain t where "L ?n = Some (P_RUNNING, t)"
      using \<open>state (cur k) = TASK_RUNNING\<close> by (auto simp: logged_as_def task_log_state_def)
    then show thesis using that by (simp add: P_defs)
  qed
  have pr: "?n = 0 \<Longrightarrow> prev \<noteq> Some (0, CHR ''J'', jiffies k)" using assms(2) by (auto simp: logged_as_def)
  let ?L = "L(?n := Some (P_READY, jiffies k))"
  have v1: "log_view (fprintk ?n CHR ''J'' k) ?L (Some (?n, CHR ''J'', jiffies k))"
    using fprintk_view [OF v op _ st(1,2) _ pr] st(3) by simp
  show ?thesis
  proof (rule that [of ?L "Some (?n, CHR ''J'', jiffies k)"])
    show "\<exists>t. ?L (pid (ts k p)) = Some (task_log_state P_READY k p, t)" if "in_slots 63 k p" for p
    proof (cases "p = current k")
      case True
      with \<open>state (cur k) = TASK_RUNNING\<close> show ?thesis by (simp add: task_log_state_def)
    next
      case False
      then have "pid (ts k p) \<noteq> ?n" using inj [OF that] user [OF that] idle cur by auto
      moreover have "task_log_state P_READY k p = task_log_state P_RUNNING k p" using False by (simp add: task_log_state_def cong: task_state.case_cong)
      ultimately show ?thesis using assms(2) that by (auto simp: logged_as_def)
    qed
    show "\<exists>st t. ?L 0 = Some (st, t) \<and> st \<noteq> P_EXIT" using assms(2) by (auto simp: logged_as_def P_defs)
    show "\<forall>c t. Some (?n, CHR ''J'', jiffies k) \<noteq> Some (0, c, t)" if "current k \<noteq> task k 0" using cur user that by auto
  qed (use v1 True in simp)
qed

lemma leave_to_simps [simp]:
  "ts (leave_to n k) = ts k" "task (leave_to n k) = task k" "current (leave_to n k) = task k n" "kframes (leave_to n k) = kframes k"
  "wait_ptr (leave_to n k) = wait_ptr k" "jiffies (leave_to n k) = jiffies k"
  by (simp_all add: leave_to_def Let_def)

lemma process_log_switch_to: "process_log (switch_to n k) = process_log k" by (simp add: switch_to_def)

lemma leave_to_logged:
  assumes "logged P_RUNNING k" "best k n" shows "logged P_RUNNING (leave_to n k)"
proof (cases "task k n = current k")
  case True
  then have "leave_to n k = k" by (simp add: leave_to_def switch_to_def)
  with assms(1) show ?thesis by simp
next
  case False
  let ?k1 = "if state (cur k) = TASK_RUNNING then fprintk (pid (cur k)) CHR ''J'' k else k" and ?q = "task k n" and ?k' = "leave_to n k"
  have ok: "tasks_ok k" using assms(1) by (simp add: logged_def)
  have wf: "sched_wf k" and op: "log_open k" and p0: "pid (ts k (task k 0)) = 0" and user: "\<And>p. in_slots 63 k p \<Longrightarrow> pid (ts k p) \<noteq> 0"
    and inj: "\<And>p q. in_slots 63 k p \<Longrightarrow> in_slots 63 k q \<Longrightarrow> pid (ts k p) = pid (ts k q) \<Longrightarrow> p = q"
    using ok by (auto simp: tasks_ok_def)
  obtain L prev where "logged_as P_RUNNING k L prev" using assms(1) by (auto simp: logged_def)
  from give_up_view [OF ok this] obtain L1 prev1 where
    v: "log_view ?k1 L1 prev1" and L1: "\<And>p. in_slots 63 k p \<Longrightarrow> \<exists>t. L1 (pid (ts k p)) = Some (task_log_state P_READY k p, t)"
    and idle: "\<exists>st t. L1 0 = Some (st, t) \<and> st \<noteq> P_EXIT" and prev1: "current k \<noteq> task k 0 \<Longrightarrow> \<forall>c t. prev1 \<noteq> Some (0, c, t)"
    by metis
  have q: "?q = task k 0 \<and> pid (ts k ?q) = 0 \<or> in_slots 63 k ?q \<and> state (ts k ?q) = TASK_RUNNING"
    using assms(2) p0 in_slots_task by (auto simp: best_def runnable_def)
  obtain st t0 where st: "L1 (pid (ts k ?q)) = Some (st, t0)" "st \<noteq> P_EXIT" "st \<noteq> P_RUNNING \<or> pid (ts k ?q) = 0"
  proof (cases "?q = task k 0")
    case True
    then show thesis using idle p0 that by auto
  next
    case False
    then obtain t where "L1 (pid (ts k ?q)) = Some (P_READY, t)" using q L1 [of ?q] by (auto simp: task_log_state_def split: if_splits)
    then show thesis using that by (simp add: P_defs)
  qed
  have pr: "prev1 \<noteq> Some (0, CHR ''R'', jiffies ?k1)" if "pid (ts k ?q) = 0"
  proof -
    have "?q = task k 0" using that q user by blast
    with False prev1 show ?thesis by auto
  qed
  let ?L = "L1(pid (ts k ?q) := Some (P_RUNNING, jiffies k))" and ?prev = "Some (pid (ts k ?q), CHR ''R'', jiffies k)"
  have op1: "log_open ?k1" using op by (simp add: log_open_def)
  have "log_view (fprintk (pid (ts k ?q)) CHR ''R'' ?k1) ?L ?prev"
    using fprintk_view [OF v op1 _ st(1,2) _ pr] st(3) by (simp split: if_split_asm)
  then have v': "log_view ?k' ?L ?prev"
    by (rule log_view_cong) (use False in \<open>simp_all add: leave_to_def Let_def process_log_switch_to\<close>)
  have "sched_wf ?k'" by (rule sched_wf_state [OF wf]) simp_all
  moreover have "in_slots 63 ?k' p = in_slots 63 k p" for p by (simp add: in_slots_def)
  ultimately have ok': "tasks_ok ?k'" using op p0 user inj q by (auto simp: tasks_ok_def log_open_def)
  have "logged_as P_RUNNING ?k' ?L ?prev"
    unfolding logged_as_def
  proof (intro conjI allI impI)
    fix p assume "in_slots 63 ?k' p"
    then have p: "in_slots 63 k p" by (simp add: in_slots_def)
    show "\<exists>t. ?L (pid (ts ?k' p)) = Some (task_log_state P_RUNNING ?k' p, t)"
    proof (cases "p = ?q")
      case True
      then show ?thesis using q not_idle [OF ok p] by (auto simp: task_log_state_def)
    next
      case False
      then have "pid (ts k p) \<noteq> pid (ts k ?q)" using user [OF p] inj [OF p] q by auto
      moreover have "task_log_state P_RUNNING ?k' p = task_log_state P_READY k p" using False by (simp add: task_log_state_def split: task_state.split)
      ultimately show ?thesis using L1 [OF p] by simp
    qed
  next
    show "log_view ?k' ?L ?prev" by (rule v')
    show "\<exists>st t. ?L 0 = Some (st, t) \<and> st \<noteq> P_EXIT" using idle by (cases "pid (ts k ?q) = 0") (auto simp: P_defs)
  next
    fix c t assume "?prev = Some (0, c, t)"
    then show "c = CHR ''R''" "current ?k' = task ?k' 0" using q user by auto
  qed
  with ok' show ?thesis by (auto simp: logged_def)
qed

lemma schedule_logged: "logged P_RUNNING k \<Longrightarrow> not_woken k \<Longrightarrow> schedule k = Some k' \<Longrightarrow> logged P_RUNNING k'"
  using schedule_cases [of P_RUNNING k k'] leave_to_logged by metis

section \<open>Sleepers are woken once\<close>

text \<open>A task that someone will wake: the head of a queue, or the \<open>tmp\<close> of a task in \<open>sleep_on\<close>.\<close>

datatype waker = Queue u32 | Sleeper u32

fun wakes :: "kern \<Rightarrow> waker \<Rightarrow> u32 \<Rightarrow> bool" where
  "wakes k (Queue p) t = (wait_ptr k p = t)"
| "wakes k (Sleeper q) t = (\<exists>p. FSleepOn p t \<in> set (kframes k q))"

definition sleepers_ok :: "kern \<Rightarrow> bool" where
  "sleepers_ok k \<longleftrightarrow> (\<forall>r t. t \<noteq> 0 \<longrightarrow> wakes k r t \<longrightarrow>
       in_slots 63 k t \<and> state (ts k t) = TASK_UNINTERRUPTIBLE \<and> (\<forall>r'. wakes k r' t \<longrightarrow> r' = r)) \<and>
     (\<forall>q. length (kframes k q) \<le> 1)"

definition log_inv :: "kern \<Rightarrow> bool" where
  "log_inv k \<longleftrightarrow> logged P_RUNNING k \<and> sleepers_ok k \<and> (current k = task k 0 \<or> state (cur k) = TASK_RUNNING)"

lemma sleepers_okI:
  assumes "sleepers_ok k"
    and "\<And>r t. t \<noteq> 0 \<Longrightarrow> wakes k' r t \<Longrightarrow> wakes k r t"
    and "\<And>r t. t \<noteq> 0 \<Longrightarrow> wakes k' r t \<Longrightarrow> in_slots 63 k t \<Longrightarrow> state (ts k t) = TASK_UNINTERRUPTIBLE \<Longrightarrow>
       in_slots 63 k' t \<and> state (ts k' t) = TASK_UNINTERRUPTIBLE"
    and "\<And>q. length (kframes k' q) \<le> 1"
  shows "sleepers_ok k'"
  unfolding sleepers_ok_def
proof (intro conjI allI impI)
  fix r t assume t: "t \<noteq> 0" "wakes k' r t"
  then have "in_slots 63 k t \<and> state (ts k t) = TASK_UNINTERRUPTIBLE \<and> (\<forall>r'. wakes k r' t \<longrightarrow> r' = r)"
    using assms(1) assms(2) [OF t] by (auto simp: sleepers_ok_def)
  then show "in_slots 63 k' t" "state (ts k' t) = TASK_UNINTERRUPTIBLE" "\<And>r'. wakes k' r' t \<Longrightarrow> r' = r"
    using assms(2,3) t by blast+
qed (rule assms(4))

lemma wakes_cong: "wait_ptr k' = wait_ptr k \<Longrightarrow> kframes k' = kframes k \<Longrightarrow> wakes k' r t = wakes k r t"
  by (cases r) simp_all

lemma schedule_inv:
  assumes "logged P_RUNNING k" "not_woken k" "sleepers_ok k" "schedule k = Some k'"
  shows "log_inv k'"
proof -
  have wf: "sched_wf k" using assms(1) by (simp add: logged_def tasks_ok_def)
  note s = schedule_keeps [OF wf assms(4)]
  have "sleepers_ok k'"
  proof (rule sleepers_okI [OF assms(3)])
    show "wakes k' r t \<Longrightarrow> wakes k r t" for r t using wakes_cong [OF s(3,2)] by simp
    show "in_slots 63 k t \<Longrightarrow> state (ts k t) = TASK_UNINTERRUPTIBLE \<Longrightarrow> in_slots 63 k' t \<and> state (ts k' t) = TASK_UNINTERRUPTIBLE" for t
      using s(1) [of t] by (auto simp: in_slots_cong [OF s(6)])
    show "length (kframes k' q) \<le> 1" for q using assms(3) by (simp add: s(2) sleepers_ok_def)
  qed
  moreover have "logged P_RUNNING k'" by (rule schedule_logged [OF assms(1,2,4)])
  moreover have "current k' = task k' 0 \<or> state (cur k') = TASK_RUNNING" using schedule_change(4) [OF wf assms(4)] s(6) by simp
  ultimately show ?thesis by (simp add: log_inv_def)
qed

lemma push_frame_log [simp]: "process_log (push_frame f k) = process_log k" by (simp add: push_frame_def)

lemma logged_push_frame: "logged x k \<Longrightarrow> logged x (push_frame f k)"
proof -
  assume l: "logged x k"
  then have "sched_wf k" by (simp add: logged_def tasks_ok_def)
  then have "sched_wf (push_frame f k)" by (rule sched_wf_state) simp_all
  from logged_cong [OF l _ _ this] show ?thesis by simp
qed

lemma not_woken_push_frame [simp]: "not_woken (push_frame f k) = not_woken k"
  by (simp add: not_woken_def in_slots_def)

text \<open>A frame other than that of \<open>sleep_on\<close>, on a task that has none.\<close>

lemma sleepers_push_frame:
  assumes "sleepers_ok k" "kframes k (current k) = []" "\<not> is_FSleepOn f" shows "sleepers_ok (push_frame f k)"
proof (rule sleepers_okI [OF assms(1)])
  show "wakes (push_frame f k) r t \<Longrightarrow> wakes k r t" for r t
    using assms(2,3) by (cases r) (auto simp: is_FSleepOn_def split: if_splits)
  show "length (kframes (push_frame f k) q) \<le> 1" for q using assms(1,2) by (simp add: sleepers_ok_def)
qed (simp add: in_slots_def)

lemma not_woken_running: "current k = task k 0 \<or> state (cur k) = TASK_RUNNING \<Longrightarrow> tasks_ok k \<Longrightarrow> not_woken k"
  using not_idle [of k "current k"] by (auto simp: not_woken_def)

text \<open>A running task that goes to sleep or ends, with the line it writes.\<close>

lemma stop_logged:
  assumes "logged P_RUNNING k" "current k \<noteq> task k 0" "state (cur k) = TASK_RUNNING" "(st, c) \<in> {(TASK_INTERRUPTIBLE, CHR ''W''), (TASK_UNINTERRUPTIBLE, CHR ''W''), (TASK_ZOMBIE, CHR ''E'')}"
    and "k' = fprintk (pid (cur k)) c (upd_ts (current k) (\<lambda>t. t\<lparr>state := st\<rparr>) k)"
  shows "logged P_RUNNING k'"
proof -
  let ?k = "upd_ts (current k) (\<lambda>t. t\<lparr>state := st\<rparr>) k" and ?n = "pid (cur k)"
  obtain L prev where l: "logged_as P_RUNNING k L prev" and ok: "tasks_ok k" using assms(1) by (auto simp: logged_def)
  have sc: "state_named c \<in> {P_WAITING, P_EXIT}" "log_char c" using assms(4) by auto
  have c: "in_slots 63 k (current k)" using ok assms(2) by (simp add: tasks_ok_def)
  have n: "?n \<noteq> 0" using ok c by (simp add: tasks_ok_def)
  obtain t0 where t0: "L ?n = Some (P_RUNNING, t0)" using l c assms(3) by (auto simp: logged_as_def task_log_state_def)
  have v: "log_view ?k L prev" by (rule log_view_cong [of k]) (use l in \<open>simp_all add: logged_as_def\<close>)
  have "sched_wf k'" by (rule sched_wf_state [of k]) (use ok in \<open>simp_all add: tasks_ok_def assms(5)\<close>)
  then have ok': "tasks_ok k'" by (rule tasks_ok_cong [OF ok, rotated 2]) (simp_all add: assms(5))
  have "log_open ?k" by (rule log_open_upd [of k]) (use ok in \<open>simp_all add: tasks_ok_def\<close>)
  from fprintk_view [OF v this, of c ?n P_RUNNING t0] t0 n sc
  have v': "log_view k' (L(?n := Some (state_named c, jiffies k))) (Some (?n, c, jiffies k))" by (auto simp: assms(5) P_defs)
  have "logged_as P_RUNNING k' (L(?n := Some (state_named c, jiffies k))) (Some (?n, c, jiffies k))"
    unfolding logged_as_def
  proof (intro conjI allI impI)
    fix q assume "in_slots 63 k' q"
    then have q: "in_slots 63 k q" by (simp add: in_slots_def assms(5))
    show "\<exists>t. (L(?n := Some (state_named c, jiffies k))) (pid (ts k' q)) = Some (task_log_state P_RUNNING k' q, t)"
    proof (cases "q = current k")
      case True
      then show ?thesis using assms(4) by (auto simp: task_log_state_def assms(5))
    next
      case False
      then have "pid (ts k q) \<noteq> ?n" using ok q c by (auto simp: tasks_ok_def)
      with False l q show ?thesis by (auto simp: logged_as_def task_log_state_def assms(5))
    qed
  qed (use v' n l in \<open>auto simp: logged_as_def\<close>)
  with ok' show ?thesis by (auto simp: logged_def)
qed

section \<open>The operations\<close>

lemma log_invD:
  assumes "log_inv k"
  shows "logged P_RUNNING k" "sleepers_ok k" "tasks_ok k" "sched_wf k" "not_woken k" "current k = task k 0 \<or> state (cur k) = TASK_RUNNING"
    "current k = task k 0 \<or> in_slots 63 k (current k)"
  using assms not_woken_running by (auto simp: log_inv_def logged_def tasks_ok_def)

lemma log_inv_woken:
  assumes "log_inv k" "wakes k r t" "t \<noteq> 0"
  shows "in_slots 63 k t" "state (ts k t) = TASK_UNINTERRUPTIBLE" "t \<noteq> current k" "wakes k r' t \<Longrightarrow> r' = r"
  using log_invD(2,6) [OF assms(1)] not_idle [OF log_invD(3) [OF assms(1)], of t] assms(2,3) by (auto simp: sleepers_ok_def)

text \<open>The change of the variable and the frames around a step does not matter to the log.\<close>

lemma logged_same:
  assumes "logged x k" "task k' = task k" "ts k' = ts k" "current k' = current k" "process_log k' = process_log k" "jiffies k' = jiffies k"
  shows "logged x k'"
proof -
  have "sched_wf k" using assms(1) by (simp add: logged_def tasks_ok_def)
  then have "sched_wf k'" by (rule sched_wf_state) (simp_all add: assms)
  from logged_cong [OF assms(1,2,4) this] show ?thesis by (simp add: assms)
qed

lemma sleep_on_log:
  assumes inv: "log_inv k" and c: "current k \<noteq> task k 0" "kframes k (current k) = []" "p \<noteq> 0" and s: "sleep_on p k = Some k'"
  shows "log_inv k'"
proof (rule schedule_inv)
  let ?c = "current k" and ?kw = "k\<lparr>wait_ptr := (wait_ptr k)(p := current k)\<rparr>" and ?k = "sleep_on_enter p k" and ?tmp = "wait_ptr k p"
  note i = log_invD [OF inv]
  have run: "state (cur k) = TASK_RUNNING" and slot: "in_slots 63 k ?c" using i(6,7) c(1) by blast+
  show "schedule ?k = Some k'" using s c(3) by (simp add: sleep_on_def)
  have e: "?k = push_frame (FSleepOn p ?tmp) (fprintk (pid (cur ?kw)) CHR ''W'' (upd_ts (current ?kw) (\<lambda>t. t\<lparr>state := TASK_UNINTERRUPTIBLE\<rparr>) ?kw))"
    unfolding sleep_on_enter_def Let_def by simp
  have l0: "logged P_RUNNING ?kw" by (rule logged_same [OF i(1)]) simp_all
  show "logged P_RUNNING ?k" unfolding e
    by (rule logged_push_frame, rule stop_logged [OF l0, where st = TASK_UNINTERRUPTIBLE and c = "CHR ''W''"]) (use c run in simp_all)
  show "not_woken ?k" by (simp add: not_woken_def sleep_on_enter_def Let_def)
  have fr: "kframes ?k q = (if q = ?c then [FSleepOn p ?tmp] else kframes k q)" for q
    using c(2) by (simp add: sleep_on_enter_def Let_def)
  have wp: "wait_ptr ?k q = (if q = p then ?c else wait_ptr k q)" for q by (simp add: sleep_on_enter_def Let_def)
  have st: "state (ts ?k t) = (if t = ?c then TASK_UNINTERRUPTIBLE else state (ts k t))" for t by (simp add: sleep_on_enter_def Let_def)
  have sl: "in_slots 63 ?k t = in_slots 63 k t" for t by (simp add: in_slots_def sleep_on_enter_def Let_def)
  have w: "wakes ?k r t \<longleftrightarrow> r = Queue p \<and> t = ?c \<or> r = Sleeper ?c \<and> wakes k (Queue p) t \<or> r \<noteq> Queue p \<and> r \<noteq> Sleeper ?c \<and> wakes k r t" for r t
    by (cases r) (auto simp: wp fr)
  have nc: "\<not> wakes k r ?c" for r using log_inv_woken(3) [OF inv, of r ?c] slot by (auto simp: in_slots_def)
  have no: "\<not> wakes k (Sleeper ?c) t" for t using c(2) by simp
  show "sleepers_ok ?k" unfolding sleepers_ok_def
  proof (intro conjI allI impI)
    fix r t assume t: "t \<noteq> 0" "wakes ?k r t"
    then have "t = ?c \<and> r = Queue p \<or> t \<noteq> ?c \<and> (\<exists>r0. wakes k r0 t \<and> r = (if r0 = Queue p then Sleeper ?c else r0))"
      using nc unfolding w by (metis no)
    then show "in_slots 63 ?k t" "state (ts ?k t) = TASK_UNINTERRUPTIBLE"
      using log_inv_woken(1,2) [OF inv _ t(1)] slot by (auto simp: sl st)
    show "r' = r" if "wakes ?k r' t" for r'
      using t(2) that nc no log_inv_woken(4) [OF inv _ t(1)] unfolding w by metis
  next
    show "length (kframes ?k q) \<le> 1" for q using i(2) by (simp add: fr sleepers_ok_def)
  qed
qed

lemma wake_log:
  assumes inv: "log_inv k" and w: "wakes k r t" "t \<noteq> 0" and k': "task k' = task k" "ts k' = ts (set_running t k)" "current k' = current k"
    "process_log k' = process_log (set_running t k)" "jiffies k' = jiffies k"
    and r: "\<And>r' t'. t' \<noteq> 0 \<Longrightarrow> wakes k' r' t' \<Longrightarrow> wakes k r' t' \<and> r' \<noteq> r" "\<And>q. length (kframes k' q) \<le> 1"
  shows "log_inv k'"
proof -
  note i = log_invD [OF inv] and t = log_inv_woken [OF inv w]
  have "logged P_RUNNING (set_running t k)" by (rule set_running_logged [OF i(1) t(1)]) (use t in simp_all)
  then have "logged P_RUNNING k'" by (rule logged_same) (simp_all add: k')
  moreover have "sleepers_ok k'"
  proof (rule sleepers_okI [OF i(2)])
    show "t' \<noteq> 0 \<Longrightarrow> wakes k' r' t' \<Longrightarrow> wakes k r' t'" for r' t' using r(1) by blast
    fix r' t' assume "t' \<noteq> 0" "wakes k' r' t'" "in_slots 63 k t'" "state (ts k t') = TASK_UNINTERRUPTIBLE"
    then show "in_slots 63 k' t' \<and> state (ts k' t') = TASK_UNINTERRUPTIBLE"
      using r(1) [of t' r'] t(4) [of r'] by (auto simp: k' in_slots_def)
  qed (rule r(2))
  ultimately show ?thesis using i(6) t(3) by (simp add: log_inv_def k')
qed

lemma wake_up_log:
  assumes "log_inv k" shows "log_inv (wake_up p k)"
proof (cases "p \<noteq> 0 \<and> wait_ptr k p \<noteq> 0")
  case True
  show ?thesis
  proof (rule wake_log [OF assms, of "Queue p" "wait_ptr k p"])
    show "wakes (wake_up p k) r' t' \<Longrightarrow> t' \<noteq> 0 \<Longrightarrow> wakes k r' t' \<and> r' \<noteq> Queue p" for r' t'
      using True by (cases r') (auto simp: wake_up_def Let_def split: if_splits)
  qed (use True log_invD(2) [OF assms] in \<open>simp_all add: wake_up_def Let_def sleepers_ok_def\<close>)
qed (use assms in \<open>auto simp: wake_up_def\<close>)

lemma pop_frame_log [simp]: "process_log (pop_frame k) = process_log k" "jiffies (pop_frame k) = jiffies k"
  by (simp_all add: pop_frame_def)

lemma wakes_pop_frame: "sleepers_ok k \<Longrightarrow> wakes (pop_frame k) r t \<longleftrightarrow> wakes k r t \<and> r \<noteq> Sleeper (current k)"
proof (cases r)
  case (Sleeper q)
  assume "sleepers_ok k"
  then have "length (kframes k (current k)) \<le> 1" by (simp add: sleepers_ok_def)
  then have "tl (kframes k (current k)) = []" by (cases "kframes k (current k)") simp_all
  with Sleeper show ?thesis by auto
qed simp

lemma pop_frame_length: "sleepers_ok k \<Longrightarrow> length (kframes (pop_frame k) q) \<le> 1"
  by (auto simp: sleepers_ok_def intro: order_trans [OF diff_le_self])

lemma pop_frame_inv:
  assumes "log_inv k" shows "log_inv (pop_frame k)"
proof -
  note i = log_invD [OF assms]
  have "logged P_RUNNING (pop_frame k)" by (rule logged_same [OF i(1)]) simp_all
  moreover have "sleepers_ok (pop_frame k)"
    by (rule sleepers_okI [OF i(2)]) (simp_all only: wakes_pop_frame [OF i(2)] pop_frame_length [OF i(2)], simp_all add: in_slots_def)
  ultimately show ?thesis using i(6) by (simp add: log_inv_def)
qed

lemma sleep_on_leave_log:
  assumes inv: "log_inv k" and f: "kframes k (current k) = FSleepOn p tmp # fr"
  shows "log_inv (sleep_on_leave tmp (pop_frame k))"
proof (cases "tmp = 0")
  case False
  note i = log_invD [OF inv]
  let ?k' = "sleep_on_leave tmp (pop_frame k)"
  show ?thesis
  proof (rule wake_log [OF inv, of "Sleeper (current k)" tmp])
    show "wakes k (Sleeper (current k)) tmp" using f by auto
    show "process_log ?k' = process_log (set_running tmp k)"
      using False by (simp add: sleep_on_leave_def set_running_def Let_def fprintk_def)
    have w: "wakes ?k' r t = wakes (pop_frame k) r t" for r t
      using False by (intro wakes_cong) (simp_all add: sleep_on_leave_def)
    show "t' \<noteq> 0 \<Longrightarrow> wakes ?k' r' t' \<Longrightarrow> wakes k r' t' \<and> r' \<noteq> Sleeper (current k)" for r' t' by (simp add: w wakes_pop_frame [OF i(2)])
    show "length (kframes ?k' q) \<le> 1" for q using pop_frame_length [OF i(2), of q] False by (simp add: sleep_on_leave_def)
  qed (use False in \<open>simp_all add: sleep_on_leave_def fun_eq_iff\<close>)
qed (use pop_frame_inv [OF inv] in \<open>simp add: sleep_on_leave_def\<close>)

text \<open>Sleeping until a signal comes, in \<open>pause\<close> and in \<open>waitpid\<close>.\<close>

definition pending :: "kern \<Rightarrow> bool" where "pending k \<longleftrightarrow> signalled (after_alarm (jiffies k) (cur k))"

lemma after_alarm_state: "after_alarm j (t\<lparr>state := st\<rparr>) = (after_alarm j t)\<lparr>state := st\<rparr>"
  by (simp add: after_alarm_def)

lemma signalled_state [simp]: "signalled (t\<lparr>state := st\<rparr>) = signalled t"
  by (simp add: signalled_def)

lemma wait_signal_log:
  assumes inv: "log_inv k" and c: "current k \<noteq> task k 0" "kframes k (current k) = []" "\<not> pending k" "\<not> is_FSleepOn f"
    and s: "schedule (push_frame f (fprintk (pid (cur k)) CHR ''W'' (upd_ts (current k) (\<lambda>t. t\<lparr>state := TASK_INTERRUPTIBLE\<rparr>) k))) = Some k'"
  shows "log_inv k'"
proof (rule schedule_inv [OF _ _ _ s])
  let ?kw = "fprintk (pid (cur k)) CHR ''W'' (upd_ts (current k) (\<lambda>t. t\<lparr>state := TASK_INTERRUPTIBLE\<rparr>) k)"
  note i = log_invD [OF inv]
  have run: "state (cur k) = TASK_RUNNING" using i(6) c(1) by blast
  show "logged P_RUNNING (push_frame f ?kw)"
    by (rule logged_push_frame, rule stop_logged [OF i(1), where st = TASK_INTERRUPTIBLE and c = "CHR ''W''"]) (use c run in simp_all)
  show "not_woken (push_frame f ?kw)" using c(3) by (simp add: not_woken_def pending_def after_alarm_state)
  have "sleepers_ok ?kw"
    by (rule sleepers_okI [OF i(2)])
      (use i(2) log_inv_woken(3) [OF inv] in \<open>auto simp: in_slots_def sleepers_ok_def wakes_cong [of ?kw k]\<close>)
  then show "sleepers_ok (push_frame f ?kw)" by (rule sleepers_push_frame) (use c in simp_all)
qed

lemma sys_pause_log:
  assumes "log_inv k" "current k \<noteq> task k 0" "kframes k (current k) = []" "\<not> pending k" "sys_pause k = Some k'"
  shows "log_inv k'"
proof (rule wait_signal_log [OF assms(1-4), of FPause])
  have "pid (cur k) \<noteq> 0" using log_invD(3,7) [OF assms(1)] assms(2) by (auto simp: tasks_ok_def)
  then show "schedule (push_frame FPause (fprintk (pid (cur k)) CHR ''W'' (upd_ts (current k) (\<lambda>t. t\<lparr>state := TASK_INTERRUPTIBLE\<rparr>) k))) = Some k'"
    using assms(5) by (simp add: sys_pause_def Let_def)
qed simp

lemma idle_pause_log:
  assumes inv: "log_inv k" and c: "current k = task k 0" "kframes k (current k) = []" and s: "sys_pause k = Some k'"
  shows "log_inv k'"
proof -
  let ?k = "upd_ts (current k) (\<lambda>t. t\<lparr>state := TASK_INTERRUPTIBLE\<rparr>) k"
  note i = log_invD [OF inv]
  have idle: "pid (ts k (task k 0)) = 0" "\<not> in_slots 63 k (task k 0)" using i(3) not_idle by (auto simp: tasks_ok_def)
  have wf: "sched_wf ?k" by (rule sched_wf_state [OF i(4)]) simp_all
  have l: "logged P_RUNNING ?k" by (rule logged_cong [OF i(1) _ _ wf]) (use idle c in auto)
  have "sleepers_ok ?k"
    by (rule sleepers_okI [OF i(2)])
      (use i(2) log_inv_woken(3) [OF inv] in \<open>auto simp: in_slots_def sleepers_ok_def wakes_cong [of ?k k]\<close>)
  then have "sleepers_ok (push_frame FPause ?k)" by (rule sleepers_push_frame) (use c in simp_all)
  moreover have "not_woken (push_frame FPause ?k)" using idle(2) c by (auto simp: not_woken_def in_slots_def)
  moreover have "schedule (push_frame FPause ?k) = Some k'" using s idle c by (simp add: sys_pause_def Let_def)
  ultimately show ?thesis using schedule_inv [OF logged_push_frame [OF l]] by blast
qed

lemma tick_log:
  assumes inv: "log_inv k" and c: "kframes k (current k) = []" and s: "schedule (push_frame FTick k) = Some k'"
  shows "log_inv k'"
  using schedule_inv [OF logged_push_frame [OF log_invD(1) [OF inv]] _ sleepers_push_frame [OF log_invD(2) [OF inv] c] s] log_invD(5) [OF inv]
  by simp

text \<open>Whatever leaves the states, the numbers and the log alone: signals, the clock, the user's programs.\<close>

definition unlogged :: "kern \<Rightarrow> kern \<Rightarrow> bool" where
  "unlogged k k' \<longleftrightarrow> task k' = task k \<and> current k' = current k \<and> wait_ptr k' = wait_ptr k \<and> kframes k' = kframes k \<and>
     process_log k' = process_log k \<and> jiffies k \<le> jiffies k' \<and>
     (\<forall>p. pid (ts k' p) = pid (ts k p) \<and> filp (ts k' p) = filp (ts k p) \<and> state (ts k' p) = state (ts k p) \<and> slice_ok (ts k' p) = slice_ok (ts k p))"

lemma unlogged_log:
  assumes inv: "log_inv k" and u: "unlogged k k'" shows "log_inv k'"
proof -
  note i = log_invD [OF inv] and u = u [unfolded unlogged_def]
  have wf: "sched_wf k'" by (rule sched_wfI [OF i(4)]) (use u in simp_all)
  have "logged P_RUNNING k'" by (rule logged_cong [OF i(1) _ _ wf]) (use u in simp_all)
  moreover have "sleepers_ok k'"
    by (rule sleepers_okI [OF i(2)]) (use u i(2) in \<open>simp_all add: in_slots_def sleepers_ok_def wakes_cong [of k' k]\<close>)
  ultimately show ?thesis using i(6) u by (simp add: log_inv_def)
qed

text \<open>\<open>waitpid\<close>: the scan, and the slot of a zombie that becomes free.\<close>

lemma wait_loop_zombie:
  "wait_loop m n opts f k = WZombie p \<Longrightarrow> p \<noteq> 0 \<and> p \<noteq> current k \<and> state (ts k p) = TASK_ZOMBIE"
proof (induction m arbitrary: f)
  case (Suc m)
  then show ?case by (auto simp: Let_def wanted_def split: if_splits task_state.splits)
qed simp

lemma find_task_Some: "find_task n i p k = Some j \<Longrightarrow> i \<le> j \<and> j < i + n \<and> task k j = p"
  by (induction n arbitrary: i) (force split: if_splits)+

lemma remove_log:
  assumes inv: "log_inv k" and j: "1 \<le> j" "j \<le> 63" "task k j = p" "p \<noteq> 0" "p \<noteq> current k" "state (ts k p) = TASK_ZOMBIE"
    and k': "task k' = (task k)(j := 0)" "ts k' = ts k" "current k' = current k" "wait_ptr k' = wait_ptr k" "kframes k' = kframes k"
    "process_log k' = process_log k" "jiffies k' = jiffies k"
  shows "log_inv k'"
proof -
  note i = log_invD [OF inv]
  have p: "in_slots 63 k p" using j by (auto simp: in_slots_def)
  have d: "task k m = p \<Longrightarrow> m < 64 \<Longrightarrow> m = j" for m
    using i(4) j unfolding sched_wf_def tasks_distinct_def by (metis NR_TASKS_eq le_imp_less_Suc Suc_numeral semiring_norm(5) semiring_norm(2) semiring_norm(8))
  have sl: "in_slots 63 k' t \<longleftrightarrow> in_slots 63 k t \<and> t \<noteq> p" for t
  proof
    assume "in_slots 63 k' t"
    then obtain m where "m \<in> {1..63}" "m \<noteq> j" "task k m = t" "t \<noteq> 0" by (auto simp: in_slots_def k' split: if_splits)
    with d [of m] show "in_slots 63 k t \<and> t \<noteq> p" by (auto simp: in_slots_def)
  next
    assume "in_slots 63 k t \<and> t \<noteq> p"
    then obtain m where "m \<in> {1..63}" "task k m = t" "t \<noteq> 0" "t \<noteq> p" by (auto simp: in_slots_def)
    with j(3) show "in_slots 63 k' t" by (intro in_slots_def [THEN iffD2]) (auto simp: k')
  qed
  have "sched_wf (k\<lparr>task := (task k)(j := 0)\<rparr>)" using j(1) by (intro sched_wf_remove i(4)) simp
  then have wf: "sched_wf k'" by (rule sched_wf_state) (simp_all add: k')
  have t0: "task k' 0 = task k 0" using j(1) by (simp add: k')
  have cur: "current k = task k 0 \<or> in_slots 63 k' (current k)" using i(7) j(5) by (auto simp: sl)
  have "tasks_ok k'" using i(3) wf cur by (auto simp: tasks_ok_def log_open_def sl k'(2,3) t0)
  moreover obtain L prev where "logged_as P_RUNNING k L prev" using i(1) by (auto simp: logged_def)
  then have "logged_as P_RUNNING k' L prev"
    using log_view_cong [of k L prev k'] by (auto simp: logged_as_def task_log_state_def sl k'(2,3,6,7) t0)
  ultimately have "logged P_RUNNING k'" by (auto simp: logged_def)
  moreover have "sleepers_ok k'"
    by (rule sleepers_okI [OF i(2)]) (use j(6) i(2) in \<open>auto simp: sl k'(2,5) sleepers_ok_def wakes_cong [OF k'(4,5)]\<close>)
  ultimately show ?thesis using i(6) by (simp add: log_inv_def k'(2,3) t0)
qed

lemma release_log:
  assumes inv: "log_inv k" and c: "kframes k (current k) = []" "p \<noteq> current k" "state (ts k p) = TASK_ZOMBIE" "p \<noteq> 0" "\<not> is_FSleepOn f"
    and r: "release f p k = Inr k'"
  shows "log_inv k'"
proof -
  obtain j s where j: "find_task (NR_TASKS - 1) 1 p k = Some j"
    and s: "schedule (push_frame f (k\<lparr>task := (task k)(j := 0), kmm := s\<rparr>)) = Some k'"
    using r c(4) unfolding release_def
    by (auto simp: sbind_Inr_iff schedule_k_def dest!: lift_mm_Inr split: option.splits)
  from find_task_Some [OF j] have j: "1 \<le> j" "j \<le> 63" "task k j = p" by auto
  let ?kr = "k\<lparr>task := (task k)(j := 0), kmm := s\<rparr>"
  have inv': "log_inv ?kr" by (rule remove_log [OF inv j c(4,2,3)]) simp_all
  show ?thesis
    by (rule schedule_inv [OF logged_push_frame _ sleepers_push_frame s]) (use log_invD [OF inv'] c in simp_all)
qed

lemma wait_repeat_log:
  assumes inv: "log_inv k" and c: "current k \<noteq> task k 0" "kframes k (current k) = []"
    and q: "wait_loop 63 n opts False k = WEnd True \<Longrightarrow> \<not> pending k" and w: "wait_repeat n a opts k = Inr (None, k')"
  shows "log_inv k'"
proof (cases "wait_loop 63 n opts False k")
  case (WStopped p)
  with w show ?thesis by (simp add: wait_repeat_def)
next
  case (WZombie p)
  let ?k = "upd_ts (current k) (\<lambda>t. t\<lparr>cutime := s32 (cutime t + utime (ts k p)), cstime := s32 (cstime t + stime (ts k p))\<rparr>) k"
  have "unlogged k ?k" by (simp add: unlogged_def slice_ok_def)
  from unlogged_log [OF inv this] have inv': "log_inv ?k" .
  note z = wait_loop_zombie [OF WZombie]
  show ?thesis
    by (rule release_log [OF inv', of p "FWaitRelease (pid (ts ?k p)) (exit_code (ts ?k p)) a"])
      (use w z c WZombie in \<open>simp_all add: wait_repeat_def sbind_Inr_iff is_FSleepOn_def\<close>)
next
  case (WEnd flag)
  with w have flag: flag
    and s: "schedule (push_frame (FWaitSleep n a opts) (fprintk (pid (cur k)) CHR ''W'' (upd_ts (current k) (\<lambda>t. t\<lparr>state := TASK_INTERRUPTIBLE\<rparr>) k))) = Some k'"
    by (auto simp: wait_repeat_def sbind_Inr_iff schedule_k_def Let_def split: if_splits option.splits)
  show ?thesis by (rule wait_signal_log [OF inv c _ _ s]) (use q WEnd flag in \<open>simp_all add: is_FSleepOn_def\<close>)
qed

text \<open>\<open>exit\<close>: the part of \<open>do_exit\<close> that writes to the log, and the switch.\<close>

lemma kill_session_fields:
  "process_log (kill_session k) = process_log k" "jiffies (kill_session k) = jiffies k" "wait_ptr (kill_session k) = wait_ptr k"
  "kframes (kill_session k) = kframes k" "filp (ts (kill_session k) p) = filp (ts k p)"
  unfolding kill_session_def by (rule for_slots_frame, simp)+

lemma exit_log:
  assumes inv: "log_inv k" and c: "current k \<noteq> task k 0" "kframes k (current k) = []"
    and s: "schedule (push_frame FExit (exit_zombie code k)) = Some k'"
  shows "log_inv k'"
proof -
  define ka where "ka = (if leader (cur k) \<noteq> 0 \<and> tty (cur k) \<ge> 0 then k\<lparr>tty_pgrp := (tty_pgrp k)(tty (cur k) := 0)\<rparr> else k)"
  define kb where "kb = (if last_task_used_math ka = current ka then ka\<lparr>last_task_used_math := 0\<rparr> else ka)"
  define kc where "kc = (if leader (cur kb) \<noteq> 0 then kill_session kb else kb)"
  have b: "ts kb = ts k" "task kb = task k" "current kb = current k" "wait_ptr kb = wait_ptr k" "kframes kb = kframes k"
    "process_log kb = process_log k" "jiffies kb = jiffies k" by (simp_all add: ka_def kb_def)
  have "sig_step kb kc" by (simp add: kc_def sig_step_kill_session sig_step_refl)
  note g = sig_step_fields [OF this] sig_step_ts [OF this]
  have f: "process_log kc = process_log k" "jiffies kc = jiffies k" "wait_ptr kc = wait_ptr k" "kframes kc = kframes k"
    "filp (ts kc p) = filp (ts k p)" for p by (simp_all add: kc_def kill_session_fields b)
  have u: "unlogged k kc" using g f by (simp add: unlogged_def slice_ok_def b)
  note i = log_invD [OF unlogged_log [OF inv u]]
  let ?kz = "fprintk (pid (cur kc)) CHR ''E'' (upd_ts (current kc) (\<lambda>t. t\<lparr>state := TASK_ZOMBIE\<rparr>) kc)"
  let ?k = "upd_ts (current kc) (\<lambda>t. t\<lparr>exit_code := code\<rparr>) ?kz"
  have z: "exit_zombie code k = ?k"
    unfolding exit_zombie_def Let_def ka_def [symmetric] kb_def [symmetric] kc_def [symmetric] by simp
  have cur: "current kc = current k" "task kc = task k" using g b by simp_all
  have run: "state (cur kc) = TASK_RUNNING" using i(6) c(1) cur by simp
  have l: "logged P_RUNNING ?kz"
    by (rule stop_logged [OF i(1), where st = TASK_ZOMBIE and c = "CHR ''E''"]) (use c(1) cur run in simp_all)
  then have "sched_wf ?kz" by (simp add: logged_def tasks_ok_def)
  then have wf: "sched_wf ?k" by (rule sched_wf_state) simp_all
  have l: "logged P_RUNNING ?k" by (rule logged_cong [OF l _ _ wf]) simp_all
  have "sleepers_ok ?k"
    by (rule sleepers_okI [OF i(2)])
      (use i(2) log_inv_woken(3) [OF unlogged_log [OF inv u]] in \<open>auto simp: in_slots_def sleepers_ok_def wakes_cong [of ?k kc]\<close>)
  then have "sleepers_ok (push_frame FExit ?k)" by (rule sleepers_push_frame) (use c(2) cur f in \<open>simp_all add: is_FSleepOn_def\<close>)
  moreover have "not_woken (push_frame FExit ?k)" by (simp add: not_woken_def)
  ultimately show ?thesis using schedule_inv [OF logged_push_frame [OF l]] s z by simp
qed

text \<open>\<open>fork\<close>. A process number that is in no line of the log is not in the pool.\<close>

lemma read_line_known:
  assumes "read_line l (pool, t, prev) = Inr (pool', t', prev')"
  shows "last_of pool' n \<noteq> None \<Longrightarrow> last_of pool n \<noteq> None \<or> n = fst l" "prev' = Some l"
proof -
  obtain m c time where l: "l = (m, c, time)" by (cases l)
  show "prev' = Some l" using assms by (auto simp: read_line_def l sbind_Inr_iff Let_def split: if_splits option.splits)
  assume n: "last_of pool' n \<noteq> None"
  show "last_of pool n \<noteq> None \<or> n = fst l"
  proof (cases "upper c = CHR ''N''")
    case True
    then have "new_process m time pool = Inr pool'" using assms by (auto simp: read_line_def l sbind_Inr_iff split: if_splits)
    with n show ?thesis
      by (auto simp: new_process_def last_of_def get_put_process get_process_append l split: option.splits if_splits dest: get_process_pid)
  next
    case False
    then obtain p p' where "get_process pool m = Some p" "change_state (state_named (upper c)) time p = Inr p'" "pool' = put_process pool p'"
      using assms by (auto simp: read_line_def l sbind_Inr_iff Let_def split: if_splits option.splits)
    with n show ?thesis by (auto simp: last_of_def get_put_process split: if_splits)
  qed
qed

lemma read_log_known:
  "read_log i ls (pool, t, prev) = Inr (pool', t', prev') \<Longrightarrow>
     (last_of pool' n \<noteq> None \<longrightarrow> last_of pool n \<noteq> None \<or> n \<in> fst ` set ls) \<and> (prev' = prev \<or> (\<exists>l \<in> set ls. prev' = Some l))"
proof (induction ls arbitrary: i pool t prev)
  case (Cons l ls)
  then obtain pool1 t1 prev1 where 1: "read_line l (pool, t, prev) = Inr (pool1, t1, prev1)"
    "read_log (i + 1) ls (pool1, t1, prev1) = Inr (pool', t', prev')" by (auto split: sum.splits)
  from Cons.IH [OF 1(2)] read_line_known(1) [OF 1(1), of n] read_line_known(2) [OF 1(1)] show ?case by auto
qed simp

lemma log_view_fresh:
  assumes "log_view k L prev" "n \<notin> fst ` set (process_log k)" "n \<noteq> 0" shows "L n = None" "prev \<noteq> Some (n, c, t)"
proof -
  obtain pool pt where r: "read_log 0 (process_log k) log_start = Inr (pool, pt, prev)" "last_of pool = L"
    using assms(1) unfolding log_view_def by blast
  have "last_of (fst log_start) n = None" using assms(3) by (simp add: log_start_def last_of_def)
  with read_log_known [OF r(1) [unfolded log_start_def], of n] assms(2) r(2) show "L n = None" by (auto simp: log_start_def)
  show "prev \<noteq> Some (n, c, t)" using read_log_known [OF r(1) [unfolded log_start_def], of n] assms(2) by force
qed

text \<open>The kernel between \<open>copy_mem\<close> and the first line.\<close>

lemma count_files_log: "process_log (count_files fs k) = process_log k" "jiffies (count_files fs k) = jiffies k"
  "wait_ptr (count_files fs k) = wait_ptr k" "kframes (count_files fs k) = kframes k" "task (count_files fs k) = task k"
  "ts (count_files fs k) = ts k" "current (count_files fs k) = current k"
  by (induction fs arbitrary: k) simp_all

lemma count_inode_log: "process_log (count_inode i k) = process_log k" "jiffies (count_inode i k) = jiffies k"
  "wait_ptr (count_inode i k) = wait_ptr k" "kframes (count_inode i k) = kframes k" "task (count_inode i k) = task k"
  "ts (count_inode i k) = ts k" "current (count_inode i k) = current k"
  by (simp_all add: count_inode_def)

lemma copy_process_steps:
  assumes "copy_process td ld nr r k = Inr (Inr v, k')" "\<And>i. i < 64 \<Longrightarrow> task k i \<noteq> fst (get_free_page (kmm k))" "current k = task k 0 \<or> in_slots 63 k (current k)"
  obtains p ke where "p = fst (get_free_page (kmm k))" "p \<noteq> 0"
    "k' = fprintk (last_pid k) CHR ''J'' (upd_ts p (\<lambda>t. t\<lparr>state := TASK_RUNNING\<rparr>) (fprintk (last_pid k) CHR ''N'' ke))"
    "task ke = (task k)(nr := p)" "\<forall>q. q \<noteq> p \<longrightarrow> ts ke q = ts k q" "pid (ts ke p) = last_pid k"
    "counter (ts ke p) = priority (cur k)" "priority (ts ke p) = priority (cur k)" "process_log ke = process_log k" "jiffies ke = jiffies k" "wait_ptr ke = wait_ptr k"
    "kframes ke = kframes k" "current ke = current k" "current k \<noteq> p"
proof -
  obtain p s where ps: "get_free_page (kmm k) = (p, s)" by force
  have cp: "current k \<noteq> p" using assms(2) [of 0] assms(2,3) by (force simp: in_slots_def ps)
  define k1 where "k1 = k\<lparr>kmm := s\<rparr>"
  have nz: "p \<noteq> 0" using assms(1) ps by (auto simp: copy_process_alt)
  obtain e k2 where cm: "copy_mem nr p (fork_start nr p r k1) = Inr (e, k2)"
    using assms(1) nz unfolding copy_process_alt ps k1_def [symmetric] Let_def prod.case by (auto simp: sbind_Inr_iff k1_def)
  then have "e = Inr 0"
    using copy_mem_cases [OF cm] assms(1) nz unfolding copy_process_alt ps k1_def [symmetric] Let_def prod.case by (auto simp: k1_def sbind_Inr_iff)
  then have k': "k' = fork_end td ld nr p k2"
    using cm assms(1) nz unfolding copy_process_alt ps k1_def [symmetric] Let_def prod.case by (simp_all add: k1_def)
  obtain s' where k2: "k2 = (upd_ts p (child_based nr) (fork_start nr p r k1))\<lparr>kmm := s'\<rparr>" using copy_mem_cases [OF cm] by blast
  have f: "process_log (fork_start nr p r k1) = process_log k" "jiffies (fork_start nr p r k1) = jiffies k"
    "wait_ptr (fork_start nr p r k1) = wait_ptr k" "kframes (fork_start nr p r k1) = kframes k"
    "pid (ts (fork_start nr p r k1) p) = last_pid k" "counter (ts (fork_start nr p r k1) p) = priority (cur k)"
    "priority (ts (fork_start nr p r k1) p) = priority (cur k)"
    using cp by (simp_all add: fork_start_def k1_def child_task_def Let_def)
  define ke where "ke = (count_inode (executable (cur k2)) (count_inode (root (cur k2)) (count_inode (pwd (cur k2)) (count_files (filp (ts k2 p)) k2))))
      \<lparr>gdt := (gdt (count_inode (executable (cur k2)) (count_inode (root (cur k2)) (count_inode (pwd (cur k2)) (count_files (filp (ts k2 p)) k2)))))
        (2 * nr + FIRST_TSS_ENTRY := td p, 2 * nr + FIRST_LDT_ENTRY := ld p)\<rparr>"
  have ke: "ts ke = ts k2" "task ke = task k2" "process_log ke = process_log k2" "jiffies ke = jiffies k2" "wait_ptr ke = wait_ptr k2"
    "kframes ke = kframes k2" "current ke = current k2"
    by (simp_all add: ke_def count_files_log count_inode_log)
  have t2: "ts k2 q = ts k q" if "q \<noteq> p" for q using that by (simp add: k2 k1_def)
  have p2: "pid (ts k2 p) = last_pid k" "counter (ts k2 p) = priority (cur k)" "priority (ts k2 p) = priority (cur k)"
    using f by (simp_all add: k2 child_based_def)
  have "k' = fprintk (pid (ts ke p)) CHR ''J'' (upd_ts p (\<lambda>t. t\<lparr>state := TASK_RUNNING\<rparr>) (fprintk (pid (ts ke p)) CHR ''N'' ke))"
    unfolding k' fork_end_def Let_def ke_def by (simp add: count_files_log count_inode_log)
  then show thesis
    using cp nz p2 t2 f by (intro that [of p ke]) (simp_all add: ps ke, simp_all add: k2 k1_def)
qed

lemma fork_log:
  assumes inv: "log_inv k" and f: "copy_process td ld nr r k = Inr (Inr v, k')" "1 \<le> nr" "nr \<le> 63" "task k nr = 0"
    and fresh: "\<And>i. i < 64 \<Longrightarrow> task k i \<noteq> fst (get_free_page (kmm k))" "last_pid k \<noteq> 0" "last_pid k \<notin> fst ` set (process_log k)" "slice_ok (cur k)"
  shows "log_inv k'"
proof -
  note i = log_invD [OF inv]
  let ?n = "last_pid k"
  obtain p ke where p: "p = fst (get_free_page (kmm k))" "p \<noteq> 0"
    and k': "k' = fprintk ?n CHR ''J'' (upd_ts p (\<lambda>t. t\<lparr>state := TASK_RUNNING\<rparr>) (fprintk ?n CHR ''N'' ke))"
    and ke: "task ke = (task k)(nr := p)" "\<forall>q. q \<noteq> p \<longrightarrow> ts ke q = ts k q" "pid (ts ke p) = ?n" "counter (ts ke p) = priority (cur k)"
      "priority (ts ke p) = priority (cur k)" "process_log ke = process_log k" "jiffies ke = jiffies k" "wait_ptr ke = wait_ptr k"
      "kframes ke = kframes k" "current ke = current k" "current k \<noteq> p"
    by (rule copy_process_steps [OF f(1) fresh(1) i(7)])
  have np: "task k j \<noteq> p" if "j < 64" for j using fresh(1) [OF that] p(1) by simp
  have ts': "ts k' q = (if q = p then (ts ke p)\<lparr>state := TASK_RUNNING\<rparr> else ts k q)" for q using ke(2) by (simp add: k')
  have tk: "task k' = (task k)(nr := p)" "current k' = current k" "wait_ptr k' = wait_ptr k" "kframes k' = kframes k" by (simp_all add: k' ke)
  have sl: "in_slots 63 k' q \<longleftrightarrow> in_slots 63 k q \<or> q = p" for q
  proof -
    have nr: "nr \<in> {1..63}" using f(2,3) by simp
    have "in_slots 63 k' p" using nr p(2) by (auto simp: in_slots_def tk)
    moreover have "in_slots 63 k' q" if q: "in_slots 63 k q"
    proof -
      from q obtain j where "j \<in> {1..63}" "task k j = q" "q \<noteq> 0" by (auto simp: in_slots_def)
      moreover have "j \<noteq> nr" using calculation f(4) by auto
      ultimately show ?thesis unfolding in_slots_def tk by (intro conjI bexI [of _ j]) simp_all
    qed
    moreover have "in_slots 63 k q \<or> q = p" if "in_slots 63 k' q"
      using that unfolding in_slots_def tk by (auto split: if_splits)
    ultimately show ?thesis by blast
  qed
  have nslot: "\<not> in_slots 63 k p" using np by (auto simp: in_slots_def)
  obtain L prev where l: "logged_as P_RUNNING k L prev" using i(1) by (auto simp: logged_def)
  then have v: "log_view ke L prev" by (auto simp: logged_as_def ke intro: log_view_cong [of k L prev ke])
  have lf: "L ?n = None" "\<And>t. prev \<noteq> Some (?n, CHR ''N'', t)"
    using log_view_fresh [of k L prev ?n] l fresh(2,3) by (auto simp: logged_as_def)
  have op: "log_open ke" using i(3) np [of 0] f(2) ke(2) by (simp add: tasks_ok_def log_open_def ke(1))
  have v1: "log_view (fprintk ?n CHR ''N'' ke) (L(?n := Some (P_NEW, jiffies k))) (Some (?n, CHR ''N'', jiffies k))"
    using fprintk_view_new [OF v op lf] by (simp add: ke)
  let ?kn = "upd_ts p (\<lambda>t. t\<lparr>state := TASK_RUNNING\<rparr>) (fprintk ?n CHR ''N'' ke)"
  have v2: "log_view ?kn (L(?n := Some (P_NEW, jiffies k))) (Some (?n, CHR ''N'', jiffies k))"
    by (rule log_view_cong [OF v1]) simp_all
  have op2: "log_open ?kn" by (rule log_open_upd) (use op in \<open>simp_all add: log_open_def\<close>)
  have v': "log_view k' (L(?n := Some (P_READY, jiffies k))) (Some (?n, CHR ''J'', jiffies k))"
    using fprintk_view [OF v2 op2, of "CHR ''J''" ?n P_NEW "jiffies k"] fresh(2) by (simp add: k' ke P_defs)
  have pids: "pid (ts k q) \<noteq> ?n" if "in_slots 63 k q" for q using l lf(1) that by (auto simp: logged_as_def)
  have t0: "task k' 0 = task k 0" "task k 0 \<noteq> p" using f(2) np [of 0] by (simp_all add: k' ke)
  have "slice_ok (ts k' p)" using fresh(4) by (simp add: ts' slice_ok_def ke)
  moreover have "tasks_distinct k'"
    unfolding tasks_distinct_def tk
  proof (intro allI impI)
    fix a b assume "((task k)(nr := p)) a = ((task k)(nr := p)) b" "a < NR_TASKS" "b < NR_TASKS" "((task k)(nr := p)) a \<noteq> 0"
    moreover have "\<And>a b. task k a = task k b \<Longrightarrow> a < NR_TASKS \<Longrightarrow> b < NR_TASKS \<Longrightarrow> task k a \<noteq> 0 \<Longrightarrow> a = b"
      using i(4) unfolding sched_wf_def tasks_distinct_def by blast
    ultimately show "a = b" using np [of a] np [of b] by (cases "a = nr"; cases "b = nr") simp_all
  qed
  moreover have "slice_ok (ts k' q)" if "in_slots 63 k q" for q
    using i(4) that nslot by (cases "q = p") (simp_all add: sched_wf_def ts')
  ultimately have wf: "sched_wf k'" using i(4) t0 by (auto simp: sched_wf_def sl)
  have ok: "tasks_ok k'"
    unfolding tasks_ok_def
  proof (intro conjI allI impI)
    show "log_open k'" "pid (ts k' (task k' 0)) = 0" using i(3) t0 by (simp_all add: tasks_ok_def log_open_def ts')
    show "current k' = task k' 0 \<or> in_slots 63 k' (current k')" using i(7) t0 by (auto simp: sl tk(2))
    have n: "pid (ts k' q) = (if q = p then ?n else pid (ts k q))" for q by (simp add: ts' ke(3))
    show "pid (ts k' q) \<noteq> 0" if "in_slots 63 k' q" for q
    proof (cases "q = p")
      case False
      then have "in_slots 63 k q" using that by (simp add: sl)
      with False i(3) show ?thesis by (simp add: n tasks_ok_def)
    qed (simp add: n fresh(2))
    show "a = b" if "in_slots 63 k' a" "in_slots 63 k' b" "pid (ts k' a) = pid (ts k' b)" for a b
    proof -
      have inj: "in_slots 63 k a \<Longrightarrow> in_slots 63 k b \<Longrightarrow> pid (ts k a) = pid (ts k b) \<Longrightarrow> a = b" using i(3) by (simp add: tasks_ok_def)
      show ?thesis using that inj pids [of a] pids [of b] unfolding n sl by (cases "a = p"; cases "b = p") simp_all
    qed
  qed (rule wf)
  have "logged_as P_RUNNING k' (L(?n := Some (P_READY, jiffies k))) (Some (?n, CHR ''J'', jiffies k))"
    unfolding logged_as_def
  proof (intro conjI allI impI)
    fix q assume "in_slots 63 k' q"
    then have q: "q = p \<or> q \<noteq> p \<and> in_slots 63 k q" by (auto simp: sl)
    then show "\<exists>t. (L(?n := Some (P_READY, jiffies k))) (pid (ts k' q)) = Some (task_log_state P_RUNNING k' q, t)"
    proof
      assume "q = p"
      then show ?thesis using ke(11) [symmetric] by (simp add: ts' ke(3) task_log_state_def tk)
    next
      assume "q \<noteq> p \<and> in_slots 63 k q"
      then show ?thesis using l pids [of q] by (auto simp: logged_as_def task_log_state_def ts' tk)
    qed
  qed (use v' l fresh(2) in \<open>auto simp: logged_as_def\<close>)
  with ok have "logged P_RUNNING k'" by (auto simp: logged_def)
  moreover have "sleepers_ok k'"
  proof (rule sleepers_okI [OF i(2)])
    show "wakes k' r t \<Longrightarrow> wakes k r t" for r t using wakes_cong [OF tk(3,4)] by simp
    show "in_slots 63 k t \<Longrightarrow> state (ts k t) = TASK_UNINTERRUPTIBLE \<Longrightarrow> in_slots 63 k' t \<and> state (ts k' t) = TASK_UNINTERRUPTIBLE" for t
      using nslot by (cases "t = p") (simp_all add: sl ts')
    show "length (kframes k' q) \<le> 1" for q using i(2) by (simp add: tk(4) sleepers_ok_def)
  qed
  ultimately show ?thesis using i(6) ke(11) t0 by (auto simp: log_inv_def ts' tk(1,2))
qed

section \<open>Runs\<close>

text \<open>What may happen to a kernel from the moment \<open>main\<close> has opened the log: any interleaving of sleeping, waking (also from interrupts), time
  slices, \<open>pause\<close>, \<open>waitpid\<close>, \<open>exit\<close>, \<open>fork\<close> and steps that do not touch the log, where a task that sleeps until a signal
  comes has none pending, the idle task does not sleep in \<open>sleep_on\<close>, and a process number is not used twice.\<close>

inductive log_step :: "kern \<Rightarrow> kern \<Rightarrow> bool" where
  L_sleep: "current k \<noteq> task k 0 \<Longrightarrow> kframes k (current k) = [] \<Longrightarrow> p \<noteq> 0 \<Longrightarrow> sleep_on p k = Some k' \<Longrightarrow> log_step k k'"
| L_wake: "log_step k (wake_up p k)"
| L_sleep_back: "kframes k (current k) = FSleepOn p tmp # fr \<Longrightarrow> log_step k (sleep_on_leave tmp (pop_frame k))"
| L_back: "kframes k (current k) = f # fr \<Longrightarrow> \<not> is_FSleepOn f \<Longrightarrow> log_step k (pop_frame k)"
| L_tick: "kframes k (current k) = [] \<Longrightarrow> schedule (push_frame FTick k) = Some k' \<Longrightarrow> log_step k k'"
| L_idle: "current k = task k 0 \<Longrightarrow> kframes k (current k) = [] \<Longrightarrow> sys_pause k = Some k' \<Longrightarrow> log_step k k'"
| L_pause: "current k \<noteq> task k 0 \<Longrightarrow> kframes k (current k) = [] \<Longrightarrow> \<not> pending k \<Longrightarrow> sys_pause k = Some k' \<Longrightarrow> log_step k k'"
| L_wait: "current k \<noteq> task k 0 \<Longrightarrow> kframes k (current k) = [] \<Longrightarrow> (wait_loop 63 n opts False k = WEnd True \<Longrightarrow> \<not> pending k) \<Longrightarrow>
    wait_repeat n a opts k = Inr (None, k') \<Longrightarrow> log_step k k'"
| L_exit: "current k \<noteq> task k 0 \<Longrightarrow> kframes k (current k) = [] \<Longrightarrow> schedule (push_frame FExit (exit_zombie code k)) = Some k' \<Longrightarrow> log_step k k'"
| L_fork: "copy_process td ld nr r k = Inr (Inr v, k') \<Longrightarrow> 1 \<le> nr \<Longrightarrow> nr \<le> 63 \<Longrightarrow> task k nr = 0 \<Longrightarrow>
    (\<And>i. i < 64 \<Longrightarrow> task k i \<noteq> fst (get_free_page (kmm k))) \<Longrightarrow> last_pid k \<noteq> 0 \<Longrightarrow> last_pid k \<notin> fst ` set (process_log k) \<Longrightarrow>
    slice_ok (cur k) \<Longrightarrow> log_step k k'"
| L_other: "unlogged k k' \<Longrightarrow> log_step k k'"

definition log_begins :: "kern \<Rightarrow> bool" where
  "log_begins k \<longleftrightarrow> task k 0 \<noteq> 0 \<and> (\<forall>i > 0. task k i = 0) \<and> current k = task k 0 \<and> pid (cur k) = 0 \<and> log_open k \<and> process_log k = [] \<and>
     40 \<le> jiffies k \<and> (\<forall>p. wait_ptr k p = 0) \<and> (\<forall>q. kframes k q = [])"

inductive log_runs :: "kern \<Rightarrow> bool" where
  log_runs_begin: "log_begins k \<Longrightarrow> log_runs k"
| log_runs_step: "log_runs k \<Longrightarrow> log_step k k' \<Longrightarrow> log_runs k'"

lemma log_begins_inv:
  assumes "log_begins k" shows "log_inv k"
proof -
  note b = assms [unfolded log_begins_def]
  have n: "\<not> in_slots 63 k p" for p using b by (auto simp: in_slots_def)
  have "tasks_distinct k" using b unfolding tasks_distinct_def by (metis neq0_conv)
  then have "tasks_ok k" using b n by (auto simp: tasks_ok_def sched_wf_def)
  moreover have v: "log_view k (last_of (fst log_start)) None"
    using b by (auto simp: log_view_def log_start_def last_of_def split: if_splits)
  have "logged_as P_RUNNING k (last_of (fst log_start)) None"
    unfolding logged_as_def using v n by (auto simp: log_start_def last_of_def P_defs)
  moreover have "\<not> wakes k r t" if "t \<noteq> 0" for r t using b that by (cases r) auto
  ultimately show ?thesis using b by (auto simp: log_inv_def logged_def sleepers_ok_def)
qed

lemma log_step_inv: "log_step k k' \<Longrightarrow> log_inv k \<Longrightarrow> log_inv k'"
proof (induction rule: log_step.induct)
  case L_sleep then show ?case by (blast intro: sleep_on_log)
next
  case L_wake then show ?case by (blast intro: wake_up_log)
next
  case L_sleep_back then show ?case by (blast intro: sleep_on_leave_log)
next
  case L_back then show ?case by (blast intro: pop_frame_inv)
next
  case L_tick then show ?case by (blast intro: tick_log)
next
  case L_idle then show ?case by (blast intro: idle_pause_log)
next
  case L_pause then show ?case by (blast intro: sys_pause_log)
next
  case (L_wait k n opts a k') then show ?case using wait_repeat_log by metis
next
  case L_exit then show ?case by (blast intro: exit_log)
next
  case L_fork then show ?case using fork_log by metis
next
  case L_other then show ?case by (blast intro: unlogged_log)
qed

lemma log_runs_inv: "log_runs k \<Longrightarrow> log_inv k"
  by (induction rule: log_runs.induct) (auto intro: log_begins_inv log_step_inv)

section \<open>Properties\<close>


lemma logged_any:
  assumes "logged x k" "state (cur k) \<noteq> TASK_RUNNING" shows "logged y k"
proof -
  have "task_log_state x k p = task_log_state y k p" for p using assms(2) by (auto simp: task_log_state_def split: task_state.split)
  then show ?thesis using assms(1) by (simp add: logged_def logged_as_def)
qed

lemma leave_to_rejected:
  assumes l: "logged P_READY k" and c: "in_slots 63 k (current k)" "state (cur k) = TASK_RUNNING" "task k n \<noteq> current k"
  shows "\<exists>i. stat_log (process_log (leave_to n k)) \<in> {Inl (i, SameLine), Inl (i, RepeatState (pid (cur k)))}"
proof -
  let ?n = "pid (cur k)"
  obtain L prev where v: "logged_as P_READY k L prev" and ok: "tasks_ok k" using l by (auto simp: logged_def)
  have n: "?n \<noteq> 0" using ok c(1) by (simp add: tasks_ok_def)
  obtain t where t: "L ?n = Some (P_READY, t)" using v c by (auto simp: logged_as_def task_log_state_def)
  obtain pool pt where r: "read_log 0 (process_log k) log_start = Inr (pool, pt, prev)" "last_of pool = L" "pt \<le> jiffies k" "t \<le> jiffies k"
    using v t unfolding logged_as_def log_view_def by blast
  have e: "read_line (?n, CHR ''J'', jiffies k) (pool, pt, prev) =
      Inl (if prev = Some (?n, CHR ''J'', jiffies k) then SameLine else RepeatState ?n)"
    using t r n by (intro read_line_repeat [of _ _ _ t]) simp_all
  have op: "filp (ts k (task k 0)) ! 3 \<noteq> 0" using ok by (simp add: tasks_ok_def log_open_def)
  obtain ls where "process_log (leave_to n k) = process_log k @ (?n, CHR ''J'', jiffies k) # ls"
    using c op by (simp add: leave_to_def process_log_switch_to Let_def fprintk_def)
  then show ?thesis using r(1) e by (simp add: stat_log_def read_log_append)
qed

text \<open>C40. But when a task calls \<open>pause\<close> or \<open>waitpid\<close> with a signal already pending (as the parent in the lab's \<open>process.c\<close> may do,
  when a child has ended in the meantime), \<open>schedule\<close> makes it ready at once and notes it; if another task is chosen, it notes the same
  again, as if the time slice of a running task were over, and \<open>stat_log.py\<close> rejects the log.\<close>

theorem pending_signal_spoils_log:
  assumes "logged P_RUNNING k" "current k \<noteq> task k 0" "state (cur k) = TASK_RUNNING" "pending k" "current k' \<noteq> current k"
    and "sys_pause k = Some k' \<or> wait_loop 63 n opts False k = WEnd True \<and> wait_repeat n a opts k = Inr (None, k')"
  shows "\<exists>i. stat_log (process_log k') \<in> {Inl (i, SameLine), Inl (i, RepeatState (pid (cur k)))}"
proof -
  have ok: "tasks_ok k" using assms(1) by (simp add: logged_def)
  let ?kw = "fprintk (pid (cur k)) CHR ''W'' (upd_ts (current k) (\<lambda>t. t\<lparr>state := TASK_INTERRUPTIBLE\<rparr>) k)"
  have c: "in_slots 63 k (current k)" "state (cur k) = TASK_RUNNING" using ok assms(2,3) by (auto simp: tasks_ok_def)
  then have "pid (cur k) \<noteq> 0" using ok by (simp add: tasks_ok_def)
  then obtain f where s: "schedule (push_frame f ?kw) = Some k'"
    using assms(6) by (auto simp: sys_pause_def wait_repeat_def sbind_Inr_iff schedule_k_def Let_def split: if_splits option.splits)
  let ?k = "push_frame f ?kw"
  have "logged P_RUNNING ?k"
    by (rule logged_push_frame, rule stop_logged [OF assms(1), where st = TASK_INTERRUPTIBLE and c = "CHR ''W''"]) (use c assms(2) in simp_all)
  then have l: "logged P_READY ?k" by (rule logged_any) simp
  obtain m k2 where k2: "k' = leave_to m k2" "logged P_READY k2" "task k2 = task k" "current k2 = current k"
    "\<And>p. state (ts k2 p) = state (ts (check_signals ?k) p)" "\<And>p. pid (ts k2 p) = pid (ts k p)"
    by (rule schedule_cases [OF l _ s]) auto
  have d: "tasks_distinct ?k" using l by (simp add: logged_def tasks_ok_def sched_wf_def)
  have "in_slots 63 ?k (current k)" using c(1) by (simp add: in_slots_def)
  then have "state (cur k2) = TASK_RUNNING"
    using assms(4) by (simp add: k2(4,5) check_signals_ts [OF d] after_check_def Let_def after_alarm_state pending_def)
  moreover have "in_slots 63 k2 (current k2)" using c(1) by (simp add: in_slots_def k2(3,4))
  moreover have "task k2 m \<noteq> current k2" using assms(5) k2(1,4) by simp
  ultimately show ?thesis using leave_to_rejected [OF k2(2)] by (simp add: k2(1,4,6))
qed

section \<open>Witnesses\<close>

text \<open>The kernel when \<open>main\<close> has opened the log, and after its \<open>fork\<close>.\<close>

definition kern_log :: kern where
  "kern_log = kern1\<lparr>task := (\<lambda>_. 0)(0 := 0x1000), ts := (\<lambda>_. (some_task 0 TASK_RUNNING 15)\<lparr>filp := replicate NR_OPEN 1\<rparr>), current := 0x1000, last_pid := 1\<rparr>"


text \<open>Two processes: process 2 runs, with \<open>SIGCHLD\<close> pending, and process 1 is ready.\<close>

definition kern_child :: kern where
  "kern_child = kern1\<lparr>ts := (\<lambda>_. (some_task 0 TASK_RUNNING 15)\<lparr>filp := replicate NR_OPEN 1\<rparr>)
       (0x200000 := some_task 1 TASK_RUNNING 9, 0x201000 := (some_task 2 TASK_RUNNING 3)\<lparr>signal := S_bit SIGCHLD\<rparr>),
     process_log := [(1, CHR ''N'', 80), (1, CHR ''J'', 80), (2, CHR ''N'', 90), (2, CHR ''J'', 90), (2, CHR ''R'', 95)]\<rparr>"


theorem pending_signal_spoils_log_witness:
  "\<exists>k' i. sys_pause kern_child = Some k' \<and> current k' = 0x200000 \<and> stat_log (process_log k') \<in> {Inl (i, SameLine), Inl (i, RepeatState 2)}"
proof -
  have m: "task kern_child = (\<lambda>_. 0)(0 := 0x1000, 1 := 0x200000, 2 := 0x201000)" "current kern_child = 0x201000" "jiffies kern_child = 100"
    "ts kern_child = (\<lambda>_. (some_task 0 TASK_RUNNING 15)\<lparr>filp := replicate NR_OPEN 1\<rparr>)
       (0x200000 := some_task 1 TASK_RUNNING 9, 0x201000 := (some_task 2 TASK_RUNNING 3)\<lparr>signal := S_bit SIGCHLD\<rparr>)"
    "process_log kern_child = [(1, CHR ''N'', 80), (1, CHR ''J'', 80), (2, CHR ''N'', 90), (2, CHR ''J'', 90), (2, CHR ''R'', 95)]"
    by (simp_all add: kern_child_def kern1_def)
  have sl: "in_slots 63 kern_child p \<longleftrightarrow> p = 0x200000 \<or> p = 0x201000" for p
  proof
    assume "in_slots 63 kern_child p"
    then show "p = 0x200000 \<or> p = 0x201000" by (auto simp: in_slots_def m split: if_splits)
  next
    assume "p = 0x200000 \<or> p = 0x201000"
    then show "in_slots 63 kern_child p"
      by (elim disjE) (auto simp: in_slots_def m intro: bexI [of _ 1] bexI [of _ 2])
  qed
  have "tasks_distinct kern_child" by (auto simp: tasks_distinct_def m split: if_splits)
  then have ok: "tasks_ok kern_child" by (auto simp: tasks_ok_def sched_wf_def log_open_def sl m slice_ok_def NR_OPEN_def)
  define L where "L = [0 :: int \<mapsto> (P_RUNNING, 40 :: int), 1 \<mapsto> (P_READY, 80), 2 \<mapsto> (P_RUNNING, 95)]"
  have "read_log 0 (process_log kern_child) log_start =
      Inr ([\<lparr>p_pid = 0, p_states = [(P_NEW, 40), (P_RUNNING, 40)]\<rparr>, \<lparr>p_pid = 1, p_states = [(P_NEW, 80), (P_READY, 80)]\<rparr>,
        \<lparr>p_pid = 2, p_states = [(P_NEW, 90), (P_READY, 90), (P_RUNNING, 95)]\<rparr>], 95, Some (2, CHR ''R'', 95))" (is "_ = Inr (?pool, _, _)")
    by (simp add: m log_start_def read_line_def new_process_def change_state_def P_defs)
  moreover have "last_of ?pool = L" by (auto simp: last_of_def L_def)
  ultimately have "log_view kern_child L (Some (2, CHR ''R'', 95))" by (auto simp: log_view_def m L_def split: if_splits)
  then have "logged_as P_RUNNING kern_child L (Some (2, CHR ''R'', 95))"
    by (auto simp: logged_as_def sl m task_log_state_def L_def P_defs)
  with ok have l: "logged P_RUNNING kern_child" by (auto simp: logged_def)
  have pend: "pending kern_child" by (simp add: pending_def m after_alarm_def signalled_def S_bit_def SIGCHLD_def BLOCKABLE_def SIGKILL_def SIGSTOP_def)
  let ?k = "push_frame FPause (fprintk 2 CHR ''W'' (upd_ts 0x201000 (\<lambda>t. t\<lparr>state := TASK_INTERRUPTIBLE\<rparr>) kern_child))"
  have s: "sys_pause kern_child = schedule ?k" by (simp add: sys_pause_def m)
  have wf: "sched_wf ?k" by (rule sched_wf_state [of kern_child]) (use ok in \<open>simp_all add: tasks_ok_def\<close>)
  obtain n k2 k' where k': "schedule ?k = Some k'" "best k2 n" "current k' = task ?k n" "task k2 = task ?k"
    "k2 = (if (\<exists>i \<in> {1..63}. runnable (check_signals ?k) i) \<and>
              (\<forall>i \<in> {1..63}. runnable (check_signals ?k) i \<longrightarrow> slice (check_signals ?k) i = 0)
           then recharge (check_signals ?k) else check_signals ?k)"
    by (rule schedule_wf [OF wf])
  have d: "tasks_distinct ?k" using wf by (simp add: sched_wf_def)
  have c: "runnable (check_signals ?k) 1" "slice (check_signals ?k) 1 = 9" "slice (check_signals ?k) 2 = 3"
    by (simp_all add: runnable_def check_signals_ts [OF d] m after_check_def after_alarm_def Let_def)
  then have k2: "k2 = check_signals ?k" using k'(5) by auto
  have "n = 1"
    using k'(2) c unfolding k2 best_def by (auto simp: runnable_def m split: if_splits)
  then have cur: "current k' = 0x200000" using k'(3) by (simp add: m)
  have "\<exists>i. stat_log (process_log k') \<in> {Inl (i, SameLine), Inl (i, RepeatState (pid (cur kern_child)))}"
    by (rule pending_signal_spoils_log [OF l _ _ pend]) (use s k'(1) cur in \<open>simp_all add: m\<close>)
  with s k'(1) cur show ?thesis by (auto simp: m)
qed

end
