(* ===== verification/Memtest.thy ===== *)
theory Memtest imports Kprelude begin

text \<open>
  \<open>tmp/memtest.c\<close>, a program that tests blocks of memory in threads. Memory is a state of any type with the two operations
  \<open>load\<close> and \<open>store\<close>, so that it may be broken; addresses are natural numbers, and NULL is 0. What the program prints is data. A worker is a function of the
  memory: other threads work on other blocks. The allocator and the thread library are arguments.
\<close>

definition TEST_MEM_SIZE_PER_THREAD :: nat where "TEST_MEM_SIZE_PER_THREAD = 0x40000"
definition MAX_NUM_THREADS :: nat where "MAX_NUM_THREADS = 16"
definition MIN_NUM_THREADS :: nat where "MIN_NUM_THREADS = 0x100000 div TEST_MEM_SIZE_PER_THREAD"
definition MAX_NUM_TESTS :: nat where "MAX_NUM_TESTS = 5"
definition MIN_NUM_TESTS :: nat where "MIN_NUM_TESTS = 1"

record worker =
  w_tid :: nat
  startAddress :: nat
  workAddress :: nat

text \<open>The variables of the program; \<open>heap\<close> lists the blocks that \<open>malloc\<close> gave and that were not given back.\<close>

record memtest =
  workers :: "worker list"
  testTimes :: nat
  threadsNumber :: nat
  heap :: "nat list"

definition no_worker :: worker where "no_worker = \<lparr>w_tid = 0, startAddress = 0, workAddress = 0\<rparr>"

definition memtest_start :: memtest where
  "memtest_start = \<lparr>workers = replicate MAX_NUM_THREADS no_worker, testTimes = MIN_NUM_TESTS, threadsNumber = MIN_NUM_THREADS, heap = []\<rparr>"

definition give_back :: "nat \<Rightarrow> memtest \<Rightarrow> memtest" where "give_back a s = (if a = 0 then s else s\<lparr>heap := remove1 a (heap s)\<rparr>)"

section \<open>A worker\<close>

text \<open>The loop over \<open>chs\<close> at one address: \<open>Inl\<close> with the character written and the one read.\<close>

fun test_chars :: "('m \<Rightarrow> nat \<Rightarrow> u8) \<Rightarrow> (nat \<Rightarrow> u8 \<Rightarrow> 'm \<Rightarrow> 'm) \<Rightarrow> nat \<Rightarrow> u8 list \<Rightarrow> 'm \<Rightarrow> ((u8 \<times> u8) \<times> 'm) + 'm" where
  "test_chars load store a [] m = Inr m"
| "test_chars load store a (c # cs) m =
     (let m = store a c m; ch = load m a in if ch \<noteq> c then Inl ((c, ch), m) else test_chars load store a cs m)"

text \<open>\<open>n\<close> rounds from the \<open>i\<close>-th on; a failure has the number of the round, which the program takes for that of the thread when it prints.\<close>

fun test_rounds :: "('m \<Rightarrow> nat \<Rightarrow> u8) \<Rightarrow> (nat \<Rightarrow> u8 \<Rightarrow> 'm \<Rightarrow> 'm) \<Rightarrow> nat \<Rightarrow> u8 list \<Rightarrow> nat \<Rightarrow> nat \<Rightarrow> 'm \<Rightarrow> ((nat \<times> u8 \<times> u8) \<times> 'm) + 'm" where
  "test_rounds load store a chs 0 i m = Inr m"
| "test_rounds load store a chs (Suc n) i m =
     (case test_chars load store a chs m of
        Inl (e, m) \<Rightarrow> Inl ((i, e), m)
      | Inr m \<Rightarrow> test_rounds load store a chs n (Suc i) m)"

text \<open>The loop over the addresses: the address where the worker stopped, what it found, and memory.\<close>

function work_loop :: "('m \<Rightarrow> nat \<Rightarrow> u8) \<Rightarrow> (nat \<Rightarrow> u8 \<Rightarrow> 'm \<Rightarrow> 'm) \<Rightarrow> u8 list \<Rightarrow> nat \<Rightarrow> nat \<Rightarrow> nat \<Rightarrow> 'm \<Rightarrow> nat \<times> (nat \<times> u8 \<times> u8) option \<times> 'm" where
  "work_loop load store chs n endAdress a m =
     (if a \<le> endAdress then
        (case test_rounds load store a chs n 0 m of
           Inl (e, m) \<Rightarrow> (a, Some e, m)
         | Inr m \<Rightarrow> work_loop load store chs n endAdress (a + 1) m)
      else (a, None, m))"
  by pat_completeness auto
termination by (relation "measure (\<lambda>(load, store, chs, n, e, a, m). Suc e - a)") auto

declare work_loop.simps [simp del]

definition test_chs :: "u8 \<Rightarrow> u8 list" where "test_chs rnd = [0, 0x55, 0xAA, 0xFF, rnd]"

definition mem_test_work :: "('m \<Rightarrow> nat \<Rightarrow> u8) \<Rightarrow> (nat \<Rightarrow> u8 \<Rightarrow> 'm \<Rightarrow> 'm) \<Rightarrow> u8 \<Rightarrow> nat \<Rightarrow> nat \<Rightarrow> memtest \<Rightarrow> 'm \<Rightarrow> (nat \<times> u8 \<times> u8) option \<times> memtest \<times> 'm" where
  "mem_test_work load store rnd indexP index s m =
     (let s = give_back indexP s; s = s\<lparr>testTimes := (if testTimes s > MAX_NUM_TESTS then MAX_NUM_TESTS else testTimes s)\<rparr>;
          w = workers s ! index; endAdress = startAddress w + TEST_MEM_SIZE_PER_THREAD;
          (a, r, m) = work_loop load store (test_chs rnd) (testTimes s) endAdress (workAddress w) m
      in (r, s\<lparr>workers := (workers s)[index := w\<lparr>workAddress := a\<rparr>]\<rparr>, m))"

section \<open>The instructions\<close>

text \<open>\<open>my_abort\<close>: cancels every thread. \<open>cancel\<close> is the result of \<open>pthread_cancel\<close>, \<open>join\<close> that of \<open>pthread_join\<close>, with the status.\<close>

datatype abort_line = Join_error nat int | Joined nat int

fun abort_loop :: "(nat \<Rightarrow> int) \<Rightarrow> (nat \<Rightarrow> int + int) \<Rightarrow> nat \<Rightarrow> nat \<Rightarrow> memtest \<times> abort_line list \<Rightarrow> memtest \<times> abort_line list" where
  "abort_loop cancel join 0 i (s, out) = (s, out)"
| "abort_loop cancel join (Suc n) i (s, out) =
     (let t = w_tid (workers s ! i);
          out = (if t \<noteq> 0 \<and> cancel t \<noteq> 0
                 then (case join t of Inl rc \<Rightarrow> out @ [Join_error t rc] | Inr st \<Rightarrow> out @ [Joined t st]) else out);
          s = s\<lparr>workers := (workers s)[i := no_worker]\<rparr>;
          s = give_back (startAddress (workers s ! i)) s
      in abort_loop cancel join n (Suc i) (s, out))"

definition my_abort :: "(nat \<Rightarrow> int) \<Rightarrow> (nat \<Rightarrow> int + int) \<Rightarrow> memtest \<Rightarrow> memtest \<times> abort_line list" where
  "my_abort cancel join s = abort_loop cancel join MAX_NUM_THREADS 0 (s, [])"

text \<open>\<open>go\<close>: \<open>malloc i\<close> is the block for the worker \<open>i\<close>, \<open>malloc' i\<close> that for its index, \<open>create i\<close> the new thread or the error of
  \<open>pthread_create\<close>. The result says whether the program goes on or ends in \<open>pthread_exit\<close>.\<close>

fun go_loop :: "(nat \<Rightarrow> nat) \<Rightarrow> (nat \<Rightarrow> nat) \<Rightarrow> (nat \<Rightarrow> int + nat) \<Rightarrow> (memtest \<Rightarrow> memtest) \<Rightarrow> nat \<Rightarrow> nat \<Rightarrow> memtest \<Rightarrow> bool \<times> memtest" where
  "go_loop malloc malloc' create abort 0 i s = (True, s)"
| "go_loop malloc malloc' create abort (Suc n) i s =
     (let a = malloc i in
      if a = 0 then (False, s)
      else let s = s\<lparr>heap := a # heap s, workers := (workers s)[i := \<lparr>w_tid = 0, startAddress = a, workAddress = a\<rparr>]\<rparr>; x = malloc' i in
      if x = 0 then (False, s)
      else let s = s\<lparr>heap := x # heap s\<rparr> in
        case create i of
          Inl rc \<Rightarrow> (False, abort (give_back a (s\<lparr>workers := (workers s)[i := no_worker]\<rparr>)))
        | Inr t \<Rightarrow> go_loop malloc malloc' create abort n (Suc i) (s\<lparr>workers := (workers s)[i := (workers s ! i)\<lparr>w_tid := t\<rparr>]\<rparr>))"

definition go :: "(nat \<Rightarrow> nat) \<Rightarrow> (nat \<Rightarrow> nat) \<Rightarrow> (nat \<Rightarrow> int + nat) \<Rightarrow> (memtest \<Rightarrow> memtest) \<Rightarrow> memtest \<Rightarrow> bool \<times> memtest" where
  "go malloc malloc' create abort s =
     (let n = (if threadsNumber s > MAX_NUM_THREADS then MAX_NUM_THREADS else threadsNumber s);
          n = (if n < MIN_NUM_THREADS then MIN_NUM_THREADS else n)
      in go_loop malloc malloc' create abort n 0 (s\<lparr>threadsNumber := n\<rparr>))"

text \<open>\<open>status\<close>: the line of a worker, with the percentage. The product of the quotient, a fraction of \<open>2^18\<close>, with 100 is exact in a \<open>double\<close>.\<close>

definition status :: "memtest \<Rightarrow> (nat \<times> nat \<times> nat) list" where
  "status s =
     map (\<lambda>w. let testedSize = workAddress w - startAddress w in
            (w_tid w, startAddress w, if testedSize \<ge> TEST_MEM_SIZE_PER_THREAD then 100 else testedSize * 100 div TEST_MEM_SIZE_PER_THREAD))
       (filter (\<lambda>w. w_tid w \<noteq> 0) (workers s))"

section \<open>What a worker finds\<close>

text \<open>A cell keeps a character, or loses it, whatever the memory is.\<close>

definition keeps :: "('m \<Rightarrow> nat \<Rightarrow> u8) \<Rightarrow> (nat \<Rightarrow> u8 \<Rightarrow> 'm \<Rightarrow> 'm) \<Rightarrow> nat \<Rightarrow> u8 \<Rightarrow> bool" where
  "keeps load store a c \<longleftrightarrow> (\<forall>m. load (store a c m) a = c)"

definition loses :: "('m \<Rightarrow> nat \<Rightarrow> u8) \<Rightarrow> (nat \<Rightarrow> u8 \<Rightarrow> 'm \<Rightarrow> 'm) \<Rightarrow> nat \<Rightarrow> u8 \<Rightarrow> bool" where
  "loses load store a c \<longleftrightarrow> (\<forall>m. load (store a c m) a \<noteq> c)"

lemma test_chars_Inr:
  assumes "\<forall>c \<in> set cs. keeps load store a c \<or> loses load store a c"
  shows "(\<exists>m'. test_chars load store a cs m = Inr m') \<longleftrightarrow> (\<forall>c \<in> set cs. keeps load store a c)"
  using assms by (induction cs arbitrary: m) (auto simp: Let_def keeps_def loses_def)

lemma test_rounds_Inr:
  assumes "\<forall>c \<in> set cs. keeps load store a c \<or> loses load store a c"
  shows "(\<exists>m'. test_rounds load store a cs n i m = Inr m') \<longleftrightarrow> n = 0 \<or> (\<forall>c \<in> set cs. keeps load store a c)"
proof (induction n arbitrary: i m)
  case (Suc n)
  show ?case
  proof (cases "test_chars load store a cs m")
    case (Inl e)
    then show ?thesis using test_chars_Inr [OF assms, of m] by (cases e) auto
  next
    case (Inr m')
    then have "\<forall>c \<in> set cs. keeps load store a c" using test_chars_Inr [OF assms, of m] by blast
    with Suc.IH [of "Suc i" m'] Inr show ?thesis by simp
  qed
qed simp

lemma work_loop_finds:
  assumes "\<forall>a \<le> e. \<forall>c \<in> set cs. keeps load store a c \<or> loses load store a c" "0 < n" "a \<le> e + 1" "work_loop load store cs n e a m = (b, r, m')"
  shows "a \<le> b \<and> b \<le> e + 1 \<and> (\<forall>x. a \<le> x \<and> x < b \<longrightarrow> (\<forall>c \<in> set cs. keeps load store x c)) \<and>
    (if r = None then b = e + 1 else b \<le> e \<and> \<not> (\<forall>c \<in> set cs. keeps load store b c))"
  using assms
proof (induction load store cs n e a m arbitrary: b r m' rule: work_loop.induct)
  case (1 load store cs k e a m)
  show ?case
  proof (cases "a \<le> e")
    case True
    have c: "\<forall>c \<in> set cs. keeps load store a c \<or> loses load store a c" using "1.prems"(1) True by blast
    note t = test_rounds_Inr [OF c, of k 0 m]
    show ?thesis
    proof (cases "test_rounds load store a cs k 0 m")
      case (Inl x)
      then have "b = a" "r \<noteq> None" using "1.prems"(4) True by (auto simp: work_loop.simps [of load store cs k e a] split: prod.splits)
      with t Inl True show ?thesis by auto
    next
      case (Inr m1)
      then have w: "work_loop load store cs k e (a + 1) m1 = (b, r, m')" using "1.prems"(4) True by (simp add: work_loop.simps [of load store cs k e a])
      have k: "\<forall>c \<in> set cs. keeps load store a c" using t Inr "1.prems"(2) by blast
      have ih: "a + 1 \<le> b \<and> b \<le> e + 1 \<and> (\<forall>x. a + 1 \<le> x \<and> x < b \<longrightarrow> (\<forall>c \<in> set cs. keeps load store x c)) \<and>
          (if r = None then b = e + 1 else b \<le> e \<and> \<not> (\<forall>c \<in> set cs. keeps load store b c))"
        by (rule "1.IH" [OF True Inr "1.prems"(1,2) _ w]) (use True in simp)
      moreover have "\<forall>c \<in> set cs. keeps load store x c" if "a \<le> x" "x < b" for x using ih k that by (cases "x = a") auto
      ultimately show ?thesis by auto
    qed
  next
    case False
    then show ?thesis using "1.prems" by (auto simp: work_loop.simps [of load store cs k e a])
  qed
qed

lemma give_back_simps [simp]: "workers (give_back a s) = workers s" "testTimes (give_back a s) = testTimes s"
  by (simp_all add: give_back_def)

text \<open>\<open>my_abort\<close> clears the pointer to a block before it gives the block back, so that it gives back nothing.\<close>

lemma abort_loop_heap: "i + n \<le> length (workers s) \<Longrightarrow> heap (fst (abort_loop cancel join n i (s, out))) = heap s"
proof (induction n arbitrary: i s out)
  case (Suc n)
  let ?s = "s\<lparr>workers := (workers s)[i := no_worker]\<rparr>"
  have "give_back (startAddress (workers ?s ! i)) ?s = ?s" using Suc.prems by (simp add: give_back_def no_worker_def)
  with Suc.IH [of "Suc i" ?s] Suc.prems show ?case by (simp add: Let_def)
qed simp

lemma my_abort_frees_nothing: "length (workers s) = 16 \<Longrightarrow> heap (fst (my_abort cancel join s)) = heap s"
  by (simp add: my_abort_def abort_loop_heap MAX_NUM_THREADS_def)

section \<open>Properties\<close>


text \<open>Memory with one bad cell, in which the highest bit is stuck at 0.\<close>

definition stuck :: "nat \<Rightarrow> nat \<Rightarrow> u8 \<Rightarrow> (nat \<Rightarrow> u8) \<Rightarrow> nat \<Rightarrow> u8" where
  "stuck bad a c m = m(a := if a = bad \<and> 128 \<le> unat c then c - 128 else c)"


end
