(* ===== verification/Spec2Isabelle.thy ===== *)
theory Spec2Isabelle imports Kprelude Who Mm Paging Shm Task Sched Waitq Sem Fork Addrspace Forkprops Exit Timer Fault Consoleprops Threadprops Namei Nameiprops Prodcons Prodconsprops Kstack Kstackprops Procfs Procprops Debugpaging Debugprops Shmprog Shmprops Syscalls Labtwo Boot Build Statlog Logprops Memtest begin

text \<open>
  A model of Hack-Linux-0.11: eight labs, each of which changes or adds files of the Linux 0.11 kernel or programs that run on
  it. The repository holds only these files; a function of the kernel or of the C library that is not in it is an argument of
  the definitions that call it. Paths below are under \<open>src/\<close>; \<open>Lab n\<close> stands for the directory of that lab, and for its
  \<open>linux-0.11\<close> when the file is one of the kernel.

  \<^bold>\<open>Conventions\<close> (\<open>Kprelude\<close>). Pointers, \<open>unsigned long\<close> and addresses are \<open>u32\<close>, bytes \<open>u8\<close>; a signed \<open>int\<close> or \<open>long\<close> is an
  \<open>int\<close> with \<open>s32\<close> written around its arithmetic. A system call returns \<open>Inr v\<close>, or \<open>Inl e\<close> for \<open>-e\<close>; \<open>panic\<close>, an out-of-memory
  exit and an endless loop are values of a sum type. C loops that need not end are \<open>partial_function (option)\<close>, and that they end is proved;
  the others are recursive functions with a measure. No definition uses fuel.

  \<^bold>\<open>Memory.\<close> \<open>Mm\<close> is \<open>Lab 6 mm/memory.c\<close>: the record \<open>mm\<close> holds physical memory (page tables are words of it), \<open>mem_map\<close> and
  \<open>sharedPages\<close>. \<open>Paging\<close> proves what its routines do, with the translation of linear addresses and the invariants
  \<open>pt_wf\<close> and \<open>vm_wf\<close>; \<open>Addrspace\<close> what \<open>copy_page_tables\<close> does to an address space; \<open>Fault\<close> adds the page faults on missing
  pages, which look at tasks. \<open>Shm\<close> is \<open>Lab 6 mm/shm.c\<close>. \<open>Boot\<close> is the part of \<open>Lab 8 init/main.c\<close> that divides the memory and reads the
  clock.

  \<^bold>\<open>Tasks.\<close> \<open>Task\<close> is \<open>include/linux/sched.h\<close> and \<open>fprintk\<close> of \<open>kernel/printk.c\<close> (Lab 3): \<open>task_struct\<close> and \<open>kern\<close>, the variables that the
  files of \<open>kernel/\<close> share. The processor leaves a task inside \<open>schedule\<close>; what the task still has to do is a
  \<open>frame\<close>. \<open>Sched\<close> and \<open>Timer\<close> are \<open>kernel/sched.c\<close>, \<open>Fork\<close> \<open>kernel/fork.c\<close>, \<open>Exit\<close> \<open>kernel/exit.c\<close>; \<open>Waitq\<close> interleaves sleeping and waking as
  a step relation with the invariant that no sleeper is dropped; \<open>Forkprops\<close> has the child of \<open>fork\<close>. \<open>Statlog\<close> is
  \<open>Lab 3 stat_log.py\<close>, the program that reads the process log, and \<open>Logprops\<close> proves that it accepts what the kernel writes. \<open>Kstack\<close> and
  \<open>Kstackprops\<close> are Lab 4, where tasks are switched on their kernel stacks: the assembler routines instruction by instruction, and the
  \<open>fork.c\<close>, \<open>sched.c\<close> that use them. \<open>Sem\<close> is \<open>Lab 5 kernel/sem.c\<close>, on \<open>sleep_on\<close> and \<open>wake_up\<close>.

  \<^bold>\<open>System calls.\<close> \<open>Who\<close> is \<open>Lab 2 kernel/who.c\<close>. \<open>Syscalls\<close> is the way from a program to a kernel routine in Labs 2, 5, 6 and 6.Ext
  (\<open>unistd.h\<close>, \<open>sys.h\<close>, \<open>system_call.s\<close>); \<open>Labtwo\<close> the programs \<open>iam.c\<close>, \<open>whoami.c\<close> and \<open>testlab2.c\<close> on it. \<open>Debugpaging\<close> and \<open>Debugprops\<close> are
  \<open>Lab 6.Ext kernel/debug.c\<close>, which prints page tables.

  \<^bold>\<open>Devices and files.\<close> \<open>Console\<close>, \<open>Conscreen\<close> and \<open>Consoleprops\<close> are \<open>Lab 7 kernel/chr_drv/console.c\<close>; \<open>Namei\<close> and \<open>Nameiprops\<close>
  \<open>Lab 8 fs/namei.c\<close>; \<open>Procfs\<close> and \<open>Procprops\<close> \<open>fs/proc_dev.c\<close> and \<open>fs/read_write.c\<close>. \<open>Build\<close> is \<open>Lab 1 tools/build.c\<close>, which puts the disk image
  together.

  \<^bold>\<open>Programs.\<close> \<open>Prodcons\<close> and \<open>Prodconsprops\<close> are \<open>Lab 5 pc.c\<close>, \<open>Shmprog\<close> and \<open>Shmprops\<close> \<open>Lab 6 producer.c\<close> and \<open>consumer.c\<close>: processes
  whose system calls interleave in any order. \<open>Threads\<close> and \<open>Threadprops\<close> are the thread package under \<open>tmp/\<close>, and \<open>Memtest\<close> is
  \<open>tmp/memtest.c\<close>.

  \<^bold>\<open>Interfaces.\<close> \<open>fifo_queues\<close> (\<open>Threadprops\<close>) states what a family of queues promises; its interpretation \<open>tq\<close> is on the linked lists of the
  thread package, and round-robin scheduling and the semaphores rest on it. \<open>shared_array\<close> (\<open>Shmprops\<close>) is an array seen
  through several views; \<open>shm_ring\<close> is its interpretation on the shared page seen through the page tables of two processes.
  \<open>syscall_interface\<close> (\<open>Syscalls\<close>) is the agreement of numbers, table and bound; it is interpreted for each of the four labs.

  \<^bold>\<open>Kinds of results.\<close> Invariants under every interleaving (sleepers, zombies, the log, both producer/consumer programs, references of
  \<open>namei.c\<close>, video memory); the effect of an operation on every branch (scheduling, \<open>fork\<close>, \<open>waitpid\<close>, copy on write); refinement
  (timer list, thread queues); equivalence (Lab 4's \<open>schedule\<close> with Lab 3's, system call dispatch, scrolling with shifting lines, printed with
  translated addresses, the image of \<open>build\<close>); termination (process numbers, both producer/consumer programs, reading the clock); round
  trips; bounds; and the errors the code really has, with the theorem that shows each.

  \<^bold>\<open>Not modelled.\<close> \<open>Lab 1 boot/*.s\<close> (16-bit code made of BIOS calls), \<open>Lab 7 keyboard.S\<close> (scan code tables; the key F12 is modelled where the
  console reacts to it), the trap and interrupt entries of \<open>system_call.s\<close> and \<open>do_signal\<close>, which is not in the repository; the device
  drivers' init routines that \<open>main\<close> calls and the shells that \<open>init\<close> starts; files that are copies of those of another lab (\<open>sem.c\<close> of Labs 6 and
  6.Ext, \<open>memory.c\<close> and \<open>shm.c\<close> of Lab 6.Ext, \<open>init/main.c\<close> of Lab 3, the headers under \<open>hdc/\<close>); \<open>process.c\<close> and \<open>switch_test.c\<close>, which only make
  processes that burn time. What programs print is modelled where a property is about it, and left out elsewhere.
\<close>

end
